(* ===== verification/Prelude.thy ===== *)
theory Prelude
  imports Main "HOL-Library.Multiset" "HOL-Library.Word"
begin

text \<open>
  What every component of the development shares: the faults a C++ operation of the library
  can run into, the result type that carries them, the collections of simplification rules
  that the component theories fill, and the lemmas on lists, finite sets and remainders that
  more than one component uses.
\<close>

section \<open>Faults and results\<close>

text \<open>
  An operation whose C++ code would dereference a null pointer, read or write outside an
  array, loop for ever, throw, use what has been deleted, read the wrong member of a union or what
  was never written, release a block by the wrong operator or copy a block onto itself is
  given a result of a sum type: \<open>Inl\<close> of the fault, or
  \<open>Inr\<close> of the value together with the state after the call.
\<close>

datatype fault =
    Null_Deref
  | Out_Of_Bounds
  | Out_Of_Range
  | Diverges
  | Use_After_Free
  | Wrong_Member
  | Wrong_Release
  | Indeterminate
  | Overlap

type_synonym 'a result = "fault + 'a"

definition returns :: "'a result \<Rightarrow> bool" where
  "returns r \<longleftrightarrow> (\<exists>x. r = Inr x)"

lemma returns_Inr [simp]: "returns (Inr x)"
  by (simp add: returns_def)

lemma returns_Inl [simp]: "\<not> returns (Inl e)"
  by (simp add: returns_def)

text \<open>The rest of an operation, when the part before it does not fault.\<close>

definition rbind :: "'a result \<Rightarrow> ('a \<Rightarrow> 'b result) \<Rightarrow> 'b result" where
  "rbind r f = (case r of Inl e \<Rightarrow> Inl e | Inr x \<Rightarrow> f x)"

lemma rbind_simps [simp]: "rbind (Inl e) f = Inl e" "rbind (Inr x) f = f x"
  by (simp_all add: rbind_def)

section \<open>Collections of rules\<close>

named_theorems model_simps \<open>unfolding equations of the operations of the model\<close>
named_theorems frame_simps \<open>fields an operation leaves alone\<close>

section \<open>Lists and finite sets\<close>

lemma length_filter_update:
  assumes "i < length xs"
  shows "length (filter P (xs[i := x])) + (if P (xs ! i) then 1 else 0)
    = length (filter P xs) + (if P x then 1 else 0)"
proof -
  have "length (filter P xs) = length (filter P (take i xs @ xs ! i # drop (Suc i) xs))"
    using assms by (simp flip: id_take_nth_drop)
  moreover have "length (filter P (xs[i := x]))
      = length (filter P (take i xs @ x # drop (Suc i) xs))"
    using assms by (simp add: upd_conv_take_nth_drop)
  ultimately show ?thesis by simp
qed

lemma sum_update:
  assumes "i < length xs"
  shows "(\<Sum>x\<in>#mset (xs[i := y]). f x) + f (xs ! i) = (\<Sum>x\<in>#mset xs. f x) + (f y :: 'b multiset)"
proof -
  have "mset xs = add_mset (xs ! i) (mset xs - {#xs ! i#})" using assms by simp
  then have "(\<Sum>x\<in>#mset xs. f x) = f (xs ! i) + (\<Sum>x\<in>#mset xs - {#xs ! i#}. f x)"
    by (metis image_mset_add_mset sum_mset.insert)
  then show ?thesis using assms by (simp add: mset_update add.commute add.left_commute)
qed

lemma filter_full_iff: "length (filter P xs) = length xs \<longleftrightarrow> (\<forall>i < length xs. P (xs ! i))"
  by (metis all_set_conv_all_nth filter_id_conv length_filter_less less_irrefl)

lemma inj_on_bounded_surj:
  fixes f :: "nat \<Rightarrow> nat"
  assumes "inj_on f {..<n}" and "\<And>i. i < n \<Longrightarrow> f i < n"
  shows "f ` {..<n} = {..<n}"
  using assms by (intro endo_inj_surj) auto

section \<open>Remainders\<close>

lemma mod_add_once: "((a mod n) + b) mod n = (a + b) mod (n::nat)"
  by (simp add: mod_add_left_eq)

text \<open>
  A step coprime to the modulus visits every residue once before it comes back: the fact
  behind open addressing with a fixed step.
\<close>

lemma coprime_step_inj:
  fixes h s n :: nat
  assumes co: "coprime s n"
  shows "inj_on (\<lambda>i. (h + i * s) mod n) {..<n}"
proof (rule inj_onI)
  fix i j
  assume ij: "i \<in> {..<n}" "j \<in> {..<n}" and eq: "(h + i * s) mod n = (h + j * s) mod n"
  have "(int h + int i * int s) mod int n = (int h + int j * int s) mod int n"
    using eq by (metis of_nat_add of_nat_mod of_nat_mult)
  then have "int n dvd (int h + int i * int s) - (int h + int j * int s)"
    by (simp add: mod_eq_dvd_iff)
  then have "int n dvd (int i - int j) * int s"
    by (simp add: algebra_simps)
  then have "int n dvd int i - int j"
    using co by (simp add: coprime_commute coprime_dvd_mult_left_iff)
  moreover have "\<bar>int i - int j\<bar> < int n" using ij by auto
  ultimately show "i = j"
    using dvd_imp_le_int [of "int i - int j" "int n"] by force
qed

lemma coprime_step_onto:
  fixes h s n :: nat
  assumes "coprime s n" and "0 < n"
  shows "(\<lambda>i. (h + i * s) mod n) ` {..<n} = {..<n}"
  using coprime_step_inj [OF assms(1)] assms(2) by (intro inj_on_bounded_surj) auto

section \<open>Clients and data refinement\<close>

text \<open>
  A client makes a list of calls. A call takes the state and gives an output and a new state,
  or a fault, after which nothing more runs.
\<close>

fun run_ops ::
  "('m \<Rightarrow> 'op \<Rightarrow> ('out \<times> 'm) result) \<Rightarrow> 'm \<Rightarrow> 'op list \<Rightarrow> ('out list \<times> 'm) result" where
  "run_ops step m [] = Inr ([], m)"
| "run_ops step m (op # ops) =
     (case step m op of
        Inl e \<Rightarrow> Inl e
      | Inr (out, m') \<Rightarrow>
          (case run_ops step m' ops of
             Inl e \<Rightarrow> Inl e
           | Inr (outs, m'') \<Rightarrow> Inr (out # outs, m'')))"

lemma run_ops_append:
  "run_ops step m ops = Inr (outs, m1) \<Longrightarrow>
    run_ops step m (ops @ ops') = (case run_ops step m1 ops' of Inl e \<Rightarrow> Inl e | Inr (outs', m') \<Rightarrow> Inr (outs @ outs', m'))"
  by (induction ops arbitrary: m outs) (auto split: sum.splits prod.splits)

text \<open>The same client on a specification, a relation between states and outputs.\<close>

fun spec_run ::
  "('s \<Rightarrow> 'op \<Rightarrow> 'out \<Rightarrow> 's \<Rightarrow> bool) \<Rightarrow> 's \<Rightarrow> 'op list \<Rightarrow> 'out list \<Rightarrow> 's \<Rightarrow> bool" where
  "spec_run spec s [] outs s' = (outs = [] \<and> s' = s)"
| "spec_run spec s (op # ops) outs s' =
     (case outs of
        [] \<Rightarrow> False
      | out # outs' \<Rightarrow> \<exists>s1. spec s op out s1 \<and> spec_run spec s1 ops outs' s')"

text \<open>The calls respect their preconditions, each in the state the calls before it leave.\<close>

fun legal_ops ::
  "('m \<Rightarrow> 'op \<Rightarrow> ('out \<times> 'm) result) \<Rightarrow> ('m \<Rightarrow> 'op \<Rightarrow> bool) \<Rightarrow> 'm \<Rightarrow> 'op list \<Rightarrow> bool" where
  "legal_ops step pre m [] = True"
| "legal_ops step pre m (op # ops) =
     (pre m op \<and> (case step m op of Inl e \<Rightarrow> True | Inr (out, m') \<Rightarrow> legal_ops step pre m' ops))"

text \<open>Every call, made where it is allowed in related states, keeps them related.\<close>

locale forward_simulation =
  fixes step :: "'m \<Rightarrow> 'op \<Rightarrow> ('out \<times> 'm) result"
    and spec :: "'s \<Rightarrow> 'op \<Rightarrow> 'out \<Rightarrow> 's \<Rightarrow> bool"
    and pre :: "'m \<Rightarrow> 'op \<Rightarrow> bool"
    and rel :: "'m \<Rightarrow> 's \<Rightarrow> bool"
  assumes fsim: "rel m s \<Longrightarrow> pre m op \<Longrightarrow>
    \<exists>out m' s'. step m op = Inr (out, m') \<and> rel m' s' \<and> spec s op out s'"
begin

lemma run_related:
  "rel m s \<Longrightarrow> legal_ops step pre m ops \<Longrightarrow>
    \<exists>outs m' s'. run_ops step m ops = Inr (outs, m') \<and> rel m' s' \<and> spec_run spec s ops outs s'"
proof (induction ops arbitrary: m s)
  case Nil
  then show ?case by simp
next
  case (Cons op ops)
  from Cons.prems have "pre m op" by simp
  from fsim [OF Cons.prems(1) this] obtain out m1 s1 where st: "step m op = Inr (out, m1)"
    and inv: "rel m1 s1" and sp: "spec s op out s1" by blast
  from Cons.prems(2) st have "legal_ops step pre m1 ops" by simp
  from Cons.IH [OF inv this] obtain outs m' s' where "run_ops step m1 ops = Inr (outs, m')"
    "rel m' s'" "spec_run spec s1 ops outs s'" by blast
  with st sp show ?case by (intro exI [of _ "out # outs"] exI [of _ m'] exI [of _ s']) auto
qed

end

text \<open>The abstract state as a function of the concrete one.\<close>

locale simulation =
  fixes step :: "'m \<Rightarrow> 'op \<Rightarrow> ('out \<times> 'm) result"
    and spec :: "'s \<Rightarrow> 'op \<Rightarrow> 'out \<Rightarrow> 's \<Rightarrow> bool"
    and pre :: "'m \<Rightarrow> 'op \<Rightarrow> bool"
    and invar :: "'m \<Rightarrow> bool"
    and abs :: "'m \<Rightarrow> 's"
  assumes sim: "invar m \<Longrightarrow> pre m op \<Longrightarrow>
    \<exists>out m'. step m op = Inr (out, m') \<and> invar m' \<and> spec (abs m) op out (abs m')"
begin

sublocale forward_simulation step spec pre "\<lambda>m s. invar m \<and> s = abs m"
  by unfold_locales (use sim in blast)

lemma run_refines:
  "invar m \<Longrightarrow> legal_ops step pre m ops \<Longrightarrow>
    \<exists>outs m'. run_ops step m ops = Inr (outs, m') \<and> invar m'
      \<and> spec_run spec (abs m) ops outs (abs m')"
  using run_related [of m "abs m" ops] by blast

lemma run_never_faults:
  "invar m \<Longrightarrow> legal_ops step pre m ops \<Longrightarrow> returns (run_ops step m ops)"
  using run_refines [of m ops] by (auto simp: returns_def)

end

lemma legal_ops_trivial: "(\<And>m op. pre m op) \<Longrightarrow> legal_ops step pre m ops"
  by (induction ops arbitrary: m) (auto split: sum.splits)

text \<open>A specification that is a function has one run.\<close>

fun fun_run :: "('s \<Rightarrow> 'op \<Rightarrow> 'out \<times> 's) \<Rightarrow> 's \<Rightarrow> 'op list \<Rightarrow> 'out list \<times> 's" where
  "fun_run f s [] = ([], s)"
| "fun_run f s (op # ops) =
     (let (out, s1) = f s op; (outs, s') = fun_run f s1 ops in (out # outs, s'))"

lemma spec_run_fun:
  "spec_run (\<lambda>s op out s'. f s op = (out, s')) s ops outs s' \<longleftrightarrow> fun_run f s ops = (outs, s')"
  by (induction ops arbitrary: s outs) (auto split: list.splits prod.splits)

end
