(* ===== verification/Close_Hashmap.thy ===== *)
theory Close_Hashmap
  imports Prelude
begin

text \<open>
  The class template \<open>CloseHashmap\<close> of \<^verbatim>\<open>src/close_hashmap.hpp\<close>: an open-addressing
  hash table that steps through its slots by one of 28 primes. This theory translates the
  class: its fields are the record \<open>close_hashmap\<close>, its member functions are the
  definitions of the same names with the prefix \<open>hm_\<close>. The correctness proofs are in
  \<open>Close_Hashmap_Correct\<close>.

  A slot is the C++ \<open>Item\<close>, a tag and a pair of key and value; the tag is 0 for a slot never
  used since the array was cleared, 1 for a live entry and -1 for an erased one. What
  \<open>bzero\<close> leaves in the key and value of a cleared slot is the field \<open>zero_pair\<close>: no operation
  reads it. \<open>hash_\<close> and \<open>key_equal_\<close> are fields, as in the class, so a table can be run with
  any functions; \<open>size_t\<close> values are natural numbers, since a slot index, a slot index plus a
  step and the capacities reached are all below $2^{64}$ for a table that fits in memory.
\<close>

section \<open>Data\<close>

type_synonym ('k, 'v) hm_item = "int \<times> 'k \<times> 'v"

record ('k, 'v) close_hashmap =
  size_array :: nat
  to_resize :: bool
  key_equal :: "'k \<Rightarrow> 'k \<Rightarrow> bool"
  hash :: "'k \<Rightarrow> nat"
  items :: "('k, 'v) hm_item list"
  num_elm :: nat
  zero_pair :: "'k \<times> 'v"

abbreviation tag :: "('k, 'v) hm_item \<Rightarrow> int" where
  "tag it \<equiv> fst it"

abbreviation key_of :: "('k, 'v) hm_item \<Rightarrow> 'k" where
  "key_of it \<equiv> fst (snd it)"

abbreviation val_of :: "('k, 'v) hm_item \<Rightarrow> 'v" where
  "val_of it \<equiv> snd (snd it)"

definition kPrimes :: "nat list" where
  "kPrimes =
    [53,         97,         193,       389,       769,
     1543,       3079,       6151,      12289,     24593,
     49157,      98317,      196613,    393241,    786433,
     1572869,    3145739,    6291469,   12582917,  25165843,
     50331653,   100663319,  201326611, 402653189, 805306457,
     1610612741, 3221225473, 4294967291]"

definition kNumPrimes :: nat where
  "kNumPrimes = 28"

text \<open>The array that \<open>malloc\<close> and \<open>bzero\<close> give.\<close>

definition cleared_items :: "'k \<times> 'v \<Rightarrow> nat \<Rightarrow> ('k, 'v) hm_item list" where
  "cleared_items z n = replicate n (0, z)"

section \<open>Init, Size, Capacity\<close>

fun init_check :: "nat \<Rightarrow> nat list \<Rightarrow> bool" where
  "init_check size_arr [] = True"
| "init_check size_arr (p # ps) =
     (if 0 = size_arr mod p then False else init_check size_arr ps)"

text \<open>\<open>None\<close> is the return value \<open>false\<close>, after which no field has been written.\<close>

definition hm_Init ::
  "'k \<times> 'v \<Rightarrow> nat \<Rightarrow> bool \<Rightarrow> ('k \<Rightarrow> 'k \<Rightarrow> bool) \<Rightarrow> ('k \<Rightarrow> nat) \<Rightarrow> ('k, 'v) close_hashmap option" where
  "hm_Init z size_arr resize eq h =
     (if \<not> init_check size_arr kPrimes then None
      else Some \<lparr>size_array = size_arr, to_resize = resize, key_equal = eq, hash = h,
                 items = cleared_items z size_arr, num_elm = 0, zero_pair = z\<rparr>)"

definition hm_Size :: "('k, 'v) close_hashmap \<Rightarrow> nat" where
  "hm_Size m = num_elm m"

definition hm_Capacity :: "('k, 'v) close_hashmap \<Rightarrow> nat" where
  "hm_Capacity m = size_array m"

section \<open>Probing\<close>

definition slot_match :: "('k, 'v) close_hashmap \<Rightarrow> 'k \<Rightarrow> nat \<Rightarrow> bool" where
  "slot_match m key pos \<longleftrightarrow>
     0 < tag (items m ! pos) \<and> key_equal m key (key_of (items m ! pos))"

text \<open>
  The loop of \<open>GetItemOrNull_\<close>: the last argument is how many more rounds it may make. The
  result is the index of the slot that the returned pointer points to, \<open>None\<close> for \<open>NULL\<close>.
\<close>

fun null_loop :: "('k, 'v) close_hashmap \<Rightarrow> 'k \<Rightarrow> nat \<Rightarrow> nat \<Rightarrow> nat \<Rightarrow> nat option" where
  "null_loop m key step pos 0 = None"
| "null_loop m key step pos (Suc rounds) =
     (let pos' = (pos + step) mod size_array m in
      if slot_match m key pos' then Some pos'
      else if tag (items m ! pos') = 0 then None
      else null_loop m key step pos' rounds)"

definition GetItemOrNull :: "('k, 'v) close_hashmap \<Rightarrow> 'k \<Rightarrow> nat option" where
  "GetItemOrNull m key =
     (let pos = hash m key mod size_array m in
      if slot_match m key pos then Some pos
      else if tag (items m ! pos) = 0 then None
      else null_loop m key (kPrimes ! (pos mod kNumPrimes)) pos (size_array m - 1))"

fun free_loop :: "('k, 'v) close_hashmap \<Rightarrow> nat \<Rightarrow> nat \<Rightarrow> nat \<Rightarrow> nat option" where
  "free_loop m step pos 0 = None"
| "free_loop m step pos (Suc rounds) =
     (if tag (items m ! pos) \<le> 0 then Some pos
      else free_loop m step ((pos + step) mod size_array m) rounds)"

definition GetItemOrFree :: "('k, 'v) close_hashmap \<Rightarrow> 'k \<Rightarrow> nat option" where
  "GetItemOrFree m key =
     (case GetItemOrNull m key of
        Some i \<Rightarrow> Some i
      | None \<Rightarrow>
          let pos = hash m key mod size_array m in
          free_loop m (kPrimes ! (pos mod kNumPrimes)) pos (size_array m))"

definition hm_Get :: "('k, 'v) close_hashmap \<Rightarrow> 'k \<Rightarrow> 'v option" where
  "hm_Get m key = map_option (\<lambda>i. val_of (items m ! i)) (GetItemOrNull m key)"

section \<open>Resize\<close>

text \<open>
  \<open>kResizeFactor * size_array_\<close> is a product of doubles, converted back to \<open>size_t\<close>: three
  halves of the size, rounded down, and exact below $2^{52}$ slots.
\<close>

definition resized :: "nat \<Rightarrow> nat" where
  "resized n = (let n' = 3 * n div 2 in if n' = n then n' + 1 else n')"

text \<open>
  The inner loop: it tries the next slots for \<open>it\<close> and leaves the new array as it is when none
  of them is clear.
\<close>

fun place_loop ::
  "nat \<Rightarrow> nat \<Rightarrow> nat \<Rightarrow> nat \<Rightarrow> ('k, 'v) hm_item \<Rightarrow> ('k, 'v) hm_item list \<Rightarrow> ('k, 'v) hm_item list" where
  "place_loop n step pos 0 it new = new"
| "place_loop n step pos (Suc rounds) it new =
     (let pos' = (pos + step) mod n in
      if tag (new ! pos') = 0 then new[pos' := it]
      else place_loop n step pos' rounds it new)"

definition place_item ::
  "('k \<Rightarrow> nat) \<Rightarrow> nat \<Rightarrow> ('k, 'v) hm_item \<Rightarrow> ('k, 'v) hm_item list \<Rightarrow> ('k, 'v) hm_item list" where
  "place_item h n it new =
     (if 0 < tag it then
        let new_pos = h (key_of it) mod n in
        if tag (new ! new_pos) = 0 then new[new_pos := it]
        else place_loop n (kPrimes ! (new_pos mod kNumPrimes)) new_pos (n - 1) it new
      else new)"

fun place_items ::
  "('k \<Rightarrow> nat) \<Rightarrow> nat \<Rightarrow> ('k, 'v) hm_item list \<Rightarrow> ('k, 'v) hm_item list \<Rightarrow> ('k, 'v) hm_item list" where
  "place_items h n [] new = new"
| "place_items h n (it # its) new = place_items h n its (place_item h n it new)"

definition hm_Resize :: "('k, 'v) close_hashmap \<Rightarrow> ('k, 'v) close_hashmap" where
  "hm_Resize m =
     (let n = resized (size_array m) in
      m\<lparr>size_array := n,
        items := place_items (hash m) n (items m) (cleared_items (zero_pair m) n)\<rparr>)"

section \<open>Insert, Upsert, Erase, Copy\<close>

definition write_item ::
  "('k, 'v) close_hashmap \<Rightarrow> nat \<Rightarrow> 'k \<Rightarrow> 'v \<Rightarrow> ('k, 'v) close_hashmap" where
  "write_item m i key val = m\<lparr>items := (items m)[i := (1, key, val)]\<rparr>"

definition write_new_item ::
  "('k, 'v) close_hashmap \<Rightarrow> nat \<Rightarrow> 'k \<Rightarrow> 'v \<Rightarrow> ('k, 'v) close_hashmap" where
  "write_new_item m i key val = (write_item m i key val)\<lparr>num_elm := num_elm m + 1\<rparr>"

text \<open>What \<open>Insert\<close> does once there is room, or once the table has been resized.\<close>

definition insert_at_free ::
  "('k, 'v) close_hashmap \<Rightarrow> 'k \<Rightarrow> 'v \<Rightarrow> (bool \<times> ('k, 'v) close_hashmap) result" where
  "insert_at_free m key val =
     (case GetItemOrFree m key of
        None \<Rightarrow> Inl Null_Deref
      | Some i \<Rightarrow>
          if tag (items m ! i) \<le> 0 then Inr (True, write_new_item m i key val)
          else Inr (False, m))"

definition hm_Insert ::
  "('k, 'v) close_hashmap \<Rightarrow> 'k \<Rightarrow> 'v \<Rightarrow> (bool \<times> ('k, 'v) close_hashmap) result" where
  "hm_Insert m key val =
     (if size_array m = num_elm m then
        if to_resize m then insert_at_free (hm_Resize m) key val
        else Inr (False, m)
      else insert_at_free m key val)"

definition hm_Upsert ::
  "('k, 'v) close_hashmap \<Rightarrow> 'k \<Rightarrow> 'v \<Rightarrow> (bool \<times> ('k, 'v) close_hashmap) result" where
  "hm_Upsert m key val =
     (let item = GetItemOrFree m key in
      if item \<noteq> None \<and> 0 < tag (items m ! the item)
      then Inr (True, write_item m (the item) key val)
      else if size_array m \<noteq> num_elm m then
        (case item of
           None \<Rightarrow> Inl Null_Deref
         | Some i \<Rightarrow> Inr (True, write_new_item m i key val))
      else if to_resize m then
        let m' = hm_Resize m in
        (case GetItemOrFree m' key of
           None \<Rightarrow> Inl Null_Deref
         | Some i \<Rightarrow> Inr (True, write_new_item m' i key val))
      else Inr (False, m))"

definition hm_Erase ::
  "('k, 'v) close_hashmap \<Rightarrow> 'k \<Rightarrow> bool \<times> ('k, 'v) close_hashmap" where
  "hm_Erase m key =
     (case GetItemOrNull m key of
        Some i \<Rightarrow>
          (True, m\<lparr>items := (items m)[i := (-1, snd (items m ! i))], num_elm := num_elm m - 1\<rparr>)
      | None \<Rightarrow> (False, m))"

text \<open>
  \<open>Copy\<close>: \<open>realloc\<close> keeps what fits of the old array; when it grows, the added memory holds
  whatever it holds, the argument \<open>junk\<close>. Then \<open>memcpy\<close> copies as many slots as the other
  table has elements.
\<close>

definition hm_Copy ::
  "('k, 'v) hm_item list \<Rightarrow> ('k, 'v) close_hashmap \<Rightarrow> ('k, 'v) close_hashmap \<Rightarrow> ('k, 'v) close_hashmap" where
  "hm_Copy junk m other =
     (let n = size_array other;
          its = (if size_array m \<noteq> n
                 then take n (items m) @ take (n - length (items m)) junk
                 else items m);
          k = num_elm other
      in m\<lparr>size_array := n, num_elm := k, items := take k (items other) @ drop k its\<rparr>)"

section \<open>Iterator\<close>

text \<open>
  An iterator is the table it walks and a position. The scan of its constructor and of \<open>Next\<close>
  looks for the next live slot; \<open>rounds\<close> is the distance to the end of the array.
\<close>

fun iter_scan :: "('k, 'v) close_hashmap \<Rightarrow> nat \<Rightarrow> nat \<Rightarrow> nat" where
  "iter_scan m pos 0 = pos"
| "iter_scan m pos (Suc rounds) =
     (if 0 < tag (items m ! pos) then pos else iter_scan m (pos + 1) rounds)"

definition iter_Begin :: "('k, 'v) close_hashmap \<Rightarrow> nat" where
  "iter_Begin m = iter_scan m 0 (hm_Capacity m)"

definition iter_End :: "('k, 'v) close_hashmap \<Rightarrow> nat" where
  "iter_End m = hm_Capacity m"

definition iter_Next :: "('k, 'v) close_hashmap \<Rightarrow> nat \<Rightarrow> nat" where
  "iter_Next m pos =
     (if hm_Capacity m = pos then pos
      else iter_scan m (pos + 1) (hm_Capacity m - (pos + 1)))"

definition iter_Deref :: "('k, 'v) close_hashmap \<Rightarrow> nat \<Rightarrow> ('k \<times> 'v) option" where
  "iter_Deref m pos = (if pos \<noteq> hm_Capacity m then Some (snd (items m ! pos)) else None)"

text \<open>
  The loop \<open>for (it = Begin(); it != End(); it.Next())\<close>, collecting what \<open>operator->\<close> gives;
  the capacity bounds its rounds.
\<close>

fun iter_walk :: "('k, 'v) close_hashmap \<Rightarrow> nat \<Rightarrow> nat \<Rightarrow> ('k \<times> 'v) list" where
  "iter_walk m pos 0 = []"
| "iter_walk m pos (Suc rounds) =
     (if pos = iter_End m then []
      else (case iter_Deref m pos of None \<Rightarrow> [] | Some kv \<Rightarrow> [kv])
           @ iter_walk m (iter_Next m pos) rounds)"

definition iterate_all :: "('k, 'v) close_hashmap \<Rightarrow> ('k \<times> 'v) list" where
  "iterate_all m = iter_walk m (iter_Begin m) (hm_Capacity m)"

text \<open>
  Iterators as values, the number of the table that \<open>master_\<close> points to or \<open>None\<close>, and the position:
  the default one, the copy, the assignment, the comparison and \<open>IsEnd\<close>.
\<close>

type_synonym hm_iterator = "nat option \<times> nat"

definition iter_default :: hm_iterator where
  "iter_default = (None, 0)"

definition iter_new :: "(nat \<Rightarrow> ('k, 'v) close_hashmap) \<Rightarrow> nat \<Rightarrow> bool \<Rightarrow> hm_iterator" where
  "iter_new tables t at_begin = (Some t, if \<not> at_begin then hm_Capacity (tables t) else iter_scan (tables t) 0 (hm_Capacity (tables t)))"

definition iter_copy :: "hm_iterator \<Rightarrow> hm_iterator" where
  "iter_copy it = (fst it, snd it)"

definition iter_assign :: "hm_iterator \<Rightarrow> hm_iterator \<Rightarrow> hm_iterator" where
  "iter_assign self it = (let self1 = (fst it, snd self) in (fst self1, snd it))"

definition iter_equal :: "hm_iterator \<Rightarrow> hm_iterator \<Rightarrow> bool" where
  "iter_equal self it \<longleftrightarrow> fst self = fst it \<and> snd self = snd it"

definition iter_IsEnd :: "(nat \<Rightarrow> ('k, 'v) close_hashmap) \<Rightarrow> hm_iterator \<Rightarrow> bool result" where
  "iter_IsEnd tables it = (case fst it of None \<Rightarrow> Inl Null_Deref | Some t \<Rightarrow> Inr (snd it = hm_Capacity (tables t)))"

text \<open>Comparing with \<open>End()\<close> and asking \<open>IsEnd()\<close> are the same, except for an iterator without a table.\<close>

lemma iter_end_agree: "fst it = Some t \<Longrightarrow> iter_IsEnd tables it = Inr (iter_equal it (iter_new tables t False))"
  by (simp add: iter_IsEnd_def iter_equal_def iter_new_def)

lemma iter_default_end: "iter_IsEnd tables iter_default = Inl Null_Deref \<and> \<not> iter_equal iter_default (iter_new tables t False)"
  by (simp add: iter_IsEnd_def iter_default_def iter_equal_def iter_new_def)

definition iter_differs :: "hm_iterator \<Rightarrow> hm_iterator \<Rightarrow> bool" where
  "iter_differs self it \<longleftrightarrow> \<not> iter_equal self it"

lemma iter_copy_assign: "\<not> iter_differs (iter_copy it) it" "\<not> iter_differs (iter_assign self it) it"
  by (simp_all add: iter_differs_def iter_equal_def iter_copy_def iter_assign_def Let_def)

text \<open>
  The member \<open>items_\<close>, which no constructor sets, \<open>Init\<close> sets unless it refuses the size, and the
  destructor frees without destroying the keys and values in it: the number of those, or a fault.
\<close>

definition hm_destroy :: "('k, 'v) close_hashmap option \<Rightarrow> nat result" where
  "hm_destroy made = (case made of None \<Rightarrow> Inl Indeterminate | Some m \<Rightarrow> Inr (length (filter (\<lambda>it. tag it \<noteq> 0) (items m))))"

lemma hm_destroy_refused: "hm_destroy (hm_Init z n r eq h) = Inl Indeterminate \<longleftrightarrow> \<not> init_check n kPrimes"
  by (simp add: hm_destroy_def hm_Init_def)

end
