(* ===== verification/Close_Hashmap_Correct.thy ===== *)
theory Close_Hashmap_Correct
  imports Close_Hashmap
begin

text \<open>
  Correctness of \<open>CloseHashmap\<close>. The invariant \<open>hm_inv\<close> says that every live entry can be
  reached by its probe sequence without passing a clear slot, that live keys are distinct and
  that \<open>num_elm_\<close> counts them; \<open>hm_map\<close> is the finite map a table stands for. Every operation
  keeps the invariant and does to \<open>hm_map\<close> what its name says.
\<close>

section \<open>Probe sequences\<close>

definition probe_slot :: "nat \<Rightarrow> nat \<Rightarrow> nat \<Rightarrow> nat \<Rightarrow> nat" where
  "probe_slot n pos step i = (pos + i * step) mod n"

definition home :: "('k, 'v) close_hashmap \<Rightarrow> 'k \<Rightarrow> nat" where
  "home m k = hash m k mod size_array m"

definition probe_step :: "('k, 'v) close_hashmap \<Rightarrow> 'k \<Rightarrow> nat" where
  "probe_step m k = kPrimes ! (home m k mod kNumPrimes)"

definition probe :: "('k, 'v) close_hashmap \<Rightarrow> 'k \<Rightarrow> nat \<Rightarrow> nat" where
  "probe m k i = probe_slot (size_array m) (home m k) (probe_step m k) i"

definition coprime_size :: "nat \<Rightarrow> bool" where
  "coprime_size n \<longleftrightarrow> (\<forall>p \<in> set kPrimes. coprime p n)"

lemma probe_slot_0 [simp]: "pos < n \<Longrightarrow> probe_slot n pos s 0 = pos"
  by (simp add: probe_slot_def)

lemma probe_slot_Suc [simp]:
  "probe_slot n ((pos + s) mod n) s i = probe_slot n pos s (Suc i)"
  by (simp add: probe_slot_def mod_simps algebra_simps)

lemma probe_slot_less: "0 < n \<Longrightarrow> probe_slot n pos s i < n"
  by (simp add: probe_slot_def)

lemma probe_less: "0 < size_array m \<Longrightarrow> probe m k i < size_array m"
  by (simp add: probe_def probe_slot_less)

lemma home_less: "0 < size_array m \<Longrightarrow> home m k < size_array m"
  by (simp add: home_def)

lemma probe_0: "0 < size_array m \<Longrightarrow> probe m k 0 = home m k"
  by (simp add: probe_def home_less)

lemma length_kPrimes: "length kPrimes = kNumPrimes"
  by (simp add: kPrimes_def kNumPrimes_def)

lemma probe_step_prime: "probe_step m k \<in> set kPrimes"
proof -
  have "home m k mod kNumPrimes < length kPrimes"
    by (simp add: length_kPrimes) (simp add: kNumPrimes_def)
  then show ?thesis by (simp add: probe_step_def)
qed

lemma probe_onto:
  assumes "coprime_size (size_array m)" and "0 < size_array m"
  shows "probe m k ` {..<size_array m} = {..<size_array m}"
proof -
  have "coprime (probe_step m k) (size_array m)"
    using assms(1) probe_step_prime [of m k] unfolding coprime_size_def by blast
  from coprime_step_onto [OF this assms(2), of "home m k"]
  show ?thesis by (simp add: probe_def [abs_def] probe_slot_def)
qed

lemma probe_hits:
  assumes "coprime_size (size_array m)" and "j < size_array m"
  obtains i where "i < size_array m" and "probe m k i = j"
proof -
  have "j \<in> probe m k ` {..<size_array m}"
    using probe_onto [OF assms(1), of k] assms(2) by auto
  then show ?thesis using that by auto
qed

section \<open>The search loops\<close>

text \<open>\<open>GetItemOrNull_\<close> is one scan along the probe sequence, its first slot included.\<close>

fun null_scan :: "('k, 'v) close_hashmap \<Rightarrow> 'k \<Rightarrow> nat \<Rightarrow> nat \<Rightarrow> nat \<Rightarrow> nat option" where
  "null_scan m key step pos 0 = None"
| "null_scan m key step pos (Suc rounds) =
     (if slot_match m key pos then Some pos
      else if tag (items m ! pos) = 0 then None
      else null_scan m key step ((pos + step) mod size_array m) rounds)"

lemma null_loop_scan:
  "null_loop m key step pos rounds
    = null_scan m key step ((pos + step) mod size_array m) rounds"
  by (induction rounds arbitrary: pos) (simp_all add: Let_def)

lemma GetItemOrNull_scan:
  assumes "0 < size_array m"
  shows "GetItemOrNull m key = null_scan m key (probe_step m key) (home m key) (size_array m)"
proof -
  obtain r where r: "size_array m = Suc r" using assms gr0_conv_Suc by blast
  show ?thesis
    by (simp add: GetItemOrNull_def null_loop_scan Let_def home_def probe_step_def r)
qed

lemma null_scan_Some:
  assumes "null_scan m key s pos r = Some j" and "pos < size_array m"
  shows "\<exists>i < r. j = probe_slot (size_array m) pos s i \<and> slot_match m key j"
  using assms
proof (induction r arbitrary: pos)
  case 0
  then show ?case by simp
next
  case (Suc r)
  show ?case
  proof (cases "slot_match m key pos")
    case True
    with Suc.prems show ?thesis by (intro exI [of _ 0]) auto
  next
    case False
    with Suc.prems have "null_scan m key s ((pos + s) mod size_array m) r = Some j"
      by (auto split: if_splits)
    from Suc.IH [OF this] Suc.prems(2) obtain i where "i < r"
      "j = probe_slot (size_array m) pos s (Suc i)" "slot_match m key j" by auto
    then show ?thesis by (intro exI [of _ "Suc i"]) auto
  qed
qed

text \<open>A scan that fails saw no match, or stopped at a clear slot before any match.\<close>

lemma null_scan_None:
  assumes "null_scan m key s pos r = None" and "pos < size_array m"
    and "i < r" and "slot_match m key (probe_slot (size_array m) pos s i)"
  shows "\<exists>i' < i. tag (items m ! probe_slot (size_array m) pos s i') = 0"
  using assms
proof (induction r arbitrary: pos i)
  case 0
  then show ?case by simp
next
  case (Suc r)
  have nm: "\<not> slot_match m key pos" using Suc.prems(1) by auto
  with Suc.prems(2,4) obtain i0 where i0: "i = Suc i0" by (cases i) auto
  show ?case
  proof (cases "tag (items m ! pos) = 0")
    case True
    with Suc.prems(2) i0 show ?thesis by (intro exI [of _ 0]) auto
  next
    case False
    have "null_scan m key s ((pos + s) mod size_array m) r = None"
      using Suc.prems(1) False nm by simp
    from Suc.IH [OF this, of i0] Suc.prems i0 obtain i' where "i' < i0"
      "tag (items m ! probe_slot (size_array m) pos s (Suc i')) = 0" by auto
    then show ?thesis using i0 by (intro exI [of _ "Suc i'"]) auto
  qed
qed

lemma free_loop_Some:
  assumes "free_loop m s pos r = Some j" and "pos < size_array m"
  shows "\<exists>i < r. j = probe_slot (size_array m) pos s i \<and> tag (items m ! j) \<le> 0
    \<and> (\<forall>i' < i. 0 < tag (items m ! probe_slot (size_array m) pos s i'))"
  using assms
proof (induction r arbitrary: pos)
  case 0
  then show ?case by simp
next
  case (Suc r)
  show ?case
  proof (cases "tag (items m ! pos) \<le> 0")
    case True
    with Suc.prems show ?thesis by (intro exI [of _ 0]) auto
  next
    case False
    with Suc.prems have "free_loop m s ((pos + s) mod size_array m) r = Some j" by simp
    from Suc.IH [OF this] Suc.prems(2) obtain i where i: "i < r"
      "j = probe_slot (size_array m) pos s (Suc i)" "tag (items m ! j) \<le> 0"
      "\<forall>i' < i. 0 < tag (items m ! probe_slot (size_array m) pos s (Suc i'))" by auto
    then show ?thesis using False Suc.prems(2)
      by (intro exI [of _ "Suc i"]) (auto simp: less_Suc_eq_0_disj)
  qed
qed

lemma free_loop_None:
  assumes "free_loop m s pos r = None" and "pos < size_array m" and "i < r"
  shows "0 < tag (items m ! probe_slot (size_array m) pos s i)"
  using assms
proof (induction r arbitrary: pos i)
  case 0
  then show ?case by simp
next
  case (Suc r)
  have live: "0 < tag (items m ! pos)"
    and rest: "free_loop m s ((pos + s) mod size_array m) r = None"
    using Suc.prems(1) by (auto split: if_splits)
  show ?case
  proof (cases i)
    case 0
    with live Suc.prems(2) show ?thesis by simp
  next
    case (Suc i0)
    with Suc.IH [OF rest, of i0] Suc.prems(2,3) show ?thesis by simp
  qed
qed

section \<open>The invariant and the map of a table\<close>

definition live :: "('k, 'v) close_hashmap \<Rightarrow> nat \<Rightarrow> bool" where
  "live m j \<longleftrightarrow> j < length (items m) \<and> 0 < tag (items m ! j)"

definition num_live :: "('k, 'v) close_hashmap \<Rightarrow> nat" where
  "num_live m = length (filter (\<lambda>it. 0 < tag it) (items m))"

text \<open>
  The part of the invariant about the array alone: every live entry lies on the probe sequence
  of its key behind slots that are not clear, and no key is live twice.
\<close>

definition reach_inv :: "('k, 'v) close_hashmap \<Rightarrow> bool" where
  "reach_inv m \<longleftrightarrow>
     (\<forall>j. live m j \<longrightarrow> (\<exists>i < size_array m. probe m (key_of (items m ! j)) i = j \<and>
        (\<forall>i' < i. tag (items m ! probe m (key_of (items m ! j)) i') \<noteq> 0)))"

definition distinct_keys :: "('k, 'v) close_hashmap \<Rightarrow> bool" where
  "distinct_keys m \<longleftrightarrow>
     (\<forall>i j. live m i \<longrightarrow> live m j \<longrightarrow> key_of (items m ! i) = key_of (items m ! j) \<longrightarrow> i = j)"

definition table_inv :: "('k, 'v) close_hashmap \<Rightarrow> bool" where
  "table_inv m \<longleftrightarrow> 0 < size_array m \<and> coprime_size (size_array m)
     \<and> length (items m) = size_array m \<and> key_equal m = (=) \<and> reach_inv m \<and> distinct_keys m"

definition hm_inv :: "('k, 'v) close_hashmap \<Rightarrow> bool" where
  "hm_inv m \<longleftrightarrow> table_inv m \<and> num_elm m = num_live m"

definition hm_map :: "('k, 'v) close_hashmap \<Rightarrow> 'k \<Rightarrow> 'v option" where
  "hm_map m = map_of (map snd (filter (\<lambda>it. 0 < tag it) (items m)))"

lemma table_invD:
  assumes "table_inv m"
  shows "0 < size_array m" "coprime_size (size_array m)" "length (items m) = size_array m"
    "key_equal m = (=)" "reach_inv m" "distinct_keys m"
  using assms by (auto simp: table_inv_def)

lemma hm_inv_table: "hm_inv m \<Longrightarrow> table_inv m"
  by (simp add: hm_inv_def)

lemma slot_match_eq:
  assumes "table_inv m" and "j < size_array m"
  shows "slot_match m k j \<longleftrightarrow> live m j \<and> key_of (items m ! j) = k"
  using table_invD(3,4) [OF assms(1)] assms(2) by (auto simp: slot_match_def live_def)

lemma in_live_pairs:
  "(k, v) \<in> set (map snd (filter (\<lambda>it. 0 < tag it) (items m)))
    \<longleftrightarrow> (\<exists>j. live m j \<and> snd (items m ! j) = (k, v))"
proof
  assume "(k, v) \<in> set (map snd (filter (\<lambda>it. 0 < tag it) (items m)))"
  then show "\<exists>j. live m j \<and> snd (items m ! j) = (k, v)"
    by (auto simp: live_def in_set_conv_nth)
next
  assume "\<exists>j. live m j \<and> snd (items m ! j) = (k, v)"
  then obtain j where "live m j" and kv: "(k, v) = snd (items m ! j)" by auto
  then have "items m ! j \<in> set (filter (\<lambda>it. 0 < tag it) (items m))"
    by (simp add: live_def)
  with kv show "(k, v) \<in> set (map snd (filter (\<lambda>it. 0 < tag it) (items m)))" by simp
qed

lemma hm_map_Some_iff:
  assumes "distinct_keys m"
  shows "hm_map m k = Some v \<longleftrightarrow> (\<exists>j. live m j \<and> snd (items m ! j) = (k, v))"
proof
  assume "hm_map m k = Some v"
  then show "\<exists>j. live m j \<and> snd (items m ! j) = (k, v)"
    unfolding hm_map_def in_live_pairs [symmetric] by (rule map_of_SomeD)
next
  assume ex: "\<exists>j. live m j \<and> snd (items m ! j) = (k, v)"
  then obtain v' where v': "hm_map m k = Some v'"
    unfolding hm_map_def in_live_pairs [symmetric] by (meson weak_map_of_SomeI)
  then have "\<exists>j. live m j \<and> snd (items m ! j) = (k, v')"
    unfolding hm_map_def in_live_pairs [symmetric] by (rule map_of_SomeD)
  with ex assms have "v' = v" by (fastforce simp: distinct_keys_def)
  with v' show "hm_map m k = Some v" by simp
qed

lemma hm_map_None_iff:
  "hm_map m k = None \<longleftrightarrow> (\<forall>j. live m j \<longrightarrow> key_of (items m ! j) \<noteq> k)"
proof -
  have "hm_map m k = None
      \<longleftrightarrow> (\<forall>v. (k, v) \<notin> set (map snd (filter (\<lambda>it. 0 < tag it) (items m))))"
    unfolding hm_map_def map_of_eq_None_iff by force
  then show ?thesis
    unfolding in_live_pairs by (metis prod.collapse fst_conv)
qed

lemma hm_map_live:
  assumes "distinct_keys m" and "live m j"
  shows "hm_map m (key_of (items m ! j)) = Some (val_of (items m ! j))"
  using assms by (auto simp: hm_map_Some_iff intro!: exI [of _ j])

lemma num_live_full:
  "num_live m = length (items m) \<longleftrightarrow> (\<forall>j < length (items m). 0 < tag (items m ! j))"
  by (simp add: num_live_def filter_full_iff)

lemma not_full_slot:
  assumes "num_live m < length (items m)"
  obtains j where "j < length (items m)" and "tag (items m ! j) \<le> 0"
  using assms num_live_full [of m] by (metis not_le less_irrefl)

section \<open>The searches under the invariant\<close>

lemma GetItemOrNull_Some:
  assumes "table_inv m" and "GetItemOrNull m k = Some j"
  shows "live m j \<and> key_of (items m ! j) = k"
proof -
  note inv = table_invD [OF assms(1)]
  have "null_scan m k (probe_step m k) (home m k) (size_array m) = Some j"
    using assms(2) inv(1) by (simp add: GetItemOrNull_scan)
  from null_scan_Some [OF this home_less [OF inv(1)]]
  have "slot_match m k j" and "j < size_array m"
    using probe_slot_less [OF inv(1)] by auto
  then show ?thesis using slot_match_eq [OF assms(1)] by blast
qed

lemma GetItemOrNull_None:
  assumes "table_inv m" and "GetItemOrNull m k = None" and "live m j"
  shows "key_of (items m ! j) \<noteq> k"
proof
  assume k: "key_of (items m ! j) = k"
  note inv = table_invD [OF assms(1)]
  from inv(5) assms(3) k obtain i where i: "i < size_array m" "probe m k i = j"
    and before: "\<forall>i' < i. tag (items m ! probe m k i') \<noteq> 0"
    unfolding reach_inv_def by blast
  have "j < size_array m" using assms(3) inv(3) by (simp add: live_def)
  from slot_match_eq [OF assms(1) this, of k] assms(3) k i(2)
  have "slot_match m k (probe m k i)" by simp
  moreover have "null_scan m k (probe_step m k) (home m k) (size_array m) = None"
    using assms(2) inv(1) by (simp add: GetItemOrNull_scan)
  ultimately have "\<exists>i' < i. tag (items m ! probe m k i') = 0"
    using null_scan_None [OF _ home_less [OF inv(1)] i(1)] unfolding probe_def by blast
  with before show False by blast
qed

lemma GetItemOrNull_live:
  assumes "table_inv m" and "live m j"
  shows "GetItemOrNull m (key_of (items m ! j)) = Some j"
proof (cases "GetItemOrNull m (key_of (items m ! j))")
  case None
  from GetItemOrNull_None [OF assms(1) None assms(2)] show ?thesis by simp
next
  case (Some j')
  from GetItemOrNull_Some [OF assms(1) Some] table_invD(6) [OF assms(1)] assms(2)
  show ?thesis using Some by (auto simp: distinct_keys_def)
qed

lemma GetItemOrNull_map:
  assumes "table_inv m"
  shows "GetItemOrNull m k = None \<longleftrightarrow> hm_map m k = None"
proof
  assume "GetItemOrNull m k = None"
  with GetItemOrNull_None [OF assms] show "hm_map m k = None" by (simp add: hm_map_None_iff)
next
  assume "hm_map m k = None"
  with GetItemOrNull_Some [OF assms, of k] show "GetItemOrNull m k = None"
    by (cases "GetItemOrNull m k") (auto simp: hm_map_None_iff)
qed

lemma GetItemOrNull_free_loop:
  assumes "table_inv m" and "GetItemOrNull m k = None"
  shows "GetItemOrFree m k
    = free_loop m (probe_step m k) (home m k) (size_array m)"
  using assms by (simp add: GetItemOrFree_def home_def probe_step_def Let_def)

text \<open>A key that is not in a table with a slot to spare gets the first such slot it probes.\<close>

lemma GetItemOrFree_absent:
  assumes "table_inv m" and "hm_map m k = None" and "num_live m < size_array m"
  obtains i where "i < size_array m" and "GetItemOrFree m k = Some (probe m k i)"
    and "tag (items m ! probe m k i) \<le> 0"
    and "\<forall>i' < i. 0 < tag (items m ! probe m k i')"
proof -
  note inv = table_invD [OF assms(1)]
  have loop: "GetItemOrFree m k = free_loop m (probe_step m k) (home m k) (size_array m)"
    using GetItemOrNull_free_loop [OF assms(1)] GetItemOrNull_map [OF assms(1)] assms(2) by blast
  obtain j where j: "j < size_array m" "tag (items m ! j) \<le> 0"
    using not_full_slot [of m] assms(3) inv(3) by auto
  obtain i0 where i0: "i0 < size_array m" "probe m k i0 = j"
    using probe_hits [OF inv(2) j(1)] by blast
  obtain p where p: "free_loop m (probe_step m k) (home m k) (size_array m) = Some p"
    using free_loop_None [OF _ home_less [OF inv(1), of k] i0(1), of "probe_step m k"] i0(2) j(2)
    by (cases "free_loop m (probe_step m k) (home m k) (size_array m)")
      (auto simp: probe_def)
  from free_loop_Some [OF p home_less [OF inv(1)]] p loop that show ?thesis
    unfolding probe_def by auto
qed

lemma GetItemOrFree_present:
  assumes "table_inv m" and "hm_map m k \<noteq> None"
  obtains j where "GetItemOrFree m k = Some j" and "live m j" and "key_of (items m ! j) = k"
proof -
  obtain j where j: "GetItemOrNull m k = Some j"
    using assms(2) GetItemOrNull_map [OF assms(1), of k] by auto
  with GetItemOrNull_Some [OF assms(1) j] that show ?thesis
    by (simp add: GetItemOrFree_def)
qed

text \<open>A full table has no slot for a key it does not hold.\<close>

lemma GetItemOrFree_full:
  assumes "table_inv m" and "hm_map m k = None" and "num_live m = size_array m"
  shows "GetItemOrFree m k = None"
proof (rule ccontr)
  assume "GetItemOrFree m k \<noteq> None"
  then obtain p where p: "GetItemOrFree m k = Some p" by blast
  note inv = table_invD [OF assms(1)]
  have "free_loop m (probe_step m k) (home m k) (size_array m) = Some p"
    using p GetItemOrNull_free_loop [OF assms(1)] GetItemOrNull_map [OF assms(1)] assms(2) by simp
  from free_loop_Some [OF this home_less [OF inv(1)]]
  have "p < size_array m" "tag (items m ! p) \<le> 0"
    using probe_slot_less [OF inv(1)] by auto
  moreover have "\<forall>j < size_array m. 0 < tag (items m ! j)"
    using assms(3) inv(3) num_live_full [of m] by simp
  ultimately show False by fastforce
qed

section \<open>Writing a slot\<close>

definition put_item ::
  "('k, 'v) close_hashmap \<Rightarrow> nat \<Rightarrow> ('k, 'v) hm_item \<Rightarrow> ('k, 'v) close_hashmap" where
  "put_item m j it = m\<lparr>items := (items m)[j := it]\<rparr>"

lemma put_item_simps [simp]:
  "size_array (put_item m j it) = size_array m"
  "key_equal (put_item m j it) = key_equal m"
  "hash (put_item m j it) = hash m"
  "length (items (put_item m j it)) = length (items m)"
  "num_elm (put_item m j it) = num_elm m"
  "to_resize (put_item m j it) = to_resize m"
  by (simp_all add: put_item_def)

lemma home_put [simp]: "home (put_item m j it) k = home m k"
  by (simp add: home_def)

lemma probe_put [simp]: "probe (put_item m j it) k i = probe m k i"
  by (simp add: probe_def probe_step_def)

lemma items_put:
  "j < length (items m) \<Longrightarrow> items (put_item m j it) ! j' = (if j' = j then it else items m ! j')"
  by (simp add: put_item_def nth_list_update)

lemma live_put:
  "j < length (items m) \<Longrightarrow> live (put_item m j it) j' \<longleftrightarrow> (if j' = j then 0 < tag it else live m j')"
  by (simp add: live_def items_put)

lemma num_live_put:
  "j < length (items m) \<Longrightarrow>
    num_live (put_item m j it) + (if live m j then 1 else 0)
      = num_live m + (if 0 < tag it then 1 else 0)"
  using length_filter_update [of j "items m" "\<lambda>it. 0 < tag it" it]
  by (simp add: num_live_def put_item_def live_def)

text \<open>Writing a tag other than 0 never cuts a probe sequence.\<close>

lemma reach_put:
  assumes "reach_inv m" and j: "j < length (items m)" and t: "tag it \<noteq> 0"
    and new: "0 < tag it \<Longrightarrow> \<exists>i < size_array m. probe m (key_of it) i = j \<and>
        (\<forall>i' < i. tag (items m ! probe m (key_of it) i') \<noteq> 0)"
  shows "reach_inv (put_item m j it)"
  unfolding reach_inv_def
proof (intro allI impI)
  fix j'
  assume lv: "live (put_item m j it) j'"
  let ?k = "key_of (items (put_item m j it) ! j')"
  have "\<exists>i < size_array m. probe m ?k i = j' \<and> (\<forall>i' < i. tag (items m ! probe m ?k i') \<noteq> 0)"
  proof (cases "j' = j")
    case True
    with lv j new show ?thesis by (simp add: live_put items_put)
  next
    case False
    with lv j assms(1) show ?thesis by (simp add: live_put items_put reach_inv_def)
  qed
  then obtain i where "i < size_array m" "probe m ?k i = j'"
    and "\<forall>i' < i. tag (items m ! probe m ?k i') \<noteq> 0" by blast
  then show "\<exists>i < size_array (put_item m j it). probe (put_item m j it) ?k i = j' \<and>
      (\<forall>i' < i. tag (items (put_item m j it) ! probe (put_item m j it) ?k i') \<noteq> 0)"
    using j t by (intro exI [of _ i]) (auto simp: items_put)
qed

text \<open>A write leaves the map alone at every key that is neither in the slot before nor after.\<close>

lemma hm_map_put_other:
  assumes dk: "distinct_keys m" and dk': "distinct_keys (put_item m j it)"
    and j: "j < length (items m)" and new: "0 < tag it \<Longrightarrow> key_of it \<noteq> k"
    and old: "live m j \<Longrightarrow> key_of (items m ! j) \<noteq> k"
  shows "hm_map (put_item m j it) k = hm_map m k"
proof -
  have "live (put_item m j it) j' \<and> snd (items (put_item m j it) ! j') = (k, v)
      \<longleftrightarrow> live m j' \<and> snd (items m ! j') = (k, v)" for j' v
    using j new old by (cases "j' = j") (auto simp: live_put items_put)
  then have "hm_map (put_item m j it) k = Some v \<longleftrightarrow> hm_map m k = Some v" for v
    by (simp add: hm_map_Some_iff [OF dk] hm_map_Some_iff [OF dk'])
  then show ?thesis by (metis not_None_eq)
qed

lemma put_insert:
  assumes inv: "table_inv m" and it: "0 < tag it" and absent: "hm_map m (key_of it) = None"
    and i: "i < size_array m" and j: "j = probe m (key_of it) i"
    and before: "\<forall>i' < i. tag (items m ! probe m (key_of it) i') \<noteq> 0"
    and free: "tag (items m ! j) \<le> 0"
  shows "table_inv (put_item m j it)"
    and "hm_map (put_item m j it) = (hm_map m)(key_of it \<mapsto> val_of it)"
    and "num_live (put_item m j it) = num_live m + 1"
proof -
  note inv' = table_invD [OF inv]
  have jn: "j < length (items m)" using j inv'(1,3) probe_less by simp
  have dk: "distinct_keys (put_item m j it)"
    using inv'(6) absent jn by (auto simp: distinct_keys_def live_put items_put hm_map_None_iff)
  have "reach_inv (put_item m j it)"
    using inv'(5) jn it i j before by (intro reach_put) auto
  with inv' dk show "table_inv (put_item m j it)" by (simp add: table_inv_def)
  show "num_live (put_item m j it) = num_live m + 1"
    using num_live_put [OF jn, of it] it free by (simp add: live_def)
  show "hm_map (put_item m j it) = (hm_map m)(key_of it \<mapsto> val_of it)"
  proof
    fix k
    show "hm_map (put_item m j it) k = ((hm_map m)(key_of it \<mapsto> val_of it)) k"
    proof (cases "k = key_of it")
      case True
      with hm_map_live [OF dk, of j] jn it show ?thesis by (simp add: live_put items_put)
    next
      case False
      have "hm_map (put_item m j it) k = hm_map m k"
        by (rule hm_map_put_other [OF inv'(6) dk jn]) (use False free in \<open>auto simp: live_def\<close>)
      with False show ?thesis by simp
    qed
  qed
qed

lemma put_overwrite:
  assumes inv: "table_inv m" and it: "0 < tag it" and lv: "live m j"
    and k: "key_of (items m ! j) = key_of it"
  shows "table_inv (put_item m j it)"
    and "hm_map (put_item m j it) = (hm_map m)(key_of it \<mapsto> val_of it)"
    and "num_live (put_item m j it) = num_live m"
proof -
  note inv' = table_invD [OF inv]
  have jn: "j < length (items m)" using lv by (simp add: live_def)
  have dk: "distinct_keys (put_item m j it)"
    using inv'(6) lv k jn by (auto simp: distinct_keys_def live_put items_put)
  have "reach_inv (put_item m j it)"
  proof (rule reach_put [OF inv'(5) jn])
    show "tag it \<noteq> 0" using it by simp
    show "\<exists>i < size_array m. probe m (key_of it) i = j \<and>
        (\<forall>i' < i. tag (items m ! probe m (key_of it) i') \<noteq> 0)"
      using inv'(5) lv k unfolding reach_inv_def by metis
  qed
  with inv' dk show "table_inv (put_item m j it)" by (simp add: table_inv_def)
  show "num_live (put_item m j it) = num_live m"
    using num_live_put [OF jn, of it] it lv by simp
  show "hm_map (put_item m j it) = (hm_map m)(key_of it \<mapsto> val_of it)"
  proof
    fix k'
    show "hm_map (put_item m j it) k' = ((hm_map m)(key_of it \<mapsto> val_of it)) k'"
    proof (cases "k' = key_of it")
      case True
      with hm_map_live [OF dk, of j] jn it show ?thesis by (simp add: live_put items_put)
    next
      case False
      have "hm_map (put_item m j it) k' = hm_map m k'"
        by (rule hm_map_put_other [OF inv'(6) dk jn]) (use False k in \<open>auto\<close>)
      with False show ?thesis by simp
    qed
  qed
qed

lemma put_erase:
  assumes inv: "table_inv m" and it: "tag it < 0" and lv: "live m j"
  shows "table_inv (put_item m j it)"
    and "hm_map (put_item m j it) = (hm_map m)(key_of (items m ! j) := None)"
    and "num_live (put_item m j it) + 1 = num_live m"
proof -
  note inv' = table_invD [OF inv]
  have jn: "j < length (items m)" using lv by (simp add: live_def)
  have dk: "distinct_keys (put_item m j it)"
    using inv'(6) it jn by (auto simp: distinct_keys_def live_put items_put)
  have "reach_inv (put_item m j it)" using inv'(5) jn it by (intro reach_put) auto
  with inv' dk show "table_inv (put_item m j it)" by (simp add: table_inv_def)
  show "num_live (put_item m j it) + 1 = num_live m"
    using num_live_put [OF jn, of it] it lv by simp
  show "hm_map (put_item m j it) = (hm_map m)(key_of (items m ! j) := None)"
  proof
    fix k'
    show "hm_map (put_item m j it) k' = ((hm_map m)(key_of (items m ! j) := None)) k'"
    proof (cases "k' = key_of (items m ! j)")
      case True
      have "hm_map (put_item m j it) k' = None"
        using True inv'(6) lv it jn
        by (auto simp: hm_map_None_iff live_put items_put distinct_keys_def)
      with True show ?thesis by simp
    next
      case False
      have "hm_map (put_item m j it) k' = hm_map m k'"
        by (rule hm_map_put_other [OF inv'(6) dk jn]) (use False it in \<open>auto\<close>)
      with False show ?thesis by simp
    qed
  qed
qed

section \<open>Resize\<close>

text \<open>The table that \<open>Resize\<close> builds, seen as a table of its own.\<close>

definition with_items ::
  "('k, 'v) close_hashmap \<Rightarrow> nat \<Rightarrow> ('k, 'v) hm_item list \<Rightarrow> ('k, 'v) close_hashmap" where
  "with_items m n its = m\<lparr>size_array := n, items := its\<rparr>"

lemma with_items_simps [simp]:
  "size_array (with_items m n its) = n"
  "items (with_items m n its) = its"
  "key_equal (with_items m n its) = key_equal m"
  "hash (with_items m n its) = hash m"
  "num_elm (with_items m n its) = num_elm m"
  "put_item (with_items m n its) j it = with_items m n (its[j := it])"
  by (simp_all add: with_items_def put_item_def)

lemma Resize_with_items:
  "hm_Resize m = with_items m (resized (size_array m))
     (place_items (hash m) (resized (size_array m)) (items m)
       (cleared_items (zero_pair m) (resized (size_array m))))"
  by (simp add: hm_Resize_def with_items_def Let_def)

lemma place_loop_free_loop:
  assumes "\<forall>j < n. 0 \<le> tag (new ! j)" and "0 < n"
  shows "place_loop n s pos r it new
    = (case free_loop (with_items m n new) s ((pos + s) mod n) r of
         Some j \<Rightarrow> new[j := it] | None \<Rightarrow> new)"
proof (induction r arbitrary: pos)
  case 0
  then show ?case by simp
next
  case (Suc r)
  have "tag (new ! ((pos + s) mod n)) = 0 \<longleftrightarrow> tag (new ! ((pos + s) mod n)) \<le> 0"
    using assms by (metis mod_less_divisor order_antisym order_refl)
  then show ?case using Suc.IH by (simp add: Let_def)
qed

lemma place_item_free_loop:
  assumes "\<forall>j < n. 0 \<le> tag (new ! j)" and "0 < n" and "0 < tag it"
  shows "place_item (hash m) n it new
    = (case free_loop (with_items m n new) (probe_step (with_items m n new) (key_of it))
              (home (with_items m n new) (key_of it)) n of
         Some j \<Rightarrow> new[j := it] | None \<Rightarrow> new)"
proof -
  let ?p = "hash m (key_of it) mod n"
  obtain r where r: "n = Suc r" using assms(2) gr0_conv_Suc by blast
  have "tag (new ! ?p) = 0 \<longleftrightarrow> tag (new ! ?p) \<le> 0"
    using assms(1,2) by (metis mod_less_divisor order_antisym order_refl)
  then show ?thesis
    using assms(3) place_loop_free_loop [OF assms(1,2)]
    by (simp add: place_item_def home_def probe_step_def Let_def r)
qed

lemma place_item_step:
  assumes inv: "table_inv (with_items m n new)" and pos: "\<forall>j < n. 0 \<le> tag (new ! j)"
    and room: "num_live (with_items m n new) < n"
    and it: "0 < tag it" and absent: "hm_map (with_items m n new) (key_of it) = None"
  obtains new' where "place_item (hash m) n it new = new'"
    and "table_inv (with_items m n new')" and "\<forall>j < n. 0 \<le> tag (new' ! j)"
    and "hm_map (with_items m n new')
        = (hm_map (with_items m n new))(key_of it \<mapsto> val_of it)"
    and "num_live (with_items m n new') = num_live (with_items m n new) + 1"
proof -
  let ?t = "with_items m n new"
  note inv' = table_invD [OF inv, simplified]
  obtain i where i: "i < n" "GetItemOrFree ?t (key_of it) = Some (probe ?t (key_of it) i)"
    "tag (new ! probe ?t (key_of it) i) \<le> 0"
    and before: "\<forall>i' < i. 0 < tag (new ! probe ?t (key_of it) i')"
    using GetItemOrFree_absent [OF inv absent] room by auto
  let ?j = "probe ?t (key_of it) i"
  have "GetItemOrNull ?t (key_of it) = None"
    using GetItemOrNull_map [OF inv] absent by blast
  then have "free_loop ?t (probe_step ?t (key_of it)) (home ?t (key_of it)) n = Some ?j"
    using GetItemOrNull_free_loop [OF inv] i(2) by simp
  then have eq: "place_item (hash m) n it new = new[?j := it]"
    using place_item_free_loop [OF pos inv'(1) it, of m] by simp
  have "\<forall>i' < i. tag (items ?t ! probe ?t (key_of it) i') \<noteq> 0" using before by force
  note put = put_insert [OF inv it absent _ refl this, simplified, OF i(1,3)]
  have "\<forall>j < n. 0 \<le> tag (new[?j := it] ! j)"
    using pos it inv'(3) probe_less [of ?t "key_of it" i] inv'(1) by (auto simp: nth_list_update)
  with eq put show ?thesis by (intro that) auto
qed

lemma place_items_correct:
  assumes "table_inv (with_items m n new)" and "\<forall>j < n. 0 \<le> tag (new ! j)"
    and "num_live (with_items m n new) + length (filter (\<lambda>it. 0 < tag it) its) \<le> n"
    and "distinct (map key_of (filter (\<lambda>it. 0 < tag it) its))"
    and "\<forall>it \<in> set its. 0 < tag it \<longrightarrow> hm_map (with_items m n new) (key_of it) = None"
  shows "table_inv (with_items m n (place_items (hash m) n its new))
    \<and> hm_map (with_items m n (place_items (hash m) n its new))
        = hm_map (with_items m n new) ++ map_of (map snd (filter (\<lambda>it. 0 < tag it) its))
    \<and> num_live (with_items m n (place_items (hash m) n its new))
        = num_live (with_items m n new) + length (filter (\<lambda>it. 0 < tag it) its)"
  using assms
proof (induction its arbitrary: new)
  case Nil
  then show ?case by simp
next
  case (Cons it its)
  show ?case
  proof (cases "0 < tag it")
    case False
    then have "place_item (hash m) n it new = new" by (simp add: place_item_def)
    with False Cons show ?thesis by simp
  next
    case True
    have absent: "hm_map (with_items m n new) (key_of it) = None"
      and room: "num_live (with_items m n new) < n"
      using Cons.prems(3,5) True by auto
    obtain new' where new': "place_item (hash m) n it new = new'"
      "table_inv (with_items m n new')" "\<forall>j < n. 0 \<le> tag (new' ! j)"
      and map': "hm_map (with_items m n new')
        = (hm_map (with_items m n new))(key_of it \<mapsto> val_of it)"
      and num': "num_live (with_items m n new') = num_live (with_items m n new) + 1"
      using place_item_step [OF Cons.prems(1,2) room True absent] by blast
    have notin: "key_of it \<notin> key_of ` set (filter (\<lambda>it. 0 < tag it) its)"
      using Cons.prems(4) True by auto
    have rest: "\<forall>it' \<in> set its. 0 < tag it' \<longrightarrow> hm_map (with_items m n new') (key_of it') = None"
    proof (intro ballI impI)
      fix it'
      assume mem: "it' \<in> set its" "0 < tag it'"
      then have "key_of it' \<in> key_of ` set (filter (\<lambda>it. 0 < tag it) its)"
        by (intro imageI) simp
      with notin have "key_of it' \<noteq> key_of it" by metis
      with mem Cons.prems(5) map' show "hm_map (with_items m n new') (key_of it') = None" by simp
    qed
    have "num_live (with_items m n new') + length (filter (\<lambda>it. 0 < tag it) its) \<le> n"
      and "distinct (map key_of (filter (\<lambda>it. 0 < tag it) its))"
      using Cons.prems(3,4) True num' by auto
    note IH = Cons.IH [OF new'(2,3) this rest]
    have "map_of (map snd (filter (\<lambda>it. 0 < tag it) its)) (key_of it) = None"
      using notin unfolding map_of_eq_None_iff by (auto simp: image_iff)
    then have maps: "hm_map (with_items m n new') ++ map_of (map snd (filter (\<lambda>it. 0 < tag it) its))
      = hm_map (with_items m n new) ++ map_of (map snd (filter (\<lambda>it. 0 < tag it) (it # its)))"
      using True map'
      by (cases "snd it") (auto simp: map_add_def fun_eq_iff split: option.splits)
    have step: "place_items (hash m) n (it # its) new = place_items (hash m) n its new'"
      using new'(1) by simp
    have "num_live (with_items m n new') + length (filter (\<lambda>it. 0 < tag it) its)
      = num_live (with_items m n new) + length (filter (\<lambda>it. 0 < tag it) (it # its))"
      using num' True by simp
    with IH show ?thesis unfolding step maps by metis
  qed
qed

lemma distinct_filter_map:
  assumes "\<And>i j. i < length xs \<Longrightarrow> j < length xs \<Longrightarrow> P (xs ! i) \<Longrightarrow> P (xs ! j)
    \<Longrightarrow> f (xs ! i) = f (xs ! j) \<Longrightarrow> i = j"
  shows "distinct (map f (filter P xs))"
  using assms
proof (induction xs)
  case Nil
  then show ?case by simp
next
  case (Cons x xs)
  have "distinct (map f (filter P xs))"
  proof (rule Cons.IH)
    fix i j
    assume "i < length xs" "j < length xs" "P (xs ! i)" "P (xs ! j)" "f (xs ! i) = f (xs ! j)"
    then show "i = j" using Cons.prems [of "Suc i" "Suc j"] by simp
  qed
  moreover have "f x \<notin> f ` set (filter P xs)" if "P x"
  proof
    assume "f x \<in> f ` set (filter P xs)"
    then obtain i where "i < length xs" "P (xs ! i)" "f x = f (xs ! i)"
      by (auto simp: in_set_conv_nth)
    with that Cons.prems [of 0 "Suc i"] show False by simp
  qed
  ultimately show ?case by simp
qed

lemma live_keys_distinct:
  assumes "table_inv m"
  shows "distinct (map key_of (filter (\<lambda>it. 0 < tag it) (items m)))"
  using table_invD(6) [OF assms]
  by (intro distinct_filter_map) (auto simp: distinct_keys_def live_def)

lemma cleared_table:
  assumes "0 < n" and "coprime_size n" and "key_equal m = (=)"
  shows "table_inv (with_items m n (cleared_items z n))"
    and "hm_map (with_items m n (cleared_items z n)) = Map.empty"
    and "num_live (with_items m n (cleared_items z n)) = 0"
  using assms
  by (auto simp: table_inv_def reach_inv_def distinct_keys_def live_def cleared_items_def
      hm_map_def num_live_def)

lemma resized_gt: "0 < n \<Longrightarrow> n < resized n"
  by (simp add: resized_def Let_def) linarith

theorem Resize_table:
  assumes inv: "table_inv m" and co: "coprime_size (resized (size_array m))"
  shows "table_inv (hm_Resize m)" and "hm_map (hm_Resize m) = hm_map m"
    and "num_live (hm_Resize m) = num_live m" and "size_array m < size_array (hm_Resize m)"
    and "size_array (hm_Resize m) = resized (size_array m)"
    and "num_elm (hm_Resize m) = num_elm m"
    and "to_resize (hm_Resize m) = to_resize m"
proof -
  note inv' = table_invD [OF inv]
  let ?n = "resized (size_array m)"
  have n: "size_array m < ?n" using inv'(1) by (rule resized_gt)
  then have n0: "0 < ?n" by simp
  note clear = cleared_table [OF n0 co inv'(4)]
  have bound: "num_live (with_items m ?n (cleared_items (zero_pair m) ?n))
      + length (filter (\<lambda>it. 0 < tag it) (items m)) \<le> ?n"
    using n inv'(3) length_filter_le [of "\<lambda>it. 0 < tag it" "items m"] clear(3) by simp
  have tags: "\<forall>j < ?n. 0 \<le> tag (cleared_items (zero_pair m) ?n ! j)"
    by (simp add: cleared_items_def)
  from place_items_correct [OF clear(1) tags bound live_keys_distinct [OF inv]]
  show "table_inv (hm_Resize m)" "hm_map (hm_Resize m) = hm_map m"
    "num_live (hm_Resize m) = num_live m"
    using clear(2,3) by (simp_all add: Resize_with_items hm_map_def num_live_def)
  show "size_array m < size_array (hm_Resize m)" "size_array (hm_Resize m) = ?n"
    "num_elm (hm_Resize m) = num_elm m" "to_resize (hm_Resize m) = to_resize m"
    using n by (simp_all add: hm_Resize_def Let_def)
qed

section \<open>The operations under the invariant\<close>

lemma write_new_item_put:
  "write_new_item m i k v = (put_item m i (1, k, v))\<lparr>num_elm := num_elm m + 1\<rparr>"
  by (simp add: write_new_item_def write_item_def put_item_def)

lemma num_elm_irrelevant [simp]:
  "table_inv (m\<lparr>num_elm := c\<rparr>) \<longleftrightarrow> table_inv m"
  "hm_map (m\<lparr>num_elm := c\<rparr>) = hm_map m"
  "num_live (m\<lparr>num_elm := c\<rparr>) = num_live m"
  by (simp_all add: table_inv_def hm_map_def num_live_def reach_inv_def distinct_keys_def
      live_def probe_def home_def probe_step_def)

lemma num_live_le: "table_inv m \<Longrightarrow> num_live m \<le> size_array m"
  using length_filter_le [of "\<lambda>it. 0 < tag it" "items m"] table_invD(3) [of m]
  by (simp add: num_live_def)

lemma Get_map:
  assumes "hm_inv m"
  shows "hm_Get m k = hm_map m k"
proof (cases "GetItemOrNull m k")
  case None
  then show ?thesis
    using GetItemOrNull_map [OF hm_inv_table [OF assms], of k] by (simp add: hm_Get_def)
next
  case (Some j)
  from GetItemOrNull_Some [OF hm_inv_table [OF assms] Some]
  have "live m j" and k: "key_of (items m ! j) = k" by auto
  from hm_map_live [OF _ this(1)] table_invD(6) [OF hm_inv_table [OF assms]] k Some
  show ?thesis by (simp add: hm_Get_def)
qed

lemma write_new_correct:
  assumes "table_inv m" and "hm_map m k = None" and "num_live m < size_array m"
    and "num_elm m = num_live m"
  obtains i where "GetItemOrFree m k = Some i" and "tag (items m ! i) \<le> 0"
    and "hm_inv (write_new_item m i k v)"
    and "hm_map (write_new_item m i k v) = (hm_map m)(k \<mapsto> v)"
proof -
  obtain i where i: "i < size_array m" "GetItemOrFree m k = Some (probe m k i)"
    "tag (items m ! probe m k i) \<le> 0" "\<forall>i' < i. 0 < tag (items m ! probe m k i')"
    using GetItemOrFree_absent [OF assms(1-3)] by blast
  have "\<forall>i' < i. tag (items m ! probe m k i') \<noteq> 0" using i(4) by force
  with put_insert [OF assms(1), of "(1, k, v)" i "probe m k i"] i assms
  have "hm_inv (write_new_item m (probe m k i) k v)"
    and "hm_map (write_new_item m (probe m k i) k v) = (hm_map m)(k \<mapsto> v)"
    by (auto simp: write_new_item_put hm_inv_def)
  with i that show ?thesis by blast
qed

lemma write_item_correct:
  assumes "hm_inv m" and "live m j" and "key_of (items m ! j) = k"
  shows "hm_inv (write_item m j k v)" and "hm_map (write_item m j k v) = (hm_map m)(k \<mapsto> v)"
  using put_overwrite [OF hm_inv_table [OF assms(1)], of "(1, k, v)" j] assms
  by (auto simp: write_item_def put_item_def hm_inv_def)

text \<open>The table with a slot to spare, as \<open>Insert\<close> and \<open>Upsert\<close> find it.\<close>

lemma insert_at_free_correct:
  assumes inv: "hm_inv m" and room: "num_elm m < size_array m"
  shows "\<exists>m'. insert_at_free m k v = Inr (hm_map m k = None, m') \<and> hm_inv m'
    \<and> hm_map m' = (if hm_map m k = None then (hm_map m)(k \<mapsto> v) else hm_map m)"
proof (cases "hm_map m k = None")
  case True
  have nl: "num_elm m = num_live m" using inv by (simp add: hm_inv_def)
  obtain i where "GetItemOrFree m k = Some i" "tag (items m ! i) \<le> 0"
    "hm_inv (write_new_item m i k v)" "hm_map (write_new_item m i k v) = (hm_map m)(k \<mapsto> v)"
    using write_new_correct [OF hm_inv_table [OF inv] True] room nl by metis
  with True show ?thesis by (simp add: insert_at_free_def)
next
  case False
  obtain j where "GetItemOrFree m k = Some j" "live m j"
    using GetItemOrFree_present [OF hm_inv_table [OF inv] False] by blast
  with False inv show ?thesis by (auto simp: insert_at_free_def live_def)
qed

lemma Resize_inv:
  assumes "hm_inv m" and "coprime_size (resized (size_array m))"
  shows "hm_inv (hm_Resize m)" and "hm_map (hm_Resize m) = hm_map m"
    and "num_elm (hm_Resize m) < size_array (hm_Resize m)"
  using Resize_table [OF hm_inv_table [OF assms(1)] assms(2)] assms(1)
    num_live_le [OF hm_inv_table [OF assms(1)]]
  by (auto simp: hm_inv_def)

text \<open>A table has room when a slot is spare, or when it may grow to a size the probes cover.\<close>

definition hm_room :: "('k, 'v) close_hashmap \<Rightarrow> bool" where
  "hm_room m \<longleftrightarrow> num_elm m < size_array m
     \<or> to_resize m \<and> coprime_size (resized (size_array m))"

lemma num_elm_le: "hm_inv m \<Longrightarrow> num_elm m \<le> size_array m"
  using num_live_le [OF hm_inv_table] by (simp add: hm_inv_def)

lemma Insert_correct:
  assumes "hm_inv m" and "hm_room m"
  shows "\<exists>m'. hm_Insert m k v = Inr (hm_map m k = None, m') \<and> hm_inv m'
    \<and> hm_map m' = (if hm_map m k = None then (hm_map m)(k \<mapsto> v) else hm_map m)"
proof (cases "size_array m = num_elm m")
  case False
  with num_elm_le [OF assms(1)] insert_at_free_correct [OF assms(1), of k v]
  show ?thesis by (simp add: hm_Insert_def)
next
  case True
  with assms(2) have r: "to_resize m" "coprime_size (resized (size_array m))"
    by (auto simp: hm_room_def)
  have "hm_Insert m k v = insert_at_free (hm_Resize m) k v"
    using True r(1) by (simp add: hm_Insert_def)
  with insert_at_free_correct [OF Resize_inv(1,3) [OF assms(1) r(2)], of k v]
  show ?thesis by (simp only: Resize_inv(2) [OF assms(1) r(2)])
qed

lemma Insert_full:
  assumes "size_array m = num_elm m" and "\<not> to_resize m"
  shows "hm_Insert m k v = Inr (False, m)"
  using assms by (simp add: hm_Insert_def)

lemma Upsert_present:
  assumes "hm_inv m" and "hm_map m k \<noteq> None"
  shows "\<exists>m'. hm_Upsert m k v = Inr (True, m') \<and> hm_inv m' \<and> hm_map m' = (hm_map m)(k \<mapsto> v)"
proof -
  obtain j where j: "GetItemOrFree m k = Some j" "live m j" "key_of (items m ! j) = k"
    using GetItemOrFree_present [OF hm_inv_table [OF assms(1)] assms(2)] by blast
  with write_item_correct [OF assms(1) j(2,3)] show ?thesis
    by (simp add: hm_Upsert_def live_def)
qed

lemma Upsert_correct:
  assumes inv: "hm_inv m" and room: "hm_room m"
  shows "\<exists>m'. hm_Upsert m k v = Inr (True, m') \<and> hm_inv m' \<and> hm_map m' = (hm_map m)(k \<mapsto> v)"
proof (cases "hm_map m k = None")
  case False
  with Upsert_present [OF inv] show ?thesis by blast
next
  case absent: True
  note t = hm_inv_table [OF inv]
  show ?thesis
  proof (cases "size_array m = num_elm m")
    case False
    with num_elm_le [OF inv] have "num_live m < size_array m" "num_elm m = num_live m"
      using inv by (auto simp: hm_inv_def)
    with write_new_correct [OF t absent, of v] obtain i where "GetItemOrFree m k = Some i"
      "tag (items m ! i) \<le> 0" "hm_inv (write_new_item m i k v)"
      "hm_map (write_new_item m i k v) = (hm_map m)(k \<mapsto> v)" by metis
    with False show ?thesis by (simp add: hm_Upsert_def)
  next
    case True
    with room have r: "to_resize m" "coprime_size (resized (size_array m))"
      by (auto simp: hm_room_def)
    note rs = Resize_inv [OF inv r(2)]
    have "GetItemOrFree m k = None"
      using GetItemOrFree_full [OF t absent] True inv by (simp add: hm_inv_def)
    moreover obtain i where "GetItemOrFree (hm_Resize m) k = Some i"
      "hm_inv (write_new_item (hm_Resize m) i k v)"
      "hm_map (write_new_item (hm_Resize m) i k v) = (hm_map m)(k \<mapsto> v)"
      using write_new_correct [OF hm_inv_table [OF rs(1)], of k v] rs absent
      by (metis hm_inv_def)
    ultimately show ?thesis using True r(1) by (simp add: hm_Upsert_def Let_def)
  qed
qed

lemma Upsert_full_absent:
  assumes "hm_inv m" and "hm_map m k = None" and "size_array m = num_elm m" and "\<not> to_resize m"
  shows "hm_Upsert m k v = Inr (False, m)"
proof -
  have "GetItemOrFree m k = None"
    using GetItemOrFree_full [OF hm_inv_table [OF assms(1)] assms(2)] assms(1,3)
    by (simp add: hm_inv_def)
  with assms(3,4) show ?thesis by (simp add: hm_Upsert_def)
qed

lemma Erase_correct:
  assumes inv: "hm_inv m"
  shows "fst (hm_Erase m k) \<longleftrightarrow> hm_map m k \<noteq> None"
    and "hm_inv (snd (hm_Erase m k))"
    and "hm_map (snd (hm_Erase m k)) = (hm_map m)(k := None)"
    and "num_elm (snd (hm_Erase m k)) + (if hm_map m k = None then 0 else 1) = num_elm m"
proof -
  note t = hm_inv_table [OF inv]
  have "(fst (hm_Erase m k) \<longleftrightarrow> hm_map m k \<noteq> None) \<and> hm_inv (snd (hm_Erase m k))
    \<and> hm_map (snd (hm_Erase m k)) = (hm_map m)(k := None)
    \<and> num_elm (snd (hm_Erase m k)) + (if hm_map m k = None then 0 else 1) = num_elm m"
  proof (cases "GetItemOrNull m k")
    case None
    then show ?thesis using inv GetItemOrNull_map [OF t, of k] by (auto simp: hm_Erase_def)
  next
    case (Some j)
    from GetItemOrNull_Some [OF t Some] have lv: "live m j" "key_of (items m ! j) = k" by auto
    have some: "hm_map m k \<noteq> None" using GetItemOrNull_map [OF t, of k] Some by simp
    let ?it = "(-1, snd (items m ! j))"
    have eq: "hm_Erase m k = (True, (put_item m j ?it)\<lparr>num_elm := num_elm m - 1\<rparr>)"
      using Some by (simp add: hm_Erase_def put_item_def)
    note put = put_erase [OF t _ lv(1), of ?it]
    have "0 < num_live m" using put(3) by simp
    then show ?thesis
      using put lv(2) inv some by (auto simp: eq hm_inv_def)
  qed
  then show "fst (hm_Erase m k) \<longleftrightarrow> hm_map m k \<noteq> None"
    "hm_inv (snd (hm_Erase m k))"
    "hm_map (snd (hm_Erase m k)) = (hm_map m)(k := None)"
    "num_elm (snd (hm_Erase m k)) + (if hm_map m k = None then 0 else 1) = num_elm m"
    by auto
qed

lemma Init_inv:
  assumes "hm_Init z n rz (=) h = Some m" and "coprime_size n"
  shows "hm_inv m" and "hm_map m = Map.empty" and "size_array m = n" and "to_resize m = rz"
proof -
  have m: "m = \<lparr>size_array = n, to_resize = rz, key_equal = (=), hash = h,
      items = cleared_items z n, num_elm = 0, zero_pair = z\<rparr>"
    using assms(1) by (auto simp: hm_Init_def split: if_splits)
  have "0 < n"
  proof (rule ccontr)
    assume "\<not> 0 < n"
    with assms(1) show False by (simp add: hm_Init_def kPrimes_def)
  qed
  from cleared_table [OF this assms(2), of m z] m
  have "table_inv m" "hm_map m = Map.empty" "num_live m = 0" by (auto simp: with_items_def)
  then show "hm_inv m" "hm_map m = Map.empty" "size_array m = n" "to_resize m = rz"
    using m by (auto simp: hm_inv_def)
qed

end
