(* ===== verification/Prime_Table.thy ===== *)
theory Prime_Table
  imports Close_Hashmap
begin

text \<open>
  The 28 constants of \<open>CloseHashmap::kPrimes\<close> are prime numbers. The class relies on it:
  \<open>Init\<close> refuses an array size that one of them divides, and what the probe sequences need
  is that the size and every step are coprime. Primality is checked by the kernel from a
  certificate: for each number \<open>n\<close> a base \<open>b\<close> whose order modulo every divisor of \<open>n\<close> is a
  known \<open>F\<close> with $F^2 > n$, so that \<open>n\<close> has no divisor up to its square root.
\<close>

section \<open>Prime numbers\<close>

definition is_prime :: "int \<Rightarrow> bool" where
  "is_prime n \<longleftrightarrow> 1 < n \<and> (\<forall>d > 0. d dvd n \<longrightarrow> d = 1 \<or> d = n)"

lemma is_prime_coprime:
  assumes "is_prime p" and "\<not> p dvd n"
  shows "coprime p n"
proof -
  have "0 < gcd p n" using assms(1) by (simp add: is_prime_def)
  with assms(1) have "gcd p n = 1 \<or> gcd p n = p" by (simp add: is_prime_def)
  moreover have "gcd p n \<noteq> p" using assms(2) by (metis gcd_dvd2)
  ultimately have "gcd p n = 1" by blast
  then show ?thesis by (simp add: coprime_iff_gcd_eq_1)
qed

lemma is_primeI:
  assumes n: "1 < n" and none: "\<And>r. 1 < r \<Longrightarrow> r * r \<le> n \<Longrightarrow> r dvd n \<Longrightarrow> False"
  shows "is_prime n"
  unfolding is_prime_def
proof (intro conjI allI impI n)
  fix d :: int
  assume "0 < d" and "d dvd n"
  then obtain e where e: "n = d * e" by auto
  with n \<open>0 < d\<close> have "0 < e" by (metis less_trans zero_less_one zero_less_mult_pos)
  show "d = 1 \<or> d = n"
  proof (rule ccontr)
    assume "\<not> (d = 1 \<or> d = n)"
    with e \<open>0 < d\<close> \<open>0 < e\<close> have de: "1 < d" "1 < e" by auto
    show False
    proof (cases "d \<le> e")
      case True
      with de e none [of d] \<open>d dvd n\<close> show False by (simp add: mult_left_mono)
    next
      case False
      with de e none [of e] show False by (simp add: mult_right_mono)
    qed
  qed
qed

section \<open>The criterion\<close>

lemma power_one_gcd:
  fixes b r :: int
  assumes "b ^ k mod r = 1" and "b ^ F mod r = 1" and "0 < k"
  shows "b ^ gcd k F mod r = 1"
proof -
  have r: "1 mod r = 1" using assms(1) by (metis mod_mod_trivial)
  obtain x y where xy: "k * x = F * y + gcd k F" using bezout_nat [of k F] assms(3) by auto
  have "b ^ (k * x) mod r = 1"
    using power_mod [of "b ^ k" r x] assms(1) r by (simp add: power_mult)
  moreover have "b ^ (F * y + gcd k F) mod r = ((b ^ F) ^ y mod r * b ^ gcd k F) mod r"
    by (simp add: power_add power_mult mod_mult_left_eq)
  moreover have "(b ^ F) ^ y mod r = 1"
    using power_mod [of "b ^ F" r y] assms(2) r by simp
  ultimately show ?thesis using xy by simp
qed

lemma power_one_diff:
  fixes b r :: int
  assumes "b ^ i mod r = b ^ j mod r" and "i < j" and "j < F" and "b ^ F mod r = 1"
  shows "b ^ (j - i) mod r = 1"
proof -
  have "b ^ (F - i) * b ^ i mod r = b ^ (F - i) * b ^ j mod r"
    using assms(1) by (metis mod_mult_right_eq)
  moreover have "b ^ (F - i) * b ^ i = b ^ F"
    using assms(2,3) by (simp flip: power_add)
  moreover have "b ^ (F - i) * b ^ j = b ^ F * b ^ (j - i)"
    using assms(2,3) by (simp flip: power_add)
  ultimately have "1 = b ^ F * b ^ (j - i) mod r" using assms(4) by simp
  also have "\<dots> = (b ^ F mod r) * b ^ (j - i) mod r" by (simp add: mod_mult_left_eq)
  finally show ?thesis using assms(4) by simp
qed

lemma order_criterion:
  fixes n b :: int and F :: nat
  assumes n: "1 < n" and F: "n < int F * int F" and bF: "b ^ F mod n = 1"
    and fs: "\<And>d. d dvd F \<Longrightarrow> d \<noteq> F \<Longrightarrow> \<exists>f \<in> fs. d dvd f"
    and co: "\<And>f. f \<in> fs \<Longrightarrow> coprime (b ^ f - 1) n"
  shows "is_prime n"
proof (rule is_primeI [OF n])
  fix r :: int
  assume r: "1 < r" "r * r \<le> n" "r dvd n"
  have bFr: "b ^ F mod r = 1"
    using bF r(1,3) by (metis mod_mod_cancel mod_pos_pos_trivial zero_le_one)
  have distinct: False if "i < j" "j < F" "b ^ i mod r = b ^ j mod r" for i j
  proof -
    let ?k = "j - i"
    have k: "0 < ?k" "?k < F" using that by auto
    have bk: "b ^ ?k mod r = 1" using power_one_diff [OF that(3,1,2) bFr] .
    have "gcd ?k F \<noteq> F" using k by (metis gcd_le1_nat leD less_irrefl not_less0)
    then obtain f where f: "f \<in> fs" "gcd ?k F dvd f" using fs [of "gcd ?k F"] by auto
    have "b ^ gcd ?k F mod r = 1" using power_one_gcd [OF bk bFr k(1)] .
    moreover obtain c where "f = gcd ?k F * c" using f(2) by auto
    ultimately have "b ^ f mod r = 1"
      using power_mod [of "b ^ gcd ?k F" r c] r(1) by (simp add: power_mult)
    then have "r dvd b ^ f - 1" using r(1) by (metis mod_eq_dvd_iff mod_pos_pos_trivial zero_le_one)
    from coprime_common_divisor [OF co [OF f(1)] this r(3)] have "is_unit r" .
    with r(1) show False by simp
  qed
  have "inj_on (\<lambda>i. b ^ i mod r) {..<F}"
  proof (rule inj_onI)
    fix i j
    assume "i \<in> {..<F}" "j \<in> {..<F}" and eq: "b ^ i mod r = b ^ j mod r"
    then have "i < F" "j < F" by auto
    with distinct [of i j] distinct [of j i] eq show "i = j" by (cases i j rule: linorder_cases) auto
  qed
  then have "card ((\<lambda>i. b ^ i mod r) ` {..<F}) = F" by (simp add: card_image)
  moreover have "(\<lambda>i. b ^ i mod r) ` {..<F} \<subseteq> {0..<r}" using r(1) by auto
  ultimately have "F \<le> nat r" using card_mono [of "{0..<r}" "(\<lambda>i. b ^ i mod r) ` {..<F}"]
    by simp
  then have "int F * int F \<le> r * r" using r(1) by (intro mult_mono) auto
  with F r(2) show False by simp
qed

text \<open>A proper divisor of a product of primes misses one of them.\<close>

lemma proper_divisor_misses:
  fixes d :: nat
  assumes d: "d dvd prod_list qs" and ne: "d \<noteq> prod_list qs"
    and pr: "\<And>q. q \<in> set qs \<Longrightarrow> is_prime (int q)"
  shows "\<exists>q \<in> set qs. d dvd prod_list qs div q"
proof -
  obtain c where c: "prod_list qs = d * c" using d by auto
  have "\<exists>q \<in> set qs. \<not> coprime q c"
  proof (rule ccontr)
    assume "\<not> ?thesis"
    then have "\<forall>q \<in> set qs. coprime q c" by blast
    then have "coprime (prod_list qs) c" by (induction qs) auto
    with c have "c = 1" by (simp add: coprime_iff_gcd_eq_1)
    with c ne show False by simp
  qed
  then obtain q where q: "q \<in> set qs" "\<not> coprime q c" by blast
  then have "int q dvd int c" using is_prime_coprime [OF pr [OF q(1)], of "int c"] by auto
  then obtain e where "c = q * e" by auto
  with c have "prod_list qs div q = d * e" using pr [OF q(1)] by (auto simp: is_prime_def)
  with q(1) show ?thesis by (metis dvd_triv_left)
qed

section \<open>The checker\<close>

fun pow_mod :: "nat \<Rightarrow> int \<Rightarrow> int \<Rightarrow> int \<Rightarrow> int \<Rightarrow> int" where
  "pow_mod 0 n acc a e = acc"
| "pow_mod (Suc fuel) n acc a e =
     (if e = 0 then acc
      else pow_mod fuel n (if e mod 2 = 1 then acc * a mod n else acc) (a * a mod n) (e div 2))"

lemma pow_mod_correct:
  "0 \<le> e \<Longrightarrow> e < 2 ^ fuel \<Longrightarrow> pow_mod fuel n acc a e mod n = acc * a ^ nat e mod n"
proof (induction fuel arbitrary: acc a e)
  case 0
  then show ?case by simp
next
  case (Suc fuel)
  show ?case
  proof (cases "e = 0")
    case True
    then show ?thesis by simp
  next
    case False
    let ?acc = "if e mod 2 = 1 then acc * a mod n else acc"
    have "0 \<le> e div 2" "e div 2 < 2 ^ fuel" using Suc.prems by auto
    from Suc.IH [OF this]
    have "pow_mod (Suc fuel) n acc a e mod n = ?acc * (a * a mod n) ^ nat (e div 2) mod n"
      using False by simp
    also have "\<dots> = ?acc * (a * a) ^ nat (e div 2) mod n"
      by (metis mod_mult_right_eq power_mod)
    also have "\<dots> = (if e mod 2 = 1 then acc * a else acc) * (a * a) ^ nat (e div 2) mod n"
      by (simp add: mod_mult_left_eq)
    also have "\<dots> = acc * a ^ nat e mod n"
    proof -
      have "nat e = 2 * nat (e div 2) + nat (e mod 2)"
        using nat_add_distrib [of "2 * (e div 2)" "e mod 2"] Suc.prems(1)
        by (simp add: nat_mult_distrib)
      moreover have "e mod 2 = 0 \<or> e mod 2 = 1" by auto
      ultimately show ?thesis
        by (auto simp: power_add power_mult power2_eq_square ac_simps)
    qed
    finally show ?thesis .
  qed
qed

declare pow_mod.simps [simp del]

text \<open>
  An entry certifies \<open>n\<close> by a base \<open>b\<close> and a list \<open>qs\<close> of primes with exponents, whose
  product is \<open>F\<close>: the order of \<open>b\<close> is \<open>F\<close> modulo every divisor of \<open>n\<close>. A small number is checked by trial division.
\<close>

datatype cert = Small int int | Order int int "(int \<times> nat) list"

definition expand :: "(int \<times> nat) list \<Rightarrow> int list" where
  "expand qs = concat (map (\<lambda>(q, k). replicate k q) qs)"

fun cert_num :: "cert \<Rightarrow> int" where
  "cert_num (Small n k) = n"
| "cert_num (Order n b qs) = n"

fun factors_ok :: "int \<Rightarrow> int \<Rightarrow> int \<Rightarrow> (int \<times> nat) list \<Rightarrow> bool" where
  "factors_ok n b F [] = True"
| "factors_ok n b F ((q, k) # qs) =
     (gcd (pow_mod 40 n 1 b (F div q) - 1) n = 1 \<and> factors_ok n b F qs)"

lemma factors_ok_iff:
  "factors_ok n b F qs
    \<longleftrightarrow> (\<forall>q \<in> set qs. gcd (pow_mod 40 n 1 b (F div fst q) - 1) n = 1)"
  by (induction n b F qs rule: factors_ok.induct) auto

fun cert_ok :: "int list \<Rightarrow> cert \<Rightarrow> bool" where
  "cert_ok known (Small n k) =
     (1 < n \<and> n < k * k \<and> 1 \<le> k \<and> list_all (\<lambda>d. n mod d \<noteq> 0) [2..k - 1])"
| "cert_ok known (Order n b qs) =
     (let F = prod_list (expand qs) in
      1 < n \<and> 0 < F \<and> F < 2 ^ 40 \<and> n < F * F \<and> list_all (\<lambda>q. fst q \<in> set known) qs
      \<and> pow_mod 40 n 1 b F = 1
      \<and> factors_ok n b F qs)"

fun certs_ok :: "int list \<Rightarrow> cert list \<Rightarrow> bool" where
  "certs_ok known [] = True"
| "certs_ok known (c # cs) = (cert_ok known c \<and> certs_ok (cert_num c # known) cs)"

lemma small_ok:
  assumes "1 < n" and "n < k * k" and "1 \<le> k" and "\<forall>d \<in> set [2..k - 1]. n mod d \<noteq> 0"
  shows "is_prime n"
proof (rule is_primeI [OF assms(1)])
  fix r :: int
  assume r: "1 < r" "r * r \<le> n" "r dvd n"
  have "r < k"
  proof (rule ccontr)
    assume "\<not> r < k"
    then have "k * k \<le> r * r" using assms(3) by (intro mult_mono) auto
    with r(2) assms(2) show False by simp
  qed
  with r assms(4) show False by (simp add: mod_eq_0_iff_dvd)
qed

lemma order_ok:
  assumes ok: "cert_ok known (Order n b qs)" and known: "\<forall>q \<in> set known. is_prime q"
  shows "is_prime n"
proof -
  let ?qs = "expand qs"
  let ?F = "prod_list ?qs"
  define qn where "qn = map nat ?qs"
  have n: "1 < n" and F: "0 < ?F" "?F < 2 ^ 40" "n < ?F * ?F"
    and pm: "pow_mod 40 n 1 b ?F = 1"
    and gcd0: "\<And>q. q \<in> set qs \<Longrightarrow> gcd (pow_mod 40 n 1 b (?F div fst q) - 1) n = 1"
    and pr0: "\<And>q. q \<in> set qs \<Longrightarrow> is_prime (fst q)"
    using ok known by (auto simp: Let_def list_all_iff factors_ok_iff)
  have sub: "\<And>q. q \<in> set ?qs \<Longrightarrow> \<exists>k. (q, k) \<in> set qs" by (force simp: expand_def)
  have gcds: "gcd (pow_mod 40 n 1 b (?F div q) - 1) n = 1" and prq: "is_prime q"
    if "q \<in> set ?qs" for q
    using sub [OF that] gcd0 pr0 by force+
  have pos: "\<And>q. q \<in> set ?qs \<Longrightarrow> 0 < q" using prq by (force simp: is_prime_def)
  have "map int (map nat ?qs) = ?qs" using pos by (simp add: map_idI less_imp_le)
  then have qs: "?qs = map int qn" by (simp add: qn_def)
  have F': "?F = int (prod_list qn)" unfolding qs by (induction qn) auto
  have bF: "b ^ prod_list qn mod n = 1"
    using pow_mod_correct [of ?F 40 n 1 b] F(1,2) pm n F' by simp
  have co: "coprime (b ^ f - 1) n" if "f \<in> (\<lambda>q. prod_list qn div q) ` set qn" for f
  proof -
    from that obtain q where q: "q \<in> set qn" "f = prod_list qn div q" by blast
    have f: "int f = ?F div int q" using q(2) F' by (simp add: zdiv_int)
    have "f \<le> prod_list qn" using q(2) by simp
    then have "int f < 2 ^ 40" using F(2) F' by linarith
    then have "pow_mod 40 n 1 b (int f) mod n = b ^ f mod n"
      using pow_mod_correct [of "int f" 40 n 1 b] by simp
    then have "(pow_mod 40 n 1 b (int f) - 1) mod n = (b ^ f - 1) mod n"
      by (rule mod_diff_cong) simp
    moreover have "gcd (pow_mod 40 n 1 b (int f) - 1) n = 1"
      using gcds [of "int q"] q(1) qs f by simp
    ultimately have "gcd (b ^ f - 1) n = 1" by (metis gcd_red_int)
    then show ?thesis by (simp add: coprime_iff_gcd_eq_1)
  qed
  show ?thesis
  proof (rule order_criterion [OF n _ bF _ co])
    show "n < int (prod_list qn) * int (prod_list qn)" using F(3) F' by simp
    show "\<exists>f \<in> (\<lambda>q. prod_list qn div q) ` set qn. d dvd f"
      if "d dvd prod_list qn" "d \<noteq> prod_list qn" for d
      using proper_divisor_misses [OF that] prq qs by auto
  qed
qed

lemma certs_ok_prime:
  "certs_ok known cs \<Longrightarrow> \<forall>q \<in> set known. is_prime q \<Longrightarrow> c \<in> set cs \<Longrightarrow> is_prime (cert_num c)"
proof (induction cs arbitrary: known)
  case Nil
  then show ?case by simp
next
  case (Cons c' cs)
  have "is_prime (cert_num c')"
  proof (cases c')
    case (Small n k)
    with Cons.prems(1) small_ok [of n k] show ?thesis by (simp add: list_all_iff)
  next
    case (Order n b qs)
    with Cons.prems(1,2) order_ok [of known n b qs] show ?thesis
      by (simp del: cert_ok.simps)
  qed
  with Cons show ?case by auto
qed

section \<open>The certificate\<close>

definition prime_certs :: "cert list" where
  "prime_certs =
    [Small 53 8, Small 97 10, Small 193 14, Small 389 20, Small 769 28, Small 1543 40,
     Small 3 2, Order 3079 283 [(3, 4)], Small 2 2, Small 41 7, Order 6151 85 [(2, 1), (41, 1)],
     Order 12289 12149 [(2, 7)], Small 29 6, Order 24593 10832 [(2, 4), (29, 1)],
     Order 49157 16 [(12289, 1)], Small 5 3, Small 13 4, Order 2731 2201 [(5, 1), (13, 1)],
     Order 98317 23050 [(2731, 1)], Small 199 15, Order 196613 125463 [(2, 2), (199, 1)],
     Small 113 11, Order 393241 264188 [(2, 3), (113, 1)], Order 786433 122484 [(2, 10)],
     Small 293 18, Order 35747 20170 [(293, 1)], Order 1572869 174941 [(35747, 1)],
     Order 3145739 4 [(1572869, 1)], Small 73 9, Order 174763 95147 [(3, 2), (73, 1)],
     Order 6291469 4052318 [(174763, 1)], Small 103 11, Order 4327 962 [(103, 1)],
     Order 12582917 4551950 [(4327, 1)], Small 283 17, Order 16981 12470 [(283, 1)],
     Order 25165843 12979417 [(16981, 1)], Small 11 4, Order 5743 5011 [(3, 2), (11, 1)],
     Order 50331653 35315976 [(2, 2), (5743, 1)], Small 239 16, Order 52103 9963 [(239, 1)],
     Order 312619 64 [(52103, 1)], Order 100663319 37769703 [(312619, 1)], Small 241 16,
     Order 6710887 5683119 [(13, 1), (241, 1)], Order 201326611 67108769 [(6710887, 1)],
     Small 7 3, Small 269 17, Order 402653189 378213389 [(7, 3), (269, 1)],
     Order 5921371 5162255 [(3, 3), (241, 1)], Order 805306457 456105428 [(5921371, 1)],
     Small 109 11, Order 5233 427 [(109, 1)], Order 1610612741 1500909536 [(11, 1), (5233, 1)],
     Order 3221225473 2519378301 [(2, 16)], Small 181 14, Order 22605091 18389778 [(181, 2)],
     Order 4294967291 1073745729 [(22605091, 1)]]"

lemma prime_certs_ok: "certs_ok [] prime_certs"
  by code_simp

lemma certified_prime: "p \<in> set (map cert_num prime_certs) \<Longrightarrow> is_prime p"
  using certs_ok_prime [OF prime_certs_ok] by auto

lemma kPrimes_certified: "set (map int kPrimes) \<subseteq> set (map cert_num prime_certs)"
  by (simp add: kPrimes_def prime_certs_def)

lemma kPrimes_prime: "p \<in> set kPrimes \<Longrightarrow> is_prime (int p)"
  using certified_prime kPrimes_certified by auto

lemma kPrimes_coprime:
  assumes "p \<in> set kPrimes" and "n mod p \<noteq> 0"
  shows "coprime p n"
proof -
  have "\<not> int p dvd int n" using assms(2) by (simp add: mod_eq_0_iff_dvd)
  with kPrimes_prime [OF assms(1)] have "coprime (int p) (int n)" by (rule is_prime_coprime)
  then show ?thesis by simp
qed

end
