(* ===== verification/Close_Hashmap_Spec.thy ===== *)
theory Close_Hashmap_Spec
  imports Close_Hashmap_Correct Prime_Table
begin

text \<open>
  What \<open>CloseHashmap\<close> promises its clients: a table of fixed capacity is a bounded finite map
  under any sequence of calls, a growing table keeps its entries while the sizes it grows to
  stay coprime to the probe steps, and iteration gives each live entry once. The last section
  states where the code does not keep the promise: \<open>Resize\<close> does not check the new size, and
  \<open>Copy\<close> copies as many slots as there are elements.
\<close>

section \<open>Init accepts exactly the sizes the probes cover\<close>

lemma init_check_iff: "init_check n ps \<longleftrightarrow> (\<forall>p \<in> set ps. n mod p \<noteq> 0)"
  by (induction ps) auto

lemma kPrimes_gt_1: "p \<in> set kPrimes \<Longrightarrow> 1 < p"
  by (auto simp: kPrimes_def)

lemma init_check_coprime: "init_check n kPrimes \<longleftrightarrow> coprime_size n"
proof
  assume "init_check n kPrimes"
  then show "coprime_size n"
    unfolding init_check_iff coprime_size_def using kPrimes_coprime by blast
next
  assume co: "coprime_size n"
  show "init_check n kPrimes"
    unfolding init_check_iff
  proof
    fix p
    assume p: "p \<in> set kPrimes"
    with co have "coprime p n" by (simp add: coprime_size_def)
    show "n mod p \<noteq> 0"
    proof
      assume "n mod p = 0"
      then have "p dvd n" by (simp add: mod_eq_0_iff_dvd)
      with \<open>coprime p n\<close> have "p = 1" by (simp add: coprime_absorb_left)
      with kPrimes_gt_1 [OF p] show False by simp
    qed
  qed
qed

lemma Init_Some_iff: "hm_Init z n rz eq h \<noteq> None \<longleftrightarrow> coprime_size n"
  by (simp add: hm_Init_def init_check_coprime)

text \<open>
  C22: \<open>Init\<close> returns true for exactly the array sizes that are coprime to all 28 probe steps,
  the sizes for which a probe sequence visits every slot.
\<close>

theorem Init_iff_probes_cover:
  "hm_Init z n rz (=) h \<noteq> None \<longleftrightarrow>
    0 < n \<and> (\<forall>p \<in> set kPrimes. \<forall>pos. (\<lambda>i. (pos + i * p) mod n) ` {..<n} = {..<n})"
proof
  assume "hm_Init z n rz (=) h \<noteq> None"
  then have co: "coprime_size n" and "0 < n"
    using Init_Some_iff Init_inv(1,3) [of z n rz h] table_invD(1) hm_inv_table
    by (metis, metis not_None_eq)
  then show "0 < n \<and> (\<forall>p \<in> set kPrimes. \<forall>pos. (\<lambda>i. (pos + i * p) mod n) ` {..<n} = {..<n})"
    using coprime_step_onto by (auto simp: coprime_size_def simp del: lessThan_iff)
next
  assume cover: "0 < n \<and> (\<forall>p \<in> set kPrimes. \<forall>pos. (\<lambda>i. (pos + i * p) mod n) ` {..<n} = {..<n})"
  have "n mod p \<noteq> 0" if p: "p \<in> set kPrimes" for p
  proof
    assume "n mod p = 0"
    then obtain c where c: "n = p * c" by auto
    have gt: "1 < p" using kPrimes_gt_1 [OF p] .
    have "1 < n" using cover c gt by (cases c) auto
    moreover have "(\<lambda>i. (0 + i * p) mod n) ` {..<n} = {..<n}" using cover p by blast
    ultimately have "1 \<in> (\<lambda>i. (0 + i * p) mod n) ` {..<n}" by simp
    then obtain i where "1 = i * p mod n" by auto
    then have "1 mod p = i * p mod n mod p" by simp
    also have "\<dots> = 0" using c by (simp add: mod_mod_cancel)
    finally show False using gt by simp
  qed
  then show "hm_Init z n rz (=) h \<noteq> None"
    by (simp add: hm_Init_def init_check_iff)
qed

theorem Init_iff_probes_cover_witness:
  "hm_Init (0::nat, 0::nat) 53 True (=) (\<lambda>k. k) = None
    \<and> \<not> (\<forall>p \<in> set kPrimes. \<forall>pos. (\<lambda>i. (pos + i * p) mod 53) ` {..<53} = {..<53})"
proof -
  have "hm_Init (0::nat, 0::nat) 53 True (=) (\<lambda>k. k) = None"
    by (simp add: hm_Init_def kPrimes_def)
  with Init_iff_probes_cover [of "(0::nat, 0::nat)" 53 True "\<lambda>k. k"] show ?thesis by auto
qed

section \<open>A client's view: calls on a table\<close>

datatype ('k, 'v) map_op = MInsert 'k 'v | MUpsert 'k 'v | MErase 'k | MGet 'k | MSize

datatype 'v map_out = RBool bool | RVal "'v option" | RNum nat

fun hm_step ::
  "('k, 'v) close_hashmap \<Rightarrow> ('k, 'v) map_op \<Rightarrow> ('v map_out \<times> ('k, 'v) close_hashmap) result" where
  "hm_step m (MInsert k v) = map_sum id (map_prod RBool id) (hm_Insert m k v)"
| "hm_step m (MUpsert k v) = map_sum id (map_prod RBool id) (hm_Upsert m k v)"
| "hm_step m (MErase k) = Inr (map_prod RBool id (hm_Erase m k))"
| "hm_step m (MGet k) = Inr (RVal (hm_Get m k), m)"
| "hm_step m MSize = Inr (RNum (hm_Size m), m)"

text \<open>The specification: a capacity and a finite map that never holds more keys than that.\<close>

fun bounded_map :: "nat \<times> ('k \<rightharpoonup> 'v) \<Rightarrow> ('k, 'v) map_op \<Rightarrow> 'v map_out \<times> nat \<times> ('k \<rightharpoonup> 'v)" where
  "bounded_map (c, M) (MInsert k v) =
     (if card (dom M) < c \<and> M k = None then (RBool True, c, M(k \<mapsto> v)) else (RBool False, c, M))"
| "bounded_map (c, M) (MUpsert k v) =
     (if card (dom M) < c \<or> M k \<noteq> None then (RBool True, c, M(k \<mapsto> v)) else (RBool False, c, M))"
| "bounded_map (c, M) (MErase k) = (RBool (M k \<noteq> None), c, M(k := None))"
| "bounded_map (c, M) (MGet k) = (RVal (M k), c, M)"
| "bounded_map (c, M) MSize = (RNum (card (dom M)), c, M)"

definition fixed_inv :: "('k, 'v) close_hashmap \<Rightarrow> bool" where
  "fixed_inv m \<longleftrightarrow> hm_inv m \<and> \<not> to_resize m"

definition fixed_abs :: "('k, 'v) close_hashmap \<Rightarrow> nat \<times> ('k \<rightharpoonup> 'v)" where
  "fixed_abs m = (size_array m, hm_map m)"

lemma finite_dom_hm_map: "finite (dom (hm_map m))"
  by (simp add: hm_map_def finite_dom_map_of)

lemma card_dom_map:
  assumes "hm_inv m"
  shows "card (dom (hm_map m)) = num_elm m"
proof -
  let ?kvs = "map snd (filter (\<lambda>it. 0 < tag it) (items m))"
  have "distinct (map fst ?kvs)"
    using live_keys_distinct [OF hm_inv_table [OF assms]] by (simp add: o_def)
  then have "card (fst ` set ?kvs) = length ?kvs"
    by (metis distinct_card length_map list.set_map)
  then show ?thesis
    using assms by (simp add: hm_map_def dom_map_of_conv_image_fst hm_inv_def num_live_def)
qed

lemma write_frame [frame_simps]:
  "size_array (write_item m i k v) = size_array m"
  "to_resize (write_item m i k v) = to_resize m"
  "size_array (write_new_item m i k v) = size_array m"
  "to_resize (write_new_item m i k v) = to_resize m"
  by (simp_all add: write_item_def write_new_item_def)

lemma insert_at_free_frame:
  "insert_at_free m k v = Inr (b, m') \<Longrightarrow> size_array m' = size_array m \<and> to_resize m' = to_resize m"
  by (auto simp: insert_at_free_def frame_simps split: option.splits if_splits)

lemma fixed_frame:
  assumes "\<not> to_resize m"
  shows "hm_Insert m k v = Inr (b, m') \<Longrightarrow> size_array m' = size_array m \<and> \<not> to_resize m'"
    and "hm_Upsert m k v = Inr (b, m') \<Longrightarrow> size_array m' = size_array m \<and> \<not> to_resize m'"
    and "hm_Erase m k = (b, m') \<Longrightarrow> size_array m' = size_array m \<and> \<not> to_resize m'"
  using assms
  by (auto simp: hm_Insert_def hm_Upsert_def hm_Erase_def frame_simps Let_def
      dest: insert_at_free_frame split: option.splits if_splits)

lemma fixed_room: "hm_inv m \<Longrightarrow> num_elm m \<noteq> size_array m \<Longrightarrow> hm_room m"
  using num_elm_le by (fastforce simp: hm_room_def)

lemma fixed_step:
  assumes inv: "fixed_inv m"
  shows "\<exists>out m'. hm_step m op = Inr (out, m') \<and> fixed_inv m'
    \<and> bounded_map (fixed_abs m) op = (out, fixed_abs m')"
proof -
  have hm: "hm_inv m" and fx: "\<not> to_resize m" using inv by (auto simp: fixed_inv_def)
  note le = num_elm_le [OF hm]
  note card = card_dom_map [OF hm]
  show ?thesis
  proof (cases op)
    case (MInsert k v)
    show ?thesis
    proof (cases "num_elm m = size_array m")
      case True
      with fx have "hm_Insert m k v = Inr (False, m)" by (simp add: hm_Insert_def)
      with True inv card MInsert show ?thesis by (simp add: fixed_abs_def)
    next
      case False
      from Insert_correct [OF hm fixed_room [OF hm False], of k v] obtain m' where
        m': "hm_Insert m k v = Inr (hm_map m k = None, m')" "hm_inv m'"
        "hm_map m' = (if hm_map m k = None then (hm_map m)(k \<mapsto> v) else hm_map m)" by blast
      with fixed_frame(1) [OF fx m'(1)] False le card MInsert
      show ?thesis by (auto simp: fixed_abs_def fixed_inv_def)
    qed
  next
    case (MUpsert k v)
    show ?thesis
    proof (cases "num_elm m = size_array m \<and> hm_map m k = None")
      case True
      with Upsert_full_absent [OF hm] fx have "hm_Upsert m k v = Inr (False, m)" by simp
      with True inv card MUpsert show ?thesis by (simp add: fixed_abs_def)
    next
      case False
      then obtain m' where m': "hm_Upsert m k v = Inr (True, m')" "hm_inv m'"
        "hm_map m' = (hm_map m)(k \<mapsto> v)"
        using Upsert_correct [OF hm fixed_room [OF hm]] Upsert_present [OF hm] by metis
      with fixed_frame(2) [OF fx m'(1)] False le card MUpsert
      show ?thesis by (auto simp: fixed_abs_def fixed_inv_def)
    qed
  next
    case (MErase k)
    obtain b m' where e: "hm_Erase m k = (b, m')" by fastforce
    with Erase_correct [OF hm, of k] fixed_frame(3) [OF fx e] MErase
    show ?thesis by (simp add: fixed_abs_def fixed_inv_def)
  next
    case (MGet k)
    with Get_map [OF hm] inv show ?thesis by (simp add: fixed_abs_def)
  next
    case MSize
    with card inv show ?thesis by (simp add: fixed_abs_def hm_Size_def)
  qed
qed

interpretation fixed_table: simulation hm_step "\<lambda>s op out s'. bounded_map s op = (out, s')"
  "\<lambda>_ _. True" fixed_inv fixed_abs
  by unfold_locales (rule fixed_step)

lemma bounded_map_capacity: "fst (snd (fun_run bounded_map (c, M) ops)) = c"
proof (induction ops arbitrary: M)
  case Nil
  then show ?case by simp
next
  case (Cons op ops)
  have "\<exists>out M1. bounded_map (c, M) op = (out, c, M1)" by (cases op) auto
  then obtain out M1 where "bounded_map (c, M) op = (out, c, M1)" by blast
  with Cons [of M1] show ?case by (simp add: split_beta Let_def)
qed

text \<open>
  C4: a table that \<open>Init\<close> accepted with \<open>to_resize = false\<close> behaves under every sequence of
  Insert, Upsert, Erase, Get and Size as a finite map bounded by its capacity: no call faults,
  every return value is the map's, and the table at the end stands for the map at the end.
\<close>

theorem fixed_table_is_bounded_map:
  assumes "hm_Init z n False (=) h = Some m"
  shows "\<exists>outs m'. run_ops hm_step m ops = Inr (outs, m')
    \<and> fun_run bounded_map (n, Map.empty) ops = (outs, n, hm_map m')"
proof -
  have co: "coprime_size n" using assms Init_Some_iff by (metis option.distinct(1))
  note m = Init_inv [OF assms co]
  have "fixed_inv m" using m by (simp add: fixed_inv_def)
  from fixed_table.run_refines [OF this legal_ops_trivial] obtain outs m' where
    r: "run_ops hm_step m ops = Inr (outs, m')"
    "fun_run bounded_map (fixed_abs m) ops = (outs, fixed_abs m')"
    unfolding spec_run_fun by blast
  from bounded_map_capacity [of n "Map.empty" ops] r m have "size_array m' = n"
    by (simp add: fixed_abs_def)
  with r m show ?thesis by (auto simp: fixed_abs_def)
qed

theorem fixed_table_is_bounded_map_witness:
  "\<exists>m. hm_Init (0, 0) 100 False (=) (\<lambda>k. k) = Some m
    \<and> (\<exists>outs m'. run_ops hm_step m [MInsert 3 2, MInsert 1 (6::nat), MErase (10::nat)]
          = Inr (outs, m')
        \<and> fun_run bounded_map (100, Map.empty) [MInsert 3 2, MInsert 1 6, MErase 10]
          = (outs, 100, hm_map m'))"
proof -
  obtain m where m: "hm_Init (0::nat, 0::nat) 100 False (=) (\<lambda>k. k) = Some m"
    by (simp add: hm_Init_def kPrimes_def)
  with fixed_table_is_bounded_map [OF m, of "[MInsert 3 2, MInsert 1 6, MErase 10]"]
  show ?thesis by blast
qed

section \<open>Growing tables\<close>

text \<open>
  C19: \<open>Insert\<close> and \<open>Upsert\<close> on a table with a spare slot, or on a full one that may grow to a
  size coprime to the probe steps. No call faults, the return value tells whether the key was
  absent (\<open>Insert\<close> leaves a present key's value alone, \<open>Upsert\<close> replaces it), no other entry
  changes, and the counter stays the number of keys.
\<close>

theorem Insert_Upsert_with_room:
  assumes "hm_inv m" and "hm_room m"
  shows "\<exists>m1 m2. hm_Insert m k v = Inr (hm_map m k = None, m1) \<and> hm_inv m1
      \<and> hm_map m1 = (if hm_map m k = None then (hm_map m)(k \<mapsto> v) else hm_map m)
      \<and> hm_Size m1 = card (dom (hm_map m1))
      \<and> hm_Upsert m k v = Inr (True, m2) \<and> hm_inv m2 \<and> hm_map m2 = (hm_map m)(k \<mapsto> v)
      \<and> hm_Size m2 = card (dom (hm_map m2))"
proof -
  obtain m1 where m1: "hm_Insert m k v = Inr (hm_map m k = None, m1)" "hm_inv m1"
    "hm_map m1 = (if hm_map m k = None then (hm_map m)(k \<mapsto> v) else hm_map m)"
    using Insert_correct [OF assms] by blast
  obtain m2 where m2: "hm_Upsert m k v = Inr (True, m2)" "hm_inv m2"
    "hm_map m2 = (hm_map m)(k \<mapsto> v)"
    using Upsert_correct [OF assms] by blast
  have "hm_Size m1 = card (dom (hm_map m1))" "hm_Size m2 = card (dom (hm_map m2))"
    using card_dom_map [OF m1(2)] card_dom_map [OF m2(2)] by (simp_all only: hm_Size_def)
  with m1 m2 show ?thesis by blast
qed

lemma Init_small:
  assumes "n = 1 \<or> n = 2"
  shows "\<exists>m. hm_Init z n rz (=) h = Some m \<and> hm_inv m \<and> hm_map m = Map.empty
    \<and> size_array m = n \<and> to_resize m = rz \<and> num_elm m = 0"
proof -
  have "\<forall>p \<in> set kPrimes. 2 < p" by (simp add: kPrimes_def)
  with assms have chk: "init_check n kPrimes" by (auto simp: init_check_iff)
  then obtain m where m: "hm_Init z n rz (=) h = Some m" and e: "num_elm m = 0"
    by (auto simp: hm_Init_def)
  from chk have "coprime_size n" by (simp add: init_check_coprime)
  from Init_inv [OF m this] m e show ?thesis by blast
qed

lemmas Init_nat = Init_small [of _ "(0::nat, 0::nat)" True "\<lambda>k. k"]

theorem Insert_Upsert_with_room_witness:
  "\<exists>m m1. hm_inv m \<and> hm_room m \<and> hm_Insert m (3::nat) (2::nat) = Inr (hm_map m 3 = None, m1)
    \<and> hm_inv m1"
proof -
  obtain m :: "(nat, nat) close_hashmap" where "hm_inv m" "num_elm m = 0" "size_array m = 1"
    using Init_nat [of 1] by auto
  moreover from this have "hm_room m" by (simp add: hm_room_def)
  ultimately show ?thesis using Insert_Upsert_with_room [of m 3 2] by blast
qed

text \<open>
  C20: growing by itself keeps every entry and makes room, when the new size is coprime to the
  probe steps.
\<close>

theorem Resize_keeps_entries:
  assumes "hm_inv m" and "coprime_size (resized (size_array m))"
  shows "hm_inv (hm_Resize m) \<and> hm_map (hm_Resize m) = hm_map m
    \<and> size_array m < hm_Capacity (hm_Resize m) \<and> hm_Size (hm_Resize m) = hm_Size m"
  using Resize_inv [OF assms] Resize_table [OF hm_inv_table [OF assms(1)] assms(2)]
  by (simp add: hm_Capacity_def hm_Size_def)

theorem Resize_keeps_entries_witness:
  "\<exists>m. hm_Init (0::nat, 0::nat) 1 True (=) (\<lambda>k. k) = Some m
    \<and> hm_map (hm_Resize m) = hm_map m \<and> hm_Size (hm_Resize m) = hm_Size m"
proof -
  obtain m where m: "hm_Init (0::nat, 0::nat) 1 True (=) (\<lambda>k. k) = Some m" "hm_inv m"
    "size_array m = 1"
    using Init_nat [of 1] by auto
  have "coprime_size (resized (size_array m))"
    by (simp add: m(3) resized_def Let_def flip: init_check_coprime)
      (simp add: kPrimes_def)
  with Resize_keeps_entries [OF m(2)] m(1) show ?thesis by blast
qed

section \<open>Iteration\<close>

lemma iter_walk_scan:
  assumes "length (items m) = size_array m" and "pos + r = size_array m" and "r \<le> rounds"
  shows "iter_walk m (iter_scan m pos r) rounds
    = map snd (filter (\<lambda>it. 0 < tag it) (drop pos (items m)))"
  using assms
proof (induction r arbitrary: pos rounds)
  case 0
  then show ?case by (cases rounds) (simp_all add: iter_End_def hm_Capacity_def)
next
  case (Suc r)
  then have pos: "pos < length (items m)" by simp
  then have drop: "drop pos (items m) = items m ! pos # drop (Suc pos) (items m)"
    by (simp add: Cons_nth_drop_Suc)
  show ?case
  proof (cases "0 < tag (items m ! pos)")
    case False
    with Suc.IH [of "Suc pos" rounds] Suc.prems drop show ?thesis by simp
  next
    case True
    obtain rounds' where rounds: "rounds = Suc rounds'" "r \<le> rounds'"
      using Suc.prems(3) by (cases rounds) auto
    have "size_array m - Suc pos = r" using Suc.prems(2) by simp
    then have next_pos: "iter_Next m pos = iter_scan m (Suc pos) r"
      using Suc.prems(2) by (auto simp: iter_Next_def hm_Capacity_def)
    have "iter_walk m (iter_Next m pos) rounds'
        = map snd (filter (\<lambda>it. 0 < tag it) (drop (Suc pos) (items m)))"
      unfolding next_pos using Suc.prems(1,2) rounds(2) by (intro Suc.IH) auto
    then show ?thesis
      using True rounds(1) Suc.prems(1) pos drop
      by (simp add: iter_End_def iter_Deref_def hm_Capacity_def)
  qed
qed

text \<open>
  C21: the loop from \<open>Begin\<close> to \<open>End\<close> stops within the capacity and meets every entry of the
  table once, in slot order, and nothing else.
\<close>

theorem iteration_complete:
  assumes "hm_inv m"
  shows "map_of (iterate_all m) = hm_map m \<and> distinct (map fst (iterate_all m))
    \<and> length (iterate_all m) = hm_Size m"
proof -
  note t = hm_inv_table [OF assms]
  have eq: "iterate_all m = map snd (filter (\<lambda>it. 0 < tag it) (items m))"
    using iter_walk_scan [of m 0 "size_array m" "size_array m"] table_invD(3) [OF t]
    by (simp add: iterate_all_def iter_Begin_def hm_Capacity_def)
  have "distinct (map fst (iterate_all m))"
    using live_keys_distinct [OF t] by (simp add: eq o_def)
  with assms show ?thesis by (simp add: eq hm_map_def hm_Size_def hm_inv_def num_live_def)
qed

theorem iteration_complete_witness:
  "\<exists>m m1. hm_Init (0::nat, 0::nat) 2 True (=) (\<lambda>k. k) = Some m
    \<and> hm_Insert m 3 2 = Inr (True, m1) \<and> map_of (iterate_all m1) = [3 \<mapsto> 2]"
proof -
  obtain m where m: "hm_Init (0::nat, 0::nat) 2 True (=) (\<lambda>k. k) = Some m" "hm_inv m"
    "hm_map m = Map.empty" "size_array m = 2" "num_elm m = 0"
    using Init_nat [of 2] by auto
  then have "hm_room m" by (simp add: hm_room_def)
  with Insert_correct [OF m(2), of 3 2] m(3) obtain m1 where
    "hm_Insert m 3 2 = Inr (True, m1)" "hm_inv m1" "hm_map m1 = [3 \<mapsto> 2]" by auto
  with m(1) iteration_complete [of m1] show ?thesis by auto
qed

section \<open>Copy\<close>

lemma hm_inv_cong:
  assumes "size_array m = size_array m'" "hash m = hash m'" "key_equal m = key_equal m'"
    "items m = items m'" "num_elm m = num_elm m'"
  shows "hm_inv m = hm_inv m'" and "hm_map m = hm_map m'"
  using assms
  by (simp_all add: hm_inv_def table_inv_def reach_inv_def distinct_keys_def live_def probe_def
      home_def probe_step_def num_live_def hm_map_def)

text \<open>
  \<open>Copy\<close> gives a table with the other one's entries when the other table is full; it
  copies slots from the front, as many as there are entries.
\<close>

theorem Copy_of_full_table:
  assumes "hm_inv m" and "hm_inv other" and "hm_Size other = hm_Capacity other"
    and "hash m = hash other"
  shows "hm_inv (hm_Copy junk m other) \<and> hm_map (hm_Copy junk m other) = hm_map other"
proof -
  let ?c = "hm_Copy junk m other"
  note m = table_invD [OF hm_inv_table [OF assms(1)]]
  note t = table_invD [OF hm_inv_table [OF assms(2)]]
  have "num_elm other = size_array other"
    using assms(3) by (simp add: hm_Size_def hm_Capacity_def)
  then have "items ?c = items other"
    using m(3) t(3) by (auto simp: hm_Copy_def Let_def)
  then show ?thesis
    using hm_inv_cong [of ?c other] assms(2,4) m(4) t(4) by (simp add: hm_Copy_def Let_def)
qed

theorem Copy_of_full_table_witness:
  "\<exists>m m1. hm_Init (0::nat, 0::nat) 1 True (=) (\<lambda>k. k) = Some m
    \<and> hm_Insert m 3 2 = Inr (True, m1) \<and> hm_map (hm_Copy [] m m1) = [3 \<mapsto> 2]"
proof -
  obtain m where m: "hm_Init (0::nat, 0::nat) 1 True (=) (\<lambda>k. k) = Some m" "hm_inv m"
    "hm_map m = Map.empty" "size_array m = 1" "num_elm m = 0"
    using Init_nat [of 1] by auto
  then have "hm_room m" by (simp add: hm_room_def)
  with Insert_correct [OF m(2), of 3 2] m(3) obtain m1 where
    m1: "hm_Insert m 3 2 = Inr (True, m1)" "hm_inv m1" "hm_map m1 = [3 \<mapsto> 2]" by auto
  from insert_at_free_frame [of m 3 2 True m1] m m1(1)
  have "size_array m1 = 1" "hash m = hash m1"
    by (auto simp: hm_Insert_def insert_at_free_def write_new_item_def write_item_def
        split: option.splits if_splits)
  moreover have "num_elm m1 = 1" using card_dom_map [OF m1(2)] m1(3) by simp
  ultimately show ?thesis
    using Copy_of_full_table [OF m(2) m1(2)] m(1) m1(1,3)
    by (simp add: hm_Size_def hm_Capacity_def)
qed

text \<open>
  \<open>Copy\<close> of a table that is not full can lose an entry: a table of two slots holds the key
  1, in slot 1; its copy says it has one element and does not find the key.
\<close>

theorem Copy_loses_entry:
  "\<exists>m m1. hm_Init (0::nat, 0::nat) 2 True (=) (\<lambda>k. k) = Some m
    \<and> hm_Insert m 1 7 = Inr (True, m1) \<and> hm_Get m1 1 = Some 7
    \<and> hm_Size (hm_Copy [] m m1) = 1 \<and> hm_Get (hm_Copy [] m m1) 1 = None"
proof -
  have "init_check 2 kPrimes" by (simp add: kPrimes_def)
  moreover have "cleared_items (0::nat, 0::nat) 2 = [(0, 0, 0), (0, 0, 0)]"
    by (simp add: cleared_items_def numeral_2_eq_2)
  ultimately have "hm_Init (0::nat, 0::nat) 2 True (=) (\<lambda>k. k)
    = Some \<lparr>size_array = 2, to_resize = True, key_equal = (=), hash = (\<lambda>k. k),
        items = [(0, 0, 0), (0, 0, 0)], num_elm = 0, zero_pair = (0, 0)\<rparr>" (is "_ = Some ?m")
    by (simp add: hm_Init_def)
  moreover have "hm_Insert ?m 1 7
    = Inr (True, ?m\<lparr>items := [(0, 0, 0), (1, 1, 7)], num_elm := 1\<rparr>)"
    by (simp add: hm_Insert_def insert_at_free_def GetItemOrFree_def GetItemOrNull_def
        slot_match_def write_new_item_def write_item_def Let_def numeral_2_eq_2)
  ultimately show ?thesis
    by (simp add: hm_Get_def hm_Copy_def GetItemOrNull_def slot_match_def hm_Size_def Let_def)
qed

section \<open>Resize does not check the new size\<close>

text \<open>
  From 71 slots, which \<open>Init\<close> accepts, the table grows to 106, twice the prime 53. Keys whose
  home in the new array is slot 0 then probe slots 0 and 53 only.
\<close>

lemma kPrimes_0: "kPrimes ! 0 = 53"
  by (simp add: kPrimes_def)

lemma place_loop_stuck:
  assumes "pos = 0 \<or> pos = 53" and "tag (new ! 0) \<noteq> 0" and "tag (new ! 53) \<noteq> 0"
  shows "place_loop 106 53 pos r it new = new"
  using assms by (induction r arbitrary: pos) (auto simp: Let_def)

lemma place_item_stuck:
  assumes "key_of it mod 106 = 0" and "tag (new ! 0) \<noteq> 0" and "tag (new ! 53) \<noteq> 0"
  shows "place_item (\<lambda>k. k) 106 it new = new"
  using assms by (simp add: place_item_def place_loop_stuck kPrimes_0 Let_def)

lemma place_items_stuck:
  assumes "\<forall>it \<in> set its. key_of it mod 106 = 0" and "tag (new ! 0) \<noteq> 0"
    and "tag (new ! 53) \<noteq> 0"
  shows "place_items (\<lambda>k. k) 106 its new = new"
  using assms by (induction its) (simp_all add: place_item_stuck)

lemma place_items_filter:
  "place_items h n its new = place_items h n (filter (\<lambda>it. 0 < tag it) its) new"
  by (induction its arbitrary: new) (simp_all add: place_item_def)

lemma place_first_two:
  assumes "\<forall>it \<in> set (x # y # its). 0 < tag it \<and> key_of it mod 106 = (0::nat)"
  shows "place_items (\<lambda>k. k) 106 (x # y # its) (cleared_items z 106)
    = (cleared_items z 106)[0 := x, 53 := y]"
proof -
  have len: "length (cleared_items z 106) = 106" by (simp add: cleared_items_def)
  have c: "cleared_items z 106 ! i = (0, z)" if "i < 106" for i
    using that by (simp add: cleared_items_def)
  have 1: "place_item (\<lambda>k. k) 106 x (cleared_items z 106) = (cleared_items z 106)[0 := x]"
    using assms c by (simp add: place_item_def Let_def)
  have "place_loop 106 53 0 (Suc 104) y ((cleared_items z 106)[0 := x])
      = (cleared_items z 106)[0 := x, 53 := y]"
    using c [of 53] by (simp only: place_loop.simps Let_def) simp
  with assms c len
  have 2: "place_item (\<lambda>k. k) 106 y ((cleared_items z 106)[0 := x])
      = (cleared_items z 106)[0 := x, 53 := y]"
    by (simp add: place_item_def kPrimes_0 Let_def)
  show ?thesis
    using 1 2 assms len by (simp add: place_items_stuck)
qed

lemma null_loop_stuck:
  assumes "pos = 0 \<or> pos = 53" and "size_array m = 106"
    and "tag (items m ! 0) \<noteq> 0" and "tag (items m ! 53) \<noteq> 0"
    and "\<not> slot_match m k 0" and "\<not> slot_match m k 53"
  shows "null_loop m k 53 pos r = None"
  using assms by (induction r arbitrary: pos) (auto simp: Let_def)

lemma free_loop_stuck:
  assumes "pos = 0 \<or> pos = 53" and "size_array m = 106"
    and "0 < tag (items m ! 0)" and "0 < tag (items m ! 53)"
  shows "free_loop m 53 pos r = None"
  using assms by (induction r arbitrary: pos) auto

lemma Insert_after_bad_Resize:
  assumes inv: "hm_inv m" and size: "size_array m = 71" and full: "num_elm m = 71"
    and rz: "to_resize m" and h: "hash m = (\<lambda>k. k)"
    and keys: "\<forall>k \<in> dom (hm_map m). k mod 106 = 0" and k: "k \<notin> dom (hm_map m)" "k mod 106 = 0"
  shows "hm_Insert m k v = Inl Null_Deref"
proof -
  let ?ls = "filter (\<lambda>it. 0 < tag it) (items m)"
  note t = table_invD [OF hm_inv_table [OF inv]]
  have lv: "0 < tag it \<and> key_of it \<in> dom (hm_map m)" if "it \<in> set ?ls" for it
    using that by (force simp: hm_map_def dom_map_of_conv_image_fst)
  have "length ?ls = 71" using inv full by (simp add: hm_inv_def num_live_def)
  then obtain x y its where xy: "?ls = x # y # its"
    by (metis length_0_conv length_Cons neq_Nil_conv One_nat_def numeral_eq_one_iff
        semiring_norm(84) zero_neq_numeral)
  have two: "\<forall>it \<in> set (x # y # its). 0 < tag it \<and> key_of it mod 106 = 0"
    using lv keys unfolding xy by blast
  have n: "resized 71 = 106" by (simp add: resized_def)
  let ?m2 = "hm_Resize m"
  have items2: "items ?m2 = (cleared_items (zero_pair m) 106)[0 := x, 53 := y]"
    unfolding Resize_with_items with_items_simps h size n
    by (subst place_items_filter) (simp only: xy place_first_two [OF two])
  have "length (cleared_items (zero_pair m) 106) = 106" by (simp add: cleared_items_def)
  then have s0: "items ?m2 ! 0 = x" and s53: "items ?m2 ! 53 = y" by (simp_all add: items2)
  have f: "size_array ?m2 = 106" "hash ?m2 = (\<lambda>k. k)" "key_equal ?m2 = (=)"
    by (simp_all add: Resize_with_items size n h t(4))
  have ne: "k \<noteq> key_of x" "k \<noteq> key_of y"
    using lv [of x] lv [of y] k(1) unfolding xy by auto
  have pos: "0 < tag (items ?m2 ! 0)" "0 < tag (items ?m2 ! 53)"
    using two by (simp_all add: s0 s53)
  have nm: "\<not> slot_match ?m2 k 0" "\<not> slot_match ?m2 k 53"
    using ne by (simp_all add: slot_match_def f(3) s0 s53)
  have "GetItemOrNull ?m2 k = None"
    using pos nm k(2) null_loop_stuck [of 0 ?m2 k]
    by (simp add: GetItemOrNull_def f kPrimes_0)
  then have "GetItemOrFree ?m2 k = None"
    using pos k(2) free_loop_stuck [of 0 ?m2]
    by (simp add: GetItemOrFree_def f kPrimes_0)
  then show ?thesis using size full rz by (simp add: hm_Insert_def insert_at_free_def)
qed

lemma run_ops_snoc:
  "run_ops step m ops = Inr (outs, m') \<Longrightarrow> step m' op = Inl e \<Longrightarrow> run_ops step m (ops @ [op]) = Inl e"
proof (induction ops arbitrary: m outs)
  case Nil
  then show ?case by simp
next
  case (Cons op' ops)
  from Cons.prems(1) obtain out m1 outs' where s: "step m op' = Inr (out, m1)"
    and "run_ops step m1 ops = Inr (outs', m')"
    by (auto split: sum.splits prod.splits)
  with Cons.IH [OF this(2) Cons.prems(2)] show ?case by simp
qed

lemma Insert_frame:
  assumes "num_elm m < size_array m" and "hm_Insert m k v = Inr (b, m')"
  shows "size_array m' = size_array m \<and> to_resize m' = to_resize m \<and> hash m' = hash m"
  using assms
  by (auto simp: hm_Insert_def insert_at_free_def write_new_item_def write_item_def
      split: option.splits if_splits)

lemma insert_many:
  assumes "hm_inv m" and "num_elm m + length ks \<le> size_array m" and "distinct ks"
    and "set ks \<inter> dom (hm_map m) = {}"
  shows "\<exists>outs m'. run_ops hm_step m (map (\<lambda>k. MInsert k (f k)) ks) = Inr (outs, m')
    \<and> hm_inv m' \<and> dom (hm_map m') = set ks \<union> dom (hm_map m)
    \<and> size_array m' = size_array m \<and> to_resize m' = to_resize m \<and> hash m' = hash m"
  using assms
proof (induction ks arbitrary: m)
  case Nil
  then show ?case by simp
next
  case (Cons k ks)
  have absent: "hm_map m k = None" using Cons.prems(4) by auto
  have room: "num_elm m < size_array m" using Cons.prems(2) by simp
  then have "hm_room m" by (simp add: hm_room_def)
  from Insert_correct [OF Cons.prems(1) this, of k "f k"] absent obtain m1 where
    m1: "hm_Insert m k (f k) = Inr (True, m1)" "hm_inv m1" "hm_map m1 = (hm_map m)(k \<mapsto> f k)"
    by auto
  note fr = Insert_frame [OF room m1(1)]
  have "num_elm m1 = Suc (num_elm m)"
    using card_dom_map [OF m1(2)] card_dom_map [OF Cons.prems(1)] absent m1(3)
    by (simp add: domIff card_insert_if finite_dom_hm_map)
  with Cons.prems fr m1(3) have "num_elm m1 + length ks \<le> size_array m1"
    and "distinct ks" and "set ks \<inter> dom (hm_map m1) = {}" by auto
  from Cons.IH [OF m1(2) this] obtain outs m' where
    "run_ops hm_step m1 (map (\<lambda>k. MInsert k (f k)) ks) = Inr (outs, m')" "hm_inv m'"
    "dom (hm_map m') = set ks \<union> dom (hm_map m1)" "size_array m' = size_array m1"
    "to_resize m' = to_resize m1" "hash m' = hash m1" by blast
  with m1 fr show ?case by auto
qed

text \<open>
  C23: a table that \<open>Init\<close> accepts and that may grow can dereference a null pointer. With 71
  slots and the identity as the hash of its keys, the 72nd insertion grows the table to 106
  slots, and \<open>GetItemOrFree_\<close> then returns \<open>NULL\<close> for a key although 104 slots are free.
\<close>

theorem growing_table_faults:
  "\<exists>m. hm_Init (0::nat, 0::nat) 71 True (=) (\<lambda>k. k) = Some m
    \<and> run_ops hm_step m (map (\<lambda>i. MInsert (106 * i) i) [0..<72]) = Inl Null_Deref"
proof -
  have co: "coprime_size 71"
    unfolding init_check_coprime [symmetric] by (simp add: kPrimes_def)
  obtain m where m: "hm_Init (0::nat, 0::nat) 71 True (=) (\<lambda>k. k) = Some m"
    using co Init_Some_iff by fastforce
  note i = Init_inv [OF m co]
  have num: "num_elm m = 0" and h: "hash m = (\<lambda>k. k)"
    using m by (auto simp: hm_Init_def split: if_splits)
  let ?ks = "map (\<lambda>i. 106 * i) [0..<71]"
  have "distinct ?ks" by (simp add: distinct_map inj_on_def)
  with insert_many [OF i(1), of ?ks "\<lambda>k. k div 106"] i num h obtain outs m1 where
    run: "run_ops hm_step m (map (\<lambda>k. MInsert k (k div 106)) ?ks) = Inr (outs, m1)"
    and inv: "hm_inv m1" and dom: "dom (hm_map m1) = set ?ks"
    and fr: "size_array m1 = 71" "to_resize m1" "hash m1 = (\<lambda>k. k)"
    by auto
  have "card (set ?ks) = 71" using \<open>distinct ?ks\<close> by (simp only: distinct_card) simp
  then have "num_elm m1 = 71" using card_dom_map [OF inv] dom by simp
  then have "hm_Insert m1 (106 * 71) 71 = Inl Null_Deref"
    using inv fr dom by (intro Insert_after_bad_Resize) auto
  then have "hm_step m1 (MInsert (106 * 71) 71) = Inl Null_Deref" by simp
  from run_ops_snoc [OF run this]
  have "run_ops hm_step m (map (\<lambda>i. MInsert (106 * i) i) ([0..<71] @ [71])) = Inl Null_Deref"
    by (simp add: o_def)
  moreover have "[0..<72] = [0..<71] @ [71]" using upt_Suc_append [of 0 71] by simp
  ultimately show ?thesis using m by (simp only: ex_simps) auto
qed

end
