(* ===== verification/Heap_Base.thy ===== *)
theory Heap_Base
  imports Prelude
begin

text \<open>
  The class templates \<open>HeapBase\<close> and \<open>SimpleKVHeap\<close> of \<^verbatim>\<open>src/heap.hpp\<close>: a binary heap
  of pointers to nodes. A node knows its place in the array of pointers, so a client that keeps
  the pointer \<open>Insert\<close> gave it, the sign, can later update or erase its entry. This theory
  translates the class; \<open>Heap_Correct\<close> holds the proofs and \<open>Heap_Spec\<close> the client's view.

  The nodes live in an explicit store, the field \<open>nodes\<close>: a pointer is an index of it and
  \<open>new\<close> appends to it (no node is deleted before the destructor runs). What a fresh node holds is the
  field \<open>new_node\<close>; no operation reads it. The array \<open>heap_items_\<close> is a list of such pointers,
  its slot 0 unused as in the class. An access outside the array or through a pointer that was
  never allocated is a fault.
\<close>

section \<open>Data\<close>

record 'v heap_item =
  node_index :: nat
  node_val :: 'v

record ('v, 'f) heap_base =
  init_size_heap :: nat
  feature :: "'v \<Rightarrow> 'f"
  heap_order :: bool
  num_items :: nat
  size_container :: nat
  heap_items :: "nat list"
  heap_init :: bool
  nodes :: "'v heap_item list"
  new_node :: "'v heap_item"

definition kMinHeap :: bool where
  "kMinHeap = False"

definition kMaxHeap :: bool where
  "kMaxHeap = True"

text \<open>The constructor: \<open>heap_items_\<close> is \<open>NULL\<close> and \<open>size_container_\<close> is not set.\<close>

definition new_heap :: "bool \<Rightarrow> 'v heap_item \<Rightarrow> nat \<Rightarrow> ('v \<Rightarrow> 'f) \<Rightarrow> ('v, 'f) heap_base" where
  "new_heap ord junk init_size f =
     \<lparr>init_size_heap = init_size, feature = f, heap_order = ord, num_items = 0,
      size_container = 0, heap_items = [], heap_init = False, nodes = [], new_node = junk\<rparr>"

section \<open>Nodes\<close>

definition val_at :: "('v, 'f) heap_base \<Rightarrow> nat \<Rightarrow> 'v" where
  "val_at h p = node_val (nodes h ! p)"

definition set_val :: "('v, 'f) heap_base \<Rightarrow> nat \<Rightarrow> 'v \<Rightarrow> ('v, 'f) heap_base" where
  "set_val h p v = h\<lparr>nodes := (nodes h)[p := (nodes h ! p)\<lparr>node_val := v\<rparr>]\<rparr>"

definition set_index :: "('v, 'f) heap_base \<Rightarrow> nat \<Rightarrow> nat \<Rightarrow> ('v, 'f) heap_base" where
  "set_index h p i = h\<lparr>nodes := (nodes h)[p := (nodes h ! p)\<lparr>node_index := i\<rparr>]\<rparr>"

text \<open>\<open>heap_items_[i] = p; heap_items_[i]->index = i;\<close>\<close>

definition put_node :: "('v, 'f) heap_base \<Rightarrow> nat \<Rightarrow> nat \<Rightarrow> ('v, 'f) heap_base" where
  "put_node h i p = set_index (h\<lparr>heap_items := (heap_items h)[i := p]\<rparr>) p i"

definition Compare_node :: "('v, 'f :: linorder) heap_base \<Rightarrow> nat \<Rightarrow> nat \<Rightarrow> bool" where
  "Compare_node h p q =
     (if kMinHeap = heap_order h then feature h (val_at h p) < feature h (val_at h q)
      else feature h (val_at h p) > feature h (val_at h q))"

section \<open>Init and Resize\<close>

definition heap_Init :: "('v, 'f) heap_base \<Rightarrow> ('v, 'f) heap_base" where
  "heap_Init h =
     (let n = init_size_heap h; fresh = length (nodes h) in
      h\<lparr>num_items := 0, size_container := n, heap_items := [fresh ..< fresh + n],
        nodes := nodes h @ replicate n (new_node h), heap_init := True\<rparr>)"

text \<open>\<open>XFC_RAII_INIT\<close>: \<open>Init_\<close> always returns true.\<close>

definition raii_init :: "('v, 'f) heap_base \<Rightarrow> ('v, 'f) heap_base" where
  "raii_init h = (if heap_init h then h else heap_Init h)"

text \<open>
  The bytes \<open>Resize_\<close> asks \<open>realloc\<close> for: \<open>int orig_size = sizeof(Node*) * size_container_\<close>,
  then \<open>orig_size << 1\<close> in an \<open>int\<close>.
\<close>

definition resize_bytes :: "nat \<Rightarrow> int" where
  "resize_bytes n = sint (push_bit 1 (word_of_nat (8 * n) :: 32 word))"

text \<open>
  A negative number of bytes becomes a \<open>size_t\<close> near $2^{64}$, for which \<open>realloc\<close> returns
  \<open>NULL\<close>, and a request for too few bytes an array that the loop runs out of.
\<close>

definition heap_Resize :: "('v, 'f) heap_base \<Rightarrow> ('v, 'f) heap_base result" where
  "heap_Resize h =
     (let n = size_container h; fresh = length (nodes h) in
      if resize_bytes n < 0 then Inl Null_Deref
      else if resize_bytes n < 8 * int (2 * n) then Inl Out_Of_Bounds
      else Inr (h\<lparr>size_container := 2 * n,
                  heap_items := heap_items h @ [fresh ..< fresh + n],
                  nodes := nodes h @ replicate n (new_node h)\<rparr>))"

section \<open>AdjustNode\<close>

text \<open>
  The loops move pointers of parents or children into the place \<open>node\<close> leaves; it is itself
  written when the loop ends. The result is the state and the final place.
\<close>

fun up_loop ::
  "('v, 'f :: linorder) heap_base \<Rightarrow> nat \<Rightarrow> nat \<Rightarrow> ('v, 'f) heap_base \<times> nat" where
  "up_loop h node i =
     (if 1 < i \<and> Compare_node h node (heap_items h ! (i div 2))
      then up_loop (put_node h i (heap_items h ! (i div 2))) node (i div 2)
      else (h, i))"

declare up_loop.simps [simp del]

definition min_child :: "('v, 'f :: linorder) heap_base \<Rightarrow> nat \<Rightarrow> nat" where
  "min_child h iter =
     (if iter = num_items h
          \<or> Compare_node h (heap_items h ! iter) (heap_items h ! (iter + 1))
      then iter else iter + 1)"

text \<open>
  The loop down gets the number of rounds it may make; from place 1 on, \<open>num_items_\<close> rounds
  are enough (\<open>down_loop_sink\<close>). From place 0, which no live node has, it need not stop.
\<close>

fun down_loop ::
  "('v, 'f :: linorder) heap_base \<Rightarrow> nat \<Rightarrow> nat \<Rightarrow> nat \<Rightarrow> (('v, 'f) heap_base \<times> nat) result" where
  "down_loop h node pos 0 = (if 2 * pos \<le> num_items h then Inl Diverges else Inr (h, pos))"
| "down_loop h node pos (Suc rounds) =
     (if 2 * pos \<le> num_items h then
        let min = min_child h (2 * pos) in
        if Compare_node h node (heap_items h ! min) then Inr (h, pos)
        else down_loop (put_node h pos (heap_items h ! min)) node min rounds
      else Inr (h, pos))"

definition AdjustNode :: "('v, 'f :: linorder) heap_base \<Rightarrow> nat \<Rightarrow> ('v, 'f) heap_base result" where
  "AdjustNode h i =
     (if num_items h < i then Inr h
      else
        let node = heap_items h ! i in
        if 1 < i \<and> Compare_node h node (heap_items h ! (i div 2)) then
          let (h1, j) = up_loop h node i in Inr (put_node h1 j node)
        else
          (case down_loop h node i (num_items h) of
             Inl e \<Rightarrow> Inl e
           | Inr (h1, j) \<Rightarrow> Inr (put_node h1 j node)))"

section \<open>The operations\<close>

definition insert_node ::
  "('v, 'f :: linorder) heap_base \<Rightarrow> 'v \<Rightarrow> (nat \<times> ('v, 'f) heap_base) result" where
  "insert_node h v =
     (let n = num_items h + 1 in
      if length (heap_items h) \<le> n then Inl Out_Of_Bounds
      else
        let new_item = heap_items h ! n;
            h1 = set_val (h\<lparr>num_items := n\<rparr>) new_item v;
            (h2, i) = up_loop h1 new_item n
        in Inr (new_item, put_node h2 i new_item))"

definition heap_Insert ::
  "('v, 'f :: linorder) heap_base \<Rightarrow> 'v \<Rightarrow> (nat \<times> ('v, 'f) heap_base) result" where
  "heap_Insert h v =
     (let h1 = raii_init h in
      if num_items h1 + 1 = size_container h1 then
        (case heap_Resize h1 of Inl e \<Rightarrow> Inl e | Inr h2 \<Rightarrow> insert_node h2 v)
      else insert_node h1 v)"

definition heap_Refresh ::
  "('v, 'f :: linorder) heap_base \<Rightarrow> nat \<Rightarrow> ('v, 'f) heap_base result" where
  "heap_Refresh h sign =
     (let h1 = raii_init h in
      if length (nodes h1) \<le> sign then Inl Null_Deref
      else AdjustNode h1 (node_index (nodes h1 ! sign)))"

definition heap_Update ::
  "('v, 'f :: linorder) heap_base \<Rightarrow> nat \<Rightarrow> 'v \<Rightarrow> ('v, 'f) heap_base result" where
  "heap_Update h sign v =
     (let h1 = raii_init h in
      if length (nodes h1) \<le> sign then Inl Null_Deref
      else
        let h2 = set_val h1 sign v in AdjustNode h2 (node_index (nodes h2 ! sign)))"

definition heap_RefreshTop :: "('v, 'f :: linorder) heap_base \<Rightarrow> ('v, 'f) heap_base result" where
  "heap_RefreshTop h = AdjustNode (raii_init h) 1"

definition heap_UpdateTop ::
  "('v, 'f :: linorder) heap_base \<Rightarrow> 'v \<Rightarrow> ('v, 'f) heap_base result" where
  "heap_UpdateTop h v =
     (let h1 = raii_init h in
      if num_items h1 = 0 then Inr h1
      else AdjustNode (set_val h1 (heap_items h1 ! 1) v) 1)"

definition heap_Top :: "('v, 'f) heap_base \<Rightarrow> 'v option" where
  "heap_Top h = (if num_items h \<noteq> 0 then Some (val_at h (heap_items h ! 1)) else None)"

definition heap_Item :: "('v, 'f) heap_base \<Rightarrow> nat \<Rightarrow> 'v result" where
  "heap_Item h sign = (if length (nodes h) \<le> sign then Inl Null_Deref else Inr (val_at h sign))"

definition heap_Size :: "('v, 'f) heap_base \<Rightarrow> nat" where
  "heap_Size h = num_items h"

text \<open>The four assignments of \<open>Erase\<close>, for a node with a given index.\<close>

definition swap_out :: "('v, 'f) heap_base \<Rightarrow> nat \<Rightarrow> nat \<Rightarrow> ('v, 'f) heap_base" where
  "swap_out h sign i =
     (let n = num_items h;
          its = (heap_items h)[i := heap_items h ! n];
          its' = its[n := sign]
      in set_index (h\<lparr>heap_items := its', num_items := n - 1\<rparr>) (its' ! i) i)"

definition heap_Erase ::
  "('v, 'f :: linorder) heap_base \<Rightarrow> nat \<Rightarrow> ('v, 'f) heap_base result" where
  "heap_Erase h sign =
     (let h1 = raii_init h in
      if num_items h1 = 0 then Inr h1
      else if length (nodes h1) \<le> sign then Inl Null_Deref
      else
        let i = node_index (nodes h1 ! sign) in
        if length (heap_items h1) \<le> i then Inl Out_Of_Bounds
        else AdjustNode (swap_out h1 sign i) (node_index (nodes (swap_out h1 sign i) ! sign)))"

definition heap_Pop :: "('v, 'f :: linorder) heap_base \<Rightarrow> ('v, 'f) heap_base result" where
  "heap_Pop h =
     (let h1 = raii_init h in
      if length (heap_items h1) \<le> 1 then Inl Out_Of_Bounds
      else heap_Erase h1 (heap_items h1 ! 1))"

definition heap_Clear :: "('v, 'f) heap_base \<Rightarrow> ('v, 'f) heap_base" where
  "heap_Clear h = h\<lparr>num_items := 0\<rparr>"

text \<open>The pointers the destructor deletes, in order.\<close>

definition heap_deleted :: "('v, 'f) heap_base \<Rightarrow> nat list" where
  "heap_deleted h = (if heap_init h then take (size_container h) (heap_items h) else [])"

text \<open>\<open>SimpleKVHeap::Insert\<close>; its heap is ordered by the first component.\<close>

definition kv_heap_Insert ::
  "('k \<times> 'v, 'k :: linorder) heap_base \<Rightarrow> 'k \<Rightarrow> 'v \<Rightarrow> (nat \<times> ('k \<times> 'v, 'k) heap_base) result" where
  "kv_heap_Insert h k v = heap_Insert h (k, v)"

text \<open>\<open>operator<<\<close>: the features in the order of the array, each with a tab behind it, and the end of the line.\<close>

definition heap_print :: "('f \<Rightarrow> string) \<Rightarrow> ('v, 'f) heap_base \<Rightarrow> string result" where
  "heap_print shown h =
     (if length (heap_items h) \<le> num_items h \<and> 0 < num_items h then Inl Out_Of_Bounds
      else Inr (concat (map (\<lambda>i. shown (feature h (val_at h (heap_items h ! i))) @ [CHR 0x09]) [1 ..< Suc (num_items h)])
        @ [CHR 0x0A]))"

end
