(* ===== verification/Heap_Correct.thy ===== *)
theory Heap_Correct
  imports Heap_Base
begin

text \<open>
  Correctness of the heap of \<open>Heap_Base\<close>. Sifting is proved first on lists, for any strict weak
  order, with exchanges in place of the hole the code moves about; the loops of the code are
  then shown to compute those exchanges and to keep the index of every node up to date.
\<close>

section \<open>Sifting by exchanges\<close>

definition lswap :: "'a list \<Rightarrow> nat \<Rightarrow> nat \<Rightarrow> 'a list" where
  "lswap B i j = B[i := B ! j, j := B ! i]"

fun swim :: "('a \<Rightarrow> 'a \<Rightarrow> bool) \<Rightarrow> 'a list \<Rightarrow> nat \<Rightarrow> 'a list" where
  "swim lt B i =
     (if 1 < i \<and> lt (B ! i) (B ! (i div 2)) then swim lt (lswap B i (i div 2)) (i div 2) else B)"

declare swim.simps [simp del]

definition least_child :: "('a \<Rightarrow> 'a \<Rightarrow> bool) \<Rightarrow> nat \<Rightarrow> 'a list \<Rightarrow> nat \<Rightarrow> nat" where
  "least_child lt n B i =
     (if 2 * i = n \<or> lt (B ! (2 * i)) (B ! (2 * i + 1)) then 2 * i else 2 * i + 1)"

fun sink :: "('a \<Rightarrow> 'a \<Rightarrow> bool) \<Rightarrow> nat \<Rightarrow> 'a list \<Rightarrow> nat \<Rightarrow> nat \<Rightarrow> 'a list" where
  "sink lt n B i 0 = B"
| "sink lt n B i (Suc r) =
     (if 2 * i \<le> n \<and> \<not> lt (B ! i) (B ! least_child lt n B i)
      then sink lt n (lswap B i (least_child lt n B i)) (least_child lt n B i) r else B)"

definition in_order :: "('a \<Rightarrow> 'a \<Rightarrow> bool) \<Rightarrow> 'a list \<Rightarrow> nat \<Rightarrow> bool" where
  "in_order lt B j \<longleftrightarrow> \<not> lt (B ! j) (B ! (j div 2))"

definition heap_ok :: "('a \<Rightarrow> 'a \<Rightarrow> bool) \<Rightarrow> nat \<Rightarrow> 'a list \<Rightarrow> bool" where
  "heap_ok lt n B \<longleftrightarrow> (\<forall>j. 2 \<le> j \<and> j \<le> n \<longrightarrow> in_order lt B j)"

text \<open>
  All is in order but for place \<open>i\<close>: what is below it is in order with what is above it, and
  the places of \<open>bad\<close> need not be in order with their parents.
\<close>

definition heap_but :: "('a \<Rightarrow> 'a \<Rightarrow> bool) \<Rightarrow> nat \<Rightarrow> 'a list \<Rightarrow> nat \<Rightarrow> (nat \<Rightarrow> bool) \<Rightarrow> bool" where
  "heap_but lt n B i bad \<longleftrightarrow>
     (\<forall>j. 2 \<le> j \<and> j \<le> n \<and> \<not> bad j \<longrightarrow> in_order lt B j)
     \<and> (\<forall>j. j \<le> n \<and> j div 2 = i \<and> 1 < i \<longrightarrow> \<not> lt (B ! j) (B ! (i div 2)))"

abbreviation "swim_inv lt n B i \<equiv> heap_but lt n B i (\<lambda>j. j = i)"
abbreviation "sink_inv lt n B i \<equiv> heap_but lt n B i (\<lambda>j. j div 2 = i)"
abbreviation "almost_heap lt n B i \<equiv> heap_but lt n B i (\<lambda>j. j = i \<or> j div 2 = i)"

lemma length_lswap [simp]: "length (lswap B i j) = length B"
  by (simp add: lswap_def)

lemma nth_lswap:
  "i < length B \<Longrightarrow> j < length B \<Longrightarrow>
    lswap B i j ! x = (if x = j then B ! i else if x = i then B ! j else B ! x)"
  by (simp add: lswap_def nth_list_update)

lemma mset_lswap: "i < length B \<Longrightarrow> j < length B \<Longrightarrow> mset (lswap B i j) = mset B"
  by (simp add: lswap_def mset_swap)

lemma least_child_bounds:
  fixes lt :: "'a \<Rightarrow> 'a \<Rightarrow> bool"
  assumes "2 * i \<le> n" and "1 \<le> i"
  shows "least_child lt n B i \<le> n" and "least_child lt n B i div 2 = i"
    and "i < least_child lt n B i"
  using assms by (auto simp: least_child_def)

locale weak_order =
  fixes lt :: "'a \<Rightarrow> 'a \<Rightarrow> bool"
  assumes asym: "lt x y \<Longrightarrow> \<not> lt y x"
    and cotrans: "\<not> lt x y \<Longrightarrow> \<not> lt y z \<Longrightarrow> \<not> lt x z"
begin

lemma swim_step:
  assumes inv: "swim_inv lt n B i" and i: "1 < i" "i \<le> n" and n: "n < length B"
    and lt: "lt (B ! i) (B ! (i div 2))"
  shows "swim_inv lt n (lswap B i (i div 2)) (i div 2)"
proof -
  let ?p = "i div 2" and ?B = "lswap B i (i div 2)"
  have p: "?p < i" "?p < length B" "i < length B" using i n by auto
  note nth = nth_lswap [OF p(3) p(2)]
  have edge: "\<not> lt (B ! j) (B ! (j div 2))" if "2 \<le> j" "j \<le> n" "j \<noteq> i" for j
    using inv that by (simp add: heap_but_def in_order_def)
  have below: "\<not> lt (B ! j) (B ! ?p)" if "j \<le> n" "j div 2 = i" for j
    using inv that i by (simp add: heap_but_def)
  have "in_order lt ?B j" if j: "2 \<le> j" "j \<le> n" "j \<noteq> ?p" for j
  proof (cases "j = i")
    case True
    with asym [OF lt] p show ?thesis by (simp add: in_order_def nth)
  next
    case False
    have "\<not> lt (B ! j) (B ! i)" if "j div 2 = ?p"
      using cotrans [OF _ asym [OF lt]] edge [of j] that j False by simp
    with False j below [of j] edge [of j] show ?thesis by (simp add: in_order_def nth)
  qed
  moreover have "\<not> lt (?B ! j) (?B ! (?p div 2))" if j: "j \<le> n" "j div 2 = ?p" "1 < ?p" for j
  proof -
    have pe: "\<not> lt (B ! ?p) (B ! (?p div 2))" using edge [of ?p] j p i by simp
    have ne: "j \<noteq> ?p" "?p div 2 \<noteq> ?p" "?p div 2 \<noteq> i" using j p by auto
    have "\<not> lt (B ! j) (B ! (?p div 2))" if "j \<noteq> i"
      using cotrans [OF _ pe] edge [of j] j that by simp
    with pe ne show ?thesis by (simp add: nth)
  qed
  ultimately show ?thesis by (simp add: heap_but_def)
qed

lemma swim_heap:
  "swim_inv lt n B i \<Longrightarrow> 1 \<le> i \<Longrightarrow> i \<le> n \<Longrightarrow> n < length B \<Longrightarrow> heap_ok lt n (swim lt B i)"
proof (induction i arbitrary: B rule: less_induct)
  case (less i)
  show ?case
  proof (cases "1 < i \<and> lt (B ! i) (B ! (i div 2))")
    case True
    with less.prems have "swim_inv lt n (lswap B i (i div 2)) (i div 2)"
      by (intro swim_step) auto
    then have "heap_ok lt n (swim lt (lswap B i (i div 2)) (i div 2))"
      using less.prems True by (intro less.IH) auto
    with True show ?thesis by (subst swim.simps) simp
  next
    case False
    then have "swim lt B i = B" by (subst swim.simps) auto
    moreover have "in_order lt B i" if "2 \<le> i" using False that by (simp add: in_order_def)
    ultimately show ?thesis using less.prems(1) by (auto simp: heap_but_def heap_ok_def)
  qed
qed

lemma least_child:
  assumes "2 * i \<le> n" and "j \<le> n" and "j div 2 = i"
  shows "\<not> lt (B ! j) (B ! least_child lt n B i)"
proof -
  have irr: "\<not> lt x x" for x using asym by blast
  have j: "j = 2 * i \<or> j = 2 * i + 1" using assms(3) by auto
  show ?thesis
  proof (cases "2 * i = n \<or> lt (B ! (2 * i)) (B ! (2 * i + 1))")
    case True
    with j assms(2) asym irr show ?thesis by (auto simp: least_child_def)
  next
    case False
    with j irr show ?thesis by (auto simp: least_child_def)
  qed
qed

lemma sink_step:
  assumes inv: "sink_inv lt n B i" and i: "1 \<le> i" "2 * i \<le> n" and n: "n < length B"
    and lt: "\<not> lt (B ! i) (B ! least_child lt n B i)"
  shows "sink_inv lt n (lswap B i (least_child lt n B i)) (least_child lt n B i)"
proof -
  let ?m = "least_child lt n B i"
  let ?B = "lswap B i ?m"
  note m = least_child_bounds [OF i(2,1), of lt B]
  have l: "?m < length B" "i < length B" using m i n by auto
  note nth = nth_lswap [OF l(2) l(1)]
  have edge: "\<not> lt (B ! j) (B ! (j div 2))" if "2 \<le> j" "j \<le> n" "j div 2 \<noteq> i" for j
    using inv that by (simp add: heap_but_def in_order_def)
  have above: "\<not> lt (B ! ?m) (B ! (i div 2))" if "1 < i"
    using inv m that by (simp add: heap_but_def)
  have "in_order lt ?B j" if j: "2 \<le> j" "j \<le> n" "j div 2 \<noteq> ?m" for j
  proof -
    consider "j = ?m" | "j = i" | "j \<noteq> ?m" "j \<noteq> i" "j div 2 = i" | "j \<noteq> ?m" "j \<noteq> i" "j div 2 \<noteq> i"
      by blast
    then show ?thesis
    proof cases
      case 1
      with m lt show ?thesis by (simp add: in_order_def nth)
    next
      case 2
      with above m j i show ?thesis by (auto simp: in_order_def nth)
    next
      case 3
      with least_child [OF i(2) j(2)] m show ?thesis by (simp add: in_order_def nth)
    next
      case 4
      with edge [of j] j show ?thesis by (simp add: in_order_def nth)
    qed
  qed
  moreover have "\<not> lt (?B ! j) (?B ! (?m div 2))" if j: "j \<le> n" "j div 2 = ?m" for j
    using edge [of j] j m i by (auto simp: nth)
  ultimately show ?thesis by (simp add: heap_but_def)
qed

lemma sink_heap:
  "sink_inv lt n B i \<Longrightarrow> 1 \<le> i \<Longrightarrow> n < length B \<Longrightarrow> n < i + r \<Longrightarrow> heap_ok lt n (sink lt n B i r)"
proof (induction r arbitrary: B i)
  case 0
  then show ?case by (fastforce simp: heap_but_def heap_ok_def)
next
  case (Suc r)
  show ?case
  proof (cases "2 * i \<le> n \<and> \<not> lt (B ! i) (B ! least_child lt n B i)")
    case True
    note m = least_child_bounds [OF conjunct1 [OF True] Suc.prems(2), of lt B]
    have "heap_ok lt n (sink lt n (lswap B i (least_child lt n B i)) (least_child lt n B i) r)"
      using Suc.prems True m by (intro Suc.IH sink_step) auto
    with True show ?thesis by simp
  next
    case False
    have "in_order lt B j" if j: "j \<le> n" "j div 2 = i" for j
    proof -
      have "2 * i \<le> n" using j by auto
      with False have "\<not> lt (B ! least_child lt n B i) (B ! i)" using asym by blast
      with cotrans [OF least_child [OF \<open>2 * i \<le> n\<close> j]] j show ?thesis
        by (simp add: in_order_def)
    qed
    moreover have "sink lt n B i (Suc r) = B" using False by auto
    ultimately show ?thesis using Suc.prems(1) by (auto simp: heap_but_def heap_ok_def)
  qed
qed

text \<open>The root is the least.\<close>

lemma heap_root_least:
  "heap_ok lt n B \<Longrightarrow> 1 \<le> j \<Longrightarrow> j \<le> n \<Longrightarrow> \<not> lt (B ! j) (B ! 1)"
proof (induction j rule: less_induct)
  case (less j)
  show ?case
  proof (cases "j = 1")
    case True
    then show ?thesis using asym by blast
  next
    case False
    with less have "\<not> lt (B ! j) (B ! (j div 2))" "\<not> lt (B ! (j div 2)) (B ! 1)"
      by (auto simp: heap_ok_def in_order_def)
    then show ?thesis using cotrans by blast
  qed
qed

lemma almost_heap_cases:
  assumes "almost_heap lt n B i"
  shows "1 < i \<Longrightarrow> lt (B ! i) (B ! (i div 2)) \<Longrightarrow> swim_inv lt n B i"
    and "\<not> (1 < i \<and> lt (B ! i) (B ! (i div 2))) \<Longrightarrow> sink_inv lt n B i"
proof -
  assume up: "1 < i" "lt (B ! i) (B ! (i div 2))"
  have "in_order lt B j" if "2 \<le> j" "j \<le> n" "j \<noteq> i" for j
  proof (cases "j div 2 = i")
    case True
    with assms that up cotrans [of "B ! j" "B ! (i div 2)" "B ! i"] asym [OF up(2)]
    show ?thesis by (auto simp: heap_but_def in_order_def)
  next
    case False
    with assms that show ?thesis by (simp add: heap_but_def)
  qed
  with assms show "swim_inv lt n B i" by (simp add: heap_but_def)
next
  assume "\<not> (1 < i \<and> lt (B ! i) (B ! (i div 2)))"
  then have "in_order lt B i" if "2 \<le> i" using that by (simp add: in_order_def)
  with assms show "sink_inv lt n B i" by (auto simp: heap_but_def)
qed

text \<open>What is left of a heap when one entry is replaced, and when one is added at the end.\<close>

lemma almost_heapI:
  assumes ok: "heap_ok lt n A" and n': "n' \<le> n \<or> n' = Suc n \<and> i = Suc n" and i: "i \<le> Suc n"
    and eq: "\<And>x y. 1 \<le> x \<Longrightarrow> x \<le> n' \<Longrightarrow> 1 \<le> y \<Longrightarrow> y \<le> n' \<Longrightarrow> x \<noteq> i \<Longrightarrow> y \<noteq> i \<Longrightarrow>
      lt' (B ! x) (B ! y) = lt (A ! x) (A ! y)"
  shows "almost_heap lt' n' B i"
  unfolding heap_but_def
proof (intro conjI allI impI)
  fix j assume j: "2 \<le> j \<and> j \<le> n' \<and> \<not> (j = i \<or> j div 2 = i)"
  moreover have "j \<le> n" "1 \<le> j div 2" "j div 2 \<le> n'" using j n' by auto
  ultimately show "in_order lt' B j"
    using ok eq [of j "j div 2"] by (simp add: heap_ok_def in_order_def)
next
  fix j assume j: "j \<le> n' \<and> j div 2 = i \<and> 1 < i"
  then have "2 \<le> j" "i < j" "1 \<le> i div 2" "i div 2 < i" by auto
  moreover from this have "j \<le> n" using j n' by auto
  ultimately have "\<not> lt (A ! j) (A ! i)" "\<not> lt (A ! i) (A ! (i div 2))"
    using ok j by (auto simp: heap_ok_def in_order_def)
  then have "\<not> lt (A ! j) (A ! (i div 2))" by (rule cotrans)
  then show "\<not> lt' (B ! j) (B ! (i div 2))"
    using eq [of j "i div 2"] j \<open>i < j\<close> \<open>1 \<le> i div 2\<close> \<open>i div 2 < i\<close> by auto
qed

end

lemma almost_heap_leaf: "almost_heap lt n B i \<Longrightarrow> n < 2 * i \<Longrightarrow> swim_inv lt n B i"
  unfolding heap_but_def by fastforce

lemma swim_mset: "i < length B \<Longrightarrow> mset (swim lt B i) = mset B"
proof (induction i arbitrary: B rule: less_induct)
  case (less i)
  then show ?case by (subst swim.simps) (auto simp: mset_lswap)
qed


lemma sink_mset:
  "1 \<le> i \<Longrightarrow> n < length B \<Longrightarrow> mset (sink lt n B i r) = mset B"
proof (induction r arbitrary: B i)
  case 0
  then show ?case by simp
next
  case (Suc r)
  have "least_child lt n B i \<le> n \<and> i < least_child lt n B i" if "2 * i \<le> n"
    using that Suc.prems(1) by (auto simp: least_child_def)
  with Suc show ?case by (auto simp: mset_lswap)
qed

lemma swim_outside:
  assumes "n < x \<or> x = 0"
  shows "1 \<le> i \<Longrightarrow> i \<le> n \<Longrightarrow> n < length B \<Longrightarrow> swim lt B i ! x = B ! x"
proof (induction i arbitrary: B rule: less_induct)
  case (less i)
  then show ?case using assms by (subst swim.simps) (auto simp: nth_lswap)
qed

lemma sink_outside:
  assumes "n < x \<or> x = 0"
  shows "1 \<le> i \<Longrightarrow> i \<le> n \<Longrightarrow> n < length B \<Longrightarrow> sink lt n B i r ! x = B ! x"
proof (induction r arbitrary: B i)
  case 0
  then show ?case by simp
next
  case (Suc r)
  have "least_child lt n B i \<le> n \<and> i < least_child lt n B i" if "2 * i \<le> n"
    using that Suc.prems(1) by (auto simp: least_child_def)
  with Suc assms show ?case by (auto simp: nth_lswap)
qed

section \<open>The order of nodes\<close>

lemma Compare_node_weak_order: "weak_order (Compare_node h)"
  by unfold_locales (auto simp: Compare_node_def split: if_splits)

interpretation node_order: weak_order "Compare_node h" for h :: "('v, 'f :: linorder) heap_base"
  by (rule Compare_node_weak_order)

text \<open>What the loops leave alone: everything but the array and the indexes of the nodes.\<close>

definition same_but_place :: "('v, 'f) heap_base \<Rightarrow> ('v, 'f) heap_base \<Rightarrow> bool" where
  "same_but_place h h' \<longleftrightarrow>
     (\<exists>its ns. h' = h\<lparr>heap_items := its, nodes := ns\<rparr> \<and> map node_val ns = map node_val (nodes h)
        \<and> length its = length (heap_items h))"

lemma same_but_placeD:
  assumes "same_but_place h h'"
  shows "init_size_heap h' = init_size_heap h" "feature h' = feature h"
    "heap_order h' = heap_order h" "num_items h' = num_items h"
    "size_container h' = size_container h" "heap_init h' = heap_init h"
    "new_node h' = new_node h" "length (nodes h') = length (nodes h)"
    "length (heap_items h') = length (heap_items h)"
    "map node_val (nodes h') = map node_val (nodes h)"
  using assms unfolding same_but_place_def by (auto dest: map_eq_imp_length_eq)

lemma same_but_place_val:
  "same_but_place h h' \<Longrightarrow> p < length (nodes h) \<Longrightarrow> val_at h' p = val_at h p"
  using same_but_placeD(8,10) [of h h'] unfolding val_at_def by (metis nth_map)

lemma same_but_place_refl [simp]: "same_but_place h h"
  unfolding same_but_place_def by (intro exI [of _ "heap_items h"] exI [of _ "nodes h"]) simp

lemma same_but_place_trans [trans]:
  assumes "same_but_place h h1" and "same_but_place h1 h2"
  shows "same_but_place h h2"
proof -
  from assms obtain its ns its' ns' where
    "h1 = h\<lparr>heap_items := its, nodes := ns\<rparr>" "map node_val ns = map node_val (nodes h)"
    "length its = length (heap_items h)" "h2 = h1\<lparr>heap_items := its', nodes := ns'\<rparr>"
    "map node_val ns' = map node_val (nodes h1)" "length its' = length (heap_items h1)"
    unfolding same_but_place_def by blast
  then have "h2 = h\<lparr>heap_items := its', nodes := ns'\<rparr> \<and> map node_val ns' = map node_val (nodes h)
      \<and> length its' = length (heap_items h)"
    by simp
  then show ?thesis unfolding same_but_place_def by blast
qed

lemma same_but_place_put: "same_but_place h (put_node h i p)"
proof -
  have "map node_val ((nodes h)[p := (nodes h ! p)\<lparr>node_index := i\<rparr>]) = map node_val (nodes h)"
    by (cases "p < length (nodes h)", intro nth_equalityI)
      (simp_all add: nth_list_update list_update_beyond)
  then show ?thesis
    unfolding same_but_place_def put_node_def set_index_def
    by (intro exI [of _ "(heap_items h)[i := p]"]
        exI [of _ "(nodes h)[p := (nodes h ! p)\<lparr>node_index := i\<rparr>]"]) simp
qed

lemma same_but_place_Compare:
  assumes "same_but_place h h'" and "p < length (nodes h)" and "q < length (nodes h)"
  shows "Compare_node h' p q = Compare_node h p q"
  unfolding Compare_node_def same_but_placeD(2,3) [OF assms(1)]
    same_but_place_val [OF assms(1,2)] same_but_place_val [OF assms(1,3)] ..

section \<open>The loops compute the exchanges\<close>

definition index_at :: "('v, 'f) heap_base \<Rightarrow> nat \<Rightarrow> nat" where
  "index_at h p = node_index (nodes h ! p)"

text \<open>The array with \<open>node\<close> written into place \<open>i\<close>, which the loop leaves for the end.\<close>

abbreviation filled :: "('v, 'f) heap_base \<Rightarrow> nat \<Rightarrow> nat \<Rightarrow> nat list" where
  "filled h node i \<equiv> (heap_items h)[i := node]"

definition holed :: "('v, 'f) heap_base \<Rightarrow> nat \<Rightarrow> nat \<Rightarrow> bool" where
  "holed h node i \<longleftrightarrow>
     1 \<le> i \<and> i \<le> num_items h \<and> num_items h < length (heap_items h)
     \<and> distinct (filled h node i) \<and> set (filled h node i) = {..<length (nodes h)}
     \<and> (\<forall>x. 1 \<le> x \<and> x \<le> num_items h \<and> x \<noteq> i \<longrightarrow> index_at h (heap_items h ! x) = x)"

definition indexed :: "('v, 'f) heap_base \<Rightarrow> bool" where
  "indexed h \<longleftrightarrow>
     num_items h < length (heap_items h)
     \<and> distinct (heap_items h) \<and> set (heap_items h) = {..<length (nodes h)}
     \<and> (\<forall>x. 1 \<le> x \<and> x \<le> num_items h \<longrightarrow> index_at h (heap_items h ! x) = x)"

lemma index_put:
  "p < length (nodes h) \<Longrightarrow> q < length (nodes h) \<Longrightarrow>
    index_at (put_node h i p) q = (if q = p then i else index_at h q)"
  by (simp add: index_at_def put_node_def set_index_def nth_list_update)

lemma heap_items_put [simp]: "heap_items (put_node h i p) = (heap_items h)[i := p]"
  by (simp add: put_node_def set_index_def)

lemma put_frame [simp]:
  "num_items (put_node h i p) = num_items h" "length (nodes (put_node h i p)) = length (nodes h)"
  by (simp_all add: put_node_def set_index_def)

lemma holed_slot:
  assumes "holed h node i" and "x \<le> num_items h" and "x \<noteq> i"
  shows "heap_items h ! x < length (nodes h)" and "heap_items h ! x \<noteq> node"
proof -
  have x: "x < length (filled h node i)" using assms by (simp add: holed_def)
  then have "filled h node i ! x \<in> set (filled h node i)" by (rule nth_mem)
  then show "heap_items h ! x < length (nodes h)" using assms by (simp add: holed_def)
  have "filled h node i ! x \<noteq> filled h node i ! i"
    using assms x by (subst nth_eq_iff_index_eq) (auto simp: holed_def)
  then show "heap_items h ! x \<noteq> node" using assms by (simp add: holed_def)
qed

lemma holed_node: "holed h node i \<Longrightarrow> node < length (nodes h)"
proof -
  assume "holed h node i"
  moreover from this have "node \<in> set (filled h node i)"
    by (intro set_update_memI) (simp add: holed_def)
  ultimately show ?thesis by (simp add: holed_def)
qed

lemma holed_close:
  assumes "holed h node i"
  shows "indexed (put_node h i node)"
proof -
  have "index_at (put_node h i node) (filled h node i ! x) = x"
    if "1 \<le> x" "x \<le> num_items h" for x
    using assms that holed_slot [OF assms that(2)] holed_node [OF assms]
    by (cases "x = i") (auto simp: index_put holed_def)
  with assms show ?thesis by (simp add: indexed_def holed_def)
qed

lemma holed_move:
  assumes hd: "holed h node i" and j: "1 \<le> j" "j \<le> num_items h" "j \<noteq> i"
  defines "h' \<equiv> put_node h i (heap_items h ! j)"
  shows "holed h' node j" and "filled h' node j = lswap (filled h node i) i j"
    and "same_but_place h h'"
proof -
  have len: "i < length (heap_items h)" "j < length (heap_items h)"
    using hd j by (simp_all add: holed_def)
  show eq: "filled h' node j = lswap (filled h node i) i j"
    using len j by (simp add: h'_def lswap_def list_update_swap)
  have mset: "mset (filled h' node j) = mset (filled h node i)"
    unfolding eq using len by (intro mset_lswap) simp_all
  have "index_at h' (heap_items h' ! x) = x" if x: "1 \<le> x" "x \<le> num_items h" "x \<noteq> j" for x
  proof (cases "x = i")
    case True
    with len holed_slot [OF hd j(2,3)] show ?thesis by (simp add: h'_def index_put)
  next
    case False
    have "filled h node i ! x \<noteq> filled h node i ! j"
      using hd x len by (subst nth_eq_iff_index_eq) (auto simp: holed_def)
    then have "heap_items h ! x \<noteq> heap_items h ! j" using False j by simp
    with hd x False holed_slot [OF hd j(2,3)] holed_slot [OF hd x(2) False]
    show ?thesis by (simp add: h'_def index_put holed_def)
  qed
  with hd j mset show "holed h' node j"
    unfolding holed_def using mset_eq_imp_distinct_iff [OF mset] mset_eq_setD [OF mset]
    by (simp add: h'_def)
  show "same_but_place h h'" unfolding h'_def by (rule same_but_place_put)
qed

lemma holed_Compare:
  assumes "holed h node i" and "x \<le> num_items h" and "y \<le> num_items h"
  shows "Compare_node h (filled h node i ! x) (filled h node i ! y) \<longleftrightarrow>
    Compare_node h (if x = i then node else heap_items h ! x)
      (if y = i then node else heap_items h ! y)"
  using assms by (simp add: holed_def)

lemma holed_set:
  assumes "holed h node i" and "x \<le> num_items h"
  shows "filled h node i ! x < length (nodes h)"
  using assms holed_slot [OF assms] holed_node [OF assms(1)] by (auto simp: holed_def nth_list_update)

lemma up_loop_swim:
  assumes "holed h node i" and "up_loop h node i = (h', j)"
    and "\<And>p q. p < length (nodes h) \<Longrightarrow> q < length (nodes h) \<Longrightarrow> Compare_node h p q = lt p q"
  shows "holed h' node j \<and> filled h' node j = swim lt (filled h node i) i \<and> same_but_place h h'"
  using assms
proof (induction i arbitrary: h rule: less_induct)
  case (less i)
  note hd = less.prems(1)
  have i: "1 \<le> i" "i < length (heap_items h)" "i div 2 \<le> num_items h" "i div 2 \<noteq> i"
    using hd by (auto simp: holed_def)
  have cmp: "Compare_node h node (heap_items h ! (i div 2))
      \<longleftrightarrow> lt (filled h node i ! i) (filled h node i ! (i div 2))"
    using i less.prems(3) holed_node [OF hd] holed_slot [OF hd i(3,4)] by simp
  show ?case
  proof (cases "1 < i \<and> Compare_node h node (heap_items h ! (i div 2))")
    case True
    let ?h = "put_node h i (heap_items h ! (i div 2))"
    from True have p: "1 \<le> i div 2" "i div 2 < i" by auto
    note mv = holed_move [OF hd p(1) i(3,4)]
    have "up_loop ?h node (i div 2) = (h', j)"
      using less.prems(2) True by (simp add: up_loop.simps [of h node i])
    moreover have "Compare_node ?h p q = lt p q" if "p < length (nodes ?h)" "q < length (nodes ?h)" for p q
      using that less.prems(3) same_but_place_Compare [OF mv(3)] by simp
    ultimately have "holed h' node j" "same_but_place ?h h'"
      "filled h' node j = swim lt (filled ?h node (i div 2)) (i div 2)"
      using less.IH [OF p(2) mv(1)] by blast+
    moreover have "swim lt (filled h node i) i
        = swim lt (lswap (filled h node i) i (i div 2)) (i div 2)"
      using True cmp by (subst swim.simps) simp
    ultimately show ?thesis using mv(2) same_but_place_trans [OF mv(3)] by simp
  next
    case False
    then have "h' = h" "j = i" using less.prems(2) by (auto simp: up_loop.simps [of h node i])
    moreover have "swim lt (filled h node i) i = filled h node i"
      using False cmp by (subst swim.simps) auto
    ultimately show ?thesis using hd by simp
  qed
qed

lemma down_loop_sink:
  assumes "holed h node i" and "num_items h < i + r"
    and "\<And>p q. p < length (nodes h) \<Longrightarrow> q < length (nodes h) \<Longrightarrow> Compare_node h p q = lt p q"
  shows "\<exists>h' j. down_loop h node i r = Inr (h', j) \<and> holed h' node j
    \<and> filled h' node j = sink lt (num_items h) (filled h node i) i r \<and> same_but_place h h'"
  using assms
proof (induction r arbitrary: h i)
  case 0
  then show ?case by (auto intro!: exI)
next
  case (Suc r)
  note hd = Suc.prems(1)
  let ?n = "num_items h" and ?V = "filled h node i"
  let ?m = "min_child h (2 * i)"
  have i: "1 \<le> i" "i < length (heap_items h)" using hd by (auto simp: holed_def)
  show ?case
  proof (cases "2 * i \<le> ?n")
    case False
    then show ?thesis using hd by (auto intro!: exI)
  next
    case True
    have cmp: "Compare_node h (heap_items h ! x) (heap_items h ! y) \<longleftrightarrow> lt (?V ! x) (?V ! y)"
      if "x \<le> ?n" "y \<le> ?n" "x \<noteq> i" "y \<noteq> i" for x y
      using that Suc.prems(3) holed_slot(1) [OF hd] by simp
    have m_eq: "?m = least_child lt ?n ?V i"
      using cmp [of "2 * i" "2 * i + 1"] True i by (auto simp: min_child_def least_child_def)
    note m = least_child_bounds [OF True i(1), of lt ?V, folded m_eq]
    have stop: "Compare_node h node (heap_items h ! ?m) \<longleftrightarrow> lt (?V ! i) (?V ! ?m)"
      using i m Suc.prems(3) holed_node [OF hd] holed_slot [OF hd m(1)] by simp
    show ?thesis
    proof (cases "Compare_node h node (heap_items h ! ?m)")
      case stopped: True
      then show ?thesis using hd True stop m_eq by (auto intro!: exI)
    next
      case False
      let ?h = "put_node h i (heap_items h ! ?m)"
      have mv: "holed ?h node ?m" "filled ?h node ?m = lswap ?V i ?m" "same_but_place h ?h"
        using holed_move [OF hd _ m(1)] m(3) by auto
      have "Compare_node ?h p q = lt p q" if "p < length (nodes ?h)" "q < length (nodes ?h)" for p q
        using that Suc.prems(3) same_but_place_Compare [OF mv(3)] by simp
      then obtain h' j where "down_loop ?h node ?m r = Inr (h', j)" "holed h' node j"
        "filled h' node j = sink lt ?n (filled ?h node ?m) ?m r" "same_but_place ?h h'"
        using Suc.IH [OF mv(1)] Suc.prems(2) m(3) by fastforce
      moreover have "sink lt ?n ?V i (Suc r) = sink lt ?n (lswap ?V i ?m) ?m r"
        using True False stop m_eq by simp
      ultimately show ?thesis
        using True False mv(2) same_but_place_trans [OF mv(3)] by (simp add: Let_def)
    qed
  qed
qed

section \<open>AdjustNode restores the heap\<close>

definition live_signs :: "('v, 'f) heap_base \<Rightarrow> nat set" where
  "live_signs h = (!) (heap_items h) ` {1..num_items h}"

text \<open>The array and the indexes fit, and the nodes are in heap order.\<close>

definition heap_ready :: "('v, 'f :: linorder) heap_base \<Rightarrow> bool" where
  "heap_ready h \<longleftrightarrow> indexed h \<and> length (heap_items h) = size_container h
     \<and> 2 \<le> size_container h \<and> heap_ok (Compare_node h) (num_items h) (heap_items h)"

lemma same_ends_same_middle:
  assumes "distinct B" and "mset B' = mset B" and "n < length B"
    and "\<And>x. n < x \<or> x = 0 \<Longrightarrow> B' ! x = B ! x"
  shows "(!) B' ` {1..n} = (!) B ` {1..n}"
proof -
  let ?O = "{0} \<union> {n<..<length B}"
  have split: "(!) C ` {1..n} = set C - (!) C ` ?O" if "distinct C" "length C = length B" for C
  proof -
    have inj: "inj_on ((!) C) {..<length B}"
      using that by (auto simp: inj_on_def nth_eq_iff_index_eq)
    have eq: "{1..n} = {..<length B} - ?O" using assms(3) by auto
    have sub: "{..<length B} - ?O \<subseteq> {..<length B}" "?O \<subseteq> {..<length B}" using assms(3) by auto
    have "(!) C ` {1..n} = (!) C ` {..<length B} - (!) C ` ?O"
      unfolding eq by (rule inj_on_image_set_diff [OF inj sub])
    also have "(!) C ` {..<length B} = set C"
      using nth_image [of "length C" C] that(2) by (simp add: lessThan_atLeast0)
    finally show ?thesis .
  qed
  have "length B' = length B" "distinct B'" "set B' = set B"
    using assms(1,2) mset_eq_length mset_eq_imp_distinct_iff mset_eq_setD by blast+
  moreover have "(!) B' ` ?O = (!) B ` ?O" using assms(4) by (intro image_cong) auto
  ultimately show ?thesis using split [of B] split [of B'] assms(1) by simp
qed

lemma indexed_holed:
  assumes "indexed h" and "1 \<le> i" and "i \<le> num_items h"
  shows "holed h (heap_items h ! i) i" and "filled h (heap_items h ! i) i = heap_items h"
  using assms by (simp_all add: indexed_def holed_def)

lemma indexed_slot: "indexed h \<Longrightarrow> i \<le> num_items h \<Longrightarrow> heap_items h ! i < length (nodes h)"
  using nth_mem [of i "heap_items h"] by (simp add: indexed_def)

lemma heap_ok_cong:
  assumes "heap_ok lt n B" and "\<And>x y. 1 \<le> x \<Longrightarrow> x \<le> n \<Longrightarrow> 1 \<le> y \<Longrightarrow> y \<le> n \<Longrightarrow>
    lt (B ! x) (B ! y) = lt' (B ! x) (B ! y)"
  shows "heap_ok lt' n B"
  unfolding heap_ok_def in_order_def
proof (intro allI impI)
  fix j assume j: "2 \<le> j \<and> j \<le> n"
  then have "1 \<le> j div 2" "j div 2 \<le> n" by auto
  with assms(1) assms(2) [of j "j div 2"] j show "\<not> lt' (B ! j) (B ! (j div 2))"
    by (simp add: heap_ok_def in_order_def)
qed

text \<open>
  What both branches share: once the node is written into its final place the state is a heap
  over the same nodes.
\<close>

lemma close_heap:
  assumes idx: "distinct (heap_items h)" "num_items h < length (heap_items h)"
    and hd: "holed h1 node j" and same: "same_but_place h h1"
    and ok: "heap_ok (Compare_node h) (num_items h) (filled h1 node j)"
    and mset: "mset (filled h1 node j) = mset (heap_items h)"
    and out: "\<And>x. num_items h < x \<or> x = 0 \<Longrightarrow> filled h1 node j ! x = heap_items h ! x"
  defines "h' \<equiv> put_node h1 j node"
  shows "indexed h' \<and> heap_ok (Compare_node h') (num_items h') (heap_items h')
    \<and> same_but_place h h' \<and> live_signs h' = live_signs h"
proof -
  have i': "indexed h'" unfolding h'_def by (rule holed_close [OF hd])
  have s': "same_but_place h h'"
    unfolding h'_def using same_but_place_trans [OF same same_but_place_put] .
  note f = same_but_placeD [OF s']
  have its: "heap_items h' = filled h1 node j" by (simp add: h'_def)
  have "Compare_node h (heap_items h' ! x) (heap_items h' ! y)
      = Compare_node h' (heap_items h' ! x) (heap_items h' ! y)"
    if "x \<le> num_items h" "y \<le> num_items h" for x y
    using same_but_place_Compare [OF s'] indexed_slot [OF i'] that f(4,8) by simp
  then have "heap_ok (Compare_node h') (num_items h) (heap_items h')"
    using ok unfolding its by (intro heap_ok_cong [OF ok [folded its], unfolded its]) simp
  moreover have "live_signs h' = live_signs h"
    unfolding live_signs_def f(4) its
    using idx mset out by (intro same_ends_same_middle) auto
  ultimately show ?thesis using i' s' f(4) by simp
qed

lemma Adjust_correct:
  fixes h :: "('v, 'f :: linorder) heap_base"
  assumes idx: "indexed h" and i: "1 \<le> i" "i \<le> num_items h"
    and almost: "almost_heap (Compare_node h) (num_items h) (heap_items h) i"
  shows "\<exists>h'. AdjustNode h i = Inr h' \<and> indexed h' \<and> same_but_place h h'
    \<and> heap_ok (Compare_node h') (num_items h') (heap_items h') \<and> live_signs h' = live_signs h"
proof -
  let ?lt = "Compare_node h" and ?A = "heap_items h" and ?n = "num_items h"
  let ?node = "?A ! i"
  note hd = indexed_holed [OF idx i]
  have len: "?n < length ?A" and dist: "distinct ?A" using idx by (simp_all add: indexed_def)
  show ?thesis
  proof (cases "1 < i \<and> ?lt ?node (?A ! (i div 2))")
    case True
    obtain h1 j where up: "up_loop h ?node i = (h1, j)" by fastforce
    from up_loop_swim [OF hd(1) this, of ?lt] hd(2)
    have u: "holed h1 ?node j" "filled h1 ?node j = swim ?lt ?A i" "same_but_place h h1" by auto
    have "heap_ok ?lt ?n (swim ?lt ?A i)"
      using node_order.almost_heap_cases(1) [OF almost] True i len
      by (intro node_order.swim_heap) auto
    with close_heap [OF dist len u(1,3)] u(2) swim_mset [of i ?A ?lt] swim_outside [of ?n _ i ?A ?lt] i len
    show ?thesis using True i up by (auto simp: AdjustNode_def Let_def)
  next
    case False
    from down_loop_sink [OF hd(1), of ?n ?lt] i hd(2) obtain h1 j where
      d: "down_loop h ?node i ?n = Inr (h1, j)" "holed h1 ?node j"
      "filled h1 ?node j = sink ?lt ?n ?A i ?n" "same_but_place h h1" by auto
    have "heap_ok ?lt ?n (sink ?lt ?n ?A i ?n)"
      using node_order.almost_heap_cases(2) [OF almost False] i len
      by (intro node_order.sink_heap) auto
    with close_heap [OF dist len d(2,4)] d(3) sink_mset [of i ?n ?A ?lt ?n]
      sink_outside [of ?n _ i ?A ?lt ?n] i len
    show ?thesis using False i d(1) by (auto simp: AdjustNode_def Let_def)
  qed
qed

section \<open>The invariant and the operations\<close>

definition heap_inv :: "('v, 'f :: linorder) heap_base \<Rightarrow> bool" where
  "heap_inv h \<longleftrightarrow> 2 \<le> init_size_heap h
     \<and> (if heap_init h then heap_ready h
        else num_items h = 0 \<and> nodes h = [] \<and> heap_items h = [])"

definition heap_map :: "('v, 'f) heap_base \<Rightarrow> nat \<rightharpoonup> 'v" where
  "heap_map h p = (if p \<in> live_signs h then Some (val_at h p) else None)"

text \<open>The parameters of the class, which no operation changes.\<close>

definition same_class :: "('v, 'f) heap_base \<Rightarrow> ('v, 'f) heap_base \<Rightarrow> bool" where
  "same_class h h' \<longleftrightarrow> init_size_heap h' = init_size_heap h \<and> feature h' = feature h
     \<and> heap_order h' = heap_order h"

lemma same_class_refl [simp]: "same_class h h"
  by (simp add: same_class_def)

lemma same_class_trans: "same_class h h1 \<Longrightarrow> same_class h1 h2 \<Longrightarrow> same_class h h2"
  by (simp add: same_class_def)

lemma same_but_place_class: "same_but_place h h' \<Longrightarrow> same_class h h'"
  by (simp add: same_class_def same_but_placeD)

lemma dom_heap_map [simp]: "dom (heap_map h) = live_signs h"
  by (auto simp: heap_map_def dom_def)

lemma live_bound: "indexed h \<Longrightarrow> p \<in> live_signs h \<Longrightarrow> p < length (nodes h)"
  using indexed_slot by (auto simp: live_signs_def)

lemma live_index:
  "indexed h \<Longrightarrow> p \<in> live_signs h \<Longrightarrow>
    1 \<le> index_at h p \<and> index_at h p \<le> num_items h \<and> heap_items h ! index_at h p = p"
  by (auto simp: live_signs_def indexed_def)

lemma card_live:
  assumes "indexed h"
  shows "card (live_signs h) = num_items h"
proof -
  have "inj_on ((!) (heap_items h)) {1..num_items h}"
    using assms by (auto simp: indexed_def inj_on_def nth_eq_iff_index_eq)
  then show ?thesis by (simp add: live_signs_def card_image)
qed

text \<open>A heap once sifted: the map is that of the state before sifting.\<close>

lemma sifted_map:
  assumes "same_but_place h h'" and "live_signs h' = live_signs h"
    and "live_signs h \<subseteq> {..<length (nodes h)}"
  shows "heap_map h' = heap_map h"
proof
  fix p
  show "heap_map h' p = heap_map h p"
    using assms same_but_place_val [OF assms(1), of p] by (auto simp: heap_map_def)
qed

lemma Init_ready:
  assumes "2 \<le> init_size_heap h" and "nodes h = []"
  shows "heap_ready (heap_Init h)"
  using assms
  by (simp add: heap_ready_def heap_Init_def indexed_def heap_ok_def Let_def lessThan_atLeast0)

lemma raii_init_inv:
  assumes "heap_inv h"
  shows "heap_ready (raii_init h)" and "heap_inv (raii_init h)" and "heap_init (raii_init h)"
    and "heap_map (raii_init h) = heap_map h" and "num_items (raii_init h) = num_items h"
    and "same_class h (raii_init h)" and "raii_init (raii_init h) = raii_init h"
proof -
  show r: "heap_ready (raii_init h)"
    using assms Init_ready [of h] by (auto simp: heap_inv_def raii_init_def split: if_splits)
  show i: "heap_init (raii_init h)" by (simp add: raii_init_def heap_Init_def Let_def)
  show c: "same_class h (raii_init h)"
    by (simp add: raii_init_def heap_Init_def Let_def same_class_def)
  show "heap_inv (raii_init h)" using assms r i c by (simp add: heap_inv_def same_class_def)
  show n: "num_items (raii_init h) = num_items h"
    using assms by (auto simp: heap_inv_def raii_init_def heap_Init_def Let_def split: if_splits)
  show "heap_map (raii_init h) = heap_map h"
  proof (cases "heap_init h")
    case False
    then have "num_items h = 0" using assms by (simp add: heap_inv_def)
    with n show ?thesis by (auto simp: heap_map_def live_signs_def)
  qed (simp add: raii_init_def)
  show "raii_init (raii_init h) = raii_init h" using i by (simp add: raii_init_def)
qed

lemma ready_inv: "heap_ready h \<Longrightarrow> heap_init h \<Longrightarrow> 2 \<le> init_size_heap h \<Longrightarrow> heap_inv h"
  by (simp add: heap_inv_def)

lemma num_items_frame [simp]:
  "val_at (h\<lparr>num_items := k\<rparr>) q = val_at h q" "index_at (h\<lparr>num_items := k\<rparr>) q = index_at h q"
  by (simp_all add: val_at_def index_at_def)

lemma set_val_frame [simp]:
  "heap_items (set_val h p v) = heap_items h" "num_items (set_val h p v) = num_items h"
  "length (nodes (set_val h p v)) = length (nodes h)"
  "size_container (set_val h p v) = size_container h" "heap_init (set_val h p v) = heap_init h"
  "init_size_heap (set_val h p v) = init_size_heap h" "feature (set_val h p v) = feature h"
  "heap_order (set_val h p v) = heap_order h" "index_at (set_val h p v) q = index_at h q"
  "live_signs (set_val h p v) = live_signs h"
  by (cases "p < length (nodes h)";
      simp add: set_val_def index_at_def nth_list_update list_update_beyond live_signs_def)+

lemma val_set_val:
  "p < length (nodes h) \<Longrightarrow> val_at (set_val h p v) q = (if q = p then v else val_at h q)"
  by (simp add: set_val_def val_at_def nth_list_update)

lemma Compare_cong:
  "feature h' = feature h \<Longrightarrow> heap_order h' = heap_order h \<Longrightarrow> val_at h' p = val_at h p \<Longrightarrow>
    val_at h' q = val_at h q \<Longrightarrow> Compare_node h' p q = Compare_node h p q"
  by (simp add: Compare_node_def)

text \<open>A new value for a live entry, then \<open>AdjustNode\<close> at its place: \<open>Update\<close> and its kin.\<close>

lemma set_val_Adjust:
  assumes ready: "heap_ready h" and p: "p \<in> live_signs h"
  shows "\<exists>h'. AdjustNode (set_val h p v) (index_at h p) = Inr h' \<and> heap_ready h'
    \<and> heap_map h' = (heap_map h)(p \<mapsto> v) \<and> same_but_place (set_val h p v) h'"
proof -
  let ?h = "set_val h p v" and ?i = "index_at h p"
  have idx: "indexed h" and ok: "heap_ok (Compare_node h) (num_items h) (heap_items h)"
    using ready by (simp_all add: heap_ready_def)
  note i = live_index [OF idx p]
  note pb = live_bound [OF idx p]
  have other: "heap_items h ! x \<noteq> p" if "x \<noteq> ?i" "1 \<le> x" "x \<le> num_items h" for x
    using that idx i by (auto simp: indexed_def)
  have "almost_heap (Compare_node ?h) (num_items h) (heap_items h) ?i"
    using ok i other pb
    by (intro node_order.almost_heapI [OF ok] Compare_cong) (simp_all add: val_set_val)
  then obtain h' where h': "AdjustNode ?h ?i = Inr h'" "indexed h'" "same_but_place ?h h'"
    "heap_ok (Compare_node h') (num_items h') (heap_items h')" "live_signs h' = live_signs h"
    using Adjust_correct [of ?h ?i] idx i by (auto simp: indexed_def)
  have "heap_map h' = heap_map ?h"
    using sifted_map [OF h'(3)] h'(5) live_bound [OF idx] by auto
  also have "\<dots> = (heap_map h)(p \<mapsto> v)"
    using p pb by (auto simp: heap_map_def val_set_val)
  finally have "heap_map h' = (heap_map h)(p \<mapsto> v)" .
  with h' ready same_but_placeD [OF h'(3)] show ?thesis by (auto simp: heap_ready_def)
qed

lemma Refresh_eq_Adjust:
  "heap_init h \<Longrightarrow> p < length (nodes h) \<Longrightarrow> heap_Refresh h p = AdjustNode h (index_at h p)"
  by (simp add: heap_Refresh_def raii_init_def index_at_def)

lemma Update_eq_Adjust:
  "heap_init h \<Longrightarrow> p < length (nodes h) \<Longrightarrow>
    heap_Update h p v = AdjustNode (set_val h p v) (index_at h p)"
  using set_val_frame(9) [of h p v p]
  by (simp add: heap_Update_def raii_init_def index_at_def)

lemma Update_correct:
  assumes inv: "heap_inv h" and p: "p \<in> live_signs h"
  shows "\<exists>h'. heap_Update h p v = Inr h' \<and> heap_Refresh (set_val h p v) p = Inr h' \<and> heap_inv h'
    \<and> heap_map h' = (heap_map h)(p \<mapsto> v) \<and> same_class h h'"
proof -
  have "heap_init h" using inv p by (auto simp: heap_inv_def live_signs_def split: if_splits)
  then have ready: "heap_ready h" using inv by (simp add: heap_inv_def)
  then have pb: "p < length (nodes h)" using live_bound p by (auto simp: heap_ready_def)
  from set_val_Adjust [OF ready p] obtain h' where
    "AdjustNode (set_val h p v) (index_at h p) = Inr h'" "heap_ready h'"
    "heap_map h' = (heap_map h)(p \<mapsto> v)" "same_but_place (set_val h p v) h'" by blast
  with \<open>heap_init h\<close> pb inv show ?thesis
    by (auto simp: Update_eq_Adjust Refresh_eq_Adjust heap_inv_def same_class_def
        dest: same_but_placeD)
qed

lemma set_val_same: "set_val h p (val_at h p) = h"
  by (simp add: set_val_def val_at_def)

lemma top_live: "0 < num_items h \<Longrightarrow> heap_items h ! 1 \<in> live_signs h"
  by (auto simp: live_signs_def)

lemma top_index: "indexed h \<Longrightarrow> 0 < num_items h \<Longrightarrow> index_at h (heap_items h ! 1) = 1"
  by (simp add: indexed_def)

lemma heap_init_if_items: "heap_inv h \<Longrightarrow> 0 < num_items h \<Longrightarrow> heap_init h \<and> heap_ready h"
  by (auto simp: heap_inv_def split: if_splits)

lemma UpdateTop_correct:
  assumes inv: "heap_inv h" and "0 < num_items h"
  shows "heap_UpdateTop h v = heap_Update h (heap_items h ! 1) v"
    and "heap_RefreshTop h = heap_Refresh h (heap_items h ! 1)"
proof -
  from heap_init_if_items [OF assms] have h: "heap_init h" "indexed h"
    by (simp_all add: heap_ready_def)
  then have "heap_items h ! 1 < length (nodes h)" using assms(2) by (intro indexed_slot) auto
  with h assms(2) top_index [OF h(2) assms(2)]
  show "heap_UpdateTop h v = heap_Update h (heap_items h ! 1) v"
    "heap_RefreshTop h = heap_Refresh h (heap_items h ! 1)"
    by (simp_all add: heap_UpdateTop_def heap_RefreshTop_def Update_eq_Adjust Refresh_eq_Adjust
        raii_init_def)
qed

lemma Top_empty_ops:
  assumes "heap_inv h" and "num_items h = 0"
  shows "heap_UpdateTop h v = Inr (raii_init h)" and "heap_RefreshTop h = Inr (raii_init h)"
    and "heap_Erase h p = Inr (raii_init h)" and "heap_Pop h = Inr (raii_init h)"
proof -
  note r = raii_init_inv [OF assms(1)]
  have "2 \<le> length (heap_items (raii_init h))" using r(1) by (simp add: heap_ready_def)
  with r assms show "heap_UpdateTop h v = Inr (raii_init h)"
    "heap_RefreshTop h = Inr (raii_init h)" "heap_Erase h p = Inr (raii_init h)"
    "heap_Pop h = Inr (raii_init h)"
    by (simp_all add: heap_UpdateTop_def heap_RefreshTop_def heap_Erase_def heap_Pop_def
        AdjustNode_def Let_def)
qed

subsection \<open>Insert\<close>

lemma resize_bytes_eq:
  assumes "n < 2 ^ 27"
  shows "resize_bytes n = 16 * int n"
proof -
  have n: "n < 134217728" using assms by simp
  have "push_bit 1 (word_of_nat (8 * n)) = (word_of_int (int (16 * n)) :: 32 word)"
    by (simp add: push_bit_eq_mult)
  then have "resize_bytes n = signed_take_bit 31 (int (16 * n))"
    unfolding resize_bytes_def by (simp only: sint_sbintrunc') simp
  also have "\<dots> = 16 * int n"
    using n by (subst signed_take_bit_int_eq_self) auto
  finally show ?thesis .
qed

lemma Resize_ready:
  assumes "heap_ready h" and "size_container h < 2 ^ 27"
  shows "\<exists>h'. heap_Resize h = Inr h' \<and> heap_ready h' \<and> size_container h' = 2 * size_container h
    \<and> heap_map h' = heap_map h \<and> num_items h' = num_items h \<and> same_class h h'
    \<and> heap_init h' = heap_init h"
proof -
  let ?n = "size_container h" and ?f = "length (nodes h)"
  let ?h = "h\<lparr>size_container := 2 * ?n, heap_items := heap_items h @ [?f ..< ?f + ?n],
    nodes := nodes h @ replicate ?n (new_node h)\<rparr>"
  have idx: "indexed h" and len: "length (heap_items h) = ?n" "num_items h < ?n"
    using assms by (simp_all add: heap_ready_def indexed_def)
  have items: "heap_items ?h ! x = heap_items h ! x" if "x \<le> num_items h" for x
    using that len by (simp add: nth_append)
  have vals: "val_at ?h p = val_at h p" "index_at ?h p = index_at h p" if "p < ?f" for p
    using that by (simp_all add: val_at_def index_at_def nth_append)
  have slot: "heap_items h ! x < ?f" if "x \<le> num_items h" for x
    using indexed_slot [OF idx that] .
  have "indexed ?h" unfolding indexed_def
    using idx items vals slot len by (auto simp: indexed_def)
  moreover have "heap_ok (Compare_node ?h) (num_items h) (heap_items ?h)"
    using assms(1) items slot vals
    by (auto simp: heap_ready_def heap_ok_def in_order_def Compare_node_def)
  moreover have "live_signs ?h = live_signs h"
    using items by (auto simp: live_signs_def intro!: image_cong)
  then have "heap_map ?h = heap_map h"
    using live_bound [OF idx] vals by (auto simp: heap_map_def fun_eq_iff)
  ultimately show ?thesis
    using assms resize_bytes_eq [OF assms(2)] len
    by (intro exI [of _ ?h]) (simp add: heap_Resize_def Let_def heap_ready_def same_class_def)
qed

lemma insert_node_correct:
  fixes h :: "('v, 'f :: linorder) heap_base"
  assumes ready: "heap_ready h" and room: "num_items h + 1 < size_container h"
  shows "\<exists>p h'. insert_node h v = Inr (p, h') \<and> heap_ready h' \<and> p \<notin> live_signs h
    \<and> heap_map h' = (heap_map h)(p \<mapsto> v) \<and> num_items h' = num_items h + 1 \<and> same_class h h'
    \<and> heap_init h' = heap_init h \<and> size_container h' = size_container h"
proof -
  let ?n = "num_items h" and ?A = "heap_items h"
  let ?p = "?A ! (?n + 1)"
  let ?h = "set_val (h\<lparr>num_items := ?n + 1\<rparr>) ?p v"
  have idx: "indexed h" and len: "length ?A = size_container h"
    and ok: "heap_ok (Compare_node h) ?n ?A"
    using ready by (simp_all add: heap_ready_def)
  then have dist: "distinct ?A" by (simp add: indexed_def)
  have "?p \<in> set ?A" using room len by simp
  then have pb: "?p < length (nodes h)" using idx by (auto simp: indexed_def)
  have other: "?A ! x \<noteq> ?p" if "x \<noteq> ?n + 1" "x \<le> ?n + 1" for x
    using that dist room len by (auto simp: nth_eq_iff_index_eq)
  have hd: "holed ?h ?p (?n + 1)"
    using idx room len pb by (auto simp: holed_def indexed_def)
  obtain h1 j where up: "up_loop ?h ?p (?n + 1) = (h1, j)" by fastforce
  have fill: "filled ?h ?p (?n + 1) = ?A" by simp
  from up_loop_swim [OF hd up, of "Compare_node ?h"] fill
  have u: "holed h1 ?p j" "filled h1 ?p j = swim (Compare_node ?h) ?A (?n + 1)"
    "same_but_place ?h h1" by auto
  have "almost_heap (Compare_node ?h) (?n + 1) ?A (?n + 1)"
    using other pb
    by (intro node_order.almost_heapI [OF ok] Compare_cong) (auto simp: val_set_val)
  then have "heap_ok (Compare_node ?h) (?n + 1) (swim (Compare_node ?h) ?A (?n + 1))"
    using room len by (intro node_order.swim_heap almost_heap_leaf) auto
  with close_heap [of ?h h1 ?p j] u dist room len
    swim_mset [of "?n + 1" ?A "Compare_node ?h"] swim_outside [of "?n + 1" _ "?n + 1" ?A "Compare_node ?h"]
  have c: "indexed (put_node h1 j ?p)" "same_but_place ?h (put_node h1 j ?p)"
    "heap_ok (Compare_node (put_node h1 j ?p)) (num_items (put_node h1 j ?p))
      (heap_items (put_node h1 j ?p))"
    "live_signs (put_node h1 j ?p) = live_signs ?h" by auto
  have live: "live_signs ?h = insert ?p (live_signs h)"
    by (simp add: live_signs_def atLeastAtMostSuc_conv)
  have notin: "?p \<notin> live_signs h"
  proof
    assume "?p \<in> live_signs h"
    then obtain x where "x \<le> ?n" "?A ! x = ?p" by (auto simp: live_signs_def)
    with other [of x] show False by simp
  qed
  have "heap_map (put_node h1 j ?p) = heap_map ?h"
    using sifted_map [OF c(2,4)] live pb live_bound [OF idx] by auto
  also have "\<dots> = (heap_map h)(?p \<mapsto> v)"
    using live pb notin by (auto simp: heap_map_def val_set_val fun_eq_iff)
  finally have "heap_map (put_node h1 j ?p) = (heap_map h)(?p \<mapsto> v)" .
  with c ready notin up same_but_placeD [OF c(2)] room len
  show ?thesis by (simp add: insert_node_def Let_def heap_ready_def same_class_def)
qed

lemma heap_Insert_correct:
  fixes h :: "('v, 'f :: linorder) heap_base"
  assumes inv: "heap_inv h" and room: "num_items h + 1 < 2 ^ 27"
  shows "\<exists>p h'. heap_Insert h v = Inr (p, h') \<and> heap_inv h' \<and> p \<notin> live_signs h
    \<and> heap_map h' = (heap_map h)(p \<mapsto> v) \<and> same_class h h'"
proof -
  let ?h = "raii_init h"
  note r = raii_init_inv [OF inv]
  have dom: "live_signs ?h = live_signs h" using r(4) by (metis dom_heap_map)
  have lt: "num_items ?h < size_container ?h" using r(1) by (simp add: heap_ready_def indexed_def)
  have init2: "2 \<le> init_size_heap ?h" using r(2) by (simp add: heap_inv_def)
  show ?thesis
  proof (cases "num_items ?h + 1 = size_container ?h")
    case True
    with room r(5) obtain h2 where h2: "heap_Resize ?h = Inr h2" "heap_ready h2"
      "size_container h2 = 2 * size_container ?h" "heap_map h2 = heap_map ?h"
      "num_items h2 = num_items ?h" "same_class ?h h2" "heap_init h2 = heap_init ?h"
      using Resize_ready [OF r(1)] by auto
    with insert_node_correct [OF h2(2), of v] lt obtain p h' where
      "insert_node h2 v = Inr (p, h')" "heap_ready h'" "p \<notin> live_signs h2"
      "heap_map h' = (heap_map h2)(p \<mapsto> v)" "same_class h2 h'" "heap_init h' = heap_init h2" by auto
    moreover from this h2 r(3) init2 have "heap_inv h'"
      by (intro ready_inv) (simp_all add: same_class_def)
    moreover have "live_signs h2 = live_signs h" using h2(4) dom by (metis dom_heap_map)
    ultimately show ?thesis
      using h2 True r(4,6) by (intro exI [of _ p] exI [of _ h'])
        (simp add: heap_Insert_def Let_def same_class_def)
  next
    case False
    with insert_node_correct [OF r(1), of v] lt obtain p h' where
      "insert_node ?h v = Inr (p, h')" "heap_ready h'" "p \<notin> live_signs ?h"
      "heap_map h' = (heap_map ?h)(p \<mapsto> v)" "same_class ?h h'" "heap_init h' = heap_init ?h" by auto
    moreover from this r(3) init2 have "heap_inv h'"
      by (intro ready_inv) (simp_all add: same_class_def)
    ultimately show ?thesis
      using False r(4,6) dom by (intro exI [of _ p] exI [of _ h'])
        (simp add: heap_Insert_def Let_def same_class_def)
  qed
qed

subsection \<open>Erase and Pop\<close>

lemma swap_out_frame [simp]:
  "num_items (swap_out h p i) = num_items h - 1"
  "heap_items (swap_out h p i) = (heap_items h)[i := heap_items h ! num_items h, num_items h := p]"
  "length (nodes (swap_out h p i)) = length (nodes h)"
  "size_container (swap_out h p i) = size_container h" "heap_init (swap_out h p i) = heap_init h"
  "init_size_heap (swap_out h p i) = init_size_heap h" "feature (swap_out h p i) = feature h"
  "heap_order (swap_out h p i) = heap_order h"
  by (simp_all add: swap_out_def set_index_def Let_def)

lemma val_swap_out [simp]: "val_at (swap_out h p i) q = val_at h q"
  by (cases "q = (heap_items h)[i := heap_items h ! num_items h, num_items h := p] ! i";
      cases "q < length (nodes h)")
    (simp_all add: swap_out_def set_index_def val_at_def Let_def nth_list_update list_update_beyond)

lemma Compare_swap_out [simp]: "Compare_node (swap_out h p i) = Compare_node h"
  by (intro ext Compare_cong) simp_all

lemma index_swap_out:
  assumes "i < length (heap_items h)" and "q < length (nodes h)" and "r < length (nodes h)"
    and "r = heap_items (swap_out h p i) ! i"
  shows "index_at (swap_out h p i) q = (if q = r then i else index_at h q)"
  using assms by (simp add: swap_out_def set_index_def index_at_def Let_def nth_list_update)

lemma swap_out_live:
  assumes ready: "heap_ready h" and p: "p \<in> live_signs h"
  defines "g \<equiv> swap_out h p (index_at h p)"
  shows "indexed g" and "live_signs g = live_signs h - {p}"
    and "almost_heap (Compare_node g) (num_items g) (heap_items g) (index_at h p)"
    and "index_at g p = index_at h p"
proof -
  let ?i = "index_at h p" and ?n = "num_items h" and ?A = "heap_items h"
  have idx: "indexed h" and ok: "heap_ok (Compare_node h) ?n ?A"
    using ready by (simp_all add: heap_ready_def)
  note i = live_index [OF idx p]
  have len: "?n < length ?A" "?i < length ?A" and dist: "distinct ?A"
    using idx i by (simp_all add: indexed_def)
  have B: "heap_items g = lswap ?A ?i ?n" using i by (simp add: g_def lswap_def)
  have mset: "mset (heap_items g) = mset ?A" unfolding B using len by (intro mset_lswap)
  have slot: "?A ! x < length (nodes h)" if "x \<le> ?n" for x using indexed_slot [OF idx that] .
  have at_i: "heap_items g ! ?i = (if ?i = ?n then p else ?A ! ?n)"
    using i len by (auto simp: B nth_lswap)
  have ix: "index_at g q = (if q = heap_items g ! ?i then ?i else index_at h q)"
    if "q < length (nodes h)" for q
    unfolding g_def using that len at_i slot [of ?n] live_bound [OF idx p]
    by (intro index_swap_out) (auto simp: g_def)
  have keep: "heap_items g ! x = ?A ! x" if "x \<noteq> ?i" "x < ?n" for x
    using that len by (simp add: B nth_lswap)
  have "index_at g (heap_items g ! x) = x" if x: "1 \<le> x" "x \<le> ?n - 1" for x
  proof (cases "x = ?i")
    case True
    with ix [of "heap_items g ! x"] slot [of ?n] x i at_i show ?thesis by auto
  next
    case False
    have "?A ! x \<noteq> heap_items g ! ?i"
      using False x i len dist at_i by (auto simp: nth_eq_iff_index_eq)
    with ix [of "?A ! x"] slot [of x] keep [of x] False x idx show ?thesis
      by (simp add: indexed_def)
  qed
  moreover have "distinct (heap_items g)" "set (heap_items g) = set ?A"
    using dist mset mset_eq_imp_distinct_iff mset_eq_setD by blast+
  ultimately show "indexed g" using idx len i by (auto simp: indexed_def g_def)
  show "index_at g p = ?i" using ix [OF live_bound [OF idx p]] by simp
  show "almost_heap (Compare_node g) (num_items g) (heap_items g) ?i"
    using keep i by (intro node_order.almost_heapI [OF ok]) (auto simp: g_def)
  have at_n: "heap_items g ! ?n = p" using i len by (simp add: B nth_lswap)
  have "?A ! x \<noteq> p" if "x < ?n" "x \<noteq> ?i" for x
    using that i len dist by (metis less_trans nth_eq_iff_index_eq)
  have "live_signs h = (!) (heap_items g) ` {1..?n}"
    unfolding live_signs_def B using len i
    by (intro same_ends_same_middle [symmetric] mset_lswap dist) (auto simp: nth_lswap)
  also have "{1..?n} = insert ?n {1..?n - 1}" using i by auto
  finally have "live_signs h = insert p (live_signs g)" using at_n
    by (simp add: live_signs_def g_def del: swap_out_frame(2))
  moreover have "p \<notin> live_signs g"
  proof
    assume "p \<in> live_signs g"
    then obtain x where "1 \<le> x" "x \<le> ?n - 1" "heap_items g ! x = heap_items g ! ?n"
      using at_n by (auto simp: live_signs_def g_def simp del: swap_out_frame(2))
    then show False
      using \<open>distinct (heap_items g)\<close> mset_eq_length [OF mset] len i
      by (subst (asm) nth_eq_iff_index_eq) auto
  qed
  ultimately show "live_signs g = live_signs h - {p}" by simp
qed

lemma Erase_ready:
  assumes ready: "heap_ready h" and init: "heap_init h" and p: "p \<in> live_signs h"
  shows "\<exists>h'. heap_Erase h p = Inr h' \<and> heap_ready h' \<and> heap_map h' = (heap_map h)(p := None)
    \<and> num_items h' = num_items h - 1 \<and> same_class h h' \<and> heap_init h'"
proof -
  let ?i = "index_at h p" let ?g = "swap_out h p ?i"
  have idx: "indexed h" using ready by (simp add: heap_ready_def)
  note i = live_index [OF idx p]
  note pb = live_bound [OF idx p]
  note g = swap_out_live [OF ready p]
  have len: "?i < length (heap_items h)" "0 < num_items h" using i idx by (auto simp: indexed_def)
  have eq: "heap_Erase h p = AdjustNode ?g ?i"
    using init len pb g(4) by (simp add: heap_Erase_def raii_init_def Let_def index_at_def)
  have map: "heap_map ?g = (heap_map h)(p := None)"
    using g(2) by (auto simp: heap_map_def fun_eq_iff)
  show ?thesis
  proof (cases "?i = num_items h")
    case True
    have "num_items ?g < ?i" using True len by simp
    then have "AdjustNode ?g ?i = Inr ?g" by (simp add: AdjustNode_def)
    moreover have "heap_ok (Compare_node ?g) (num_items ?g) (heap_items ?g)"
      unfolding heap_ok_def
    proof (intro allI impI)
      fix j assume j: "2 \<le> j \<and> j \<le> num_items ?g"
      have "j div 2 \<noteq> ?i" "j \<noteq> ?i" using True j by auto
      with g(3) j show "in_order (Compare_node ?g) (heap_items ?g) j"
        unfolding heap_but_def by blast
    qed
    ultimately show ?thesis
      using eq map g(1) ready init by (auto simp: heap_ready_def same_class_def)
  next
    case False
    then have "?i \<le> num_items ?g" using i by auto
    from Adjust_correct [OF g(1) _ this g(3)] i obtain h' where h': "AdjustNode ?g ?i = Inr h'"
      "indexed h'" "same_but_place ?g h'" "live_signs h' = live_signs ?g"
      "heap_ok (Compare_node h') (num_items h') (heap_items h')" by blast
    have "heap_map h' = heap_map ?g"
      using sifted_map [OF h'(3,4)] live_bound [OF g(1)] by auto
    with h' eq map ready init same_but_placeD [OF h'(3)] show ?thesis
      by (auto simp: heap_ready_def same_class_def)
  qed
qed

lemma heap_Erase_correct:
  assumes inv: "heap_inv h" and p: "p \<in> live_signs h"
  shows "\<exists>h'. heap_Erase h p = Inr h' \<and> heap_inv h' \<and> heap_map h' = (heap_map h)(p := None)
    \<and> num_items h' = num_items h - 1 \<and> same_class h h'"
proof -
  have "0 < num_items h" using p by (auto simp: live_signs_def)
  note i = heap_init_if_items [OF inv this]
  from Erase_ready [OF _ _ p] i inv show ?thesis
    by (auto simp: heap_inv_def same_class_def)
qed

lemma Pop_eq_Erase:
  assumes "heap_inv h" and "0 < num_items h"
  shows "heap_Pop h = heap_Erase h (heap_items h ! 1)"
proof -
  from heap_init_if_items [OF assms] have "heap_init h" "2 \<le> length (heap_items h)"
    by (simp_all add: heap_ready_def)
  then show ?thesis by (simp add: heap_Pop_def raii_init_def)
qed

lemma Top_least:
  assumes "heap_inv h" and "0 < num_items h"
  shows "heap_Top h = heap_map h (heap_items h ! 1)"
    and "q \<in> live_signs h \<Longrightarrow> \<not> Compare_node h q (heap_items h ! 1)"
proof -
  show "heap_Top h = heap_map h (heap_items h ! 1)"
    using assms(2) top_live [of h] by (simp add: heap_Top_def heap_map_def)
  show "\<not> Compare_node h q (heap_items h ! 1)" if "q \<in> live_signs h"
    using heap_init_if_items [OF assms] node_order.heap_root_least [of h "num_items h" "heap_items h"]
      that
    by (auto simp: heap_ready_def live_signs_def)
qed

lemma Clear_correct: "heap_inv h \<Longrightarrow> heap_inv (heap_Clear h) \<and> heap_map (heap_Clear h) = Map.empty"
  by (auto simp: heap_inv_def heap_ready_def indexed_def heap_ok_def heap_Clear_def heap_map_def
      live_signs_def index_at_def split: if_splits)

lemma new_heap_inv:
  "2 \<le> n \<Longrightarrow> heap_inv (new_heap ord junk n f) \<and> heap_map (new_heap ord junk n f) = Map.empty"
  by (auto simp: heap_inv_def new_heap_def heap_map_def live_signs_def)

lemma heap_Size_card: "heap_inv h \<Longrightarrow> heap_Size h = card (dom (heap_map h))"
  using card_live [of h] by (auto simp: heap_inv_def heap_ready_def heap_Size_def live_signs_def
      split: if_splits)

end
