(* ===== verification/Heap_Spec.thy ===== *)
theory Heap_Spec
  imports Heap_Correct
begin

text \<open>
  What \<open>HeapBase\<close> promises: under any sequence of calls with live signs it is a priority queue
  with handles, a finite map from signs to values whose top is a least value; inserting and then
  popping everything sorts. The last section states its bounds: the sizes it can be constructed
  with and the number of entries at which its array stops growing.
\<close>

section \<open>The specification of a priority queue with handles\<close>

definition before :: "bool \<Rightarrow> ('v \<Rightarrow> 'f :: linorder) \<Rightarrow> 'v \<Rightarrow> 'v \<Rightarrow> bool" where
  "before ord f v w \<longleftrightarrow> (if ord = kMinHeap then f v < f w else f v > f w)"

definition least_sign :: "('v \<Rightarrow> 'v \<Rightarrow> bool) \<Rightarrow> (nat \<rightharpoonup> 'v) \<Rightarrow> nat \<Rightarrow> bool" where
  "least_sign lt M p \<longleftrightarrow>
     (\<exists>v. M p = Some v \<and> (\<forall>q w. M q = Some w \<longrightarrow> \<not> lt w v))"

datatype 'v heap_op =
    HInsert 'v | HUpdate nat 'v | HUpdateTop 'v | HWriteRefresh nat 'v | HRefreshTop
  | HPop | HErase nat | HTop | HItem nat | HSize | HClear

datatype 'v heap_out = OUnit | OSign nat | OVal "'v option" | ONum nat

fun heap_step ::
  "('v, 'f :: linorder) heap_base \<Rightarrow> 'v heap_op \<Rightarrow> ('v heap_out \<times> ('v, 'f) heap_base) result" where
  "heap_step h (HInsert v) = map_sum id (map_prod OSign id) (heap_Insert h v)"
| "heap_step h (HUpdate p v) = map_sum id (Pair OUnit) (heap_Update h p v)"
| "heap_step h (HUpdateTop v) = map_sum id (Pair OUnit) (heap_UpdateTop h v)"
| "heap_step h (HWriteRefresh p v) = map_sum id (Pair OUnit) (heap_Refresh (set_val h p v) p)"
| "heap_step h HRefreshTop = map_sum id (Pair OUnit) (heap_RefreshTop h)"
| "heap_step h HPop = map_sum id (Pair OUnit) (heap_Pop h)"
| "heap_step h (HErase p) = map_sum id (Pair OUnit) (heap_Erase h p)"
| "heap_step h HTop = Inr (OVal (heap_Top h), h)"
| "heap_step h (HItem p) = map_sum id (\<lambda>v. (OVal (Some v), h)) (heap_Item h p)"
| "heap_step h HSize = Inr (ONum (heap_Size h), h)"
| "heap_step h HClear = Inr (OUnit, heap_Clear h)"

fun handle_queue ::
  "('v \<Rightarrow> 'v \<Rightarrow> bool) \<Rightarrow> (nat \<rightharpoonup> 'v) \<Rightarrow> 'v heap_op \<Rightarrow> 'v heap_out \<Rightarrow> (nat \<rightharpoonup> 'v) \<Rightarrow> bool" where
  "handle_queue lt M (HInsert v) out M' =
     (\<exists>p. p \<notin> dom M \<and> out = OSign p \<and> M' = M(p \<mapsto> v))"
| "handle_queue lt M (HUpdate p v) out M' = (out = OUnit \<and> M' = M(p \<mapsto> v))"
| "handle_queue lt M (HUpdateTop v) out M' =
     (out = OUnit \<and> (if M = Map.empty then M' = M else \<exists>p. least_sign lt M p \<and> M' = M(p \<mapsto> v)))"
| "handle_queue lt M (HWriteRefresh p v) out M' = (out = OUnit \<and> M' = M(p \<mapsto> v))"
| "handle_queue lt M HRefreshTop out M' = (out = OUnit \<and> M' = M)"
| "handle_queue lt M HPop out M' =
     (out = OUnit
      \<and> (if M = Map.empty then M' = M else \<exists>p. least_sign lt M p \<and> M' = M(p := None)))"
| "handle_queue lt M (HErase p) out M' = (out = OUnit \<and> M' = M(p := None))"
| "handle_queue lt M HTop out M' =
     (M' = M \<and> (if M = Map.empty then out = OVal None
                  else \<exists>p. least_sign lt M p \<and> out = OVal (M p)))"
| "handle_queue lt M (HItem p) out M' = (M' = M \<and> out = OVal (M p))"
| "handle_queue lt M HSize out M' = (M' = M \<and> out = ONum (card (dom M)))"
| "handle_queue lt M HClear out M' = (M' = Map.empty \<and> out = OUnit)"

text \<open>A client uses signs that are live, and keeps below $2^{27} - 1$ entries.\<close>

definition max_heap :: nat where
  "max_heap = 2 ^ 27 - 1"

fun heap_pre :: "('v, 'f) heap_base \<Rightarrow> 'v heap_op \<Rightarrow> bool" where
  "heap_pre h (HInsert v) = (heap_Size h < max_heap)"
| "heap_pre h (HUpdate p v) = (p \<in> live_signs h)"
| "heap_pre h (HWriteRefresh p v) = (p \<in> live_signs h)"
| "heap_pre h (HErase p) = (p \<in> live_signs h)"
| "heap_pre h (HItem p) = (p \<in> live_signs h)"
| "heap_pre h _ = True"

definition heap_of :: "bool \<Rightarrow> ('v \<Rightarrow> 'f :: linorder) \<Rightarrow> ('v, 'f) heap_base \<Rightarrow> bool" where
  "heap_of ord f h \<longleftrightarrow> heap_inv h \<and> heap_order h = ord \<and> feature h = f"

section \<open>The heap implements it\<close>

lemma heap_ofI: "heap_of ord f h \<Longrightarrow> heap_inv h' \<Longrightarrow> same_class h h' \<Longrightarrow> heap_of ord f h'"
  by (simp add: heap_of_def same_class_def)

lemma Compare_before:
  "heap_of ord f h \<Longrightarrow> Compare_node h p q = before ord f (val_at h p) (val_at h q)"
  by (auto simp: heap_of_def Compare_node_def before_def)

lemma top_least_sign:
  assumes "heap_of ord f h" and "0 < num_items h"
  shows "least_sign (before ord f) (heap_map h) (heap_items h ! 1)"
proof -
  have inv: "heap_inv h" using assms(1) by (simp add: heap_of_def)
  have "\<not> before ord f w (val_at h (heap_items h ! 1))" if "heap_map h q = Some w" for q w
    using Top_least(2) [OF inv assms(2), of q] that Compare_before [OF assms(1)]
    by (auto simp: heap_map_def split: if_splits)
  with top_live [OF assms(2)] show ?thesis by (auto simp: least_sign_def heap_map_def)
qed

lemma heap_empty_iff: "heap_inv h \<Longrightarrow> heap_map h = Map.empty \<longleftrightarrow> num_items h = 0"
  unfolding dom_eq_empty_conv [symmetric] dom_heap_map by (auto simp: live_signs_def)

lemma heap_step_top:
  assumes "heap_of ord f h" and op: "op \<in> {HUpdateTop v, HRefreshTop, HPop, HTop}"
  shows "\<exists>out h'. heap_step h op = Inr (out, h') \<and> heap_of ord f h'
    \<and> handle_queue (before ord f) (heap_map h) op out (heap_map h')"
proof -
  let ?p = "heap_items h ! 1"
  have inv: "heap_inv h" using assms(1) by (simp add: heap_of_def)
  show ?thesis
  proof (cases "num_items h = 0")
    case True
    then have "heap_map h = Map.empty" using heap_empty_iff [OF inv] by simp
    with assms True Top_empty_ops [OF inv True] raii_init_inv(2,4,6) [OF inv]
    show ?thesis by (auto simp: heap_Top_def intro: heap_ofI)
  next
    case False
    then have n: "0 < num_items h" by simp
    then have ne: "heap_map h \<noteq> Map.empty" using heap_empty_iff [OF inv] by simp
    note top = top_live [OF n] top_least_sign [OF assms(1) n]
    obtain h1 where h1: "heap_Update h ?p v = Inr h1" "heap_inv h1" "same_class h h1"
      "heap_map h1 = (heap_map h)(?p \<mapsto> v)"
      using Update_correct [OF inv top(1)] by blast
    obtain h2 where h2: "heap_Refresh h ?p = Inr h2" "heap_inv h2" "same_class h h2"
      "heap_map h2 = (heap_map h)(?p \<mapsto> val_at h ?p)"
      using Update_correct [OF inv top(1), of "val_at h ?p"] unfolding set_val_same by blast
    have "heap_map h2 = heap_map h" using h2(4) top(1) by (auto simp: heap_map_def)
    moreover obtain h3 where h3: "heap_Erase h ?p = Inr h3" "heap_inv h3" "same_class h h3"
      "heap_map h3 = (heap_map h)(?p := None)"
      using heap_Erase_correct [OF inv top(1)] by blast
    ultimately show ?thesis
      using assms op ne top(2) h1 h2(1-3) UpdateTop_correct [OF inv n] Pop_eq_Erase [OF inv n]
        Top_least(1) [OF inv n] heap_ofI [OF assms(1)]
      by auto
  qed
qed

lemma heap_step_correct:
  assumes hof: "heap_of ord f h" and pre: "heap_pre h op"
  shows "\<exists>out h'. heap_step h op = Inr (out, h') \<and> heap_of ord f h'
    \<and> handle_queue (before ord f) (heap_map h) op out (heap_map h')"
proof -
  have inv: "heap_inv h" using hof by (simp add: heap_of_def)
  note I = heap_ofI [OF hof]
  show ?thesis
  proof (cases op)
    case (HInsert v)
    then have "num_items h + 1 < 2 ^ 27" using pre by (simp add: max_heap_def heap_Size_def)
    from heap_Insert_correct [OF inv this, of v] HInsert I show ?thesis by fastforce
  next
    case (HUpdate p v)
    with Update_correct [OF inv, of p v] pre I show ?thesis by fastforce
  next
    case (HWriteRefresh p v)
    with Update_correct [OF inv, of p v] pre I show ?thesis by fastforce
  next
    case (HErase p)
    with heap_Erase_correct [OF inv, of p] pre I show ?thesis by fastforce
  next
    case (HItem p)
    then have "p \<in> live_signs h" "0 < num_items h" using pre by (auto simp: live_signs_def)
    moreover from this have "p < length (nodes h)"
      using live_bound heap_init_if_items [OF inv] by (auto simp: heap_ready_def)
    ultimately show ?thesis using HItem hof by (simp add: heap_Item_def heap_map_def)
  next
    case HSize
    with heap_Size_card [OF inv] hof show ?thesis by simp
  next
    case HClear
    with Clear_correct [OF inv] hof show ?thesis
      by (simp add: heap_of_def) (simp add: heap_Clear_def)
  next
    case (HUpdateTop v)
    then show ?thesis by (intro heap_step_top [OF hof, of op v]) simp
  qed (rule heap_step_top [OF hof], simp)+
qed

interpretation heap_queue: simulation heap_step "handle_queue (before ord f)" heap_pre
  "heap_of ord f" heap_map for ord :: bool and f :: "'v \<Rightarrow> 'f :: linorder"
  by unfold_locales (rule heap_step_correct)

text \<open>Calls that use no sign need only room for their insertions.\<close>

definition plain_op :: "'v heap_op \<Rightarrow> bool" where
  "plain_op op \<longleftrightarrow> (\<exists>v. op = HInsert v) \<or> op \<in> {HTop, HPop, HSize, HRefreshTop, HClear}"

lemma plain_op_size:
  assumes "plain_op op" and "handle_queue lt M op out M'" and "finite (dom M)"
  shows "card (dom M') \<le> Suc (card (dom M))"
proof -
  have "dom M' \<subseteq> dom M \<or> (\<exists>p. dom M' = insert p (dom M))"
    using assms(1,2) by (auto simp: plain_op_def split: if_splits) blast
  then have "\<exists>p. dom M' \<subseteq> insert p (dom M)" by blast
  then obtain p where "dom M' \<subseteq> insert p (dom M)" ..
  then have "card (dom M') \<le> card (insert p (dom M))" using assms(3) by (intro card_mono) auto
  then show ?thesis using assms(3) by (auto simp: card_insert_if split: if_splits)
qed

lemma finite_live: "finite (live_signs h)"
  by (simp add: live_signs_def)

lemma plain_ops_legal:
  "heap_of ord f h \<Longrightarrow> heap_Size h + length ops \<le> max_heap \<Longrightarrow> \<forall>op \<in> set ops. plain_op op \<Longrightarrow>
    legal_ops heap_step heap_pre h ops"
proof (induction ops arbitrary: h)
  case Nil
  then show ?case by simp
next
  case (Cons op ops)
  have pre: "heap_pre h op" using Cons.prems by (auto simp: plain_op_def)
  from heap_step_correct [OF Cons.prems(1) this] obtain out h' where
    h': "heap_step h op = Inr (out, h')" "heap_of ord f h'"
    "handle_queue (before ord f) (heap_map h) op out (heap_map h')" by blast
  have "heap_Size h' \<le> Suc (heap_Size h)"
    using plain_op_size [OF _ h'(3)] Cons.prems(1,3) h'(2) finite_live [of h]
      heap_Size_card [of h] heap_Size_card [of h'] by (simp add: heap_of_def)
  then have "legal_ops heap_step heap_pre h' ops"
    using Cons.prems h'(2) by (intro Cons.IH) auto
  with pre h'(1) show ?case by simp
qed

text \<open>
  C5: a heap constructed for two or more entries behaves, under every sequence of calls with
  live signs and below $2^{27}-1$ entries, as a priority queue with handles: no call faults,
  \<open>Top\<close> and \<open>Pop\<close> serve a least entry (a greatest one in a max-heap), and a sign refers to the
  value last given to it until it is erased or popped, wherever the entry moves in the array.
\<close>

theorem heap_is_priority_queue:
  assumes "2 \<le> n" and "legal_ops heap_step heap_pre (new_heap ord junk n f) ops"
  shows "\<exists>outs h'. run_ops heap_step (new_heap ord junk n f) ops = Inr (outs, h')
    \<and> spec_run (handle_queue (before ord f)) Map.empty ops outs (heap_map h')"
proof -
  have "heap_of ord f (new_heap ord junk n f)" and e: "heap_map (new_heap ord junk n f) = Map.empty"
    using new_heap_inv [OF assms(1)] by (auto simp: heap_of_def new_heap_def)
  from heap_queue.run_refines [OF this(1) assms(2)] e show ?thesis by auto
qed

theorem heap_is_priority_queue_witness:
  "\<exists>outs h'. run_ops heap_step (new_heap kMinHeap \<lparr>node_index = 0, node_val = 0\<rparr> 2 (\<lambda>v. v))
      [HInsert 5, HInsert (3::nat), HTop, HPop] = Inr (outs, h')
    \<and> spec_run (handle_queue (before kMinHeap (\<lambda>v. v))) Map.empty
        [HInsert 5, HInsert 3, HTop, HPop] outs (heap_map h')"
proof -
  let ?h = "new_heap kMinHeap \<lparr>node_index = 0, node_val = 0::nat\<rparr> 2 (\<lambda>v. v)"
  have h: "heap_of kMinHeap (\<lambda>v. v) ?h" "heap_Size ?h = 0"
    using new_heap_inv [of 2] by (auto simp: heap_of_def new_heap_def heap_Size_def)
  have "legal_ops heap_step heap_pre ?h [HInsert 5, HInsert 3, HTop, HPop]"
    using h by (intro plain_ops_legal [OF h(1)]) (simp_all add: plain_op_def max_heap_def)
  from heap_is_priority_queue [OF _ this] show ?thesis by simp
qed

section \<open>Sorting with the heap\<close>

text \<open>
  What a client that only looks at the values may rely on: \<open>top\<close> serves a least of them and
  \<open>pop\<close> removes the one \<open>top\<close> serves.
\<close>

locale value_queue =
  fixes vtop :: "'m \<Rightarrow> 'v option"
    and vpop :: "'m \<Rightarrow> 'm result"
    and invar :: "'m \<Rightarrow> bool"
    and vals :: "'m \<Rightarrow> 'v multiset"
    and lt :: "'v \<Rightarrow> 'v \<Rightarrow> bool"
  assumes top_empty: "invar m \<Longrightarrow> vals m = {#} \<Longrightarrow> vtop m = None"
    and top_least: "invar m \<Longrightarrow> vals m \<noteq> {#} \<Longrightarrow>
      \<exists>v m'. vtop m = Some v \<and> v \<in># vals m \<and> (\<forall>w \<in># vals m. \<not> lt w v)
        \<and> vpop m = Inr m' \<and> invar m' \<and> vals m' = vals m - {#v#}"

text \<open>The client: \<open>while ((v = Top()) != NULL) { use(*v); Pop(); }\<close>, for at most \<open>n\<close> rounds.\<close>

fun drain :: "('m \<Rightarrow> 'v option) \<Rightarrow> ('m \<Rightarrow> 'm result) \<Rightarrow> nat \<Rightarrow> 'm \<Rightarrow> 'v list result" where
  "drain vtop vpop 0 m = (if vtop m = None then Inr [] else Inl Diverges)"
| "drain vtop vpop (Suc n) m =
     (case vtop m of
        None \<Rightarrow> Inr []
      | Some v \<Rightarrow>
          (case vpop m of Inl e \<Rightarrow> Inl e | Inr m' \<Rightarrow> map_sum id ((#) v) (drain vtop vpop n m')))"

context value_queue begin

lemma drain_sorts:
  "invar m \<Longrightarrow> size (vals m) \<le> n \<Longrightarrow>
    \<exists>vs. drain vtop vpop n m = Inr vs \<and> mset vs = vals m \<and> sorted_wrt (\<lambda>v w. \<not> lt w v) vs"
proof (induction n arbitrary: m)
  case 0
  then show ?case by (simp add: top_empty)
next
  case (Suc n)
  show ?case
  proof (cases "vals m = {#}")
    case True
    then show ?thesis using Suc.prems(1) by (simp add: top_empty)
  next
    case False
    from top_least [OF Suc.prems(1) False] obtain v m' where
      v: "vtop m = Some v" "v \<in># vals m" "\<forall>w \<in># vals m. \<not> lt w v" "vpop m = Inr m'" "invar m'"
      "vals m' = vals m - {#v#}" by blast
    have "size (vals m') \<le> n" using v(2,6) Suc.prems(2) by (simp add: size_Diff_singleton)
    from Suc.IH [OF v(5) this] obtain vs where
      vs: "drain vtop vpop n m' = Inr vs" "mset vs = vals m'" "sorted_wrt (\<lambda>v w. \<not> lt w v) vs"
      by blast
    have "w \<in># vals m" if "w \<in> set vs" for w
      using that vs(2) v(6) by (metis in_diffD set_mset_mset)
    with v vs show ?thesis by simp
  qed
qed

end

definition heap_vals :: "('v, 'f) heap_base \<Rightarrow> 'v multiset" where
  "heap_vals h = image_mset (val_at h) (mset_set (live_signs h))"

lemma heap_vals_map:
  assumes "heap_map h' = (heap_map h)(p := None)" and "heap_map h p = Some v"
  shows "heap_vals h = add_mset v (heap_vals h')"
proof -
  have live: "live_signs h = insert p (live_signs h')" "p \<notin> live_signs h'"
    using assms by (auto simp flip: dom_heap_map)
  have "val_at h q = val_at h' q" if "q \<in> live_signs h'" for q
    using fun_cong [OF assms(1), of q] that live by (auto simp: heap_map_def split: if_splits)
  then have "image_mset (val_at h) (mset_set (live_signs h'))
      = image_mset (val_at h') (mset_set (live_signs h'))"
    using finite_live [of h'] by (intro image_mset_cong) simp
  moreover have "val_at h p = v" using assms(2) by (simp add: heap_map_def split: if_splits)
  ultimately show ?thesis
    using live(2) finite_live [of h'] by (simp add: heap_vals_def live(1))
qed

lemma heap_vals_Insert:
  assumes "heap_map h' = (heap_map h)(p \<mapsto> v)" and "p \<notin> live_signs h"
  shows "heap_vals h' = add_mset v (heap_vals h)"
proof -
  have "heap_map h = (heap_map h')(p := None)"
    using assms by (auto simp: fun_eq_iff domIff simp flip: dom_heap_map)
  from heap_vals_map [OF this] assms(1) show ?thesis by simp
qed

lemma heap_vals_empty: "heap_inv h \<Longrightarrow> heap_vals h = {#} \<longleftrightarrow> num_items h = 0"
  using heap_empty_iff [of h] finite_live [of h]
  by (simp add: heap_vals_def mset_set_empty_iff flip: dom_heap_map)

lemma size_heap_vals: "heap_inv h \<Longrightarrow> size (heap_vals h) = heap_Size h"
  by (simp add: heap_vals_def heap_Size_card)

interpretation heap_values: value_queue heap_Top heap_Pop "heap_of ord f" heap_vals "before ord f"
  for ord :: bool and f :: "'v \<Rightarrow> 'f :: linorder"
proof
  fix h :: "('v, 'f) heap_base"
  assume hof: "heap_of ord f h"
  then have inv: "heap_inv h" by (simp add: heap_of_def)
  show "heap_Top h = None" if "heap_vals h = {#}"
    using that heap_vals_empty [OF inv] by (simp add: heap_Top_def)
  assume "heap_vals h \<noteq> {#}"
  then have n: "0 < num_items h" using heap_vals_empty [OF inv] by simp
  let ?p = "heap_items h ! 1"
  obtain h' where h': "heap_Pop h = Inr h'" "heap_inv h'" "same_class h h'"
    "heap_map h' = (heap_map h)(?p := None)"
    using heap_Erase_correct [OF inv top_live [OF n]] Pop_eq_Erase [OF inv n] by auto
  have v: "heap_Top h = Some (val_at h ?p)" "heap_map h ?p = Some (val_at h ?p)"
    using n top_live [OF n] by (simp_all add: heap_Top_def heap_map_def)
  have "\<not> before ord f w (val_at h ?p)" if "w \<in># heap_vals h" for w
    using that top_least_sign [OF hof n] v(2) finite_live [of h]
    by (auto simp: heap_vals_def least_sign_def heap_map_def split: if_splits)
  with h' v heap_vals_map [OF h'(4) v(2)] heap_ofI [OF hof h'(2,3)]
  show "\<exists>v m'. heap_Top h = Some v \<and> v \<in># heap_vals h
      \<and> (\<forall>w \<in># heap_vals h. \<not> before ord f w v) \<and> heap_Pop h = Inr m' \<and> heap_of ord f m'
      \<and> heap_vals m' = heap_vals h - {#v#}"
    by (intro exI [of _ "val_at h ?p"] exI [of _ h']) auto
qed

fun insert_all ::
  "('v, 'f :: linorder) heap_base \<Rightarrow> 'v list \<Rightarrow> ('v, 'f) heap_base result" where
  "insert_all h [] = Inr h"
| "insert_all h (v # vs) =
     (case heap_Insert h v of Inl e \<Rightarrow> Inl e | Inr (p, h') \<Rightarrow> insert_all h' vs)"

lemma insert_all_correct:
  "heap_of ord f h \<Longrightarrow> heap_Size h + length vs \<le> max_heap \<Longrightarrow>
    \<exists>h'. insert_all h vs = Inr h' \<and> heap_of ord f h' \<and> heap_vals h' = heap_vals h + mset vs"
proof (induction vs arbitrary: h)
  case Nil
  then show ?case by simp
next
  case (Cons v vs)
  then have inv: "heap_inv h" and "num_items h + 1 < 2 ^ 27"
    by (simp_all add: heap_of_def max_heap_def heap_Size_def)
  from heap_Insert_correct [OF this, of v] obtain p h1 where h1: "heap_Insert h v = Inr (p, h1)"
    "heap_inv h1" "p \<notin> live_signs h" "heap_map h1 = (heap_map h)(p \<mapsto> v)" "same_class h h1"
    by blast
  note vals = heap_vals_Insert [OF h1(4,3)]
  have "heap_Size h1 = Suc (heap_Size h)"
    using vals size_heap_vals [OF h1(2)] size_heap_vals [OF inv] by simp
  with Cons.prems heap_ofI [OF Cons.prems(1) h1(2,5)] Cons.IH [of h1] vals h1(1)
  show ?case by auto
qed

definition heap_sort :: "bool \<Rightarrow> 'v heap_item \<Rightarrow> ('v \<Rightarrow> 'f :: linorder) \<Rightarrow> 'v list \<Rightarrow> 'v list result" where
  "heap_sort ord junk f vs =
     (case insert_all (new_heap ord junk 1024 f) vs of
        Inl e \<Rightarrow> Inl e
      | Inr h \<Rightarrow> drain heap_Top heap_Pop (length vs) h)"

text \<open>
  C24: inserting up to $2^{27}-1$ values into a default heap and taking \<open>Top\<close> and \<open>Pop\<close> until
  \<open>Top\<close> is \<open>NULL\<close> gives the values back in the order of their features, ascending in a min-heap
  and descending in a max-heap.
\<close>

theorem heap_sorts:
  assumes "length vs \<le> 2 ^ 27 - 1"
  shows "\<exists>ws. heap_sort ord junk f vs = Inr ws \<and> mset ws = mset vs
    \<and> sorted_wrt (\<lambda>v w. if ord = kMinHeap then f v \<le> f w else f w \<le> f v) ws"
proof -
  let ?h = "new_heap ord junk 1024 f"
  have h: "heap_of ord f ?h" "heap_Size ?h = 0" "heap_vals ?h = {#}"
    using new_heap_inv [of 1024 ord junk f]
    by (auto simp: heap_of_def new_heap_def heap_Size_def heap_vals_empty)
  have "heap_Size ?h + length vs \<le> max_heap" using assms h(2) by (simp add: max_heap_def)
  from insert_all_correct [OF h(1) this] obtain h' where
    i: "insert_all ?h vs = Inr h'" "heap_of ord f h'" "heap_vals h' = mset vs"
    using h(3) by auto
  from heap_values.drain_sorts [OF i(2), of "length vs"] i(1,3) obtain ws where
    "heap_sort ord junk f vs = Inr ws" "mset ws = mset vs"
    "sorted_wrt (\<lambda>v w. \<not> before ord f w v) ws" by (auto simp: heap_sort_def)
  then show ?thesis
    by (auto simp: before_def not_less elim: sorted_wrt_mono_rel [rotated])
qed

theorem heap_sorts_witness:
  "\<exists>ws. heap_sort kMaxHeap \<lparr>node_index = 0, node_val = 0\<rparr> (\<lambda>v. v) [2, 5, 3 :: nat] = Inr ws
    \<and> mset ws = {#2, 5, 3#}"
  using heap_sorts [of "[2, 5, 3]" kMaxHeap "\<lparr>node_index = 0, node_val = 0\<rparr>" "\<lambda>v. v"] by auto

section \<open>Nodes are neither lost nor deleted twice\<close>

text \<open>
  C25: after any sequence of calls with live signs the destructor deletes every node that was
  ever allocated, and each of them once.
\<close>

theorem destructor_deletes_each_node_once:
  assumes "2 \<le> n" and "legal_ops heap_step heap_pre (new_heap ord junk n f) ops"
  shows "\<exists>outs h. run_ops heap_step (new_heap ord junk n f) ops = Inr (outs, h)
    \<and> distinct (heap_deleted h) \<and> set (heap_deleted h) = {..<length (nodes h)}"
proof -
  have "heap_of ord f (new_heap ord junk n f)"
    using new_heap_inv [OF assms(1)] by (auto simp: heap_of_def new_heap_def)
  from heap_queue.run_refines [OF this assms(2)] obtain outs h where
    run: "run_ops heap_step (new_heap ord junk n f) ops = Inr (outs, h)" and "heap_of ord f h"
    by blast
  then have "distinct (heap_deleted h) \<and> set (heap_deleted h) = {..<length (nodes h)}"
    by (auto simp: heap_deleted_def heap_of_def heap_inv_def heap_ready_def indexed_def)
  with run show ?thesis by blast
qed

theorem destructor_deletes_each_node_once_witness:
  "\<exists>outs h. run_ops heap_step (new_heap kMinHeap \<lparr>node_index = 0, node_val = 0\<rparr> 2 (\<lambda>v. v))
      [HInsert 5, HInsert (3::nat), HPop, HInsert 4] = Inr (outs, h) \<and> distinct (heap_deleted h)"
proof -
  let ?h = "new_heap kMinHeap \<lparr>node_index = 0, node_val = 0::nat\<rparr> 2 (\<lambda>v. v)"
  have h: "heap_of kMinHeap (\<lambda>v. v) ?h" "heap_Size ?h = 0"
    using new_heap_inv [of 2] by (auto simp: heap_of_def new_heap_def heap_Size_def)
  have "legal_ops heap_step heap_pre ?h [HInsert 5, HInsert 3, HPop, HInsert 4]"
    using h by (intro plain_ops_legal [OF h(1)]) (simp_all add: plain_op_def max_heap_def)
  from destructor_deletes_each_node_once [OF _ this] show ?thesis by auto
qed

section \<open>Bounds\<close>

text \<open>The array of a heap that starts with a power of two stays one.\<close>

definition pow2_heap :: "nat \<Rightarrow> ('v, 'f :: linorder) heap_base \<Rightarrow> bool" where
  "pow2_heap n h \<longleftrightarrow> heap_inv h \<and> num_items h = n
     \<and> (\<exists>k \<le> 27. size_container (raii_init h) = 2 ^ k)"

lemma pow2_Insert:
  assumes "pow2_heap n h" and n: "n + 1 < 2 ^ 27"
  shows "\<exists>p h'. heap_Insert h v = Inr (p, h') \<and> pow2_heap (n + 1) h'"
proof -
  let ?h = "raii_init h"
  obtain k where inv: "heap_inv h" "num_items h = n" and k: "k \<le> 27" "size_container ?h = 2 ^ k"
    using assms(1) by (auto simp: pow2_heap_def)
  note r = raii_init_inv [OF inv(1)]
  have lt: "n < 2 ^ k" using r(1,5) k inv(2) by (simp add: heap_ready_def indexed_def)
  obtain h1 k' where h1: "(if n + 1 = 2 ^ k then heap_Resize ?h = Inr h1 else h1 = ?h)"
    "heap_ready h1" "num_items h1 = n" "size_container h1 = 2 ^ k'" "k' \<le> 27" "n + 1 < 2 ^ k'"
    "heap_init h1" "same_class ?h h1"
  proof (cases "n + 1 = 2 ^ k")
    case True
    with n have "(2::nat) ^ k < 2 ^ 27" by simp
    then have "k < 27" by (rule power_less_imp_less_exp [rotated]) simp
    moreover have "(2::nat) ^ k < 2 ^ 27" using n True by simp
    ultimately show ?thesis
      using Resize_ready [OF r(1)] k r(3,5) inv(2) True that [of _ "Suc k"] by auto
  next
    case False
    with r k inv(2) lt show ?thesis by (intro that [of ?h k]) simp_all
  qed
  from insert_node_correct [OF h1(2), of v] h1(3,4,6) obtain p h' where
    i: "insert_node h1 v = Inr (p, h')" "heap_ready h'" "num_items h' = n + 1" "same_class h1 h'"
    "heap_init h'" "size_container h' = 2 ^ k'" using h1(7) by auto
  have "heap_Insert h v = Inr (p, h')"
    using i(1) h1(1) k(2) r(5) inv(2) by (auto simp: heap_Insert_def Let_def split: if_splits)
  moreover have "heap_inv h'"
    using i h1(8) r(2) by (intro ready_inv) (auto simp: heap_inv_def same_class_def)
  ultimately show ?thesis using i(3,5,6) h1(5) by (auto simp: pow2_heap_def raii_init_def)
qed

lemma pow2_full:
  assumes "pow2_heap n h" and "n + 1 = 2 ^ 27"
  shows "heap_Insert h v = Inl Null_Deref"
proof -
  let ?h = "raii_init h"
  obtain k where inv: "heap_inv h" "num_items h = n" and k: "k \<le> 27" "size_container ?h = 2 ^ k"
    using assms(1) by (auto simp: pow2_heap_def)
  note r = raii_init_inv [OF inv(1)]
  have "n < 2 ^ k" using r(1,5) k inv(2) by (simp add: heap_ready_def indexed_def)
  then have "(2::nat) ^ 26 < 2 ^ k" using assms(2) by simp
  then have "26 < k" by (rule power_less_imp_less_exp [rotated]) simp
  then have "size_container ?h = 2 ^ 27" using k by (cases "k = 27") auto
  moreover have "resize_bytes (2 ^ 27) < 0" by (simp add: resize_bytes_def)
  ultimately show ?thesis
    using r(5) inv(2) assms(2) by (simp add: heap_Insert_def heap_Resize_def Let_def)
qed

lemma insert_all_bound:
  "pow2_heap n h \<Longrightarrow> n < 2 ^ 27 \<Longrightarrow>
    (if n + length vs < 2 ^ 27 then returns (insert_all h vs) else insert_all h vs = Inl Null_Deref)"
proof (induction vs arbitrary: n h)
  case Nil
  then show ?case by simp
next
  case (Cons v vs)
  show ?case
  proof (cases "n + 1 = 2 ^ 27")
    case True
    with pow2_full [OF Cons.prems(1)] show ?thesis by simp
  next
    case False
    then have "n + 1 < 2 ^ 27" using Cons.prems(2) by simp
    with pow2_Insert [OF Cons.prems(1), of v] Cons.IH [of "n + 1"] show ?thesis by fastforce
  qed
qed

text \<open>
  insertions into a default heap all succeed up to $2^{27}-1$ entries, and the next one
  dereferences a null pointer: \<open>Resize_\<close> computes the number of bytes in an \<open>int\<close>, so that the
  request for $2^{28}$ pointers is negative and \<open>realloc\<close> fails.
\<close>

theorem heap_capacity:
  "(returns (insert_all (new_heap ord junk 1024 f) vs) \<longleftrightarrow> length vs < 2 ^ 27)
   \<and> (insert_all (new_heap ord junk 1024 f) vs = Inl Null_Deref \<longleftrightarrow> 2 ^ 27 \<le> length vs)"
proof -
  have "pow2_heap 0 (new_heap ord junk 1024 f)"
    using new_heap_inv [of 1024 ord junk f]
    by (auto simp: pow2_heap_def new_heap_def raii_init_def heap_Init_def Let_def
        intro!: exI [of _ 10])
  from insert_all_bound [OF this, of vs] show ?thesis
    by (cases "length vs < 2 ^ 27") (auto simp: returns_def)
qed

text \<open>
  The constructor accepts initial sizes the operations cannot work with: the first
  insertion into a heap of size 0 and a \<open>Pop\<close> on a fresh heap of size 1 leave the array.
\<close>

theorem heap_small_init:
  "heap_Insert (new_heap ord junk 0 f) v = Inl Out_Of_Bounds
   \<and> heap_Pop (new_heap ord junk 1 f) = Inl Out_Of_Bounds"
  by (simp add: heap_Insert_def insert_node_def heap_Pop_def raii_init_def heap_Init_def
      new_heap_def Let_def)

section \<open>SimpleKVHeap\<close>

text \<open>
  \<open>SimpleKVHeap\<close> serves a pair with a least key: after an insertion with room the top is
  a pair of the heap, and no pair of the heap has a smaller key.
\<close>

theorem kv_heap_top:
  assumes "heap_of kMinHeap fst h" and "heap_Size h < max_heap"
  shows "\<exists>p h' kv. kv_heap_Insert h k v = Inr (p, h') \<and> heap_of kMinHeap fst h'
    \<and> heap_vals h' = add_mset (k, v) (heap_vals h) \<and> heap_Top h' = Some kv
    \<and> kv \<in># heap_vals h' \<and> (\<forall>kv' \<in># heap_vals h'. fst kv \<le> fst kv')"
proof -
  have inv: "heap_inv h" "num_items h + 1 < 2 ^ 27"
    using assms by (simp_all add: heap_of_def max_heap_def heap_Size_def)
  from heap_Insert_correct [OF this, of "(k, v)"] obtain p h' where
    h': "heap_Insert h (k, v) = Inr (p, h')" "heap_inv h'" "p \<notin> live_signs h"
    "heap_map h' = (heap_map h)(p \<mapsto> (k, v))" "same_class h h'" by blast
  note vals = heap_vals_Insert [OF h'(4,3)]
  note hof = heap_ofI [OF assms(1) h'(2,5)]
  from heap_values.top_least [OF hof] vals obtain kv where
    "heap_Top h' = Some kv" "kv \<in># heap_vals h'" "\<forall>w \<in># heap_vals h'. \<not> before kMinHeap fst w kv"
    by auto
  with h'(1) vals hof show ?thesis
    by (intro exI [of _ p] exI [of _ h'] exI [of _ kv])
      (simp add: kv_heap_Insert_def before_def not_less)
qed

theorem kv_heap_top_witness:
  "\<exists>p h'. kv_heap_Insert (new_heap kMinHeap \<lparr>node_index = 0, node_val = (0, 0)\<rparr> 2 fst)
      (3::nat) (7::nat) = Inr (p, h') \<and> heap_vals h' = {#(3, 7)#}"
proof -
  let ?h = "new_heap kMinHeap \<lparr>node_index = 0, node_val = (0::nat, 0::nat)\<rparr> 2 fst"
  have h: "heap_of kMinHeap fst ?h" "heap_Size ?h < max_heap" "heap_vals ?h = {#}"
    using new_heap_inv [of 2] heap_vals_empty [of ?h]
    by (auto simp: heap_of_def new_heap_def heap_Size_def max_heap_def)
  from kv_heap_top [OF h(1,2), of 3 7] h(3) show ?thesis by auto
qed

end
