(* ===== verification/Pool_Objs.thy ===== *)
theory Pool_Objs
  imports Prelude
begin

text \<open>
  The class templates \<open>PoolObjsBase\<close>, \<open>PoolObjs\<close> and \<open>PoolObjsInit\<close> of
  \<^verbatim>\<open>src/pool_objs/pool_objs.hpp\<close>: a pool of objects, kept as a stack of pointers in blocks
  of equal size, with \<open>current_row_\<close> and \<open>current_col_\<close> the first free place. \<open>Pool_Spec\<close> proves
  what it promises.

  Objects live in an explicit store: a pointer is an index of \<open>objs\<close>, \<open>new\<close> appends, and
  \<open>deleted\<close> logs the pointers that were deleted. The array \<open>pool_objs_\<close> maps a row to its block,
  \<open>None\<close> being the null pointer that \<open>bzero\<close> wrote. The virtual function \<open>InitObj_\<close> is a field:
  the identity for \<open>PoolObjs\<close>, assignment of \<open>init_obj_\<close> for \<open>PoolObjsInit\<close>. What
  \<open>lock_policy_.Lock()\<close> returns is an argument of the operations that call it.
\<close>

section \<open>Data\<close>

record 'o pool =
  InitObj :: "'o \<Rightarrow> 'o"
  default_obj :: 'o
  init_num_objs :: nat
  num_objs_per_block :: nat
  pool_to_resize :: bool
  new_if_no_resize :: bool
  max_num_blocks :: nat
  pool_array :: bool
  pool_objs :: "nat \<rightharpoonup> nat list"
  current_row :: nat
  current_col :: nat
  num_objs_alloc :: nat
  num_blocks_alloc :: nat
  pool_init :: bool
  objs :: "'o list"
  deleted :: "nat list"

definition new_pool ::
  "('o \<Rightarrow> 'o) \<Rightarrow> 'o \<Rightarrow> nat \<Rightarrow> nat \<Rightarrow> nat \<Rightarrow> bool \<Rightarrow> bool \<Rightarrow> nat \<Rightarrow> 'o pool" where
  "new_pool initf def_obj obj_size init_num mem_per_block resize new_if max_blocks =
     \<lparr>InitObj = initf, default_obj = def_obj, init_num_objs = init_num,
      num_objs_per_block = (mem_per_block + obj_size - 1) div obj_size,
      pool_to_resize = resize, new_if_no_resize = new_if, max_num_blocks = max_blocks,
      pool_array = False, pool_objs = Map.empty, current_row = 0, current_col = 0,
      num_objs_alloc = 0, num_blocks_alloc = 0, pool_init = False, objs = [], deleted = []\<rparr>"

text \<open>\<open>PoolObjsInit\<close> assigns the object it was constructed with; \<open>PoolObjs\<close> leaves a new one.\<close>

definition assign_init :: "'o \<Rightarrow> 'o \<Rightarrow> 'o" where
  "assign_init init_obj obj = init_obj"

definition keep_default :: "'o \<Rightarrow> 'o" where
  "keep_default obj = obj"

section \<open>Blocks\<close>

definition new_object :: "'o pool \<Rightarrow> nat \<times> 'o pool" where
  "new_object p = (length (objs p), p\<lparr>objs := objs p @ [InitObj p (default_obj p)]\<rparr>)"

text \<open>What \<open>new Obj* [n]\<close> holds is never read before it is written.\<close>

definition new_block :: "'o pool \<Rightarrow> 'o pool" where
  "new_block p =
     p\<lparr>pool_objs := (pool_objs p)(num_blocks_alloc p \<mapsto> replicate (num_objs_per_block p) 0)\<rparr>"

definition block_at :: "'o pool \<Rightarrow> nat \<Rightarrow> nat \<Rightarrow> nat result" where
  "block_at p row col =
     (case pool_objs p row of
        None \<Rightarrow> Inl Null_Deref
      | Some b \<Rightarrow> if length b \<le> col then Inl Out_Of_Bounds else Inr (b ! col))"

definition block_write :: "'o pool \<Rightarrow> nat \<Rightarrow> nat \<Rightarrow> nat \<Rightarrow> 'o pool result" where
  "block_write p row col q =
     (case pool_objs p row of
        None \<Rightarrow> Inl Null_Deref
      | Some b \<Rightarrow>
          if length b \<le> col then Inl Out_Of_Bounds
          else Inr (p\<lparr>pool_objs := (pool_objs p)(row \<mapsto> b[col := q])\<rparr>))"

fun fill_loop :: "'o pool \<Rightarrow> nat \<Rightarrow> nat \<Rightarrow> 'o pool result" where
  "fill_loop p i 0 = Inr p"
| "fill_loop p i (Suc rounds) =
     (let (q, p1) = new_object p in
      case block_write p1 (current_row p1) i q of
        Inl e \<Rightarrow> Inl e
      | Inr p2 \<Rightarrow> fill_loop (p2\<lparr>num_objs_alloc := num_objs_alloc p2 + 1\<rparr>) (i + 1) rounds)"

definition AllocABlock :: "'o pool \<Rightarrow> (bool \<times> 'o pool) result" where
  "AllocABlock p =
     (if max_num_blocks p = num_blocks_alloc p then Inr (False, p)
      else
        (case fill_loop (new_block p) 0 (num_objs_per_block p) of
           Inl e \<Rightarrow> Inl e
         | Inr p1 \<Rightarrow>
             Inr (True, p1\<lparr>num_blocks_alloc := num_blocks_alloc p1 + 1,
                           current_row := current_row p1 + 1\<rparr>)))"

text \<open>
  The loop of \<open>Init_\<close>: every round allocates a block or fails, so one more round than there may
  be blocks is enough.
\<close>

fun init_loop :: "'o pool \<Rightarrow> nat \<Rightarrow> (bool \<times> 'o pool) result" where
  "init_loop p 0 = Inl Diverges"
| "init_loop p (Suc rounds) =
     (if num_blocks_alloc p * num_objs_per_block p < init_num_objs p then
        (case AllocABlock p of
           Inl e \<Rightarrow> Inl e
         | Inr (ret, p1) \<Rightarrow> if ret \<noteq> True then Inr (False, p1) else init_loop p1 rounds)
      else Inr (True, p))"

definition pool_Init :: "'o pool \<Rightarrow> (bool \<times> 'o pool) result" where
  "pool_Init p =
     (if 0 = max_num_blocks p then Inr (False, p\<lparr>pool_array := False\<rparr>)
      else
        (case init_loop (p\<lparr>pool_array := True, pool_objs := Map.empty\<rparr>) (max_num_blocks p + 1) of
           Inl e \<Rightarrow> Inl e
         | Inr (ok, p1) \<Rightarrow>
             if ok then Inr (True, p1\<lparr>pool_init := True\<rparr>)
             else Inr (False, p1\<lparr>pool_array := False, pool_objs := Map.empty\<rparr>)))"

definition raii_pool :: "'o pool \<Rightarrow> (bool \<times> 'o pool) result" where
  "raii_pool p = (if pool_init p then Inr (True, p) else pool_Init p)"

section \<open>Counters\<close>

definition NumObjsLeft :: "'o pool \<Rightarrow> nat" where
  "NumObjsLeft p = current_row p * num_blocks_alloc p + current_col p"

text \<open>A difference of two \<open>size_t\<close>.\<close>

definition NumObjsAlloc :: "'o pool \<Rightarrow> nat" where
  "NumObjsAlloc p = nat ((int (num_objs_alloc p) - int (NumObjsLeft p)) mod 2 ^ 64)"

text \<open>\<open>MemCost\<close> for objects of a given size and pointers of eight bytes.\<close>

definition pool_MemCost :: "nat \<Rightarrow> 'o pool \<Rightarrow> nat" where
  "pool_MemCost obj_size p =
     num_objs_alloc p * obj_size + num_blocks_alloc p * num_objs_per_block p * 8
     + 8 * max_num_blocks p"

section \<open>Get and Free\<close>

definition pool_get :: "'o pool \<Rightarrow> (nat option \<times> 'o pool) result" where
  "pool_get p =
     (if 0 \<noteq> current_col p then
        let p1 = p\<lparr>current_col := current_col p - 1\<rparr> in
        map_sum id (\<lambda>q. (Some q, p1)) (block_at p1 (current_row p1) (current_col p1))
      else if 0 \<noteq> current_row p then
        let p1 = p\<lparr>current_col := num_objs_per_block p - 1, current_row := current_row p - 1\<rparr> in
        map_sum id (\<lambda>q. (Some q, p1)) (block_at p1 (current_row p1) (current_col p1))
      else
        (case (if pool_to_resize p then AllocABlock p else Inr (False, p)) of
           Inl e \<Rightarrow> Inl e
         | Inr (True, p1) \<Rightarrow>
             let p2 = p1\<lparr>current_row := 0, current_col := num_objs_per_block p1 - 1\<rparr> in
             map_sum id (\<lambda>q. (Some q, p2)) (block_at p2 (current_row p2) (current_col p2))
         | Inr (False, p1) \<Rightarrow>
             if new_if_no_resize p1 then let (q, p2) = new_object p1 in Inr (Some q, p2)
             else Inr (None, p1)))"

definition pool_Get :: "bool \<Rightarrow> 'o pool \<Rightarrow> (nat option \<times> 'o pool) result" where
  "pool_Get lock p =
     (case raii_pool p of
        Inl e \<Rightarrow> Inl e
      | Inr (False, p1) \<Rightarrow> Inr (None, p1)
      | Inr (True, p1) \<Rightarrow> if \<not> lock then Inr (None, p1) else pool_get p1)"

text \<open>Storing a pointer at the current place, once there is a block for it.\<close>

definition pool_store :: "'o pool \<Rightarrow> nat \<Rightarrow> 'o pool result" where
  "pool_store p q =
     (case block_write p (current_row p) (current_col p) q of
        Inl e \<Rightarrow> Inl e
      | Inr p1 \<Rightarrow>
          if num_objs_per_block p - 1 \<noteq> current_col p
          then Inr (p1\<lparr>current_col := current_col p1 + 1\<rparr>)
          else Inr (p1\<lparr>current_row := current_row p1 + 1, current_col := 0\<rparr>))"

definition pool_put :: "'o pool \<Rightarrow> nat \<Rightarrow> 'o pool result" where
  "pool_put p q =
     (if \<not> pool_to_resize p \<and> NumObjsLeft p = init_num_objs p
      then Inr (p\<lparr>deleted := deleted p @ [q]\<rparr>)
      else if num_blocks_alloc p = current_row p then
        if max_num_blocks p = num_blocks_alloc p then Inr p
        else
          let p1 = new_block p in
          pool_store (p1\<lparr>num_blocks_alloc := num_blocks_alloc p1 + 1\<rparr>) q
      else pool_store p q)"

definition pool_Free :: "bool \<Rightarrow> 'o pool \<Rightarrow> nat option \<Rightarrow> 'o pool result" where
  "pool_Free lock p obj =
     (case raii_pool p of
        Inl e \<Rightarrow> Inl e
      | Inr (False, p1) \<Rightarrow> Inr p1
      | Inr (True, p1) \<Rightarrow>
          (case obj of
             None \<Rightarrow> Inr p1
           | Some q \<Rightarrow> if \<not> lock then Inr p1 else pool_put p1 q))"

section \<open>Destructor\<close>

definition delete_block :: "'o pool \<Rightarrow> nat \<Rightarrow> nat \<Rightarrow> nat list" where
  "delete_block p row n = (case pool_objs p row of None \<Rightarrow> [] | Some b \<Rightarrow> take n b)"

text \<open>The objects the destructor deletes, in order.\<close>

definition pool_destroyed :: "'o pool \<Rightarrow> nat list" where
  "pool_destroyed p =
     (if pool_array p then
        concat (map (\<lambda>i. delete_block p i (num_objs_per_block p)) [0 ..< current_row p])
        @ (if current_row p \<noteq> num_blocks_alloc p
           then delete_block p (current_row p) (current_col p) else [])
      else [])"

section \<open>What a pool costs\<close>

text \<open>The derived classes add their own size; \<open>DumpMemCost\<close> prints lines of a name and a number.\<close>

definition PoolObjs_MemCost :: "nat \<Rightarrow> nat \<Rightarrow> 'o pool \<Rightarrow> nat" where
  "PoolObjs_MemCost obj_size self_size p = pool_MemCost obj_size p + self_size"

definition PoolObjsInit_MemCost :: "nat \<Rightarrow> nat \<Rightarrow> 'o pool \<Rightarrow> nat" where
  "PoolObjsInit_MemCost obj_size self_size p = pool_MemCost obj_size p + self_size"

definition pool_DumpMemCost :: "nat \<Rightarrow> 'o pool \<Rightarrow> (string \<times> nat) list" where
  "pool_DumpMemCost obj_size p =
     [(''block buckets cost: '', 8 * max_num_blocks p),
      (''blocks cost: '', num_blocks_alloc p * num_objs_per_block p * 8),
      (''objs cost: '', num_objs_alloc p * obj_size)]"

definition PoolObjs_DumpMemCost :: "nat \<Rightarrow> 'o pool \<Rightarrow> (string \<times> nat) list" where
  "PoolObjs_DumpMemCost self_size p = [(''Self cost: '', self_size)]"

definition PoolObjsInit_DumpMemCost :: "nat \<Rightarrow> 'o pool \<Rightarrow> (string \<times> nat) list" where
  "PoolObjsInit_DumpMemCost self_size p = [(''Self cost: '', self_size)]"

text \<open>The base class prints all of its cost, the derived classes leave it out.\<close>

lemma dump_adds_up:
  "sum_list (map snd (pool_DumpMemCost obj_size p)) = pool_MemCost obj_size p"
  "sum_list (map snd (PoolObjs_DumpMemCost self_size p)) + pool_MemCost obj_size p = PoolObjs_MemCost obj_size self_size p"
  "sum_list (map snd (PoolObjsInit_DumpMemCost self_size p)) + pool_MemCost obj_size p = PoolObjsInit_MemCost obj_size self_size p"
  by (simp_all add: pool_DumpMemCost_def pool_MemCost_def PoolObjs_DumpMemCost_def PoolObjs_MemCost_def
      PoolObjsInit_DumpMemCost_def PoolObjsInit_MemCost_def)

text \<open>The sizes that a pool gets when the caller gives none.\<close>

definition kDefaultInitNumObjs :: nat where "kDefaultInitNumObjs = 0"
definition kDefaultMemPerBlock :: nat where "kDefaultMemPerBlock = 2 ^ 16"
definition kDefaultMaxNumBlocks :: nat where "kDefaultMaxNumBlocks = 2 ^ 18"

definition new_init_pool :: "'o \<Rightarrow> nat \<Rightarrow> nat \<Rightarrow> nat \<Rightarrow> bool \<Rightarrow> bool \<Rightarrow> nat \<Rightarrow> 'o pool" where
  "new_init_pool init_obj = new_pool (assign_init init_obj) init_obj"

end
