(* ===== verification/Pool_Spec.thy ===== *)
theory Pool_Spec
  imports Pool_Objs
begin

text \<open>
  What the object pool promises: under any sequence of \<open>Get\<close> and \<open>Free\<close> in which the client
  frees only what it holds, the pool is a stack, never hands out an object that is in a
  client's hands, and its destructor deletes what it holds. The last section is about
  \<open>NumObjsLeft\<close>, which multiplies by the wrong counter.
\<close>

section \<open>The stack that the blocks hold\<close>

definition rows_of :: "(nat \<rightharpoonup> nat list) \<Rightarrow> nat \<Rightarrow> nat list" where
  "rows_of m i = (case m i of None \<Rightarrow> [] | Some b \<Rightarrow> b)"

abbreviation row_list :: "'o pool \<Rightarrow> nat \<Rightarrow> nat list" where
  "row_list p \<equiv> rows_of (pool_objs p)"

definition avail :: "'o pool \<Rightarrow> nat list" where
  "avail p = concat (map (row_list p) [0 ..< current_row p])
     @ take (current_col p) (row_list p (current_row p))"

lemma rows_of_upd [simp]: "rows_of (m(r \<mapsto> b)) i = (if i = r then b else rows_of m i)"
  by (simp add: rows_of_def)

lemma map_rows_upd [simp]:
  "k \<le> r \<Longrightarrow> map (rows_of (m(r \<mapsto> b))) [0 ..< k] = map (rows_of m) [0 ..< k]"
  by (intro map_cong) auto

definition blocks_ok :: "'o pool \<Rightarrow> bool" where
  "blocks_ok p \<longleftrightarrow> num_blocks_alloc p \<le> max_num_blocks p
     \<and> (\<forall>i < num_blocks_alloc p. \<exists>b. pool_objs p i = Some b \<and> length b = num_objs_per_block p)"

definition pool_shape :: "'o pool \<Rightarrow> bool" where
  "pool_shape p \<longleftrightarrow> blocks_ok p \<and> current_row p \<le> num_blocks_alloc p
     \<and> current_col p < num_objs_per_block p
     \<and> (current_row p = num_blocks_alloc p \<longrightarrow> current_col p = 0)"

text \<open>A pool whose initial objects fit in its blocks.\<close>

definition pool_config :: "'o pool \<Rightarrow> bool" where
  "pool_config p \<longleftrightarrow> 1 \<le> num_objs_per_block p \<and> 1 \<le> max_num_blocks p
     \<and> init_num_objs p \<le> max_num_blocks p * num_objs_per_block p"

lemma row_list_ok: "blocks_ok p \<Longrightarrow> i < num_blocks_alloc p \<Longrightarrow> length (row_list p i) = num_objs_per_block p"
  by (auto simp: blocks_ok_def rows_of_def)

lemma rows_length:
  "blocks_ok p \<Longrightarrow> k \<le> num_blocks_alloc p \<Longrightarrow>
    length (concat (map (row_list p) [0 ..< k])) = k * num_objs_per_block p"
  by (induction k) (simp_all add: row_list_ok)

lemma avail_length:
  assumes "pool_shape p"
  shows "length (avail p) = current_row p * num_objs_per_block p + current_col p"
proof -
  have "current_col p \<le> length (row_list p (current_row p)) \<or> current_col p = 0"
    using assms row_list_ok [of p "current_row p"] by (auto simp: pool_shape_def)
  with assms rows_length [of p "current_row p"] show ?thesis
    by (auto simp: avail_def pool_shape_def)
qed

lemma fill_loop_result:
  assumes "pool_objs p (current_row p) = Some b" and "length b = n" and "i + r \<le> n"
  shows "fill_loop p i r = Inr (p\<lparr>
      pool_objs := (pool_objs p)(current_row p \<mapsto>
        take i b @ [length (objs p) ..< length (objs p) + r] @ drop (i + r) b),
      objs := objs p @ replicate r (InitObj p (default_obj p)),
      num_objs_alloc := num_objs_alloc p + r\<rparr>)"
  using assms
proof (induction r arbitrary: p b i)
  case 0
  then show ?case by (simp add: map_upd_triv)
next
  case (Suc r)
  let ?q = "length (objs p)"
  let ?p2 = "p\<lparr>objs := objs p @ [InitObj p (default_obj p)],
    pool_objs := (pool_objs p)(current_row p \<mapsto> b[i := ?q]),
    num_objs_alloc := num_objs_alloc p + 1\<rparr>"
  have step: "fill_loop p i (Suc r) = fill_loop ?p2 (i + 1) r"
    using Suc.prems by (simp add: new_object_def block_write_def Let_def)
  have "take (Suc i) (b[i := ?q]) = take i b @ [?q]"
    using Suc.prems by (simp add: take_Suc_conv_app_nth)
  moreover have "[?q ..< ?q + Suc r] = ?q # [Suc ?q ..< Suc ?q + r]" by (simp add: upt_conv_Cons)
  ultimately show ?case
    unfolding step using Suc.IH [of ?p2 "b[i := ?q]" "i + 1"] Suc.prems
    by (simp del: upt_Suc cong: if_cong)
qed

lemma AllocABlock_result:
  assumes "current_row p \<le> num_blocks_alloc p" and "blocks_ok p"
  shows "AllocABlock p =
    (if max_num_blocks p = num_blocks_alloc p then Inr (False, p)
     else Inr (True, p\<lparr>
       pool_objs := (pool_objs p)(num_blocks_alloc p \<mapsto> replicate (num_objs_per_block p) 0,
         current_row p \<mapsto> [length (objs p) ..< length (objs p) + num_objs_per_block p]),
       objs := objs p @ replicate (num_objs_per_block p) (InitObj p (default_obj p)),
       num_objs_alloc := num_objs_alloc p + num_objs_per_block p,
       num_blocks_alloc := num_blocks_alloc p + 1, current_row := current_row p + 1\<rparr>))"
proof -
  let ?n = "num_objs_per_block p"
  obtain b where b: "pool_objs (new_block p) (current_row p) = Some b" "length b = ?n"
  proof (cases "current_row p = num_blocks_alloc p")
    case True
    then show ?thesis using that by (simp add: new_block_def)
  next
    case False
    with assms(1) have "current_row p < num_blocks_alloc p" by simp
    with assms(2) obtain b where "pool_objs p (current_row p) = Some b" "length b = ?n"
      by (auto simp: blocks_ok_def)
    with False that show ?thesis by (simp add: new_block_def)
  qed
  have f: "current_row (new_block p) = current_row p" "objs (new_block p) = objs p"
    "num_objs_alloc (new_block p) = num_objs_alloc p" "InitObj (new_block p) = InitObj p"
    "default_obj (new_block p) = default_obj p"
    by (simp_all add: new_block_def)
  from fill_loop_result [of "new_block p" b ?n 0 ?n] b f
  have "fill_loop (new_block p) 0 ?n = Inr ((new_block p)\<lparr>
      pool_objs := (pool_objs (new_block p))(current_row p \<mapsto> [length (objs p) ..< length (objs p) + ?n]),
      objs := objs p @ replicate ?n (InitObj p (default_obj p)),
      num_objs_alloc := num_objs_alloc p + ?n\<rparr>)" by simp
  then show ?thesis by (simp add: AllocABlock_def) (simp add: new_block_def)
qed

section \<open>Init\<close>

text \<open>While \<open>Init_\<close> runs, and when it is done, all objects are in the pool in order.\<close>

definition pool_full :: "'o pool \<Rightarrow> bool" where
  "pool_full p \<longleftrightarrow> pool_shape p \<and> pool_array p \<and> current_row p = num_blocks_alloc p
     \<and> avail p = [0 ..< length (objs p)] \<and> deleted p = [] \<and> num_objs_alloc p = length (objs p)"

definition same_pool :: "'o pool \<Rightarrow> 'o pool \<Rightarrow> bool" where
  "same_pool p p' \<longleftrightarrow> InitObj p' = InitObj p \<and> default_obj p' = default_obj p
     \<and> init_num_objs p' = init_num_objs p \<and> num_objs_per_block p' = num_objs_per_block p
     \<and> pool_to_resize p' = pool_to_resize p \<and> new_if_no_resize p' = new_if_no_resize p
     \<and> max_num_blocks p' = max_num_blocks p"

lemma same_pool_refl [simp]: "same_pool p p"
  by (simp add: same_pool_def)

lemma same_pool_trans: "same_pool p p1 \<Longrightarrow> same_pool p1 p2 \<Longrightarrow> same_pool p p2"
  by (simp add: same_pool_def)

lemma alloc_full:
  assumes "pool_full p" and "num_blocks_alloc p < max_num_blocks p"
  shows "\<exists>p'. AllocABlock p = Inr (True, p') \<and> pool_full p' \<and> same_pool p p'
    \<and> num_blocks_alloc p' = num_blocks_alloc p + 1 \<and> pool_init p' = pool_init p"
proof -
  let ?k = "num_blocks_alloc p" and ?n = "num_objs_per_block p" and ?f = "length (objs p)"
  let ?p = "p\<lparr>pool_objs := (pool_objs p)(?k \<mapsto> [?f ..< ?f + ?n]),
    objs := objs p @ replicate ?n (InitObj p (default_obj p)),
    num_objs_alloc := num_objs_alloc p + ?n, num_blocks_alloc := ?k + 1, current_row := ?k + 1\<rparr>"
  have sh: "pool_shape p" "current_row p = ?k" "blocks_ok p" "avail p = [0 ..< ?f]"
    using assms(1) by (simp_all add: pool_full_def pool_shape_def)
  then have col: "current_col p = 0" by (simp add: pool_shape_def)
  have "AllocABlock p = Inr (True, ?p)"
    using AllocABlock_result [of p] sh assms(2) by simp
  moreover have ok: "blocks_ok ?p"
    using sh(3) assms(2) by (auto simp: blocks_ok_def less_Suc_eq)
  moreover have rows: "map (row_list ?p) [0 ..< ?k] = map (row_list p) [0 ..< ?k]"
    "row_list ?p ?k = [?f ..< ?f + ?n]"
    by simp_all
  have "avail ?p = concat (map (row_list ?p) [0 ..< ?k]) @ row_list ?p ?k"
    using col by (simp add: avail_def)
  then have "avail ?p = avail p @ [?f ..< ?f + ?n]"
    unfolding rows using sh(2) col by (simp add: avail_def)
  then have "avail ?p = [0 ..< ?f + ?n]"
    unfolding sh(4) using upt_add_eq_append [of 0 ?f ?n] by simp
  ultimately show ?thesis
    using assms(1) sh col by (auto simp: pool_full_def pool_shape_def same_pool_def)
qed

lemma init_loop_full:
  "pool_full p \<Longrightarrow> pool_config p \<Longrightarrow> max_num_blocks p < num_blocks_alloc p + r \<Longrightarrow>
    \<exists>p'. init_loop p r = Inr (True, p') \<and> pool_full p' \<and> same_pool p p'
      \<and> init_num_objs p \<le> length (objs p')"
proof (induction r arbitrary: p)
  case 0
  then show ?case by (simp add: pool_full_def pool_shape_def blocks_ok_def)
next
  case (Suc r)
  have len: "length (objs p) = num_blocks_alloc p * num_objs_per_block p"
    using Suc.prems(1) avail_length [of p] by (simp add: pool_full_def pool_shape_def)
  show ?case
  proof (cases "num_blocks_alloc p * num_objs_per_block p < init_num_objs p")
    case False
    then show ?thesis using Suc.prems len by simp
  next
    case True
    have "num_blocks_alloc p \<noteq> max_num_blocks p"
      using True Suc.prems(2) by (auto simp: pool_config_def)
    moreover have "num_blocks_alloc p \<le> max_num_blocks p"
      using Suc.prems(1) by (simp add: pool_full_def pool_shape_def blocks_ok_def)
    ultimately obtain p1 where p1: "AllocABlock p = Inr (True, p1)" "pool_full p1"
      "same_pool p p1" "num_blocks_alloc p1 = num_blocks_alloc p + 1"
      using alloc_full [OF Suc.prems(1)] by auto
    have "pool_config p1" "max_num_blocks p1 < num_blocks_alloc p1 + r"
      "init_num_objs p1 = init_num_objs p"
      using p1(3,4) Suc.prems by (auto simp: pool_config_def same_pool_def)
    with Suc.IH [OF p1(2)] p1 True show ?thesis by (auto intro: same_pool_trans)
  qed
qed

text \<open>A pool as the constructor leaves it.\<close>

definition pool_fresh :: "'o pool \<Rightarrow> bool" where
  "pool_fresh p \<longleftrightarrow> \<not> pool_init p \<and> \<not> pool_array p \<and> current_row p = 0 \<and> current_col p = 0
     \<and> num_objs_alloc p = 0 \<and> num_blocks_alloc p = 0 \<and> objs p = [] \<and> deleted p = []"

lemma avail_init: "avail (p\<lparr>pool_init := b\<rparr>) = avail p"
  by (simp add: avail_def)

lemma Init_full:
  assumes "pool_fresh p" and "pool_config p"
  shows "\<exists>p'. pool_Init p = Inr (True, p') \<and> pool_full p' \<and> same_pool p p' \<and> pool_init p'
    \<and> init_num_objs p \<le> length (objs p')"
proof -
  let ?p = "p\<lparr>pool_array := True, pool_objs := Map.empty\<rparr>"
  have "pool_full ?p"
    using assms by (simp add: pool_full_def pool_fresh_def pool_shape_def blocks_ok_def avail_def
        pool_config_def)
  moreover have "pool_config ?p" using assms(2) by (simp add: pool_config_def)
  ultimately obtain p' where p': "init_loop ?p (max_num_blocks p + 1) = Inr (True, p')"
    "pool_full p'" "same_pool ?p p'" "init_num_objs p \<le> length (objs p')"
    using init_loop_full [of ?p "max_num_blocks p + 1"] by auto
  have "pool_full (p'\<lparr>pool_init := True\<rparr>)"
    using p'(2) by (simp add: pool_full_def pool_shape_def blocks_ok_def avail_init)
  with p' assms(2) show ?thesis by (auto simp: pool_Init_def pool_config_def same_pool_def)
qed

section \<open>Get and Free on a pool that is initialised\<close>

definition pool_ready :: "'o pool \<Rightarrow> bool" where
  "pool_ready p \<longleftrightarrow> pool_shape p \<and> pool_array p \<and> pool_init p"

text \<open>What a call leaves alone besides the stack, the store and the log of deletions.\<close>

definition pool_step_ok :: "'o pool \<Rightarrow> 'o pool \<Rightarrow> bool" where
  "pool_step_ok p p' \<longleftrightarrow> pool_ready p' \<and> same_pool p p'"

lemma avail_pop_col:
  assumes "pool_shape p" and "0 < current_col p"
  shows "avail p \<noteq> []" and "last (avail p) = row_list p (current_row p) ! (current_col p - 1)"
    and "avail (p\<lparr>current_col := current_col p - 1\<rparr>) = butlast (avail p)"
proof -
  have len: "current_col p \<le> length (row_list p (current_row p))"
    using assms row_list_ok [of p "current_row p"] by (auto simp: pool_shape_def)
  obtain c where c: "current_col p = Suc c" using assms(2) by (cases "current_col p") auto
  then have t: "take (current_col p) (row_list p (current_row p))
      = take c (row_list p (current_row p)) @ [row_list p (current_row p) ! c]"
    using len by (simp add: take_Suc_conv_app_nth)
  show "avail p \<noteq> []" "last (avail p) = row_list p (current_row p) ! (current_col p - 1)"
    "avail (p\<lparr>current_col := current_col p - 1\<rparr>) = butlast (avail p)"
    unfolding avail_def t using c by (simp_all add: butlast_append)
qed

lemma avail_pop_row:
  assumes "pool_shape p" and "current_col p = 0" and "current_row p = Suc r"
  shows "avail p = avail (p\<lparr>current_row := r, current_col := num_objs_per_block p - 1\<rparr>)
    @ [row_list p r ! (num_objs_per_block p - 1)]"
proof -
  have len: "length (row_list p r) = num_objs_per_block p" "0 < num_objs_per_block p"
    using assms row_list_ok [of p r] by (auto simp: pool_shape_def)
  then have "row_list p r = take (num_objs_per_block p - 1) (row_list p r)
      @ [row_list p r ! (num_objs_per_block p - 1)]"
    by (metis Suc_pred' diff_less less_numeral_extra(1) take_Suc_conv_app_nth take_all_iff
        order_refl)
  with assms(2,3) show ?thesis by (simp add: avail_def)
qed

lemma block_at_ok:
  "blocks_ok p \<Longrightarrow> row < num_blocks_alloc p \<Longrightarrow> col < num_objs_per_block p \<Longrightarrow>
    block_at p row col = Inr (row_list p row ! col)"
  by (auto simp: blocks_ok_def block_at_def rows_of_def)

lemma get_stack:
  assumes ready: "pool_ready p" and ne: "avail p \<noteq> []"
  shows "\<exists>p'. pool_get p = Inr (Some (last (avail p)), p') \<and> pool_step_ok p p'
    \<and> avail p' = butlast (avail p) \<and> objs p' = objs p \<and> deleted p' = deleted p"
proof (cases "current_col p")
  case (Suc c)
  let ?p = "p\<lparr>current_col := current_col p - 1\<rparr>"
  have sh: "pool_shape p" using ready by (simp add: pool_ready_def)
  have "current_row p < num_blocks_alloc p" using sh Suc by (auto simp: pool_shape_def)
  then have "block_at ?p (current_row p) c = Inr (row_list p (current_row p) ! c)"
    using sh Suc by (subst block_at_ok) (auto simp: pool_shape_def blocks_ok_def)
  with avail_pop_col [OF sh] Suc ready show ?thesis
    by (auto simp: pool_get_def Let_def pool_step_ok_def pool_ready_def pool_shape_def
        blocks_ok_def same_pool_def)
next
  case 0
  have sh: "pool_shape p" using ready by (simp add: pool_ready_def)
  obtain r where r: "current_row p = Suc r"
    using ne 0 by (cases "current_row p") (auto simp: avail_def)
  let ?p = "p\<lparr>current_col := num_objs_per_block p - 1, current_row := r\<rparr>"
  have "block_at ?p r (num_objs_per_block p - 1) = Inr (row_list p r ! (num_objs_per_block p - 1))"
    using sh r by (subst block_at_ok) (auto simp: pool_shape_def blocks_ok_def)
  moreover have "avail p = avail ?p @ [row_list p r ! (num_objs_per_block p - 1)]"
    using avail_pop_row [OF sh 0 r] by (simp add: avail_def)
  ultimately show ?thesis
    using 0 r ready
    by (auto simp: pool_get_def Let_def pool_step_ok_def pool_ready_def pool_shape_def
        blocks_ok_def same_pool_def)
qed

lemma avail_Nil_iff:
  assumes "pool_shape p"
  shows "avail p = [] \<longleftrightarrow> current_row p = 0 \<and> current_col p = 0"
proof -
  have "0 < num_objs_per_block p" using assms by (auto simp: pool_shape_def)
  with avail_length [OF assms] show ?thesis by (simp flip: length_0_conv)
qed

text \<open>An empty pool allocates a block, or a single object, or has nothing to give.\<close>

lemma get_empty:
  assumes ready: "pool_ready p" and e: "avail p = []"
  defines "f \<equiv> length (objs p)" and "n \<equiv> num_objs_per_block p"
    and "x \<equiv> InitObj p (default_obj p)"
    and "grow \<equiv> pool_to_resize p \<and> num_blocks_alloc p < max_num_blocks p"
  shows "\<exists>p'. pool_step_ok p p' \<and> deleted p' = deleted p
    \<and> pool_get p = Inr (if grow then Some (f + n - 1) else if new_if_no_resize p then Some f else None, p')
    \<and> avail p' = (if grow then [f ..< f + n - 1] else [])
    \<and> objs p' = objs p @ (if grow then replicate n x else if new_if_no_resize p then [x] else [])"
proof -
  have sh: "pool_shape p" "blocks_ok p" using ready by (simp_all add: pool_ready_def pool_shape_def)
  have rc: "current_row p = 0" "current_col p = 0" using e avail_Nil_iff [OF sh(1)] by simp_all
  have n: "0 < n" using sh(1) by (auto simp: pool_shape_def n_def)
  show ?thesis
  proof (cases grow)
    case True
    let ?p = "p\<lparr>pool_objs := (pool_objs p)(num_blocks_alloc p \<mapsto> replicate n 0, 0 \<mapsto> [f ..< f + n]),
      objs := objs p @ replicate n x, num_objs_alloc := num_objs_alloc p + n,
      num_blocks_alloc := num_blocks_alloc p + 1, current_row := 0, current_col := n - 1\<rparr>"
    have "AllocABlock p = Inr (True, ?p\<lparr>current_row := 1, current_col := 0\<rparr>)"
      using AllocABlock_result [of p] sh(2) rc True by (simp add: f_def n_def x_def grow_def)
    moreover have ok: "blocks_ok ?p"
      using sh(2) True by (auto simp: blocks_ok_def n_def grow_def less_Suc_eq)
    moreover have "block_at ?p 0 (n - 1) = Inr (f + n - 1)"
      using n by (simp add: block_at_def)
    moreover have "avail ?p = [f ..< f + n - 1]"
      using n by (simp add: avail_def take_upt)
    ultimately show ?thesis
      using True rc n ready
      by (auto simp: pool_get_def Let_def pool_step_ok_def pool_ready_def pool_shape_def
          same_pool_def grow_def n_def)
  next
    case False
    then have "(if pool_to_resize p then AllocABlock p else Inr (False, p)) = Inr (False, p)"
      using AllocABlock_result [of p] sh rc by (auto simp: grow_def blocks_ok_def)
    with False rc ready e show ?thesis
      by (auto simp: pool_get_def Let_def new_object_def pool_step_ok_def pool_ready_def
          pool_shape_def blocks_ok_def same_pool_def avail_def f_def x_def)
  qed
qed

lemma store_stack:
  assumes ready: "pool_ready p" and row: "current_row p < num_blocks_alloc p"
  shows "\<exists>p'. pool_store p q = Inr p' \<and> pool_step_ok p p' \<and> avail p' = avail p @ [q]
    \<and> objs p' = objs p \<and> deleted p' = deleted p"
proof -
  let ?r = "current_row p" and ?c = "current_col p" and ?n = "num_objs_per_block p"
  have sh: "pool_shape p" using ready by (simp add: pool_ready_def)
  then obtain b where b: "pool_objs p ?r = Some b" "length b = ?n" and c: "?c < ?n"
    using row by (auto simp: pool_shape_def blocks_ok_def)
  let ?m = "(pool_objs p)(?r \<mapsto> b[?c := q])"
  have rl: "rows_of (pool_objs p) ?r = b" using b(1) by (simp add: rows_of_def)
  have t: "take (Suc ?c) (b[?c := q]) = take ?c b @ [q]"
    using b(2) c by (simp add: take_Suc_conv_app_nth)
  have ok: "\<forall>i < num_blocks_alloc p. \<exists>b. ?m i = Some b \<and> length b = ?n"
    using sh b by (auto simp: pool_shape_def blocks_ok_def)
  show ?thesis
  proof (cases "?n - 1 = ?c")
    case False
    let ?p = "p\<lparr>pool_objs := ?m, current_col := ?c + 1\<rparr>"
    have "pool_store p q = Inr ?p" using False b c by (simp add: pool_store_def block_write_def)
    moreover have "avail ?p = avail p @ [q]" using t by (simp add: avail_def rl)
    moreover have "pool_step_ok p ?p"
      using ready ok row c False
      by (auto simp: pool_step_ok_def pool_ready_def pool_shape_def blocks_ok_def same_pool_def)
    ultimately show ?thesis by (intro exI [of _ ?p]) simp
  next
    case True
    let ?p = "p\<lparr>pool_objs := ?m, current_row := ?r + 1, current_col := 0\<rparr>"
    have "pool_store p q = Inr ?p" using True b c by (simp add: pool_store_def block_write_def)
    moreover have "b[?c := q] = take ?c b @ [q]"
      using t True b(2) c by (metis Suc_pred' diff_less_Suc length_list_update less_nat_zero_code
          not_gr_zero take_all_iff order_refl)
    then have "avail ?p = avail p @ [q]" by (simp add: avail_def rl)
    moreover have "pool_step_ok p ?p"
      using ready ok row c
      by (auto simp: pool_step_ok_def pool_ready_def pool_shape_def blocks_ok_def same_pool_def)
    ultimately show ?thesis by (intro exI [of _ ?p]) simp
  qed
qed

lemma put_stack:
  assumes ready: "pool_ready p"
  defines "del \<equiv> \<not> pool_to_resize p \<and> NumObjsLeft p = init_num_objs p"
    and "full \<equiv> length (avail p) = max_num_blocks p * num_objs_per_block p"
  shows "\<exists>p'. pool_put p q = Inr p' \<and> pool_step_ok p p' \<and> objs p' = objs p
    \<and> avail p' = (if del \<or> full then avail p else avail p @ [q])
    \<and> deleted p' = (if del then deleted p @ [q] else deleted p)"
proof -
  let ?k = "num_blocks_alloc p" and ?n = "num_objs_per_block p"
  have sh: "pool_shape p" using ready by (simp add: pool_ready_def)
  then have n: "0 < ?n" and k: "?k \<le> max_num_blocks p" by (auto simp: pool_shape_def blocks_ok_def)
  have col: "current_row p = ?k \<Longrightarrow> current_col p = 0" using sh by (simp add: pool_shape_def)
  have full_iff: "full \<longleftrightarrow> current_row p = max_num_blocks p"
  proof
    assume full
    then have "current_row p * ?n + current_col p = max_num_blocks p * ?n"
      using avail_length [OF sh] by (simp add: full_def)
    moreover have "current_col p < ?n" using sh by (simp add: pool_shape_def)
    ultimately show "current_row p = max_num_blocks p"
      by (metis Euclidean_Rings.div_eq_0_iff add_0_right div_mult_self3 mult.commute n
          nonzero_mult_div_cancel_right not_gr_zero)
  next
    assume "current_row p = max_num_blocks p"
    then show full using avail_length [OF sh] sh col k by (simp add: full_def pool_shape_def)
  qed
  consider "del" | "\<not> del" "current_row p = ?k" "max_num_blocks p = ?k"
    | "\<not> del" "current_row p = ?k" "?k < max_num_blocks p" | "\<not> del" "current_row p < ?k"
    using sh k unfolding pool_shape_def le_less by metis
  then show ?thesis
  proof cases
    case 1
    with ready show ?thesis
      by (auto simp: pool_put_def del_def pool_step_ok_def pool_ready_def pool_shape_def
          blocks_ok_def same_pool_def avail_def)
  next
    case 2
    with ready full_iff show ?thesis
      by (auto simp: pool_put_def del_def pool_step_ok_def)
  next
    case 3
    let ?p = "(new_block p)\<lparr>num_blocks_alloc := ?k + 1\<rparr>"
    have "pool_ready ?p"
      using ready 3 by (auto simp: new_block_def pool_ready_def pool_shape_def blocks_ok_def less_Suc_eq)
    moreover have "avail ?p = avail p" using 3 col by (simp add: new_block_def avail_def)
    moreover have "same_pool p ?p" "objs ?p = objs p" "deleted ?p = deleted p"
      "current_row ?p < num_blocks_alloc ?p"
      using 3 by (simp_all add: new_block_def same_pool_def)
    moreover have "pool_put p q = pool_store ?p q"
      using 3 by (auto simp: pool_put_def del_def Let_def new_block_def)
    ultimately show ?thesis
      using store_stack [of ?p q] 3 full_iff by (auto simp: pool_step_ok_def intro: same_pool_trans)
  next
    case 4
    then have "pool_put p q = pool_store p q" by (auto simp: pool_put_def del_def)
    with store_stack [OF ready 4(2), of q] 4 full_iff k show ?thesis by auto
  qed
qed

section \<open>The pool and its clients\<close>

text \<open>
  The state of the system is the pool and the set of objects in the hands of clients, which
  the code does not keep. A call gives a pointer or \<open>NULL\<close>.
\<close>

datatype pool_op = PGet | PFree nat

fun pool_step ::
  "'o pool \<times> nat set \<Rightarrow> pool_op \<Rightarrow> (nat option \<times> 'o pool \<times> nat set) result" where
  "pool_step (p, out) PGet =
     map_sum id (\<lambda>(r, p'). (r, p', set_option r \<union> out)) (pool_Get True p)"
| "pool_step (p, out) (PFree q) =
     map_sum id (\<lambda>p'. (None, p', out - {q})) (pool_Free True p (Some q))"

text \<open>The specification, on the pooled objects as a stack and the objects handed out.\<close>

fun object_stack ::
  "nat \<Rightarrow> bool \<Rightarrow> bool \<Rightarrow> nat list \<times> nat set \<Rightarrow> pool_op \<Rightarrow> nat option \<Rightarrow> nat list \<times> nat set \<Rightarrow> bool" where
  "object_stack cap resize new_if (stk, out) PGet r (stk', out') =
     (case r of
        None \<Rightarrow> stk = [] \<and> \<not> new_if \<and> stk' = [] \<and> out' = out
      | Some q \<Rightarrow> q \<notin> out \<and> out' = insert q out
          \<and> (if stk = [] then distinct stk' \<and> set stk' \<inter> insert q out = {}
             else q = last stk \<and> stk' = butlast stk))"
| "object_stack cap resize new_if (stk, out) (PFree q) r (stk', out') =
     (r = None \<and> out' = out - {q}
      \<and> (if length stk = cap then stk' = stk
         else stk' = stk @ [q] \<or> \<not> resize \<and> stk' = stk))"

fun pool_pre :: "'o pool \<times> nat set \<Rightarrow> pool_op \<Rightarrow> bool" where
  "pool_pre (p, out) PGet = True"
| "pool_pre (p, out) (PFree q) = (q \<in> out)"

text \<open>No object is in two places.\<close>

definition apart :: "'o pool \<Rightarrow> nat set \<Rightarrow> bool" where
  "apart p out \<longleftrightarrow> distinct (avail p) \<and> distinct (deleted p) \<and> finite out
     \<and> set (avail p) \<inter> out = {} \<and> set (avail p) \<inter> set (deleted p) = {} \<and> out \<inter> set (deleted p) = {}
     \<and> set (avail p) \<union> out \<union> set (deleted p) \<subseteq> {..<length (objs p)}"

definition pool_inv :: "'o pool \<Rightarrow> 'o pool \<times> nat set \<Rightarrow> bool" where
  "pool_inv p0 = (\<lambda>(p, out). pool_config p0 \<and> same_pool p0 p
     \<and> (if pool_init p then pool_ready p \<and> apart p out else pool_fresh p \<and> out = {}))"

definition initialised :: "'o pool \<Rightarrow> 'o pool" where
  "initialised p = (case raii_pool p of Inl e \<Rightarrow> p | Inr (ok, p') \<Rightarrow> p')"

definition pool_abs :: "'o pool \<times> nat set \<Rightarrow> nat list \<times> nat set" where
  "pool_abs = (\<lambda>(p, out). (avail (initialised p), out))"

lemma initialised_ready:
  assumes "pool_inv p0 (p, out)"
  shows "raii_pool p = Inr (True, initialised p) \<and> pool_ready (initialised p)
    \<and> apart (initialised p) out \<and> same_pool p0 (initialised p)"
proof (cases "pool_init p")
  case True
  with assms show ?thesis by (simp add: pool_inv_def initialised_def raii_pool_def)
next
  case False
  with assms have f: "pool_fresh p" "out = {}" "same_pool p0 p" "pool_config p"
    by (simp_all add: pool_inv_def pool_config_def same_pool_def)
  from Init_full [OF f(1,4)] obtain p' where p': "pool_Init p = Inr (True, p')" "pool_full p'"
    "same_pool p p'" "pool_init p'" by blast
  then have "apart p' {}" "pool_ready p'"
    by (simp_all add: apart_def pool_full_def pool_ready_def lessThan_atLeast0)
  with p' f False show ?thesis
    by (auto simp: initialised_def raii_pool_def intro: same_pool_trans)
qed

lemma pool_inv_step:
  assumes "pool_inv p0 (p, out)" and "pool_step_ok (initialised p) p'" and "apart p' out'"
  shows "pool_inv p0 (p', out')" and "pool_abs (p', out') = (avail p', out')"
proof -
  have "pool_init p'" using assms(2) by (simp add: pool_step_ok_def pool_ready_def)
  with assms initialised_ready [OF assms(1)] show "pool_inv p0 (p', out')"
    by (auto simp: pool_inv_def pool_step_ok_def intro: same_pool_trans)
  show "pool_abs (p', out') = (avail p', out')"
    using \<open>pool_init p'\<close> by (simp add: pool_abs_def initialised_def raii_pool_def)
qed

lemma apart_pop:
  assumes "apart p out" and "avail p \<noteq> []" and "avail p' = butlast (avail p)"
    and "objs p' = objs p" and "deleted p' = deleted p"
  shows "apart p' (insert (last (avail p)) out)" and "last (avail p) \<notin> out"
proof -
  obtain xs x where "avail p = xs @ [x]" using assms(2) rev_exhaust by blast
  with assms show "apart p' (insert (last (avail p)) out)" "last (avail p) \<notin> out"
    by (auto simp: apart_def)
qed

lemma apart_grow:
  assumes "apart p out" and "avail p = []" and "deleted p' = deleted p"
    and "avail p' = [length (objs p) ..< q]" and "length (objs p) \<le> q"
    and "length (objs p') = Suc q"
  shows "apart p' (insert q out)" and "q \<notin> out" and "set (avail p') \<inter> insert q out = {}"
proof -
  have "x < length (objs p)" if "x \<in> out \<union> set (deleted p)" for x
    using assms(1) that by (auto simp: apart_def)
  with assms show "apart p' (insert q out)" "q \<notin> out" "set (avail p') \<inter> insert q out = {}"
    by (fastforce simp: apart_def)+
qed

lemma Get_step:
  assumes inv: "pool_inv p0 (p, out)"
  shows "\<exists>r s'. pool_step (p, out) PGet = Inr (r, s') \<and> pool_inv p0 s'
    \<and> object_stack cap resize (new_if_no_resize p0) (pool_abs (p, out)) PGet r (pool_abs s')"
proof -
  let ?p = "initialised p"
  note i = initialised_ready [OF inv]
  have abs: "pool_abs (p, out) = (avail ?p, out)" by (simp add: pool_abs_def)
  have g: "pool_Get True p = pool_get ?p" using i by (simp add: pool_Get_def)
  show ?thesis
  proof (cases "avail ?p = []")
    case False
    from get_stack [OF _ False] i obtain p' where p': "pool_get ?p = Inr (Some (last (avail ?p)), p')"
      "pool_step_ok ?p p'" "avail p' = butlast (avail ?p)" "objs p' = objs ?p"
      "deleted p' = deleted ?p" by blast
    note ap = apart_pop [OF _ False p'(3-5), of out]
    from pool_inv_step [OF inv p'(2)] ap i p'(1,3) g abs False show ?thesis by auto
  next
    case True
    let ?f = "length (objs ?p)" and ?n = "num_objs_per_block ?p"
    define grow where "grow \<longleftrightarrow> pool_to_resize ?p \<and> num_blocks_alloc ?p < max_num_blocks ?p"
    have n: "0 < ?n" and nif: "new_if_no_resize ?p = new_if_no_resize p0"
      using i by (auto simp: pool_ready_def pool_shape_def same_pool_def)
    from get_empty [OF _ True] i obtain p' where p': "pool_step_ok ?p p'" "deleted p' = deleted ?p"
      "pool_get ?p = Inr (if grow then Some (?f + ?n - 1) else if new_if_no_resize p0 then Some ?f
        else None, p')" "avail p' = (if grow then [?f ..< ?f + ?n - 1] else [])"
      "objs p' = objs ?p @ (if grow then replicate ?n (InitObj ?p (default_obj ?p))
        else if new_if_no_resize p0 then [InitObj ?p (default_obj ?p)] else [])"
      unfolding grow_def nif by blast
    show ?thesis
    proof (cases "grow \<or> new_if_no_resize p0")
      case False
      have "apart p' out" using i True p' False by (auto simp: apart_def)
      from pool_inv_step [OF inv p'(1) this] p'(3,4) g abs True False show ?thesis by auto
    next
      case some: True
      define q where "q = (if grow then ?f + ?n - 1 else ?f)"
      have q: "avail p' = [?f ..< q]" "?f \<le> q" "length (objs p') = Suc q"
        using p'(4,5) some n by (auto simp: q_def)
      note ap = apart_grow [OF _ True p'(2) q, of out]
      have "pool_get ?p = Inr (Some q, p')" using p'(3) some by (auto simp: q_def)
      with pool_inv_step [OF inv p'(1) ap(1)] ap i q(1) g abs True show ?thesis by auto
    qed
  qed
qed

lemma Free_step:
  assumes inv: "pool_inv p0 (p, out)" and q: "q \<in> out"
  shows "\<exists>r s'. pool_step (p, out) (PFree q) = Inr (r, s') \<and> pool_inv p0 s'
    \<and> object_stack (max_num_blocks p0 * num_objs_per_block p0) (pool_to_resize p0) new_if
        (pool_abs (p, out)) (PFree q) r (pool_abs s')"
proof -
  let ?p = "initialised p"
  note i = initialised_ready [OF inv]
  have abs: "pool_abs (p, out) = (avail ?p, out)" by (simp add: pool_abs_def)
  have c: "max_num_blocks ?p = max_num_blocks p0" "num_objs_per_block ?p = num_objs_per_block p0"
    "pool_to_resize ?p = pool_to_resize p0"
    using i by (simp_all add: same_pool_def)
  from put_stack [of ?p q] i obtain p' where p': "pool_put ?p q = Inr p'" "pool_step_ok ?p p'"
    "objs p' = objs ?p"
    "avail p' = (if (\<not> pool_to_resize p0 \<and> NumObjsLeft ?p = init_num_objs ?p)
        \<or> length (avail ?p) = max_num_blocks p0 * num_objs_per_block p0
      then avail ?p else avail ?p @ [q])"
    "deleted p' = (if \<not> pool_to_resize p0 \<and> NumObjsLeft ?p = init_num_objs ?p
      then deleted ?p @ [q] else deleted ?p)"
    unfolding c by blast
  have "apart p' (out - {q})" using i q p'(3-5) by (auto simp: apart_def)
  from pool_inv_step [OF inv p'(2) this] p'(1,4) i abs show ?thesis
    by (auto simp: pool_Free_def)
qed

lemma pool_step_correct:
  assumes "pool_inv p0 s" and "pool_pre s op"
  shows "\<exists>r s'. pool_step s op = Inr (r, s') \<and> pool_inv p0 s'
    \<and> object_stack (max_num_blocks p0 * num_objs_per_block p0) (pool_to_resize p0)
        (new_if_no_resize p0) (pool_abs s) op r (pool_abs s')"
proof -
  obtain p out where s: "s = (p, out)" by fastforce
  show ?thesis
  proof (cases op)
    case PGet
    with Get_step assms(1) s show ?thesis by blast
  next
    case (PFree q)
    with Free_step assms s show ?thesis by simp
  qed
qed

interpretation pool_system: simulation pool_step
  "object_stack (max_num_blocks p0 * num_objs_per_block p0) (pool_to_resize p0) (new_if_no_resize p0)"
  pool_pre "pool_inv p0" pool_abs for p0 :: "'o pool"
  by unfold_locales (rule pool_step_correct)

lemma new_pool_inv:
  assumes "1 \<le> osize" and "1 \<le> mem" and "1 \<le> blocks"
    and "init_num \<le> blocks * ((mem + osize - 1) div osize)"
  shows "pool_inv (new_pool f d osize init_num mem rz ni blocks)
    (new_pool f d osize init_num mem rz ni blocks, {})"
proof -
  have "1 \<le> (mem + osize - 1) div osize" using assms(1,2) by (simp add: Suc_leI div_greater_zero_iff)
  with assms show ?thesis
    by (simp add: pool_inv_def pool_config_def pool_fresh_def new_pool_def)
qed

text \<open>
  C9: a pool whose initial objects fit in its blocks behaves, under every sequence of \<open>Get\<close> and
  \<open>Free\<close> in which clients free only what they hold, as a stack of objects: no call faults, \<open>Get\<close>
  never hands out an object that a client holds and returns \<open>NULL\<close> only when the pool is empty
  and may not make a new one, and \<open>Free\<close> puts the object on top of the stack unless all blocks
  are full or the pool may not grow.
\<close>

theorem pool_is_object_stack:
  assumes "1 \<le> osize" and "1 \<le> mem" and "1 \<le> blocks"
    and "init_num \<le> blocks * ((mem + osize - 1) div osize)"
    and "legal_ops pool_step pool_pre (new_pool f d osize init_num mem rz ni blocks, {}) ops"
  shows "\<exists>rs p out stk. run_ops pool_step (new_pool f d osize init_num mem rz ni blocks, {}) ops
      = Inr (rs, p, out)
    \<and> init_num \<le> length stk \<and> distinct stk
    \<and> spec_run (object_stack (blocks * ((mem + osize - 1) div osize)) rz ni) (stk, {}) ops rs
        (avail (initialised p), out)"
proof -
  let ?p = "new_pool f d osize init_num mem rz ni blocks"
  have inv: "pool_inv ?p (?p, {})" by (rule new_pool_inv [OF assms(1-4)])
  have c: "max_num_blocks ?p = blocks" "num_objs_per_block ?p = (mem + osize - 1) div osize"
    "pool_to_resize ?p = rz" "new_if_no_resize ?p = ni" "init_num_objs ?p = init_num"
    by (simp_all add: new_pool_def)
  have "pool_fresh ?p" "pool_config ?p" using inv by (simp_all add: pool_inv_def new_pool_def)
  from Init_full [OF this] obtain p' where p': "pool_Init ?p = Inr (True, p')" "pool_full p'"
    "init_num \<le> length (objs p')" unfolding c by blast
  then have "initialised ?p = p'" by (simp add: initialised_def raii_pool_def new_pool_def)
  then have stk: "pool_abs (?p, {}) = ([0 ..< length (objs p')], {})"
    using p'(2) by (simp add: pool_abs_def pool_full_def)
  from pool_system.run_refines [OF inv assms(5)] obtain rs p out where
    "run_ops pool_step (?p, {}) ops = Inr (rs, p, out)"
    "spec_run (object_stack (blocks * ((mem + osize - 1) div osize)) rz ni)
      ([0 ..< length (objs p')], {}) ops rs (avail (initialised p), out)"
    unfolding c stk by (auto simp: pool_abs_def)
  then show ?thesis using p'(3) by (intro exI [of _ rs] exI [of _ p] exI [of _ out]
      exI [of _ "[0 ..< length (objs p')]"]) simp
qed

theorem pool_is_object_stack_witness:
  "\<exists>rs p out stk. run_ops pool_step (new_pool keep_default (0::nat) 1 2 2 True True 4, {})
      [PGet, PGet, PFree 1, PGet] = Inr (rs, p, out)
    \<and> spec_run (object_stack 8 True True) (stk, {}) [PGet, PGet, PFree 1, PGet] rs
        (avail (initialised p), out)"
proof -
  let ?p = "new_pool keep_default (0::nat) 1 2 2 True True 4"
  have "legal_ops pool_step pool_pre (?p, {}) [PGet, PGet, PFree 1, PGet]"
    by code_simp
  from pool_is_object_stack [OF _ _ _ _ this] show ?thesis by fastforce
qed

text \<open>
  the destructor deletes the pooled objects, each of them once, and none that a client
  holds or that \<open>Free\<close> deleted before.
\<close>

theorem pool_destructor:
  assumes "1 \<le> osize" and "1 \<le> mem" and "1 \<le> blocks"
    and "init_num \<le> blocks * ((mem + osize - 1) div osize)"
    and "legal_ops pool_step pool_pre (new_pool f d osize init_num mem rz ni blocks, {}) ops"
  shows "\<exists>rs p out. run_ops pool_step (new_pool f d osize init_num mem rz ni blocks, {}) ops
      = Inr (rs, p, out)
    \<and> distinct (pool_destroyed p @ deleted p)
    \<and> set (pool_destroyed p @ deleted p) \<inter> out = {}
    \<and> (pool_init p \<longrightarrow> pool_destroyed p = avail p)"
proof -
  let ?p = "new_pool f d osize init_num mem rz ni blocks"
  have inv: "pool_inv ?p (?p, {})" by (rule new_pool_inv [OF assms(1-4)])
  from pool_system.run_refines [OF inv assms(5)] obtain rs p out where
    r: "run_ops pool_step (?p, {}) ops = Inr (rs, p, out)" "pool_inv ?p (p, out)" by auto
  show ?thesis
  proof (cases "pool_init p")
    case False
    with r show ?thesis by (auto simp: pool_inv_def pool_fresh_def pool_destroyed_def)
  next
    case True
    with r(2) have sh: "pool_shape p" "pool_array p" and ap: "apart p out"
      by (auto simp: pool_inv_def pool_ready_def)
    have row: "delete_block p i (num_objs_per_block p) = row_list p i" if "i < current_row p" for i
      using row_list_ok [of p i] sh that
      by (auto simp: delete_block_def rows_of_def pool_shape_def split: option.splits)
    have "delete_block p (current_row p) (current_col p)
        = take (current_col p) (row_list p (current_row p))"
      by (simp add: delete_block_def rows_of_def split: option.splits)
    moreover have "current_row p = num_blocks_alloc p \<Longrightarrow> current_col p = 0"
      using sh(1) by (simp add: pool_shape_def)
    ultimately have "pool_destroyed p = avail p"
      using sh(2) row by (auto simp: pool_destroyed_def avail_def intro!: arg_cong [where f = concat])
    with r(1) ap show ?thesis by (auto simp: apart_def)
  qed
qed

theorem pool_destructor_witness:
  "\<exists>rs p out. run_ops pool_step (new_pool keep_default (0::nat) 1 2 2 True True 4, {}) [PGet]
      = Inr (rs, p, out) \<and> set (pool_destroyed p @ deleted p) \<inter> out = {}"
proof -
  let ?p = "new_pool keep_default (0::nat) 1 2 2 True True 4"
  have "legal_ops pool_step pool_pre (?p, {}) [PGet]" by code_simp
  from pool_destructor [OF _ _ _ _ this] show ?thesis by fastforce
qed

section \<open>NumObjsLeft\<close>

text \<open>
  \<open>NumObjsLeft\<close> is the number of pooled objects exactly when no block is full or there
  are as many blocks as objects in a block: it multiplies the full rows by the number of blocks.
\<close>

theorem NumObjsLeft_right_iff:
  assumes "pool_shape p"
  shows "NumObjsLeft p = length (avail p)
    \<longleftrightarrow> current_row p = 0 \<or> num_blocks_alloc p = num_objs_per_block p"
  using avail_length [OF assms] by (auto simp: NumObjsLeft_def)

theorem NumObjsLeft_right_iff_witness:
  "\<exists>p. pool_Init (new_pool keep_default (0::nat) 1 2 2 True True 4) = Inr (True, p)
    \<and> NumObjsLeft p \<noteq> length (avail p)"
proof -
  let ?p = "new_pool keep_default (0::nat) 1 2 2 True True 4"
  have "pool_fresh ?p" "pool_config ?p" by (simp_all add: pool_fresh_def pool_config_def new_pool_def)
  from Init_full [OF this] obtain p where p: "pool_Init ?p = Inr (True, p)" "pool_full p"
    "same_pool ?p p" "init_num_objs ?p \<le> length (objs p)" by blast
  have sh: "pool_shape p" "num_objs_per_block p = 2" "max_num_blocks p = 4"
    using p(2,3) by (simp_all add: pool_full_def same_pool_def new_pool_def)
  have "map_sum id (\<lambda>(ok, p). num_blocks_alloc p) (pool_Init ?p) = Inr 1" by code_simp
  then have "num_blocks_alloc p = 1" using p(1) by simp
  moreover from this have "current_row p = 1" using p(2) by (simp add: pool_full_def)
  ultimately show ?thesis using NumObjsLeft_right_iff [OF sh(1)] p(1) sh(2) by auto
qed

text \<open>
  so a pool that may not grow does not keep to its initial number of objects. With two
  objects in a block and two initial objects, three objects that are all freed stay in the
  pool; with one object in a block and four initial objects, the second of four that are freed
  is deleted although the pool holds one. A fresh pool of two objects reports one as allocated.
\<close>

theorem pool_cap_wrong:
  "map_sum id (\<lambda>(rs, p, out). (length (avail p), deleted p))
      (run_ops pool_step (new_pool keep_default (0::nat) 1 2 2 False True 4, {})
        [PGet, PGet, PGet, PFree 0, PFree 1, PFree 2]) = Inr (3, [])
   \<and> map_sum id (\<lambda>(rs, p, out). (length (avail p), deleted p))
      (run_ops pool_step (new_pool keep_default (0::nat) 1 4 1 False True 4, {})
        [PGet, PGet, PGet, PGet, PFree 0, PFree 1]) = Inr (1, [1])
   \<and> map_sum id (\<lambda>(ok, p). NumObjsAlloc p) (pool_Init (new_pool keep_default (0::nat) 1 2 2 False True 4))
      = Inr 1"
proof (intro conjI)
  show "map_sum id (\<lambda>(rs, p, out). (length (avail p), deleted p))
      (run_ops pool_step (new_pool keep_default (0::nat) 1 2 2 False True 4, {})
        [PGet, PGet, PGet, PFree 0, PFree 1, PFree 2]) = Inr (3, [])"
    by code_simp
  show "map_sum id (\<lambda>(rs, p, out). (length (avail p), deleted p))
      (run_ops pool_step (new_pool keep_default (0::nat) 1 4 1 False True 4, {})
        [PGet, PGet, PGet, PGet, PFree 0, PFree 1]) = Inr (1, [1])"
    by code_simp
  show "map_sum id (\<lambda>(ok, p). NumObjsAlloc p)
      (pool_Init (new_pool keep_default (0::nat) 1 2 2 False True 4)) = Inr 1"
    by code_simp
qed

end
