(* ===== verification/Delay_Del_Ptr.thy ===== *)
theory Delay_Del_Ptr
  imports Prelude
begin

text \<open>
  The class template \<open>DelayDelPtr\<close> of \<^verbatim>\<open>src/delay_del_ptr.hpp\<close>: a pointer that is replaced
  now and then while readers may still use the objects it pointed to before. Every replacement
  counts a version up; the objects of earlier versions stay reachable by their version and are
  deleted by the first replacement that comes later than the delay after they were replaced.

  Objects are natural numbers, \<open>deleted_objs\<close> logs the deletions and the clock is an argument.
  The \<open>unordered_map\<close> is a list of entries in the order of insertion; its order of iteration
  only decides the order of the deletions. Versions are natural numbers, and \<open>size_t(-1)\<close>, the
  default argument of \<open>Get\<close>, is $2^{64}-1$, which no version reaches.
\<close>

section \<open>The class\<close>

record delay_del_ptr =
  delay_del_time :: int
  to_delete :: bool
  cur_obj :: "nat option"
  cur_version :: nat
  delay_map :: "(nat \<times> nat \<times> int) list"
  deleted_objs :: "nat list"

definition new_delay_ptr :: "nat option \<Rightarrow> bool \<Rightarrow> int \<Rightarrow> delay_del_ptr" where
  "new_delay_ptr obj del delay =
     \<lparr>delay_del_time = delay, to_delete = del, cur_obj = obj, cur_version = 0, delay_map = [],
      deleted_objs = []\<rparr>"

text \<open>The first loop of \<open>Change\<close>: the versions to erase and the objects it deletes.\<close>

fun collect_expired ::
  "int \<Rightarrow> int \<Rightarrow> bool \<Rightarrow> (nat \<times> nat \<times> int) list \<Rightarrow> nat list \<times> nat list" where
  "collect_expired now delay del [] = ([], [])"
| "collect_expired now delay del ((ver, obj, t) # es) =
     (let (vs, os) = collect_expired now delay del es; time_passed = now - t in
      if delay < time_passed then (ver # vs, if del then obj # os else os) else (vs, os))"

definition map_erase :: "nat \<Rightarrow> (nat \<times> nat \<times> int) list \<Rightarrow> (nat \<times> nat \<times> int) list" where
  "map_erase ver es = filter (\<lambda>e. fst e \<noteq> ver) es"

fun erase_versions ::
  "nat list \<Rightarrow> (nat \<times> nat \<times> int) list \<Rightarrow> (nat \<times> nat \<times> int) list" where
  "erase_versions [] es = es"
| "erase_versions (v # vs) es = erase_versions vs (map_erase v es)"

text \<open>\<open>insert\<close> of \<open>unordered_map\<close> leaves an entry that is there.\<close>

definition map_insert ::
  "nat \<Rightarrow> nat \<times> int \<Rightarrow> (nat \<times> nat \<times> int) list \<Rightarrow> (nat \<times> nat \<times> int) list" where
  "map_insert ver x es = (if ver \<in> fst ` set es then es else es @ [(ver, x)])"

definition ptr_Change :: "nat \<Rightarrow> int \<Rightarrow> delay_del_ptr \<Rightarrow> delay_del_ptr" where
  "ptr_Change obj current_time d =
     (let d1 = (if delay_map d \<noteq> [] then
           let (vs, os) = collect_expired current_time (delay_del_time d) (to_delete d) (delay_map d)
           in d\<lparr>deleted_objs := deleted_objs d @ os, delay_map := erase_versions vs (delay_map d)\<rparr>
         else d)
      in case cur_obj d1 of
           Some old \<Rightarrow>
             d1\<lparr>delay_map := map_insert (cur_version d1) (old, current_time) (delay_map d1),
                cur_obj := Some obj, cur_version := cur_version d1 + 1\<rparr>
         | None \<Rightarrow> d1\<lparr>cur_obj := Some obj\<rparr>)"

definition latest_version :: nat where
  "latest_version = 2 ^ 64 - 1"

text \<open>The part of \<open>Get\<close> under the lock, and the whole of it.\<close>

definition map_find :: "nat \<Rightarrow> (nat \<times> nat \<times> int) list \<Rightarrow> nat option" where
  "map_find ver es = map_option fst (map_of es ver)"

definition ptr_Get :: "nat \<Rightarrow> delay_del_ptr \<Rightarrow> nat option" where
  "ptr_Get ver d =
     (if cur_version d = ver \<or> latest_version = ver then cur_obj d
      else map_find ver (delay_map d))"

definition ptr_destroy :: "delay_del_ptr \<Rightarrow> delay_del_ptr" where
  "ptr_destroy d =
     d\<lparr>deleted_objs := deleted_objs d
         @ (if to_delete d then map (\<lambda>e. fst (snd e)) (delay_map d) @ (case cur_obj d of None \<Rightarrow> [] | Some x \<Rightarrow> [x])
            else []),
       delay_map := [], cur_obj := (if to_delete d then None else cur_obj d)\<rparr>"

text \<open>The accessors; the operators \<open>*\<close> and \<open>->\<close> give the object.\<close>

definition ptr_GetLatestVersion :: "delay_del_ptr \<Rightarrow> nat" where
  "ptr_GetLatestVersion d = cur_version d"

definition ptr_IsNull :: "delay_del_ptr \<Rightarrow> bool" where
  "ptr_IsNull d \<longleftrightarrow> None = cur_obj d"

definition ptr_Deref :: "delay_del_ptr \<Rightarrow> nat result" where
  "ptr_Deref d = (case cur_obj d of None \<Rightarrow> Inl Null_Deref | Some x \<Rightarrow> Inr x)"

lemma ptr_latest: "ptr_Get (ptr_GetLatestVersion d) d = cur_obj d" "ptr_IsNull d \<longleftrightarrow> ptr_Deref d = Inl Null_Deref"
  by (simp_all add: ptr_Get_def ptr_GetLatestVersion_def ptr_IsNull_def ptr_Deref_def split: option.split)

section \<open>A history of replacements\<close>

fun changes :: "(nat \<times> int) list \<Rightarrow> delay_del_ptr \<Rightarrow> delay_del_ptr" where
  "changes [] d = d"
| "changes ((obj, now) # cs) d = changes cs (ptr_Change obj now d)"

lemma changes_snoc: "changes (cs @ [(obj, now)]) d = ptr_Change obj now (changes cs d)"
  by (induction cs arbitrary: d) auto

lemma collect_expired_filter:
  "collect_expired now delay del es =
    (map fst (filter (\<lambda>(v, x, t). delay < now - t) es),
     if del then map (\<lambda>e. fst (snd e)) (filter (\<lambda>(v, x, t). delay < now - t) es) else [])"
  by (induction now delay del es rule: collect_expired.induct) auto

lemma erase_versions_filter: "erase_versions vs es = filter (\<lambda>e. fst e \<notin> set vs) es"
  by (induction vs arbitrary: es) (auto simp: map_erase_def intro!: filter_cong)

text \<open>
  What the map holds after a history whose last replacement was at time \<open>now\<close>: the object of
  version \<open>v\<close> with the time it was replaced, for the versions not expired. \<open>hist\<close> lists the
  objects of versions 0, 1, ... with the times they became current.
\<close>

definition kept :: "int \<Rightarrow> (nat \<times> int) list \<Rightarrow> int \<Rightarrow> nat list" where
  "kept delay hist now = filter (\<lambda>v. now - snd (hist ! Suc v) \<le> delay) [0 ..< length hist - 1]"

definition entry :: "(nat \<times> int) list \<Rightarrow> nat \<Rightarrow> nat \<times> nat \<times> int" where
  "entry hist v = (v, fst (hist ! v), snd (hist ! Suc v))"

lemma erase_expired:
  assumes "distinct (map fst es)"
  shows "erase_versions (map fst (filter (\<lambda>(v, x, t). delay < now - t) es)) es
    = filter (\<lambda>(v, x, t). now - t \<le> delay) es"
  unfolding erase_versions_filter
proof (intro filter_cong refl)
  fix e assume e: "e \<in> set es"
  obtain v x t where evt: "e = (v, x, t)" by (cases e)
  have uniq: "e' = e" if "e' \<in> set es" "fst e' = v" for e'
    using assms e evt that by (metis eq_key_imp_eq_value fst_conv surjective_pairing)
  let ?P = "\<lambda>(v, x, t). delay < now - t"
  have "fst e \<in> set (map fst (filter ?P es)) \<longleftrightarrow> ?P e"
  proof
    assume "fst e \<in> set (map fst (filter ?P es))"
    then obtain e' where e': "e' \<in> set es" "?P e'" "fst e' = fst e" by auto
    with uniq [of e'] evt have "e' = e" by simp
    with e'(2) show "?P e" by simp
  next
    assume "?P e"
    with e show "fst e \<in> set (map fst (filter ?P es))" by auto
  qed
  then show "(fst e \<notin> set (map fst (filter ?P es))) = (case e of (v, x, t) \<Rightarrow> now - t \<le> delay)"
    unfolding evt by (simp add: not_less)
qed

text \<open>\<open>dead\<close> are the versions whose objects have been deleted, in some order.\<close>

definition ptr_inv :: "int \<Rightarrow> bool \<Rightarrow> (nat \<times> int) list \<Rightarrow> delay_del_ptr \<Rightarrow> bool" where
  "ptr_inv delay del hist d \<longleftrightarrow>
     delay_del_time d = delay \<and> to_delete d = del \<and> hist \<noteq> []
     \<and> cur_obj d = Some (fst (last hist)) \<and> cur_version d = length hist - 1
     \<and> delay_map d = map (entry hist) (kept delay hist (snd (last hist)))
     \<and> mset (deleted_objs d) = (if del then mset (map (\<lambda>v. fst (hist ! v))
          (filter (\<lambda>v. \<not> snd (last hist) - snd (hist ! Suc v) \<le> delay) [0 ..< length hist - 1])) else {#})"

lemma entry_append: "Suc v < length hist \<Longrightarrow> entry (hist @ [c]) v = entry hist v"
  by (simp add: entry_def nth_append)

lemma kept_bound: "v \<in> set (kept delay hist now) \<Longrightarrow> Suc v < length hist"
  by (auto simp: kept_def)

text \<open>One replacement more: first some of the entries expire, then one is added.\<close>

lemma Change_inv:
  assumes inv: "ptr_inv delay del hist d" and now: "snd (last hist) \<le> now" and delay: "0 \<le> delay"
  shows "ptr_inv delay del (hist @ [(obj, now)]) (ptr_Change obj now d)"
proof -
  let ?h = "hist @ [(obj, now)]" and ?t0 = "snd (last hist)" 
  let ?vs = "kept delay hist ?t0"
  let ?exp = "\<lambda>now v. \<not> now - snd (hist ! Suc v) \<le> delay"
  have ne: "hist \<noteq> []" using inv by (simp add: ptr_inv_def)
  then obtain m where n: "length hist = Suc m" by (cases hist) auto
  have es: "delay_map d = map (entry hist) ?vs" using inv by (simp add: ptr_inv_def)
  have dist: "distinct (map fst (delay_map d))"
    unfolding es by (simp add: o_def entry_def kept_def)
  obtain vs os where c: "collect_expired now delay del (delay_map d) = (vs, os)" by fastforce
  have os: "os = (if del then map (\<lambda>v. fst (hist ! v)) (filter (?exp now) ?vs) else [])"
    and vs: "erase_versions vs (delay_map d) = map (entry hist) (filter (\<lambda>v. \<not> ?exp now v) ?vs)"
    using c erase_expired [OF dist, of delay now] unfolding collect_expired_filter es
    by (auto simp: filter_map o_def entry_def not_le not_less case_prod_beta)
  have late: "?exp now v" if "?exp ?t0 v" for v using now that by simp
  have "filter (\<lambda>v. \<not> ?exp now v) ?vs = filter (\<lambda>v. \<not> ?exp now v) [0 ..< m]"
    using late n unfolding kept_def filter_filter by (intro filter_cong) auto
  moreover have "kept delay ?h now = filter (\<lambda>v. \<not> ?exp now v) [0 ..< m] @ [m]"
    using n delay by (simp add: kept_def nth_append, intro filter_cong, auto)
  moreover have "entry ?h m = (m, fst (last hist), now)"
    using ne n by (simp add: entry_def nth_append last_conv_nth)
  moreover have "map (entry ?h) (filter (\<lambda>v. \<not> ?exp now v) [0 ..< m])
      = map (entry hist) (filter (\<lambda>v. \<not> ?exp now v) [0 ..< m])"
    using n by (intro map_cong) (auto simp: entry_append)
  moreover have "m \<notin> fst ` set (map (entry hist) (filter (\<lambda>v. \<not> ?exp now v) [0 ..< m]))"
    by (auto simp: entry_def)
  ultimately have m: "map_insert m (fst (last hist), now) (erase_versions vs (delay_map d))
      = map (entry ?h) (kept delay ?h now)"
    unfolding vs by (simp add: map_insert_def)
  have del: "mset (map (\<lambda>v. fst (hist ! v)) (filter (?exp now) [0 ..< m]))
      = mset (map (\<lambda>v. fst (hist ! v)) (filter (?exp ?t0) [0 ..< m]))
        + mset (map (\<lambda>v. fst (hist ! v)) (filter (?exp now) ?vs))"
  proof -
    have "mset (filter (?exp now) [0 ..< m])
        = mset (filter (?exp ?t0) [0 ..< m]) + mset (filter (?exp now) ?vs)"
      unfolding kept_def filter_filter mset_filter
      using late n by (subst multiset_partition [of _ "?exp ?t0"])
        (auto simp: filter_filter_mset intro!: arg_cong2 [where f = "(+)"] filter_mset_cong)
    then show ?thesis by (simp flip: image_mset_union)
  qed
  have "map (\<lambda>v. fst (?h ! v)) (filter (\<lambda>v. \<not> now - snd (?h ! Suc v) \<le> delay) [0 ..< Suc m])
      = map (\<lambda>v. fst (hist ! v)) (filter (?exp now) [0 ..< m])"
    using n delay by (auto simp: nth_append intro!: map_cong filter_cong)
  then have "ptr_inv delay del ?h ((d\<lparr>deleted_objs := deleted_objs d @ os,
      delay_map := map (entry ?h) (kept delay ?h now), cur_obj := Some obj, cur_version := m + 1\<rparr>))"
    using inv n os del by (simp add: ptr_inv_def)
  moreover have "ptr_Change obj now d = d\<lparr>deleted_objs := deleted_objs d @ os,
      delay_map := map (entry ?h) (kept delay ?h now), cur_obj := Some obj, cur_version := m + 1\<rparr>"
    using inv c m n by (cases "delay_map d") (auto simp: ptr_Change_def ptr_inv_def Let_def)
  ultimately show ?thesis by simp
qed

lemma first_change:
  assumes "cur_obj d = None" and "delay_map d = []" and "deleted_objs d = []" and "cur_version d = 0"
  shows "ptr_inv (delay_del_time d) (to_delete d) [(obj, now)] (ptr_Change obj now d)"
  using assms by (simp add: ptr_inv_def ptr_Change_def kept_def)

lemma changes_inv:
  assumes "0 \<le> delay" and "sorted (map snd (c # cs))"
  shows "ptr_inv delay del (c # cs) (changes (c # cs) (new_delay_ptr None del delay))"
  using assms(2)
proof (induction cs rule: rev_induct)
  case Nil
  obtain obj now where c: "c = (obj, now)" by (cases c)
  then show ?case
    using first_change [of "new_delay_ptr None del delay" obj now] by (simp add: new_delay_ptr_def)
next
  case (snoc c' cs)
  obtain obj now where c': "c' = (obj, now)" by (cases c')
  have "sorted (map snd (c # cs))" and "snd (last (c # cs)) \<le> now"
    using snoc.prems unfolding c' by (auto simp: sorted_append)
  from Change_inv [OF snoc.IH [OF this(1)] this(2) assms(1), of obj] show ?case
    unfolding c' by (simp flip: changes_snoc append_Cons)
qed

text \<open>Looking a version up in the map.\<close>

lemma map_find_entry:
  "map_find v (map (entry hist) vs) = (if v \<in> set vs then Some (fst (hist ! v)) else None)"
  by (induction vs) (auto simp: map_find_def entry_def)

lemma ptr_Get_inv:
  assumes inv: "ptr_inv delay del hist d" and ver: "length hist \<le> latest_version"
  shows "ptr_Get v d =
    (if v = length hist - 1 \<or> v = latest_version then Some (fst (last hist))
     else if v < length hist - 1 \<and> snd (last hist) - snd (hist ! Suc v) \<le> delay
       then Some (fst (hist ! v)) else None)"
  using inv by (auto simp: ptr_Get_def ptr_inv_def map_find_entry kept_def)

text \<open>
  C18: after replacements at times that do not go back, the pointer is the object given last,
  the version is the number of replacements after the first, and an earlier version finds its
  object as long as the last replacement was no later than the delay after the object was
  replaced. The objects deleted are those of the other versions, each once.
\<close>

theorem delayed_versions:
  assumes "0 \<le> delay" and "sorted (map snd hist)" and "hist \<noteq> []" and "length hist \<le> latest_version"
    and "d = changes hist (new_delay_ptr None del delay)"
  shows "(\<forall>v. ptr_Get v d =
      (if v = length hist - 1 \<or> v = latest_version then Some (fst (last hist))
       else if v < length hist - 1 \<and> snd (last hist) - snd (hist ! Suc v) \<le> delay
         then Some (fst (hist ! v)) else None))
    \<and> mset (deleted_objs d) = (if del then mset (map (\<lambda>v. fst (hist ! v))
        (filter (\<lambda>v. ptr_Get v d = None) [0 ..< length hist - 1])) else {#})"
proof -
  obtain c cs where c: "hist = c # cs" using assms(3) by (cases hist) auto
  have inv: "ptr_inv delay del hist d"
    using changes_inv [of delay c cs del] assms(1,2,5) unfolding c by simp
  note get = ptr_Get_inv [OF inv assms(4)]
  have "length hist - 1 < latest_version"
    using assms(4) c by simp
  then have "filter (\<lambda>v. ptr_Get v d = None) [0 ..< length hist - 1]
      = filter (\<lambda>v. \<not> snd (last hist) - snd (hist ! Suc v) \<le> delay) [0 ..< length hist - 1]"
    by (intro filter_cong refl) (simp add: get)
  with inv get show ?thesis by (simp add: ptr_inv_def)
qed

theorem delayed_versions_witness:
  "ptr_Get 0 (changes [(10, 0), (11, 5), (12, 60)] (new_delay_ptr None True 60)) = Some 10"
proof -
  let ?h = "[(10, 0), (11, 5), (12, 60)]"
  have "3 \<le> latest_version" "0 \<noteq> latest_version" by (simp_all add: latest_version_def)
  with delayed_versions [of 60 ?h _ True, THEN conjunct1, THEN spec, OF _ _ _ _ refl, of 0]
  show ?thesis by simp
qed

text \<open>
  with \<open>to_delete\<close> every object that was ever current is deleted exactly once by the time
  the pointer is destroyed; without it none is.
\<close>

theorem all_deleted_at_end:
  assumes "0 \<le> delay" and "sorted (map snd hist)"
  shows "mset (deleted_objs (ptr_destroy (changes hist (new_delay_ptr None del delay))))
    = (if del then mset (map fst hist) else {#})"
proof (cases hist)
  case Nil
  then show ?thesis by (simp add: new_delay_ptr_def ptr_destroy_def)
next
  case (Cons c cs)
  let ?d = "changes hist (new_delay_ptr None del delay)" and ?n = "length hist - 1"
  let ?exp = "\<lambda>v. \<not> snd (last hist) - snd (hist ! Suc v) \<le> delay"
  have inv: "ptr_inv delay del hist ?d"
    using changes_inv [of delay c cs del] assms unfolding Cons by simp
  have "mset (filter ?exp [0 ..< ?n]) + mset (filter (\<lambda>v. \<not> ?exp v) [0 ..< ?n]) = mset [0 ..< ?n]"
    unfolding mset_filter by (rule multiset_partition [symmetric])
  then have "image_mset (\<lambda>v. fst (hist ! v)) (mset (filter ?exp [0 ..< ?n]))
      + image_mset (\<lambda>v. fst (hist ! v)) (mset (filter (\<lambda>v. \<not> ?exp v) [0 ..< ?n]))
      = image_mset (\<lambda>v. fst (hist ! v)) (mset [0 ..< ?n])"
    by (metis image_mset_union)
  moreover have "map fst hist = map (\<lambda>v. fst (hist ! v)) [0 ..< ?n] @ [fst (last hist)]"
  proof -
    have "map fst hist = map (\<lambda>v. fst (hist ! v)) [0 ..< length hist]"
      by (intro nth_equalityI) auto
    moreover have "[0 ..< length hist] = [0 ..< ?n] @ [?n]" "last hist = hist ! ?n"
      unfolding Cons by (simp_all add: last_conv_nth)
    ultimately show ?thesis by simp
  qed
  moreover have "map (\<lambda>e. fst (snd e)) (delay_map ?d)
      = map (\<lambda>v. fst (hist ! v)) (filter (\<lambda>v. \<not> ?exp v) [0 ..< ?n])"
    using inv by (simp add: ptr_inv_def entry_def kept_def o_def)
  then have "mset (map (\<lambda>e. fst (snd e)) (delay_map ?d))
      = image_mset (\<lambda>v. fst (hist ! v)) (mset (filter (\<lambda>v. \<not> ?exp v) [0 ..< ?n]))"
    by (simp only: mset_map)
  moreover have "mset (deleted_objs ?d)
      = (if del then image_mset (\<lambda>v. fst (hist ! v)) (mset (filter ?exp [0 ..< ?n])) else {#})"
    using inv by (simp only: ptr_inv_def mset_map)
  moreover have "mset (deleted_objs (ptr_destroy ?d)) = (if del
      then mset (deleted_objs ?d) + mset (map (\<lambda>e. fst (snd e)) (delay_map ?d)) + {#fst (last hist)#}
      else mset (deleted_objs ?d))"
    using inv by (auto simp: ptr_inv_def ptr_destroy_def)
  ultimately show ?thesis by (simp only: mset_map mset_append mset.simps if_True if_False)
      (simp split: if_splits)
qed

theorem all_deleted_at_end_witness:
  "mset (deleted_objs (ptr_destroy (changes [(10, 0), (11, 90), (12, 200)] (new_delay_ptr None True 60))))
    = {#10, 11, 12#}"
  using all_deleted_at_end [of 60 "[(10, 0), (11, 90), (12, 200)]" True] by simp

end
