(* ===== verification/Delay_Race.thy ===== *)
theory Delay_Race
  imports Delay_Del_Ptr
begin

text \<open>
  Calls of \<open>Change\<close> and \<open>Get\<close> of \<open>DelayDelPtr\<close> that overlap, in any number of threads.
  \<open>Change\<close> reads the clock before it takes the lock of the map and works on the map while it holds
  it, but \<open>Get\<close> reads \<open>version_\<close> and \<open>obj_\<close> without the lock, one after the other. The steps are
  the reads and writes that another thread can come between; the processor runs them in the order of
  the program, and the lock can always be initialised.
\<close>

section \<open>The parts of Change\<close>

definition expire_objs :: "int \<Rightarrow> delay_del_ptr \<Rightarrow> delay_del_ptr" where
  "expire_objs current_time d =
     (if delay_map d \<noteq> [] then
        let (vs, os) = collect_expired current_time (delay_del_time d) (to_delete d) (delay_map d)
        in d\<lparr>deleted_objs := deleted_objs d @ os, delay_map := erase_versions vs (delay_map d)\<rparr>
      else d)"

definition replace_obj :: "nat \<Rightarrow> nat \<Rightarrow> int \<Rightarrow> delay_del_ptr \<Rightarrow> delay_del_ptr" where
  "replace_obj old obj current_time d =
     d\<lparr>delay_map := map_insert (cur_version d) (old, current_time) (delay_map d), cur_obj := Some obj\<rparr>"

definition count_version :: "delay_del_ptr \<Rightarrow> delay_del_ptr" where
  "count_version d = d\<lparr>cur_version := cur_version d + 1\<rparr>"

text \<open>One after the other they are the call that nothing comes between.\<close>

lemma Change_parts:
  "ptr_Change obj now d =
     (let d1 = expire_objs now d in
      case cur_obj d1 of
        Some old \<Rightarrow> count_version (replace_obj old obj now d1)
      | None \<Rightarrow> d1\<lparr>cur_obj := Some obj\<rparr>)"
  by (simp add: ptr_Change_def expire_objs_def replace_obj_def count_version_def Let_def split: option.split prod.split)

section \<open>Threads\<close>

text \<open>Where a thread stands in \<open>Change\<close>, with its arguments and the time it has read, and in \<open>Get\<close>.\<close>

datatype changer = Not_Changing | Has_Time nat int | Holds_Lock nat int | Has_Stored | To_Unlock
datatype getter = Not_Getting | Reads_Version nat | Reads_Object nat | Searches nat | Got nat "nat option"

text \<open>
  \<open>map_lock\<close> is the thread that holds \<open>lock_map_\<close> in \<open>Change\<close>; \<open>Get\<close> takes and gives it back in
  one step. \<open>stored\<close> and \<open>replaced_at\<close> only record what happens: the objects of versions 0, 1, ...
  and, for every version that was replaced, the time that its \<open>Change\<close> had read.
\<close>

record ptr_race =
  the_ptr :: delay_del_ptr
  map_lock :: "nat option"
  changers :: "nat \<Rightarrow> changer"
  getters :: "nat \<Rightarrow> getter"
  wall_clock :: int
  stored :: "nat list"
  replaced_at :: "int list"

definition race_start :: "nat option \<Rightarrow> bool \<Rightarrow> int \<Rightarrow> int \<Rightarrow> ptr_race" where
  "race_start obj del delay now =
     \<lparr>the_ptr = new_delay_ptr obj del delay, map_lock = None, changers = (\<lambda>_. Not_Changing),
      getters = (\<lambda>_. Not_Getting), wall_clock = now,
      stored = (case obj of None \<Rightarrow> [] | Some x \<Rightarrow> [x]), replaced_at = []\<rparr>"

definition change_call :: "nat \<Rightarrow> nat \<Rightarrow> ptr_race \<Rightarrow> ptr_race" where
  "change_call i obj s = s\<lparr>changers := (changers s)(i := Has_Time obj (wall_clock s))\<rparr>"

definition change_lock :: "nat \<Rightarrow> nat \<Rightarrow> int \<Rightarrow> ptr_race \<Rightarrow> ptr_race" where
  "change_lock i obj t s =
     s\<lparr>map_lock := Some i, changers := (changers s)(i := Holds_Lock obj t), the_ptr := expire_objs t (the_ptr s)\<rparr>"

definition change_replace :: "nat \<Rightarrow> nat \<Rightarrow> nat \<Rightarrow> int \<Rightarrow> ptr_race \<Rightarrow> ptr_race" where
  "change_replace i old obj t s =
     s\<lparr>changers := (changers s)(i := Has_Stored), the_ptr := replace_obj old obj t (the_ptr s),
       stored := stored s @ [obj], replaced_at := replaced_at s @ [t]\<rparr>"

definition change_count :: "nat \<Rightarrow> ptr_race \<Rightarrow> ptr_race" where
  "change_count i s = s\<lparr>changers := (changers s)(i := To_Unlock), the_ptr := count_version (the_ptr s)\<rparr>"

definition change_first :: "nat \<Rightarrow> nat \<Rightarrow> ptr_race \<Rightarrow> ptr_race" where
  "change_first i obj s =
     s\<lparr>changers := (changers s)(i := To_Unlock), the_ptr := (the_ptr s)\<lparr>cur_obj := Some obj\<rparr>, stored := stored s @ [obj]\<rparr>"

definition change_unlock :: "nat \<Rightarrow> ptr_race \<Rightarrow> ptr_race" where
  "change_unlock i s = s\<lparr>map_lock := None, changers := (changers s)(i := Not_Changing)\<rparr>"

definition get_call :: "nat \<Rightarrow> nat \<Rightarrow> ptr_race \<Rightarrow> ptr_race" where
  "get_call j v s = s\<lparr>getters := (getters s)(j := Reads_Version v)\<rparr>"

definition get_version :: "nat \<Rightarrow> nat \<Rightarrow> ptr_race \<Rightarrow> ptr_race" where
  "get_version j v s =
     s\<lparr>getters := (getters s)(j := if cur_version (the_ptr s) = v \<or> latest_version = v then Reads_Object v else Searches v)\<rparr>"

definition get_object :: "nat \<Rightarrow> nat \<Rightarrow> ptr_race \<Rightarrow> ptr_race" where
  "get_object j v s = s\<lparr>getters := (getters s)(j := Got v (cur_obj (the_ptr s)))\<rparr>"

definition get_search :: "nat \<Rightarrow> nat \<Rightarrow> ptr_race \<Rightarrow> ptr_race" where
  "get_search j v s = s\<lparr>getters := (getters s)(j := Got v (map_find v (delay_map (the_ptr s))))\<rparr>"

section \<open>Steps\<close>

inductive race_step :: "ptr_race \<Rightarrow> ptr_race \<Rightarrow> bool" where
  time_passes: "wall_clock s \<le> t \<Longrightarrow> race_step s (s\<lparr>wall_clock := t\<rparr>)"
| calls_change: "changers s i = Not_Changing \<Longrightarrow> race_step s (change_call i obj s)"
| takes_lock: "changers s i = Has_Time obj t \<Longrightarrow> map_lock s = None \<Longrightarrow> race_step s (change_lock i obj t s)"
| replaces: "changers s i = Holds_Lock obj t \<Longrightarrow> cur_obj (the_ptr s) = Some old \<Longrightarrow> race_step s (change_replace i old obj t s)"
| counts: "changers s i = Has_Stored \<Longrightarrow> race_step s (change_count i s)"
| stores_first: "changers s i = Holds_Lock obj t \<Longrightarrow> cur_obj (the_ptr s) = None \<Longrightarrow> race_step s (change_first i obj s)"
| gives_lock: "changers s i = To_Unlock \<Longrightarrow> race_step s (change_unlock i s)"
| calls_get: "getters s j = Not_Getting \<Longrightarrow> race_step s (get_call j v s)"
| calls_again: "getters s j = Got v' r \<Longrightarrow> race_step s (get_call j v s)"
| reads_version: "getters s j = Reads_Version v \<Longrightarrow> race_step s (get_version j v s)"
| reads_object: "getters s j = Reads_Object v \<Longrightarrow> race_step s (get_object j v s)"
| searches: "getters s j = Searches v \<Longrightarrow> map_lock s = None \<Longrightarrow> race_step s (get_search j v s)"

lemmas race_acts = change_call_def change_lock_def change_replace_def change_count_def change_first_def change_unlock_def
  get_call_def get_version_def get_object_def get_search_def

abbreviation race_reach :: "ptr_race \<Rightarrow> ptr_race \<Rightarrow> bool" where
  "race_reach \<equiv> race_step\<^sup>*\<^sup>*"

section \<open>Invariants\<close>



definition time_ok :: "int \<Rightarrow> changer \<Rightarrow> bool" where
  "time_ok now c \<longleftrightarrow> (\<forall>obj t. c = Has_Time obj t \<or> c = Holds_Lock obj t \<longrightarrow> t \<le> now)"

definition getter_ok :: "nat \<Rightarrow> nat list \<Rightarrow> getter \<Rightarrow> bool" where
  "getter_ok version xs g \<longleftrightarrow>
     (\<forall>v. g = Reads_Object v \<longrightarrow> v = latest_version \<or> v \<le> version)
     \<and> (\<forall>v x. g = Got v (Some x) \<longrightarrow> (\<exists>w < length xs. x = xs ! w \<and> (v = latest_version \<or> v \<le> w)))"



section \<open>The pointer\<close>









section \<open>The threads\<close>




lemma time_ok_simps [simp]: "time_ok now Not_Changing" "time_ok now (Has_Time obj t) \<longleftrightarrow> t \<le> now"
  "time_ok now (Holds_Lock obj t) \<longleftrightarrow> t \<le> now" "time_ok now Has_Stored" "time_ok now To_Unlock"
  by (auto simp: time_ok_def)

lemma getter_ok_simps [simp]: "getter_ok ver xs Not_Getting" "getter_ok ver xs (Reads_Version v)" "getter_ok ver xs (Searches v)"
  "getter_ok ver xs (Reads_Object v) \<longleftrightarrow> v = latest_version \<or> v \<le> ver" "getter_ok ver xs (Got v None)"
  "getter_ok ver xs (Got v (Some x)) \<longleftrightarrow> (\<exists>w < length xs. x = xs ! w \<and> (v = latest_version \<or> v \<le> w))"
  by (auto simp: getter_ok_def)





lemma expire_fields [simp]: "cur_version (expire_objs t d) = cur_version d" "cur_obj (expire_objs t d) = cur_obj d"
  by (simp_all add: expire_objs_def split: prod.split)






section \<open>A run of two threads\<close>

text \<open>
  Thread 0 asks for version 0 and reads that it is the current one; thread 1 then replaces the object
  1 by the object 2; thread 0 reads the object. A minute later thread 1 replaces again, and thread 0
  asks for version 1.
\<close>

definition race_run1 :: ptr_race where
  "race_run1 = get_object 0 0 (change_replace 1 1 2 5 (change_lock 1 2 5 (change_call 1 2
     (get_version 0 0 (get_call 0 0 (race_start (Some 1) True 60 5))))))"

definition race_run2 :: ptr_race where
  "race_run2 = change_unlock 1 (change_count 1 race_run1)"


lemmas race_run_simps = race_acts race_start_def new_delay_ptr_def expire_objs_def replace_obj_def count_version_def
  map_insert_def map_find_def latest_version_def map_erase_def

lemma race_more: "race_reach s t \<Longrightarrow> race_step t u \<Longrightarrow> race_reach s u"
  by (rule rtranclp.rtrancl_into_rtrancl)

lemma race_run1: "race_reach (race_start (Some 1) True 60 5) race_run1"
  unfolding race_run1_def
  by (rule race_more [OF _ reads_object], rule race_more [OF _ replaces], rule race_more [OF _ takes_lock],
      rule race_more [OF _ calls_change], rule race_more [OF _ reads_version], rule race_more [OF _ calls_get], rule rtranclp.rtrancl_refl)
    (simp_all add: race_run_simps)

lemma race_run2: "race_reach (race_start (Some 1) True 60 5) race_run2"
  unfolding race_run2_def
  by (rule race_more [OF _ gives_lock], rule race_more [OF _ counts], rule race_run1) (simp_all add: race_run1_def race_run_simps)



section \<open>What overlapping calls get and delete\<close>





section \<open>Where readers and replacements collide\<close>

text \<open>
  A \<open>Get\<close> that has found its version current returns the object of the next one, when a replacement
  comes before it reads \<open>obj_\<close>; the same call made again returns the older object.
\<close>

lemma get_returns_newer_then_older:
  "\<exists>s t. race_reach (race_start (Some 1) True 60 5) s \<and> getters s 0 = Got 0 (Some 2) \<and> stored s = [1, 2]
    \<and> race_reach s t \<and> getters t 0 = Got 0 (Some 1)"
proof (intro exI conjI)
  show "race_reach race_run2 (get_search 0 0 (get_version 0 0 (get_call 0 0 race_run2)))"
    by (rule race_more [OF _ searches], rule race_more [OF _ reads_version], rule race_more [OF _ calls_again], rule rtranclp.rtrancl_refl)
      (simp_all add: race_run2_def race_run1_def race_run_simps)
qed (use race_run2 in \<open>simp_all add: race_run2_def race_run1_def race_run_simps\<close>)

text \<open>An object that replaces itself is deleted while it is the current one, and then again.\<close>

lemma same_object_deleted_twice:
  "deleted_objs (changes [(1, 0), (1, 61)] (new_delay_ptr (Some 1) True 60)) = [1]"
  "cur_obj (changes [(1, 0), (1, 61)] (new_delay_ptr (Some 1) True 60)) = Some 1"
  "deleted_objs (changes [(1, 0), (1, 61), (2, 122)] (new_delay_ptr (Some 1) True 60)) = [1, 1]"
  by (simp_all add: new_delay_ptr_def ptr_Change_def map_insert_def map_erase_def)

end
