(* ===== verification/C_Strings.thy ===== *)
theory C_Strings
  imports Prelude
begin

text \<open>
  The parts of the C library that the string code of the repository uses: null-terminated
  strings as lists of characters without the terminator, decimal numbers, \<open>strtoll\<close>,
  \<open>atoi\<close> and \<open>strchr\<close>. Used by \<open>Str_Helper\<close> and \<open>Io_Helper\<close>.
\<close>

definition c_str :: "string \<Rightarrow> string" where
  "c_str s = takeWhile (\<lambda>c. c \<noteq> CHR 0x00) s"

definition is_space :: "char \<Rightarrow> bool" where
  "is_space c \<longleftrightarrow> c = CHR 0x20 \<or> (9 \<le> (of_char c :: nat) \<and> (of_char c :: nat) \<le> 13)"

definition is_digit :: "char \<Rightarrow> bool" where
  "is_digit c \<longleftrightarrow> 48 \<le> (of_char c :: nat) \<and> (of_char c :: nat) \<le> 57"

definition digit_val :: "char \<Rightarrow> nat" where
  "digit_val c = of_char c - 48"

definition digit_char :: "nat \<Rightarrow> char" where
  "digit_char n = char_of (48 + n)"

fun dec_val :: "nat \<Rightarrow> string \<Rightarrow> nat" where
  "dec_val acc [] = acc"
| "dec_val acc (c # cs) = dec_val (10 * acc + digit_val c) cs"

fun nat_dec :: "nat \<Rightarrow> string" where
  "nat_dec n = (if n < 10 then [digit_char n] else nat_dec (n div 10) @ [digit_char (n mod 10)])"

declare nat_dec.simps [simp del]

definition int_dec :: "int \<Rightarrow> string" where
  "int_dec i = (if i < 0 then CHR ''-'' # nat_dec (nat (- i)) else nat_dec (nat i))"

text \<open>A sign and the rest.\<close>

fun split_sign :: "string \<Rightarrow> bool \<times> string" where
  "split_sign [] = (False, [])"
| "split_sign (c # cs) =
     (if c = CHR ''-'' then (True, cs) else if c = CHR ''+'' then (False, cs) else (False, c # cs))"

definition saturate64 :: "int \<Rightarrow> int" where
  "saturate64 i = (if i < - (2 ^ 63) then - (2 ^ 63) else if 2 ^ 63 - 1 < i then 2 ^ 63 - 1 else i)"

text \<open>
  \<open>strtoll(str, &endptr, 10)\<close>: the value, out of range the nearest one, and the string at
  \<open>endptr\<close>, which is the whole string when there is no number.
\<close>

definition strtoll :: "string \<Rightarrow> int \<times> string" where
  "strtoll s =
     (let (neg, s2) = split_sign (dropWhile is_space s);
          ds = takeWhile is_digit s2;
          n = int (dec_val 0 ds)
      in if ds = [] then (0, s)
         else (saturate64 (if neg then - n else n), dropWhile is_digit s2))"

text \<open>\<open>atoi\<close>: the conversion of \<open>strtol\<close>'s result to \<open>int\<close>.\<close>

definition atoi :: "string \<Rightarrow> int" where
  "atoi s = signed_take_bit 31 (fst (strtoll s))"

definition strchr :: "string \<Rightarrow> char \<Rightarrow> string option" where
  "strchr s c = (let r = dropWhile (\<lambda>x. x \<noteq> c) s in if r = [] then None else Some r)"

section \<open>Decimal numbers are read back\<close>

lemma digit_char_props:
  assumes "n < 10"
  shows "is_digit (digit_char n)" and "digit_val (digit_char n) = n"
    and "\<not> is_space (digit_char n)" and "digit_char n \<noteq> CHR ''-''" and "digit_char n \<noteq> CHR ''+''"
    and "digit_char n \<noteq> CHR ''.''" and "digit_char n \<noteq> CHR 0x00"
proof -
  have of: "(of_char (digit_char n) :: nat) = 48 + n"
    using assms by (simp add: digit_char_def of_char_of)
  have ne: "digit_char n \<noteq> c" if "(of_char c :: nat) < 48" for c using of that by auto
  show "is_digit (digit_char n)" "digit_val (digit_char n) = n" "\<not> is_space (digit_char n)"
    using of assms by (auto simp: is_digit_def digit_val_def is_space_def)
  show "digit_char n \<noteq> CHR ''-''" "digit_char n \<noteq> CHR ''+''" "digit_char n \<noteq> CHR ''.''"
    "digit_char n \<noteq> CHR 0x00"
    by (rule ne; simp)+
qed

lemma nat_dec_digits: "\<forall>c \<in> set (nat_dec n). \<exists>d < 10. c = digit_char d"
proof (induction n rule: nat_dec.induct)
  case (1 n)
  show ?case
  proof (cases "n < 10")
    case True
    then show ?thesis by (subst nat_dec.simps) auto
  next
    case False
    have "\<exists>d < 10. digit_char (n mod 10) = digit_char d"
      by (intro exI [of _ "n mod 10"]) simp
    with 1 False show ?thesis by (subst nat_dec.simps) auto
  qed
qed

lemma nat_dec_chars:
  assumes "c \<in> set (nat_dec n)"
  shows "is_digit c" and "\<not> is_space c" and "c \<noteq> CHR ''-''" and "c \<noteq> CHR ''+''" and "c \<noteq> CHR ''.''"
    and "c \<noteq> CHR 0x00"
proof -
  obtain d where "d < 10" "c = digit_char d" using nat_dec_digits [of n] assms by blast
  with digit_char_props [of d] show "is_digit c" "\<not> is_space c" "c \<noteq> CHR ''-''" "c \<noteq> CHR ''+''"
    "c \<noteq> CHR ''.''" "c \<noteq> CHR 0x00" by simp_all
qed

lemma nat_dec_Nil: "nat_dec n \<noteq> []"
  by (subst nat_dec.simps) simp

lemma dec_val_append: "dec_val acc (xs @ ys) = dec_val (dec_val acc xs) ys"
  by (induction xs arbitrary: acc) auto

lemma dec_val_nat_dec: "dec_val 0 (nat_dec n) = n"
proof (induction n rule: nat_dec.induct)
  case (1 n)
  show ?case
  proof (cases "n < 10")
    case True
    then show ?thesis by (subst nat_dec.simps) (simp add: digit_char_props)
  next
    case False
    with 1 show ?thesis by (subst nat_dec.simps) (simp add: dec_val_append digit_char_props)
  qed
qed

lemma split_sign_other: "s \<noteq> [] \<Longrightarrow> hd s \<noteq> CHR ''-'' \<Longrightarrow> hd s \<noteq> CHR ''+'' \<Longrightarrow> split_sign s = (False, s)"
  by (cases s) auto

text \<open>A decimal number followed by something that does not start with a digit.\<close>

lemma digits_nat_dec:
  assumes "rest = [] \<or> \<not> is_digit (hd rest)"
  shows "takeWhile is_digit (nat_dec n @ rest) = nat_dec n"
    and "dropWhile is_digit (nat_dec n @ rest) = rest"
  using assms nat_dec_chars(1) by (cases rest; simp add: takeWhile_append dropWhile_append)+

lemma strtoll_saturates:
  assumes "rest = [] \<or> \<not> is_digit (hd rest)"
  shows "strtoll (int_dec i @ rest) = (saturate64 i, rest)"
proof -
  have hd_in: "hd (nat_dec n) \<in> set (nat_dec n)" for n
    using nat_dec_Nil [of n] by simp
  have sp: "dropWhile is_space (nat_dec n @ rest) = nat_dec n @ rest" for n
    using nat_dec_chars(2) [OF hd_in] nat_dec_Nil [of n] by (simp add: dropWhile_eq_self_iff)
  have "split_sign (nat_dec n @ rest) = (False, nat_dec n @ rest)" for n
    using nat_dec_chars(3,4) [OF hd_in [of n]] nat_dec_Nil [of n] by (intro split_sign_other) simp_all
  moreover have "\<not> is_space CHR ''-''" by (simp add: is_space_def)
  ultimately show ?thesis
    using digits_nat_dec [OF assms] nat_dec_Nil by (simp add: strtoll_def int_dec_def sp dec_val_nat_dec)
qed

lemma strtoll_int_dec:
  "rest = [] \<or> \<not> is_digit (hd rest) \<Longrightarrow> - (2 ^ 63) \<le> i \<Longrightarrow> i < 2 ^ 63 \<Longrightarrow> strtoll (int_dec i @ rest) = (i, rest)"
  by (simp add: strtoll_saturates saturate64_def)

lemma c_str_id: "CHR 0x00 \<notin> set s \<Longrightarrow> c_str s = s"
  by (auto simp: c_str_def takeWhile_eq_all_conv)

lemma int_dec_no_null: "CHR 0x00 \<notin> set (int_dec i)"
  using nat_dec_chars(6) by (auto simp: int_dec_def)

end
