(* ===== verification/Str_Helper.thy ===== *)
theory Str_Helper
  imports C_Strings
begin

text \<open>
  The class \<open>StrHelper\<close> of \<^verbatim>\<open>src/str_helper.hpp\<close>: splitting a string at a separator and
  converting numbers. \<open>GetNum\<close> and \<open>GetStr\<close> are modelled for the integer types, signed and
  unsigned, as words of their width.
\<close>

section \<open>The class\<close>

text \<open>
  The loop of \<open>SplitStr\<close> on the string from \<open>ptr_0\<close> on; the inner loop moves \<open>ptr_1\<close> to the
  next separator or the end.
\<close>

function split_loop :: "char \<Rightarrow> string \<Rightarrow> string list" where
  "split_loop sep s =
     (let tmp_str = takeWhile (\<lambda>c. c \<noteq> sep) s; ptr_1 = dropWhile (\<lambda>c. c \<noteq> sep) s in
      if ptr_1 = [] then [tmp_str] else tmp_str # split_loop sep (tl ptr_1))"
  by pat_completeness auto

lemma length_tl_dropWhile: "dropWhile P s \<noteq> [] \<Longrightarrow> length (tl (dropWhile P s)) < length s"
  using length_dropWhile_le [of P s] by (cases "dropWhile P s") auto

termination split_loop
proof (relation "measure (\<lambda>(sep, s). length s)")
  fix sep s tmp_str ptr_1
  assume "ptr_1 = dropWhile (\<lambda>c. c \<noteq> sep) s" and "ptr_1 \<noteq> []"
  then show "((sep, tl ptr_1), (sep, s)) \<in> measure (\<lambda>(sep, s). length s)"
    using length_tl_dropWhile [of "\<lambda>c. c \<noteq> sep" s] by (simp del: length_tl)
qed simp

declare split_loop.simps [simp del]

definition SplitStr :: "string \<Rightarrow> char \<Rightarrow> string list" where
  "SplitStr s sep = split_loop sep (c_str s)"

text \<open>
  \<open>GetNum\<close> for a signed type: \<open>None\<close> is the result \<open>false\<close>, after which \<open>num\<close> is unchanged.
  The comparisons are those of the code, on the value already converted to the type.
\<close>

definition GetNum_signed :: "string \<Rightarrow> 'w::len word option" where
  "GetNum_signed str =
     (let (tmp_int, endptr) = strtoll (c_str str); num = (word_of_int tmp_int :: 'w word) in
      if endptr \<noteq> [] \<or> sint num < - (2 ^ (LENGTH('w) - 1)) \<or> 2 ^ (LENGTH('w) - 1) - 1 < sint num
      then None else Some num)"

definition GetNum_unsigned :: "string \<Rightarrow> 'w::len word option" where
  "GetNum_unsigned str =
     (let (tmp_int, endptr) = strtoll (c_str str); num = (word_of_int tmp_int :: 'w word) in
      if endptr \<noteq> [] \<or> uint num < 0 \<or> 2 ^ LENGTH('w) - 1 < uint num then None else Some num)"

text \<open>
  \<open>GetStr\<close> hands the number to a \<open>stringstream\<close>: it writes decimal digits, but one character for a
  type of 8 bits, since \<open>int8_t\<close> and \<open>uint8_t\<close> are character types for it.
\<close>

definition GetStr_signed :: "'w::len word \<Rightarrow> string" where
  "GetStr_signed num = (if LENGTH('w) = 8 then [char_of (unat num)] else int_dec (sint num))"

definition GetStr_unsigned :: "'w::len word \<Rightarrow> string" where
  "GetStr_unsigned num = (if LENGTH('w) = 8 then [char_of (unat num)] else int_dec (uint num))"

section \<open>Splitting and joining\<close>

fun join :: "'a \<Rightarrow> 'a list list \<Rightarrow> 'a list" where
  "join sep [] = []"
| "join sep [t] = t"
| "join sep (t # t' # ts) = t @ sep # join sep (t' # ts)"

lemma split_loop_ne: "split_loop sep s \<noteq> []"
  by (subst split_loop.simps) (simp add: Let_def)

lemma join_Cons: "ts \<noteq> [] \<Longrightarrow> join sep (t # ts) = t @ sep # join sep ts"
  by (cases ts) auto

lemma join_split: "join sep (split_loop sep s) = s"
proof (induction sep s rule: split_loop.induct)
  case (1 sep s)
  let ?r = "dropWhile (\<lambda>c. c \<noteq> sep) s"
  show ?case
  proof (cases "?r = []")
    case True
    then show ?thesis by (subst split_loop.simps) (simp add: Let_def takeWhile_eq_all_conv dropWhile_eq_Nil_conv)
  next
    case False
    then have "hd ?r = sep" using hd_dropWhile [of "\<lambda>c. c \<noteq> sep" s] by simp
    then have "sep # tl ?r = ?r" using False by (metis list.collapse)
    with 1 False show ?thesis
      by (subst split_loop.simps) (simp add: Let_def join_Cons split_loop_ne)
  qed
qed

lemma split_no_sep: "\<forall>t \<in> set (split_loop sep s). sep \<notin> set t"
proof (induction sep s rule: split_loop.induct)
  case (1 sep s)
  let ?r = "dropWhile (\<lambda>c. c \<noteq> sep) s"
  have tok: "sep \<notin> set (takeWhile (\<lambda>c. c \<noteq> sep) s)" by (auto dest: set_takeWhileD)
  show ?case
  proof (cases "?r = []")
    case True
    with tok show ?thesis by (subst split_loop.simps) (simp add: Let_def)
  next
    case False
    with 1 have "\<forall>t \<in> set (split_loop sep (tl ?r)). sep \<notin> set t" by simp
    with False tok show ?thesis by (subst split_loop.simps) (simp add: Let_def del: dropWhile_eq_Nil_conv)
  qed
qed

lemma split_join:
  "ts \<noteq> [] \<Longrightarrow> \<forall>t \<in> set ts. sep \<notin> set t \<Longrightarrow> split_loop sep (join sep ts) = ts"
proof (induction sep ts rule: join.induct)
  case (3 sep t t' ts)
  have tk: "takeWhile (\<lambda>c. c \<noteq> sep) (t @ sep # join sep (t' # ts)) = t"
    and dr: "dropWhile (\<lambda>c. c \<noteq> sep) (t @ sep # join sep (t' # ts)) = sep # join sep (t' # ts)"
    using "3.prems" by (auto simp: takeWhile_append dropWhile_append)
  from 3 show ?case by (subst split_loop.simps) (simp add: tk dr)
next
  case (2 sep t)
  then have "takeWhile (\<lambda>c. c \<noteq> sep) t = t" "dropWhile (\<lambda>c. c \<noteq> sep) t = []"
    by (auto simp: takeWhile_eq_all_conv dropWhile_eq_Nil_conv)
  then show ?case by (subst split_loop.simps) simp
qed simp

text \<open>
  C26: \<open>SplitStr\<close> gives the one list of parts without the separator that joins to the string up
  to its first null character: joining undoes splitting, and splitting undoes joining.
\<close>

theorem SplitStr_iff_join:
  "SplitStr s sep = ts \<longleftrightarrow>
    ts \<noteq> [] \<and> join sep ts = c_str s \<and> {t \<in> set ts. sep \<in> set t} = {}"
proof
  assume "SplitStr s sep = ts"
  then show "ts \<noteq> [] \<and> join sep ts = c_str s \<and> {t \<in> set ts. sep \<in> set t} = {}"
    using join_split split_no_sep split_loop_ne by (auto simp: SplitStr_def)
next
  assume "ts \<noteq> [] \<and> join sep ts = c_str s \<and> {t \<in> set ts. sep \<in> set t} = {}"
  then show "SplitStr s sep = ts"
    using split_join [of ts sep] by (auto simp: SplitStr_def)
qed

section \<open>Numbers\<close>

lemma strtoll_dec:
  "- (2 ^ 63) \<le> i \<Longrightarrow> i < 2 ^ 63 \<Longrightarrow> strtoll (c_str (int_dec i)) = (i, [])"
  using strtoll_int_dec [of "[]" i] by (simp add: c_str_id int_dec_no_null)

text \<open>One character is a number only when it is a digit, and an empty string is read as 0.\<close>

lemma strtoll_char:
  "strtoll (c_str [c]) = (if c = CHR 0x00 then (0, []) else if is_digit c then (int (digit_val c), []) else (0, [c]))"
proof -
  have d: "is_digit c \<Longrightarrow> digit_val c \<le> 9" "is_digit c \<Longrightarrow> \<not> is_space c" "is_digit c \<Longrightarrow> c \<noteq> CHR ''-'' \<and> c \<noteq> CHR ''+''"
    by (auto simp: is_digit_def digit_val_def is_space_def)
  have "saturate64 (int n) = int n" if "n \<le> 9" for n using that by (simp add: saturate64_def)
  with d show ?thesis by (auto simp: strtoll_def c_str_def)
qed

lemma byte_read_back:
  fixes b :: "8 word"
  assumes get: "get (GetStr_signed b) = (let (i, r) = strtoll (c_str (GetStr_signed b)) in if r = [] then Some (word_of_int i) else None)"
  shows "get (GetStr_signed b) = Some b \<longleftrightarrow> b = 0"
proof -
  have n: "unat b < 256" using unsigned_less [of b] by simp
  let ?c = "char_of (unat b) :: char"
  have c: "(of_char ?c :: nat) = unat b" using n by (simp add: of_char_of)
  have s: "GetStr_signed b = [?c]" by (simp add: GetStr_signed_def)
  have zero: "?c = CHR 0x00 \<longleftrightarrow> b = 0"
  proof
    assume "?c = CHR 0x00"
    with c have "unat b = 0" by simp
    then show "b = 0" by (simp add: unat_eq_0)
  qed (simp add: char_of_def)
  have "(word_of_int (int (digit_val ?c)) :: 8 word) \<noteq> b" if "is_digit ?c"
  proof
    assume "word_of_int (int (digit_val ?c)) = b"
    then have "unat (of_nat (digit_val ?c) :: 8 word) = unat b" by simp
    then have "unat b = digit_val ?c mod 256" by (simp add: unat_of_nat)
    moreover have "48 \<le> unat b" "unat b \<le> 57" "digit_val ?c = unat b - 48" using that c by (simp_all add: is_digit_def digit_val_def)
    ultimately show False by simp
  qed
  moreover have "get (GetStr_signed b) = (if b = 0 then Some 0 else if is_digit ?c then Some (word_of_int (int (digit_val ?c))) else None)"
    unfolding get unfolding s strtoll_char zero by simp
  ultimately show ?thesis by auto
qed

text \<open>The checks of \<open>GetNum\<close> never fail on what the type can hold.\<close>

lemma GetNum_eq:
  "(GetNum_signed s :: 'a::len word option) = (let (i, r) = strtoll (c_str s) in if r = [] then Some (word_of_int i) else None)"
  "(GetNum_unsigned s :: 'a word option) = (let (i, r) = strtoll (c_str s) in if r = [] then Some (word_of_int i) else None)"
proof -
  obtain i r where ir: "strtoll (c_str s) = (i, r)" by fastforce
  let ?w = "word_of_int i :: 'a word"
  show "(GetNum_signed s :: 'a word option) = (let (i, r) = strtoll (c_str s) in if r = [] then Some (word_of_int i) else None)"
    using sint_greater_eq [of ?w] sint_less [of ?w] by (auto simp: GetNum_signed_def ir not_less Let_def)
  have "\<not> 2 ^ LENGTH('a) - 1 < uint ?w" using uint_bounded [of ?w] by linarith
  then show "(GetNum_unsigned s :: 'a word option) = (let (i, r) = strtoll (c_str s) in if r = [] then Some (word_of_int i) else None)"
    by (auto simp: GetNum_unsigned_def ir Let_def)
qed

text \<open>
  C27: \<open>GetNum\<close> reads back what \<open>GetStr\<close> printed, for every value of a signed type of up to 64 bits
  and every value below $2^{63}$ of an unsigned one, if the type has not 8 bits; of the values of
  the types of 8 bits it reads back 0 and no other.
\<close>

theorem GetNum_GetStr:
  fixes w :: "'a::len word" and u :: "'b::len word" and b :: "8 word"
  assumes "LENGTH('a) \<le> 64" and "LENGTH('a) \<noteq> 8" and "uint u < 2 ^ 63" and "LENGTH('b) \<noteq> 8"
  shows "GetNum_signed (GetStr_signed w) = Some w \<and> GetNum_unsigned (GetStr_unsigned u) = Some u
    \<and> (GetNum_signed (GetStr_signed b) = Some b \<longleftrightarrow> b = 0) \<and> (GetNum_unsigned (GetStr_unsigned b) = Some b \<longleftrightarrow> b = 0)"
proof (intro conjI)
  have "(2::int) ^ (LENGTH('a) - Suc 0) \<le> 2 ^ 63" using assms(1) by (intro power_increasing) auto
  then have "- (2 ^ 63) \<le> sint w \<and> sint w < 2 ^ 63"
    using sint_greater_eq [of w] sint_less [of w] unfolding One_nat_def by linarith
  then show "GetNum_signed (GetStr_signed w) = Some w" using assms(2) by (simp add: GetNum_eq GetStr_signed_def strtoll_dec)
  have "- (2 ^ 63) \<le> uint u" by (rule order.trans [OF _ uint_ge_0]) simp
  then show "GetNum_unsigned (GetStr_unsigned u) = Some u" using assms(3,4) by (simp add: GetNum_eq GetStr_unsigned_def strtoll_dec)
  show "GetNum_signed (GetStr_signed b) = Some b \<longleftrightarrow> b = 0" by (rule byte_read_back) (rule GetNum_eq)
  have same: "GetStr_unsigned b = GetStr_signed b" by (simp add: GetStr_signed_def GetStr_unsigned_def)
  show "GetNum_unsigned (GetStr_unsigned b) = Some b \<longleftrightarrow> b = 0" unfolding same by (rule byte_read_back) (rule GetNum_eq)
qed

theorem GetNum_GetStr_witness:
  "GetNum_signed (GetStr_signed (- 5 :: 16 word)) = Some (- 5 :: 16 word)
    \<and> GetNum_unsigned (GetStr_unsigned (70000 :: 32 word)) = Some (70000 :: 32 word)
    \<and> GetNum_signed (GetStr_signed (- 5 :: 8 word)) \<noteq> Some (- 5 :: 8 word)"
  using GetNum_GetStr [of "70000 :: 32 word" "- 5 :: 16 word" "- 5 :: 8 word"] by simp

text \<open>
  The range check of \<open>GetNum\<close> compares the value after its conversion to the type, so it
  never fails: the result is \<open>false\<close> only for characters after the number, and a number out of
  range is accepted with its low bits. 300 is read into an \<open>int8_t\<close> as 44.
\<close>

theorem GetNum_never_out_of_range:
  "(GetNum_signed s :: 'a::len word option)
      = (if snd (strtoll (c_str s)) = [] then Some (word_of_int (fst (strtoll (c_str s)))) else None)
   \<and> (GetNum_unsigned s :: 'a word option)
      = (if snd (strtoll (c_str s)) = [] then Some (word_of_int (fst (strtoll (c_str s)))) else None)
   \<and> GetNum_signed (int_dec 300) = Some (44 :: 8 word)"
  by (simp add: GetNum_eq case_prod_unfold strtoll_dec)

text \<open>A \<open>uint64_t\<close> from $2^{63}$ on is read back as $2^{63} - 1$, the largest number of \<open>strtoll\<close>.\<close>

lemma GetNum_saturates:
  fixes u :: "64 word"
  assumes "2 ^ 63 \<le> uint u"
  shows "GetNum_unsigned (GetStr_unsigned u) = Some (word_of_int (2 ^ 63 - 1) :: 64 word)"
proof -
  have "saturate64 (uint u) = 2 ^ 63 - 1" using assms by (simp add: saturate64_def)
  then show ?thesis using strtoll_saturates [of "[]" "uint u"] by (simp add: GetNum_eq GetStr_unsigned_def c_str_id int_dec_no_null)
qed

end
