(* ===== verification/Io_Helper.thy ===== *)
theory Io_Helper
  imports C_Strings
begin

text \<open>
  The class \<open>IOHelper\<close> of \<^verbatim>\<open>src/io_helper.h\<close> and \<^verbatim>\<open>src/details/io_helper.cpp\<close>: loops around
  the system calls on sockets. A system call is a parameter: for \<open>write\<close>, \<open>writev\<close> and \<open>read\<close> a
  function from the number of the call and the number of bytes asked for to its result, for the
  socket calls the results of one attempt. What the calls promise is stated where it is used,
  as \<open>write_contract\<close> and \<open>read_contract\<close>: no call transfers more bytes than it was asked to.
\<close>

datatype errno = EAGAIN | EWOULDBLOCK | EINTR | EINPROGRESS | EOTHER

datatype sysret = Ret nat | Fail errno

definition try_again :: "errno \<Rightarrow> bool" where
  "try_again e \<longleftrightarrow> e = EAGAIN \<or> e = EWOULDBLOCK \<or> e = EINTR"

text \<open>The conversion of a \<open>size_t\<close> to the \<open>int\<close> that the functions return.\<close>

definition ret_int :: "nat \<Rightarrow> int" where
  "ret_int n = signed_take_bit 31 (int n)"

definition write_contract :: "(nat \<Rightarrow> nat \<Rightarrow> sysret) \<Rightarrow> bool" where
  "write_contract K \<longleftrightarrow> (\<forall>i n k. K i n = Ret k \<longrightarrow> k \<le> n)"

section \<open>WriteNonBlock\<close>

text \<open>
  The loop gives the return value and the bytes that went out. A round that does not return
  has written something, so \<open>count\<close> and one more rounds are enough.
\<close>

fun write_loop ::
  "(nat \<Rightarrow> nat \<Rightarrow> sysret) \<Rightarrow> nat \<Rightarrow> 'b list \<Rightarrow> nat \<Rightarrow> nat \<Rightarrow> 'b list \<Rightarrow> nat \<Rightarrow> (int \<times> 'b list) result" where
  "write_loop K i buf cnt bytes_write sent 0 = Inl Diverges"
| "write_loop K i buf cnt bytes_write sent (Suc rounds) =
     (case K i (cnt - bytes_write) of
        Ret tmp_cnt \<Rightarrow>
          if 0 < tmp_cnt then
            let sent' = sent @ take tmp_cnt (drop bytes_write buf); bw = bytes_write + tmp_cnt in
            if bw = cnt then Inr (ret_int cnt, sent')
            else if cnt < bw then Inr (- 1, sent')
            else write_loop K (i + 1) buf cnt bw sent' rounds
          else Inr (ret_int bytes_write, sent)
      | Fail e \<Rightarrow>
          if try_again e then Inr (ret_int bytes_write, sent) else Inr (- 2, sent))"

definition WriteNonBlock ::
  "(nat \<Rightarrow> nat \<Rightarrow> sysret) \<Rightarrow> 'b list \<Rightarrow> nat \<Rightarrow> (int \<times> 'b list) result" where
  "WriteNonBlock K buf cnt = write_loop K 0 buf cnt 0 [] (cnt + 1)"

section \<open>ReadNonBlock\<close>

datatype 'b readret = Data "'b list" | RFail errno

definition read_contract :: "(nat \<Rightarrow> nat \<Rightarrow> 'b readret) \<Rightarrow> bool" where
  "read_contract K \<longleftrightarrow> (\<forall>i n bs. K i n = Data bs \<longrightarrow> length bs \<le> n)"

text \<open>The bytes from a position on replaced, as the kernel does with the buffer it is given.\<close>

definition fill_at :: "nat \<Rightarrow> 'b list \<Rightarrow> 'b list \<Rightarrow> 'b list" where
  "fill_at pos bs buf = take pos buf @ bs @ drop (pos + length bs) buf"

fun read_loop ::
  "(nat \<Rightarrow> nat \<Rightarrow> 'b readret) \<Rightarrow> nat \<Rightarrow> 'b list \<Rightarrow> nat \<Rightarrow> nat \<Rightarrow> nat \<Rightarrow> (int \<times> 'b list) result" where
  "read_loop K i buf cnt bytes_read 0 = Inl Diverges"
| "read_loop K i buf cnt bytes_read (Suc rounds) =
     (case K i (cnt - bytes_read) of
        Data bs \<Rightarrow>
          if 0 < length bs then
            let buf' = fill_at bytes_read bs buf; br = bytes_read + length bs in
            if br = cnt then Inr (ret_int cnt, buf')
            else if cnt < br then Inr (- 1, buf')
            else read_loop K (i + 1) buf' cnt br rounds
          else Inr (ret_int bytes_read, buf)
      | RFail e \<Rightarrow>
          if try_again e then Inr (ret_int bytes_read, buf) else Inr (- 2, buf))"

definition ReadNonBlock ::
  "(nat \<Rightarrow> nat \<Rightarrow> 'b readret) \<Rightarrow> 'b list \<Rightarrow> nat \<Rightarrow> (int \<times> 'b list) result" where
  "ReadNonBlock K buf cnt = read_loop K 0 buf cnt 0 (cnt + 1)"

section \<open>WriteVecNonBlock\<close>

text \<open>
  An \<open>iovec\<close> is the list of the bytes it points to: advancing its base by \<open>n\<close> and taking \<open>n\<close>
  off its length drops \<open>n\<close> of them. Taking off more than there are makes the \<open>size_t\<close> length
  wrap, so that the next \<open>writev\<close> reads outside the segment: a fault.
\<close>

fun vec_advance :: "'b list list \<Rightarrow> nat \<Rightarrow> nat \<Rightarrow> nat \<Rightarrow> nat \<times> nat" where
  "vec_advance iov pos tmp_cnt 0 = (pos, tmp_cnt)"
| "vec_advance iov pos tmp_cnt (Suc rounds) =
     (if length (iov ! pos) \<le> tmp_cnt
      then vec_advance iov (pos + 1) (tmp_cnt - length (iov ! pos)) rounds
      else (pos, tmp_cnt))"

text \<open>The array after \<open>memcpy\<close> and the two assignments to \<open>iov[pos_iov]\<close>.\<close>

definition vec_shift :: "'b list list \<Rightarrow> nat \<Rightarrow> nat \<Rightarrow> nat \<Rightarrow> 'b list list result" where
  "vec_shift iov num_iov pos_iov tmp_cnt =
     (let iov' = take num_iov (drop pos_iov iov) @ drop num_iov iov in
      if length iov' \<le> pos_iov \<or> length (iov' ! pos_iov) < tmp_cnt then Inl Out_Of_Bounds
      else Inr (iov'[pos_iov := drop tmp_cnt (iov' ! pos_iov)]))"

fun vec_loop ::
  "(nat \<Rightarrow> nat \<Rightarrow> sysret) \<Rightarrow> nat \<Rightarrow> 'b list list \<Rightarrow> nat \<Rightarrow> nat \<Rightarrow> 'b list \<Rightarrow> nat \<Rightarrow> (int \<times> 'b list) result"
where
  "vec_loop K i iov num_iov bytes_write sent 0 = Inl Diverges"
| "vec_loop K i iov num_iov bytes_write sent (Suc rounds) =
     (let data = concat (take num_iov iov) in
      case K i (length data) of
        Ret tmp_cnt \<Rightarrow>
          if 0 < tmp_cnt then
            let sent' = sent @ take tmp_cnt data; bw = bytes_write + tmp_cnt;
                (pos, rest) = vec_advance iov 0 tmp_cnt num_iov; num = num_iov - pos in
            if 0 = num then Inr (ret_int bw, sent')
            else (case vec_shift iov num pos rest of
                    Inl e \<Rightarrow> Inl e
                  | Inr iov' \<Rightarrow> vec_loop K (i + 1) iov' num bw sent' rounds)
          else Inr (ret_int bytes_write, sent)
      | Fail e \<Rightarrow>
          if try_again e then Inr (ret_int bytes_write, sent) else Inr (- 2, sent))"

text \<open>A round drops a segment or shortens the first one.\<close>

definition WriteVecNonBlock :: "(nat \<Rightarrow> nat \<Rightarrow> sysret) \<Rightarrow> 'b list list \<Rightarrow> (int \<times> 'b list) result" where
  "WriteVecNonBlock K iov =
     vec_loop K 0 iov (length iov) 0 [] (length iov + length (concat iov) + 1)"

section \<open>IpToInt\<close>

text \<open>
  The loop over the four segments; the result is the return value and what \<open>ipint\<close> holds. A
  segment is added in 32-bit unsigned arithmetic.
\<close>

fun ip_loop :: "nat \<Rightarrow> string \<Rightarrow> 32 word \<Rightarrow> nat \<Rightarrow> bool \<times> 32 word" where
  "ip_loop i cur ipint 0 = (True, ipint)"
| "ip_loop i cur ipint (Suc rounds) =
     (let segvalue = atoi cur in
      if 255 < segvalue \<or> segvalue < 0 then (False, ipint)
      else
        let ipint' = ipint + word_of_int segvalue * push_bit ((3 - i) * 8) 1 in
        case strchr cur CHR ''.'' of
          None \<Rightarrow> if i \<noteq> 3 then (False, ipint') else (True, ipint')
        | Some cur' \<Rightarrow> ip_loop (i + 1) (tl cur') ipint' rounds)"

definition IpToInt :: "string \<Rightarrow> bool \<times> 32 word" where
  "IpToInt ipstr = ip_loop 0 ipstr 0 4"

section \<open>Sockets\<close>

text \<open>
  The results of the system calls of one attempt to make a socket. The functions give their
  return value and the descriptors that are open when they return.
\<close>

record socket_calls =
  r_socket :: int
  r_getfl :: bool
  r_setfl :: bool
  r_sockopt :: bool

definition SetNonBlock :: "bool \<Rightarrow> bool \<Rightarrow> bool" where
  "SetNonBlock getfl setfl = (if getfl then (if setfl then True else False) else False)"

definition CreateSocket :: "socket_calls \<Rightarrow> bool \<Rightarrow> int \<times> int list" where
  "CreateSocket c is_non_block =
     (let fd = r_socket c; opened = (if 0 \<le> fd then [fd] else []) in
      if fd \<le> 0 then (- 1, opened)
      else if is_non_block \<and> \<not> SetNonBlock (r_getfl c) (r_setfl c) then (- 2, opened)
      else if \<not> r_sockopt c then (- 3, opened)
      else (fd, opened))"

definition Listen :: "socket_calls \<Rightarrow> bool \<Rightarrow> bool \<Rightarrow> int \<times> int list" where
  "Listen c bind_ok listen_ok =
     (let (fd, opened) = CreateSocket c True;
          closed = (if 0 < fd then removeAll fd opened else opened)
      in if fd \<le> 0 then (- 1, closed)
         else if \<not> bind_ok then (- 2, closed)
         else if \<not> listen_ok then (- 3, closed)
         else (fd, opened))"

text \<open>
  \<open>Connect\<close>: one element per attempt, the calls that make the socket and what \<open>connect\<close> gives;
  an interrupted attempt starts again with a new socket. The second result tells whether the
  connection needs no event.
\<close>

fun Connect :: "bool \<Rightarrow> (socket_calls \<times> errno option) list \<Rightarrow> ((int \<times> bool) \<times> int list) result" where
  "Connect nb [] = Inl Diverges"
| "Connect nb ((c, res) # attempts) =
     (let (fd, opened) = CreateSocket c nb in
      if fd \<le> 0 then Inr ((- 1, True), opened)
      else
        (case res of
           None \<Rightarrow> Inr ((fd, True), opened)
         | Some e \<Rightarrow>
             if e = EINPROGRESS then Inr ((fd, False), opened)
             else if e = EINTR then
               map_sum id (\<lambda>(r, os). (r, opened @ os)) (Connect nb attempts)
             else Inr ((- 1, True), removeAll fd opened)))"

text \<open>\<open>Accept\<close>: the results of \<open>accept\<close> until one is not interrupted, and of \<open>SetNonBlock\<close>.\<close>

fun Accept :: "(int \<times> errno) list \<Rightarrow> bool \<Rightarrow> bool \<Rightarrow> (int \<times> int list) result" where
  "Accept [] getfl setfl = Inl Diverges"
| "Accept ((new_fd, e) # rs) getfl setfl =
     (if new_fd = - 1 then (if e = EINTR then Accept rs getfl setfl else Inr (- 1, []))
      else if \<not> SetNonBlock getfl setfl then Inr (- 2, [new_fd])
      else Inr (new_fd, [new_fd]))"

text \<open>\<open>CheckConn\<close>: what \<open>recv\<close> with \<open>MSG_DONTWAIT\<close> gives.\<close>

definition CheckConn :: "sysret \<Rightarrow> bool" where
  "CheckConn r = (case r of Ret n \<Rightarrow> False | Fail e \<Rightarrow> e = EWOULDBLOCK \<or> e = EAGAIN)"

end
