(* ===== verification/Io_Spec.thy ===== *)
theory Io_Spec
  imports Io_Helper
begin

text \<open>
  What the loops of \<open>IOHelper\<close> promise for every behaviour of the system calls: nothing is
  written or read twice or out of order, and the return value is the number of bytes. Then the
  places where the code does not: vectored writes that stop inside a later segment, and
  descriptors left open on error paths.
\<close>

section \<open>WriteNonBlock and ReadNonBlock\<close>

lemma ret_int_small: "n < 2 ^ 31 \<Longrightarrow> ret_int n = int n"
  by (simp add: ret_int_def signed_take_bit_int_eq_self)

text \<open>
  What the calls of one loop answer, from the \<open>i\<close>-th call on with \<open>n\<close> bytes missing: how many bytes
  each of them moves, until nothing is missing, a call moves nothing, or a call fails.
\<close>

fun write_run :: "(nat \<Rightarrow> nat \<Rightarrow> sysret) \<Rightarrow> nat \<Rightarrow> nat \<Rightarrow> nat list \<Rightarrow> errno option \<Rightarrow> bool" where
  "write_run K i n [] e = (case K i n of Ret k \<Rightarrow> k = 0 \<and> e = None | Fail e' \<Rightarrow> e = Some e')"
| "write_run K i n (k # ks) e =
     (K i n = Ret k \<and> 0 < k \<and> (if k = n then ks = [] \<and> e = None else write_run K (i + 1) (n - k) ks e))"

fun read_run :: "(nat \<Rightarrow> nat \<Rightarrow> 'b readret) \<Rightarrow> nat \<Rightarrow> nat \<Rightarrow> 'b list list \<Rightarrow> errno option \<Rightarrow> bool" where
  "read_run K i n [] e = (case K i n of Data bs \<Rightarrow> bs = [] \<and> e = None | RFail e' \<Rightarrow> e = Some e')"
| "read_run K i n (c # cs) e =
     (K i n = Data c \<and> c \<noteq> [] \<and> (if length c = n then cs = [] \<and> e = None else read_run K (i + 1) (n - length c) cs e))"

text \<open>The return value: the number of bytes, unless the last call failed and not for the moment.\<close>

definition moved :: "nat \<Rightarrow> errno option \<Rightarrow> int" where
  "moved n e = (case e of None \<Rightarrow> int n | Some e' \<Rightarrow> if try_again e' then int n else - 2)"

text \<open>From a state in which the first \<open>bw\<close> bytes are out, the loop sends what the calls take, in order.\<close>

lemma write_loop_run:
  assumes "write_contract K" and "bw \<le> length buf" and "length buf < 2 ^ 31"
    and "length buf - bw < rounds"
  shows "\<exists>ks e. write_run K i (length buf - bw) ks e \<and> bw + sum_list ks \<le> length buf
    \<and> write_loop K i buf (length buf) bw (take bw buf) rounds = Inr (moved (bw + sum_list ks) e, take (bw + sum_list ks) buf)"
  using assms
proof (induction rounds arbitrary: i bw)
  case 0
  then show ?case by simp
next
  case (Suc rounds)
  let ?len = "length buf"
  have ri: "ret_int bw = int bw" "ret_int ?len = int ?len"
    using Suc.prems by (simp_all add: ret_int_small)
  show ?case
  proof (cases "K i (?len - bw)")
    case (Fail e)
    then show ?thesis using Suc.prems ri by (intro exI [of _ "[]"] exI [of _ "Some e"]) (simp add: moved_def)
  next
    case (Ret k)
    then have k: "k \<le> ?len - bw" using Suc.prems(1) by (auto simp: write_contract_def)
    have out: "take bw buf @ take k (drop bw buf) = take (bw + k) buf" by (simp add: take_add)
    consider "k = 0" | "0 < k" "bw + k = ?len" | "0 < k" "bw + k < ?len"
      using k Suc.prems(2) by linarith
    then show ?thesis
    proof cases
      case 1
      then show ?thesis
        using Ret Suc.prems(2) ri by (intro exI [of _ "[]"] exI [of _ None]) (simp add: moved_def)
    next
      case 2
      then have "?len - bw = k" by linarith
      then show ?thesis
        using 2 Ret ri out by (intro exI [of _ "[k]"] exI [of _ None]) (simp add: Let_def moved_def)
    next
      case 3
      then have "?len - (bw + k) < rounds" using Suc.prems(4) by linarith
      with Suc.IH [of "bw + k" "i + 1"] Suc.prems(1,3) 3 obtain ks e where
        "write_run K (i + 1) (?len - (bw + k)) ks e" "bw + k + sum_list ks \<le> ?len"
        "write_loop K (i + 1) buf ?len (bw + k) (take (bw + k) buf) rounds = Inr (moved (bw + k + sum_list ks) e, take (bw + k + sum_list ks) buf)"
        by auto
      moreover have "k \<noteq> ?len - bw" using 3 by linarith
      ultimately show ?thesis
        using 3 Ret out by (intro exI [of _ "k # ks"] exI [of _ e]) (simp add: Let_def add.assoc)
    qed
  qed
qed

text \<open>
  C28: whatever \<open>write\<close> returns within its contract, \<open>WriteNonBlock\<close> returns, the bytes that went out
  are as many from the front of the buffer as the calls have taken together, and the return value
  is their number, or -2 when the last call failed and not for the moment.
\<close>

theorem WriteNonBlock_prefix:
  assumes "write_contract K" and "length buf < 2 ^ 31"
  shows "\<exists>ks e. write_run K 0 (length buf) ks e \<and> sum_list ks \<le> length buf
    \<and> WriteNonBlock K buf (length buf) = Inr (moved (sum_list ks) e, take (sum_list ks) buf)"
  using write_loop_run [OF assms(1) _ assms(2), of 0 "length buf + 1" 0]
  by (simp add: WriteNonBlock_def)

theorem WriteNonBlock_prefix_witness:
  "\<exists>ks e. write_run (\<lambda>i n. if i = 0 then Ret (min 2 n) else Fail EAGAIN) 0 3 ks e
    \<and> WriteNonBlock (\<lambda>i n. if i = 0 then Ret (min 2 n) else Fail EAGAIN) ''abc'' 3 = Inr (moved (sum_list ks) e, take (sum_list ks) ''abc'')"
proof -
  have "write_contract (\<lambda>i n. if i = 0 then Ret (min 2 n) else Fail EAGAIN)"
    by (simp add: write_contract_def)
  moreover have l: "length ''abc'' = 3" by simp
  ultimately show ?thesis
    using WriteNonBlock_prefix [of "\<lambda>i n. if i = 0 then Ret (min 2 n) else Fail EAGAIN" "''abc''", unfolded l] by auto
qed

text \<open>From a state in which \<open>got\<close> stands at the front, the loop puts what the calls give behind it, in order.\<close>

lemma read_loop_run:
  assumes "read_contract K" and "length got \<le> length buf" and "length buf < 2 ^ 31"
    and "length buf - length got < rounds"
  shows "\<exists>cs e. read_run K i (length buf - length got) cs e \<and> length (got @ concat cs) \<le> length buf
    \<and> read_loop K i (got @ drop (length got) buf) (length buf) (length got) rounds
      = Inr (moved (length (got @ concat cs)) e, got @ concat cs @ drop (length (got @ concat cs)) buf)"
  using assms
proof (induction rounds arbitrary: i got)
  case 0
  then show ?case by simp
next
  case (Suc rounds)
  let ?len = "length buf"
  have ri: "ret_int (length got) = int (length got)" "ret_int ?len = int ?len"
    using Suc.prems by (simp_all add: ret_int_small)
  show ?case
  proof (cases "K i (?len - length got)")
    case (RFail e)
    then show ?thesis using Suc.prems ri by (intro exI [of _ "[]"] exI [of _ "Some e"]) (simp add: moved_def)
  next
    case (Data bs)
    then have k: "length bs \<le> ?len - length got" using Suc.prems(1) by (auto simp: read_contract_def)
    have fill: "fill_at (length got) bs (got @ drop (length got) buf) = (got @ bs) @ drop (length (got @ bs)) buf"
      by (simp add: fill_at_def add.commute)
    consider "bs = []" | "bs \<noteq> []" "length (got @ bs) = ?len" | "bs \<noteq> []" "length (got @ bs) < ?len"
      using k Suc.prems(2) by fastforce
    then show ?thesis
    proof cases
      case 1
      then show ?thesis
        using Data Suc.prems(2) ri by (intro exI [of _ "[]"] exI [of _ None]) (simp add: moved_def)
    next
      case 2
      then have "?len - length got = length bs" by simp
      with 2 show ?thesis
        using Data ri fill by (intro exI [of _ "[bs]"] exI [of _ None]) (simp add: Let_def moved_def)
    next
      case 3
      then have pos: "0 < length bs" by simp
      with Suc.prems(4) have "?len - length (got @ bs) < rounds"
        using k 3(2) unfolding length_append by linarith
      with Suc.IH [of "got @ bs" "i + 1"] Suc.prems(1,3) 3 obtain cs e where
        "read_run K (i + 1) (?len - length (got @ bs)) cs e" "length ((got @ bs) @ concat cs) \<le> ?len"
        "read_loop K (i + 1) ((got @ bs) @ drop (length (got @ bs)) buf) ?len (length (got @ bs)) rounds
          = Inr (moved (length ((got @ bs) @ concat cs)) e, (got @ bs) @ concat cs @ drop (length ((got @ bs) @ concat cs)) buf)"
        by auto
      moreover have "length bs \<noteq> ?len - length got" using 3(2) by auto
      ultimately show ?thesis
        using 3 Data fill pos by (intro exI [of _ "bs # cs"] exI [of _ e]) (simp add: Let_def)
    qed
  qed
qed

text \<open>
  C29: whatever \<open>read\<close> returns within its contract, \<open>ReadNonBlock\<close> returns, what the calls have given
  stands one after the other at the front of the buffer, each call being asked for the bytes that
  are missing, the rest of the buffer is untouched, and the return value is the number of the bytes,
  or -2 when the last call failed and not for the moment.
\<close>

theorem ReadNonBlock_fills_front:
  assumes "read_contract K" and "length buf < 2 ^ 31"
  shows "\<exists>cs e. read_run K 0 (length buf) cs e \<and> length (concat cs) \<le> length buf
    \<and> ReadNonBlock K buf (length buf) = Inr (moved (length (concat cs)) e, concat cs @ drop (length (concat cs)) buf)"
  using read_loop_run [OF assms(1) _ assms(2), of "[]" "length buf + 1" 0]
  by (simp add: ReadNonBlock_def)

definition two_reads :: "nat \<Rightarrow> nat \<Rightarrow> char readret" where
  "two_reads i n = (if i = 0 then Data (take n ''ab'') else if i = 1 then Data (take n ''cd'') else RFail EAGAIN)"

theorem ReadNonBlock_fills_front_witness:
  "ReadNonBlock two_reads ''xxxxxx'' 6 = Inr (4, ''abcdxx'')"
proof -
  have "read_contract two_reads" by (simp add: read_contract_def two_reads_def)
  moreover have l: "length ''xxxxxx'' = 6" by simp
  ultimately obtain cs e where
    "read_run two_reads 0 6 cs e" "ReadNonBlock two_reads ''xxxxxx'' 6 = Inr (moved (length (concat cs)) e, concat cs @ drop (length (concat cs)) ''xxxxxx'')"
    using ReadNonBlock_fills_front [of two_reads "''xxxxxx''", unfolded l] by auto
  moreover from this(1) have "cs = [''ab'', ''cd''] \<and> e = Some EAGAIN"
    by (cases cs; cases "tl cs"; cases "tl (tl cs)") (auto simp: two_reads_def)
  ultimately show ?thesis by (simp add: moved_def try_again_def)
qed

section \<open>WriteVecNonBlock\<close>

lemma vec_loop_single:
  assumes "write_contract K" and "bw \<le> length buf" and "length buf - bw < rounds"
  shows "vec_loop K i [drop bw buf] 1 bw sent rounds = write_loop K i buf (length buf) bw sent rounds"
  using assms
proof (induction rounds arbitrary: i bw sent)
  case 0
  then show ?case by simp
next
  case (Suc rounds)
  let ?len = "length buf"
  show ?case
  proof (cases "K i (?len - bw)")
    case (Fail e)
    then show ?thesis by simp
  next
    case (Ret k)
    then have k: "k \<le> ?len - bw" using Suc.prems(1) by (auto simp: write_contract_def)
    consider "k = 0" | "0 < k" "bw + k = ?len" | "0 < k" "bw + k < ?len"
      using k Suc.prems(2) by linarith
    then show ?thesis
    proof cases
      case 1
      then show ?thesis using Ret by simp
    next
      case 2
      then have "?len - bw = k" by linarith
      with 2 Ret show ?thesis by (simp add: Let_def)
    next
      case 3
      then have "?len - (bw + k) < rounds" "\<not> ?len - bw \<le> k" using Suc.prems(3) by linarith+
      with Suc.IH [of "bw + k" "i + 1"] Suc.prems(1) 3 Ret show ?thesis
        by (simp add: Let_def vec_shift_def add.commute)
    qed
  qed
qed

text \<open>
  With one segment \<open>WriteVecNonBlock\<close> is \<open>WriteNonBlock\<close>: the same return value and the same
  bytes, whatever the system calls return within their contract.
\<close>

theorem WriteVec_single:
  assumes "write_contract K"
  shows "WriteVecNonBlock K [buf] = WriteNonBlock K buf (length buf)"
proof -
  have more: "write_loop K i buf (length buf) bw sent (Suc r) = write_loop K i buf (length buf) bw sent r"
    if "length buf - bw < r" "bw \<le> length buf" for i bw sent r
    using that
  proof (induction r arbitrary: i bw sent)
    case 0
    then show ?case by simp
  next
    case (Suc r)
    show ?case
    proof (cases "K i (length buf - bw)")
      case (Ret k)
      then have "k \<le> length buf - bw" using assms by (auto simp: write_contract_def)
      with Suc.IH [of "bw + k" "i + 1"] Suc.prems Ret show ?thesis by (simp add: Let_def)
    qed simp
  qed
  have "WriteVecNonBlock K [buf] = write_loop K 0 buf (length buf) 0 [] (Suc (length buf + 1))"
    using vec_loop_single [OF assms, of 0 buf "Suc (length buf + 1)" 0 "[]"]
    by (simp add: WriteVecNonBlock_def)
  then show ?thesis using more [of 0 "length buf + 1" 0 "[]"] by (simp add: WriteNonBlock_def)
qed

theorem WriteVec_single_witness:
  "WriteVecNonBlock (\<lambda>i n. Ret (min 2 n)) [''abc'']
    = WriteNonBlock (\<lambda>i n. Ret (min 2 n)) ''abc'' (length ''abc'')"
  using WriteVec_single [of "\<lambda>i n. Ret (min 2 n)" "''abc''"] by (simp add: write_contract_def)

text \<open>
  with two segments a write that stops inside the second one goes wrong: \<open>memcpy\<close> moves
  the rest of the segments to the front, but the code then advances \<open>iov[pos_iov]\<close> instead of
  \<open>iov[0]\<close>. After 3 of the 6 bytes of "ab", "cdef" the second call writes "cdef" again; with
  "ab", "cdef", "gh" and 5 bytes first, the last segment is cut instead.
\<close>

theorem WriteVec_repeats_bytes:
  "WriteVecNonBlock (\<lambda>i n. if i = 0 then Ret (min 3 n) else Ret n) [''ab'', ''cdef''] = Inr (7, ''abccdef'')
   \<and> WriteVecNonBlock (\<lambda>i n. if i = 0 then Ret (min 3 n) else Ret n) [''ab'', ''cdef'', ''gh'']
      = Inr (8, ''abccdefh'')"
  by (intro conjI; code_simp)

section \<open>IpToInt\<close>

definition ip_string :: "nat \<Rightarrow> nat \<Rightarrow> nat \<Rightarrow> nat \<Rightarrow> string" where
  "ip_string a b c d =
     nat_dec a @ CHR ''.'' # nat_dec b @ CHR ''.'' # nat_dec c @ CHR ''.'' # nat_dec d"

lemma atoi_nat_dec:
  "rest = [] \<or> \<not> is_digit (hd rest) \<Longrightarrow> n < 2 ^ 31 \<Longrightarrow> atoi (nat_dec n @ rest) = int n"
  using strtoll_int_dec [of rest "int n"]
  by (simp add: atoi_def int_dec_def signed_take_bit_int_eq_self)

lemma strchr_nat_dec: "strchr (nat_dec n @ CHR ''.'' # rest) CHR ''.'' = Some (CHR ''.'' # rest)"
  using nat_dec_chars(5) [of _ n] by (simp add: strchr_def dropWhile_append Let_def)

lemma strchr_nat_dec_end: "strchr (nat_dec n) CHR ''.'' = None"
  using nat_dec_chars(5) [of _ n] by (auto simp: strchr_def Let_def dropWhile_eq_Nil_conv)

lemma ip_loop_dot:
  assumes "n < 2 ^ 31" and "i < 3"
  shows "ip_loop i (nat_dec n @ CHR ''.'' # rest) ip (Suc r) =
    (if 255 < n then (False, ip)
     else ip_loop (i + 1) rest (ip + of_nat n * push_bit ((3 - i) * 8) 1) r)"
proof -
  have "\<not> is_digit CHR ''.''" by (simp add: is_digit_def)
  then show ?thesis
    using assms atoi_nat_dec [of "CHR ''.'' # rest" n]
    by (simp add: strchr_nat_dec Let_def)
qed

lemma ip_loop_end:
  "i = 3 \<Longrightarrow> n < 2 ^ 31 \<Longrightarrow> ip_loop i (nat_dec n) ip (Suc r)
    = (if 255 < n then (False, ip) else (True, ip + of_nat n))"
  using atoi_nat_dec [of "[]" n] by (simp add: strchr_nat_dec_end Let_def)

text \<open>
  \<open>IpToInt\<close> reads the dotted decimal form of four numbers: it accepts them exactly when all
  are below 256, and then gives the address with the first number in the highest byte.
\<close>

theorem IpToInt_dotted:
  assumes "a < 2 ^ 31" and "b < 2 ^ 31" and "c < 2 ^ 31" and "d < 2 ^ 31"
  shows "(fst (IpToInt (ip_string a b c d)) \<longleftrightarrow> a < 256 \<and> b < 256 \<and> c < 256 \<and> d < 256)
    \<and> (a < 256 \<and> b < 256 \<and> c < 256 \<and> d < 256 \<longrightarrow>
        snd (IpToInt (ip_string a b c d)) = of_nat (((a * 256 + b) * 256 + c) * 256 + d))"
proof -
  have "IpToInt (ip_string a b c d) = ip_loop 0 (ip_string a b c d) 0 (Suc (Suc (Suc (Suc 0))))"
    by (simp add: IpToInt_def eval_nat_numeral)
  also have "\<dots> = (if 255 < a then (False, 0)
      else if 255 < b then (False, of_nat a * push_bit 24 1)
      else if 255 < c then (False, of_nat a * push_bit 24 1 + of_nat b * push_bit 16 1)
      else if 255 < d then (False, of_nat a * push_bit 24 1 + of_nat b * push_bit 16 1 + of_nat c * push_bit 8 1)
      else (True, of_nat a * push_bit 24 1 + of_nat b * push_bit 16 1 + of_nat c * push_bit 8 1 + of_nat d))"
    using assms by (simp add: ip_string_def ip_loop_dot ip_loop_end del: ip_loop.simps)
  finally show ?thesis by (auto simp: push_bit_eq_mult algebra_simps)
qed

theorem IpToInt_dotted_witness:
  "IpToInt (ip_string 127 0 0 1) = (True, 2130706433) \<and> \<not> fst (IpToInt (ip_string 0 0 0 789))"
proof -
  have "IpToInt (ip_string 127 0 0 1) = (True, 2130706433)"
    using IpToInt_dotted [of 127 0 0 1] by (intro prod_eqI) simp_all
  moreover have "\<not> fst (IpToInt (ip_string 0 0 0 789))"
    using IpToInt_dotted [of 0 0 0 789] by simp
  ultimately show ?thesis ..
qed

section \<open>Descriptors\<close>

text \<open>
  which descriptors are open when the socket functions return: on success the one returned.
  On failure \<open>Listen\<close> closes what it opened if \<open>bind\<close> or \<open>listen\<close> fail, but a socket for which
  setting the options fails stays open, a socket whose number is 0 stays open and an
  interrupted \<open>Connect\<close> leaves the socket of the interrupted attempt open.
\<close>

theorem socket_leaks:
  "(let (r, opened) = Listen c b l in
      if 0 < r then opened = [r]
      else opened = (if r_socket c < 0 \<or> 0 < fst (CreateSocket c True) then [] else [r_socket c]))
   \<and> CreateSocket \<lparr>r_socket = 5, r_getfl = True, r_setfl = True, r_sockopt = False\<rparr> True = (- 3, [5])
   \<and> Accept [(- 1, EINTR), (7, EOTHER)] False False = Inr (- 2, [7])
   \<and> Connect True
        [(\<lparr>r_socket = 5, r_getfl = True, r_setfl = True, r_sockopt = True\<rparr>, Some EINTR),
         (\<lparr>r_socket = 6, r_getfl = True, r_setfl = True, r_sockopt = True\<rparr>, None)] = Inr ((6, True), [5, 6])"
  by (auto simp: Listen_def CreateSocket_def SetNonBlock_def Let_def split: prod.splits if_splits)

end
