(* ===== verification/Json_Data.thy ===== *)
theory Json_Data
  imports C_Strings "HOL-Library.Multiset"
begin

text \<open>
  JSON values as a datatype, the contents of a \<open>SharedJsonVal\<close> of
  \<^verbatim>\<open>src/jsontype/jsontype.h\<close>, and the text \<open>SharedJsonVal::DumpJson\<close> writes for them;
  \<open>show_double\<close> prints a floating point number.

  An \<open>unordered_map\<close> is a list of pairs in the order of insertion. In which order its iterator visits
  them is up to the library, and may differ from map to map and from call to call: it depends on the
  hash values of the keys, on the number of buckets and on how the map got that number. \<open>DumpJson\<close>
  takes the orders as an argument.
\<close>

section \<open>Values\<close>

datatype 'd json =
    JNull
  | JBool bool
  | JInt int
  | JDouble 'd
  | JStr string
  | JList "'d json list"
  | JDict "(string \<times> 'd json) list"

section \<open>The printer\<close>

fun sep_by :: "string \<Rightarrow> string list \<Rightarrow> string" where
  "sep_by sep [] = []"
| "sep_by sep [s] = s"
| "sep_by sep (s # t # ts) = s @ sep @ sep_by sep (t # ts)"

definition quoted :: "string \<Rightarrow> string" where
  "quoted s = CHR 0x22 # s @ [CHR 0x22]"

text \<open>The text of a value whose maps are listed in the order of iteration.\<close>

fun json_text :: "('d \<Rightarrow> string) \<Rightarrow> 'd json \<Rightarrow> string" where
  "json_text show_double JNull = ''null''"
| "json_text show_double (JBool b) = (if b then ''1'' else ''0'')"
| "json_text show_double (JInt i) = int_dec i"
| "json_text show_double (JDouble d) = show_double d"
| "json_text show_double (JStr s) = quoted s"
| "json_text show_double (JList vs) =
     ''['' @ sep_by '','' (map (json_text show_double) vs) @ '']''"
| "json_text show_double (JDict d) =
     ''{'' @ sep_by '', '' (map (\<lambda>(k, v). quoted k @ '':'' @ json_text show_double v) d) @ ''}''"

section \<open>The order of iteration\<close>

text \<open>
  For the map of \<open>n\<close> pairs at a path, the positions that its pairs have in the order of insertion, in
  the order of iteration. A path is the places on the way to the map, in vectors and in the order of
  iteration of maps. Any function is possible that gives each position once.
\<close>

type_synonym map_order = "nat list \<Rightarrow> nat \<Rightarrow> nat list"

definition iterates :: "map_order \<Rightarrow> bool" where
  "iterates ord \<longleftrightarrow> (\<forall>p n. mset (ord p n) = mset [0..<n])"

definition below :: "map_order \<Rightarrow> nat \<Rightarrow> map_order" where
  "below ord i p = ord (i # p)"

definition iteration :: "nat list \<Rightarrow> 'a list \<Rightarrow> 'a list" where
  "iteration ps xs = map (nth xs) (filter (\<lambda>i. i < length xs) ps)"

lemma set_iteration: "set (iteration ps xs) \<subseteq> set xs"
  by (auto simp: iteration_def)

lemma enumerate_snd: "x \<in> set (List.enumerate n xs) \<Longrightarrow> snd x \<in> set xs"
  by (metis imageI map_snd_enumerate set_map)

lemma size_pair: "(k, v) \<in> set d \<Longrightarrow> size v < Suc (size_list (size_prod (\<lambda>_. 0) size) d)"
  by (induction d) auto

function iterated :: "map_order \<Rightarrow> 'd json \<Rightarrow> 'd json" where
  "iterated ord JNull = JNull"
| "iterated ord (JBool b) = JBool b"
| "iterated ord (JInt i) = JInt i"
| "iterated ord (JDouble x) = JDouble x"
| "iterated ord (JStr s) = JStr s"
| "iterated ord (JList vs) = JList (map (\<lambda>x. iterated (below ord (fst x)) (snd x)) (List.enumerate 0 vs))"
| "iterated ord (JDict d) =
     JDict (map (\<lambda>x. (fst (snd x), iterated (below ord (fst x)) (snd (snd x))))
       (List.enumerate 0 (iteration (ord [] (length d)) d)))"
  by pat_completeness auto

termination iterated
proof (relation "measure (\<lambda>(ord, v). size v)")
  fix ord :: map_order and vs :: "'d json list" and x
  assume "x \<in> set (List.enumerate 0 vs)"
  then have "snd x \<in> set vs" by (rule enumerate_snd)
  then have "size (snd x) < Suc (size_list size vs)" by (meson less_Suc_eq_le size_list_estimation' order_refl)
  then show "((below ord (fst x), snd x), (ord, JList vs)) \<in> measure (\<lambda>(ord, v). size v)" by simp
next
  fix ord :: map_order and d :: "(string \<times> 'd json) list" and x
  assume "x \<in> set (List.enumerate 0 (iteration (ord [] (length d)) d))"
  then have "snd x \<in> set (iteration (ord [] (length d)) d)" by (rule enumerate_snd)
  then have "snd x \<in> set d" using set_iteration by (rule rev_subsetD)
  then have "size (snd (snd x)) < Suc (size_list (size_prod (\<lambda>_. 0) size) d)" by (intro size_pair [of "fst (snd x)"]) simp
  then show "((below ord (fst x), snd (snd x)), (ord, JDict d)) \<in> measure (\<lambda>(ord, v). size v)" by simp
qed simp

definition DumpJson :: "('d \<Rightarrow> string) \<Rightarrow> map_order \<Rightarrow> 'd json \<Rightarrow> string" where
  "DumpJson show_double ord v = json_text show_double (iterated ord v)"

section \<open>Values in another order\<close>

lemma iteratesD:
  assumes "iterates ord"
  shows "iterates (below ord i)" "set (ord p n) = {..<n}" "length (ord p n) = n" "mset (ord p n) = mset [0..<n]"
proof -
  show *: "mset (ord p n) = mset [0..<n]" for p n using assms by (simp add: iterates_def)
  show "iterates (below ord i)" using assms by (simp add: iterates_def below_def)
  show "set (ord p n) = {..<n}" using mset_eq_setD [OF *] by (simp add: lessThan_atLeast0)
  show "length (ord p n) = n" using mset_eq_length [OF *] by simp
qed

lemma iteration_eq: "iterates ord \<Longrightarrow> iteration (ord p (length xs)) xs = map (nth xs) (ord p (length xs))"
  using iteratesD(2) [of ord p "length xs"] by (simp add: iteration_def)

lemma mset_iteration:
  assumes "iterates ord"
  shows "mset (iteration (ord p (length xs)) xs) = mset xs"
proof -
  have "mset (iteration (ord p (length xs)) xs) = image_mset (nth xs) (mset [0..<length xs])"
    using iteratesD(4) [OF assms] by (simp add: iteration_eq [OF assms] del: mset_upt)
  also have "\<dots> = mset (map (nth xs) [0..<length xs])" by (rule mset_map [symmetric])
  also have "\<dots> = mset xs" by (simp only: map_nth)
  finally show ?thesis .
qed

text \<open>The order of insertion is one of the orders.\<close>

lemma in_order: "iterates (\<lambda>p n. [0..<n])"
  by (simp add: iterates_def)

text \<open>One order after another is an order.\<close>

lemma iterated_list: "iterated ord (JList vs) = JList (map (\<lambda>j. iterated (below ord j) (vs ! j)) [0..<length vs])"
proof -
  have "map (\<lambda>x. iterated (below ord (fst x)) (snd x)) (List.enumerate 0 vs) = map (\<lambda>j. iterated (below ord j) (vs ! j)) [0..<length vs]"
    by (rule nth_equalityI) (simp_all add: nth_enumerate_eq)
  then show ?thesis by (simp only: iterated.simps)
qed

lemma iterated_dict:
  assumes "iterates ord"
  shows "iterated ord (JDict d) = JDict (map
    (\<lambda>j. (fst (d ! (ord [] (length d) ! j)), iterated (below ord j) (snd (d ! (ord [] (length d) ! j))))) [0..<length d])"
proof -
  let ?r = "ord [] (length d)"
  have "map (\<lambda>x. (fst (snd x), iterated (below ord (fst x)) (snd (snd x)))) (List.enumerate 0 (map (nth d) ?r))
    = map (\<lambda>j. (fst (d ! (?r ! j)), iterated (below ord j) (snd (d ! (?r ! j))))) [0..<length d]"
    by (rule nth_equalityI) (simp_all add: nth_enumerate_eq iteratesD(3) [OF assms])
  then show ?thesis by (simp only: iterated.simps iteration_eq [OF assms])
qed

lemma iterates_from:
  assumes "mset (q n) = mset [0..<n]" and "\<And>i. iterates (f i)"
  shows "iterates (\<lambda>p m. case p of [] \<Rightarrow> if m = n then q n else [0..<m] | i # p \<Rightarrow> f i p m)"
  using assms by (auto simp: iterates_def split: list.split simp del: mset_upt)

lemma below_from: "below (\<lambda>p m. case p of [] \<Rightarrow> g m | i # p \<Rightarrow> f i p m) j = f j"
  by (simp add: below_def fun_eq_iff)

lemma orders_for:
  assumes "\<And>j. j < n \<Longrightarrow> \<exists>ord. iterates ord \<and> R j ord"
  obtains f where "\<And>i. iterates (f i)" "\<And>j. j < n \<Longrightarrow> R j (f j)"
proof -
  have "\<forall>j. \<exists>ord. iterates ord \<and> (j < n \<longrightarrow> R j ord)" using assms in_order by blast
  then show thesis using that by metis
qed

lemma order_lt: "iterates ord \<Longrightarrow> j < n \<Longrightarrow> ord p n ! j < n"
  using iteratesD(2) [of ord p n] iteratesD(3) [of ord p n] nth_mem [of j "ord p n"] by simp

lemma iterated_twice:
  "iterates o1 \<Longrightarrow> iterates o2 \<Longrightarrow> \<exists>o3. iterates o3 \<and> iterated o2 (iterated o1 v) = iterated o3 v"
proof (induction v arbitrary: o1 o2)
  case (JList vs)
  let ?n = "length vs"
  have "\<exists>o3. iterates o3 \<and> iterated (below o2 j) (iterated (below o1 j) (vs ! j)) = iterated o3 (vs ! j)" if "j < ?n" for j
    using JList.IH [OF nth_mem [OF that]] iteratesD(1) JList.prems by blast
  then obtain f where f: "\<And>i. iterates (f i)"
    "\<And>j. j < ?n \<Longrightarrow> iterated (below o2 j) (iterated (below o1 j) (vs ! j)) = iterated (f j) (vs ! j)"
    using orders_for [of ?n "\<lambda>j ord. iterated (below o2 j) (iterated (below o1 j) (vs ! j)) = iterated ord (vs ! j)"] by blast
  let ?o3 = "\<lambda>p m. case p of [] \<Rightarrow> if m = ?n then [0..<?n] else [0..<m] | i # p \<Rightarrow> f i p m"
  have "iterated o2 (iterated o1 (JList vs)) = iterated ?o3 (JList vs)"
    using f(2) by (simp add: iterated_list below_from del: iterated.simps)
  with iterates_from [of "\<lambda>n. [0..<n]" ?n f] f(1) show ?case by blast
next
  case (JDict d)
  let ?n = "length d" and ?q = "\<lambda>n. map (nth (o1 [] n)) (o2 [] n)"
  let ?v = "\<lambda>j. snd (d ! (?q ?n ! j))"
  note len = iteratesD(3) [OF JDict.prems(1)] iteratesD(3) [OF JDict.prems(2)]
  note in1 = order_lt [OF JDict.prems(1)] order_lt [OF JDict.prems(2)]
  have "\<exists>o3. iterates o3 \<and> iterated (below o2 j) (iterated (below o1 (o2 [] ?n ! j)) (?v j)) = iterated o3 (?v j)" if j: "j < ?n" for j
  proof -
    obtain key u where u: "d ! (?q ?n ! j) = (key, u)" by (rule prod.exhaust)
    have "d ! (?q ?n ! j) \<in> set d" using in1 j len by simp
    then have "(key, u) \<in> set d" using u by simp
    from JDict.IH [OF this, of u] iteratesD(1) JDict.prems show ?thesis unfolding u by simp
  qed
  then obtain f where f: "\<And>i. iterates (f i)"
    "\<And>j. j < ?n \<Longrightarrow> iterated (below o2 j) (iterated (below o1 (o2 [] ?n ! j)) (?v j)) = iterated (f j) (?v j)"
    using orders_for [of ?n "\<lambda>j ord. iterated (below o2 j) (iterated (below o1 (o2 [] ?n ! j)) (?v j)) = iterated ord (?v j)"] by blast
  let ?o3 = "\<lambda>p m. case p of [] \<Rightarrow> if m = ?n then ?q ?n else [0..<m] | i # p \<Rightarrow> f i p m"
  have "mset (?q ?n) = mset [0..<?n]"
    using mset_iteration [OF JDict.prems(2), of "[]" "o1 [] ?n"] iteration_eq [OF JDict.prems(2), of "[]" "o1 [] ?n"]
      iteratesD(4) [OF JDict.prems(1)] len by (simp del: mset_upt mset_map)
  then have o3: "iterates ?o3" using f(1) by (rule iterates_from)
  have "iterated o2 (iterated o1 (JDict d)) = iterated ?o3 (JDict d)"
    using f(2) in1 len by (simp add: iterated_dict JDict.prems o3 below_from del: iterated.simps)
  with o3 show ?case by blast
qed (use in_order in auto)

text \<open>With the last pair first:\<close>

definition backwards :: map_order where
  "backwards p n = rev [0..<n]"

lemma backwards_ok: "iterates backwards"
  by (simp add: iterates_def backwards_def)

end
