(* ===== verification/Json_Parse.thy ===== *)
theory Json_Parse
  imports Json_Data
begin

text \<open>
  The parser of \<^verbatim>\<open>src/jsontype/details/jsontype.cpp\<close>, \<open>SharedJsonVal::JsonParseUtil\<close>, on
  JSON values as a datatype. How the values are shared and counted is the subject of
  \<open>Json_Cells\<close>. \<open>Json_Spec\<close> and \<open>Json_Total\<close> hold the theorems.

  A pointer into the text is the rest of the text; the parser can step over the terminator
  (\<open>*str++\<close> at the end), after which the pointer is \<open>None\<close>. The conversion of floating point
  numbers is a parameter: \<open>strtod\<close> gives a value and the rest.
\<close>

section \<open>Results\<close>

text \<open>A value and the rest of the text, or \<open>NULL\<close> and where the pointer stands.\<close>

datatype 'd parsed = Got "'d json" string | Failed "string option"

definition dict_insert :: "string \<Rightarrow> 'd json \<Rightarrow> (string \<times> 'd json) list \<Rightarrow> (string \<times> 'd json) list" where
  "dict_insert k v d = (if k \<in> fst ` set d then d else d @ [(k, v)])"

section \<open>Scanning\<close>

definition is_blank :: "char \<Rightarrow> bool" where
  "is_blank c \<longleftrightarrow> c = CHR 0x0A \<or> c = CHR 0x09 \<or> c = CHR 0x20"

definition IgnoreBlanks :: "string \<Rightarrow> string" where
  "IgnoreBlanks s = dropWhile is_blank s"

text \<open>A literal word: \<open>None\<close> when the text does not start with it.\<close>

definition read_word :: "string \<Rightarrow> 'd json \<Rightarrow> string \<Rightarrow> 'd parsed" where
  "read_word w v s =
     (if length s < length w \<or> take (length w) s \<noteq> w then Failed (Some s)
      else Got v (drop (length w) s))"

definition ReadinNull :: "string \<Rightarrow> 'd parsed" where
  "ReadinNull s = read_word ''null'' JNull s"

definition ReadinTrue :: "string \<Rightarrow> 'd parsed" where
  "ReadinTrue s = read_word ''true'' (JBool True) s"

definition ReadinFalse :: "string \<Rightarrow> 'd parsed" where
  "ReadinFalse s = read_word ''false'' (JBool False) s"

text \<open>
  The loop of \<open>ReadinStrRaw_\<close> with the character before the pointer: what comes before the
  closing quote and what comes after it.
\<close>

fun str_end :: "char option \<Rightarrow> string \<Rightarrow> (string \<times> string) option" where
  "str_end prev [] = None"
| "str_end prev (c # cs) =
     (if c = CHR 0x22 \<and> prev \<noteq> Some CHR 0x5C then Some ([], cs)
      else map_option (\<lambda>(a, b). (c # a, b)) (str_end (Some c) cs))"

definition ReadinStrRaw :: "string \<Rightarrow> string option \<times> string" where
  "ReadinStrRaw s =
     (case s of
        [] \<Rightarrow> (None, s)
      | c # cs \<Rightarrow>
          if c \<noteq> CHR 0x22 then (None, s)
          else (case str_end None cs of None \<Rightarrow> (None, []) | Some (content, rest) \<Rightarrow> (Some content, rest)))"

definition ReadinStr :: "string \<Rightarrow> 'd parsed" where
  "ReadinStr s =
     (case ReadinStrRaw s of
        (None, rest) \<Rightarrow> Failed (Some rest)
      | (Some content, rest) \<Rightarrow> Got (JStr content) rest)"

definition ReadInDigits :: "(string \<Rightarrow> 'd \<times> string) \<Rightarrow> string \<Rightarrow> 'd parsed" where
  "ReadInDigits strtod s =
     (let (l, endptr) = strtoll s in
      if endptr \<noteq> [] \<and> hd endptr = CHR ''.'' then let (d, endptr') = strtod s in Got (JDouble d) endptr'
      else Got (JInt l) endptr)"

section \<open>The parser\<close>

text \<open>
  \<open>ERROR_HANDLE\<close> of \<open>ParseJson\<close>: it copies the text from the pointer on and erases from its
  character 20 on, which throws \<open>std::out_of_range\<close> when there are fewer.
\<close>

definition parse_error :: "string option \<Rightarrow> 'd parsed result" where
  "parse_error p =
     (case p of
        None \<Rightarrow> Inl Out_Of_Bounds
      | Some s \<Rightarrow> if length s < 20 then Inl Out_Of_Range else Inr (Failed (Some s)))"

definition check_null :: "'d parsed result \<Rightarrow> 'd parsed result" where
  "check_null r =
     (case r of
        Inl e \<Rightarrow> Inl e
      | Inr (Got v s) \<Rightarrow> Inr (Got v s)
      | Inr (Failed p) \<Rightarrow> parse_error p)"

text \<open>A comma is skipped when there is one.\<close>

definition skip_comma :: "string \<Rightarrow> string" where
  "skip_comma s = (if s \<noteq> [] \<and> hd s = CHR '','' then tl s else s)"

text \<open>
  The functions call one another; the first argument bounds the depth of calls, a round of a
  loop counting as a call. \<open>ListLoop\<close> and \<open>DictLoop\<close> are the loops of \<open>ReadinList_\<close> and
  \<open>ReadinDict_\<close> with what they have collected.
\<close>

fun ParseValue :: "(string \<Rightarrow> 'd \<times> string) \<Rightarrow> nat \<Rightarrow> string \<Rightarrow> 'd parsed result"
  and ListLoop :: "(string \<Rightarrow> 'd \<times> string) \<Rightarrow> nat \<Rightarrow> string \<Rightarrow> 'd json list \<Rightarrow> 'd parsed result"
  and DictLoop ::
    "(string \<Rightarrow> 'd \<times> string) \<Rightarrow> nat \<Rightarrow> string \<Rightarrow> (string \<times> 'd json) list \<Rightarrow> 'd parsed result"
where
  "ParseValue sd 0 str = Inl Diverges"
| "ParseValue sd (Suc f) str =
     (let s = IgnoreBlanks str in
      if s = [] then parse_error (Some s)
      else let c = hd s in
      if c = CHR ''n'' then check_null (Inr (ReadinNull s))
      else if c = CHR ''t'' then check_null (Inr (ReadinTrue s))
      else if c = CHR ''f'' then check_null (Inr (ReadinFalse s))
      else if c = CHR 0x22 then check_null (Inr (ReadinStr s))
      else if c = CHR ''['' then
        let s' = IgnoreBlanks (tl s) in
        check_null (if s' = [] then Inr (Failed (Some s')) else ListLoop sd f s' [])
      else if c = CHR ''{'' then
        let s' = IgnoreBlanks (tl s) in
        check_null (if s' = [] then Inr (Failed (Some s')) else DictLoop sd f s' [])
      else if is_digit c \<or> c = CHR ''-'' then check_null (Inr (ReadInDigits sd s))
      else parse_error (Some s))"
| "ListLoop sd 0 str acc = Inl Diverges"
| "ListLoop sd (Suc f) str acc =
     (if str = [] then Inr (Failed None)
      else if hd str = CHR '']'' then Inr (Got (JList acc) (tl str))
      else
        (case ParseValue sd f (IgnoreBlanks str) of
           Inl e \<Rightarrow> Inl e
         | Inr (Failed p) \<Rightarrow> Inr (Failed p)
         | Inr (Got v s) \<Rightarrow> ListLoop sd f (skip_comma (IgnoreBlanks s)) (acc @ [v])))"
| "DictLoop sd 0 str acc = Inl Diverges"
| "DictLoop sd (Suc f) str acc =
     (if str = [] then Inr (Failed None)
      else if hd str = CHR ''}'' then Inr (Got (JDict acc) (tl str))
      else
        (case ReadinStrRaw (IgnoreBlanks str) of
           (None, s) \<Rightarrow> Inr (Failed (Some s))
         | (Some key, s) \<Rightarrow>
             if key = [] then Inr (Failed (Some s))
             else let s1 = IgnoreBlanks s in
             if s1 = [] then Inr (Failed None)
             else if hd s1 \<noteq> CHR '':'' then Inr (Failed (Some (tl s1)))
             else
               (case ParseValue sd f (IgnoreBlanks (tl s1)) of
                  Inl e \<Rightarrow> Inl e
                | Inr (Failed p) \<Rightarrow> Inr (Failed p)
                | Inr (Got v s2) \<Rightarrow>
                    DictLoop sd f (skip_comma (IgnoreBlanks s2)) (dict_insert key v acc))))"

text \<open>\<open>ParseJson\<close>: twice the length of the text is enough for texts the parser gets through.\<close>

definition parse_rounds :: "string \<Rightarrow> nat" where
  "parse_rounds s = 2 * length s + 2"

definition ParseJson :: "(string \<Rightarrow> 'd \<times> string) \<Rightarrow> string \<Rightarrow> 'd parsed result" where
  "ParseJson sd str = ParseValue sd (parse_rounds (c_str str)) (c_str str)"

end
