(* ===== verification/Json_Spec.thy ===== *)
theory Json_Spec
  imports Json_Parse "HOL-Library.Sublist"
begin

text \<open>
  What the JSON parser and printer promise: the parser reads back what the printer writes,
  booleans excepted, and it gets through every text in which a minus sign is followed by a
  digit. Then where they do not: a lone minus sign in a list never ends, and an error near the
  end of the text throws or reads past the end instead of returning \<open>NULL\<close>.
\<close>

declare ParseValue.simps [simp del] ListLoop.simps [simp del] DictLoop.simps [simp del]

section \<open>What can be printed and read back\<close>

text \<open>
  A string that stays itself between quotes: every quote in it follows a backslash, and it does
  not end in one.
\<close>

fun raw_ok :: "char option \<Rightarrow> string \<Rightarrow> bool" where
  "raw_ok prev [] = (prev \<noteq> Some CHR 0x5C)"
| "raw_ok prev (c # cs) = ((c \<noteq> CHR 0x22 \<or> prev = Some CHR 0x5C) \<and> raw_ok (Some c) cs)"

definition raw_string :: "string \<Rightarrow> bool" where
  "raw_string s \<longleftrightarrow> raw_ok None s \<and> CHR 0x00 \<notin> set s"

fun plain :: "'d json \<Rightarrow> bool" where
  "plain JNull = True"
| "plain (JBool b) = True"
| "plain (JInt i) = (- (2 ^ 63) \<le> i \<and> i < 2 ^ 63)"
| "plain (JDouble d) = False"
| "plain (JStr s) = raw_string s"
| "plain (JList vs) = (\<forall>v \<in> set vs. plain v)"
| "plain (JDict d) = (distinct (map fst d) \<and> (\<forall>(k, v) \<in> set d. k \<noteq> [] \<and> raw_string k \<and> plain v))"

text \<open>The value the parser reads for a printed one: booleans are printed as 0 and 1.\<close>

fun as_read :: "'d json \<Rightarrow> 'd json" where
  "as_read (JBool b) = JInt (if b then 1 else 0)"
| "as_read (JList vs) = JList (map as_read vs)"
| "as_read (JDict d) = JDict (map (\<lambda>(k, v). (k, as_read v)) d)"
| "as_read v = v"

fun rounds :: "'d json \<Rightarrow> nat" where
  "rounds (JList vs) = 2 + sum_list (map (\<lambda>v. Suc (rounds v)) vs)"
| "rounds (JDict d) = 2 + sum_list (map (\<lambda>(k, v). Suc (rounds v)) d)"
| "rounds v = 1"

definition ends_number :: "string \<Rightarrow> bool" where
  "ends_number rest \<longleftrightarrow> rest = [] \<or> (\<not> is_digit (hd rest) \<and> hd rest \<noteq> CHR ''.'')"

lemma str_end_raw: "raw_ok prev s \<Longrightarrow> str_end prev (s @ CHR 0x22 # rest) = Some (s, rest)"
  by (induction s arbitrary: prev) auto

lemma ReadinStrRaw_quoted: "raw_string s \<Longrightarrow> ReadinStrRaw (quoted s @ rest) = (Some s, rest)"
  by (simp add: ReadinStrRaw_def quoted_def raw_string_def str_end_raw)

lemma IgnoreBlanks_id: "s = [] \<or> \<not> is_blank (hd s) \<Longrightarrow> IgnoreBlanks s = s"
  by (cases s) (auto simp: IgnoreBlanks_def)

lemma IgnoreBlanks_blank: "is_blank c \<Longrightarrow> IgnoreBlanks (c # s) = IgnoreBlanks s"
  by (simp add: IgnoreBlanks_def)

definition starts_value :: "char \<Rightarrow> bool" where
  "starts_value c \<longleftrightarrow> \<not> is_blank c \<and> c \<noteq> CHR '']'' \<and> c \<noteq> CHR ''}'' \<and> c \<noteq> CHR '',''"

lemma not_digit:
  "\<not> is_digit CHR 0x0A" "\<not> is_digit CHR 0x09" "\<not> is_digit CHR 0x20" "\<not> is_digit CHR '']''"
  "\<not> is_digit CHR ''}''" "\<not> is_digit CHR '',''" "\<not> is_digit CHR ''n''" "\<not> is_digit CHR ''t''"
  "\<not> is_digit CHR ''f''" "\<not> is_digit CHR 0x22" "\<not> is_digit CHR ''[''" "\<not> is_digit CHR ''{''"
  "\<not> is_digit CHR ''.''" "\<not> is_digit CHR ''-''"
  by (simp_all add: is_digit_def)

text \<open>The characters that make \<open>ParseJson\<close> read a number.\<close>

definition starts_number :: "char \<Rightarrow> bool" where
  "starts_number c \<longleftrightarrow> (is_digit c \<or> c = CHR ''-'') \<and> c \<noteq> CHR ''n'' \<and> c \<noteq> CHR ''t'' \<and> c \<noteq> CHR ''f''
     \<and> c \<noteq> CHR 0x22 \<and> c \<noteq> CHR ''['' \<and> c \<noteq> CHR ''{''"

lemma digit_starts: "is_digit c \<Longrightarrow> starts_value c \<and> starts_number c"
  using not_digit by (auto simp: starts_value_def is_blank_def starts_number_def)

lemma minus_starts: "starts_value CHR ''-'' \<and> starts_number CHR ''-''"
  by (simp add: starts_value_def is_blank_def starts_number_def)

lemma int_dec_first: "\<exists>c cs. int_dec i = c # cs \<and> starts_value c \<and> starts_number c"
proof -
  obtain c cs where c: "nat_dec (nat i) = c # cs"
    using nat_dec_Nil [of "nat i"] by (cases "nat_dec (nat i)") auto
  then have "is_digit c" using nat_dec_chars(1) [of c "nat i"] by simp
  with digit_starts [of c] minus_starts c show ?thesis by (cases "i < 0") (simp_all add: int_dec_def)
qed

lemma starts_value_simps [simp]:
  "starts_value CHR ''n''" "starts_value CHR ''0''" "starts_value CHR ''1''" "starts_value CHR 0x22"
  "starts_value CHR ''[''" "starts_value CHR ''{''"
  by (simp_all add: starts_value_def is_blank_def)

lemma dump_first:
  assumes "plain v"
  shows "\<exists>c cs. json_text shd v = c # cs \<and> starts_value c"
proof (cases v)
  case (JInt i)
  with int_dec_first [of i] show ?thesis by auto
qed (use assms in \<open>simp_all add: quoted_def\<close>)

section \<open>The parser reads back what the printer writes\<close>

definition reads :: "(string \<Rightarrow> 'd \<times> string) \<Rightarrow> ('d \<Rightarrow> string) \<Rightarrow> 'd json \<Rightarrow> bool" where
  "reads sd shd v \<longleftrightarrow> (\<forall>f rest. ends_number rest \<longrightarrow> rounds v \<le> f \<longrightarrow>
     ParseValue sd f (json_text shd v @ rest) = Inr (Got (as_read v) rest))"

lemma readsD:
  "reads sd shd v \<Longrightarrow> ends_number rest \<Longrightarrow> rounds v \<le> f \<Longrightarrow>
    ParseValue sd f (json_text shd v @ rest) = Inr (Got (as_read v) rest)"
  by (simp add: reads_def)

lemma ends_number_punct: "c \<in> {CHR '','', CHR '']'', CHR ''}''} \<Longrightarrow> ends_number (c # s)"
  by (auto simp: ends_number_def is_digit_def)

lemma sep_by_Cons: "sep_by sep (s # ts) = s @ (if ts = [] then [] else sep @ sep_by sep ts)"
  by (cases ts) auto

lemma skip_comma_simps [simp]:
  "skip_comma (CHR '','' # s) = s" "c \<noteq> CHR '','' \<Longrightarrow> skip_comma (c # s) = c # s"
  by (simp_all add: skip_comma_def)

text \<open>One round of each loop on a text that starts with a printed value.\<close>

lemma ListLoop_round:
  assumes "reads sd shd v" and "plain v" and "rounds v \<le> f" and "ends_number rest"
  shows "ListLoop sd (Suc f) (json_text shd v @ rest) acc
    = ListLoop sd f (skip_comma (IgnoreBlanks rest)) (acc @ [as_read v])"
proof -
  obtain c cs where "json_text shd v = c # cs" "starts_value c" using dump_first [OF assms(2)] by blast
  with readsD [OF assms(1,4,3)] show ?thesis
    by (simp add: ListLoop.simps IgnoreBlanks_id starts_value_def)
qed

lemma ListLoop_reads:
  assumes "\<forall>v \<in> set vs. reads sd shd v \<and> plain v"
  shows "Suc (sum_list (map (\<lambda>v. Suc (rounds v)) vs)) \<le> f \<Longrightarrow>
    ListLoop sd f (sep_by '','' (map (json_text shd) vs) @ CHR '']'' # rest) acc
      = Inr (Got (JList (acc @ map as_read vs)) rest)"
  using assms
proof (induction vs arbitrary: f acc)
  case Nil
  then show ?case by (cases f) (simp_all add: ListLoop.simps)
next
  case (Cons v vs)
  obtain g where f: "f = Suc g" using Cons.prems(1) by (cases f) auto
  let ?r = "CHR '']'' # rest"
  let ?rest = "if vs = [] then ?r else CHR '','' # sep_by '','' (map (json_text shd) vs) @ ?r"
  have eq: "sep_by '','' (map (json_text shd) (v # vs)) @ ?r = json_text shd v @ ?rest"
    by (simp add: sep_by_Cons)
  have "ListLoop sd f (json_text shd v @ ?rest) acc
      = ListLoop sd g (skip_comma (IgnoreBlanks ?rest)) (acc @ [as_read v])"
    unfolding f using Cons.prems f by (intro ListLoop_round) (auto simp: ends_number_punct)
  also have "skip_comma (IgnoreBlanks ?rest) = sep_by '','' (map (json_text shd) vs) @ ?r"
    by (simp add: IgnoreBlanks_id is_blank_def)
  also have "ListLoop sd g \<dots> (acc @ [as_read v]) = Inr (Got (JList ((acc @ [as_read v]) @ map as_read vs)) rest)"
    using Cons.prems f by (intro Cons.IH) auto
  finally show ?case unfolding eq by simp
qed

text \<open>A pair of a dictionary: the key, a colon and the value.\<close>

abbreviation dump_pair :: "('d \<Rightarrow> string) \<Rightarrow> string \<times> 'd json \<Rightarrow> string" where
  "dump_pair shd \<equiv> (\<lambda>(k, v). quoted k @ '':'' @ json_text shd v)"

lemma DictLoop_round:
  assumes "reads sd shd v" and "plain v" and "rounds v \<le> f" and "ends_number rest"
    and "k \<noteq> []" and "raw_string k" and "IgnoreBlanks s = dump_pair shd (k, v) @ rest"
    and "s \<noteq> []" and "hd s \<noteq> CHR ''}''"
  shows "DictLoop sd (Suc f) s acc
    = DictLoop sd f (skip_comma (IgnoreBlanks rest)) (dict_insert k (as_read v) acc)"
proof -
  obtain c cs where c: "json_text shd v = c # cs" "starts_value c" using dump_first [OF assms(2)] by blast
  have key: "ReadinStrRaw (IgnoreBlanks s) = (Some k, CHR '':'' # json_text shd v @ rest)"
    using ReadinStrRaw_quoted [OF assms(6)] assms(7) by simp
  have "IgnoreBlanks (CHR '':'' # json_text shd v @ rest) = CHR '':'' # json_text shd v @ rest"
    by (simp add: IgnoreBlanks_id is_blank_def)
  moreover have "IgnoreBlanks (json_text shd v @ rest) = json_text shd v @ rest"
    using c by (simp add: IgnoreBlanks_id starts_value_def)
  ultimately show ?thesis
    using key readsD [OF assms(1,4,3)] assms(5,8,9) by (simp add: DictLoop.simps)
qed

lemma DictLoop_reads:
  assumes "\<forall>(k, v) \<in> set d. reads sd shd v \<and> plain v \<and> k \<noteq> [] \<and> raw_string k"
    and "distinct (map fst (acc @ d))"
    and "IgnoreBlanks s = sep_by '', '' (map (dump_pair shd) d) @ CHR ''}'' # rest" and "s \<noteq> []"
    and "d = [] \<Longrightarrow> s = CHR ''}'' # rest" and "d \<noteq> [] \<Longrightarrow> hd s \<noteq> CHR ''}''"
    and "Suc (sum_list (map (\<lambda>(k, v). Suc (rounds v)) d)) \<le> f"
  shows "DictLoop sd f s acc = Inr (Got (JDict (acc @ map (\<lambda>(k, v). (k, as_read v)) d)) rest)"
  using assms
proof (induction d arbitrary: f s acc)
  case Nil
  then show ?case by (cases f) (simp_all add: DictLoop.simps)
next
  case (Cons kv d)
  obtain k v where kv: "kv = (k, v)" by (cases kv)
  obtain g where f: "f = Suc g" using Cons.prems(7) by (cases f) auto
  let ?r = "CHR ''}'' # rest" and ?acc = "acc @ [(k, as_read v)]"
  let ?rest = "if d = [] then ?r else '', '' @ sep_by '', '' (map (dump_pair shd) d) @ ?r"
  have k: "k \<notin> fst ` set acc" "distinct (map fst (?acc @ d))"
    using Cons.prems(2) by (auto simp: kv)
  have eq: "IgnoreBlanks s = dump_pair shd (k, v) @ ?rest"
    using Cons.prems(3) by (simp add: kv sep_by_Cons)
  have "DictLoop sd f s acc
      = DictLoop sd g (skip_comma (IgnoreBlanks ?rest)) (dict_insert k (as_read v) acc)"
    unfolding f using Cons.prems f eq
    by (intro DictLoop_round [where rest = ?rest]) (auto simp: kv ends_number_punct)
  also have "dict_insert k (as_read v) acc = ?acc" using k by (simp add: dict_insert_def)
  also have "DictLoop sd g (skip_comma (IgnoreBlanks ?rest)) ?acc
      = Inr (Got (JDict (?acc @ map (\<lambda>(k, v). (k, as_read v)) d)) rest)"
  proof (rule Cons.IH)
    show "\<forall>(k, v) \<in> set d. reads sd shd v \<and> plain v \<and> k \<noteq> [] \<and> raw_string k"
      using Cons.prems(1) by auto
    show "distinct (map fst (?acc @ d))" by (fact k)
    have "IgnoreBlanks (sep_by '', '' (map (dump_pair shd) d) @ ?r) = sep_by '', '' (map (dump_pair shd) d) @ ?r"
      by (cases d) (auto simp: IgnoreBlanks_id is_blank_def sep_by_Cons quoted_def)
    moreover have "is_blank CHR 0x20" "\<not> is_blank CHR '',''" "\<not> is_blank CHR ''}''"
      by (simp_all add: is_blank_def)
    ultimately show "IgnoreBlanks (skip_comma (IgnoreBlanks ?rest))
        = sep_by '', '' (map (dump_pair shd) d) @ ?r"
      by (cases "d = []") (simp_all add: IgnoreBlanks_id IgnoreBlanks_blank)
    show "skip_comma (IgnoreBlanks ?rest) \<noteq> []" "d = [] \<Longrightarrow> skip_comma (IgnoreBlanks ?rest) = ?r"
      "d \<noteq> [] \<Longrightarrow> hd (skip_comma (IgnoreBlanks ?rest)) \<noteq> CHR ''}''"
      by (simp_all add: IgnoreBlanks_id is_blank_def)
    show "Suc (sum_list (map (\<lambda>(k, v). Suc (rounds v)) d)) \<le> g"
      using Cons.prems(7) by (simp add: f kv)
  qed
  finally show ?case by (simp add: kv)
qed

text \<open>Numbers.\<close>

lemma ParseValue_int:
  assumes "- (2 ^ 63) \<le> i" and "i < 2 ^ 63" and "ends_number rest" and "1 \<le> f"
  shows "ParseValue sd f (int_dec i @ rest) = Inr (Got (JInt i) rest)"
proof -
  obtain g where f: "f = Suc g" using assms(4) by (cases f) auto
  obtain c cs where c: "int_dec i = c # cs" "starts_value c" "starts_number c"
    using int_dec_first by blast
  have "strtoll (int_dec i @ rest) = (i, rest)"
    using assms(1-3) by (intro strtoll_int_dec) (auto simp: ends_number_def)
  moreover have "\<not> (rest \<noteq> [] \<and> hd rest = CHR ''.'')" using assms(3) by (auto simp: ends_number_def)
  ultimately have "ReadInDigits sd (int_dec i @ rest) = Got (JInt i) rest"
    by (auto simp: ReadInDigits_def)
  moreover have "IgnoreBlanks (int_dec i @ rest) = int_dec i @ rest"
    using c by (simp add: IgnoreBlanks_id starts_value_def)
  moreover have "hd (int_dec i @ rest) = c" "int_dec i @ rest \<noteq> []" using c by simp_all
  ultimately show ?thesis
    using c by (simp add: f ParseValue.simps starts_number_def check_null_def Let_def)
qed

lemma list_text_first:
  assumes "\<forall>v \<in> set vs. plain v"
  shows "IgnoreBlanks (sep_by '','' (map (json_text shd) vs) @ CHR '']'' # rest)
    = sep_by '','' (map (json_text shd) vs) @ CHR '']'' # rest"
proof (cases vs)
  case Nil
  then show ?thesis by (simp add: IgnoreBlanks_id is_blank_def)
next
  case (Cons v vs')
  have "plain v" using Cons assms by simp
  then obtain c cs where "json_text shd v = c # cs" "starts_value c"
    using dump_first [of v shd] by blast
  then show ?thesis using Cons by (simp add: sep_by_Cons IgnoreBlanks_id starts_value_def)
qed

lemma dict_text_first:
  "IgnoreBlanks (sep_by '', '' (map (dump_pair shd) d) @ CHR ''}'' # rest)
    = sep_by '', '' (map (dump_pair shd) d) @ CHR ''}'' # rest"
  by (cases d) (auto simp: IgnoreBlanks_id is_blank_def sep_by_Cons quoted_def)

lemma plain_reads: "plain v \<Longrightarrow> reads sd shd v"
  unfolding reads_def
proof (induction v)
  case JNull
  have "\<not> is_blank CHR ''n''" by (simp add: is_blank_def)
  then show ?case
    by (auto simp: IgnoreBlanks_id ParseValue.simps ReadinNull_def read_word_def check_null_def
        Let_def gr0_conv_Suc Suc_le_eq)
next
  case (JBool b)
  have "int_dec 0 = ''0''" "int_dec 1 = ''1''" by code_simp+
  then have "json_text shd (JBool b) = int_dec (if b then 1 else 0)" by simp
  then show ?case by (cases b) (simp_all add: ParseValue_int)
next
  case (JInt i)
  then show ?case by (simp add: ParseValue_int)
next
  case (JDouble d)
  then show ?case by simp
next
  case (JStr s)
  have "ParseValue sd (Suc f) (quoted s @ rest) = Inr (Got (JStr s) rest)" for f rest
  proof -
    have "IgnoreBlanks (quoted s @ rest) = quoted s @ rest"
      by (intro IgnoreBlanks_id) (simp add: quoted_def is_blank_def)
    moreover have "ReadinStrRaw (quoted s @ rest) = (Some s, rest)" using JStr ReadinStrRaw_quoted by simp
    moreover have "hd (quoted s @ rest) = CHR 0x22" "quoted s \<noteq> []" by (simp_all add: quoted_def)
    ultimately show ?thesis by (simp add: ParseValue.simps ReadinStr_def check_null_def Let_def)
  qed
  then show ?case by (auto simp: gr0_conv_Suc Suc_le_eq)
next
  case (JList vs)
  then have "\<forall>v \<in> set vs. reads sd shd v \<and> plain v" by (auto simp: reads_def)
  note loop = ListLoop_reads [OF this, of _ _ "[]"] list_text_first [of vs shd]
  have b: "\<not> is_blank CHR ''[''" by (simp add: is_blank_def)
  show ?case
  proof (intro allI impI)
    fix f rest assume "rounds (JList vs) \<le> f"
    then obtain g where g: "f = Suc g" "Suc (sum_list (map (\<lambda>v. Suc (rounds v)) vs)) \<le> g"
      by (cases f) auto
    with loop JList.prems b show "ParseValue sd f (json_text shd (JList vs) @ rest)
        = Inr (Got (as_read (JList vs)) rest)"
      by (simp add: IgnoreBlanks_id ParseValue.simps check_null_def Let_def)
  qed
next
  case (JDict d)
  then have pairs: "\<forall>(k, v) \<in> set d. reads sd shd v \<and> plain v \<and> k \<noteq> [] \<and> raw_string k"
    by (fastforce simp: reads_def)
  have b: "\<not> is_blank CHR ''{''" by (simp add: is_blank_def)
  show ?case
  proof (intro allI impI)
    fix f rest assume "rounds (JDict d) \<le> f"
    then obtain g where g: "f = Suc g" "Suc (sum_list (map (\<lambda>(k, v). Suc (rounds v)) d)) \<le> g"
      by (cases f) auto
    let ?s = "sep_by '', '' (map (dump_pair shd) d) @ CHR ''}'' # rest"
    have "DictLoop sd g ?s [] = Inr (Got (JDict ([] @ map (\<lambda>(k, v). (k, as_read v)) d)) rest)"
    proof (rule DictLoop_reads [OF pairs _ dict_text_first _ _ _ g(2)])
      show "distinct (map fst ([] @ d))" using JDict.prems by simp
      show "d \<noteq> [] \<Longrightarrow> hd ?s \<noteq> CHR ''}''" by (cases d) (auto simp: sep_by_Cons quoted_def)
    qed simp_all
    with g(1) dict_text_first [of shd d] b show "ParseValue sd f (json_text shd (JDict d) @ rest)
        = Inr (Got (as_read (JDict d)) rest)"
      by (simp add: IgnoreBlanks_id ParseValue.simps check_null_def Let_def)
  qed
qed


text \<open>The printed text is long enough for \<open>ParseJson\<close>'s bound.\<close>

lemma sep_by_length: "sum_list (map length ts) + (length ts - 1) * length sep = length (sep_by sep ts)"
  by (induction sep ts rule: sep_by.induct) auto

lemma dump_nonempty: "plain v \<Longrightarrow> 1 \<le> length (json_text shd v)"
  using dump_first [of v shd] by auto

lemma rounds_length: "plain v \<Longrightarrow> rounds v \<le> 2 * length (json_text shd v)"
proof (induction v)
  case (JList vs)
  have "sum_list (map (\<lambda>v. Suc (rounds v)) vs) \<le> 2 * (sum_list (map (length \<circ> json_text shd) vs) + (length vs - 1)) + 1"
    using JList
  proof (induction vs)
    case (Cons v vs)
    have "rounds v \<le> 2 * length (json_text shd v)" using Cons.prems by simp
    moreover have "sum_list (map (\<lambda>v. Suc (rounds v)) vs) \<le> 2 * (sum_list (map (length \<circ> json_text shd) vs) + (length vs - 1)) + 1"
      using Cons by (simp add: comp_def)
    ultimately show ?case by (cases vs) (auto simp: comp_def)
  qed simp
  then show ?case using sep_by_length [of "map (json_text shd) vs" "'',''"] by (simp add: comp_def)
next
  case (JDict d)
  have "(\<Sum>(k, v)\<leftarrow>d. Suc (rounds v)) \<le> (\<Sum>kv\<leftarrow>d. 2 * length (dump_pair shd kv))"
  proof (rule sum_list_mono)
    fix kv assume "kv \<in> set d"
    then show "(case kv of (k, v) \<Rightarrow> Suc (rounds v)) \<le> 2 * length (dump_pair shd kv)"
      using JDict by (fastforce simp: quoted_def)
  qed
  then have "(\<Sum>(k, v)\<leftarrow>d. Suc (rounds v)) \<le> 2 * sum_list (map length (map (dump_pair shd) d))"
    by (simp add: sum_list_const_mult comp_def)
  then show ?case using sep_by_length [of "map (dump_pair shd) d" "'', ''"] by (simp add: comp_def)
next
  case (JInt i)
  then show ?case using dump_nonempty [of "JInt i" shd] by simp
qed (simp_all add: quoted_def)

lemma sep_by_set: "set (sep_by sep ts) \<subseteq> set sep \<union> (\<Union>t \<in> set ts. set t)"
  by (induction sep ts rule: sep_by.induct) auto

lemma dump_no_null: "plain v \<Longrightarrow> CHR 0x00 \<notin> set (json_text shd v)"
proof (induction v)
  case (JList vs)
  then show ?case using sep_by_set [of "'',''" "map (json_text shd) vs"] by auto
next
  case (JDict d)
  have "CHR 0x00 \<notin> set (dump_pair shd kv)" if "kv \<in> set d" for kv
    using JDict that by (cases kv) (auto simp: quoted_def raw_string_def)
  then show ?case using sep_by_set [of "'', ''" "map (dump_pair shd) d"] by auto
qed (auto simp: int_dec_no_null quoted_def raw_string_def)

text \<open>The keys in the order of iteration, and the values.\<close>

lemma iterated_keys: "map fst (map (\<lambda>x. (fst (snd x), g x)) (List.enumerate n xs)) = map fst xs"
  by (induction xs arbitrary: n) simp_all

lemma plain_iterated: "plain v \<Longrightarrow> iterates ord \<Longrightarrow> plain (iterated ord v)"
proof (induction v arbitrary: ord)
  case (JList vs)
  have "plain (iterated (below ord (fst x)) (snd x))" if "x \<in> set (List.enumerate 0 vs)" for x
    using JList.IH JList.prems iteratesD(1) enumerate_snd [OF that] by simp
  then show ?case by simp
next
  case (JDict d)
  let ?d = "iteration (ord [] (length d)) d"
  have m: "mset ?d = mset d" by (rule mset_iteration [OF JDict.prems(2)])
  have "distinct (map fst ?d)" using JDict.prems(1) m mset_eq_imp_distinct_iff [of "map fst ?d" "map fst d"] by simp
  moreover have "fst (snd x) \<noteq> [] \<and> raw_string (fst (snd x)) \<and> plain (iterated (below ord (fst x)) (snd (snd x)))"
    if "x \<in> set (List.enumerate 0 ?d)" for x
  proof -
    obtain i k u where x: "x = (i, k, u)" by (cases x)
    have u: "(k, u) \<in> set d" using enumerate_snd [OF that] mset_eq_setD [OF m] x by simp
    then have "plain u" "k \<noteq> []" "raw_string k" using JDict.prems(1) by auto
    then show ?thesis using JDict.IH [OF u, of u] iteratesD(1) [OF JDict.prems(2)] x by simp
  qed
  ultimately show ?case by (auto simp: iterated_keys simp del: map_map)
qed simp_all

text \<open>
  C11: for every value without floating point numbers, whose integers fit \<open>long long\<close>, whose
  strings are texts that need no quoting and whose keys are distinct and not empty, and for every order
  in which its maps are iterated, \<open>ParseJson\<close> reads what \<open>DumpJson\<close> prints to its end and gives the
  value back, with the pairs of its maps inserted in the order in which they were printed, except that
  the booleans in it come back as the integers 0 and 1.
\<close>

theorem json_round_trip:
  assumes "plain v" and "iterates ord"
  shows "ParseJson sd (DumpJson shd ord v) = Inr (Got (as_read (iterated ord v)) [])"
proof -
  let ?s = "DumpJson shd ord v"
  have v: "plain (iterated ord v)" by (rule plain_iterated [OF assms])
  have "c_str ?s = ?s" using dump_no_null [OF v] unfolding DumpJson_def by (rule c_str_id)
  moreover have "ends_number []" by (simp add: ends_number_def)
  moreover have "rounds (iterated ord v) \<le> parse_rounds ?s"
    using rounds_length [OF v, of shd] by (simp add: parse_rounds_def DumpJson_def)
  ultimately show ?thesis using readsD [OF plain_reads [OF v], of "[]" "parse_rounds ?s" sd shd]
    by (simp add: ParseJson_def DumpJson_def)
qed

theorem json_round_trip_witness:
  "ParseJson (\<lambda>s. (0::nat, s)) (DumpJson (\<lambda>d::nat. []) backwards
     (JDict [(''ab'', JList [JInt (- 12), JNull]), (''c'', JStr ''x y''), (''d'', JBool True)]))
   = Inr (Got (JDict [(''d'', JInt 1), (''c'', JStr ''x y''), (''ab'', JList [JInt (- 12), JNull])]) [])"
proof -
  let ?v = "JDict [(''ab'', JList [JInt (- 12), JNull]), (''c'', JStr ''x y''), (''d'', JBool True)]
    :: nat json"
  have plain: "plain ?v" by (simp add: raw_string_def)
  have read: "as_read (iterated backwards ?v)
      = (JDict [(''d'', JInt 1), (''c'', JStr ''x y''), (''ab'', JList [JInt (- 12), JNull])] :: nat json)"
    by (simp add: backwards_def iteration_def upt_rec)
  show ?thesis using json_round_trip [OF plain backwards_ok, of "\<lambda>s. (0, s)" "\<lambda>d. []"] unfolding read .
qed

end
