(* ===== verification/Json_Total.thy ===== *)
theory Json_Total
  imports Json_Spec
begin

text \<open>
  Which texts the JSON parser gets through, what it does at an error, and where it goes wrong:
  a lone minus sign in a list never ends, and an error in the last twenty characters throws or
  reads past the end instead of returning \<open>NULL\<close>.
\<close>

section \<open>The parser only moves forward\<close>

definition stays :: "string \<Rightarrow> 'd parsed result \<Rightarrow> bool" where
  "stays s r = (case r of
     Inl e \<Rightarrow> True
   | Inr (Got v q) \<Rightarrow> suffix q s
   | Inr (Failed None) \<Rightarrow> True
   | Inr (Failed (Some q)) \<Rightarrow> suffix q s)"

lemma stays_simps [simp]:
  "stays s (Inl e)" "stays s (Inr (Got v q)) = suffix q s" "stays s (Inr (Failed None))"
  "stays s (Inr (Failed (Some q))) = suffix q s"
  by (simp_all add: stays_def)

lemma stays_mono: "stays t r \<Longrightarrow> suffix t s \<Longrightarrow> stays s r"
  by (auto simp: stays_def split: sum.splits parsed.splits option.splits intro: suffix_order.trans)

lemma stays_parse_error: "case p of None \<Rightarrow> True | Some q \<Rightarrow> suffix q s \<Longrightarrow> stays s (parse_error p)"
  by (auto simp: parse_error_def split: option.splits)

lemma stays_check_null: "stays s r \<Longrightarrow> stays s (check_null r)"
  by (auto simp: check_null_def stays_def parse_error_def split: sum.splits parsed.splits option.splits)

lemma suffix_IgnoreBlanks: "suffix (IgnoreBlanks s) s"
  by (simp add: IgnoreBlanks_def suffix_dropWhile)

lemma suffix_skip_comma: "suffix (skip_comma s) s"
  by (simp add: skip_comma_def suffix_tl)

lemma suffix_drop_while_trans: "suffix (dropWhile P t) s" if "suffix t s"
  using that suffix_dropWhile suffix_order.trans by blast

lemma str_end_suffix: "str_end prev s = Some (a, b) \<Longrightarrow> suffix b s \<and> length b < length s"
  by (induction prev s arbitrary: a b rule: str_end.induct)
    (auto split: if_splits simp: suffix_Cons)

lemma ReadinStrRaw_suffix:
  assumes "ReadinStrRaw s = (k, q)"
  shows "suffix q s \<and> (k \<noteq> None \<longrightarrow> length q < length s)"
  using assms str_end_suffix [of None "tl s"]
  by (fastforce simp: ReadinStrRaw_def suffix_Cons split: list.splits if_splits option.splits)

lemma split_sign_suffix: "suffix (snd (split_sign s)) s"
  by (cases s) (auto simp: suffix_Cons)

lemma strtoll_suffix: "suffix (snd (strtoll s)) s"
proof -
  have "suffix (snd (split_sign (dropWhile is_space s))) s"
    using split_sign_suffix suffix_dropWhile suffix_order.trans by blast
  then show ?thesis
    by (auto simp: strtoll_def Let_def suffix_drop_while_trans split: prod.split)
qed

lemma read_word_stays: "stays s (Inr (read_word w v s))"
  by (simp add: read_word_def suffix_drop)

text \<open>
  The contract of \<open>strtod\<close>: it returns a pointer into the text, and moves it when the text
  starts with a number.
\<close>

definition number_start :: "string \<Rightarrow> bool" where
  "number_start s \<longleftrightarrow> s \<noteq> [] \<and> (is_digit (hd s) \<or> hd s = CHR ''-'' \<and> tl s \<noteq> [] \<and> is_digit (hd (tl s)))"

definition strtod_ok :: "(string \<Rightarrow> 'd \<times> string) \<Rightarrow> bool" where
  "strtod_ok sd \<longleftrightarrow>
     (\<forall>s. suffix (snd (sd s)) s \<and> (number_start s \<longrightarrow> length (snd (sd s)) < length s))"

lemma ReadInDigits_stays: "strtod_ok sd \<Longrightarrow> stays s (Inr (ReadInDigits sd s))"
  using strtoll_suffix [of s]
  by (auto simp: ReadInDigits_def strtod_ok_def Let_def split: prod.split) (metis snd_conv)+

text \<open>What \<open>ParseJson\<close> does with a text, whatever the bound.\<close>

definition inner :: "string \<Rightarrow> string" where
  "inner s = IgnoreBlanks (tl (IgnoreBlanks s))"

lemma ParseValue_cases:
  obtains (atom) r where "\<And>f. ParseValue sd (Suc f) s = check_null (Inr r)" "IgnoreBlanks s \<noteq> []"
      "r \<in> {ReadinNull (IgnoreBlanks s), ReadinTrue (IgnoreBlanks s), ReadinFalse (IgnoreBlanks s),
        ReadinStr (IgnoreBlanks s)}"
    | (num) "\<And>f. ParseValue sd (Suc f) s = check_null (Inr (ReadInDigits sd (IgnoreBlanks s)))"
      "IgnoreBlanks s \<noteq> []" "is_digit (hd (IgnoreBlanks s)) \<or> hd (IgnoreBlanks s) = CHR ''-''"
    | (bad_char) "\<And>f. ParseValue sd (Suc f) s = parse_error (Some (IgnoreBlanks s))"
    | (unfinished) "\<And>f. ParseValue sd (Suc f) s = check_null (Inr (Failed (Some (inner s))))"
    | (lst) "\<And>f. ParseValue sd (Suc f) s = check_null (ListLoop sd f (inner s) [])" "IgnoreBlanks s \<noteq> []"
    | (dict) "\<And>f. ParseValue sd (Suc f) s = check_null (DictLoop sd f (inner s) [])" "IgnoreBlanks s \<noteq> []"
proof -
  consider "IgnoreBlanks s = []" | "IgnoreBlanks s \<noteq> []" "hd (IgnoreBlanks s) \<in> set ''ntf'' \<union> {CHR 0x22}"
    | "IgnoreBlanks s \<noteq> []" "hd (IgnoreBlanks s) = CHR ''[''"
    | "IgnoreBlanks s \<noteq> []" "hd (IgnoreBlanks s) = CHR ''{''"
    | "IgnoreBlanks s \<noteq> []" "hd (IgnoreBlanks s) \<notin> set ''ntf[{'' \<union> {CHR 0x22}" by auto
  then show ?thesis
  proof cases
    case 1
    then show ?thesis by (intro bad_char) (simp add: ParseValue.simps Let_def)
  next
    case 2
    then show ?thesis by (elim UnE) (auto intro!: atom simp: ParseValue.simps Let_def)
  next
    case 3
    then show ?thesis using unfinished lst
      by (cases "inner s = []") (simp_all add: ParseValue.simps Let_def inner_def)
  next
    case 4
    then show ?thesis using unfinished dict
      by (cases "inner s = []") (simp_all add: ParseValue.simps Let_def inner_def)
  next
    case 5
    then show ?thesis using num bad_char
      by (cases "is_digit (hd (IgnoreBlanks s)) \<or> hd (IgnoreBlanks s) = CHR ''-''")
        (simp_all add: ParseValue.simps Let_def)
  qed
qed

lemma ListLoop_found:
  "\<not> (s = [] \<or> hd s = CHR '']'') \<Longrightarrow> ListLoop sd (Suc f) s acc =
    (case ParseValue sd f (IgnoreBlanks s) of
       Inl e \<Rightarrow> Inl e
     | Inr (Failed p) \<Rightarrow> Inr (Failed p)
     | Inr (Got v s) \<Rightarrow> ListLoop sd f (skip_comma (IgnoreBlanks s)) (acc @ [v]))"
  by (simp add: ListLoop.simps)

lemma DictLoop_cases:
  obtains (unfinished) "\<And>f. DictLoop sd (Suc f) s acc = Inr (Failed None)"
    | (closed) "\<And>f. DictLoop sd (Suc f) s acc = Inr (Got (JDict acc) (tl s))" "s \<noteq> []"
    | (key_missing) k q where "\<And>f. DictLoop sd (Suc f) s acc = Inr (Failed (Some q))"
      "ReadinStrRaw (IgnoreBlanks s) = (k, q)"
    | (no_colon) key q where "\<And>f. DictLoop sd (Suc f) s acc = Inr (Failed (Some (tl (IgnoreBlanks q))))"
      "ReadinStrRaw (IgnoreBlanks s) = (Some key, q)"
    | (found) key q where "ReadinStrRaw (IgnoreBlanks s) = (Some key, q)"
      "\<And>f. DictLoop sd (Suc f) s acc =
        (case ParseValue sd f (IgnoreBlanks (tl (IgnoreBlanks q))) of
           Inl e \<Rightarrow> Inl e
         | Inr (Failed p) \<Rightarrow> Inr (Failed p)
         | Inr (Got v s2) \<Rightarrow> DictLoop sd f (skip_comma (IgnoreBlanks s2)) (dict_insert key v acc))"
proof -
  obtain k q where kq: "ReadinStrRaw (IgnoreBlanks s) = (k, q)" by fastforce
  consider "s = []" | "s \<noteq> []" "hd s = CHR ''}''" | "s \<noteq> []" "hd s \<noteq> CHR ''}''" "k = None \<or> k = Some []"
    | key where "s \<noteq> []" "hd s \<noteq> CHR ''}''" "k = Some key" "key \<noteq> []"
    by (cases k) auto
  then show ?thesis
  proof cases
    case 1
    then show ?thesis by (intro unfinished) (simp add: DictLoop.simps)
  next
    case 2
    then show ?thesis by (intro closed) (simp_all add: DictLoop.simps)
  next
    case 3
    then show ?thesis by (intro key_missing [OF _ kq]) (auto simp: DictLoop.simps kq)
  next
    case 4
    note k = 4 kq
    consider "IgnoreBlanks q = []" | "IgnoreBlanks q \<noteq> []" "hd (IgnoreBlanks q) \<noteq> CHR '':''"
      | "IgnoreBlanks q \<noteq> []" "hd (IgnoreBlanks q) = CHR '':''" by blast
    then show ?thesis
    proof cases
      case 1
      with k show ?thesis by (intro unfinished) (simp add: DictLoop.simps)
    next
      case 2
      with k show ?thesis by (intro no_colon [of q key]) (simp_all add: DictLoop.simps)
    next
      case 3
      with k show ?thesis by (intro found [of key q]) (simp_all add: DictLoop.simps)
    qed
  qed
qed

lemma atom_stays:
  "r \<in> {ReadinNull s, ReadinTrue s, ReadinFalse s, ReadinStr s} \<Longrightarrow> stays s (Inr r)"
  using ReadinStrRaw_suffix [of s]
  by (auto simp: ReadinStr_def ReadinNull_def ReadinTrue_def ReadinFalse_def read_word_stays
      split: prod.split option.split)

lemma suffix_inner: "suffix (inner s) s"
  unfolding inner_def using suffix_IgnoreBlanks suffix_tl suffix_order.trans by metis

lemma parser_stays:
  assumes "strtod_ok sd"
  shows "stays s (ParseValue sd f s) \<and> stays s (ListLoop sd f s acc) \<and> stays s (DictLoop sd f s d)"
proof (induction f arbitrary: s acc d)
  case 0
  then show ?case by (simp add: ParseValue.simps ListLoop.simps DictLoop.simps)
next
  case (Suc f)
  let ?t = "IgnoreBlanks s"
  have val: "stays s (ParseValue sd (Suc f) s)"
  proof (cases rule: ParseValue_cases [where s = s and sd = sd])
    case (atom r)
    then show ?thesis using atom_stays stays_check_null suffix_IgnoreBlanks stays_mono by metis
  next
    case num
    then show ?thesis
      using ReadInDigits_stays [OF assms] stays_check_null suffix_IgnoreBlanks stays_mono by metis
  next
    case bad_char
    then show ?thesis by (simp add: stays_parse_error suffix_IgnoreBlanks)
  next
    case unfinished
    then show ?thesis by (simp add: stays_check_null suffix_inner)
  next
    case lst
    then show ?thesis using Suc stays_check_null suffix_inner stays_mono by metis
  next
    case dict
    then show ?thesis using Suc stays_check_null suffix_inner stays_mono by metis
  qed
  have after: "stays s (ListLoop sd f (skip_comma (IgnoreBlanks q)) acc')"
    "stays s (DictLoop sd f (skip_comma (IgnoreBlanks q)) d')" if "suffix q s" for q acc' d'
    using Suc that suffix_skip_comma suffix_IgnoreBlanks
    by (meson stays_mono suffix_order.trans)+
  have lists: "stays s (ListLoop sd (Suc f) s acc)"
  proof (cases "s = [] \<or> hd s = CHR '']''")
    case True
    then show ?thesis by (auto simp: ListLoop.simps suffix_tl)
  next
    case False
    have v: "stays s (ParseValue sd f ?t)" using Suc suffix_IgnoreBlanks stays_mono by metis
    show ?thesis
    proof (cases "ParseValue sd f ?t")
      case (Inr r)
      with v False after(1) show ?thesis by (cases r) (simp_all add: ListLoop.simps)
    qed (use False in \<open>simp add: ListLoop.simps\<close>)
  qed
  have dicts: "stays s (DictLoop sd (Suc f) s d)"
  proof (cases rule: DictLoop_cases [where s = s and sd = sd and acc = d])
    case (found key q)
    then have q: "suffix (IgnoreBlanks (tl (IgnoreBlanks q))) s"
      using ReadinStrRaw_suffix suffix_IgnoreBlanks suffix_tl suffix_order.trans by metis
    then have v: "stays s (ParseValue sd f (IgnoreBlanks (tl (IgnoreBlanks q))))"
      using Suc stays_mono by metis
    show ?thesis
    proof (cases "ParseValue sd f (IgnoreBlanks (tl (IgnoreBlanks q)))")
      case (Inr r)
      with v found after(2) show ?thesis by (cases r) simp_all
    qed (use found in simp)
  next
    case (key_missing k q)
    then have "suffix q s" using ReadinStrRaw_suffix suffix_IgnoreBlanks suffix_order.trans by metis
    with key_missing show ?thesis by simp
  next
    case (no_colon key q)
    then have "suffix (tl (IgnoreBlanks q)) s"
      using ReadinStrRaw_suffix suffix_IgnoreBlanks suffix_tl suffix_order.trans by metis
    with no_colon show ?thesis by simp
  qed (simp_all add: suffix_tl)
  from val lists dicts show ?case by simp
qed

section \<open>A value takes some of the text\<close>

text \<open>Every minus sign is followed by a digit.\<close>

fun minus_ok :: "string \<Rightarrow> bool" where
  "minus_ok [] = True"
| "minus_ok (c # cs) = ((c = CHR ''-'' \<longrightarrow> cs \<noteq> [] \<and> is_digit (hd cs)) \<and> minus_ok cs)"

lemma minus_ok_suffix: "minus_ok s \<Longrightarrow> suffix t s \<Longrightarrow> minus_ok t"
  by (induction s) (auto simp: suffix_Cons)

lemma minus_ok_number: "minus_ok s \<Longrightarrow> s \<noteq> [] \<Longrightarrow> is_digit (hd s) \<or> hd s = CHR ''-'' \<Longrightarrow> number_start s"
  by (cases s) (auto simp: number_start_def)

lemma strtoll_moves: "number_start s \<Longrightarrow> length (snd (strtoll s)) < length s"
proof -
  assume s: "number_start s"
  then obtain c cs where c: "s = c # cs" "is_digit c \<or> c = CHR ''-'' \<and> cs \<noteq> [] \<and> is_digit (hd cs)"
    by (cases s) (auto simp: number_start_def)
  have digit: "\<not> is_space d \<and> d \<noteq> CHR ''-'' \<and> d \<noteq> CHR ''+''" if "is_digit d" for d
    using that by (auto simp: is_digit_def is_space_def)
  have minus: "\<not> is_space CHR ''-''" by (simp add: is_space_def)
  from c(2) show ?thesis
  proof
    assume d: "is_digit c"
    with digit [OF d] show ?thesis
      by (simp add: strtoll_def c(1) Let_def le_imp_less_Suc length_dropWhile_le)
  next
    assume m: "c = CHR ''-'' \<and> cs \<noteq> [] \<and> is_digit (hd cs)"
    then have "takeWhile is_digit cs \<noteq> []" by (cases cs) auto
    with m minus show ?thesis
      by (simp add: strtoll_def c(1) Let_def le_imp_less_Suc length_dropWhile_le)
  qed
qed

lemma ReadInDigits_moves:
  assumes "strtod_ok sd" and "number_start s" and "ReadInDigits sd s = Got v q"
  shows "length q < length s"
  using assms strtoll_moves [of s]
  by (auto simp: ReadInDigits_def strtod_ok_def Let_def split: prod.splits if_splits)

definition moves :: "string \<Rightarrow> 'd parsed result \<Rightarrow> bool" where
  "moves s r = (\<forall>v q. r = Inr (Got v q) \<longrightarrow> length q < length s)"

lemma moves_simps [simp]:
  "moves s (Inl e)" "moves s (Inr (Failed p))" "moves s (Inr (Got v q)) = (length q < length s)"
  by (simp_all add: moves_def)

lemma moves_mono: "moves t r \<Longrightarrow> suffix t s \<Longrightarrow> moves s r"
  by (fastforce simp: moves_def dest: suffix_length_le)

lemma moves_check_null: "moves s r \<Longrightarrow> moves s (check_null r)"
  by (auto simp: check_null_def moves_def parse_error_def split: sum.splits parsed.splits option.splits)

lemma moves_parse_error: "moves s (parse_error p)"
  by (auto simp: moves_def parse_error_def split: option.splits)

lemma atom_moves:
  assumes "r \<in> {ReadinNull s, ReadinTrue s, ReadinFalse s, ReadinStr s}" and "s \<noteq> []"
  shows "moves s (Inr r)"
  using assms ReadinStrRaw_suffix [of s]
  by (auto simp: ReadinStr_def ReadinNull_def ReadinTrue_def ReadinFalse_def read_word_def
      split: prod.split option.split)

lemma stays_moves: "stays t r \<Longrightarrow> length t < length s \<Longrightarrow> moves s r"
  by (fastforce simp: moves_def stays_def dest: suffix_length_le)

lemma inner_shorter: "IgnoreBlanks s \<noteq> [] \<Longrightarrow> length (inner s) < length s"
proof -
  assume "IgnoreBlanks s \<noteq> []"
  then have "length (tl (IgnoreBlanks s)) < length (IgnoreBlanks s)" by simp
  moreover have "length (inner s) \<le> length (tl (IgnoreBlanks s))" "length (IgnoreBlanks s) \<le> length s"
    unfolding inner_def by (intro suffix_length_le suffix_IgnoreBlanks)+
  ultimately show ?thesis by simp
qed

lemma ParseValue_moves:
  assumes "strtod_ok sd" and "minus_ok s"
  shows "moves s (ParseValue sd f s)"
proof (cases f)
  case 0
  then show ?thesis by (simp add: ParseValue.simps)
next
  case (Suc g)
  show ?thesis
  proof (cases rule: ParseValue_cases [where s = s and sd = sd])
    case (atom r)
    then have "moves (IgnoreBlanks s) (check_null (Inr r))" using atom_moves moves_check_null by blast
    then have "moves s (check_null (Inr r))" using suffix_IgnoreBlanks moves_mono by blast
    with atom Suc show ?thesis by simp
  next
    case num
    have "number_start (IgnoreBlanks s)"
      using num minus_ok_number minus_ok_suffix [OF assms(2) suffix_IgnoreBlanks] by blast
    then have "moves (IgnoreBlanks s) (Inr (ReadInDigits sd (IgnoreBlanks s)))"
      using ReadInDigits_moves [OF assms(1)] by (simp add: moves_def)
    then have "moves s (check_null (Inr (ReadInDigits sd (IgnoreBlanks s))))"
      using suffix_IgnoreBlanks moves_mono moves_check_null by blast
    with num Suc show ?thesis by simp
  next
    case lst
    then have "moves s (ListLoop sd g (inner s) [])"
      using parser_stays [OF assms(1)] stays_moves inner_shorter by blast
    with lst Suc moves_check_null show ?thesis by simp
  next
    case dict
    then have "moves s (DictLoop sd g (inner s) [])"
      using parser_stays [OF assms(1)] stays_moves inner_shorter by blast
    with dict Suc moves_check_null show ?thesis by simp
  qed (simp_all add: Suc moves_parse_error moves_check_null)
qed

section \<open>Enough rounds\<close>

lemma check_null_Diverges: "check_null r = Inl Diverges \<longleftrightarrow> r = Inl Diverges"
  by (auto simp: check_null_def parse_error_def split: sum.splits parsed.splits option.splits)

lemma parse_error_Diverges: "parse_error p \<noteq> Inl Diverges"
  by (auto simp: parse_error_def split: option.splits)

text \<open>More rounds change nothing once the parser returns.\<close>

lemma parser_more_fuel:
  "(ParseValue sd f s \<noteq> Inl Diverges \<longrightarrow> ParseValue sd (Suc f) s = ParseValue sd f s)
   \<and> (ListLoop sd f s acc \<noteq> Inl Diverges \<longrightarrow> ListLoop sd (Suc f) s acc = ListLoop sd f s acc)
   \<and> (DictLoop sd f s d \<noteq> Inl Diverges \<longrightarrow> DictLoop sd (Suc f) s d = DictLoop sd f s d)"
proof (induction f arbitrary: s acc d)
  case 0
  then show ?case by (simp add: ParseValue.simps ListLoop.simps DictLoop.simps)
next
  case (Suc f)
  have "ParseValue sd (Suc f) s \<noteq> Inl Diverges \<longrightarrow> ParseValue sd (Suc (Suc f)) s = ParseValue sd (Suc f) s"
    by (cases rule: ParseValue_cases [where s = s and sd = sd])
      (use Suc in \<open>simp_all add: check_null_Diverges\<close>)
  moreover have "ListLoop sd (Suc f) s acc \<noteq> Inl Diverges
      \<longrightarrow> ListLoop sd (Suc (Suc f)) s acc = ListLoop sd (Suc f) s acc"
  proof (cases "s = [] \<or> hd s = CHR '']''")
    case True
    then show ?thesis by (auto simp: ListLoop.simps(2))
  next
    case False
    show ?thesis
    proof
      assume neq: "ListLoop sd (Suc f) s acc \<noteq> Inl Diverges"
      with False have "ParseValue sd f (IgnoreBlanks s) \<noteq> Inl Diverges"
        by (auto simp: ListLoop.simps(2))
      with Suc have "ParseValue sd (Suc f) (IgnoreBlanks s) = ParseValue sd f (IgnoreBlanks s)" by blast
      with neq Suc show "ListLoop sd (Suc (Suc f)) s acc = ListLoop sd (Suc f) s acc"
        by (simp add: ListLoop_found [OF False] split: sum.splits parsed.splits)
    qed
  qed
  moreover have "DictLoop sd (Suc f) s d \<noteq> Inl Diverges
      \<longrightarrow> DictLoop sd (Suc (Suc f)) s d = DictLoop sd (Suc f) s d"
  proof (cases rule: DictLoop_cases [where s = s and sd = sd and acc = d])
    case (found key q)
    let ?t = "IgnoreBlanks (tl (IgnoreBlanks q))"
    show ?thesis
    proof
      assume neq: "DictLoop sd (Suc f) s d \<noteq> Inl Diverges"
      with found(2) [of f] have "ParseValue sd f ?t \<noteq> Inl Diverges" by auto
      with Suc have "ParseValue sd (Suc f) ?t = ParseValue sd f ?t" by blast
      with neq Suc show "DictLoop sd (Suc (Suc f)) s d = DictLoop sd (Suc f) s d"
        by (simp add: found(2) split: sum.splits parsed.splits)
    qed
  qed simp_all
  ultimately show ?case by blast
qed

lemma ParseValue_more_fuel:
  "ParseValue sd f s \<noteq> Inl Diverges \<Longrightarrow> f \<le> g \<Longrightarrow> ParseValue sd g s = ParseValue sd f s"
proof (induction g)
  case (Suc g)
  then show ?case using parser_more_fuel [of sd g s] by (cases "f = Suc g") (simp_all add: le_Suc_eq)
qed simp

text \<open>
  On a text whose minus signs are followed by digits, twice its length is enough: each call and
  each round leaves less of the text.
\<close>

lemma parser_enough:
  assumes "strtod_ok sd"
  shows "minus_ok s \<Longrightarrow> (2 * length s + 2 \<le> f \<longrightarrow> ParseValue sd f s \<noteq> Inl Diverges)
    \<and> (2 * length s + 3 \<le> f \<longrightarrow> ListLoop sd f s acc \<noteq> Inl Diverges \<and> DictLoop sd f s d \<noteq> Inl Diverges)"
proof (induction f arbitrary: s acc d)
  case 0
  then show ?case by simp
next
  case (Suc f)
  have shorter: "length (skip_comma (IgnoreBlanks q)) < length s" "minus_ok (skip_comma (IgnoreBlanks q))"
    if "ParseValue sd f t = Inr (Got v q)" "suffix t s" for v q t
  proof -
    have t: "minus_ok t" using Suc.prems that(2) minus_ok_suffix by blast
    with ParseValue_moves [OF assms, of t f] that have l: "length q < length t" by simp
    have "stays t (ParseValue sd f t)" using parser_stays [OF assms] by blast
    with that(1) have "suffix q t" by simp
    with t have "minus_ok q" using minus_ok_suffix by blast
    then show "minus_ok (skip_comma (IgnoreBlanks q))"
      using minus_ok_suffix suffix_skip_comma suffix_IgnoreBlanks by blast
    have "suffix (skip_comma (IgnoreBlanks q)) q"
      using suffix_skip_comma suffix_IgnoreBlanks suffix_order.trans by blast
    with l suffix_length_le that(2) show "length (skip_comma (IgnoreBlanks q)) < length s"
      by (meson le_less_trans less_le_trans)
  qed
  have value_ok: "ParseValue sd f t \<noteq> Inl Diverges" if "suffix t s" "2 * length s + 2 \<le> f" for t
    using Suc.IH [of t] Suc.prems that minus_ok_suffix suffix_length_le by fastforce
  have inner_ok: "ListLoop sd f (inner s) acc' \<noteq> Inl Diverges" "DictLoop sd f (inner s) d' \<noteq> Inl Diverges"
    if "IgnoreBlanks s \<noteq> []" "2 * length s + 1 \<le> f" for acc' d'
    using Suc.IH [of "inner s"] Suc.prems inner_shorter [OF that(1)] minus_ok_suffix [OF _ suffix_inner] that(2)
    by fastforce+
  have "2 * length s + 2 \<le> Suc f \<longrightarrow> ParseValue sd (Suc f) s \<noteq> Inl Diverges"
    by (cases rule: ParseValue_cases [where s = s and sd = sd])
      (use inner_ok in \<open>auto simp: check_null_Diverges parse_error_Diverges\<close>)
  moreover have "2 * length s + 3 \<le> Suc f \<longrightarrow> ListLoop sd (Suc f) s acc \<noteq> Inl Diverges"
  proof (cases "s = [] \<or> hd s = CHR '']''")
    case True
    then show ?thesis by (auto simp: ListLoop.simps(2))
  next
    case False
    show ?thesis
      using value_ok [OF suffix_IgnoreBlanks] shorter [OF _ suffix_IgnoreBlanks] Suc.IH
      by (fastforce simp: ListLoop_found [OF False] split: sum.splits parsed.splits)
  qed
  moreover have "2 * length s + 3 \<le> Suc f \<longrightarrow> DictLoop sd (Suc f) s d \<noteq> Inl Diverges"
  proof (cases rule: DictLoop_cases [where s = s and sd = sd and acc = d])
    case (found key q)
    let ?t = "IgnoreBlanks (tl (IgnoreBlanks q))"
    have t: "suffix ?t s"
      using found(1) ReadinStrRaw_suffix suffix_IgnoreBlanks suffix_tl suffix_order.trans by metis
    show ?thesis
      using value_ok [OF t] shorter [OF _ t] Suc.IH
      by (fastforce simp: found(2) split: sum.splits parsed.splits)
  qed simp_all
  ultimately show ?case by blast
qed

section \<open>The theorems\<close>

text \<open>A stand-in for \<open>strtod\<close> that keeps the contract.\<close>

definition skip_one :: "string \<Rightarrow> nat \<times> string" where
  "skip_one s = (0, tl s)"

lemma skip_one_ok: "strtod_ok skip_one"
  by (auto simp: strtod_ok_def skip_one_def number_start_def suffix_tl)

text \<open>
  C15: \<open>ParseJson\<close> ends, with a value, an error or an exception, on every text whose minus signs are
  each followed by a digit, whatever else is in it: the bound of the model is enough, and every larger one gives the same result.
\<close>

theorem json_parser_returns:
  assumes "strtod_ok sd" and "minus_ok (c_str s)"
  shows "ParseJson sd s \<noteq> Inl Diverges
    \<and> (\<forall>f \<ge> parse_rounds (c_str s). ParseValue sd f (c_str s) = ParseJson sd s)"
proof -
  have "ParseJson sd s \<noteq> Inl Diverges"
    using parser_enough [OF assms, of "parse_rounds (c_str s)"] by (simp add: ParseJson_def parse_rounds_def)
  then show ?thesis using ParseValue_more_fuel by (auto simp: ParseJson_def)
qed

theorem json_parser_returns_witness:
  "ParseJson skip_one ''[-1, {''
     \<noteq> Inl Diverges \<and> minus_ok ''[-1, {'' \<and> ParseValue skip_one 100 ''[-1, {'' = ParseJson skip_one ''[-1, {''"
proof -
  have c: "c_str ''[-1, {'' = ''[-1, {''" "minus_ok ''[-1, {''" "parse_rounds ''[-1, {'' \<le> 100"
    by code_simp+
  then have "minus_ok (c_str ''[-1, {'')" by simp
  from json_parser_returns [OF skip_one_ok this] c show ?thesis by auto
qed

text \<open>
  a list whose text goes on with a minus sign that no digit follows is never finished: the
  number is read as 0, nothing of the text is used, and \<open>ReadinList_\<close> appends zeros for ever.
\<close>

theorem json_lone_minus_diverges:
  assumes "s = [] \<or> \<not> is_digit (hd s)"
  shows "ParseValue sd f (''[-'' @ s) = Inl Diverges"
proof -
  let ?t = "CHR ''-'' # s"
  have minus: "\<not> is_space CHR ''-''" "\<not> is_blank CHR ''-''" "\<not> is_blank CHR ''[''"
    by (simp_all add: is_space_def is_blank_def)
  have "takeWhile is_digit s = []" using assms by (cases s) auto
  then have "strtoll ?t = (0, ?t)" using minus by (simp add: strtoll_def)
  then have zero: "ParseValue sd (Suc f) ?t = Inr (Got (JInt 0) ?t)" for f
    using minus by (simp add: ParseValue.simps IgnoreBlanks_id ReadInDigits_def check_null_def Let_def)
  have loop: "ListLoop sd f ?t acc = Inl Diverges" for f acc
  proof (induction f arbitrary: acc)
    case 0
    then show ?case by (simp add: ListLoop.simps)
  next
    case (Suc f)
    then show ?case using minus zero
      by (cases f) (simp_all add: ListLoop.simps(2) IgnoreBlanks_id ParseValue.simps(1))
  qed
  show ?thesis
  proof (cases f)
    case 0
    then show ?thesis by (simp add: ParseValue.simps)
  next
    case (Suc g)
    with minus loop show ?thesis by (simp add: ParseValue.simps IgnoreBlanks_id check_null_def Let_def)
  qed
qed

theorem json_lone_minus_diverges_witness: "ParseValue skip_one 1000000 ''[-]'' = Inl Diverges"
  using json_lone_minus_diverges [of "'']''" skip_one 1000000] not_digit(4) by simp

lemma check_null_Failed: "check_null r = Inr (Failed p) \<Longrightarrow> \<exists>q. p = Some q \<and> 20 \<le> length q"
  by (auto simp: check_null_def parse_error_def split: sum.splits parsed.splits option.splits if_splits)

lemma parse_error_Failed: "parse_error r = Inr (Failed p) \<Longrightarrow> \<exists>q. p = Some q \<and> 20 \<le> length q"
  by (auto simp: parse_error_def split: option.splits if_splits)

lemma ParseValue_Failed: "ParseValue sd f s = Inr (Failed p) \<Longrightarrow> \<exists>q. p = Some q \<and> 20 \<le> length q"
proof (cases f)
  case (Suc g)
  assume "ParseValue sd f s = Inr (Failed p)"
  with Suc show ?thesis
    by (cases rule: ParseValue_cases [where s = s and sd = sd])
      (use check_null_Failed parse_error_Failed in \<open>auto dest!: check_null_Failed parse_error_Failed\<close>)
qed (simp add: ParseValue.simps)

text \<open>
  \<open>ParseJson\<close> returns \<open>NULL\<close> only for an error with at least 20 characters left to read.
  Any other error, so every error in a text shorter than that, throws \<open>std::out_of_range\<close> or
  reads past the terminator.
\<close>

theorem json_null_needs_twenty_left:
  assumes "strtod_ok sd" and "ParseJson sd s = Inr (Failed p)"
  shows "\<exists>q. p = Some q \<and> suffix q (c_str s) \<and> 20 \<le> length q"
proof -
  obtain q where q: "p = Some q" "20 \<le> length q"
    using ParseValue_Failed assms(2) unfolding ParseJson_def by blast
  have "stays (c_str s) (ParseJson sd s)" using parser_stays [OF assms(1)] unfolding ParseJson_def by blast
  with assms(2) q show ?thesis by simp
qed

theorem json_null_needs_twenty_left_witness:
  "(\<exists>q. Some (replicate 20 CHR ''x'') = Some q \<and> suffix q (c_str (replicate 20 CHR ''x'')) \<and> 20 \<le> length q)
   \<and> ParseJson skip_one (replicate 20 CHR ''x'') = Inr (Failed (Some (replicate 20 CHR ''x'')))
   \<and> ParseJson skip_one (replicate 19 CHR ''x'') = Inl Out_Of_Range
   \<and> ParseJson skip_one ''nul'' = Inl Out_Of_Range
   \<and> ParseJson skip_one ''[1, 2'' = Inl Out_Of_Bounds"
proof -
  have p: "ParseJson skip_one (replicate 20 CHR ''x'') = Inr (Failed (Some (replicate 20 CHR ''x'')))"
    "ParseJson skip_one (replicate 19 CHR ''x'') = Inl Out_Of_Range"
    "ParseJson skip_one ''nul'' = Inl Out_Of_Range" "ParseJson skip_one ''[1, 2'' = Inl Out_Of_Bounds"
    by code_simp+
  with json_null_needs_twenty_left [OF skip_one_ok p(1)] show ?thesis by simp
qed

text \<open>A string that ends in an escaped backslash has no end for the parser.\<close>

lemma json_escaped_backslash:
  "ParseJson skip_one (quoted [CHR ''a'', CHR 0x5C, CHR 0x5C]) = Inl Out_Of_Range"
  by code_simp

end
