(* ===== verification/Mpsc_Pipe.thy ===== *)
theory Mpsc_Pipe
  imports Prelude
begin

unbundle bit_operations_syntax

text \<open>
  \<^verbatim>\<open>src/mpsc_fixed_pipe/mpsc_fixed_pipe.hpp\<close>: the ring buffer of messages with many senders and
  one receiver. The state has the memory of the pipe byte by byte, the pace of the receiver, and
  the two paces of the senders as the 64-bit words they are, a pointer in the low 48 bits and a
  version in the high 16. \<open>Mpsc_Spec\<close> holds the theorems for calls that follow one another and
  \<open>Mpsc_Race\<close> those for senders that overlap.

  A pointer is a number. An access outside the memory of the pipe is a fault. The header of a
  message is a list of bytes of a fixed length (a multiple of four, so that the size follows it
  without padding); sizes are stored least significant byte first.
\<close>

section \<open>State\<close>

record mpsc_pipe =
  header_size :: nat
  size_pipe :: nat
  max_size_content :: nat
  threshold_sender_notify :: nat
  pipe_start :: nat
  receiver_pace :: nat
  sender_pace_from :: "64 word"
  sender_pace_to :: "64 word"
  pipe_bytes :: "8 word list"

definition end_of_pipe :: "mpsc_pipe \<Rightarrow> nat" where
  "end_of_pipe p = pipe_start p + size_pipe p"

definition kMsgOffset :: "mpsc_pipe \<Rightarrow> nat" where
  "kMsgOffset p = header_size p + 4"

definition kMaskNotWriting :: "32 word" where
  "kMaskNotWriting = 0x80000000"

definition kMaskPtr :: "64 word" where
  "kMaskPtr = push_bit (64 - 16) 1 - 1"

definition kMaskVersion :: "64 word" where
  "kMaskVersion = NOT kMaskPtr"

definition kNumVersions :: "64 word" where
  "kNumVersions = push_bit 16 1"

section \<open>Memory\<close>

text \<open>Reading and writing a range of addresses.\<close>

definition load_bytes :: "mpsc_pipe \<Rightarrow> nat \<Rightarrow> nat \<Rightarrow> 8 word list result" where
  "load_bytes p a n =
     (if a < pipe_start p \<or> end_of_pipe p < a + n then Inl Out_Of_Bounds
      else Inr (take n (drop (a - pipe_start p) (pipe_bytes p))))"

definition store_bytes :: "mpsc_pipe \<Rightarrow> nat \<Rightarrow> 8 word list \<Rightarrow> mpsc_pipe result" where
  "store_bytes p a bs =
     (if a < pipe_start p \<or> end_of_pipe p < a + length bs then Inl Out_Of_Bounds
      else let i = a - pipe_start p; m = pipe_bytes p in
        Inr (p\<lparr>pipe_bytes := take i m @ bs @ drop (i + length bs) m\<rparr>))"

definition u32_bytes :: "32 word \<Rightarrow> 8 word list" where
  "u32_bytes w = [ucast w, ucast (drop_bit 8 w), ucast (drop_bit 16 w), ucast (drop_bit 24 w)]"

definition u32_of :: "8 word list \<Rightarrow> 32 word" where
  "u32_of bs = ucast (bs ! 0) OR push_bit 8 (ucast (bs ! 1)) OR push_bit 16 (ucast (bs ! 2))
     OR push_bit 24 (ucast (bs ! 3))"

text \<open>The member \<open>size\<close> of the message at an address.\<close>

definition load_size :: "mpsc_pipe \<Rightarrow> nat \<Rightarrow> 32 word result" where
  "load_size p msg =
     (case load_bytes p (msg + header_size p) 4 of Inl e \<Rightarrow> Inl e | Inr bs \<Rightarrow> Inr (u32_of bs))"

definition store_size :: "mpsc_pipe \<Rightarrow> nat \<Rightarrow> 32 word \<Rightarrow> mpsc_pipe result" where
  "store_size p msg w = store_bytes p (msg + header_size p) (u32_bytes w)"

definition SetBlank :: "mpsc_pipe \<Rightarrow> nat \<Rightarrow> nat \<Rightarrow> mpsc_pipe result" where
  "SetBlank p a b = store_bytes p a (replicate (b - a) 255)"

definition IsBlank :: "32 word \<Rightarrow> bool" where
  "IsBlank sz \<longleftrightarrow> sz = - 1"

definition IsNotWriting :: "32 word \<Rightarrow> bool" where
  "IsNotWriting sz \<longleftrightarrow> sz AND kMaskNotWriting \<noteq> 0"

definition IsReady :: "32 word \<Rightarrow> bool" where
  "IsReady sz \<longleftrightarrow> \<not> IsBlank sz \<and> IsNotWriting sz"

definition SetReady :: "mpsc_pipe \<Rightarrow> nat \<Rightarrow> mpsc_pipe result" where
  "SetReady p msg =
     (case load_size p msg of Inl e \<Rightarrow> Inl e | Inr sz \<Rightarrow> store_size p msg (sz OR kMaskNotWriting))"

text \<open>\<open>GetMsgSize_\<close> on the size read from the message.\<close>

definition GetMsgSize :: "mpsc_pipe \<Rightarrow> 32 word \<Rightarrow> 32 word" where
  "GetMsgSize p sz = (if sz \<noteq> - 1 then of_nat (kMsgOffset p) + (sz AND NOT kMaskNotWriting) else - 1)"

section \<open>Paces\<close>

definition DecodeSenderPacePtr :: "64 word \<Rightarrow> nat" where
  "DecodeSenderPacePtr pace = unat (pace AND kMaskPtr)"

definition DecodeSenderPaceVersion :: "64 word \<Rightarrow> 64 word" where
  "DecodeSenderPaceVersion pace = drop_bit (64 - 16) (pace AND kMaskVersion)"

definition EncodeSenderPace :: "nat \<Rightarrow> 64 word \<Rightarrow> 64 word" where
  "EncodeSenderPace ptr ver = of_nat ptr OR push_bit (64 - 16) ver"

definition DecodeSenderPaceFromPtr :: "mpsc_pipe \<Rightarrow> nat" where
  "DecodeSenderPaceFromPtr p = DecodeSenderPacePtr (sender_pace_from p)"

definition DecodeSenderPaceToPtr :: "mpsc_pipe \<Rightarrow> nat" where
  "DecodeSenderPaceToPtr p = DecodeSenderPacePtr (sender_pace_to p)"

definition EncodeSenderPaceFrom :: "mpsc_pipe \<Rightarrow> nat \<Rightarrow> 64 word \<Rightarrow> mpsc_pipe" where
  "EncodeSenderPaceFrom p ptr ver = p\<lparr>sender_pace_from := EncodeSenderPace ptr ver\<rparr>"

definition EncodeSenderPaceTo :: "mpsc_pipe \<Rightarrow> nat \<Rightarrow> 64 word \<Rightarrow> mpsc_pipe" where
  "EncodeSenderPaceTo p ptr ver = p\<lparr>sender_pace_to := EncodeSenderPace ptr ver\<rparr>"

definition next_pace :: "64 word \<Rightarrow> nat \<Rightarrow> bool \<Rightarrow> 64 word" where
  "next_pace old_pace new_pace new_version =
     (let ver = DecodeSenderPaceVersion old_pace in
      if new_version then EncodeSenderPace new_pace ((ver + 1) mod kNumVersions)
      else EncodeSenderPace new_pace ver)"

definition CASSenderPaceFrom :: "mpsc_pipe \<Rightarrow> 64 word \<Rightarrow> nat \<Rightarrow> bool \<Rightarrow> bool \<times> mpsc_pipe" where
  "CASSenderPaceFrom p old_pace new_pace new_version =
     (if sender_pace_from p = old_pace
      then (True, p\<lparr>sender_pace_from := next_pace old_pace new_pace new_version\<rparr>)
      else (False, p))"

definition CASSenderPaceTo :: "mpsc_pipe \<Rightarrow> 64 word \<Rightarrow> nat \<Rightarrow> bool \<Rightarrow> bool \<times> mpsc_pipe" where
  "CASSenderPaceTo p old_pace new_pace new_version =
     (if sender_pace_to p = old_pace
      then (True, p\<lparr>sender_pace_to := next_pace old_pace new_pace new_version\<rparr>)
      else (False, p))"

section \<open>Init\<close>

text \<open>
  \<open>Init\<close> on the memory \<open>start\<close> that \<open>new\<close> returned with what happens to be in it; \<open>None\<close> when it
  refuses its arguments. \<open>has_notifier\<close> tells whether a notifier is given.
\<close>

definition mpsc_Init ::
  "nat \<Rightarrow> nat \<Rightarrow> 8 word list \<Rightarrow> nat \<Rightarrow> nat \<Rightarrow> nat \<Rightarrow> bool \<Rightarrow> mpsc_pipe option result" where
  "mpsc_Init header start garbage len_pipe max_content threshold has_notifier =
     (if len_pipe \<le> max_content + (header + 4) \<or> threshold \<noteq> 0 \<and> \<not> has_notifier then Inr None
      else
        let p = \<lparr>header_size = header, size_pipe = len_pipe, max_size_content = max_content,
                 threshold_sender_notify = threshold, pipe_start = start, receiver_pace = start,
                 sender_pace_from = 0, sender_pace_to = 0, pipe_bytes = garbage\<rparr>;
            p1 = EncodeSenderPaceTo (EncodeSenderPaceFrom p start 0) start 0
        in case SetBlank p1 start (end_of_pipe p1) of Inl e \<Rightarrow> Inl e | Inr p2 \<Rightarrow> Inr (Some p2))"

section \<open>Sending\<close>

text \<open>Where the message goes, and the position the pace was at when the senders went back to the front.\<close>

definition ReserveSpaceForSend :: "mpsc_pipe \<Rightarrow> nat \<Rightarrow> (nat \<times> nat option) option \<times> mpsc_pipe" where
  "ReserveSpaceForSend p size_content =
     (if max_size_content p < size_content then (None, p)
      else
        let old_to = sender_pace_to p;
            to_ptr = DecodeSenderPacePtr old_to;
            recv = receiver_pace p;
            size_need = kMsgOffset p + size_content
        in
        if recv \<le> to_ptr then
          if to_ptr + size_need \<le> end_of_pipe p then
            let (ok, p') = CASSenderPaceTo p old_to (to_ptr + size_need) False
            in (if ok then Some (to_ptr, None) else None, p')
          else if pipe_start p + size_need < recv then
            let (ok, p') = CASSenderPaceTo p old_to (pipe_start p + size_need) True
            in (if ok then Some (pipe_start p, Some to_ptr) else None, p')
          else (None, p)
        else if to_ptr < recv \<and> to_ptr + size_need < recv then
          let (ok, p') = CASSenderPaceTo p old_to (to_ptr + size_need) False
          in (if ok then Some (to_ptr, None) else None, p')
        else (None, p))"

text \<open>
  The last loop of \<open>JustSendMsg_\<close>: the pace is moved over the messages behind it that are ready.
\<close>

fun pass_ready :: "nat \<Rightarrow> mpsc_pipe \<Rightarrow> nat \<Rightarrow> 64 word \<Rightarrow> mpsc_pipe result" where
  "pass_ready 0 p new_from ver = Inl Diverges"
| "pass_ready (Suc f) p new_from ver =
     (if new_from = DecodeSenderPaceToPtr p then Inr p
      else (case load_size p new_from of
          Inl e \<Rightarrow> Inl e
        | Inr sz \<Rightarrow>
            if \<not> IsReady sz then Inr p
            else let old_from = EncodeSenderPace new_from ver; size_pace = GetMsgSize p sz in
              if size_pace = - 1 then Inr p
              else let new_from' = new_from + unat size_pace;
                       (ok, p') = CASSenderPaceFrom p old_from new_from' False
                   in if ok then pass_ready f p' new_from' ver else Inr p'))"

text \<open>The pace is moved over the message at \<open>from_ptr\<close>, then over those behind it.\<close>

definition move_from :: "mpsc_pipe \<Rightarrow> 64 word \<Rightarrow> nat \<Rightarrow> 64 word \<Rightarrow> mpsc_pipe result" where
  "move_from p old_from from_ptr ver =
     (case load_size p from_ptr of
        Inl e \<Rightarrow> Inl e
      | Inr sz \<Rightarrow>
          let size_pace = GetMsgSize p sz in
          if size_pace = - 1 then Inr p
          else
            let new_from = from_ptr + unat size_pace;
                (ok, p') = CASSenderPaceFrom p old_from new_from False
            in if ok then pass_ready (size_pipe p + 1) p' new_from ver else Inr p')"

text \<open>
  \<open>JustSendMsg_\<close> run to its end without a step of another thread: waiting for the pace to reach
  the position before the rewind then takes no time or for ever.
\<close>

definition JustSendMsg :: "mpsc_pipe \<Rightarrow> nat \<Rightarrow> nat option \<Rightarrow> mpsc_pipe result" where
  "JustSendMsg p msg pos_before_rewind =
     (case SetReady p msg of
        Inl e \<Rightarrow> Inl e
      | Inr p1 \<Rightarrow>
          let old_from = sender_pace_from p1;
              from_ptr = DecodeSenderPacePtr old_from;
              ver = DecodeSenderPaceVersion old_from
          in
          if from_ptr = msg then move_from p1 old_from from_ptr ver
          else if msg = pipe_start p1 then
            if Some (DecodeSenderPaceFromPtr p1) \<noteq> pos_before_rewind then Inl Diverges
            else let ver' = (ver + 1) mod kNumVersions;
                     p2 = EncodeSenderPaceFrom p1 (pipe_start p1) ver'
                 in move_from p2 (EncodeSenderPace (pipe_start p1) ver') (pipe_start p1) ver'
          else Inr p1)"

text \<open>The header, the size and the content, written into the space the message has.\<close>

definition write_msg :: "mpsc_pipe \<Rightarrow> nat \<Rightarrow> 8 word list \<Rightarrow> 8 word list \<Rightarrow> mpsc_pipe result" where
  "write_msg p msg header content =
     (case store_bytes p msg header of
        Inl e \<Rightarrow> Inl e
      | Inr p1 \<Rightarrow>
          (case store_size p1 msg (of_nat (length content)) of
             Inl e \<Rightarrow> Inl e
           | Inr p2 \<Rightarrow> if content = [] then Inr p2 else store_bytes p2 (msg + kMsgOffset p2) content))"

definition SendMsg1 :: "mpsc_pipe \<Rightarrow> 8 word list \<Rightarrow> 8 word list \<Rightarrow> (bool \<times> mpsc_pipe) result" where
  "SendMsg1 p header content =
     (case ReserveSpaceForSend p (length content) of
        (None, p') \<Rightarrow> Inr (False, p')
      | (Some (msg, pos_before_rewind), p1) \<Rightarrow>
          (case write_msg p1 msg header content of
             Inl e \<Rightarrow> Inl e
           | Inr p2 \<Rightarrow>
               (case JustSendMsg p2 msg pos_before_rewind of
                  Inl e \<Rightarrow> Inl e
                | Inr p3 \<Rightarrow> Inr (True, p3))))"

definition SizeSpace :: "mpsc_pipe \<Rightarrow> nat" where
  "SizeSpace p =
     (let recv = receiver_pace p; to_ptr = DecodeSenderPaceToPtr p in
      if to_ptr < recv then recv - to_ptr else recv + size_pipe p - to_ptr)"

definition SizeMsgReady :: "mpsc_pipe \<Rightarrow> nat" where
  "SizeMsgReady p =
     (let recv = receiver_pace p; from_ptr = DecodeSenderPaceFromPtr p in
      if recv \<le> from_ptr then from_ptr - recv else from_ptr + size_pipe p - recv)"

text \<open>\<open>SendMsg\<close>: the result, whether the notifier is called, and the pipe. It tries twice.\<close>

definition SendMsg ::
  "mpsc_pipe \<Rightarrow> 8 word list \<Rightarrow> 8 word list \<Rightarrow> (bool \<times> bool \<times> mpsc_pipe) result" where
  "SendMsg p header content =
     (let notify = threshold_sender_notify p \<noteq> 0
            \<and> size_pipe p - SizeSpace p \<le> threshold_sender_notify p
      in case SendMsg1 p header content of
           Inl e \<Rightarrow> Inl e
         | Inr (True, p1) \<Rightarrow> Inr (True, notify, p1)
         | Inr (False, p1) \<Rightarrow>
             (case SendMsg1 p1 header content of
                Inl e \<Rightarrow> Inl e
              | Inr (True, p2) \<Rightarrow> Inr (True, notify, p2)
              | Inr (False, p2) \<Rightarrow> Inr (False, False, p2)))"

section \<open>Receiving\<close>

definition HasTodoMsg :: "mpsc_pipe \<Rightarrow> (bool \<times> mpsc_pipe) result" where
  "HasTodoMsg p =
     (let from_ptr = DecodeSenderPaceFromPtr p in
      if receiver_pace p < from_ptr then Inr (True, p)
      else if from_ptr = receiver_pace p then Inr (False, p)
      else
        let to_front = (let p' = p\<lparr>receiver_pace := pipe_start p\<rparr> in (from_ptr \<noteq> receiver_pace p', p'))
        in if end_of_pipe p < receiver_pace p + kMsgOffset p then Inr to_front
           else (case load_size p (receiver_pace p) of
               Inl e \<Rightarrow> Inl e
             | Inr sz \<Rightarrow> Inr (if IsBlank sz then to_front else (True, p))))"

text \<open>\<open>ReceiveMsg_\<close>: a pointer to the message, or \<open>NULL\<close>.\<close>

definition ReceiveMsg1 :: "mpsc_pipe \<Rightarrow> (nat option \<times> mpsc_pipe) result" where
  "ReceiveMsg1 p =
     (case HasTodoMsg p of
        Inl e \<Rightarrow> Inl e
      | Inr (todo, p') \<Rightarrow> Inr (if todo then Some (receiver_pace p') else None, p'))"

text \<open>
  \<open>MsgConsumed\<close> in its two steps: the pace moves over the message, then the message is cleared.
\<close>

definition pass_msg :: "mpsc_pipe \<Rightarrow> mpsc_pipe result" where
  "pass_msg p =
     (let orig = receiver_pace p in
      case load_size p orig of
        Inl e \<Rightarrow> Inl e
      | Inr sz \<Rightarrow> Inr (p\<lparr>receiver_pace := orig + unat (GetMsgSize p sz)\<rparr>))"

definition MsgConsumed :: "mpsc_pipe \<Rightarrow> mpsc_pipe result" where
  "MsgConsumed p =
     (let orig = receiver_pace p in
      case pass_msg p of
        Inl e \<Rightarrow> Inl e
      | Inr p1 \<Rightarrow> SetBlank p1 orig (receiver_pace p1))"

section \<open>Waiting for a message\<close>

text \<open>
  What the senders do before the \<open>i\<close>-th look of the receiver is the argument \<open>senders i\<close>, what the
  clock says after the \<open>i\<close>-th sleep is \<open>now i\<close>.
\<close>

definition kTimesBusyQuery :: nat where
  "kTimesBusyQuery = 2"

definition GetTimeToSleepUs :: "nat \<Rightarrow> int" where
  "GetTimeToSleepUs slot = (let times = [1, 10, 100, 1000] in if slot < 4 then times ! slot else times ! (4 - 1))"

fun busy_query ::
  "(nat \<Rightarrow> mpsc_pipe \<Rightarrow> mpsc_pipe) \<Rightarrow> nat \<Rightarrow> nat \<Rightarrow> mpsc_pipe \<Rightarrow> (nat option \<times> mpsc_pipe) result" where
  "busy_query senders i 0 p = Inr (None, p)"
| "busy_query senders i (Suc n) p =
     (case ReceiveMsg1 (senders i p) of
        Inl e \<Rightarrow> Inl e
      | Inr (Some msg, p') \<Rightarrow> Inr (Some msg, p')
      | Inr (None, p') \<Rightarrow> busy_query senders (Suc i) n p')"

text \<open>With a notifier the receiver waits once, whatever the result of waiting is.\<close>

definition ReceiveMsgWithNotify ::
  "(nat \<Rightarrow> mpsc_pipe \<Rightarrow> mpsc_pipe) \<Rightarrow> mpsc_pipe \<Rightarrow> int \<Rightarrow> (nat option \<times> mpsc_pipe) result" where
  "ReceiveMsgWithNotify senders p timeo_ms =
     (case busy_query senders 0 kTimesBusyQuery p of
        Inl e \<Rightarrow> Inl e
      | Inr (Some msg, p') \<Rightarrow> Inr (Some msg, p')
      | Inr (None, p') \<Rightarrow>
          if timeo_ms = 0 then Inr (None, p') else ReceiveMsg1 (senders kTimesBusyQuery p'))"

text \<open>Without one it sleeps and looks until the time is over; \<open>f\<close> bounds the rounds.\<close>

fun sleep_rounds ::
  "(nat \<Rightarrow> mpsc_pipe \<Rightarrow> mpsc_pipe) \<Rightarrow> (nat \<Rightarrow> int) \<Rightarrow> int \<Rightarrow> int \<Rightarrow> nat \<Rightarrow> nat \<Rightarrow> mpsc_pipe
    \<Rightarrow> (nat option \<times> mpsc_pipe) result" where
  "sleep_rounds senders now start_time timeo_ms 0 i p = Inl Diverges"
| "sleep_rounds senders now start_time timeo_ms (Suc f) i p =
     (case ReceiveMsg1 (senders (kTimesBusyQuery + i) p) of
        Inl e \<Rightarrow> Inl e
      | Inr (Some msg, p') \<Rightarrow> Inr (Some msg, p')
      | Inr (None, p') \<Rightarrow>
          if start_time + timeo_ms * 1000 < now i then Inr (None, p')
          else sleep_rounds senders now start_time timeo_ms f (Suc i) p')"

definition ReceiveMsgWithoutNotify ::
  "(nat \<Rightarrow> mpsc_pipe \<Rightarrow> mpsc_pipe) \<Rightarrow> (nat \<Rightarrow> int) \<Rightarrow> int \<Rightarrow> nat \<Rightarrow> mpsc_pipe \<Rightarrow> int
    \<Rightarrow> (nat option \<times> mpsc_pipe) result" where
  "ReceiveMsgWithoutNotify senders now start_time f p timeo_ms =
     (case busy_query senders 0 kTimesBusyQuery p of
        Inl e \<Rightarrow> Inl e
      | Inr (Some msg, p') \<Rightarrow> Inr (Some msg, p')
      | Inr (None, p') \<Rightarrow>
          if timeo_ms = 0 then Inr (None, p') else sleep_rounds senders now start_time timeo_ms f 0 p')"

definition ReceiveMsg ::
  "(nat \<Rightarrow> mpsc_pipe \<Rightarrow> mpsc_pipe) \<Rightarrow> (nat \<Rightarrow> int) \<Rightarrow> int \<Rightarrow> nat \<Rightarrow> mpsc_pipe \<Rightarrow> int
    \<Rightarrow> (nat option \<times> mpsc_pipe) result" where
  "ReceiveMsg senders now start_time f p timeo_ms =
     (if threshold_sender_notify p \<noteq> 0 then ReceiveMsgWithNotify senders p timeo_ms
      else ReceiveMsgWithoutNotify senders now start_time f p timeo_ms)"

text \<open>\<open>SleepUs\<close>: the absolute time it sleeps until, \<open>usecs << 10\<close> nanoseconds from now.\<close>

definition sleep_until :: "int \<times> int \<Rightarrow> int \<Rightarrow> int \<times> int" where
  "sleep_until t usecs = (fst t, snd t + push_bit 10 usecs)"

section \<open>Versions, the clock, and the memory of the pipe\<close>

definition DecodeSenderPaceFromVersion :: "mpsc_pipe \<Rightarrow> 64 word" where
  "DecodeSenderPaceFromVersion p = DecodeSenderPaceVersion (sender_pace_from p)"

definition DecodeSenderPaceToVersion :: "mpsc_pipe \<Rightarrow> 64 word" where
  "DecodeSenderPaceToVersion p = DecodeSenderPaceVersion (sender_pace_to p)"

text \<open>What \<open>gettimeofday\<close> gives, in microseconds.\<close>

definition GetCurrentTimeUs :: "int \<times> int \<Rightarrow> int" where
  "GetCurrentTimeUs t = fst t * 1000000 + snd t"

text \<open>
  The member \<open>pipe_\<close>: the constructor does not set it, \<open>Init\<close> sets it unless it refuses its
  arguments, and the destructor deletes it. \<open>alloc\<close> says whether \<open>new\<close> finds memory.
\<close>

datatype pipe_member = Never_Set | Is_Null | Is_Block

definition pipe_Init :: "nat \<Rightarrow> nat \<Rightarrow> nat \<Rightarrow> nat \<Rightarrow> bool \<Rightarrow> bool \<Rightarrow> pipe_member \<Rightarrow> bool \<times> pipe_member" where
  "pipe_Init header len_pipe max_content threshold has_notifier alloc pm =
     (if len_pipe \<le> max_content + (header + 4) \<or> threshold \<noteq> 0 \<and> \<not> has_notifier then (False, pm)
      else if alloc then (True, Is_Block) else (False, Is_Null))"

definition pipe_destroy :: "pipe_member \<Rightarrow> pipe_member result" where
  "pipe_destroy pm = (case pm of Never_Set \<Rightarrow> Inl Indeterminate | Is_Null \<Rightarrow> Inr Is_Null | Is_Block \<Rightarrow> Inr Is_Null)"

text \<open>A pipe whose \<open>Init\<close> refused its arguments, or was never called, deletes what it never set.\<close>

lemma destroy_needs_init:
  "pipe_destroy (snd (pipe_Init header len biggest thr ntf alloc Never_Set)) = Inl Indeterminate \<longleftrightarrow>
    len \<le> biggest + (header + 4) \<or> thr \<noteq> 0 \<and> \<not> ntf"
  by (simp add: pipe_destroy_def pipe_Init_def)

end
