(* ===== verification/Mpsc_Spec.thy ===== *)
theory Mpsc_Spec
  imports Mpsc_Pipe
begin

text \<open>
  What the pipe promises when calls follow one another: it is a bounded queue of messages. The
  invariant describes the memory as one list: blank space, the bytes of the messages in order,
  blank space, or, when the senders have gone back to the front, the newest messages first.
\<close>

section \<open>Bytes of a size\<close>

lemma u32_of_bytes: "u32_of (u32_bytes w) = w"
proof (rule bit_word_eqI)
  fix n assume "n < LENGTH(32)"
  then have n: "n < 32" by simp
  show "bit (u32_of (u32_bytes w)) n = bit w n"
    using n by (cases "n < 8"; cases "n < 16"; cases "n < 24")
      (auto simp: u32_of_def u32_bytes_def bit_or_iff bit_push_bit_iff bit_ucast_iff bit_drop_bit_eq)
qed

lemma u32_of_blank: "u32_of [255, 255, 255, 255] = - 1"
  by (simp add: u32_of_def)

lemma length_u32_bytes [simp]: "length (u32_bytes w) = 4"
  by (simp add: u32_bytes_def)

section \<open>Paces\<close>

lemma kMaskPtr_mask: "kMaskPtr = mask 48"
  by (simp add: kMaskPtr_def mask_eq_exp_minus_1)

lemma pace_pointer:
  assumes "ptr < 2 ^ 48"
  shows "DecodeSenderPacePtr (EncodeSenderPace ptr ver) = ptr"
proof -
  have "(of_nat ptr OR push_bit 48 ver) AND mask 48 = (of_nat ptr :: 64 word) AND mask 48"
    by (intro bit_word_eqI) (auto simp: bit_and_iff bit_or_iff bit_push_bit_iff bit_mask_iff)
  also have "\<dots> = of_nat ptr"
    using assms by (simp flip: take_bit_eq_mask add: take_bit_of_nat take_bit_nat_eq_self)
  finally show ?thesis
    using assms by (simp add: DecodeSenderPacePtr_def EncodeSenderPace_def kMaskPtr_mask unat_of_nat)
qed

lemma pace_version:
  assumes "ptr < 2 ^ 48" and "ver < kNumVersions"
  shows "DecodeSenderPaceVersion (EncodeSenderPace ptr ver) = ver"
proof -
  have v: "take_bit 16 ver = ver"
    using assms(2) by (simp add: kNumVersions_def word_unat_eq_iff unsigned_take_bit_eq take_bit_nat_eq_self word_less_nat_alt)
  have p: "\<not> bit (of_nat ptr :: 64 word) (48 + n)" for n
  proof -
    have "take_bit 48 (of_nat ptr :: 64 word) = of_nat ptr"
      using assms(1) by (simp add: take_bit_of_nat take_bit_nat_eq_self)
    then have "bit (of_nat ptr :: 64 word) (48 + n) = bit (take_bit 48 (of_nat ptr :: 64 word)) (48 + n)" by simp
    then show ?thesis by (simp add: bit_take_bit_iff)
  qed
  have "drop_bit 48 ((of_nat ptr OR push_bit 48 ver) AND NOT (mask 48)) = take_bit 16 ver"
    using p by (intro bit_word_eqI)
      (auto simp: bit_and_iff bit_or_iff bit_push_bit_iff bit_mask_iff bit_drop_bit_eq bit_take_bit_iff
        bit_not_iff)
  with v show ?thesis
    by (simp add: DecodeSenderPaceVersion_def EncodeSenderPace_def kMaskVersion_def kMaskPtr_mask)
qed

lemma version_wraps: "(ver + 1) mod kNumVersions < kNumVersions"
  by (simp add: kNumVersions_def word_mod_less_divisor)

section \<open>Memory as a list\<close>

definition blank :: "nat \<Rightarrow> 8 word list" where
  "blank n = replicate n 255"

lemma length_blank [simp]: "length (blank n) = n"
  by (simp add: blank_def)

lemma blank_add: "blank (m + n) = blank m @ blank n"
  by (simp add: blank_def replicate_add)

lemma load_split:
  assumes "pipe_bytes p = A @ X @ B" and "length (pipe_bytes p) = size_pipe p" and "n = length X"
    and "a = pipe_start p + length A"
  shows "load_bytes p a n = Inr X"
proof -
  have "length A + length X \<le> size_pipe p" using assms(1,2) by (metis add.assoc le_add1 length_append)
  then show ?thesis using assms by (simp add: load_bytes_def end_of_pipe_def)
qed

lemma store_split:
  assumes "pipe_bytes p = A @ X @ B" and "length (pipe_bytes p) = size_pipe p" and "length X = length Y"
    and "a = pipe_start p + length A"
  shows "store_bytes p a Y = Inr (p\<lparr>pipe_bytes := A @ Y @ B\<rparr>)"
proof -
  have "length A + length X \<le> size_pipe p" using assms(1,2) by (metis add.assoc le_add1 length_append)
  then show ?thesis using assms by (simp add: store_bytes_def end_of_pipe_def Let_def)
qed

section \<open>Messages\<close>

type_synonym msg = "8 word list \<times> 8 word list"

text \<open>The size as it is stored: with the mark that the message is written.\<close>

definition ready_size :: "msg \<Rightarrow> 32 word" where
  "ready_size m = of_nat (length (snd m)) OR kMaskNotWriting"

definition msg_bytes :: "msg \<Rightarrow> 8 word list" where
  "msg_bytes m = fst m @ u32_bytes (ready_size m) @ snd m"

definition enc :: "msg list \<Rightarrow> 8 word list" where
  "enc q = concat (map msg_bytes q)"

lemma enc_simps [simp]:
  "enc [] = []" "enc (m # q) = msg_bytes m @ enc q" "enc (q @ q') = enc q @ enc q'"
  by (simp_all add: enc_def)

text \<open>The messages a pipe can hold.\<close>

definition msg_ok :: "mpsc_pipe \<Rightarrow> msg \<Rightarrow> bool" where
  "msg_ok p m \<longleftrightarrow> length (fst m) = header_size p \<and> length (snd m) \<le> max_size_content p"

text \<open>The constants of a pipe within the bounds that \<open>Init\<close> checks or takes for granted.\<close>

definition sane :: "mpsc_pipe \<Rightarrow> bool" where
  "sane p \<longleftrightarrow> pipe_start p + size_pipe p < 2 ^ 48 \<and> kMsgOffset p + max_size_content p < size_pipe p
     \<and> kMsgOffset p + max_size_content p < 2 ^ 31 - 1 \<and> length (pipe_bytes p) = size_pipe p"

lemma length_msg_bytes: "length (fst m) = header_size p \<Longrightarrow> length (msg_bytes m) = kMsgOffset p + length (snd m)"
  by (simp add: msg_bytes_def kMsgOffset_def)

lemma mask_high:
  fixes x y :: "32 word"
  assumes "take_bit 31 x = x"
  shows "(x OR push_bit 31 y) AND NOT (push_bit 31 y) = x"
proof (rule bit_word_eqI)
  fix i assume "i < LENGTH(32)"
  have "bit x i = bit (take_bit 31 x) i" using assms by simp
  then show "bit ((x OR push_bit 31 y) AND NOT (push_bit 31 y)) i = bit x i"
    by (auto simp: bit_and_iff bit_or_iff bit_not_iff bit_push_bit_iff bit_take_bit_iff)
qed

lemma mask_low: "(of_nat n OR kMaskNotWriting) AND NOT kMaskNotWriting = (of_nat n :: 32 word)"
  if "n < 2 ^ 31"
proof -
  have "take_bit 31 (of_nat n :: 32 word) = of_nat n"
    using that by (simp add: take_bit_of_nat take_bit_nat_eq_self)
  moreover have "kMaskNotWriting = push_bit 31 1" by (simp add: kMaskNotWriting_def)
  ultimately show ?thesis using mask_high by metis
qed

lemma ready_facts:
  assumes "length (snd m) < 2 ^ 31 - 1"
  shows "ready_size m \<noteq> - 1" and "IsReady (ready_size m)" and "\<not> IsBlank (ready_size m)"
    and "ready_size m AND NOT kMaskNotWriting = of_nat (length (snd m))"
proof -
  let ?n = "length (snd m)"
  have low: "ready_size m AND NOT kMaskNotWriting = of_nat ?n"
    using assms mask_low by (simp add: ready_size_def)
  show n: "ready_size m \<noteq> - 1"
  proof
    assume "ready_size m = - 1"
    with low have "(- 1 :: 32 word) AND NOT kMaskNotWriting = of_nat ?n" by simp
    then have "(of_nat ?n :: 32 word) = 0x7fffffff" by (simp add: kMaskNotWriting_def)
    then have "unat (of_nat ?n :: 32 word) = 0x7fffffff" by simp
    then show False using assms by (simp add: unat_of_nat)
  qed
  then show "\<not> IsBlank (ready_size m)" by (simp add: IsBlank_def)
  have "ready_size m AND kMaskNotWriting = kMaskNotWriting"
    by (simp add: ready_size_def and.commute bit.conj_disj_distrib)
  then have "IsNotWriting (ready_size m)" by (simp add: IsNotWriting_def kMaskNotWriting_def)
  with n show "IsReady (ready_size m)" by (simp add: IsReady_def IsBlank_def)
  show "ready_size m AND NOT kMaskNotWriting = of_nat ?n" by (fact low)
qed

lemma GetMsgSize_ready:
  assumes "sane p" and "msg_ok p m"
  shows "GetMsgSize p (ready_size m) \<noteq> - 1"
    and "unat (GetMsgSize p (ready_size m)) = kMsgOffset p + length (snd m)"
proof -
  have n: "kMsgOffset p + length (snd m) < 2 ^ 31 - 1" using assms by (simp add: sane_def msg_ok_def)
  then have l: "length (snd m) < 2 ^ 31 - 1" by simp
  have "GetMsgSize p (ready_size m) = of_nat (kMsgOffset p + length (snd m))"
    using ready_facts [OF l] by (simp add: GetMsgSize_def)
  moreover have u: "unat (of_nat (kMsgOffset p + length (snd m)) :: 32 word) = kMsgOffset p + length (snd m)"
    using n by (simp add: unat_of_nat del: of_nat_add)
  moreover have "unat (- 1 :: 32 word) = 2 ^ 32 - 1" by (simp add: unsigned_minus_1_eq_mask mask_eq_exp_minus_1)
  ultimately show "unat (GetMsgSize p (ready_size m)) = kMsgOffset p + length (snd m)"
    "GetMsgSize p (ready_size m) \<noteq> - 1" using n by auto
qed

section \<open>Writing a message into blank space\<close>

lemma load_size_at:
  assumes "pipe_bytes p = A @ msg_bytes m @ B" and "length (pipe_bytes p) = size_pipe p"
    and "length (fst m) = header_size p" and "a = pipe_start p + length A"
  shows "load_size p a = Inr (ready_size m)"
proof -
  have "load_bytes p (a + header_size p) 4 = Inr (u32_bytes (ready_size m))"
    by (rule load_split [where A = "A @ fst m" and B = "snd m @ B"])
      (use assms in \<open>simp_all add: msg_bytes_def\<close>)
  then show ?thesis by (simp add: load_size_def u32_of_bytes)
qed

lemma store_over:
  assumes "pipe_bytes p = A @ X @ B" and "length (pipe_bytes p) = size_pipe p" and "length X = length Y"
    and "a = pipe_start p + length A"
  obtains p' where "store_bytes p a Y = Inr p'" "p' = p\<lparr>pipe_bytes := A @ Y @ B\<rparr>"
    "length (pipe_bytes p') = size_pipe p'" "pipe_bytes p' = A @ Y @ B"
  using store_split [OF assms] assms by simp

text \<open>
  The header, the size and the content are written and the mark is set: blank space becomes
  the bytes of the message and what is left of the space.
\<close>

lemma write_then_ready:
  assumes bytes: "pipe_bytes p = A @ blank n @ B" and len: "length (pipe_bytes p) = size_pipe p"
    and h: "length h = header_size p" and n: "kMsgOffset p + length c \<le> n"
    and a: "a = pipe_start p + length A"
  shows "\<exists>p2. write_msg p a h c = Inr p2
    \<and> SetReady p2 a = Inr (p\<lparr>pipe_bytes := A @ msg_bytes (h, c) @ blank (n - (kMsgOffset p + length c)) @ B\<rparr>)"
proof -
  let ?hs = "header_size p" and ?l = "length c"
  let ?rest = "blank (n - (kMsgOffset p + ?l)) @ B"
  let ?w = "of_nat ?l :: 32 word"
  have "n = ?hs + (4 + (?l + (n - (kMsgOffset p + ?l))))" using n by (simp add: kMsgOffset_def)
  then have split: "blank n = blank ?hs @ blank 4 @ blank ?l @ blank (n - (kMsgOffset p + ?l))"
    by (metis blank_add)
  have b0: "pipe_bytes p = A @ blank ?hs @ (blank 4 @ blank ?l @ ?rest)" using bytes split by simp
  obtain p1 where p1: "store_bytes p a h = Inr p1" "length (pipe_bytes p1) = size_pipe p1"
    "p1 = p\<lparr>pipe_bytes := A @ h @ (blank 4 @ blank ?l @ ?rest)\<rparr>"
    using store_over [OF b0 len _ a, of h] h by (metis length_blank)
  have b1: "pipe_bytes p1 = (A @ h) @ blank 4 @ (blank ?l @ ?rest)" using p1(3) by simp
  have a1: "a + ?hs = pipe_start p1 + length (A @ h)" using a h p1(3) by simp
  obtain p2 where p2: "store_bytes p1 (a + ?hs) (u32_bytes ?w) = Inr p2"
    "length (pipe_bytes p2) = size_pipe p2" "p2 = p1\<lparr>pipe_bytes := (A @ h) @ u32_bytes ?w @ (blank ?l @ ?rest)\<rparr>"
    using store_over [OF b1 p1(2) _ a1, of "u32_bytes ?w"] by (metis length_blank length_u32_bytes)
  have b2: "pipe_bytes p2 = (A @ h @ u32_bytes ?w) @ blank ?l @ ?rest" using p2(3) by simp
  have a2: "a + kMsgOffset p = pipe_start p2 + length (A @ h @ u32_bytes ?w)"
    using a h p1(3) p2(3) by (simp add: kMsgOffset_def)
  obtain p3 where p3: "store_bytes p2 (a + kMsgOffset p) c = Inr p3"
    "length (pipe_bytes p3) = size_pipe p3" "p3 = p2\<lparr>pipe_bytes := (A @ h @ u32_bytes ?w) @ c @ ?rest\<rparr>"
    using store_over [OF b2 p2(2) _ a2, of c] by (metis length_blank)
  have hs: "header_size p1 = ?hs" "header_size p3 = ?hs" "kMsgOffset p2 = kMsgOffset p"
    using p1(3) p2(3) p3(3) by (simp_all add: kMsgOffset_def)
  have w: "write_msg p a h c = Inr p3"
  proof (cases "c = []")
    case True
    then have "p3 = p2" using p3(3) p2(3) by (simp add: blank_def)
    with True p1(1) p2(1) hs show ?thesis by (simp add: write_msg_def store_size_def)
  qed (use p1(1) p2(1) p3(1) hs in \<open>simp add: write_msg_def store_size_def\<close>)
  have b3: "pipe_bytes p3 = (A @ h) @ u32_bytes ?w @ (c @ ?rest)" using p3(3) by simp
  have a3: "a + ?hs = pipe_start p3 + length (A @ h)" using a h p1(3) p2(3) p3(3) by simp
  have "load_size p3 a = Inr ?w"
    using load_split [OF b3 p3(2) _ a3, of 4] hs by (simp add: load_size_def u32_of_bytes)
  moreover have "store_bytes p3 (a + ?hs) (u32_bytes (?w OR kMaskNotWriting))
      = Inr (p3\<lparr>pipe_bytes := (A @ h) @ u32_bytes (?w OR kMaskNotWriting) @ (c @ ?rest)\<rparr>)"
    by (rule store_split [OF b3 p3(2) _ a3]) simp
  ultimately have "SetReady p3 a = Inr (p3\<lparr>pipe_bytes := (A @ h) @ u32_bytes (?w OR kMaskNotWriting) @ (c @ ?rest)\<rparr>)"
    using hs by (simp add: SetReady_def store_size_def)
  with w p1(3) p2(3) p3(3) show ?thesis by (simp add: msg_bytes_def ready_size_def)
qed

section \<open>The pace moves over the message\<close>

lemma next_pace_encode:
  assumes "t < 2 ^ 48" and "ver < kNumVersions"
  shows "next_pace (EncodeSenderPace t ver) t' False = EncodeSenderPace t' ver"
    and "next_pace (EncodeSenderPace t ver) t' True = EncodeSenderPace t' ((ver + 1) mod kNumVersions)"
  using pace_version [OF assms] by (simp_all add: next_pace_def)

lemma move_from_one:
  assumes "sane p" and "msg_ok p m" and "load_size p t = Inr (ready_size m)"
    and "sender_pace_from p = EncodeSenderPace t ver" and "ver < kNumVersions" and "t < 2 ^ 48"
    and t': "t' = t + kMsgOffset p + length (snd m)" "t' < 2 ^ 48" and "sender_pace_to p = EncodeSenderPace t' ver"
  shows "move_from p (EncodeSenderPace t ver) t ver = Inr (p\<lparr>sender_pace_from := EncodeSenderPace t' ver\<rparr>)"
proof -
  have "DecodeSenderPaceToPtr (p\<lparr>sender_pace_from := EncodeSenderPace t' ver\<rparr>) = t'"
    using assms(9) t'(2) by (simp add: DecodeSenderPaceToPtr_def pace_pointer)
  moreover have "t + unat (GetMsgSize p (ready_size m)) = t'"
    using GetMsgSize_ready [OF assms(1,2)] t' by simp
  ultimately show ?thesis
    using assms(3,4) next_pace_encode(1) [OF assms(6,5)] GetMsgSize_ready(1) [OF assms(1,2)]
    by (simp add: move_from_def CASSenderPaceFrom_def Let_def)
qed

definition after_send :: "mpsc_pipe \<Rightarrow> 8 word list \<Rightarrow> mpsc_pipe" where
  "after_send p bs = p\<lparr>pipe_bytes := bs, sender_pace_from := sender_pace_to p\<rparr>"

text \<open>
  The rest of \<open>SendMsg_\<close> after the space has been reserved, for a message behind the others
  and for one at the front of the pipe.
\<close>

lemma finish_send:
  assumes p: "sane p" "msg_ok p (h, c)"
    and bytes: "pipe_bytes p = A @ blank n @ B" and n: "kMsgOffset p + length c \<le> n"
    and t: "t = pipe_start p + length A" "t' = t + kMsgOffset p + length c"
    and ver: "ver < kNumVersions" "ver' < kNumVersions"
    and to: "sender_pace_to p = EncodeSenderPace t' ver'"
    and kind: "sender_pace_from p = EncodeSenderPace t ver \<and> ver' = ver
      \<or> sender_pace_from p = EncodeSenderPace w ver \<and> ver' = (ver + 1) mod kNumVersions
        \<and> A = [] \<and> w \<noteq> t \<and> w < 2 ^ 48 \<and> pos = Some w"
  obtains p2 where "write_msg p t h c = Inr p2"
    "JustSendMsg p2 t pos = Inr (after_send p (A @ msg_bytes (h, c) @ blank (n - (kMsgOffset p + length c)) @ B))"
proof -
  let ?bs = "A @ msg_bytes (h, c) @ blank (n - (kMsgOffset p + length c)) @ B"
  let ?p1 = "p\<lparr>pipe_bytes := ?bs\<rparr>"
  have h: "length h = header_size p" and len: "length (pipe_bytes p) = size_pipe p"
    using p by (simp_all add: msg_ok_def sane_def)
  from write_then_ready [OF bytes len h n t(1)] obtain p2 where
    p2: "write_msg p t h c = Inr p2" "SetReady p2 t = Inr ?p1" by blast
  have size: "length ?bs = size_pipe p"
    using len bytes n length_msg_bytes [of "(h, c)" p] h by simp
  then have sane1: "sane ?p1" "msg_ok ?p1 (h, c)" using p by (auto simp: sane_def msg_ok_def kMsgOffset_def)
  have load: "load_size ?p1 t = Inr (ready_size (h, c))"
    by (rule load_size_at [where A = A]) (use h size t in auto)
  have "t' \<le> pipe_start p + size_pipe p"
    using size t length_msg_bytes [of "(h, c)" p] h by simp
  then have t': "t' < 2 ^ 48" "t < 2 ^ 48" using p(1) t by (auto simp: sane_def)
  have off: "t' = t + kMsgOffset ?p1 + length (snd (h, c))" using t by (simp add: kMsgOffset_def)
  have "JustSendMsg p2 t pos = Inr (after_send p ?bs)"
    using kind
  proof
    assume k: "sender_pace_from p = EncodeSenderPace t ver \<and> ver' = ver"
    then have "move_from ?p1 (EncodeSenderPace t ver) t ver = Inr (?p1\<lparr>sender_pace_from := EncodeSenderPace t' ver\<rparr>)"
      by (intro move_from_one [OF sane1 load _ ver(1) t'(2) off t'(1)]) (use to in simp_all)
    with k p2(2) t' ver to show ?thesis
      by (simp add: JustSendMsg_def pace_pointer pace_version after_send_def)
  next
    assume k: "sender_pace_from p = EncodeSenderPace w ver \<and> ver' = (ver + 1) mod kNumVersions
        \<and> A = [] \<and> w \<noteq> t \<and> w < 2 ^ 48 \<and> pos = Some w"
    let ?q = "EncodeSenderPaceFrom ?p1 t ver'"
    have "move_from ?q (EncodeSenderPace t ver') t ver' = Inr (?q\<lparr>sender_pace_from := EncodeSenderPace t' ver'\<rparr>)"
    proof (rule move_from_one [OF _ _ _ _ ver(2) t'(2) _ t'(1)])
      show "sane ?q" "msg_ok ?q (h, c)"
        using sane1 by (simp_all add: sane_def msg_ok_def EncodeSenderPaceFrom_def kMsgOffset_def)
      show "load_size ?q t = Inr (ready_size (h, c))"
        by (rule load_size_at [where A = A]) (use h size t in \<open>simp_all add: EncodeSenderPaceFrom_def\<close>)
    qed (use to off in \<open>simp_all add: EncodeSenderPaceFrom_def kMsgOffset_def\<close>)
    moreover have "w \<noteq> pipe_start p" "t = pipe_start p" using k t by auto
    ultimately show ?thesis using k p2(2) t' ver to
      by (simp add: JustSendMsg_def pace_pointer pace_version after_send_def DecodeSenderPaceFromPtr_def
          EncodeSenderPaceFrom_def Let_def)
  qed
  with p2(1) show ?thesis by (rule that)
qed

section \<open>The pipe holds a queue\<close>

text \<open>Both paces of the senders are at \<open>t\<close>.\<close>

definition pace_at :: "mpsc_pipe \<Rightarrow> nat \<Rightarrow> bool" where
  "pace_at p t \<longleftrightarrow> sender_pace_from p = sender_pace_to p
     \<and> (\<exists>ver < kNumVersions. sender_pace_to p = EncodeSenderPace t ver)"

definition straight :: "mpsc_pipe \<Rightarrow> msg list \<Rightarrow> bool" where
  "straight p q \<longleftrightarrow> (\<exists>a b. pipe_bytes p = blank a @ enc q @ blank b
     \<and> receiver_pace p = pipe_start p + a \<and> pace_at p (pipe_start p + a + length (enc q)))"

text \<open>The senders are back at the front, the receiver is not.\<close>

definition wrapped :: "mpsc_pipe \<Rightarrow> msg list \<Rightarrow> bool" where
  "wrapped p q \<longleftrightarrow> (\<exists>q1 q2 x y. q = q1 @ q2 \<and> q2 \<noteq> [] \<and> 0 < x
     \<and> pipe_bytes p = enc q2 @ blank x @ enc q1 @ blank y
     \<and> receiver_pace p = pipe_start p + length (enc q2) + x \<and> pace_at p (pipe_start p + length (enc q2)))"

definition holds :: "mpsc_pipe \<Rightarrow> msg list \<Rightarrow> bool" where
  "holds p q \<longleftrightarrow> sane p \<and> (\<forall>m \<in> set q. msg_ok p m) \<and> (straight p q \<or> wrapped p q)"

lemma pace_at_ptr: "pace_at p t \<Longrightarrow> t < 2 ^ 48 \<Longrightarrow> DecodeSenderPacePtr (sender_pace_to p) = t"
  by (auto simp: pace_at_def pace_pointer)

lemma frame_pace:
  "sane (p\<lparr>sender_pace_to := t\<rparr>) = sane p" "msg_ok (p\<lparr>sender_pace_to := t\<rparr>) = msg_ok p"
  "kMsgOffset (p\<lparr>sender_pace_to := t\<rparr>) = kMsgOffset p"
  by (simp_all add: sane_def msg_ok_def kMsgOffset_def fun_eq_iff)

declare frame_pace [frame_simps]

lemma enc_length_pos: "\<forall>m \<in> set q. msg_ok p m \<Longrightarrow> q \<noteq> [] \<Longrightarrow> kMsgOffset p \<le> length (enc q)"
  by (cases q) (auto simp: msg_ok_def length_msg_bytes)

definition sizes :: "mpsc_pipe \<Rightarrow> nat \<times> nat \<times> nat" where
  "sizes p = (kMsgOffset p, size_pipe p, max_size_content p)"

text \<open>Sending to a place where the message fits, in memory that looks as described.\<close>

lemma send_here:
  assumes p: "sane p" "msg_ok p (h, c)"
    and bytes: "pipe_bytes p = A @ blank n @ B" and n: "kMsgOffset p + length c \<le> n"
    and t: "t = pipe_start p + length A" "t' = t + kMsgOffset p + length c" and pace: "pace_at p t"
    and res: "ReserveSpaceForSend p (length c)
      = (Some (t, None), p\<lparr>sender_pace_to := next_pace (sender_pace_to p) t' False\<rparr>)"
  obtains p' where "SendMsg1 p h c = Inr (True, p')" "pace_at p' t'" "receiver_pace p' = receiver_pace p"
    "pipe_bytes p' = A @ msg_bytes (h, c) @ blank (n - (kMsgOffset p + length c)) @ B"
    "pipe_start p' = pipe_start p" "sane p'" "msg_ok p' = msg_ok p" "sizes p' = sizes p"
proof -
  let ?bs = "A @ msg_bytes (h, c) @ blank (n - (kMsgOffset p + length c)) @ B"
  obtain ver where ver: "ver < kNumVersions" "sender_pace_to p = EncodeSenderPace t ver"
    "sender_pace_from p = EncodeSenderPace t ver" using pace by (auto simp: pace_at_def)
  have "length A + n \<le> size_pipe p" using bytes p(1) unfolding sane_def by (metis add.assoc le_add1 length_append length_blank)
  then have "t' < 2 ^ 48" "t < 2 ^ 48" using t n p(1) by (auto simp: sane_def)
  then have to: "next_pace (sender_pace_to p) t' False = EncodeSenderPace t' ver"
    using ver next_pace_encode(1) by simp
  let ?p1 = "p\<lparr>sender_pace_to := EncodeSenderPace t' ver\<rparr>"
  have len: "length ?bs = length (pipe_bytes p)"
    using bytes n length_msg_bytes [of "(h, c)" p] p(2) by (simp add: msg_ok_def)
  obtain p2 where p2: "write_msg ?p1 t h c = Inr p2" "JustSendMsg p2 t None = Inr (after_send ?p1 ?bs)"
    by (rule finish_send [where p = ?p1 and h = h and c = c and A = A and n = n and B = B and t = t
          and t' = t' and ver = ver and ver' = ver and pos = None])
      (use p bytes n t ver in \<open>simp_all add: frame_simps\<close>)
  show ?thesis
  proof (rule that [of "after_send ?p1 ?bs"])
    show "SendMsg1 p h c = Inr (True, after_send ?p1 ?bs)" using res to p2 by (simp add: SendMsg1_def)
    show "sane (after_send ?p1 ?bs)" "msg_ok (after_send ?p1 ?bs) = msg_ok p"
      using len p by (auto simp: after_send_def sane_def msg_ok_def kMsgOffset_def fun_eq_iff)
  qed (use ver in \<open>auto simp: after_send_def pace_at_def sizes_def kMsgOffset_def\<close>)
qed

text \<open>Sending to the front of the pipe.\<close>

lemma send_front:
  assumes p: "sane p" "msg_ok p (h, c)"
    and bytes: "pipe_bytes p = blank n @ B" and n: "kMsgOffset p + length c \<le> n"
    and t: "t \<noteq> pipe_start p" "t < 2 ^ 48" "t' = pipe_start p + kMsgOffset p + length c" and pace: "pace_at p t"
    and res: "ReserveSpaceForSend p (length c)
      = (Some (pipe_start p, Some t), p\<lparr>sender_pace_to := next_pace (sender_pace_to p) t' True\<rparr>)"
  obtains p' where "SendMsg1 p h c = Inr (True, p')" "pace_at p' t'" "receiver_pace p' = receiver_pace p"
    "pipe_bytes p' = msg_bytes (h, c) @ blank (n - (kMsgOffset p + length c)) @ B"
    "pipe_start p' = pipe_start p" "sane p'" "msg_ok p' = msg_ok p" "sizes p' = sizes p"
proof -
  let ?bs = "msg_bytes (h, c) @ blank (n - (kMsgOffset p + length c)) @ B"
  obtain ver where ver: "ver < kNumVersions" "sender_pace_to p = EncodeSenderPace t ver"
    "sender_pace_from p = EncodeSenderPace t ver" using pace by (auto simp: pace_at_def)
  let ?ver = "(ver + 1) mod kNumVersions"
  have "n \<le> size_pipe p" using bytes p(1) unfolding sane_def by (metis le_add1 length_append length_blank)
  then have "t' < 2 ^ 48" using t n p(1) by (auto simp: sane_def)
  then have to: "next_pace (sender_pace_to p) t' True = EncodeSenderPace t' ?ver"
    using ver next_pace_encode(2) t(2) by simp
  let ?p1 = "p\<lparr>sender_pace_to := EncodeSenderPace t' ?ver\<rparr>"
  have len: "length ?bs = length (pipe_bytes p)"
    using bytes n length_msg_bytes [of "(h, c)" p] p(2) by (simp add: msg_ok_def)
  obtain p2 where p2: "write_msg ?p1 (pipe_start p) h c = Inr p2"
    "JustSendMsg p2 (pipe_start p) (Some t) = Inr (after_send ?p1 ?bs)"
    by (rule finish_send [where p = ?p1 and h = h and c = c and A = "[]" and n = n and B = B
          and t = "pipe_start p" and t' = t' and ver = ver and ver' = ?ver and w = t and pos = "Some t"])
      (use p bytes n t ver version_wraps in \<open>simp_all add: frame_simps\<close>)
  show ?thesis
  proof (rule that [of "after_send ?p1 ?bs"])
    show "SendMsg1 p h c = Inr (True, after_send ?p1 ?bs)" using res to p2 by (simp add: SendMsg1_def)
    show "sane (after_send ?p1 ?bs)" "msg_ok (after_send ?p1 ?bs) = msg_ok p"
      using len p by (auto simp: after_send_def sane_def msg_ok_def kMsgOffset_def fun_eq_iff)
  qed (use ver version_wraps in \<open>auto simp: after_send_def pace_at_def sizes_def kMsgOffset_def\<close>)
qed

definition room :: "mpsc_pipe \<Rightarrow> nat \<Rightarrow> bool" where
  "room p l \<longleftrightarrow> l \<le> max_size_content p \<and>
     (let t = DecodeSenderPaceToPtr p; r = receiver_pace p; need = kMsgOffset p + l in
      if r \<le> t then t + need \<le> end_of_pipe p \<or> pipe_start p + need < r else t + need < r)"

lemma no_room_refused: "\<not> room p l \<Longrightarrow> ReserveSpaceForSend p l = (None, p)"
  by (auto simp: room_def ReserveSpaceForSend_def DecodeSenderPaceToPtr_def Let_def)

lemma reserve_here:
  assumes "room p l" and "DecodeSenderPacePtr (sender_pace_to p) = t"
    and "t + kMsgOffset p + l \<le> (if receiver_pace p \<le> t then end_of_pipe p else receiver_pace p - 1)"
  shows "ReserveSpaceForSend p l
    = (Some (t, None), p\<lparr>sender_pace_to := next_pace (sender_pace_to p) (t + kMsgOffset p + l) False\<rparr>)"
  using assms by (auto simp: room_def ReserveSpaceForSend_def DecodeSenderPaceToPtr_def CASSenderPaceTo_def
      Let_def add.assoc split: if_splits)

lemma reserve_front:
  assumes "room p l" and "DecodeSenderPacePtr (sender_pace_to p) = t" and "receiver_pace p \<le> t"
    and "end_of_pipe p < t + kMsgOffset p + l"
  shows "ReserveSpaceForSend p l
    = (Some (pipe_start p, Some t),
       p\<lparr>sender_pace_to := next_pace (sender_pace_to p) (pipe_start p + kMsgOffset p + l) True\<rparr>)"
  using assms by (auto simp: room_def ReserveSpaceForSend_def DecodeSenderPaceToPtr_def CASSenderPaceTo_def
      Let_def add.assoc)

lemma holdsI_straight:
  assumes "sane p" "\<forall>m \<in> set q. msg_ok p m" "pipe_bytes p = blank a @ enc q @ blank b"
    "receiver_pace p = pipe_start p + a" "pace_at p (pipe_start p + a + length (enc q))"
  shows "holds p q"
  using assms by (auto simp: holds_def straight_def)

lemma holdsI_wrapped:
  assumes "sane p" "\<forall>m \<in> set (q1 @ q2). msg_ok p m" "q2 \<noteq> []" "0 < x"
    "pipe_bytes p = enc q2 @ blank x @ enc q1 @ blank y"
    "receiver_pace p = pipe_start p + length (enc q2) + x" "pace_at p (pipe_start p + length (enc q2))"
  shows "holds p (q1 @ q2)"
  using assms unfolding holds_def wrapped_def by blast

lemma send_with_room:
  assumes "holds p q" and h: "length h = header_size p" and room: "room p (length c)"
  obtains p' where "SendMsg1 p h c = Inr (True, p')" "holds p' (q @ [(h, c)])" "sizes p' = sizes p"
proof -
  let ?need = "kMsgOffset p + length c"
  have p: "sane p" "\<forall>m \<in> set q. msg_ok p m" "msg_ok p (h, c)"
    using assms by (auto simp: holds_def msg_ok_def room_def)
  have len: "length (pipe_bytes p) = size_pipe p" and top48: "pipe_start p + size_pipe p < 2 ^ 48"
    using p(1) by (simp_all add: sane_def)
  have mlen: "length (msg_bytes (h, c)) = ?need" using h by (simp add: length_msg_bytes)
  from assms(1) consider "straight p q" | "wrapped p q" by (auto simp: holds_def)
  then show ?thesis
  proof cases
    case 1
    then obtain a b where s: "pipe_bytes p = blank a @ enc q @ blank b" "receiver_pace p = pipe_start p + a"
      "pace_at p (pipe_start p + a + length (enc q))" by (auto simp: straight_def)
    let ?t = "pipe_start p + a + length (enc q)"
    have tot: "a + length (enc q) + b = size_pipe p" using s(1) len by simp
    then have t: "DecodeSenderPacePtr (sender_pace_to p) = ?t" "?t < 2 ^ 48"
      using pace_at_ptr [OF s(3)] top48 by simp_all
    show ?thesis
    proof (cases "?need \<le> b")
      case True
      obtain p' where p': "SendMsg1 p h c = Inr (True, p')" "pace_at p' (?t + kMsgOffset p + length c)"
        "receiver_pace p' = receiver_pace p"
        "pipe_bytes p' = (blank a @ enc q) @ msg_bytes (h, c) @ blank (b - ?need) @ []"
        "pipe_start p' = pipe_start p" "sane p'" "msg_ok p' = msg_ok p" "sizes p' = sizes p"
      proof (rule send_here [OF p(1,3) _ True _ refl s(3), where A = "blank a @ enc q" and B = "[]"])
        show "ReserveSpaceForSend p (length c) = (Some (?t, None),
            p\<lparr>sender_pace_to := next_pace (sender_pace_to p) (?t + kMsgOffset p + length c) False\<rparr>)"
          using True tot s(2) by (intro reserve_here room t) (simp add: end_of_pipe_def)
      qed (use s in simp_all)
      have "holds p' (q @ [(h, c)])"
        by (rule holdsI_straight [where a = a and b = "b - ?need"])
          (use p' p s mlen in \<open>simp_all add: add.assoc\<close>)
      from that [OF p'(1) this p'(8)] show ?thesis .
    next
      case False
      have a: "?need < a" "receiver_pace p \<le> ?t"
        using room False tot s(2) t by (auto simp: room_def DecodeSenderPaceToPtr_def end_of_pipe_def Let_def)
      obtain p' where p': "SendMsg1 p h c = Inr (True, p')" "pace_at p' (pipe_start p + kMsgOffset p + length c)"
        "receiver_pace p' = receiver_pace p"
        "pipe_bytes p' = msg_bytes (h, c) @ blank (a - ?need) @ (enc q @ blank b)"
        "pipe_start p' = pipe_start p" "sane p'" "msg_ok p' = msg_ok p" "sizes p' = sizes p"
      proof (rule send_front [OF p(1,3) _ _ _ t(2) refl s(3), where n = a and B = "enc q @ blank b"])
        show "ReserveSpaceForSend p (length c) = (Some (pipe_start p, Some ?t),
            p\<lparr>sender_pace_to := next_pace (sender_pace_to p) (pipe_start p + kMsgOffset p + length c) True\<rparr>)"
          using False tot by (intro reserve_front room t a) (simp add: end_of_pipe_def)
      qed (use s a in simp_all)
      have "holds p' (q @ [(h, c)])"
        by (rule holdsI_wrapped [where x = "a - ?need" and y = b])
          (use p' p s mlen a in \<open>simp_all add: add.assoc\<close>)
      from that [OF p'(1) this p'(8)] show ?thesis .
    qed
  next
    case 2
    then obtain q1 q2 x y where w: "q = q1 @ q2" "q2 \<noteq> []" "0 < x"
      "pipe_bytes p = enc q2 @ blank x @ enc q1 @ blank y"
      "receiver_pace p = pipe_start p + length (enc q2) + x" "pace_at p (pipe_start p + length (enc q2))"
      unfolding wrapped_def by blast
    let ?t = "pipe_start p + length (enc q2)"
    have "length (enc q2) \<le> size_pipe p" using w(4) len by simp
    then have t: "DecodeSenderPacePtr (sender_pace_to p) = ?t" using pace_at_ptr [OF w(6)] top48 by simp
    have x: "?need < x" using room w(3,5) t by (auto simp: room_def DecodeSenderPaceToPtr_def Let_def)
    obtain p' where p': "SendMsg1 p h c = Inr (True, p')" "pace_at p' (?t + kMsgOffset p + length c)"
      "receiver_pace p' = receiver_pace p"
      "pipe_bytes p' = enc q2 @ msg_bytes (h, c) @ blank (x - ?need) @ (enc q1 @ blank y)"
      "pipe_start p' = pipe_start p" "sane p'" "msg_ok p' = msg_ok p" "sizes p' = sizes p"
    proof (rule send_here [OF p(1,3) _ _ _ refl w(6), where A = "enc q2" and n = x and B = "enc q1 @ blank y"])
      show "ReserveSpaceForSend p (length c) = (Some (?t, None),
          p\<lparr>sender_pace_to := next_pace (sender_pace_to p) (?t + kMsgOffset p + length c) False\<rparr>)"
        using x w(3,5) by (intro reserve_here room t) auto
    qed (use w x in simp_all)
    have "holds p' (q1 @ (q2 @ [(h, c)]))"
      by (rule holdsI_wrapped [where x = "x - ?need" and y = y])
        (use p' p w mlen x in \<open>auto simp: add.assoc\<close>)
    then have "holds p' (q @ [(h, c)])" using w(1) by simp
    from that [OF p'(1) this p'(8)] show ?thesis .
  qed
qed

section \<open>Receiving\<close>

text \<open>The bytes of a message stand where the receiver is.\<close>

definition head_at :: "mpsc_pipe \<Rightarrow> msg \<Rightarrow> bool" where
  "head_at p m \<longleftrightarrow> (\<exists>A B. pipe_bytes p = A @ msg_bytes m @ B \<and> receiver_pace p = pipe_start p + length A)"

lemma load_blank_size:
  assumes "pipe_bytes p = A @ blank n" and "length (pipe_bytes p) = size_pipe p" and "kMsgOffset p \<le> n"
    and "a = pipe_start p + length A"
  shows "load_size p a = Inr (- 1)"
proof -
  have "n = header_size p + (4 + (n - kMsgOffset p))" using assms(3) by (simp add: kMsgOffset_def)
  then have "blank n = blank (header_size p) @ blank 4 @ blank (n - kMsgOffset p)" by (metis blank_add)
  then have "pipe_bytes p = (A @ blank (header_size p)) @ blank 4 @ blank (n - kMsgOffset p)"
    using assms(1) by simp
  from load_split [OF this assms(2), of 4] assms(4)
  have "load_bytes p (a + header_size p) 4 = Inr (blank 4)" by (simp add: add.assoc)
  moreover have "blank 4 = [255, 255, 255, 255]" by (simp add: blank_def numeral_eq_Suc)
  ultimately show ?thesis by (simp add: load_size_def u32_of_blank)
qed

lemma receive_spec:
  assumes "holds p q"
  obtains p' where "HasTodoMsg p = Inr (q \<noteq> [], p')" "holds p' q"
    "\<And>m q'. q = m # q' \<Longrightarrow> head_at p' m" "q \<noteq> [] \<Longrightarrow> HasTodoMsg p' = Inr (True, p')"
    "receiver_pace p' \<noteq> receiver_pace p \<Longrightarrow> q \<noteq> []" "pipe_bytes p' = pipe_bytes p" "sender_pace_to p' = sender_pace_to p"
    "pipe_start p' = pipe_start p" "size_pipe p' = size_pipe p" "kMsgOffset p' = kMsgOffset p"
    "max_size_content p' = max_size_content p" "header_size p' = header_size p"
proof -
  have p: "sane p" "\<forall>m \<in> set q. msg_ok p m" using assms by (auto simp: holds_def)
  have len: "length (pipe_bytes p) = size_pipe p" and top48: "pipe_start p + size_pipe p < 2 ^ 48"
    using p(1) by (simp_all add: sane_def)
  note finish = that
  have stay: thesis if t: "HasTodoMsg p = Inr (q \<noteq> [], p)" and h: "\<And>m q'. q = m # q' \<Longrightarrow> head_at p m"
    by (rule finish [OF t assms h]) (use t in auto)
  from assms consider "straight p q" | "wrapped p q" by (auto simp: holds_def)
  then show ?thesis
  proof cases
    case 1
    then obtain a b where s: "pipe_bytes p = blank a @ enc q @ blank b" "receiver_pace p = pipe_start p + a"
      "pace_at p (pipe_start p + a + length (enc q))" by (auto simp: straight_def)
    have "a + length (enc q) + b = size_pipe p" using s(1) len by simp
    then have f: "DecodeSenderPaceFromPtr p = pipe_start p + a + length (enc q)"
      using pace_at_ptr [OF s(3)] s(3) top48 by (simp add: DecodeSenderPaceFromPtr_def pace_at_def)
    have "0 < length (enc q)" if "q \<noteq> []" using enc_length_pos [OF p(2) that] by (cases "enc q = []") (simp_all add: kMsgOffset_def)
    then have "HasTodoMsg p = Inr (q \<noteq> [], p)" using f s(2) by (cases "q = []") (auto simp: HasTodoMsg_def)
    moreover have "head_at p m" if "q = m # q'" for m q'
      using s that unfolding head_at_def by (intro exI [of _ "blank a"] exI [of _ "enc q' @ blank b"]) simp
    ultimately show ?thesis by (rule stay)
  next
    case 2
    then obtain q1 q2 x y where w: "q = q1 @ q2" "q2 \<noteq> []" "0 < x"
      "pipe_bytes p = enc q2 @ blank x @ enc q1 @ blank y"
      "receiver_pace p = pipe_start p + length (enc q2) + x" "pace_at p (pipe_start p + length (enc q2))"
      unfolding wrapped_def by blast
    have tot: "length (enc q2) + x + length (enc q1) + y = size_pipe p" using w(4) len by simp
    then have f: "DecodeSenderPaceFromPtr p = pipe_start p + length (enc q2)"
      using pace_at_ptr [OF w(6)] w(6) top48 by (simp add: DecodeSenderPaceFromPtr_def pace_at_def)
    show ?thesis
    proof (cases q1)
      case (Cons m q1')
      have m: "msg_ok p m" "length (snd m) < 2 ^ 31 - 1"
        using p w(1) Cons by (auto simp: msg_ok_def sane_def)
      then have fits: "receiver_pace p + kMsgOffset p \<le> end_of_pipe p"
        using tot w(5) Cons by (simp add: end_of_pipe_def length_msg_bytes msg_ok_def)
      have "load_size p (receiver_pace p) = Inr (ready_size m)"
        by (rule load_size_at [where A = "enc q2 @ blank x" and B = "enc q1' @ blank y"])
          (use w(4,5) m len Cons in \<open>simp_all add: msg_ok_def\<close>)
      then have "HasTodoMsg p = Inr (q \<noteq> [], p)"
        using f fits w(1,3,5) Cons ready_facts(3) [OF m(2)] by (simp add: HasTodoMsg_def Let_def)
      moreover have "head_at p m'" if "q = m' # q'" for m' q'
        using w that Cons unfolding head_at_def
        by (intro exI [of _ "enc q2 @ blank x"] exI [of _ "enc q1' @ blank y"]) simp
      ultimately show ?thesis by (rule stay)
    next
      case Nil
      let ?p' = "p\<lparr>receiver_pace := pipe_start p\<rparr>"
      have pos: "0 < length (enc q2)" using enc_length_pos [OF _ w(2), of p] p(2) w(1)
        by (cases "enc q2 = []") (simp_all add: kMsgOffset_def)
      have "load_size p (receiver_pace p) = Inr (- 1)" if "receiver_pace p + kMsgOffset p \<le> end_of_pipe p"
        by (rule load_blank_size [where A = "enc q2 @ blank x" and n = y])
          (use that w(4,5) len tot Nil in \<open>simp_all add: end_of_pipe_def\<close>)
      then have todo: "HasTodoMsg p = Inr (q \<noteq> [], ?p')"
        using f w(1,2,3,5) pos by (auto simp: HasTodoMsg_def Let_def IsBlank_def)
      have pace: "pace_at ?p' (pipe_start p + length (enc q2))" using w(6) by (simp add: pace_at_def)
      have "holds ?p' q"
        by (rule holdsI_straight [where a = 0 and b = "x + y"])
          (use p w pace Nil in \<open>simp_all add: sane_def msg_ok_def kMsgOffset_def blank_add blank_def [of 0]\<close>)
      moreover have "HasTodoMsg ?p' = Inr (True, ?p')"
        using f pos by (simp add: HasTodoMsg_def DecodeSenderPaceFromPtr_def)
      moreover have "head_at ?p' m" if "q = m # q'" for m q'
        using w that Nil unfolding head_at_def
        by (intro exI [of _ "[]"] exI [of _ "enc q' @ blank (x + y)"]) (auto simp: blank_add)
      ultimately show ?thesis using todo w(2)
        by (intro that [of ?p'] todo) (simp_all add: kMsgOffset_def w(1))
    qed
  qed
qed

lemma consume_spec:
  assumes "holds p q" and todo: "HasTodoMsg p = Inr (True, p)"
  obtains p' m q' where "q = m # q'" "MsgConsumed p = Inr p'" "holds p' q'" "sizes p' = sizes p"
proof -
  have p: "sane p" "\<forall>m \<in> set q. msg_ok p m" using assms by (auto simp: holds_def)
  have len: "length (pipe_bytes p) = size_pipe p" and top48: "pipe_start p + size_pipe p < 2 ^ 48"
    using p(1) by (simp_all add: sane_def)
  obtain p'' where "HasTodoMsg p = Inr (q \<noteq> [], p'')" using receive_spec [OF assms(1)] by metis
  with todo have "q \<noteq> []" by simp
  then obtain m q' where q: "q = m # q'" by (cases q) auto
  have m: "msg_ok p m" "length (snd m) < 2 ^ 31 - 1" "length (msg_bytes m) = kMsgOffset p + length (snd m)"
    using p q by (auto simp: msg_ok_def sane_def length_msg_bytes)
  let ?l = "length (msg_bytes m)"
  have consumed: "MsgConsumed p = Inr (p\<lparr>receiver_pace := receiver_pace p + ?l, pipe_bytes := A @ blank ?l @ B\<rparr>)"
    if b: "pipe_bytes p = A @ msg_bytes m @ B" "receiver_pace p = pipe_start p + length A" for A B
  proof -
    have "load_size p (receiver_pace p) = Inr (ready_size m)"
      by (rule load_size_at [where A = A and B = B]) (use b m len in \<open>simp_all add: msg_ok_def\<close>)
    moreover have "unat (GetMsgSize p (ready_size m)) = ?l" using GetMsgSize_ready [OF p(1) m(1)] m(3) by simp
    moreover have "SetBlank (p\<lparr>receiver_pace := receiver_pace p + ?l\<rparr>) (receiver_pace p) (receiver_pace p + ?l)
        = Inr (p\<lparr>receiver_pace := receiver_pace p + ?l, pipe_bytes := A @ blank ?l @ B\<rparr>)"
      using store_split [of "p\<lparr>receiver_pace := receiver_pace p + ?l\<rparr>" A "msg_bytes m" B "blank ?l" "receiver_pace p"]
        b len by (simp add: SetBlank_def blank_def)
    ultimately show ?thesis by (simp add: MsgConsumed_def pass_msg_def)
  qed
  have frame: "sane (p\<lparr>receiver_pace := r, pipe_bytes := bs\<rparr>)"
    "\<forall>m \<in> set q'. msg_ok (p\<lparr>receiver_pace := r, pipe_bytes := bs\<rparr>) m" if "length bs = size_pipe p" for r bs
    using p q that by (auto simp: sane_def msg_ok_def kMsgOffset_def)
  from assms(1) consider "straight p q" | "wrapped p q" by (auto simp: holds_def)
  then show ?thesis
  proof cases
    case 1
    then obtain a b where s: "pipe_bytes p = blank a @ enc q @ blank b" "receiver_pace p = pipe_start p + a"
      "pace_at p (pipe_start p + a + length (enc q))" by (auto simp: straight_def)
    let ?p' = "p\<lparr>receiver_pace := receiver_pace p + ?l, pipe_bytes := blank a @ blank ?l @ enc q' @ blank b\<rparr>"
    have size: "length (blank a @ blank ?l @ enc q' @ blank b) = size_pipe p" using s(1) len q by simp
    have c: "MsgConsumed p = Inr ?p'" using consumed [of "blank a" "enc q' @ blank b"] s q by simp
    have "holds ?p' q'"
      by (rule holdsI_straight [where a = "a + ?l" and b = b, OF frame [OF size]])
        (use s q in \<open>simp_all add: blank_add pace_at_def add.assoc\<close>)
    from that [OF q c this] show ?thesis by (simp add: sizes_def kMsgOffset_def)
  next
    case 2
    then obtain q1 q2 x y where w: "q = q1 @ q2" "q2 \<noteq> []" "0 < x"
      "pipe_bytes p = enc q2 @ blank x @ enc q1 @ blank y"
      "receiver_pace p = pipe_start p + length (enc q2) + x" "pace_at p (pipe_start p + length (enc q2))"
      unfolding wrapped_def by blast
    have "q1 \<noteq> []"
    proof
      assume Nil: "q1 = []"
      have tot: "length (enc q2) + x + y = size_pipe p" using w(4) len Nil by simp
      then have f: "DecodeSenderPaceFromPtr p = pipe_start p + length (enc q2)"
        using pace_at_ptr [OF w(6)] w(6) top48 by (simp add: DecodeSenderPaceFromPtr_def pace_at_def)
      have "load_size p (receiver_pace p) = Inr (- 1)" if "receiver_pace p + kMsgOffset p \<le> end_of_pipe p"
        by (rule load_blank_size [where A = "enc q2 @ blank x" and n = y])
          (use that w(4,5) len tot Nil in \<open>simp_all add: end_of_pipe_def\<close>)
      then have "\<exists>b. HasTodoMsg p = Inr (b, p\<lparr>receiver_pace := pipe_start p\<rparr>)"
        using f w(3,5) by (auto simp: HasTodoMsg_def Let_def IsBlank_def)
      with todo have "p\<lparr>receiver_pace := pipe_start p\<rparr> = p" by auto
      then have "receiver_pace p = pipe_start p" by (metis mpsc_pipe.select_convs(6) mpsc_pipe.update_convs(6) mpsc_pipe.surjective)
      with w(3,5) show False by simp
    qed
    then obtain q1' where q1: "q1 = m # q1'" "q' = q1' @ q2" using w(1) q by (cases q1) auto
    let ?bs = "(enc q2 @ blank x) @ blank ?l @ enc q1' @ blank y"
    let ?p' = "p\<lparr>receiver_pace := receiver_pace p + ?l, pipe_bytes := ?bs\<rparr>"
    have size: "length ?bs = size_pipe p" using w(4) len q1 by simp
    have c: "MsgConsumed p = Inr ?p'" using consumed [of "enc q2 @ blank x" "enc q1' @ blank y"] w q1 by simp
    have "holds ?p' (q1' @ q2)"
      by (rule holdsI_wrapped [where x = "x + ?l" and y = y, OF frame(1) [OF size]])
        (use frame(2) [OF size] w q1 in \<open>simp_all add: blank_add pace_at_def add.assoc\<close>)
    then have "holds ?p' q'" using q1 by simp
    from that [OF q c this] show ?thesis by (simp add: sizes_def kMsgOffset_def)
  qed
qed

section \<open>The pipe is a queue\<close>

text \<open>
  What a client does with a message it has got: it reads the header, the size without the mark
  and the content.
\<close>

definition read_msg :: "mpsc_pipe \<Rightarrow> nat \<Rightarrow> msg result" where
  "read_msg p a =
     (case (load_bytes p a (header_size p), load_size p a) of
        (Inr h, Inr sz) \<Rightarrow>
          (case load_bytes p (a + kMsgOffset p) (unat (sz AND NOT kMaskNotWriting)) of
             Inr c \<Rightarrow> Inr (h, c)
           | Inl e \<Rightarrow> Inl e)
      | (Inl e, _) \<Rightarrow> Inl e
      | (_, Inl e) \<Rightarrow> Inl e)"

lemma read_head:
  assumes "sane p" and "msg_ok p m" and "head_at p m"
  shows "read_msg p (receiver_pace p) = Inr m"
proof -
  obtain A B where b: "pipe_bytes p = A @ msg_bytes m @ B" "receiver_pace p = pipe_start p + length A"
    using assms(3) by (auto simp: head_at_def)
  have len: "length (pipe_bytes p) = size_pipe p" and h: "length (fst m) = header_size p"
    and c: "length (snd m) < 2 ^ 31 - 1"
    using assms(1,2) by (auto simp: sane_def msg_ok_def)
  have "load_bytes p (receiver_pace p) (header_size p) = Inr (fst m)"
    by (rule load_split [where A = A and B = "u32_bytes (ready_size m) @ snd m @ B"])
      (use b len h in \<open>simp_all add: msg_bytes_def\<close>)
  moreover have "load_bytes p (receiver_pace p + kMsgOffset p) (length (snd m)) = Inr (snd m)"
    by (rule load_split [where A = "A @ fst m @ u32_bytes (ready_size m)" and B = B])
      (use b len h in \<open>simp_all add: msg_bytes_def kMsgOffset_def\<close>)
  moreover have "load_size p (receiver_pace p) = Inr (ready_size m)"
    by (rule load_size_at [OF b(1) len h b(2)])
  moreover have "unat (of_nat (length (snd m)) :: 32 word) = length (snd m)"
    using c by (simp add: unat_of_nat)
  ultimately show ?thesis using ready_facts(4) [OF c] by (simp add: read_msg_def)
qed

datatype pipe_op = Send "8 word list" "8 word list" | Receive | Consume

datatype pipe_out = Sent bool | Received "msg option" | Consumed

definition pipe_step :: "mpsc_pipe \<Rightarrow> pipe_op \<Rightarrow> (pipe_out \<times> mpsc_pipe) result" where
  "pipe_step p op =
     (case op of
        Send h c \<Rightarrow>
          (case SendMsg p h c of Inl e \<Rightarrow> Inl e | Inr (ok, notify, p') \<Rightarrow> Inr (Sent ok, p'))
      | Receive \<Rightarrow>
          (case ReceiveMsg1 p of
             Inl e \<Rightarrow> Inl e
           | Inr (None, p') \<Rightarrow> Inr (Received None, p')
           | Inr (Some a, p') \<Rightarrow>
               (case read_msg p' a of Inl e \<Rightarrow> Inl e | Inr m \<Rightarrow> Inr (Received (Some m), p')))
      | Consume \<Rightarrow> (case MsgConsumed p of Inl e \<Rightarrow> Inl e | Inr p' \<Rightarrow> Inr (Consumed, p')))"

text \<open>A header of the right length; a message is consumed only after it has been received.\<close>

definition pipe_pre :: "mpsc_pipe \<Rightarrow> pipe_op \<Rightarrow> bool" where
  "pipe_pre p op =
     (case op of
        Send h c \<Rightarrow> length h = header_size p
      | Receive \<Rightarrow> True
      | Consume \<Rightarrow> HasTodoMsg p = Inr (True, p))"

text \<open>
  The queue a pipe of the given sizes is: a message is put at the end or refused, and it is not
  refused when the queue is empty and twice the message fits into the pipe.
\<close>

definition queue_spec :: "nat \<Rightarrow> nat \<Rightarrow> nat \<Rightarrow> msg list \<Rightarrow> pipe_op \<Rightarrow> pipe_out \<Rightarrow> msg list \<Rightarrow> bool" where
  "queue_spec offset len_pipe max_content q op out q' =
     (case op of
        Send h c \<Rightarrow>
          (out = Sent True \<and> q' = q @ [(h, c)] \<and> length c \<le> max_content
           \<or> out = Sent False \<and> q' = q
             \<and> \<not> (q = [] \<and> length c \<le> max_content \<and> 2 * (offset + length c) \<le> len_pipe))
      | Receive \<Rightarrow> out = Received (case q of [] \<Rightarrow> None | m # _ \<Rightarrow> Some m) \<and> q' = q
      | Consume \<Rightarrow> out = Consumed \<and> q \<noteq> [] \<and> q' = tl q)"

lemma empty_room:
  assumes "holds p []" and "l \<le> max_size_content p" and "2 * (kMsgOffset p + l) \<le> size_pipe p"
  shows "room p l"
proof -
  obtain a b where s: "pipe_bytes p = blank a @ blank b" "receiver_pace p = pipe_start p + a"
    "pace_at p (pipe_start p + a)" using assms(1) by (auto simp: holds_def straight_def wrapped_def)
  have p: "sane p" using assms(1) by (simp add: holds_def)
  then have tot: "a + b = size_pipe p" using s(1) by (simp add: sane_def)
  then have "DecodeSenderPaceToPtr p = pipe_start p + a"
    using pace_at_ptr [OF s(3)] p by (simp add: sane_def DecodeSenderPaceToPtr_def)
  then show ?thesis using tot assms(2,3) s(2) by (auto simp: room_def Let_def end_of_pipe_def)
qed

text \<open>The relation between a pipe of the given sizes and the queue in it.\<close>

definition queue_in :: "nat \<Rightarrow> nat \<Rightarrow> nat \<Rightarrow> mpsc_pipe \<Rightarrow> msg list \<Rightarrow> bool" where
  "queue_in offset len_pipe max_content p q \<longleftrightarrow> holds p q \<and> sizes p = (offset, len_pipe, max_content)"

lemma SendMsg_sent: "SendMsg1 p h c = Inr (True, p') \<Longrightarrow> \<exists>n. SendMsg p h c = Inr (True, n, p')"
  by (simp add: SendMsg_def)

lemma SendMsg_refused: "\<not> room p (length c) \<Longrightarrow> SendMsg p h c = Inr (False, False, p)"
  by (simp add: SendMsg_def SendMsg1_def no_room_refused)

lemma pipe_step_sim:
  assumes "queue_in offset len_pipe max_content p q" and "pipe_pre p op"
  shows "\<exists>out p' q'. pipe_step p op = Inr (out, p') \<and> queue_in offset len_pipe max_content p' q'
    \<and> queue_spec offset len_pipe max_content q op out q'"
proof -
  have p: "holds p q" "sizes p = (offset, len_pipe, max_content)" using assms(1) by (auto simp: queue_in_def)
  then have sane: "sane p" "\<forall>m \<in> set q. msg_ok p m" by (auto simp: holds_def)
  show ?thesis
  proof (cases op)
    case (Send h c)
    show ?thesis
    proof (cases "room p (length c)")
      case True
      obtain p' where p': "SendMsg1 p h c = Inr (True, p')" "holds p' (q @ [(h, c)])" "sizes p' = sizes p"
        using send_with_room [OF p(1) _ True, of h] assms(2) Send by (auto simp: pipe_pre_def)
      obtain n where "SendMsg p h c = Inr (True, n, p')" using SendMsg_sent [OF p'(1)] by blast
      moreover have "length c \<le> max_content" using True p(2) by (simp add: room_def sizes_def)
      ultimately show ?thesis using Send p' p(2)
        by (intro exI [of _ "Sent True"] exI [of _ p'] exI [of _ "q @ [(h, c)]"])
          (simp add: pipe_step_def queue_in_def queue_spec_def)
    next
      case False
      then have "\<not> (q = [] \<and> length c \<le> max_content \<and> 2 * (offset + length c) \<le> len_pipe)"
        using empty_room [of p "length c"] p by (auto simp: sizes_def)
      then show ?thesis using Send assms(1) SendMsg_refused [OF False, of h]
        by (intro exI [of _ "Sent False"] exI [of _ p] exI [of _ q]) (simp add: pipe_step_def queue_spec_def)
    qed
  next
    case Receive
    obtain p' where p': "HasTodoMsg p = Inr (q \<noteq> [], p')" "holds p' q" "\<And>m q'. q = m # q' \<Longrightarrow> head_at p' m"
      "size_pipe p' = size_pipe p" "kMsgOffset p' = kMsgOffset p" "max_size_content p' = max_size_content p"
      using receive_spec [OF p(1)] by metis
    have q': "queue_in offset len_pipe max_content p' q" using p' p(2) by (simp add: queue_in_def sizes_def)
    have "pipe_step p Receive = Inr (Received (case q of [] \<Rightarrow> None | m # _ \<Rightarrow> Some m), p')"
    proof (cases q)
      case (Cons m q0)
      have "read_msg p' (receiver_pace p') = Inr m"
        using p'(2,3) Cons by (intro read_head) (auto simp: holds_def)
      with p'(1) Cons show ?thesis by (simp add: pipe_step_def ReceiveMsg1_def)
    qed (use p'(1) in \<open>simp add: pipe_step_def ReceiveMsg1_def\<close>)
    with Receive q' show ?thesis
      by (intro exI [of _ "Received (case q of [] \<Rightarrow> None | m # _ \<Rightarrow> Some m)"] exI [of _ p'] exI [of _ q])
        (simp add: queue_spec_def)
  next
    case Consume
    then have "HasTodoMsg p = Inr (True, p)" using assms(2) by (simp add: pipe_pre_def)
    then obtain p' m q' where "q = m # q'" "MsgConsumed p = Inr p'" "holds p' q'" "sizes p' = sizes p"
      using consume_spec [OF p(1)] by metis
    with Consume p(2) show ?thesis
      by (intro exI [of _ Consumed] exI [of _ p'] exI [of _ q'])
        (simp add: pipe_step_def queue_in_def queue_spec_def)
  qed
qed

interpretation pipe_queue: forward_simulation pipe_step "queue_spec offset len_pipe max_content" pipe_pre
    "queue_in offset len_pipe max_content"
  by unfold_locales (rule pipe_step_sim)

text \<open>The initial state is an empty queue.\<close>

lemma Init_empty:
  assumes "mpsc_Init hs start garbage len_pipe max_content threshold has_notifier = Inr (Some p)"
    and "length garbage = len_pipe" and "start + len_pipe < 2 ^ 48" and "hs + 4 + max_content < 2 ^ 31 - 1"
  shows "queue_in (hs + 4) len_pipe max_content p []"
proof -
  let ?p0 = "\<lparr>header_size = hs, size_pipe = len_pipe, max_size_content = max_content,
    threshold_sender_notify = threshold, pipe_start = start, receiver_pace = start,
    sender_pace_from = EncodeSenderPace start 0, sender_pace_to = EncodeSenderPace start 0, pipe_bytes = garbage\<rparr>"
  have blank: "SetBlank ?p0 start (end_of_pipe ?p0) = Inr (?p0\<lparr>pipe_bytes := blank len_pipe\<rparr>)"
    using assms(2) by (simp add: SetBlank_def store_bytes_def end_of_pipe_def blank_def)
  then have p: "p = ?p0\<lparr>pipe_bytes := blank len_pipe\<rparr>" "max_content + (hs + 4) < len_pipe"
    using assms(1) by (auto simp: mpsc_Init_def EncodeSenderPaceTo_def EncodeSenderPaceFrom_def Let_def
        split: if_splits)
  have "0 < kNumVersions" by (simp add: kNumVersions_def)
  then have "pace_at p start" using p(1) by (auto simp: pace_at_def)
  then have "holds p []"
    by (intro holdsI_straight [where a = 0 and b = len_pipe])
      (use p assms in \<open>simp_all add: sane_def kMsgOffset_def blank_def [of 0]\<close>)
  with p show ?thesis by (simp add: queue_in_def sizes_def kMsgOffset_def)
qed

text \<open>
  C3: calls that follow one another on a pipe that \<open>Init\<close> accepted, any number of them, run
  without a fault and see a queue: \<open>ReceiveMsg\<close> gives the oldest message that has not been
  consumed, with its header and its content unchanged, and \<open>NULL\<close> exactly when there is none;
  \<open>SendMsg\<close> puts a message at the end or refuses it, and it does not refuse a message to an empty
  pipe into which twice the message fits.
\<close>

theorem pipe_is_queue:
  assumes "mpsc_Init hs start garbage len_pipe max_content threshold has_notifier = Inr (Some p0)"
    and "length garbage = len_pipe" and "start + len_pipe < 2 ^ 48" and "hs + 4 + max_content < 2 ^ 31 - 1"
    and "legal_ops pipe_step pipe_pre p0 ops"
  shows "\<exists>outs p q. run_ops pipe_step p0 ops = Inr (outs, p)
    \<and> spec_run (queue_spec (hs + 4) len_pipe max_content) [] ops outs q"
  using pipe_queue.run_related [OF Init_empty [OF assms(1-4)] assms(5)] by blast

text \<open>A pipe of the given size for messages with a header of 4 bytes, as \<open>Init\<close> leaves it.\<close>

definition fresh_pipe :: "nat \<Rightarrow> nat \<Rightarrow> mpsc_pipe" where
  "fresh_pipe len_pipe max_content =
     \<lparr>header_size = 4, size_pipe = len_pipe, max_size_content = max_content, threshold_sender_notify = 0,
      pipe_start = 8, receiver_pace = 8, sender_pace_from = 8, sender_pace_to = 8,
      pipe_bytes = replicate len_pipe 255\<rparr>"

lemma fresh_pipe_Init:
  assumes "max_content + 8 < len_pipe" and "length garbage = len_pipe"
  shows "mpsc_Init 4 8 garbage len_pipe max_content 0 False = Inr (Some (fresh_pipe len_pipe max_content))"
proof -
  have "EncodeSenderPace 8 0 = 8" by code_simp
  then show ?thesis using assms
    by (simp add: mpsc_Init_def fresh_pipe_def Let_def EncodeSenderPaceTo_def EncodeSenderPaceFrom_def
        SetBlank_def store_bytes_def end_of_pipe_def)
qed

theorem pipe_is_queue_witness:
  "\<exists>outs p q. run_ops pipe_step (fresh_pipe 16 4) [Send [1, 2, 3, 4] [5], Receive, Consume] = Inr (outs, p)
    \<and> spec_run (queue_spec (4 + 4) 16 4) [] [Send [1, 2, 3, 4] [5], Receive, Consume] outs q"
proof -
  have "legal_ops pipe_step pipe_pre (fresh_pipe 16 4) [Send [1, 2, 3, 4] [5], Receive, Consume]" by code_simp
  then show ?thesis
    using pipe_is_queue [OF fresh_pipe_Init [of 4 16 "replicate 16 7"], of "[Send [1, 2, 3, 4] [5], Receive, Consume]"]
    by simp
qed

text \<open>
  The paces hold what was put into them: for every address below \<open>2 ^ 48\<close> and every version
  below \<open>2 ^ 16\<close> the encoded pace decodes to both, and the version after the last one is 0.
\<close>

theorem pace_round_trip:
  assumes "ptr < 2 ^ 48" and "ver < 2 ^ 16"
  shows "DecodeSenderPacePtr (EncodeSenderPace ptr ver) = ptr
    \<and> DecodeSenderPaceVersion (EncodeSenderPace ptr ver) = ver
    \<and> next_pace (EncodeSenderPace ptr ver) ptr' True = EncodeSenderPace ptr' (if ver = 2 ^ 16 - 1 then 0 else ver + 1)"
proof -
  have ver: "ver < kNumVersions" using assms(2) by (simp add: kNumVersions_def)
  have "(ver + 1) mod kNumVersions = (if ver = 2 ^ 16 - 1 then 0 else ver + 1)"
  proof (cases "ver = 2 ^ 16 - 1")
    case True
    then show ?thesis by (simp add: kNumVersions_def)
  next
    case False
    then have "unat ver + 1 < 2 ^ 16" using assms(2) by (auto simp: word_less_nat_alt word_unat_eq_iff)
    then have "unat (ver + 1) < 2 ^ 16" by (simp add: unat_word_ariths)
    then show ?thesis using False by (simp add: kNumVersions_def word_less_nat_alt mod_word_less)
  qed
  then show ?thesis
    using pace_pointer [OF assms(1)] pace_version [OF assms(1) ver] next_pace_encode(2) [OF assms(1) ver] by simp
qed

theorem pace_round_trip_witness:
  "DecodeSenderPacePtr (EncodeSenderPace 4096 65535) = 4096
    \<and> DecodeSenderPaceVersion (EncodeSenderPace 4096 65535) = 65535
    \<and> next_pace (EncodeSenderPace 4096 65535) 8 True = EncodeSenderPace 8 0"
  using pace_round_trip [of 4096 65535 8] by simp

section \<open>Waiting\<close>

text \<open>Senders that only put messages at the end.\<close>

definition keeps_queue :: "(nat \<Rightarrow> mpsc_pipe \<Rightarrow> mpsc_pipe) \<Rightarrow> bool" where
  "keeps_queue senders \<longleftrightarrow> (\<forall>i p q. holds p q \<longrightarrow> (\<exists>q'. holds (senders i p) (q @ q')))"

definition looked :: "(nat option \<times> mpsc_pipe) result \<Rightarrow> bool" where
  "looked r \<longleftrightarrow> (\<exists>out p' q'. r = Inr (out, p') \<and> holds p' q' \<and> (out = None \<longleftrightarrow> q' = []))"

lemma one_look:
  assumes "holds p q"
  obtains p' where "ReceiveMsg1 p = Inr (if q = [] then None else Some (receiver_pace p'), p')" "holds p' q"
proof -
  obtain p' where "HasTodoMsg p = Inr (q \<noteq> [], p')" "holds p' q" using receive_spec [OF assms] by metis
  then show ?thesis by (intro that [of p']) (simp_all add: ReceiveMsg1_def)
qed

lemma keeps_queueD: "keeps_queue senders \<Longrightarrow> holds p q \<Longrightarrow> \<exists>q'. holds (senders i p) (q @ q')"
  by (simp add: keeps_queue_def)

lemma busy_query_looks:
  assumes "keeps_queue senders"
  shows "holds p q \<Longrightarrow> \<exists>out p' q'. busy_query senders i n p = Inr (out, p') \<and> holds p' q' \<and> (out \<noteq> None \<longrightarrow> q' \<noteq> [])"
proof (induction n arbitrary: i p q)
  case (Suc n)
  obtain q' where q': "holds (senders i p) (q @ q')" using keeps_queueD [OF assms Suc.prems] by blast
  obtain p' where p': "ReceiveMsg1 (senders i p) = Inr (if q @ q' = [] then None else Some (receiver_pace p'), p')"
    "holds p' (q @ q')" using one_look [OF q'] by blast
  show ?case
  proof (cases "q @ q' = []")
    case True
    then show ?thesis using Suc.IH [OF p'(2), of "Suc i"] p'(1) by simp
  next
    case False
    then show ?thesis using p' by auto
  qed
qed auto

lemma sleep_rounds_look:
  assumes "keeps_queue senders"
  shows "holds p q \<Longrightarrow> start_time + timeo_ms * 1000 < now (i + f)
    \<Longrightarrow> looked (sleep_rounds senders now start_time timeo_ms (Suc f) i p)"
proof (induction f arbitrary: i p q)
  case 0
  obtain q' where "holds (senders (kTimesBusyQuery + i) p) (q @ q')"
    using keeps_queueD [OF assms 0(1)] by blast
  then obtain p' where "ReceiveMsg1 (senders (kTimesBusyQuery + i) p)
      = Inr (if q @ q' = [] then None else Some (receiver_pace p'), p')" "holds p' (q @ q')"
    using one_look by blast
  with 0(2) show ?case
    by (cases "q @ q' = []") (auto simp: looked_def intro: exI [of _ "[]"])
next
  case (Suc f)
  obtain q' where q': "holds (senders (kTimesBusyQuery + i) p) (q @ q')"
    using keeps_queueD [OF assms Suc.prems(1)] by blast
  obtain p' where p': "ReceiveMsg1 (senders (kTimesBusyQuery + i) p)
      = Inr (if q @ q' = [] then None else Some (receiver_pace p'), p')" "holds p' (q @ q')"
    using one_look [OF q'] by blast
  show ?case
  proof (cases "q @ q' = []")
    case True
    have "looked (sleep_rounds senders now start_time timeo_ms (Suc f) (Suc i) p')"
      using Suc.IH [OF p'(2), of "Suc i"] Suc.prems(2) by simp
    then show ?thesis using True p'
      by (simp add: sleep_rounds.simps(2) [of _ _ _ _ "Suc f"]) (auto simp: looked_def)
  next
    case False
    then show ?thesis using p' by (auto simp: looked_def sleep_rounds.simps(2) [of _ _ _ _ "Suc f"])
  qed
qed

text \<open>
  C34: while senders put messages at the end, \<open>ReceiveMsg\<close> without a notifier returns as soon as
  the clock has passed the timeout, after one round for each reading of the clock; it never
  faults, and it gives \<open>NULL\<close> exactly when the queue is empty at its last look.
\<close>

theorem receive_wait_returns:
  assumes "keeps_queue senders" and "holds p q" and "threshold_sender_notify p = 0" and "timeo_ms \<noteq> 0"
    and "start_time + timeo_ms * 1000 < now n"
  shows "\<exists>out p' q'. ReceiveMsg senders now start_time (Suc n) p timeo_ms = Inr (out, p')
    \<and> holds p' q' \<and> (out = None \<longleftrightarrow> q' = [])"
proof -
  obtain out p' q' where b: "busy_query senders 0 kTimesBusyQuery p = Inr (out, p')" "holds p' q'"
    "out \<noteq> None \<longrightarrow> q' \<noteq> []" using busy_query_looks [OF assms(1,2)] by blast
  have "looked (ReceiveMsgWithoutNotify senders now start_time (Suc n) p timeo_ms)"
  proof (cases out)
    case None
    have "looked (sleep_rounds senders now start_time timeo_ms (Suc n) 0 p')"
      by (rule sleep_rounds_look [OF assms(1) b(2)]) (use assms(5) in simp)
    with None b(1) assms(4) show ?thesis by (simp add: ReceiveMsgWithoutNotify_def)
  next
    case (Some msg)
    with b show ?thesis by (auto simp: looked_def ReceiveMsgWithoutNotify_def)
  qed
  with assms(3) show ?thesis by (simp add: ReceiveMsg_def looked_def)
qed

lemma fresh_holds: "max_content + 8 < len_pipe \<Longrightarrow> len_pipe < 2 ^ 30 \<Longrightarrow> holds (fresh_pipe len_pipe max_content) []"
  using Init_empty [OF fresh_pipe_Init [of max_content len_pipe "replicate len_pipe 0"]] by (simp add: queue_in_def)

theorem receive_wait_returns_witness:
  "\<exists>out p' q'. ReceiveMsg (\<lambda>i p. p) (\<lambda>i. int i * 500) 0 (Suc 5) (fresh_pipe 16 4) 1 = Inr (out, p')
    \<and> holds p' q' \<and> (out = None \<longleftrightarrow> q' = [])"
  by (rule receive_wait_returns)
    (use fresh_holds [of 4 16] in \<open>auto simp: keeps_queue_def fresh_pipe_def intro: exI [of _ "[]"]\<close>)

end
