(* ===== verification/Mpsc_Race.thy ===== *)
theory Mpsc_Race
  imports Mpsc_Spec
begin

text \<open>
  Where the pipe does not keep its promise. An empty pipe can refuse a message for ever, because
  the receiver stays where the last message ended. A sender that reserves the space of a message
  while the receiver is giving it back loses its own message, because \<open>MsgConsumed\<close> moves the
  pace before it clears the space. A sender that publishes a message which ends with the pipe,
  after another one has gone back to the front, reads past the end of the pipe.
\<close>

section \<open>An empty pipe that refuses\<close>

text \<open>
  a pipe of 16 bytes, sizes \<open>Init\<close> accepts for messages with up to 4 bytes of content, takes
  one such message and, after that has been received and consumed, no other: it is empty, sending
  is refused, receiving gives nothing, and neither changes the pipe.
\<close>

theorem empty_pipe_refuses:
  "\<exists>p. run_ops pipe_step (fresh_pipe 16 4) [Send [1, 2, 3, 4] [5, 6, 7, 8], Receive, Consume]
      = Inr ([Sent True, Received (Some ([1, 2, 3, 4], [5, 6, 7, 8])), Consumed], p)
    \<and> pipe_step p (Send [1, 2, 3, 4] [5, 6, 7, 8]) = Inr (Sent False, p)
    \<and> pipe_step p Receive = Inr (Received None, p)"
proof -
  define p where "p = (fresh_pipe 16 4)\<lparr>receiver_pace := 20, sender_pace_from := 20, sender_pace_to := 20\<rparr>"
  have "run_ops pipe_step (fresh_pipe 16 4) [Send [1, 2, 3, 4] [5, 6, 7, 8], Receive, Consume]
      = Inr ([Sent True, Received (Some ([1, 2, 3, 4], [5, 6, 7, 8])), Consumed], p)"
    unfolding p_def by code_simp
  moreover have "pipe_step p (Send [1, 2, 3, 4] [5, 6, 7, 8]) = Inr (Sent False, p)"
    "pipe_step p Receive = Inr (Received None, p)" unfolding p_def by code_simp+
  ultimately show ?thesis by blast
qed

section \<open>Two senders\<close>

text \<open>
  one sender reserves the last 12 bytes of a pipe of 24, a second one goes back to the front,
  then the first one writes its message and publishes it: \<open>JustSendMsg_\<close> looks for a next message
  at the end of the pipe and reads behind its memory.
\<close>

theorem publish_reads_past_end:
  "\<exists>p p1 p2 p3. run_ops pipe_step (fresh_pipe 24 4) [Send [1, 2, 3, 4] [5, 6, 7, 8], Receive, Consume]
      = Inr ([Sent True, Received (Some ([1, 2, 3, 4], [5, 6, 7, 8])), Consumed], p)
    \<and> ReserveSpaceForSend p 4 = (Some (20, None), p1)
    \<and> ReserveSpaceForSend p1 0 = (Some (8, Some 32), p2)
    \<and> write_msg p2 20 [1, 2, 3, 4] [5, 6, 7, 8] = Inr p3
    \<and> JustSendMsg p3 20 None = Inl Out_Of_Bounds"
proof -
  define p where "p = (fresh_pipe 24 4)\<lparr>receiver_pace := 20, sender_pace_from := 20, sender_pace_to := 20\<rparr>"
  define p1 where "p1 = p\<lparr>sender_pace_to := 32\<rparr>"
  define p2 where "p2 = p\<lparr>sender_pace_to := EncodeSenderPace 16 1\<rparr>"
  define p3 where "p3 = p2\<lparr>pipe_bytes := replicate 12 255 @ [1, 2, 3, 4, 4, 0, 0, 0, 5, 6, 7, 8]\<rparr>"
  have "run_ops pipe_step (fresh_pipe 24 4) [Send [1, 2, 3, 4] [5, 6, 7, 8], Receive, Consume]
      = Inr ([Sent True, Received (Some ([1, 2, 3, 4], [5, 6, 7, 8])), Consumed], p)"
    unfolding p_def by code_simp
  moreover have "ReserveSpaceForSend p 4 = (Some (20, None), p1)" unfolding p1_def p_def by code_simp
  moreover have "ReserveSpaceForSend p1 0 = (Some (8, Some 32), p2)"
    unfolding p2_def p1_def p_def by code_simp
  moreover have "write_msg p2 20 [1, 2, 3, 4] [5, 6, 7, 8] = Inr p3" unfolding p3_def p2_def p_def by code_simp
  moreover have "JustSendMsg p3 20 None = Inl Out_Of_Bounds" unfolding p3_def p2_def p_def by code_simp
  ultimately show ?thesis by blast
qed

section \<open>The receiver gives back space and a sender takes it\<close>

lemma consume_blank_faults:
  assumes "load_size p (receiver_pace p) = Inr (- 1)" and "pipe_start p \<le> receiver_pace p"
    and "size_pipe p < 2 ^ 32 - 1"
  shows "MsgConsumed p = Inl Out_Of_Bounds"
proof -
  have "unat (GetMsgSize p (- 1)) = 2 ^ 32 - 1"
    by (simp add: GetMsgSize_def unsigned_minus_1_eq_mask mask_eq_exp_minus_1)
  with assms show ?thesis
    by (simp add: MsgConsumed_def pass_msg_def SetBlank_def store_bytes_def end_of_pipe_def)
qed

text \<open>
  the receiver has moved its pace over a message it consumes and has not cleared it yet; a
  sender goes back to the front, puts its message into that space and is told that it is sent;
  then the receiver clears the space. After the last message before the end the receiver is
  given the cleared space as a message, and consuming that writes outside the pipe.
\<close>

theorem consumed_space_taken:
  "\<exists>p p1 p2 p3 p4 p5. run_ops pipe_step (fresh_pipe 32 12) [Send [1, 2, 3, 4] (replicate 12 5), Send [1, 2, 3, 4] [], Receive]
      = Inr ([Sent True, Sent True, Received (Some ([1, 2, 3, 4], replicate 12 5))], p)
    \<and> pass_msg p = Inr p1
    \<and> SendMsg p1 [9, 9, 9, 9] [6] = Inr (True, False, p2)
    \<and> SetBlank p2 (receiver_pace p) (receiver_pace p1) = Inr p3
    \<and> pipe_step p3 Receive = Inr (Received (Some ([1, 2, 3, 4], [])), p3)
    \<and> MsgConsumed p3 = Inr p4
    \<and> ReceiveMsg1 p4 = Inr (Some 8, p5)
    \<and> load_size p5 8 = Inr (- 1)
    \<and> MsgConsumed p5 = Inl Out_Of_Bounds"
proof -
  define p where "p = (fresh_pipe 32 12)\<lparr>sender_pace_from := 36, sender_pace_to := 36,
    pipe_bytes := [1, 2, 3, 4, 12, 0, 0, 128] @ replicate 12 5 @ [1, 2, 3, 4, 0, 0, 0, 128] @ replicate 4 255\<rparr>"
  define p1 where "p1 = p\<lparr>receiver_pace := 28\<rparr>"
  define p2 where "p2 = p1\<lparr>sender_pace_from := EncodeSenderPace 17 1, sender_pace_to := EncodeSenderPace 17 1,
    pipe_bytes := [9, 9, 9, 9, 1, 0, 0, 128, 6] @ replicate 11 5 @ [1, 2, 3, 4, 0, 0, 0, 128] @ replicate 4 255\<rparr>"
  define p3 where "p3 = p2\<lparr>pipe_bytes := replicate 20 255 @ [1, 2, 3, 4, 0, 0, 0, 128] @ replicate 4 255\<rparr>"
  define p4 where "p4 = p3\<lparr>receiver_pace := 36, pipe_bytes := replicate 32 255\<rparr>"
  define p5 where "p5 = p4\<lparr>receiver_pace := 8\<rparr>"
  note defs = p_def p1_def p2_def p3_def p4_def p5_def
  have "run_ops pipe_step (fresh_pipe 32 12) [Send [1, 2, 3, 4] (replicate 12 5), Send [1, 2, 3, 4] [], Receive]
      = Inr ([Sent True, Sent True, Received (Some ([1, 2, 3, 4], replicate 12 5))], p)"
    unfolding defs by code_simp
  moreover have "pass_msg p = Inr p1" unfolding defs by code_simp
  moreover have "SendMsg p1 [9, 9, 9, 9] [6] = Inr (True, False, p2)" unfolding defs by code_simp
  moreover have "SetBlank p2 (receiver_pace p) (receiver_pace p1) = Inr p3" unfolding defs by code_simp
  moreover have "pipe_step p3 Receive = Inr (Received (Some ([1, 2, 3, 4], [])), p3)" unfolding defs by code_simp
  moreover have "MsgConsumed p3 = Inr p4" unfolding defs by code_simp
  moreover have "ReceiveMsg1 p4 = Inr (Some 8, p5)" unfolding defs by code_simp
  moreover have load: "load_size p5 8 = Inr (- 1)" unfolding defs by code_simp
  moreover have "MsgConsumed p5 = Inl Out_Of_Bounds"
    using load by (intro consume_blank_faults) (simp_all add: defs fresh_pipe_def)
  ultimately show ?thesis by blast
qed

end
