(* ===== verification/Default_Notifier.thy ===== *)
theory Default_Notifier
  imports Prelude
begin

text \<open>
  \<open>DefaultNotifier\<close> of \<^verbatim>\<open>src/mpsc_fixed_pipe/\<close>, through which senders wake the receiver of a pipe,
  with \<open>SpinLock\<close> of \<^verbatim>\<open>src/lock_policy.hpp\<close>: what it promises, and where it hangs.

  Every thread has a pipe of its own to write into; pipe \<open>i\<close> has the descriptors \<open>2 * i\<close> to read
  from and \<open>2 * i + 1\<close> to write to. The answers of the system are arguments. A lock that is taken
  and never given back makes the next \<open>Lock\<close> run for ever.
\<close>

section \<open>SpinLock\<close>

record spin_lock =
  spin_ready :: bool
  spin_held :: bool

definition new_spin :: spin_lock where
  "new_spin = \<lparr>spin_ready = False, spin_held = False\<rparr>"

definition spin_Init :: "bool \<Rightarrow> spin_lock \<Rightarrow> bool \<times> spin_lock" where
  "spin_Init init_ok l = (if init_ok then (True, l\<lparr>spin_ready := True\<rparr>) else (False, l))"

definition spin_raii :: "bool \<Rightarrow> spin_lock \<Rightarrow> bool \<times> spin_lock" where
  "spin_raii init_ok l = (if spin_ready l then (True, l) else spin_Init init_ok l)"

definition spin_Lock :: "bool \<Rightarrow> bool \<Rightarrow> spin_lock \<Rightarrow> (bool \<times> spin_lock) result" where
  "spin_Lock init_ok lock_ok l =
     (case spin_raii init_ok l of
        (False, l1) \<Rightarrow> Inr (False, l1)
      | (True, l1) \<Rightarrow> if spin_held l1 then Inl Diverges
          else if lock_ok then Inr (True, l1\<lparr>spin_held := True\<rparr>) else Inr (False, l1))"

definition spin_Unlock :: "bool \<Rightarrow> spin_lock \<Rightarrow> spin_lock" where
  "spin_Unlock init_ok l =
     (case spin_raii init_ok l of (False, l1) \<Rightarrow> l1 | (True, l1) \<Rightarrow> l1\<lparr>spin_held := False\<rparr>)"

text \<open>Whether the destructor calls \<open>pthread_spin_destroy\<close>.\<close>

definition spin_destroyed :: "spin_lock \<Rightarrow> bool" where
  "spin_destroyed l = spin_ready l"

section \<open>DefaultNotifier\<close>

record notifier =
  pthread_key :: nat
  fd_epoll :: int
  epoll_events :: bool
  lock_fd_epoll :: spin_lock
  thread_fds :: "nat \<rightharpoonup> nat"
  pipe_bytes :: "nat list"
  watched :: "nat list"

definition new_notifier :: notifier where
  "new_notifier = \<lparr>pthread_key = 0, fd_epoll = 0, epoll_events = False, lock_fd_epoll = new_spin,
     thread_fds = Map.empty, pipe_bytes = [], watched = []\<rparr>"

text \<open>\<open>Init\<close> with the key that \<open>pthread_key_create\<close> gives, if it gives one, and what \<open>epoll_create\<close> returns.\<close>

definition notifier_Init :: "nat option \<Rightarrow> int \<Rightarrow> notifier \<Rightarrow> bool \<times> notifier" where
  "notifier_Init key fd n =
     (case key of
        None \<Rightarrow> (False, n)
      | Some k \<Rightarrow>
          let n1 = n\<lparr>pthread_key := k, fd_epoll := fd\<rparr> in
          if fd \<le> 0 then (False, n1) else (True, n1\<lparr>epoll_events := True\<rparr>))"

record notify_answers =
  pipe_ok :: bool
  nonblock_ok :: bool
  spin_init_ok :: bool
  spin_lock_ok :: bool
  ctl_add_ok :: bool
  set_fd_ok :: bool
  write_ok :: bool

definition write_byte :: "bool \<Rightarrow> nat \<Rightarrow> notifier \<Rightarrow> int \<times> notifier" where
  "write_byte ok fd n =
     (if ok then (0, n\<lparr>pipe_bytes := (pipe_bytes n)[fd div 2 := pipe_bytes n ! (fd div 2) + 1]\<rparr>) else (- 5, n))"

definition Notify :: "notify_answers \<Rightarrow> nat \<Rightarrow> notifier \<Rightarrow> (int \<times> notifier) result" where
  "Notify os t n =
     (case thread_fds n t of
        Some fd \<Rightarrow> Inr (write_byte (write_ok os) fd n)
      | None \<Rightarrow>
          if \<not> pipe_ok os then Inr (- 1, n)
          else
            let i = length (pipe_bytes n); n1 = n\<lparr>pipe_bytes := pipe_bytes n @ [0]\<rparr> in
            if \<not> nonblock_ok os then Inr (- 1, n1)
            else
              (case spin_Lock (spin_init_ok os) (spin_lock_ok os) (lock_fd_epoll n1) of
                 Inl e \<Rightarrow> Inl e
               | Inr (False, l) \<Rightarrow> Inr (- 2, n1\<lparr>lock_fd_epoll := l\<rparr>)
               | Inr (True, l) \<Rightarrow>
                   if \<not> ctl_add_ok os then Inr (- 3, n1\<lparr>lock_fd_epoll := l\<rparr>)
                   else
                     let n2 = n1\<lparr>watched := watched n1 @ [2 * i], lock_fd_epoll := spin_Unlock (spin_init_ok os) l\<rparr>;
                         send_fd = 2 * i + 1
                     in
                     if \<not> set_fd_ok os then Inr (- 4, n2\<lparr>watched := remove1 send_fd (watched n2)\<rparr>)
                     else Inr (write_byte (write_ok os) send_fd (n2\<lparr>thread_fds := (thread_fds n2)(t \<mapsto> send_fd)\<rparr>))))"

text \<open>Reading a descriptor until nothing is left.\<close>

definition drain :: "nat list \<Rightarrow> nat \<Rightarrow> nat list" where
  "drain bytes fd = bytes[fd div 2 := 0]"

text \<open>\<open>Wait\<close> with the descriptors that \<open>epoll_wait\<close> reports, \<open>None\<close> for an error.\<close>

definition Wait :: "bool \<Rightarrow> bool \<Rightarrow> nat list option \<Rightarrow> notifier \<Rightarrow> (int \<times> notifier) result" where
  "Wait init_ok lock_ok ready n =
     (case spin_Lock init_ok lock_ok (lock_fd_epoll n) of
        Inl e \<Rightarrow> Inl e
      | Inr (False, l) \<Rightarrow> Inr (- 1, n\<lparr>lock_fd_epoll := l\<rparr>)
      | Inr (True, l) \<Rightarrow>
          let ret = (case ready of None \<Rightarrow> - 1 | Some fds \<Rightarrow> int (length fds));
              n1 = (case ready of None \<Rightarrow> n | Some fds \<Rightarrow> n\<lparr>pipe_bytes := fold (\<lambda>fd bytes. drain bytes fd) fds (pipe_bytes n)\<rparr>)
          in Inr (ret, n1\<lparr>lock_fd_epoll := spin_Unlock init_ok l\<rparr>))"

text \<open>The descriptor and the key that the destructor gives back.\<close>

definition notifier_destroyed :: "notifier \<Rightarrow> int option \<times> nat option" where
  "notifier_destroyed n =
     (if 0 \<noteq> fd_epoll n then Some (fd_epoll n) else None, if 0 \<noteq> pthread_key n then Some (pthread_key n) else None)"

section \<open>No signal is lost\<close>

datatype notify_op = N_Notify nat notify_answers | N_Wait bool bool "nat list option"

fun notify_step :: "notifier \<Rightarrow> notify_op \<Rightarrow> (int \<times> notifier) result" where
  "notify_step n (N_Notify t os) = Notify os t n"
| "notify_step n (N_Wait i l ready) = Wait i l ready n"

text \<open>What \<open>epoll_wait\<close> may report: watched descriptors with bytes to read, none only when there are none.\<close>

definition has_bytes :: "notifier \<Rightarrow> nat \<Rightarrow> bool" where
  "has_bytes n fd \<longleftrightarrow> fd \<in> set (watched n) \<and> pipe_bytes n ! (fd div 2) \<noteq> 0"

fun notify_pre :: "notifier \<Rightarrow> notify_op \<Rightarrow> bool" where
  "notify_pre n (N_Notify t os) = (ctl_add_ok os \<and> set_fd_ok os)"
| "notify_pre n (N_Wait i l ready) =
     (case ready of None \<Rightarrow> True
      | Some fds \<Rightarrow> distinct fds \<and> (\<forall>fd \<in> set fds. has_bytes n fd) \<and> (fds = [] \<longrightarrow> (\<forall>fd \<in> set (watched n). \<not> has_bytes n fd)))"

text \<open>The specification, on the threads whose signals have not been taken.\<close>

fun signals :: "nat set \<Rightarrow> notify_op \<Rightarrow> int \<Rightarrow> nat set \<Rightarrow> bool" where
  "signals P (N_Notify t os) r P' = (if r = 0 then P' = insert t P else r < 0 \<and> P' = P)"
| "signals P (N_Wait i l ready) r P' =
     (if r < 0 then P' = P else (\<exists>R \<subseteq> P. finite R \<and> r = int (card R) \<and> P' = P - R \<and> (R = {} \<longrightarrow> P = {})))"

definition notifier_inv :: "notifier \<Rightarrow> bool" where
  "notifier_inv n \<longleftrightarrow> \<not> spin_held (lock_fd_epoll n) \<and> distinct (watched n)
     \<and> (\<forall>t fd. thread_fds n t = Some fd \<longrightarrow> odd fd \<and> fd div 2 < length (pipe_bytes n) \<and> fd - 1 \<in> set (watched n))
     \<and> (\<forall>t t' fd. thread_fds n t = Some fd \<longrightarrow> thread_fds n t' = Some fd \<longrightarrow> t = t')
     \<and> (\<forall>fd \<in> set (watched n). even fd \<and> (\<exists>t. thread_fds n t = Some (fd + 1)))"

definition pending :: "notifier \<Rightarrow> nat set" where
  "pending n = {t. \<exists>fd. thread_fds n t = Some fd \<and> pipe_bytes n ! (fd div 2) \<noteq> 0}"

lemma invI:
  assumes "\<not> spin_held (lock_fd_epoll n)" "distinct (watched n)"
    and "\<And>t fd. thread_fds n t = Some fd \<Longrightarrow> odd fd \<and> fd div 2 < length (pipe_bytes n) \<and> fd - 1 \<in> set (watched n)"
    and "\<And>t t' fd. thread_fds n t = Some fd \<Longrightarrow> thread_fds n t' = Some fd \<Longrightarrow> t = t'"
    and "\<And>fd. fd \<in> set (watched n) \<Longrightarrow> even fd \<and> (\<exists>t. thread_fds n t = Some (fd + 1))"
  shows "notifier_inv n"
  using assms unfolding notifier_inv_def by blast

lemma invD:
  assumes "notifier_inv n"
  shows "\<not> spin_held (lock_fd_epoll n)" "distinct (watched n)"
    and "thread_fds n t = Some fd \<Longrightarrow> odd fd \<and> fd div 2 < length (pipe_bytes n) \<and> fd - 1 \<in> set (watched n)"
    and "thread_fds n t = Some fd \<Longrightarrow> thread_fds n t' = Some fd \<Longrightarrow> t = t'"
    and "fd \<in> set (watched n) \<Longrightarrow> even fd \<and> (\<exists>t. thread_fds n t = Some (fd + 1))"
  using assms unfolding notifier_inv_def by blast+

lemma same_half: "odd (a :: nat) \<Longrightarrow> odd b \<Longrightarrow> a div 2 = b div 2 \<Longrightarrow> a = b"
  by presburger

lemma free_Lock: "\<not> spin_held l \<Longrightarrow> \<exists>b l1. spin_Lock i k l = Inr (b, l1) \<and> spin_held l1 = b \<and> (b \<longrightarrow> spin_ready l1)"
  by (auto simp: spin_Lock_def spin_raii_def spin_Init_def)

lemma granted_Lock:
  assumes "\<not> spin_held l"
  obtains l1 where "spin_Lock True True l = Inr (True, l1)" "spin_ready l1" "spin_held l1"
  by (rule that [of "l\<lparr>spin_ready := True, spin_held := True\<rparr>"])
    (use assms in \<open>auto simp: spin_Lock_def spin_raii_def spin_Init_def\<close>)

lemma held_Lock: "spin_ready l \<Longrightarrow> spin_held l \<Longrightarrow> spin_Lock i k l = Inl Diverges"
  by (simp add: spin_Lock_def spin_raii_def)

lemma ready_Unlock: "spin_ready l \<Longrightarrow> \<not> spin_held (spin_Unlock i l)"
  by (simp add: spin_Unlock_def spin_raii_def)

text \<open>A byte written by a thread that has its descriptor.\<close>

lemma write_ok_step:
  assumes inv: "notifier_inv n" and t: "thread_fds n t = Some fd"
  obtains r n' where "write_byte ok fd n = (r, n')" "notifier_inv n'" "if r = 0 then pending n' = insert t (pending n) else r < 0 \<and> pending n' = pending n"
proof (cases ok)
  case False
  with inv show ?thesis by (intro that [of "- 5" n]) (simp_all add: write_byte_def)
next
  case True
  let ?n = "n\<lparr>pipe_bytes := (pipe_bytes n)[fd div 2 := pipe_bytes n ! (fd div 2) + 1]\<rparr>"
  note fd = invD(3) [OF inv t]
  have "notifier_inv ?n" by (rule invI) (use invD [OF inv] in auto)
  moreover have "pending ?n = insert t (pending n)"
  proof (rule set_eqI)
    fix t'
    show "t' \<in> pending ?n \<longleftrightarrow> t' \<in> insert t (pending n)"
    proof (cases "thread_fds n t'")
      case (Some fd')
      have "fd' div 2 = fd div 2 \<longleftrightarrow> t' = t"
        using same_half [of fd' fd] invD(3) [OF inv Some] fd invD(4) [OF inv Some, of t] t Some by auto
      then show ?thesis using fd Some by (auto simp: pending_def nth_list_update)
    qed (use t in \<open>auto simp: pending_def\<close>)
  qed
  ultimately show ?thesis using True by (intro that [of 0 ?n]) (simp_all add: write_byte_def)
qed

text \<open>A pipe that nobody uses.\<close>

lemma unused_pipe:
  assumes inv: "notifier_inv n" and l: "\<not> spin_held l"
  shows "notifier_inv (n\<lparr>pipe_bytes := pipe_bytes n @ [0], lock_fd_epoll := l\<rparr>)" "pending (n\<lparr>pipe_bytes := pipe_bytes n @ [0], lock_fd_epoll := l\<rparr>) = pending n"
proof -
  show "notifier_inv (n\<lparr>pipe_bytes := pipe_bytes n @ [0], lock_fd_epoll := l\<rparr>)"
    by (rule invI) (use invD [OF inv] l in \<open>auto simp: less_Suc_eq\<close>)
  have "(pipe_bytes n @ [0]) ! (fd div 2) = pipe_bytes n ! (fd div 2)" if "thread_fds n t = Some fd" for t fd
    using invD(3) [OF inv that] by (simp add: nth_append)
  then show "pending (n\<lparr>pipe_bytes := pipe_bytes n @ [0], lock_fd_epoll := l\<rparr>) = pending n"
    by (auto simp: pending_def)
qed

lemma new_thread_inv:
  assumes inv: "notifier_inv n" and none: "thread_fds n t = None" and l: "\<not> spin_held l"
  defines "i \<equiv> length (pipe_bytes n)"
  defines "n2 \<equiv> n\<lparr>pipe_bytes := pipe_bytes n @ [0], watched := watched n @ [2 * i], lock_fd_epoll := l,
    thread_fds := (thread_fds n)(t \<mapsto> 2 * i + 1)\<rparr>"
  shows "notifier_inv n2" "pending n2 = pending n"
proof -
  have old: "fd div 2 < i" if "thread_fds n t' = Some fd" for t' fd using invD(3) [OF inv that] by (simp add: i_def)
  have w: "fd div 2 < i" "even fd" "\<exists>t'. t' \<noteq> t \<and> thread_fds n t' = Some (fd + 1)" if fd: "fd \<in> set (watched n)" for fd
  proof -
    obtain t' where t': "thread_fds n t' = Some (fd + 1)" "even fd" using invD(5) [OF inv fd] by blast
    then show "fd div 2 < i" "even fd" "\<exists>t'. t' \<noteq> t \<and> thread_fds n t' = Some (fd + 1)" using old [OF t'(1)] none by (auto intro!: exI [of _ t'])
  qed
  show "notifier_inv n2"
  proof (rule invI)
    show "distinct (watched n2)" using invD(2) [OF inv] w(1) by (fastforce simp: n2_def)
    show "odd fd \<and> fd div 2 < length (pipe_bytes n2) \<and> fd - 1 \<in> set (watched n2)" if "thread_fds n2 t' = Some fd" for t' fd
      using that invD(3) [OF inv, of t' fd] by (auto simp: n2_def i_def split: if_splits)
    show "t1 = t2" if "thread_fds n2 t1 = Some fd" "thread_fds n2 t2 = Some fd" for t1 t2 fd
      using that invD(4) [OF inv, of t1 fd t2] old by (fastforce simp: n2_def split: if_splits)
    show "even fd \<and> (\<exists>t'. thread_fds n2 t' = Some (fd + 1))" if "fd \<in> set (watched n2)" for fd
      using that w(2,3) by (auto simp: n2_def)
  qed (simp add: n2_def l)
  have old_byte: "(pipe_bytes n @ [0]) ! (fd div 2) = pipe_bytes n ! (fd div 2)" if "thread_fds n t' = Some fd" for t' fd
    using old [OF that] by (simp add: nth_append i_def)
  show "pending n2 = pending n"
  proof (rule set_eqI)
    fix t'
    show "t' \<in> pending n2 \<longleftrightarrow> t' \<in> pending n"
    proof (cases "thread_fds n t'")
      case None
      then show ?thesis by (cases "t' = t") (auto simp: pending_def n2_def i_def)
    next
      case (Some fd)
      with none have "t' \<noteq> t" by auto
      with Some show ?thesis using old_byte [OF Some] by (simp add: pending_def n2_def)
    qed
  qed
qed

lemma Notify_ok:
  assumes inv: "notifier_inv n" and os: "ctl_add_ok os" "set_fd_ok os"
  shows "\<exists>r n'. Notify os t n = Inr (r, n') \<and> notifier_inv n' \<and> signals (pending n) (N_Notify t os) r (pending n')"
proof (cases "thread_fds n t")
  case (Some fd)
  obtain r n' where "write_byte (write_ok os) fd n = (r, n')" "notifier_inv n'" "if r = 0 then pending n' = insert t (pending n) else r < 0 \<and> pending n' = pending n"
    by (rule write_ok_step [OF inv Some])
  with Some show ?thesis by (simp add: Notify_def)
next
  case None
  let ?n1 = "n\<lparr>pipe_bytes := pipe_bytes n @ [0]\<rparr>" and ?i = "length (pipe_bytes n)"
  obtain b l1 where l: "spin_Lock (spin_init_ok os) (spin_lock_ok os) (lock_fd_epoll n) = Inr (b, l1)" "spin_held l1 = b" "b \<longrightarrow> spin_ready l1"
    using free_Lock [OF invD(1) [OF inv]] by blast
  have u: "notifier_inv ?n1" "pending ?n1 = pending n"
    using unused_pipe [OF inv invD(1) [OF inv]] by simp_all
  show ?thesis
  proof (cases "pipe_ok os \<and> nonblock_ok os")
    case False
    then show ?thesis using None inv u by (auto simp: Notify_def Let_def)
  next
    case True
    show ?thesis
    proof (cases b)
      case False
      then show ?thesis using None True l unused_pipe [OF inv, of l1] by (auto simp: Notify_def)
    next
      case b: True
      let ?l = "spin_Unlock (spin_init_ok os) l1"
      let ?n2 = "n\<lparr>pipe_bytes := pipe_bytes n @ [0], watched := watched n @ [2 * ?i], lock_fd_epoll := ?l,
        thread_fds := (thread_fds n)(t \<mapsto> 2 * ?i + 1)\<rparr>"
      have "\<not> spin_held ?l" using ready_Unlock l(3) b by simp
      note nt = new_thread_inv [OF inv None this]
      obtain r n' where w: "write_byte (write_ok os) (2 * ?i + 1) ?n2 = (r, n')" "notifier_inv n'"
        "if r = 0 then pending n' = insert t (pending ?n2) else r < 0 \<and> pending n' = pending ?n2"
        by (rule write_ok_step [OF nt(1), of t "2 * ?i + 1" "write_ok os"]) simp_all
      have "Notify os t n = Inr (r, n')" using None True l b os w(1) by (simp add: Notify_def Let_def)
      with w nt(2) show ?thesis by simp
    qed
  qed
qed

lemma fold_drain:
  "length (fold (\<lambda>fd bytes. drain bytes fd) fds bs) = length bs
   \<and> (j < length bs \<longrightarrow> fold (\<lambda>fd bytes. drain bytes fd) fds bs ! j = (if \<exists>fd \<in> set fds. fd div 2 = j then 0 else bs ! j))"
  by (induction fds arbitrary: bs) (auto simp: drain_def nth_list_update)

lemma Wait_ok:
  assumes inv: "notifier_inv n" and pre: "notify_pre n (N_Wait i k ready)"
  shows "\<exists>r n'. Wait i k ready n = Inr (r, n') \<and> notifier_inv n' \<and> signals (pending n) (N_Wait i k ready) r (pending n')"
proof -
  obtain b l1 where l: "spin_Lock i k (lock_fd_epoll n) = Inr (b, l1)" "spin_held l1 = b" "b \<longrightarrow> spin_ready l1"
    using free_Lock [OF invD(1) [OF inv]] by blast
  have lock: "notifier_inv (n\<lparr>lock_fd_epoll := l'\<rparr>)" "pending (n\<lparr>lock_fd_epoll := l'\<rparr>) = pending n" if "\<not> spin_held l'" for l'
    using inv that by (auto simp: notifier_inv_def pending_def)
  have free: "b \<Longrightarrow> \<not> spin_held (spin_Unlock i l1)" using ready_Unlock l(3) by blast
  show ?thesis
  proof (cases "b \<and> ready \<noteq> None")
    case False
    then show ?thesis using l lock [of l1] lock [of "spin_Unlock i l1"] free by (cases b) (auto simp: Wait_def)
  next
    case True
    then obtain fds where fds: "ready = Some fds" by blast
    have d: "distinct fds" "\<And>fd. fd \<in> set fds \<Longrightarrow> has_bytes n fd" "fds = [] \<Longrightarrow> \<forall>fd \<in> set (watched n). \<not> has_bytes n fd"
      using pre fds by simp_all
    let ?bs = "fold (\<lambda>fd bytes. drain bytes fd) fds (pipe_bytes n)"
    let ?n' = "n\<lparr>pipe_bytes := ?bs, lock_fd_epoll := spin_Unlock i l1\<rparr>"
    have run: "Wait i k ready n = Inr (int (length fds), ?n')" using l(1) True fds by (simp add: Wait_def)
    have inv': "notifier_inv ?n'" by (rule invI) (use invD [OF inv] free True fold_drain in auto)
    define R where "R = {t. \<exists>fd \<in> set fds. thread_fds n t = Some (fd + 1)}"
    have img: "(\<lambda>t. the (thread_fds n t) - 1) ` R = set fds"
    proof
      show "set fds \<subseteq> (\<lambda>t. the (thread_fds n t) - 1) ` R"
      proof
        fix fd assume fd: "fd \<in> set fds"
        then obtain t where "thread_fds n t = Some (fd + 1)" using d(2) [OF fd] invD(5) [OF inv, of fd] by (auto simp: has_bytes_def)
        with fd show "fd \<in> (\<lambda>t. the (thread_fds n t) - 1) ` R" by (intro image_eqI [of _ _ t]) (auto simp: R_def)
      qed
    qed (auto simp: R_def)
    have inj: "inj_on (\<lambda>t. the (thread_fds n t) - 1) R"
    proof (rule inj_onI)
      fix t1 t2 assume t: "t1 \<in> R" "t2 \<in> R" "the (thread_fds n t1) - 1 = the (thread_fds n t2) - 1"
      then obtain a b where "thread_fds n t1 = Some (a + 1)" "thread_fds n t2 = Some (b + 1)" "a = b" by (auto simp: R_def)
      then show "t1 = t2" using invD(4) [OF inv, of t1 "a + 1" t2] by simp
    qed
    have fin: "finite R" using img inj by (metis List.finite_set finite_imageD)
    have card: "card R = length fds" using card_image [OF inj] img d(1) by (simp add: distinct_card)
    have half: "(\<exists>fd' \<in> set fds. fd' div 2 = fd div 2) \<longleftrightarrow> t \<in> R" if t: "thread_fds n t = Some fd" for t fd
    proof
      assume "t \<in> R"
      then obtain fd' where "fd' \<in> set fds" "fd = fd' + 1" using t by (auto simp: R_def)
      moreover have "even fd'" using d(2) invD(5) [OF inv] calculation(1) by (auto simp: has_bytes_def)
      ultimately show "\<exists>fd' \<in> set fds. fd' div 2 = fd div 2" by (intro bexI [of _ fd']) auto
    next
      assume "\<exists>fd' \<in> set fds. fd' div 2 = fd div 2"
      then obtain fd' where fd': "fd' \<in> set fds" "fd' div 2 = fd div 2" by blast
      have "even fd'" using d(2) [OF fd'(1)] invD(5) [OF inv] by (auto simp: has_bytes_def)
      moreover have "odd fd" using invD(3) [OF inv t] by blast
      ultimately have "fd = fd' + 1" using fd'(2) by presburger
      with fd' t show "t \<in> R" by (auto simp: R_def)
    qed
    have pend: "pending ?n' = pending n - R"
    proof (rule set_eqI)
      fix t
      show "t \<in> pending ?n' \<longleftrightarrow> t \<in> pending n - R"
      proof (cases "thread_fds n t")
        case (Some fd)
        then show ?thesis using fold_drain [of fds "pipe_bytes n" "fd div 2"] invD(3) [OF inv Some] half [OF Some]
          by (auto simp: pending_def)
      qed (simp add: pending_def)
    qed
    have sub: "R \<subseteq> pending n"
    proof
      fix t assume "t \<in> R"
      then obtain fd where fd: "fd \<in> set fds" "thread_fds n t = Some (fd + 1)" by (auto simp: R_def)
      have "even fd" using d(2) [OF fd(1)] invD(5) [OF inv] by (auto simp: has_bytes_def)
      with d(2) [OF fd(1)] fd(2) show "t \<in> pending n" by (auto simp: pending_def has_bytes_def)
    qed
    have none: "pending n = {}" if "R = {}"
    proof -
      have "fds = []" using card that fin by simp
      then have no: "\<forall>fd \<in> set (watched n). \<not> has_bytes n fd" by (rule d(3))
      have False if "thread_fds n t = Some fd" "pipe_bytes n ! (fd div 2) \<noteq> 0" for t fd
      proof -
        have "odd fd" "fd - 1 \<in> set (watched n)" using invD(3) [OF inv that(1)] by blast+
        moreover from this(1) have "(fd - 1) div 2 = fd div 2" by (elim oddE) simp
        ultimately have "fd - 1 \<in> set (watched n)" "(fd - 1) div 2 = fd div 2" by blast+
        moreover from this(1) have "\<not> has_bytes n (fd - 1)" by (rule bspec [OF no])
        ultimately show False using that(2) by (simp add: has_bytes_def)
      qed
      then show ?thesis by (auto simp: pending_def)
    qed
    show ?thesis
      using run inv' pend sub fin card none fds by (intro exI [of _ "int (length fds)"] exI [of _ ?n']) auto
  qed
qed

interpretation signalling: simulation notify_step signals notify_pre notifier_inv pending
proof
  fix n op
  assume "notifier_inv n" "notify_pre n op"
  then show "\<exists>r n'. notify_step n op = Inr (r, n') \<and> notifier_inv n' \<and> signals (pending n) op r (pending n')"
    using Notify_ok Wait_ok by (cases op) fastforce+
qed

lemma notifier_Init_inv: "notifier_Init key fd new_notifier = (b, n) \<Longrightarrow> notifier_inv n \<and> pending n = {}"
  by (auto simp: notifier_Init_def new_notifier_def new_spin_def notifier_inv_def pending_def Let_def split: option.splits if_splits)

text \<open>
  C14: As long as the epoll set can be changed and the thread's value set, every sequence of
  \<open>Notify\<close> and \<open>Wait\<close> returns, and no signal is lost: \<open>Wait\<close> gives the number of threads whose
  signals it takes, and 0 only when there is none.
\<close>

theorem notifier_loses_no_signal:
  assumes "notifier_Init (Some key) fd new_notifier = (True, n)" and "legal_ops notify_step notify_pre n ops"
  shows "\<exists>rs n'. run_ops notify_step n ops = Inr (rs, n') \<and> spec_run signals {} ops rs (pending n')"
  using signalling.run_refines [of n ops] notifier_Init_inv [OF assms(1)] assms(2) by auto

definition yes :: notify_answers where
  "yes = \<lparr>pipe_ok = True, nonblock_ok = True, spin_init_ok = True, spin_lock_ok = True, ctl_add_ok = True, set_fd_ok = True, write_ok = True\<rparr>"

definition started :: notifier where
  "started = snd (notifier_Init (Some 1) 3 new_notifier)"

lemmas notify_run = started_def new_notifier_def new_spin_def notifier_Init_def Notify_def Wait_def spin_Lock_def spin_raii_def spin_Init_def
  spin_Unlock_def write_byte_def drain_def has_bytes_def yes_def

lemma notifier_loses_no_signal_witness:
  "\<exists>rs n'. run_ops notify_step started [N_Notify 1 yes, N_Notify 2 yes, N_Wait True True (Some [2]), N_Wait True True (Some [0]), N_Wait True True (Some [])]
      = Inr (rs, n')
    \<and> spec_run signals {} [N_Notify 1 yes, N_Notify 2 yes, N_Wait True True (Some [2]), N_Wait True True (Some [0]), N_Wait True True (Some [])] rs (pending n')"
  by (rule notifier_loses_no_signal [of 1 3]) (simp_all add: notify_run)

section \<open>Where it hangs\<close>

text \<open>
  When the read end of a thread's new pipe cannot be added to the epoll set, \<open>Notify\<close> returns
  -3 with the lock taken: every later \<open>Wait\<close>, and the first \<open>Notify\<close> of every other thread, spins
  for ever.
\<close>

theorem failed_add_keeps_lock:
  assumes n: "\<not> spin_held (lock_fd_epoll n)" and t: "thread_fds n t = None" and os: "pipe_ok os" "nonblock_ok os" "spin_init_ok os" "spin_lock_ok os" "\<not> ctl_add_ok os"
  shows "\<exists>n'. Notify os t n = Inr (- 3, n') \<and> (\<forall>i k ready. Wait i k ready n' = Inl Diverges)
    \<and> (\<forall>t' os'. thread_fds n t' = None \<longrightarrow> pipe_ok os' \<longrightarrow> nonblock_ok os' \<longrightarrow> Notify os' t' n' = Inl Diverges)"
proof -
  obtain l where l: "spin_Lock (spin_init_ok os) (spin_lock_ok os) (lock_fd_epoll n) = Inr (True, l)" "spin_ready l" "spin_held l"
    using granted_Lock [OF n] os by auto
  let ?n = "n\<lparr>pipe_bytes := pipe_bytes n @ [0], lock_fd_epoll := l\<rparr>"
  have "Notify os t n = Inr (- 3, ?n)" using t os l(1) by (simp add: Notify_def)
  moreover have "Wait i k ready ?n = Inl Diverges" for i k ready using held_Lock [OF l(2,3)] by (simp add: Wait_def)
  moreover have "Notify os' t' ?n = Inl Diverges" if "thread_fds n t' = None" "pipe_ok os'" "nonblock_ok os'" for t' os'
    using that held_Lock [OF l(2,3)] by (simp add: Notify_def)
  ultimately show ?thesis by blast
qed

lemma failed_add_keeps_lock_witness:
  "\<exists>n'. Notify (yes\<lparr>ctl_add_ok := False\<rparr>) 1 started = Inr (- 3, n') \<and> (\<forall>i k ready. Wait i k ready n' = Inl Diverges)"
  using failed_add_keeps_lock [of started 1 "yes\<lparr>ctl_add_ok := False\<rparr>"] by (auto simp: notify_run)

text \<open>The notifier while \<open>Wait\<close> is in \<open>epoll_wait\<close>.\<close>

definition blocked_in_wait :: "notifier \<Rightarrow> notifier" where
  "blocked_in_wait n = (case spin_Lock True True (lock_fd_epoll n) of Inr (True, l) \<Rightarrow> n\<lparr>lock_fd_epoll := l\<rparr> | _ \<Rightarrow> n)"

text \<open>
  \<open>Wait\<close> holds the lock while it blocks, so the first signal of a thread cannot arrive: in the
  state in which a receiver waits, \<open>Notify\<close> of a thread that has no pipe yet spins. A receiver that
  waits without a limit for the first message of every sender waits for ever.
\<close>

theorem first_signal_spins:
  assumes n: "\<not> spin_held (lock_fd_epoll n)" and t: "thread_fds n t = None" and os: "pipe_ok os" "nonblock_ok os"
  shows "Notify os t (blocked_in_wait n) = Inl Diverges \<and> pending (blocked_in_wait n) = pending n"
proof -
  obtain l where l: "spin_Lock True True (lock_fd_epoll n) = Inr (True, l)" "spin_ready l" "spin_held l"
    using granted_Lock [OF n] .
  then show ?thesis using t os held_Lock [OF l(2,3)] by (simp add: blocked_in_wait_def Notify_def pending_def)
qed

lemma first_signal_spins_witness: "Notify yes 1 (blocked_in_wait started) = Inl Diverges \<and> pending (blocked_in_wait started) = {}"
  using first_signal_spins [of started 1 yes] by (auto simp: notify_run pending_def)

text \<open>After -4 the read end of the pipe stays in the epoll set: the descriptor taken out is the other end.\<close>

lemma failed_set_keeps_watching:
  assumes "\<not> spin_held (lock_fd_epoll n)" "thread_fds n t = None" "pipe_ok os" "nonblock_ok os" "spin_init_ok os" "spin_lock_ok os"
    "ctl_add_ok os" "\<not> set_fd_ok os" "2 * length (pipe_bytes n) + 1 \<notin> set (watched n)"
  shows "\<exists>n'. Notify os t n = Inr (- 4, n') \<and> 2 * length (pipe_bytes n) \<in> set (watched n') \<and> thread_fds n' t = None"
proof -
  obtain l where l: "spin_Lock (spin_init_ok os) (spin_lock_ok os) (lock_fd_epoll n) = Inr (True, l)" "spin_ready l" "spin_held l"
    using granted_Lock [OF assms(1)] assms(5,6) by auto
  then show ?thesis using assms by (simp add: Notify_def Let_def remove1_append)
qed

end
