(* ===== verification/Mpsc_Wakeup.thy ===== *)
theory Mpsc_Wakeup
  imports Mpsc_Spec Default_Notifier
begin

text \<open>
  The pipe of \<^verbatim>\<open>src/mpsc_fixed_pipe/mpsc_fixed_pipe.hpp\<close> together with its notifier: \<open>SendMsg\<close> calls
  \<open>Notify\<close> when the pipe has little in it, and the receiver calls \<open>Wait\<close> when it has found the pipe
  empty. The theorem composes \<open>Mpsc_Spec\<close> and \<open>Default_Notifier\<close>: no message is left behind.
\<close>

section \<open>The threshold stays\<close>

lemma store_threshold: "store_bytes p a bs = Inr p' \<Longrightarrow> threshold_sender_notify p' = threshold_sender_notify p"
  by (auto simp: store_bytes_def Let_def split: if_splits)

lemma CAS_threshold:
  "CASSenderPaceFrom p old new v = (b, p') \<Longrightarrow> threshold_sender_notify p' = threshold_sender_notify p"
  "CASSenderPaceTo p old new v = (b, p') \<Longrightarrow> threshold_sender_notify p' = threshold_sender_notify p"
  by (auto simp: CASSenderPaceFrom_def CASSenderPaceTo_def split: if_splits)

lemma Reserve_threshold: "ReserveSpaceForSend p l = (r, p') \<Longrightarrow> threshold_sender_notify p' = threshold_sender_notify p"
  by (auto simp: ReserveSpaceForSend_def Let_def split: if_splits prod.splits dest: CAS_threshold)

lemma pass_ready_threshold: "pass_ready f p a v = Inr p' \<Longrightarrow> threshold_sender_notify p' = threshold_sender_notify p"
proof (induction f arbitrary: p a)
  case (Suc f)
  from Suc.prems show ?case
    unfolding pass_ready.simps
    by (auto simp: Let_def simp del: pass_ready.simps split: if_splits sum.splits prod.splits dest!: CAS_threshold(1) Suc.IH)
qed simp

lemma JustSend_threshold:
  assumes "JustSendMsg p msg pos = Inr p'"
  shows "threshold_sender_notify p' = threshold_sender_notify p"
proof -
  have move: "threshold_sender_notify p2 = threshold_sender_notify p1" if "move_from p1 old a v = Inr p2" for p1 p2 old a v
    using that unfolding move_from_def
    by (auto simp: Let_def simp del: pass_ready.simps split: if_splits sum.splits prod.splits dest!: CAS_threshold(1) pass_ready_threshold)
  show ?thesis
    using assms by (auto simp: JustSendMsg_def SetReady_def store_size_def EncodeSenderPaceFrom_def Let_def
      split: if_splits sum.splits dest!: move dest: store_threshold)
qed

lemma SendMsg1_threshold:
  assumes "SendMsg1 p h c = Inr (ok, p')"
  shows "threshold_sender_notify p' = threshold_sender_notify p"
  using assms
  by (auto simp: SendMsg1_def write_msg_def store_size_def split: prod.splits option.splits sum.splits if_splits
    dest!: JustSend_threshold store_threshold Reserve_threshold)

lemma SendMsg_threshold:
  assumes "SendMsg p h c = Inr (ok, b, p')"
  shows "threshold_sender_notify p' = threshold_sender_notify p"
  using assms
  by (auto simp: SendMsg_def Let_def split: sum.splits prod.splits bool.splits dest!: SendMsg1_threshold)

section \<open>Sending and waking\<close>

text \<open>\<open>SendMsg\<close> of a thread with its call of \<open>Notify\<close>, whose return value the code drops.\<close>

definition send_and_wake ::
  "mpsc_pipe \<times> notifier \<Rightarrow> nat \<times> notify_answers \<times> 8 word list \<times> 8 word list \<Rightarrow> ((bool \<times> int option) \<times> mpsc_pipe \<times> notifier) result" where
  "send_and_wake pn send =
     (case (pn, send) of ((p, n), (t, os, h, c)) \<Rightarrow>
        (case SendMsg p h c of
           Inl e \<Rightarrow> Inl e
         | Inr (ok, notify, p') \<Rightarrow>
             if ok \<and> notify then
               (case Notify os t n of
                  Inl e \<Rightarrow> Inl e
                | Inr (r, n') \<Rightarrow> Inr ((ok, Some r), p', n'))
             else Inr ((ok, None), p', n)))"

text \<open>The part of \<open>ReceiveMsgWithNotify_\<close> after the pipe was found empty: wait, and look once more.\<close>

definition wait_and_look :: "bool \<Rightarrow> bool \<Rightarrow> nat list option \<Rightarrow> mpsc_pipe \<times> notifier \<Rightarrow> (nat option \<times> mpsc_pipe \<times> notifier) result" where
  "wait_and_look init_ok lock_ok ready pn =
     (case Wait init_ok lock_ok ready (snd pn) of
        Inl e \<Rightarrow> Inl e
      | Inr (_, n') \<Rightarrow>
          (case ReceiveMsg1 (fst pn) of Inl e \<Rightarrow> Inl e | Inr (msg, p') \<Rightarrow> Inr (msg, p', n')))"

text \<open>A sender's header fits, and the epoll set can be changed.\<close>

definition wake_pre :: "mpsc_pipe \<times> notifier \<Rightarrow> nat \<times> notify_answers \<times> 8 word list \<times> 8 word list \<Rightarrow> bool" where
  "wake_pre pn send = (case send of (t, os, h, c) \<Rightarrow> length h = header_size (fst pn) \<and> ctl_add_ok os \<and> set_fd_ok os)"

section \<open>No message is left behind\<close>

lemma empty_pipe_notifies:
  assumes p: "holds p []" and th: "threshold_sender_notify p \<noteq> 0" and sent: "SendMsg p h c = Inr (True, b, p')"
  shows b
proof -
  obtain a d where s: "mpsc_pipe.pipe_bytes p = blank a @ blank d" "receiver_pace p = pipe_start p + a" "pace_at p (pipe_start p + a)"
    using p by (auto simp: holds_def straight_def wrapped_def)
  have "sane p" using p by (simp add: holds_def)
  moreover from this have "a + d = size_pipe p" using s(1) by (simp add: sane_def)
  ultimately have "DecodeSenderPaceToPtr p = pipe_start p + a"
    using pace_at_ptr [OF s(3)] by (simp add: sane_def DecodeSenderPaceToPtr_def)
  then have "SizeSpace p = size_pipe p" using s(2) by (simp add: SizeSpace_def)
  then show ?thesis using sent th by (auto simp: SendMsg_def split: sum.splits prod.splits bool.splits)
qed

text \<open>The relation: what is in the pipe, and that somebody has signalled when it is not empty.\<close>

definition awake :: "nat \<times> nat \<times> nat \<Rightarrow> mpsc_pipe \<times> notifier \<Rightarrow> msg list \<Rightarrow> bool" where
  "awake sz pn q \<longleftrightarrow> (case sz of (offset, len_pipe, max_content) \<Rightarrow> queue_in offset len_pipe max_content (fst pn) q)
     \<and> threshold_sender_notify (fst pn) \<noteq> 0 \<and> notifier_inv (snd pn) \<and> (q \<noteq> [] \<longrightarrow> pending (snd pn) \<noteq> {})"

text \<open>The specification: a message goes to the end of the queue or is refused; no \<open>Notify\<close> has failed.\<close>

definition wake_spec :: "msg list \<Rightarrow> nat \<times> notify_answers \<times> 8 word list \<times> 8 word list \<Rightarrow> bool \<times> int option \<Rightarrow> msg list \<Rightarrow> bool" where
  "wake_spec q send out q' = (case send of (t, os, h, c) \<Rightarrow>
     q' = (if fst out then q @ [(h, c)] else q) \<and> (case snd out of None \<Rightarrow> True | Some r \<Rightarrow> r \<le> 0))"

text \<open>The calls of \<open>Notify\<close> succeed whenever they are made.\<close>

definition wakes :: "mpsc_pipe \<times> notifier \<Rightarrow> nat \<times> notify_answers \<times> 8 word list \<times> 8 word list \<Rightarrow> bool" where
  "wakes pn send \<longleftrightarrow> wake_pre pn send
     \<and> (\<forall>ok r pn'. send_and_wake pn send = Inr ((ok, Some r), pn') \<longrightarrow> r = 0)"

lemma send_and_wake_sim:
  assumes aw: "awake (offset, len_pipe, max_content) pn q" and pre: "wakes pn send"
  shows "\<exists>out pn' q'. send_and_wake pn send = Inr (out, pn') \<and> awake (offset, len_pipe, max_content) pn' q' \<and> wake_spec q send out q'"
proof -
  obtain p n t os h c where s: "pn = (p, n)" "send = (t, os, h, c)" by (metis surj_pair)
  have q: "queue_in offset len_pipe max_content p q" and th: "threshold_sender_notify p \<noteq> 0" and inv: "notifier_inv n"
    and pend: "q \<noteq> [] \<longrightarrow> pending n \<noteq> {}" using aw s by (simp_all add: awake_def)
  have h: "length h = header_size p" and os: "ctl_add_ok os" "set_fd_ok os" using pre s by (simp_all add: wakes_def wake_pre_def)
  obtain out p' q' where st: "pipe_step p (Send h c) = Inr (out, p')" "queue_in offset len_pipe max_content p' q'"
    "queue_spec offset len_pipe max_content q (Send h c) out q'"
    using pipe_step_sim [OF q, of "Send h c"] h by (auto simp: pipe_pre_def)
  then obtain ok b where sm: "SendMsg p h c = Inr (ok, b, p')" "out = Sent ok"
    by (auto simp: pipe_step_def split: sum.splits prod.splits)
  have q': "q' = (if ok then q @ [(h, c)] else q)" using st(3) sm(2) by (auto simp: queue_spec_def)
  have th': "threshold_sender_notify p' \<noteq> 0" using SendMsg_threshold [OF sm(1)] th by simp
  show ?thesis
  proof (cases "ok \<and> b")
    case True
    obtain r n' where nt: "Notify os t n = Inr (r, n')" "notifier_inv n'" "signals (pending n) (N_Notify t os) r (pending n')"
      using Notify_ok [OF inv os] by blast
    have run: "send_and_wake pn send = Inr ((True, Some r), p', n')" using sm(1) nt(1) True s by (simp add: send_and_wake_def)
    then have "r = 0" using pre unfolding wakes_def by blast
    then have "pending n' \<noteq> {}" using nt(3) by simp
    with run st(2) th' nt(2) q' True \<open>r = 0\<close> show ?thesis
      by (intro exI [of _ "(True, Some r)"] exI [of _ "(p', n')"] exI [of _ q']) (simp add: awake_def wake_spec_def s)
  next
    case False
    have run: "send_and_wake pn send = Inr ((ok, None), p', n)" using sm(1) False s by (auto simp: send_and_wake_def)
    have "pending n \<noteq> {}" if "q' \<noteq> []"
    proof (cases "q = []")
      case True
      with that q' have "ok" by (auto split: if_splits)
      then have b using empty_pipe_notifies [of p h c b p'] q th sm(1) True by (simp add: queue_in_def)
      with \<open>ok\<close> False show ?thesis by blast
    qed (use pend in blast)
    with run st(2) th' inv q' show ?thesis
      by (intro exI [of _ "(ok, None)"] exI [of _ "(p', n)"] exI [of _ q']) (simp add: awake_def wake_spec_def s)
  qed
qed

interpretation waking: forward_simulation send_and_wake wake_spec wakes "awake (offset, len_pipe, max_content)" for offset len_pipe max_content
  by unfold_locales (rule send_and_wake_sim)

lemma wait_and_look_finds:
  assumes aw: "awake (offset, len_pipe, max_content) (p, n) q" and pre: "notify_pre n (N_Wait i k ready)"
  shows "\<exists>r n' msg p'. Wait i k ready n = Inr (r, n') \<and> wait_and_look i k ready (p, n) = Inr (msg, p', n')
    \<and> (msg = None \<longleftrightarrow> q = []) \<and> (q \<noteq> [] \<longrightarrow> r \<noteq> 0)
    \<and> (i \<and> k \<longrightarrow> (case ready of None \<Rightarrow> True | Some fds \<Rightarrow> r = int (length fds) \<and> (q \<noteq> [] \<longrightarrow> fds \<noteq> [])))"
proof -
  have inv: "notifier_inv n" and h: "holds p q" and pend: "q \<noteq> [] \<longrightarrow> pending n \<noteq> {}" using aw by (simp_all add: awake_def queue_in_def)
  obtain r n' where w: "Wait i k ready n = Inr (r, n')" "signals (pending n) (N_Wait i k ready) r (pending n')"
    using Wait_ok [OF inv pre] by blast
  obtain p' where look: "HasTodoMsg p = Inr (q \<noteq> [], p')" by (rule receive_spec [OF h])
  have r: "r \<noteq> 0" if "q \<noteq> []" using w(2) pend that by (auto split: if_splits)
  have "r = int (length fds)" if "i" "k" "ready = Some fds" for fds
    using w(1) invD(1) [OF inv] that by (auto simp: Wait_def spin_Lock_def spin_raii_def spin_Init_def split: if_splits)
  with r have "i \<and> k \<longrightarrow> (case ready of None \<Rightarrow> True | Some fds \<Rightarrow> r = int (length fds) \<and> (q \<noteq> [] \<longrightarrow> fds \<noteq> []))"
    by (auto split: option.split)
  with r w(1) look show ?thesis by (auto simp: wait_and_look_def ReceiveMsg1_def)
qed

text \<open>
  C6: The receiver has found the pipe empty. Whatever threads then send, in any order, as long as
  the calls of \<open>Notify\<close> that \<open>SendMsg\<close> makes succeed: when the next \<open>Wait\<close> gets its lock and \<open>epoll_wait\<close>
  succeeds, \<open>Wait\<close> returns the number of threads whose signals it takes, which is positive if a message
  has been put into the pipe. When one has been, no \<open>Wait\<close> returns 0; and whether \<open>Wait\<close> succeeds or
  fails, the receiver then finds a message if there is one, and otherwise none.
\<close>

theorem no_message_left_behind:
  assumes p: "queue_in offset len_pipe max_content p []" and th: "threshold_sender_notify p \<noteq> 0" and n: "notifier_inv n"
    and sends: "legal_ops send_and_wake wakes (p, n) sends"
  shows "\<exists>outs p' n' q. run_ops send_and_wake (p, n) sends = Inr (outs, p', n') \<and> spec_run wake_spec [] sends outs q
    \<and> (\<forall>fds. notify_pre n' (N_Wait True True (Some fds)) \<longrightarrow>
        (\<exists>n'' msg p''. Wait True True (Some fds) n' = Inr (int (length fds), n'')
          \<and> wait_and_look True True (Some fds) (p', n') = Inr (msg, p'', n'')
          \<and> (msg = None \<longleftrightarrow> q = []) \<and> (q \<noteq> [] \<longrightarrow> 0 < length fds)))
    \<and> (\<forall>i k ready. notify_pre n' (N_Wait i k ready) \<longrightarrow>
        (\<exists>r n'' msg p''. Wait i k ready n' = Inr (r, n'') \<and> wait_and_look i k ready (p', n') = Inr (msg, p'', n'')
          \<and> (msg = None \<longleftrightarrow> q = []) \<and> (q \<noteq> [] \<longrightarrow> r \<noteq> 0)))"
proof -
  have "awake (offset, len_pipe, max_content) (p, n) []" using p th n by (simp add: awake_def)
  from waking.run_related [OF this sends] obtain outs p' n' q where r: "run_ops send_and_wake (p, n) sends = Inr (outs, p', n')"
    "awake (offset, len_pipe, max_content) (p', n') q" "spec_run wake_spec [] sends outs q" by auto
  note finds = wait_and_look_finds [OF r(2)]
  have "\<exists>n'' msg p''. Wait True True (Some fds) n' = Inr (int (length fds), n'')
      \<and> wait_and_look True True (Some fds) (p', n') = Inr (msg, p'', n'') \<and> (msg = None \<longleftrightarrow> q = []) \<and> (q \<noteq> [] \<longrightarrow> 0 < length fds)"
    if "notify_pre n' (N_Wait True True (Some fds))" for fds
    using finds [OF that] by auto
  moreover have "\<exists>r n'' msg p''. Wait i k ready n' = Inr (r, n'') \<and> wait_and_look i k ready (p', n') = Inr (msg, p'', n'')
      \<and> (msg = None \<longleftrightarrow> q = []) \<and> (q \<noteq> [] \<longrightarrow> r \<noteq> 0)" if "notify_pre n' (N_Wait i k ready)" for i k ready
    using finds [OF that] by blast
  ultimately show ?thesis using r(1,3) by blast
qed

definition waking_pipe :: mpsc_pipe where
  "waking_pipe = (fresh_pipe 16 4)\<lparr>threshold_sender_notify := 8\<rparr>"

lemma waking_pipe_empty: "queue_in 8 16 4 waking_pipe []"
proof -
  have "mpsc_Init 4 8 (replicate 16 7) 16 4 8 True = Inr (Some waking_pipe)"
    unfolding waking_pipe_def by code_simp
  from Init_empty [OF this] show ?thesis by simp
qed

text \<open>One message is sent, thread 1 signals, \<open>epoll_wait\<close> reports the read end 0 of its pipe.\<close>

lemma no_message_left_behind_witness:
  "\<exists>p' n' n''. run_ops send_and_wake (waking_pipe, started) [(1, yes, [1, 2, 3, 4], [5])] = Inr ([(True, Some 0)], p', n')
    \<and> Wait True True (Some [0]) n' = Inr (1, n'') \<and> (\<exists>msg p''. wait_and_look True True (Some [0]) (p', n') = Inr (Some msg, p'', n''))"
proof -
  let ?sends = "[(1, yes, [1, 2, 3, 4], [5])]"
  define p1 where "p1 = waking_pipe\<lparr>sender_pace_from := EncodeSenderPace 17 0, sender_pace_to := EncodeSenderPace 17 0,
    mpsc_pipe.pipe_bytes := [1, 2, 3, 4, 1, 0, 0, 128, 5, 255, 255, 255, 255, 255, 255, 255]\<rparr>"
  define n1 where "n1 = snd (case Notify yes 1 started of Inr x \<Rightarrow> x)"
  have send: "SendMsg waking_pipe [1, 2, 3, 4] [5] = Inr (True, True, p1)" unfolding p1_def waking_pipe_def by code_simp
  have sig: "Notify yes 1 started = Inr (0, n1)" "notify_pre n1 (N_Wait True True (Some [0]))" by (simp_all add: n1_def notify_run)
  have legal: "legal_ops send_and_wake wakes (waking_pipe, started) ?sends"
    using send sig(1) by (simp add: wakes_def wake_pre_def send_and_wake_def) (simp add: waking_pipe_def fresh_pipe_def yes_def)
  have run: "run_ops send_and_wake (waking_pipe, started) ?sends = Inr ([(True, Some 0)], p1, n1)"
    using send sig(1) by (simp add: send_and_wake_def)
  have th: "threshold_sender_notify waking_pipe \<noteq> 0" by (simp add: waking_pipe_def)
  have n: "notifier_inv started" using notifier_Init_inv [of "Some 1" 3 True started] by (simp add: started_def notifier_Init_def)
  from no_message_left_behind [OF waking_pipe_empty th n legal] run obtain q where
    "spec_run wake_spec [] ?sends [(True, Some 0)] q"
    and wait: "\<And>fds. notify_pre n1 (N_Wait True True (Some fds)) \<Longrightarrow>
      \<exists>n'' msg p''. Wait True True (Some fds) n1 = Inr (int (length fds), n'') \<and> wait_and_look True True (Some fds) (p1, n1) = Inr (msg, p'', n'')
        \<and> (msg = None \<longleftrightarrow> q = []) \<and> (q \<noteq> [] \<longrightarrow> 0 < length fds)"
    by auto
  then have "q \<noteq> []" by (auto simp: wake_spec_def)
  with wait [OF sig(2)] run show ?thesis by auto
qed

end
