(* ===== verification/Events_Driver.thy ===== *)
theory Events_Driver
  imports Heap_Base
begin

text \<open>
  The class template \<open>EventsDriver\<close> of \<^verbatim>\<open>src/events_driver.hpp\<close>: file descriptors watched with
  \<open>epoll\<close>, each with a context and perhaps a deadline. The deadlines are kept in the heap of
  \<open>Heap_Base\<close>, the contexts and the signs of the heap entries in a vector indexed by descriptor.
  \<open>Events_Spec\<close> holds the theorems.

  The kernel is a parameter: a record of the system calls, and a state \<open>'k\<close> they work on. The
  clock is an argument of the calls that read it (\<open>Time::GetCurrentMsec(false)\<close> gives the time that
  was last stored, so it does not change during a call). A sign that is 0 in the code is \<open>None\<close>.
\<close>

section \<open>State\<close>

datatype reg_op = kAddEvent | kModEvent | kDelEvent

datatype event_kind = kIn | kOut | kErr

record 'c event_ctx =
  ec_context :: "'c option"
  sign_timeo :: "nat option"

record event_timeo =
  expire_time_ms :: int
  timeo_fd :: nat

record ('c, 'k) events_driver =
  event_in :: "32 word"
  event_out :: "32 word"
  heap_timeo :: "(event_timeo, int) heap_base"
  fd_to_event_ctx :: "'c event_ctx list"
  driver_init :: bool
  kernel :: 'k

text \<open>The system calls: whether they succeed, and the kernel afterwards.\<close>

datatype ctl_op = CtlAdd | CtlMod | CtlDel

record 'k epoll_api =
  epoll_create :: "'k \<Rightarrow> bool \<times> 'k"
  epoll_ctl :: "ctl_op \<Rightarrow> nat \<Rightarrow> 32 word \<Rightarrow> 'k \<Rightarrow> bool \<times> 'k"
  epoll_wait :: "nat \<Rightarrow> int \<Rightarrow> 'k \<Rightarrow> int \<times> 'k"
  lock_Lock :: "'k \<Rightarrow> bool \<times> 'k"
  lock_Unlock :: "'k \<Rightarrow> 'k"

definition kMaxNumEvents :: nat where
  "kMaxNumEvents = 100000"

definition EPOLLIN :: "32 word" where "EPOLLIN = 1"
definition EPOLLOUT :: "32 word" where "EPOLLOUT = 4"
definition EPOLLERR :: "32 word" where "EPOLLERR = 8"
definition EPOLLHUP :: "32 word" where "EPOLLHUP = 16"
definition EPOLLET :: "32 word" where "EPOLLET = 0x80000000"

text \<open>The constructor. \<open>heap_timeo_\<close> has the default size, \<open>junk\<close> is what its nodes hold.\<close>

definition new_driver :: "event_timeo heap_item \<Rightarrow> bool \<Rightarrow> 'k \<Rightarrow> ('c, 'k) events_driver" where
  "new_driver junk level_trigger k =
     (let ev_in = or (or EPOLLIN EPOLLHUP) EPOLLERR;
          ev_out = or (or EPOLLOUT EPOLLHUP) EPOLLERR
      in \<lparr>event_in = (if level_trigger then ev_in else or ev_in EPOLLET),
          event_out = (if level_trigger then ev_out else or ev_out EPOLLET),
          heap_timeo = new_heap kMinHeap junk 1024 expire_time_ms,
          fd_to_event_ctx = [], driver_init = False, kernel = k\<rparr>)"

definition driver_Init :: "'k epoll_api \<Rightarrow> ('c, 'k) events_driver \<Rightarrow> bool \<times> ('c, 'k) events_driver" where
  "driver_Init api d =
     (let (ok, k) = epoll_create api (kernel d)
      in (ok, d\<lparr>kernel := k, driver_init := ok\<rparr>))"

definition driver_raii :: "'k epoll_api \<Rightarrow> ('c, 'k) events_driver \<Rightarrow> bool \<times> ('c, 'k) events_driver" where
  "driver_raii api d = (if driver_init d then (True, d) else driver_Init api d)"

definition set_context :: "('c, 'k) events_driver \<Rightarrow> nat \<Rightarrow> 'c option \<Rightarrow> ('c, 'k) events_driver" where
  "set_context d fd c =
     d\<lparr>fd_to_event_ctx := (fd_to_event_ctx d)[fd := (fd_to_event_ctx d ! fd)\<lparr>ec_context := c\<rparr>]\<rparr>"

definition set_sign :: "('c, 'k) events_driver \<Rightarrow> nat \<Rightarrow> nat option \<Rightarrow> ('c, 'k) events_driver" where
  "set_sign d fd s =
     d\<lparr>fd_to_event_ctx := (fd_to_event_ctx d)[fd := (fd_to_event_ctx d ! fd)\<lparr>sign_timeo := s\<rparr>]\<rparr>"

text \<open>\<open>epoll_ctl\<close> between \<open>Lock\<close> and \<open>Unlock\<close>; \<open>None\<close> when the lock cannot be taken.\<close>

definition locked_ctl ::
  "'k epoll_api \<Rightarrow> ctl_op \<Rightarrow> nat \<Rightarrow> 32 word \<Rightarrow> ('c, 'k) events_driver \<Rightarrow> bool option \<times> ('c, 'k) events_driver" where
  "locked_ctl api op fd ev d =
     (let (locked, k1) = lock_Lock api (kernel d) in
      if \<not> locked then (None, d\<lparr>kernel := k1\<rparr>)
      else let (ok, k2) = epoll_ctl api op fd ev k1 in (Some ok, d\<lparr>kernel := lock_Unlock api k2\<rparr>))"

section \<open>RegEventDel\<close>

definition erase_timer :: "('c, 'k) events_driver \<Rightarrow> nat \<Rightarrow> ('c, 'k) events_driver result" where
  "erase_timer d fd =
     (case sign_timeo (fd_to_event_ctx d ! fd) of
        None \<Rightarrow> Inr d
      | Some s \<Rightarrow>
          (case heap_Erase (heap_timeo d) s of
             Inl e \<Rightarrow> Inl e
           | Inr h \<Rightarrow> Inr (set_sign (d\<lparr>heap_timeo := h\<rparr>) fd None)))"

definition RegEventDel ::
  "'k epoll_api \<Rightarrow> ('c, 'k) events_driver \<Rightarrow> nat \<Rightarrow> (bool \<times> ('c, 'k) events_driver) result" where
  "RegEventDel api d fd =
     (if length (fd_to_event_ctx d) \<le> fd then Inl Out_Of_Bounds
      else
        (case erase_timer d fd of
           Inl e \<Rightarrow> Inl e
         | Inr d1 \<Rightarrow>
             (case locked_ctl api CtlDel fd 0 d1 of
                (Some True, d2) \<Rightarrow> Inr (True, set_context d2 fd None)
              | (_, d2) \<Rightarrow> Inr (False, d2))))"

section \<open>RegEvent\<close>

text \<open>The vector is made long enough; a new entry has no context and no sign.\<close>

definition grow_ctxs :: "('c, 'k) events_driver \<Rightarrow> nat \<Rightarrow> ('c, 'k) events_driver" where
  "grow_ctxs d fd =
     (let cs = fd_to_event_ctx d in
      if length cs \<le> fd
      then d\<lparr>fd_to_event_ctx := cs @ replicate (fd + 1 - length cs) \<lparr>ec_context = None, sign_timeo = None\<rparr>\<rparr>
      else d)"

text \<open>\<open>ERROR_HANDLE\<close> of \<open>RegEvent\<close>.\<close>

definition reg_failed ::
  "'k epoll_api \<Rightarrow> ('c, 'k) events_driver \<Rightarrow> nat \<Rightarrow> (bool \<times> ('c, 'k) events_driver) result" where
  "reg_failed api d fd =
     (case RegEventDel api d fd of Inl e \<Rightarrow> Inl e | Inr (_, d') \<Rightarrow> Inr (False, d'))"

definition reg_ctl ::
  "'k epoll_api \<Rightarrow> ctl_op \<Rightarrow> nat \<Rightarrow> 32 word \<Rightarrow> ('c, 'k) events_driver \<Rightarrow> (bool \<times> ('c, 'k) events_driver) result" where
  "reg_ctl api op fd ev d =
     (case locked_ctl api op fd ev d of
        (Some True, d') \<Rightarrow> Inr (True, d')
      | (_, d') \<Rightarrow> reg_failed api d' fd)"

definition insert_timer ::
  "int \<Rightarrow> ('c, 'k) events_driver \<Rightarrow> nat \<Rightarrow> int \<Rightarrow> ('c, 'k) events_driver result" where
  "insert_timer now d fd timeo_ms =
     (case heap_Insert (heap_timeo d) \<lparr>expire_time_ms = now + timeo_ms, timeo_fd = fd\<rparr> of
        Inl e \<Rightarrow> Inl e
      | Inr (s, h) \<Rightarrow> Inr (set_sign (d\<lparr>heap_timeo := h\<rparr>) fd (Some s)))"

definition add_timer ::
  "int \<Rightarrow> ('c, 'k) events_driver \<Rightarrow> nat \<Rightarrow> int \<Rightarrow> ('c, 'k) events_driver result" where
  "add_timer now d fd timeo_ms =
     (if 0 \<le> timeo_ms then insert_timer now d fd timeo_ms else Inr (set_sign d fd None))"

definition mod_timer ::
  "int \<Rightarrow> ('c, 'k) events_driver \<Rightarrow> nat \<Rightarrow> int \<Rightarrow> ('c, 'k) events_driver result" where
  "mod_timer now d fd timeo_ms =
     (if 0 \<le> timeo_ms then
        (case sign_timeo (fd_to_event_ctx d ! fd) of
           Some s \<Rightarrow>
             (case heap_Update (heap_timeo d) s \<lparr>expire_time_ms = now + timeo_ms, timeo_fd = fd\<rparr> of
                Inl e \<Rightarrow> Inl e
              | Inr h \<Rightarrow> Inr (d\<lparr>heap_timeo := h\<rparr>))
         | None \<Rightarrow> insert_timer now d fd timeo_ms)
      else Inr d)"

text \<open>
  \<open>RegEvent\<close> for a descriptor that is not negative. When \<open>Init_\<close> fails the result is -1, as a
  \<open>bool\<close> true; in the case of \<open>kDelEvent\<close> the \<open>bool\<close> that \<open>RegEventDel\<close> returns is compared with 0.
\<close>

definition RegEvent ::
  "'k epoll_api \<Rightarrow> int \<Rightarrow> ('c, 'k) events_driver \<Rightarrow> nat \<Rightarrow> reg_op \<Rightarrow> event_kind \<Rightarrow> 'c option \<Rightarrow> int
    \<Rightarrow> (bool \<times> ('c, 'k) events_driver) result" where
  "RegEvent api now d0 fd op direction context timeo_ms =
     (case driver_raii api d0 of
        (False, d1) \<Rightarrow> Inr (True, d1)
      | (True, d1) \<Rightarrow>
          let d2 = grow_ctxs d1 fd;
              ev = (if direction = kIn then event_in d2 else event_out d2)
          in case op of
            kAddEvent \<Rightarrow>
              (case add_timer now (set_context d2 fd context) fd timeo_ms of
                 Inl e \<Rightarrow> Inl e
               | Inr d3 \<Rightarrow> reg_ctl api CtlAdd fd ev d3)
          | kModEvent \<Rightarrow>
              (case mod_timer now d2 fd timeo_ms of
                 Inl e \<Rightarrow> Inl e
               | Inr d3 \<Rightarrow> reg_ctl api CtlMod fd ev d3)
          | kDelEvent \<Rightarrow>
              (case RegEventDel api d2 fd of
                 Inl e \<Rightarrow> Inl e
               | Inr (ret, d3) \<Rightarrow>
                   if ret then reg_failed api d3 fd else Inr (True, set_context d3 fd None)))"

section \<open>Timeouts and clearing\<close>

text \<open>The loop of \<open>RemoveTimeouts\<close>, with the contexts collected so far and a bound on the rounds.\<close>

fun timeouts_loop ::
  "'k epoll_api \<Rightarrow> int \<Rightarrow> nat \<Rightarrow> ('c, 'k) events_driver \<Rightarrow> 'c list \<Rightarrow> ('c list \<times> ('c, 'k) events_driver) result" where
  "timeouts_loop api now 0 d acc = Inl Diverges"
| "timeouts_loop api now (Suc f) d acc =
     (case heap_Top (heap_timeo d) of
        None \<Rightarrow> Inr (acc, d)
      | Some t \<Rightarrow>
          if \<not> expire_time_ms t < now then Inr (acc, d)
          else if length (fd_to_event_ctx d) \<le> timeo_fd t then Inl Out_Of_Bounds
          else
            let acc' = (case ec_context (fd_to_event_ctx d ! timeo_fd t) of None \<Rightarrow> acc | Some c \<Rightarrow> acc @ [c])
            in case RegEventDel api d (timeo_fd t) of
                 Inl e \<Rightarrow> Inl e
               | Inr (_, d') \<Rightarrow> timeouts_loop api now f d' acc')"

definition RemoveTimeouts ::
  "'k epoll_api \<Rightarrow> int \<Rightarrow> ('c, 'k) events_driver \<Rightarrow> ('c list option \<times> ('c, 'k) events_driver) result" where
  "RemoveTimeouts api now d0 =
     (case driver_raii api d0 of
        (False, d) \<Rightarrow> Inr (None, d)
      | (True, d) \<Rightarrow>
          (case timeouts_loop api now (heap_Size (heap_timeo d) + 1) d [] of
             Inl e \<Rightarrow> Inl e
           | Inr (cs, d') \<Rightarrow> Inr (Some cs, d')))"

fun clear_loop ::
  "'k epoll_api \<Rightarrow> nat list \<Rightarrow> ('c, 'k) events_driver \<Rightarrow> 'c list \<Rightarrow> ('c list \<times> ('c, 'k) events_driver) result" where
  "clear_loop api [] d acc = Inr (acc, d)"
| "clear_loop api (i # is) d acc =
     (case ec_context (fd_to_event_ctx d ! i) of
        None \<Rightarrow> clear_loop api is d acc
      | Some c \<Rightarrow>
          (case RegEventDel api d i of
             Inl e \<Rightarrow> Inl e
           | Inr (_, d') \<Rightarrow> clear_loop api is d' (acc @ [c])))"

definition ClearAll ::
  "'k epoll_api \<Rightarrow> ('c, 'k) events_driver \<Rightarrow> ('c list option \<times> ('c, 'k) events_driver) result" where
  "ClearAll api d0 =
     (case driver_raii api d0 of
        (False, d) \<Rightarrow> Inr (None, d)
      | (True, d) \<Rightarrow>
          (case clear_loop api [0 ..< length (fd_to_event_ctx d)] d [] of
             Inl e \<Rightarrow> Inl e
           | Inr (cs, d') \<Rightarrow> Inr (Some cs, d')))"

section \<open>Waiting\<close>

text \<open>The time \<open>Wait\<close> computes, an \<open>int64_t\<close>; \<open>epoll_wait\<close> takes an \<open>int\<close>, its low 32 bits.\<close>

definition time_to_wait :: "int \<Rightarrow> (event_timeo, int) heap_base \<Rightarrow> int \<Rightarrow> int" where
  "time_to_wait now h timeo_ms =
     (case heap_Top h of
        None \<Rightarrow> timeo_ms
      | Some t \<Rightarrow> let w = min (expire_time_ms t - now) timeo_ms in if w < 0 then 0 else w)"

definition driver_Wait :: "'k epoll_api \<Rightarrow> int \<Rightarrow> ('c, 'k) events_driver \<Rightarrow> int \<Rightarrow> int \<times> ('c, 'k) events_driver" where
  "driver_Wait api now d0 timeo_ms =
     (case driver_raii api d0 of
        (False, d) \<Rightarrow> (- 1, d)
      | (True, d) \<Rightarrow>
          let (ret, k) = epoll_wait api kMaxNumEvents (signed_take_bit 31 (time_to_wait now (heap_timeo d) timeo_ms)) (kernel d)
          in (ret, d\<lparr>kernel := k\<rparr>))"

text \<open>\<open>CheckReadyEvent\<close> for an entry of \<open>events_ready_\<close>, its events and its descriptor.\<close>

definition CheckReadyEvent ::
  "('c, 'k) events_driver \<Rightarrow> 32 word \<times> nat \<Rightarrow> (event_kind \<times> 'c option) result" where
  "CheckReadyEvent d ready =
     (if length (fd_to_event_ctx d) \<le> snd ready then Inl Out_Of_Bounds
      else Inr (if fst ready = EPOLLOUT then kOut else if fst ready = EPOLLIN then kIn else kErr,
                ec_context (fd_to_event_ctx d ! snd ready)))"

end
