(* ===== verification/Events_Spec.thy ===== *)
theory Events_Spec
  imports Events_Driver Heap_Spec
begin

text \<open>
  What \<open>EventsDriver\<close> promises on a kernel that does what it is asked: it is a map from descriptors
  to contexts with deadlines, and \<open>RemoveTimeouts\<close> hands out exactly the contexts whose deadline
  has passed, earliest first. Then where it does not keep the promise: a descriptor that is
  registered again while its deadline is pending makes \<open>RemoveTimeouts\<close> loop for ever, and
  \<open>kDelEvent\<close> reports success as failure.
\<close>

section \<open>A kernel that works\<close>

text \<open>
  The set of watched descriptors; adding a new one, changing and deleting a watched one succeed.
\<close>

definition api_works :: "'k epoll_api \<Rightarrow> ('k \<Rightarrow> nat set) \<Rightarrow> bool" where
  "api_works api fds \<longleftrightarrow>
     (\<forall>k. fst (epoll_create api k) \<and> fds (snd (epoll_create api k)) = {})
     \<and> (\<forall>k. fst (lock_Lock api k) \<and> fds (snd (lock_Lock api k)) = fds k \<and> fds (lock_Unlock api k) = fds k)
     \<and> (\<forall>fd ev k. fd \<notin> fds k \<longrightarrow> fst (epoll_ctl api CtlAdd fd ev k)
          \<and> fds (snd (epoll_ctl api CtlAdd fd ev k)) = insert fd (fds k))
     \<and> (\<forall>fd ev k. fd \<in> fds k \<longrightarrow> fst (epoll_ctl api CtlMod fd ev k)
          \<and> fds (snd (epoll_ctl api CtlMod fd ev k)) = fds k)
     \<and> (\<forall>fd ev k. fd \<in> fds k \<longrightarrow> fst (epoll_ctl api CtlDel fd ev k)
          \<and> fds (snd (epoll_ctl api CtlDel fd ev k)) = fds k - {fd})"

lemma locked_ctl_works:
  assumes "api_works api fds"
  shows "fd \<notin> fds (kernel d) \<Longrightarrow> \<exists>k. locked_ctl api CtlAdd fd ev d = (Some True, d\<lparr>kernel := k\<rparr>)
      \<and> fds k = insert fd (fds (kernel d))"
    and "fd \<in> fds (kernel d) \<Longrightarrow> \<exists>k. locked_ctl api CtlMod fd ev d = (Some True, d\<lparr>kernel := k\<rparr>)
      \<and> fds k = fds (kernel d)"
    and "fd \<in> fds (kernel d) \<Longrightarrow> \<exists>k. locked_ctl api CtlDel fd ev d = (Some True, d\<lparr>kernel := k\<rparr>)
      \<and> fds k = fds (kernel d) - {fd}"
proof -
  obtain b k1 where l: "lock_Lock api (kernel d) = (b, k1)" by (cases "lock_Lock api (kernel d)")
  then have k1: "b" "fds k1 = fds (kernel d)" using assms unfolding api_works_def by (metis fst_conv snd_conv)+
  have u: "fds (lock_Unlock api k) = fds k" for k using assms by (simp add: api_works_def)
  have step: "locked_ctl api op fd ev d = (Some (fst (epoll_ctl api op fd ev k1)),
      d\<lparr>kernel := lock_Unlock api (snd (epoll_ctl api op fd ev k1))\<rparr>)" for op
    using l k1(1) by (simp add: locked_ctl_def split: prod.split)
  show "\<exists>k. locked_ctl api CtlAdd fd ev d = (Some True, d\<lparr>kernel := k\<rparr>) \<and> fds k = insert fd (fds (kernel d))"
    if "fd \<notin> fds (kernel d)"
    using assms that k1 u unfolding step api_works_def by (intro exI [of _ "lock_Unlock api (snd (epoll_ctl api CtlAdd fd ev k1))"]) auto
  show "\<exists>k. locked_ctl api CtlMod fd ev d = (Some True, d\<lparr>kernel := k\<rparr>) \<and> fds k = fds (kernel d)"
    if "fd \<in> fds (kernel d)"
    using assms that k1 u unfolding step api_works_def by (intro exI [of _ "lock_Unlock api (snd (epoll_ctl api CtlMod fd ev k1))"]) auto
  show "\<exists>k. locked_ctl api CtlDel fd ev d = (Some True, d\<lparr>kernel := k\<rparr>) \<and> fds k = fds (kernel d) - {fd}"
    if "fd \<in> fds (kernel d)"
    using assms that k1 u unfolding step api_works_def by (intro exI [of _ "lock_Unlock api (snd (epoll_ctl api CtlDel fd ev k1))"]) auto
qed

section \<open>The invariant\<close>

abbreviation ctx_at :: "('c, 'k) events_driver \<Rightarrow> nat \<Rightarrow> 'c event_ctx" where
  "ctx_at d fd \<equiv> fd_to_event_ctx d ! fd"

text \<open>Signs and heap entries belong to each other, and the kernel watches what has a context.\<close>

definition driver_ok :: "('k \<Rightarrow> nat set) \<Rightarrow> ('c, 'k) events_driver \<Rightarrow> bool" where
  "driver_ok fds d \<longleftrightarrow> heap_of kMinHeap expire_time_ms (heap_timeo d)
     \<and> (\<forall>fd s. fd < length (fd_to_event_ctx d) \<longrightarrow> sign_timeo (ctx_at d fd) = Some s \<longrightarrow>
          ec_context (ctx_at d fd) \<noteq> None \<and> (\<exists>t. heap_map (heap_timeo d) s = Some t \<and> timeo_fd t = fd))
     \<and> (\<forall>s t. heap_map (heap_timeo d) s = Some t \<longrightarrow>
          timeo_fd t < length (fd_to_event_ctx d) \<and> sign_timeo (ctx_at d (timeo_fd t)) = Some s)
     \<and> (if driver_init d
        then fds (kernel d) = {fd. fd < length (fd_to_event_ctx d) \<and> ec_context (ctx_at d fd) \<noteq> None}
        else fd_to_event_ctx d = [])"

text \<open>The map from descriptors to contexts and deadlines.\<close>

definition watch_of :: "('c, 'k) events_driver \<Rightarrow> nat \<rightharpoonup> 'c \<times> int option" where
  "watch_of d fd =
     (if fd < length (fd_to_event_ctx d) then
        (case ec_context (ctx_at d fd) of
           None \<Rightarrow> None
         | Some c \<Rightarrow> Some (c, map_option (\<lambda>s. expire_time_ms (the (heap_map (heap_timeo d) s))) (sign_timeo (ctx_at d fd))))
      else None)"

lemma watch_dom: "fd \<in> dom (watch_of d) \<longleftrightarrow> fd < length (fd_to_event_ctx d) \<and> ec_context (ctx_at d fd) \<noteq> None"
  by (auto simp: watch_of_def split: option.splits if_splits)

lemma watch_dom_eq: "dom (watch_of d) = {fd. fd < length (fd_to_event_ctx d) \<and> ec_context (ctx_at d fd) \<noteq> None}"
  using watch_dom by blast

lemma driver_okD:
  assumes "driver_ok fds d"
  shows "heap_of kMinHeap expire_time_ms (heap_timeo d)" and "heap_inv (heap_timeo d)"
    and "fd < length (fd_to_event_ctx d) \<Longrightarrow> sign_timeo (ctx_at d fd) = Some s \<Longrightarrow>
      ec_context (ctx_at d fd) \<noteq> None \<and> (\<exists>t. heap_map (heap_timeo d) s = Some t \<and> timeo_fd t = fd)"
    and "heap_map (heap_timeo d) s = Some t \<Longrightarrow>
      timeo_fd t < length (fd_to_event_ctx d) \<and> sign_timeo (ctx_at d (timeo_fd t)) = Some s"
    and "driver_init d \<Longrightarrow> fds (kernel d) = dom (watch_of d)"
proof -
  show "heap_of kMinHeap expire_time_ms (heap_timeo d)" "heap_inv (heap_timeo d)"
    using assms by (simp_all add: driver_ok_def heap_of_def)
  show "fd < length (fd_to_event_ctx d) \<Longrightarrow> sign_timeo (ctx_at d fd) = Some s \<Longrightarrow>
      ec_context (ctx_at d fd) \<noteq> None \<and> (\<exists>t. heap_map (heap_timeo d) s = Some t \<and> timeo_fd t = fd)"
    using assms unfolding driver_ok_def by blast
  show "heap_map (heap_timeo d) s = Some t \<Longrightarrow>
      timeo_fd t < length (fd_to_event_ctx d) \<and> sign_timeo (ctx_at d (timeo_fd t)) = Some s"
    using assms unfolding driver_ok_def by blast
  show "fds (kernel d) = dom (watch_of d)" if "driver_init d"
    using assms that watch_dom [of _ d] by (intro set_eqI) (simp add: driver_ok_def)
qed

text \<open>Every entry of the heap belongs to a watched descriptor.\<close>

lemma entry_watched:
  assumes "driver_ok fds d" and "heap_map (heap_timeo d) s = Some t"
  shows "\<exists>c. watch_of d (timeo_fd t) = Some (c, Some (expire_time_ms t))"
proof -
  from driver_okD(4) [OF assms] have f: "timeo_fd t < length (fd_to_event_ctx d)"
    "sign_timeo (ctx_at d (timeo_fd t)) = Some s" by auto
  with driver_okD(3) [OF assms(1) f] assms(2) show ?thesis by (auto simp: watch_of_def)
qed

text \<open>A watched descriptor with a deadline has its entry in the heap.\<close>

lemma watched_entry:
  assumes "driver_ok fds d" and "watch_of d fd = Some (c, Some e)"
  obtains s t where "heap_map (heap_timeo d) s = Some t" "timeo_fd t = fd" "expire_time_ms t = e"
    "sign_timeo (ctx_at d fd) = Some s"
proof -
  from assms(2) obtain s where s: "fd < length (fd_to_event_ctx d)" "sign_timeo (ctx_at d fd) = Some s"
    "e = expire_time_ms (the (heap_map (heap_timeo d) s))"
    by (auto simp: watch_of_def split: if_splits option.splits)
  with driver_okD(3) [OF assms(1) s(1,2)] that show ?thesis by auto
qed

section \<open>Changing one descriptor\<close>

text \<open>
  A new heap that differs only in the entries of one descriptor, a new entry for it in the vector,
  and a kernel that watches it exactly when it has a context.
\<close>

definition slot_value :: "(event_timeo, int) heap_base \<Rightarrow> 'c event_ctx \<Rightarrow> ('c \<times> int option) option" where
  "slot_value h x = (case ec_context x of
     None \<Rightarrow> None
   | Some c \<Rightarrow> Some (c, map_option (\<lambda>s. expire_time_ms (the (heap_map h s))) (sign_timeo x)))"

lemma watch_of_slot:
  "watch_of d fd = (if fd < length (fd_to_event_ctx d) then slot_value (heap_timeo d) (ctx_at d fd) else None)"
  by (simp add: watch_of_def slot_value_def)

lemma slot_update:
  assumes ok: "driver_ok fds d" and init: "driver_init d" and len: "fd < length (fd_to_event_ctx d)"
    and heap: "heap_of kMinHeap expire_time_ms h"
    and others: "\<And>s t. timeo_fd t \<noteq> fd \<Longrightarrow> heap_map h s = Some t \<longleftrightarrow> heap_map (heap_timeo d) s = Some t"
    and mine: "\<And>s t. heap_map h s = Some t \<Longrightarrow> timeo_fd t = fd \<Longrightarrow> sign_timeo x = Some s"
    and sign: "\<And>s. sign_timeo x = Some s \<Longrightarrow> ec_context x \<noteq> None \<and> (\<exists>t. heap_map h s = Some t \<and> timeo_fd t = fd)"
    and k: "fds k = (if ec_context x = None then fds (kernel d) - {fd} else insert fd (fds (kernel d)))"
    and d': "d' = d\<lparr>heap_timeo := h, fd_to_event_ctx := (fd_to_event_ctx d)[fd := x], kernel := k\<rparr>"
  shows "driver_ok fds d' \<and> watch_of d' = (watch_of d)(fd := slot_value h x)"
proof -
  let ?cs = "fd_to_event_ctx d"
  have at: "ctx_at d' i = (if i = fd then x else ?cs ! i)" for i using len by (simp add: d')
  have hd: "heap_timeo d' = h" "length (fd_to_event_ctx d') = length ?cs" "kernel d' = k" "driver_init d'"
    using init by (simp_all add: d')
  have sel: "(if i = fd then x else ?cs ! i) = ?cs ! i" if "i \<noteq> fd" for i using that by simp
  have entry: "\<exists>t. heap_map h s = Some t \<and> heap_map (heap_timeo d) s = Some t \<and> timeo_fd t = i"
    if "i \<noteq> fd" "i < length ?cs" "sign_timeo (?cs ! i) = Some s" for i s
    using driver_okD(3) [OF ok that(2,3)] others that(1) by blast
  have watch: "watch_of d' = (watch_of d)(fd := slot_value h x)"
  proof
    fix i
    show "watch_of d' i = ((watch_of d)(fd := slot_value h x)) i"
    proof (cases "i = fd \<or> \<not> i < length ?cs")
      case True
      then show ?thesis using len by (auto simp: watch_of_slot hd at)
    next
      case False
      then have "slot_value h (?cs ! i) = slot_value (heap_timeo d) (?cs ! i)"
        using entry [of i] by (cases "sign_timeo (?cs ! i)") (auto simp: slot_value_def split: option.split)
      with False show ?thesis by (simp add: watch_of_slot hd at)
    qed
  qed
  have "fds k = dom (watch_of d')"
    unfolding watch using k driver_okD(5) [OF ok init] by (auto simp: slot_value_def split: option.splits if_splits)
  then have dom: "fds k = {i. i < length ?cs \<and> ec_context (if i = fd then x else ?cs ! i) \<noteq> None}"
    unfolding watch_dom_eq hd at .
  have "driver_ok fds d'"
    unfolding driver_ok_def hd at
  proof (intro conjI allI impI)
    fix i s assume i: "i < length ?cs" "sign_timeo (if i = fd then x else ?cs ! i) = Some s"
    show "ec_context (if i = fd then x else ?cs ! i) \<noteq> None" "\<exists>t. heap_map h s = Some t \<and> timeo_fd t = i"
      using sign i entry [of i s] driver_okD(3) [OF ok i(1), of s] by (cases "i = fd"; auto)+
  next
    fix s t assume t: "heap_map h s = Some t"
    show "timeo_fd t < length ?cs" "sign_timeo (if timeo_fd t = fd then x else ?cs ! timeo_fd t) = Some s"
      using len mine [OF t] others [of t s] t driver_okD(4) [OF ok, of s t] by (cases "timeo_fd t = fd"; auto)+
  qed (use heap dom hd(4) in simp_all)
  with watch show ?thesis by simp
qed

text \<open>The entries of other descriptors do not have the sign of this one.\<close>

lemma other_sign:
  assumes "driver_ok fds d" and "heap_map (heap_timeo d) s' = Some t'" and "s' \<noteq> s" and "sign_timeo (ctx_at d fd) = Some s"
  shows "timeo_fd t' \<noteq> fd"
  using driver_okD(4) [OF assms(1,2)] assms(3,4) by auto

section \<open>Deleting\<close>

lemma ctx_filled:
  fixes x :: "'c event_ctx"
  shows "x\<lparr>ec_context := c, sign_timeo := s\<rparr> = \<lparr>ec_context = c, sign_timeo = s\<rparr>"
    and "x\<lparr>sign_timeo := s, ec_context := c\<rparr> = \<lparr>ec_context = c, sign_timeo = s\<rparr>"
  by (cases x; simp)+

lemma RegEventDel_ok:
  assumes ok: "driver_ok fds d" and works: "api_works api fds" and fd: "fd \<in> dom (watch_of d)" and init: "driver_init d"
  obtains d' where "RegEventDel api d fd = Inr (True, d')" "driver_ok fds d'" "watch_of d' = (watch_of d)(fd := None)"
    "driver_init d'" "length (fd_to_event_ctx d') = length (fd_to_event_ctx d)"
    "heap_Size (heap_timeo d') = heap_Size (heap_timeo d) - (if sign_timeo (ctx_at d fd) = None then 0 else 1)"
proof -
  let ?cs = "fd_to_event_ctx d" and ?h = "heap_timeo d" and ?x = "\<lparr>ec_context = None, sign_timeo = None\<rparr>"
  have len: "fd < length ?cs" and k: "fd \<in> fds (kernel d)"
    using fd driver_okD(5) [OF ok init] by (auto simp: watch_dom)
  have "\<exists>h'. erase_timer d fd = Inr (d\<lparr>heap_timeo := h', fd_to_event_ctx := ?cs[fd := (?cs ! fd)\<lparr>sign_timeo := None\<rparr>]\<rparr>)
      \<and> heap_of kMinHeap expire_time_ms h'
      \<and> (\<forall>s t. heap_map h' s = Some t \<longleftrightarrow> heap_map ?h s = Some t \<and> timeo_fd t \<noteq> fd)
      \<and> heap_Size h' = heap_Size ?h - (if sign_timeo (ctx_at d fd) = None then 0 else 1)"
  proof (cases "sign_timeo (?cs ! fd)")
    case None
    then have "?cs[fd := (?cs ! fd)\<lparr>sign_timeo := None\<rparr>] = ?cs" using len by (simp add: list_update_same_conv)
    moreover have "timeo_fd t \<noteq> fd" if "heap_map ?h s = Some t" for s t
      using driver_okD(4) [OF ok that] None by auto
    ultimately show ?thesis using None driver_okD(1) [OF ok] by (intro exI [of _ ?h]) (auto simp: erase_timer_def)
  next
    case (Some s)
    then obtain t where t: "heap_map ?h s = Some t" "timeo_fd t = fd" using driver_okD(3) [OF ok len] by blast
    then have live: "s \<in> live_signs ?h" by (simp add: heap_map_def split: if_splits)
    from heap_Erase_correct [OF driver_okD(2) [OF ok] live] obtain h' where
      h': "heap_Erase ?h s = Inr h'" "heap_inv h'" "heap_map h' = (heap_map ?h)(s := None)"
      "num_items h' = num_items ?h - 1" "same_class ?h h'" by blast
    have others: "timeo_fd t' \<noteq> fd" if "heap_map ?h s' = Some t'" "s' \<noteq> s" for s' t'
      using driver_okD(4) [OF ok that(1)] that(2) Some by auto
    have "heap_map h' s' = Some t' \<longleftrightarrow> heap_map ?h s' = Some t' \<and> timeo_fd t' \<noteq> fd" for s' t'
      using t others [of s' t'] unfolding h'(3) by (cases "s' = s") auto
    then have "\<forall>s' t'. heap_map h' s' = Some t' \<longleftrightarrow> heap_map ?h s' = Some t' \<and> timeo_fd t' \<noteq> fd" by blast
    moreover have "erase_timer d fd = Inr (d\<lparr>heap_timeo := h', fd_to_event_ctx := ?cs[fd := (?cs ! fd)\<lparr>sign_timeo := None\<rparr>]\<rparr>)"
      using h'(1) Some by (simp add: erase_timer_def set_sign_def)
    moreover have "heap_of kMinHeap expire_time_ms h'" using heap_ofI [OF driver_okD(1) [OF ok] h'(2,5)] .
    moreover have "heap_Size h' = heap_Size ?h - 1" using h'(4) by (simp add: heap_Size_def)
    ultimately show ?thesis using Some by auto
  qed
  then obtain h' where h': "erase_timer d fd = Inr (d\<lparr>heap_timeo := h', fd_to_event_ctx := ?cs[fd := (?cs ! fd)\<lparr>sign_timeo := None\<rparr>]\<rparr>)"
    "heap_of kMinHeap expire_time_ms h'"
    "\<And>s t. heap_map h' s = Some t \<longleftrightarrow> heap_map ?h s = Some t \<and> timeo_fd t \<noteq> fd"
    "heap_Size h' = heap_Size ?h - (if sign_timeo (ctx_at d fd) = None then 0 else 1)" by blast
  let ?d1 = "d\<lparr>heap_timeo := h', fd_to_event_ctx := ?cs[fd := (?cs ! fd)\<lparr>sign_timeo := None\<rparr>]\<rparr>"
  obtain k' where k': "locked_ctl api CtlDel fd 0 ?d1 = (Some True, ?d1\<lparr>kernel := k'\<rparr>)" "fds k' = fds (kernel d) - {fd}"
    using locked_ctl_works(3) [OF works, of fd ?d1] k by auto
  let ?d2 = "d\<lparr>heap_timeo := h', fd_to_event_ctx := ?cs[fd := ?x], kernel := k'\<rparr>"
  have "set_context (?d1\<lparr>kernel := k'\<rparr>) fd None = ?d2"
    using len by (simp add: set_context_def ctx_filled)
  then have reg: "RegEventDel api d fd = Inr (True, ?d2)" using len h'(1) k'(1) by (simp add: RegEventDel_def)
  have "driver_ok fds ?d2 \<and> watch_of ?d2 = (watch_of d)(fd := slot_value h' ?x)"
    by (rule slot_update [OF ok init len h'(2) _ _ _ _ refl]) (use h'(3) k'(2) in auto)
  then show ?thesis using reg h'(4) init by (intro that [of ?d2]) (simp_all add: slot_value_def)
qed

section \<open>Timeouts\<close>

definition expired :: "int \<Rightarrow> (nat \<rightharpoonup> 'c \<times> int option) \<Rightarrow> nat set" where
  "expired now M = {fd. \<exists>c e. M fd = Some (c, Some e) \<and> e < now}"

definition deadline_of :: "(nat \<rightharpoonup> 'c \<times> int option) \<Rightarrow> nat \<Rightarrow> int" where
  "deadline_of M fd = the (snd (the (M fd)))"

definition context_of :: "(nat \<rightharpoonup> 'c \<times> int option) \<Rightarrow> nat \<Rightarrow> 'c" where
  "context_of M fd = fst (the (M fd))"

text \<open>The contexts whose deadline has passed, earliest first, and the rest.\<close>

definition hands_out :: "int \<Rightarrow> (nat \<rightharpoonup> 'c \<times> int option) \<Rightarrow> 'c list \<Rightarrow> (nat \<rightharpoonup> 'c \<times> int option) \<Rightarrow> bool" where
  "hands_out now M cs M' \<longleftrightarrow> (\<exists>fs. distinct fs \<and> set fs = expired now M
     \<and> sorted (map (deadline_of M) fs) \<and> cs = map (context_of M) fs \<and> M' = M |` (- set fs))"

lemma heap_top_least:
  assumes "heap_of kMinHeap expire_time_ms h" and "heap_Top h = Some t"
  shows "\<exists>s. heap_map h s = Some t" and "heap_map h s' = Some t' \<Longrightarrow> expire_time_ms t \<le> expire_time_ms t'"
proof -
  have n: "0 < num_items h" using assms(2) by (auto simp: heap_Top_def split: if_splits)
  have inv: "heap_inv h" using assms(1) by (simp add: heap_of_def)
  from top_least_sign [OF assms(1) n] Top_least(1) [OF inv n] assms(2)
  have l: "heap_map h (heap_items h ! 1) = Some t"
    "\<forall>q w. heap_map h q = Some w \<longrightarrow> \<not> before kMinHeap expire_time_ms w t"
    by (auto simp: least_sign_def)
  then show "\<exists>s. heap_map h s = Some t" by blast
  show "heap_map h s' = Some t' \<Longrightarrow> expire_time_ms t \<le> expire_time_ms t'"
    using l(2) by (auto simp: before_def not_less)
qed

lemma heap_top_none: "heap_inv h \<Longrightarrow> heap_Top h = None \<Longrightarrow> heap_map h = Map.empty"
  using heap_empty_iff [of h] by (auto simp: heap_Top_def split: if_splits)

lemma no_more_expired:
  assumes "driver_ok fds d" and "heap_Top (heap_timeo d) = None \<or> (\<exists>t. heap_Top (heap_timeo d) = Some t \<and> \<not> expire_time_ms t < now)"
  shows "expired now (watch_of d) = {}"
proof -
  have "\<not> e < now" if w: "watch_of d fd = Some (c, Some e)" for fd c e
  proof -
    from watched_entry [OF assms(1) w] obtain s t where t: "heap_map (heap_timeo d) s = Some t"
      "expire_time_ms t = e" by metis
    from assms(2) show ?thesis
    proof
      assume "heap_Top (heap_timeo d) = None"
      then show ?thesis using heap_top_none [OF driver_okD(2) [OF assms(1)]] t by simp
    next
      assume "\<exists>t. heap_Top (heap_timeo d) = Some t \<and> \<not> expire_time_ms t < now"
      then show ?thesis using heap_top_least(2) [OF driver_okD(1) [OF assms(1)] _ t(1)] t(2) by fastforce
    qed
  qed
  then show ?thesis by (auto simp: expired_def)
qed

lemma timeouts_loop_ok:
  assumes works: "api_works api fds"
  shows "driver_ok fds d \<Longrightarrow> driver_init d \<Longrightarrow> heap_Size (heap_timeo d) < f \<Longrightarrow>
    \<exists>cs d'. timeouts_loop api now f d acc = Inr (acc @ cs, d') \<and> driver_ok fds d' \<and> driver_init d'
      \<and> hands_out now (watch_of d) cs (watch_of d')"
proof (induction f arbitrary: d acc)
  case 0
  then show ?case by simp
next
  case (Suc f)
  let ?M = "watch_of d"
  show ?case
  proof (cases "heap_Top (heap_timeo d) = None \<or> (\<exists>t. heap_Top (heap_timeo d) = Some t \<and> \<not> expire_time_ms t < now)")
    case True
    then have "timeouts_loop api now (Suc f) d acc = Inr (acc @ [], d)" by auto
    moreover have "hands_out now ?M [] ?M"
      using no_more_expired [OF Suc.prems(1) True] by (simp add: hands_out_def restrict_map_def)
    ultimately show ?thesis using Suc.prems(1,2) by blast
  next
    case False
    then obtain t where t: "heap_Top (heap_timeo d) = Some t" "expire_time_ms t < now" by auto
    note least = heap_top_least [OF driver_okD(1) [OF Suc.prems(1)] t(1)]
    from least(1) obtain s where s: "heap_map (heap_timeo d) s = Some t" ..
    let ?fd = "timeo_fd t"
    from entry_watched [OF Suc.prems(1) s] obtain c where c: "?M ?fd = Some (c, Some (expire_time_ms t))" ..
    have sign: "?fd < length (fd_to_event_ctx d)" "sign_timeo (ctx_at d ?fd) = Some s"
      using driver_okD(4) [OF Suc.prems(1) s] by auto
    have ctx: "ec_context (ctx_at d ?fd) = Some c" using c sign by (auto simp: watch_of_def split: option.splits)
    have "?fd \<in> dom ?M" using c by blast
    from RegEventDel_ok [OF Suc.prems(1) works this Suc.prems(2)] obtain d1 where
      d1: "RegEventDel api d ?fd = Inr (True, d1)" "driver_ok fds d1" "watch_of d1 = ?M(?fd := None)" "driver_init d1"
      "heap_Size (heap_timeo d1) = heap_Size (heap_timeo d) - (if sign_timeo (ctx_at d ?fd) = None then 0 else 1)"
      by metis
    have "heap_Top (heap_timeo d) \<noteq> None" using t(1) by simp
    then have "0 < heap_Size (heap_timeo d)" by (auto simp: heap_Top_def heap_Size_def split: if_splits)
    then have "heap_Size (heap_timeo d1) < f" using d1(5) sign(2) Suc.prems(3) by simp
    from Suc.IH [OF d1(2,4) this, of "acc @ [c]"] obtain cs d' where
      d': "timeouts_loop api now f d1 (acc @ [c]) = Inr ((acc @ [c]) @ cs, d')" "driver_ok fds d'" "driver_init d'"
      "hands_out now (watch_of d1) cs (watch_of d')" by blast
    have "timeouts_loop api now (Suc f) d acc = Inr (acc @ (c # cs), d')"
      using t sign(1) ctx d1(1) d'(1) by simp
    moreover have "hands_out now ?M (c # cs) (watch_of d')"
    proof -
      let ?M1 = "?M(?fd := None)"
      obtain fs where fs: "distinct fs" "set fs = expired now ?M1" "sorted (map (deadline_of ?M1) fs)"
        "cs = map (context_of ?M1) fs" "watch_of d' = ?M1 |` (- set fs)"
        using d'(4) d1(3) by (auto simp: hands_out_def)
      have notin: "?fd \<notin> set fs" using fs(2) by (simp add: expired_def)
      have exp: "expired now ?M = insert ?fd (set fs)" using c t(2) fs(2) by (auto simp: expired_def split: if_splits)
      have same: "map (deadline_of ?M1) fs = map (deadline_of ?M) fs" "map (context_of ?M1) fs = map (context_of ?M) fs"
        using notin by (auto simp: deadline_of_def context_of_def)
      have "expire_time_ms t \<le> deadline_of ?M i" if i: "i \<in> set fs" for i
      proof -
        obtain c' e where e: "?M i = Some (c', Some e)" using i fs(2) by (auto simp: expired_def split: if_splits)
        from watched_entry [OF Suc.prems(1) e] obtain s' t' where
          "heap_map (heap_timeo d) s' = Some t'" "expire_time_ms t' = e" by metis
        then show ?thesis using least(2) [of s' t'] e by (simp add: deadline_of_def)
      qed
      then have "sorted (map (deadline_of ?M) (?fd # fs))" using fs(3) same c by (simp add: deadline_of_def)
      moreover have "watch_of d' = ?M |` (- set (?fd # fs))"
        unfolding fs(5) by (auto simp: restrict_map_def fun_eq_iff)
      moreover have "c # cs = map (context_of ?M) (?fd # fs)" using c fs(4) same(2) by (simp add: context_of_def)
      ultimately show ?thesis unfolding hands_out_def
        using notin fs(1) exp by (intro exI [of _ "?fd # fs"]) simp
    qed
    ultimately show ?thesis using d'(2,3) by blast
  qed
qed

section \<open>Clearing\<close>

lemma clear_loop_ok:
  assumes works: "api_works api fds"
  shows "driver_ok fds d \<Longrightarrow> driver_init d \<Longrightarrow> distinct is \<Longrightarrow> set is \<subseteq> {..< length (fd_to_event_ctx d)} \<Longrightarrow>
    \<exists>d'. clear_loop api is d acc = Inr (acc @ map (context_of (watch_of d)) (filter (\<lambda>i. i \<in> dom (watch_of d)) is), d')
      \<and> driver_ok fds d' \<and> driver_init d' \<and> watch_of d' = watch_of d |` (- set is)"
proof (induction "is" arbitrary: d acc)
  case Nil
  then show ?case by simp
next
  case (Cons i js)
  have i: "i < length (fd_to_event_ctx d)" "i \<notin> set js" "distinct js" using Cons.prems by auto
  show ?case
  proof (cases "i \<in> dom (watch_of d)")
    case False
    then have c: "ec_context (ctx_at d i) = None" "watch_of d i = None" using i(1) watch_dom [of i d] by auto
    have "watch_of d |` (- set (i # js)) = watch_of d |` (- set js)"
      using c(2) by (auto simp: restrict_map_def fun_eq_iff)
    with c False Cons.IH [OF Cons.prems(1,2) i(3)] Cons.prems(4) show ?thesis by simp
  next
    case True
    then obtain c x where c: "watch_of d i = Some (c, x)" by auto
    then have ctx: "ec_context (ctx_at d i) = Some c" by (auto simp: watch_of_def split: if_splits option.splits)
    from RegEventDel_ok [OF Cons.prems(1) works True Cons.prems(2)] obtain d1 where
      d1: "RegEventDel api d i = Inr (True, d1)" "driver_ok fds d1" "watch_of d1 = (watch_of d)(i := None)" "driver_init d1"
      "length (fd_to_event_ctx d1) = length (fd_to_event_ctx d)" by metis
    from Cons.IH [OF d1(2,4) i(3), of "acc @ [c]"] Cons.prems(4) d1(5) obtain d' where
      d': "clear_loop api js d1 (acc @ [c])
        = Inr ((acc @ [c]) @ map (context_of (watch_of d1)) (filter (\<lambda>i. i \<in> dom (watch_of d1)) js), d')"
      "driver_ok fds d'" "driver_init d'" "watch_of d' = watch_of d1 |` (- set js)" by auto
    have "filter (\<lambda>j. j \<in> dom (watch_of d1)) js = filter (\<lambda>j. j \<in> dom (watch_of d)) js"
      using i(2) d1(3) by (intro filter_cong) auto
    moreover have "map (context_of (watch_of d1)) (filter (\<lambda>j. j \<in> dom (watch_of d)) js)
        = map (context_of (watch_of d)) (filter (\<lambda>j. j \<in> dom (watch_of d)) js)"
      using i(2) d1(3) by (auto simp: context_of_def)
    moreover have "watch_of d' = watch_of d |` (- set (i # js))"
      unfolding d'(4) d1(3) by (auto simp: restrict_map_def fun_eq_iff)
    ultimately show ?thesis using d' d1(1) ctx True c by (simp add: context_of_def)
  qed
qed

section \<open>Registering\<close>

lemma driver_raii_ok:
  assumes "driver_ok fds d" and "api_works api fds"
  obtains d1 where "driver_raii api d = (True, d1)" "driver_ok fds d1" "driver_init d1" "watch_of d1 = watch_of d"
    "heap_timeo d1 = heap_timeo d" "fd_to_event_ctx d1 = fd_to_event_ctx d"
proof (cases "driver_init d")
  case True
  with assms(1) show ?thesis by (intro that [of d]) (simp_all add: driver_raii_def)
next
  case False
  obtain b k where k: "epoll_create api (kernel d) = (b, k)" by (cases "epoll_create api (kernel d)")
  then have w: "b" "fds k = {}" using assms(2) unfolding api_works_def by (metis fst_conv snd_conv)+
  let ?d1 = "d\<lparr>kernel := k, driver_init := True\<rparr>"
  have "fd_to_event_ctx d = []" using assms(1) False by (simp add: driver_ok_def)
  then have "driver_ok fds ?d1" "watch_of ?d1 = watch_of d"
    using assms(1) w(2) by (simp_all add: driver_ok_def watch_of_def fun_eq_iff)
  with False k w(1) show ?thesis by (intro that [of ?d1]) (simp_all add: driver_raii_def driver_Init_def)
qed

lemma grow_ok:
  assumes "driver_ok fds d" and "driver_init d"
  shows "driver_ok fds (grow_ctxs d fd)" and "watch_of (grow_ctxs d fd) = watch_of d"
    and "fd < length (fd_to_event_ctx (grow_ctxs d fd))" and "driver_init (grow_ctxs d fd)"
    and "heap_timeo (grow_ctxs d fd) = heap_timeo d" and "kernel (grow_ctxs d fd) = kernel d"
proof -
  let ?d' = "grow_ctxs d fd" and ?e = "\<lparr>ec_context = None, sign_timeo = None\<rparr>"
  have at: "ctx_at ?d' i = (if i < length (fd_to_event_ctx d) then ctx_at d i else ?e)"
    if "i < length (fd_to_event_ctx ?d')" for i
    using that by (auto simp: grow_ctxs_def Let_def nth_append split: if_splits)
  have hd: "heap_timeo ?d' = heap_timeo d" "kernel ?d' = kernel d" "driver_init ?d' = driver_init d"
    "length (fd_to_event_ctx d) \<le> length (fd_to_event_ctx ?d')"
    by (simp_all add: grow_ctxs_def Let_def)
  show "watch_of ?d' = watch_of d"
  proof
    fix i show "watch_of ?d' i = watch_of d i"
      using at [of i] hd by (cases "i < length (fd_to_event_ctx ?d')") (auto simp: watch_of_slot slot_value_def)
  qed
  then have "fds (kernel ?d') = dom (watch_of ?d')" using driver_okD(5) [OF assms] hd by simp
  then have K: "fds (kernel ?d') = {i. i < length (fd_to_event_ctx ?d') \<and> ec_context (ctx_at ?d' i) \<noteq> None}"
    unfolding watch_dom_eq .
  show "driver_ok fds ?d'"
    unfolding driver_ok_def
  proof (intro conjI allI impI)
    fix i s assume i: "i < length (fd_to_event_ctx ?d')" "sign_timeo (ctx_at ?d' i) = Some s"
    then have "i < length (fd_to_event_ctx d)" "sign_timeo (ctx_at d i) = Some s"
      using at [OF i(1)] by (auto split: if_splits)
    with driver_okD(3) [OF assms(1) this] at [OF i(1)]
    show "ec_context (ctx_at ?d' i) \<noteq> None" "\<exists>t. heap_map (heap_timeo ?d') s = Some t \<and> timeo_fd t = i"
      by (simp_all add: hd(1))
  next
    fix s t assume "heap_map (heap_timeo ?d') s = Some t"
    with driver_okD(4) [OF assms(1), of s t] hd at [of "timeo_fd t"]
    show "timeo_fd t < length (fd_to_event_ctx ?d')" "sign_timeo (ctx_at ?d' (timeo_fd t)) = Some s" by auto
  qed (use K hd assms driver_okD(1) [OF assms(1)] in simp_all)
  show "fd < length (fd_to_event_ctx ?d')" by (simp add: grow_ctxs_def Let_def)
  show "driver_init ?d'" "heap_timeo ?d' = heap_timeo d" "kernel ?d' = kernel d" using hd assms(2) by simp_all
qed

text \<open>A deadline put into the heap for a descriptor that has none.\<close>

lemma insert_timer_ok:
  assumes ok: "driver_ok fds d" and room: "heap_Size (heap_timeo d) < max_heap"
  obtains s h where "heap_Insert (heap_timeo d) \<lparr>expire_time_ms = e, timeo_fd = fd\<rparr> = Inr (s, h)"
    "heap_of kMinHeap expire_time_ms h" "heap_map h = (heap_map (heap_timeo d))(s \<mapsto> \<lparr>expire_time_ms = e, timeo_fd = fd\<rparr>)"
    "heap_map (heap_timeo d) s = None"
proof -
  have r: "num_items (heap_timeo d) + 1 < 2 ^ 27" using room by (simp add: heap_Size_def max_heap_def)
  from heap_Insert_correct [OF driver_okD(2) [OF ok] r] obtain s h where
    "heap_Insert (heap_timeo d) \<lparr>expire_time_ms = e, timeo_fd = fd\<rparr> = Inr (s, h)" "heap_inv h"
    "s \<notin> live_signs (heap_timeo d)" "heap_map h = (heap_map (heap_timeo d))(s \<mapsto> \<lparr>expire_time_ms = e, timeo_fd = fd\<rparr>)"
    "same_class (heap_timeo d) h" by blast
  with heap_ofI [OF driver_okD(1) [OF ok]] that show ?thesis by (simp add: heap_map_def)
qed

lemma slot_same: "fd < length xs \<Longrightarrow> xs[fd := (xs ! fd)\<lparr>sign_timeo := sign_timeo (xs ! fd)\<rparr>] = xs"
  by (simp add: list_update_same_conv)

lemma RegEvent_add_ok:
  assumes ok: "driver_ok fds d" and works: "api_works api fds" and new: "watch_of d fd = None"
    and room: "heap_Size (heap_timeo d) < max_heap"
  obtains d' where "RegEvent api now d fd kAddEvent dir (Some c) timeo = Inr (True, d')" "driver_ok fds d'"
    "watch_of d' = (watch_of d)(fd \<mapsto> (c, if 0 \<le> timeo then Some (now + timeo) else None))" "driver_init d'"
proof -
  obtain d1 where d1: "driver_raii api d = (True, d1)" "driver_ok fds d1" "driver_init d1" "watch_of d1 = watch_of d"
    "heap_timeo d1 = heap_timeo d" using driver_raii_ok [OF ok works] by metis
  define d2 where "d2 = grow_ctxs d1 fd"
  note g = grow_ok [OF d1(2,3), of fd, folded d2_def]
  have none: "ec_context (ctx_at d2 fd) = None" using new g(2,3) d1(4) watch_dom [of fd d2] by auto
  then have nosign: "sign_timeo (ctx_at d2 fd) = None" using driver_okD(3) [OF g(1,3)] by (cases "sign_timeo (ctx_at d2 fd)") auto
  have nomine: "timeo_fd t \<noteq> fd" if "heap_map (heap_timeo d2) s = Some t" for s t
    using driver_okD(4) [OF g(1) that] nosign by auto
  have "\<exists>h x. add_timer now (set_context d2 fd (Some c)) fd timeo
        = Inr (d2\<lparr>heap_timeo := h, fd_to_event_ctx := (fd_to_event_ctx d2)[fd := x]\<rparr>)
      \<and> heap_of kMinHeap expire_time_ms h \<and> ec_context x = Some c
      \<and> (\<forall>s t. timeo_fd t \<noteq> fd \<longrightarrow> (heap_map h s = Some t \<longleftrightarrow> heap_map (heap_timeo d2) s = Some t))
      \<and> (\<forall>s t. heap_map h s = Some t \<longrightarrow> timeo_fd t = fd \<longrightarrow> sign_timeo x = Some s)
      \<and> (\<forall>s. sign_timeo x = Some s \<longrightarrow> (\<exists>t. heap_map h s = Some t \<and> timeo_fd t = fd))
      \<and> slot_value h x = Some (c, if 0 \<le> timeo then Some (now + timeo) else None)"
  proof (cases "0 \<le> timeo")
    case False
    then show ?thesis using g(3) nomine driver_okD(1) [OF g(1)] nosign
      by (intro exI [of _ "heap_timeo d2"] exI [of _ "(ctx_at d2 fd)\<lparr>ec_context := Some c, sign_timeo := None\<rparr>"])
        (simp add: add_timer_def set_sign_def set_context_def slot_value_def)
  next
    case True
    have "heap_Size (heap_timeo d2) < max_heap" using room d1(5) g(5) by simp
    from insert_timer_ok [OF g(1) this, of "now + timeo" fd] obtain s h where
      h: "heap_Insert (heap_timeo d2) \<lparr>expire_time_ms = now + timeo, timeo_fd = fd\<rparr> = Inr (s, h)"
      "heap_of kMinHeap expire_time_ms h"
      "heap_map h = (heap_map (heap_timeo d2))(s \<mapsto> \<lparr>expire_time_ms = now + timeo, timeo_fd = fd\<rparr>)"
      "heap_map (heap_timeo d2) s = None" by metis
    show ?thesis
      by (intro exI [of _ h] exI [of _ "(ctx_at d2 fd)\<lparr>ec_context := Some c, sign_timeo := Some s\<rparr>"] conjI allI impI)
        (use True h g(3) nomine in \<open>auto simp: add_timer_def insert_timer_def set_sign_def set_context_def slot_value_def
          split: if_splits\<close>)
  qed
  then obtain h x where hx: "add_timer now (set_context d2 fd (Some c)) fd timeo
        = Inr (d2\<lparr>heap_timeo := h, fd_to_event_ctx := (fd_to_event_ctx d2)[fd := x]\<rparr>)"
      "heap_of kMinHeap expire_time_ms h" "ec_context x = Some c"
      "\<And>s t. timeo_fd t \<noteq> fd \<Longrightarrow> (heap_map h s = Some t \<longleftrightarrow> heap_map (heap_timeo d2) s = Some t)"
      "\<And>s t. heap_map h s = Some t \<Longrightarrow> timeo_fd t = fd \<Longrightarrow> sign_timeo x = Some s"
      "\<And>s. sign_timeo x = Some s \<Longrightarrow> \<exists>t. heap_map h s = Some t \<and> timeo_fd t = fd"
      "slot_value h x = Some (c, if 0 \<le> timeo then Some (now + timeo) else None)" by blast
  let ?d3 = "d2\<lparr>heap_timeo := h, fd_to_event_ctx := (fd_to_event_ctx d2)[fd := x]\<rparr>"
  have "fd \<notin> fds (kernel ?d3)" using driver_okD(5) [OF g(1,4)] new g(2) d1(4) by auto
  then obtain k where k: "\<And>ev. locked_ctl api CtlAdd fd ev ?d3 = (Some True, ?d3\<lparr>kernel := k ev\<rparr>)"
    "\<And>ev. fds (k ev) = insert fd (fds (kernel ?d3))"
    using locked_ctl_works(1) [OF works, of fd ?d3] by metis
  let ?ev = "if dir = kIn then event_in d2 else event_out d2"
  let ?d4 = "d2\<lparr>heap_timeo := h, fd_to_event_ctx := (fd_to_event_ctx d2)[fd := x], kernel := k ?ev\<rparr>"
  have "RegEvent api now d fd kAddEvent dir (Some c) timeo = Inr (True, ?d4)"
    using d1(1) hx(1) k(1) by (simp add: RegEvent_def reg_ctl_def flip: d2_def)
  moreover have "driver_ok fds ?d4 \<and> watch_of ?d4 = (watch_of d2)(fd := slot_value h x)"
    by (rule slot_update [OF g(1,4,3) hx(2) hx(4,5) _ _ refl]) (use hx(3,6) k(2) in auto)
  ultimately show ?thesis using that hx(7) g(2,4) d1(4) by simp
qed

lemma RegEvent_mod_ok:
  assumes ok: "driver_ok fds d" and works: "api_works api fds" and old: "watch_of d fd = Some (c, e)"
    and room: "heap_Size (heap_timeo d) < max_heap"
  obtains d' where "RegEvent api now d fd kModEvent dir ctx timeo = Inr (True, d')" "driver_ok fds d'"
    "watch_of d' = (watch_of d)(fd \<mapsto> (c, if 0 \<le> timeo then Some (now + timeo) else e))"
proof -
  obtain d1 where d1: "driver_raii api d = (True, d1)" "driver_ok fds d1" "driver_init d1" "watch_of d1 = watch_of d"
    "heap_timeo d1 = heap_timeo d" using driver_raii_ok [OF ok works] by metis
  define d2 where "d2 = grow_ctxs d1 fd"
  note g = grow_ok [OF d1(2,3), of fd, folded d2_def]
  let ?h = "heap_timeo d2" and ?x = "ctx_at d2 fd" and ?cs = "fd_to_event_ctx d2"
  let ?t = "\<lparr>expire_time_ms = now + timeo, timeo_fd = fd\<rparr>"
  have val: "slot_value ?h ?x = Some (c, e)" using old g(2,3) d1(4) watch_of_slot [of d2 fd] by simp
  then have c: "ec_context ?x = Some c" by (auto simp: slot_value_def split: option.splits)
  have "\<exists>h x. mod_timer now d2 fd timeo = Inr (d2\<lparr>heap_timeo := h, fd_to_event_ctx := ?cs[fd := x]\<rparr>)
      \<and> heap_of kMinHeap expire_time_ms h \<and> ec_context x = Some c
      \<and> (\<forall>s t. timeo_fd t \<noteq> fd \<longrightarrow> (heap_map h s = Some t \<longleftrightarrow> heap_map ?h s = Some t))
      \<and> (\<forall>s t. heap_map h s = Some t \<longrightarrow> timeo_fd t = fd \<longrightarrow> sign_timeo x = Some s)
      \<and> (\<forall>s. sign_timeo x = Some s \<longrightarrow> (\<exists>t. heap_map h s = Some t \<and> timeo_fd t = fd))
      \<and> slot_value h x = Some (c, if 0 \<le> timeo then Some (now + timeo) else e)"
  proof (cases "0 \<le> timeo")
    case False
    have "sign_timeo ?x = Some s" if "heap_map ?h s = Some t" "timeo_fd t = fd" for s t
      using driver_okD(4) [OF g(1) that(1)] that(2) by simp
    then show ?thesis using False c val driver_okD(1) [OF g(1)] driver_okD(3) [OF g(1,3)]
      by (intro exI [of _ ?h] exI [of _ ?x] conjI) (simp_all add: mod_timer_def)
  next
    case True
    show ?thesis
    proof (cases "sign_timeo ?x")
      case None
      then have nomine: "timeo_fd t \<noteq> fd" if "heap_map ?h s = Some t" for s t
        using driver_okD(4) [OF g(1) that] by auto
      have "heap_Size ?h < max_heap" using room d1(5) g(5) by simp
      from insert_timer_ok [OF g(1) this, of "now + timeo" fd] obtain s h where
        h: "heap_Insert ?h ?t = Inr (s, h)" "heap_of kMinHeap expire_time_ms h"
        "heap_map h = (heap_map ?h)(s \<mapsto> ?t)" "heap_map ?h s = None" by metis
      show ?thesis
        by (intro exI [of _ h] exI [of _ "?x\<lparr>sign_timeo := Some s\<rparr>"] conjI allI impI)
          (use True None c h nomine in \<open>auto simp: mod_timer_def insert_timer_def set_sign_def slot_value_def
            split: if_splits\<close>)
    next
      case (Some s)
      then obtain t where t: "heap_map ?h s = Some t" "timeo_fd t = fd" using driver_okD(3) [OF g(1,3)] by blast
      then have "s \<in> live_signs ?h" by (simp add: heap_map_def split: if_splits)
      from Update_correct [OF driver_okD(2) [OF g(1)] this, of ?t] obtain h where
        h: "heap_Update ?h s ?t = Inr h" "heap_inv h" "heap_map h = (heap_map ?h)(s \<mapsto> ?t)" "same_class ?h h" by blast
      have other: "timeo_fd t' \<noteq> fd" if "heap_map ?h s' = Some t'" "s' \<noteq> s" for s' t'
        using other_sign [OF g(1) that Some] .
      have "mod_timer now d2 fd timeo = Inr (d2\<lparr>heap_timeo := h, fd_to_event_ctx := ?cs[fd := ?x]\<rparr>)"
        using True Some h(1) by (simp add: mod_timer_def)
      moreover have "heap_of kMinHeap expire_time_ms h" using heap_ofI [OF driver_okD(1) [OF g(1)] h(2,4)] .
      moreover have "heap_map h s' = Some t' \<longleftrightarrow> heap_map ?h s' = Some t'" if "timeo_fd t' \<noteq> fd" for s' t'
        using that t by (auto simp: h(3))
      moreover have "sign_timeo ?x = Some s'" if "heap_map h s' = Some t'" "timeo_fd t' = fd" for s' t'
        using that other [of s' t'] Some by (cases "s' = s") (auto simp: h(3))
      moreover have "\<exists>t. heap_map h s' = Some t \<and> timeo_fd t = fd" if "sign_timeo ?x = Some s'" for s'
        using that Some by (simp add: h(3))
      moreover have "slot_value h ?x = Some (c, if 0 \<le> timeo then Some (now + timeo) else e)"
        using True Some c by (simp add: slot_value_def h(3))
      ultimately show ?thesis using c by blast
    qed
  qed
  then obtain h x where hx: "mod_timer now d2 fd timeo = Inr (d2\<lparr>heap_timeo := h, fd_to_event_ctx := ?cs[fd := x]\<rparr>)"
      "heap_of kMinHeap expire_time_ms h" "ec_context x = Some c"
      "\<And>s t. timeo_fd t \<noteq> fd \<Longrightarrow> (heap_map h s = Some t \<longleftrightarrow> heap_map ?h s = Some t)"
      "\<And>s t. heap_map h s = Some t \<Longrightarrow> timeo_fd t = fd \<Longrightarrow> sign_timeo x = Some s"
      "\<And>s. sign_timeo x = Some s \<Longrightarrow> \<exists>t. heap_map h s = Some t \<and> timeo_fd t = fd"
      "slot_value h x = Some (c, if 0 \<le> timeo then Some (now + timeo) else e)" by blast
  let ?d3 = "d2\<lparr>heap_timeo := h, fd_to_event_ctx := ?cs[fd := x]\<rparr>"
  have watched: "fd \<in> fds (kernel d2)" using driver_okD(5) [OF g(1,4)] old g(2) d1(4) by auto
  then obtain k where k: "\<And>ev. locked_ctl api CtlMod fd ev ?d3 = (Some True, ?d3\<lparr>kernel := k ev\<rparr>)"
    "\<And>ev. fds (k ev) = fds (kernel ?d3)"
    using locked_ctl_works(2) [OF works, of fd ?d3] by simp metis
  let ?ev = "if dir = kIn then event_in d2 else event_out d2"
  let ?d4 = "d2\<lparr>heap_timeo := h, fd_to_event_ctx := ?cs[fd := x], kernel := k ?ev\<rparr>"
  have "RegEvent api now d fd kModEvent dir ctx timeo = Inr (True, ?d4)"
    using d1(1) hx(1) k(1) by (simp add: RegEvent_def reg_ctl_def flip: d2_def)
  moreover have "driver_ok fds ?d4 \<and> watch_of ?d4 = (watch_of d2)(fd := slot_value h x)"
    by (rule slot_update [OF g(1,4,3) hx(2) hx(4,5) _ _ refl]) (use hx(3,6) k(2) watched in auto)
  ultimately show ?thesis using that hx(7) g(2) d1(4) by simp
qed

section \<open>The driver is a map from descriptors to contexts with deadlines\<close>

datatype 'c driver_op =
    DAdd int nat event_kind 'c int
  | DMod int nat event_kind int
  | DDel nat
  | DTimeouts int
  | DClear

datatype 'c driver_out = DBool bool | DContexts "'c list option"

fun driver_step ::
  "'k epoll_api \<Rightarrow> ('c, 'k) events_driver \<Rightarrow> 'c driver_op \<Rightarrow> ('c driver_out \<times> ('c, 'k) events_driver) result" where
  "driver_step api d (DAdd now fd dir c timeo) =
     map_sum id (map_prod DBool id) (RegEvent api now d fd kAddEvent dir (Some c) timeo)"
| "driver_step api d (DMod now fd dir timeo) =
     map_sum id (map_prod DBool id) (RegEvent api now d fd kModEvent dir None timeo)"
| "driver_step api d (DDel fd) = map_sum id (map_prod DBool id) (RegEventDel api d fd)"
| "driver_step api d (DTimeouts now) = map_sum id (map_prod DContexts id) (RemoveTimeouts api now d)"
| "driver_step api d DClear = map_sum id (map_prod DContexts id) (ClearAll api d)"

text \<open>
  A client adds descriptors that are not watched, changes and deletes those that are, and has
  room for one more deadline.
\<close>

fun driver_pre :: "('c, 'k) events_driver \<Rightarrow> 'c driver_op \<Rightarrow> bool" where
  "driver_pre d (DAdd now fd dir c timeo) = (watch_of d fd = None \<and> heap_Size (heap_timeo d) < max_heap)"
| "driver_pre d (DMod now fd dir timeo) = (watch_of d fd \<noteq> None \<and> heap_Size (heap_timeo d) < max_heap)"
| "driver_pre d (DDel fd) = (watch_of d fd \<noteq> None)"
| "driver_pre d _ = True"

fun watch_spec :: "(nat \<rightharpoonup> 'c \<times> int option) \<Rightarrow> 'c driver_op \<Rightarrow> 'c driver_out \<Rightarrow> (nat \<rightharpoonup> 'c \<times> int option) \<Rightarrow> bool" where
  "watch_spec M (DAdd now fd dir c timeo) out M' =
     (out = DBool True \<and> M' = M(fd \<mapsto> (c, if 0 \<le> timeo then Some (now + timeo) else None)))"
| "watch_spec M (DMod now fd dir timeo) out M' =
     (out = DBool True \<and> (\<exists>c e. M fd = Some (c, e) \<and> M' = M(fd \<mapsto> (c, if 0 \<le> timeo then Some (now + timeo) else e))))"
| "watch_spec M (DDel fd) out M' = (out = DBool True \<and> M' = M(fd := None))"
| "watch_spec M (DTimeouts now) out M' = (\<exists>cs. out = DContexts (Some cs) \<and> hands_out now M cs M')"
| "watch_spec M DClear out M' =
     (finite (dom M) \<and> out = DContexts (Some (map (context_of M) (sorted_list_of_set (dom M)))) \<and> M' = Map.empty)"

lemma filter_dom_sorted:
  assumes "A \<subseteq> {..< n}"
  shows "filter (\<lambda>i. i \<in> A) [0 ..< n] = sorted_list_of_set A"
proof -
  have "set (filter (\<lambda>i. i \<in> A) [0 ..< n]) = A" using assms by auto
  then show ?thesis
    by (metis distinct_filter distinct_upt sorted_wrt_filter sorted_list_of_set.idem_if_sorted_distinct sorted_upt)
qed

lemma driver_step_ok:
  assumes works: "api_works api fds" and ok: "driver_ok fds d" and pre: "driver_pre d op"
  shows "\<exists>out d'. driver_step api d op = Inr (out, d') \<and> driver_ok fds d' \<and> watch_spec (watch_of d) op out (watch_of d')"
proof (cases op)
  case (DAdd now fd dir c timeo)
  then obtain d' where "RegEvent api now d fd kAddEvent dir (Some c) timeo = Inr (True, d')" "driver_ok fds d'"
    "watch_of d' = (watch_of d)(fd \<mapsto> (c, if 0 \<le> timeo then Some (now + timeo) else None))"
    using RegEvent_add_ok [OF ok works, of fd] pre by (metis driver_pre.simps(1))
  then show ?thesis using DAdd by simp
next
  case (DMod now fd dir timeo)
  then obtain c e where ce: "watch_of d fd = Some (c, e)" using pre by auto
  have "heap_Size (heap_timeo d) < max_heap" using pre DMod by simp
  from RegEvent_mod_ok [OF ok works ce this, of now dir None timeo] obtain d' where
    "RegEvent api now d fd kModEvent dir None timeo = Inr (True, d')" "driver_ok fds d'"
    "watch_of d' = (watch_of d)(fd \<mapsto> (c, if 0 \<le> timeo then Some (now + timeo) else e))" .
  then show ?thesis using DMod ce by simp
next
  case (DDel fd)
  then have dom: "fd \<in> dom (watch_of d)" using pre by auto
  have "driver_init d"
  proof (rule ccontr)
    assume "\<not> driver_init d"
    then have "fd_to_event_ctx d = []" using ok by (simp add: driver_ok_def)
    with dom show False by (auto simp: watch_of_def split: if_splits)
  qed
  from RegEventDel_ok [OF ok works dom this] obtain d' where
    "RegEventDel api d fd = Inr (True, d')" "driver_ok fds d'" "watch_of d' = (watch_of d)(fd := None)" by metis
  then show ?thesis using DDel by simp
next
  case (DTimeouts now)
  obtain d1 where d1: "driver_raii api d = (True, d1)" "driver_ok fds d1" "driver_init d1" "watch_of d1 = watch_of d"
    using driver_raii_ok [OF ok works] by metis
  from timeouts_loop_ok [OF works d1(2,3), of "heap_Size (heap_timeo d1) + 1" now "[]"] obtain cs d' where
    "timeouts_loop api now (heap_Size (heap_timeo d1) + 1) d1 [] = Inr (cs, d')" "driver_ok fds d'"
    "hands_out now (watch_of d1) cs (watch_of d')" by auto
  then show ?thesis using DTimeouts d1(1,4) by (simp add: RemoveTimeouts_def)
next
  case DClear
  obtain d1 where d1: "driver_raii api d = (True, d1)" "driver_ok fds d1" "driver_init d1" "watch_of d1 = watch_of d"
    using driver_raii_ok [OF ok works] by metis
  let ?n = "length (fd_to_event_ctx d1)"
  have sub: "dom (watch_of d1) \<subseteq> {..< ?n}" unfolding watch_dom_eq by auto
  obtain d' where "clear_loop api [0 ..< ?n] d1 []
      = Inr (map (context_of (watch_of d1)) (sorted_list_of_set (dom (watch_of d1))), d')"
    "driver_ok fds d'" "watch_of d' = watch_of d1 |` (- {..< ?n})"
    using clear_loop_ok [OF works d1(2,3), of "[0 ..< ?n]" "[]"] unfolding filter_dom_sorted [OF sub]
    by (auto simp: atLeast0LessThan)
  moreover have "watch_of d1 |` (- {..< ?n}) = Map.empty" using sub by (auto simp: restrict_map_def fun_eq_iff)
  moreover have "finite (dom (watch_of d1))" using sub finite_subset by blast
  ultimately show ?thesis using DClear d1(1,4) by (simp add: ClearAll_def)
qed

text \<open>The contract of the kernel belongs to the invariant.\<close>

interpretation driver_watch: simulation "driver_step api" watch_spec driver_pre
    "\<lambda>d. api_works api fds \<and> driver_ok fds d" watch_of
  for api :: "'k epoll_api" and fds :: "'k \<Rightarrow> nat set"
  by unfold_locales (use driver_step_ok in blast)

lemma new_driver_ok: "driver_ok fds (new_driver junk level_trigger k)" "watch_of (new_driver junk level_trigger k) = Map.empty"
  using new_heap_inv [of 1024 kMinHeap junk expire_time_ms]
  by (auto simp: driver_ok_def new_driver_def Let_def heap_of_def watch_of_def new_heap_def)

text \<open>
  C7: on a kernel that does what it is asked, every sequence of calls that adds descriptors that
  are not watched and changes or deletes watched ones runs without a fault and keeps a map from
  descriptors to contexts with deadlines: \<open>RemoveTimeouts\<close> returns, hands out exactly the contexts
  whose deadline has passed, each once and the earliest first, and stops watching them;
  \<open>ClearAll\<close> hands out every context in the order of the descriptors and stops watching all.
\<close>

theorem driver_is_watch_map:
  assumes "api_works api fds" and "legal_ops (driver_step api) driver_pre (new_driver junk level_trigger k) ops"
  shows "\<exists>outs d. run_ops (driver_step api) (new_driver junk level_trigger k) ops = Inr (outs, d)
    \<and> spec_run watch_spec Map.empty ops outs (watch_of d)"
proof -
  let ?d = "new_driver junk level_trigger k"
  have "api_works api fds \<and> driver_ok fds ?d" using assms(1) by (simp add: new_driver_ok(1))
  from driver_watch.run_refines [OF this assms(2)] obtain outs d where
    "run_ops (driver_step api) ?d ops = Inr (outs, d)" "spec_run watch_spec (watch_of ?d) ops outs (watch_of d)" by blast
  then show ?thesis by (auto simp: new_driver_ok(2))
qed

text \<open>A kernel that keeps a list of descriptors.\<close>

definition list_kernel :: "nat list epoll_api" where
  "list_kernel =
     \<lparr>epoll_create = (\<lambda>k. (True, [])),
      epoll_ctl = (\<lambda>op fd ev k.
        (case op of
           CtlAdd \<Rightarrow> if fd \<in> set k then (False, k) else (True, fd # k)
         | CtlMod \<Rightarrow> (fd \<in> set k, k)
         | CtlDel \<Rightarrow> (fd \<in> set k, removeAll fd k))),
      epoll_wait = (\<lambda>n t k. (0, k)), lock_Lock = (\<lambda>k. (True, k)), lock_Unlock = (\<lambda>k. k)\<rparr>"

lemma list_kernel_works: "api_works list_kernel set"
  by (auto simp: api_works_def list_kernel_def)

lemma legal_first:
  "driver_pre d op \<Longrightarrow> (\<And>d. legal_ops (driver_step api) driver_pre d ops) \<Longrightarrow>
    legal_ops (driver_step api) driver_pre d (op # ops)"
  by (simp split: sum.split)

theorem driver_is_watch_map_witness:
  "\<exists>outs d. run_ops (driver_step list_kernel) (new_driver \<lparr>node_index = 0, node_val = \<lparr>expire_time_ms = 0, timeo_fd = 0\<rparr>\<rparr> True [])
      [DAdd 100 3 kIn ''a'' 50, DTimeouts 200, DClear] = Inr (outs, d)
    \<and> spec_run watch_spec Map.empty [DAdd 100 3 kIn ''a'' 50, DTimeouts 200, DClear] outs (watch_of d)"
proof (rule driver_is_watch_map [OF list_kernel_works])
  let ?d = "new_driver \<lparr>node_index = 0, node_val = \<lparr>expire_time_ms = 0, timeo_fd = 0\<rparr>\<rparr> True []
    :: (string, nat list) events_driver"
  have "heap_Size (heap_timeo ?d) = 0" by (simp add: new_driver_def Let_def new_heap_def heap_Size_def)
  then show "legal_ops (driver_step list_kernel) driver_pre ?d [DAdd 100 3 kIn ''a'' 50, DTimeouts 200, DClear]"
    by (intro legal_first) (simp_all add: new_driver_ok max_heap_def)
qed

definition deadlines :: "(nat \<rightharpoonup> 'c \<times> int option) \<Rightarrow> int set" where
  "deadlines M = {e. \<exists>fd c. M fd = Some (c, Some e)}"

lemma finite_deadlines: "finite (deadlines (watch_of d))"
proof -
  have "deadlines (watch_of d) \<subseteq> (\<lambda>fd. the (snd (the (watch_of d fd)))) ` dom (watch_of d)"
    by (force simp: deadlines_def)
  moreover have "finite (dom (watch_of d))" unfolding watch_dom_eq by simp
  ultimately show ?thesis using finite_surj by blast
qed

text \<open>
  with deadlines pending \<open>Wait\<close> gives \<open>epoll_wait\<close> the time until the first of them, at most
  the time it was asked to wait and at least 0; so it does not wait at all when it is asked, with
  a negative time, to wait without a limit. Without deadlines it passes the time on.
\<close>

theorem wait_until_first_deadline:
  assumes "driver_ok fds d"
  shows "time_to_wait now (heap_timeo d) timeo =
    (if deadlines (watch_of d) = {} then timeo else max 0 (min (Min (deadlines (watch_of d)) - now) timeo))"
proof (cases "heap_Top (heap_timeo d)")
  case None
  then have "heap_map (heap_timeo d) = Map.empty" by (rule heap_top_none [OF driver_okD(2) [OF assms]])
  then have "deadlines (watch_of d) = {}" using watched_entry [OF assms] by (fastforce simp: deadlines_def)
  with None show ?thesis by (simp add: time_to_wait_def)
next
  case (Some t)
  note least = heap_top_least [OF driver_okD(1) [OF assms] Some]
  from least(1) obtain s where s: "heap_map (heap_timeo d) s = Some t" ..
  from entry_watched [OF assms s] have t: "expire_time_ms t \<in> deadlines (watch_of d)" by (auto simp: deadlines_def)
  have "expire_time_ms t \<le> e" if e: "e \<in> deadlines (watch_of d)" for e
  proof -
    obtain fd c where "watch_of d fd = Some (c, Some e)" using e by (auto simp: deadlines_def)
    from watched_entry [OF assms this] obtain s' t' where "heap_map (heap_timeo d) s' = Some t'" "expire_time_ms t' = e"
      by metis
    with least(2) show ?thesis by blast
  qed
  with t have "Min (deadlines (watch_of d)) = expire_time_ms t" by (intro Min_eqI finite_deadlines) auto
  moreover have "deadlines (watch_of d) \<noteq> {}" using t by blast
  ultimately show ?thesis using Some by (auto simp: time_to_wait_def Let_def)
qed

theorem wait_until_first_deadline_witness:
  "time_to_wait 10 (heap_timeo (new_driver \<lparr>node_index = 0, node_val = \<lparr>expire_time_ms = 0, timeo_fd = 0\<rparr>\<rparr> True []
    :: (nat, nat list) events_driver)) 7 = 7"
  using wait_until_first_deadline [OF new_driver_ok(1) [of set "\<lparr>node_index = 0, node_val = \<lparr>expire_time_ms = 0, timeo_fd = 0\<rparr>\<rparr>" True "[]"], of 10 7]
  by (simp add: new_driver_ok(2) deadlines_def)

text \<open>
  A time of $2^{32}$ milliseconds, some fifty days, is passed on as 0, and one of $2^{31}$ as a negative
  number, which is no limit at all.
\<close>

lemma long_wait_is_cut:
  assumes "driver_raii api d0 = (True, d)" and "heap_Top (heap_timeo d) = None"
  shows "driver_Wait api now d0 (2 ^ 32) = (let (ret, k) = epoll_wait api kMaxNumEvents 0 (kernel d) in (ret, d\<lparr>kernel := k\<rparr>))"
    and "driver_Wait api now d0 (2 ^ 31) = (let (ret, k) = epoll_wait api kMaxNumEvents (- (2 ^ 31)) (kernel d) in (ret, d\<lparr>kernel := k\<rparr>))"
proof -
  have "signed_take_bit 31 (2 ^ 32) = (0 :: int)" "signed_take_bit 31 (2 ^ 31) = (- (2 ^ 31) :: int)" by code_simp+
  then show "driver_Wait api now d0 (2 ^ 32) = (let (ret, k) = epoll_wait api kMaxNumEvents 0 (kernel d) in (ret, d\<lparr>kernel := k\<rparr>))"
    "driver_Wait api now d0 (2 ^ 31) = (let (ret, k) = epoll_wait api kMaxNumEvents (- (2 ^ 31)) (kernel d) in (ret, d\<lparr>kernel := k\<rparr>))"
    using assms by (simp_all add: driver_Wait_def time_to_wait_def)
qed

section \<open>A descriptor that is used again\<close>

text \<open>
  An entry of the heap whose descriptor does not have its sign is never erased: once its deadline
  has passed, and when the descriptor has no other entry, the loop of \<open>RemoveTimeouts\<close> goes round
  and round, whatever the kernel answers.
\<close>

lemma orphan_never_ends:
  assumes "heap_Top (heap_timeo d) = Some t" and "expire_time_ms t < now"
    and "timeo_fd t < length (fd_to_event_ctx d)" and "sign_timeo (ctx_at d (timeo_fd t)) = None"
  shows "timeouts_loop api now f d acc = Inl Diverges"
  using assms
proof (induction f arbitrary: d acc)
  case 0
  then show ?case by simp
next
  case (Suc f)
  let ?fd = "timeo_fd t"
  obtain b d1 where l: "locked_ctl api CtlDel ?fd 0 d = (b, d1)" by fastforce
  then have d1: "heap_timeo d1 = heap_timeo d" "fd_to_event_ctx d1 = fd_to_event_ctx d"
    by (auto simp: locked_ctl_def split: prod.splits if_splits)
  have e: "erase_timer d ?fd = Inr d" using Suc.prems(4) by (simp add: erase_timer_def)
  obtain b' d' where d': "RegEventDel api d ?fd = Inr (b', d')" "d' = d1 \<or> d' = set_context d1 ?fd None"
    using l e Suc.prems(3) by (cases b; cases "the b") (auto simp: RegEventDel_def)
  have "heap_Top (heap_timeo d') = Some t" "?fd < length (fd_to_event_ctx d')" "sign_timeo (ctx_at d' ?fd) = None"
    using d'(2) d1 Suc.prems by (auto simp: set_context_def)
  from Suc.IH [OF this(1) Suc.prems(2) this(2,3)] show ?case using Suc.prems(1-3) d'(1) by simp
qed

lemma one_entry:
  assumes "heap_of kMinHeap expire_time_ms h" and "heap_map h = [s \<mapsto> t]"
  shows "heap_Top h = Some t"
proof (cases "heap_Top h")
  case None
  then show ?thesis using heap_top_none [of h] assms by (simp add: heap_of_def)
next
  case (Some t')
  from heap_top_least(1) [OF assms(1) Some] obtain s' where "heap_map h s' = Some t'" ..
  with assms(2) Some show ?thesis by (simp split: if_splits)
qed

text \<open>The heap of a driver that watches one descriptor holds one entry.\<close>

lemma one_watched_entry:
  assumes ok: "driver_ok fds d" and w: "watch_of d = [fd \<mapsto> (c, Some e)]"
  obtains s t where "heap_map (heap_timeo d) = [s \<mapsto> t]" "timeo_fd t = fd" "expire_time_ms t = e"
    "fd < length (fd_to_event_ctx d)" "heap_Size (heap_timeo d) < max_heap"
proof -
  have "watch_of d fd = Some (c, Some e)" using w by simp
  from watched_entry [OF ok this] obtain s t where t: "heap_map (heap_timeo d) s = Some t" "timeo_fd t = fd"
    "expire_time_ms t = e" "sign_timeo (ctx_at d fd) = Some s" .
  have map: "heap_map (heap_timeo d) = [s \<mapsto> t]"
  proof
    fix s' show "heap_map (heap_timeo d) s' = [s \<mapsto> t] s'"
    proof (cases "heap_map (heap_timeo d) s'")
      case None
      then show ?thesis using t(1) by auto
    next
      case (Some t')
      from entry_watched [OF ok Some] w have "timeo_fd t' = fd" by (auto split: if_splits)
      with driver_okD(4) [OF ok Some] t(4) Some t(1) show ?thesis by simp
    qed
  qed
  have "fd < length (fd_to_event_ctx d)" using driver_okD(4) [OF ok t(1)] t(2) by simp
  moreover have "heap_Size (heap_timeo d) < max_heap"
    using heap_Size_card [OF driver_okD(2) [OF ok]] by (simp add: map max_heap_def)
  ultimately show thesis by (rule that [OF map t(2,3)])
qed

text \<open>
  Two entries for a descriptor whose context knows only the second: the first round erases the second,
  and the first comes up again and again.
\<close>

lemma forgotten_entry_hangs:
  assumes h: "heap_of kMinHeap expire_time_ms (heap_timeo d)" "heap_map (heap_timeo d) = [s1 \<mapsto> t1, s2 \<mapsto> t2]" "s2 \<noteq> s1"
    and fd: "timeo_fd t1 = fd" "timeo_fd t2 = fd" "fd < length (fd_to_event_ctx d)"
    and later: "expire_time_ms t1 < later" "expire_time_ms t2 < later"
    and x: "fd_to_event_ctx d ! fd = \<lparr>ec_context = c, sign_timeo = Some s2\<rparr>"
  shows "timeouts_loop api later f d acc = Inl Diverges"
proof -
  have inv: "heap_inv (heap_timeo d)" using h(1) by (simp add: heap_of_def)
  obtain t where t: "heap_Top (heap_timeo d) = Some t" "timeo_fd t = fd" "expire_time_ms t < later"
  proof (cases "heap_Top (heap_timeo d)")
    case None
    from heap_top_none [OF inv None] have "heap_map (heap_timeo d) s2 = None" by simp
    then show ?thesis by (simp add: h(2))
  next
    case (Some t)
    from heap_top_least(1) [OF h(1) Some] obtain s where "heap_map (heap_timeo d) s = Some t" ..
    then have "t = t2 \<or> t = t1" unfolding h(2) by (auto split: if_splits)
    then have "timeo_fd t = fd" "expire_time_ms t < later" using fd(1,2) later by auto
    with Some show ?thesis by (rule that)
  qed
  have "s2 \<in> live_signs (heap_timeo d)" using h(2) by (auto simp flip: dom_heap_map)
  from heap_Erase_correct [OF inv this] obtain h3 where h3: "heap_Erase (heap_timeo d) s2 = Inr h3" "heap_inv h3"
    "heap_map h3 = (heap_map (heap_timeo d))(s2 := None)" "same_class (heap_timeo d) h3" by blast
  have map3: "heap_map h3 = [s1 \<mapsto> t1]" using h(3) unfolding h3(3) h(2) by auto
  let ?d3 = "d\<lparr>heap_timeo := h3, fd_to_event_ctx := (fd_to_event_ctx d)[fd := \<lparr>ec_context = c, sign_timeo = None\<rparr>]\<rparr>"
  have e: "erase_timer d fd = Inr ?d3" using fd(3) h3(1) x by (simp add: erase_timer_def set_sign_def)
  obtain b d4 where l: "locked_ctl api CtlDel fd 0 ?d3 = (b, d4)" by fastforce
  then have d4: "heap_timeo d4 = h3" "fd_to_event_ctx d4 = fd_to_event_ctx ?d3"
    by (auto simp: locked_ctl_def split: prod.splits if_splits)
  obtain b' d5 where d5: "RegEventDel api d fd = Inr (b', d5)" "d5 = d4 \<or> d5 = set_context d4 fd None"
    using l e fd(3) by (cases b; cases "the b") (auto simp: RegEventDel_def)
  have h5: "heap_timeo d5 = h3" "fd < length (fd_to_event_ctx d5)" "sign_timeo (ctx_at d5 fd) = None"
    using d5(2) d4 fd(3) by (auto simp: set_context_def)
  have "heap_Top h3 = Some t1" using one_entry [OF heap_ofI [OF h(1) h3(2,4)] map3] .
  then have never: "timeouts_loop api later g d5 acc' = Inl Diverges" for g acc'
    using h5 fd(1) later(1) by (intro orphan_never_ends [where t = t1]) simp_all
  show ?thesis
  proof (cases f)
    case (Suc g)
    then show ?thesis using t fd(3) d5(1) never by (simp split: option.split)
  qed simp
qed

text \<open>
  C35: a descriptor with a deadline is closed, so that the kernel forgets it, and its number is
  used again for a new registration with a deadline: both calls of \<open>RegEvent\<close> succeed, the entry
  of the first one stays in the heap, and once both deadlines have passed \<open>RemoveTimeouts\<close> never
  returns, for any number of rounds.
\<close>

theorem reused_descriptor_hangs:
  assumes works: "api_works api fds" and timeo: "0 \<le> timeo1" "0 \<le> timeo2" and closed: "fd \<notin> fds k1"
    and later: "now1 + timeo1 < later" "now2 + timeo2 < later"
  shows "\<exists>d1 d2. RegEvent api now1 (new_driver junk level_trigger k) fd kAddEvent dir1 (Some c1) timeo1 = Inr (True, d1)
    \<and> RegEvent api now2 (d1\<lparr>kernel := k1\<rparr>) fd kAddEvent dir2 (Some c2) timeo2 = Inr (True, d2)
    \<and> (\<forall>f. timeouts_loop api later f d2 [] = Inl Diverges)"
proof -
  let ?d0 = "new_driver junk level_trigger k" and ?e1 = "now1 + timeo1"
    and ?t2 = "\<lparr>expire_time_ms = now2 + timeo2, timeo_fd = fd\<rparr>"
  have new: "watch_of ?d0 fd = None" "heap_Size (heap_timeo ?d0) < max_heap"
    by (simp_all add: new_driver_ok(2)) (simp add: new_driver_def Let_def new_heap_def heap_Size_def max_heap_def)
  obtain d1 where d1: "RegEvent api now1 ?d0 fd kAddEvent dir1 (Some c1) timeo1 = Inr (True, d1)" "driver_ok fds d1"
    "watch_of d1 = [fd \<mapsto> (c1, Some ?e1)]" "driver_init d1"
    using RegEvent_add_ok [OF new_driver_ok(1) works new, of now1 dir1 c1 timeo1] timeo(1)
    by (auto simp: new_driver_ok(2))
  let ?cs = "fd_to_event_ctx d1" and ?h1 = "heap_timeo d1"
  from one_watched_entry [OF d1(2,3)] obtain s1 t1 where t1: "heap_map ?h1 = [s1 \<mapsto> t1]" "timeo_fd t1 = fd"
    "expire_time_ms t1 = ?e1" "fd < length ?cs" "heap_Size ?h1 < max_heap" .
  from insert_timer_ok [OF d1(2) t1(5), of "now2 + timeo2" fd] obtain s2 h2 where h2: "heap_Insert ?h1 ?t2 = Inr (s2, h2)"
    "heap_of kMinHeap expire_time_ms h2" "heap_map h2 = (heap_map ?h1)(s2 \<mapsto> ?t2)" "heap_map ?h1 s2 = None" .
  let ?x = "\<lparr>ec_context = Some c2, sign_timeo = Some s2\<rparr>"
  let ?d1 = "d1\<lparr>kernel := k1, heap_timeo := h2, fd_to_event_ctx := ?cs[fd := ?x]\<rparr>"
  obtain kk where kk: "\<And>ev. locked_ctl api CtlAdd fd ev ?d1 = (Some True, ?d1\<lparr>kernel := kk ev\<rparr>)"
    using locked_ctl_works(1) [OF works, of fd ?d1] closed by simp metis
  let ?d2 = "?d1\<lparr>kernel := kk (if dir2 = kIn then event_in d1 else event_out d1)\<rparr>"
  have reg: "RegEvent api now2 (d1\<lparr>kernel := k1\<rparr>) fd kAddEvent dir2 (Some c2) timeo2 = Inr (True, ?d2)"
    using d1(4) t1(4) timeo(2) h2(1) kk
    by (simp add: RegEvent_def driver_raii_def grow_ctxs_def add_timer_def insert_timer_def set_sign_def set_context_def
        reg_ctl_def ctx_filled Let_def)
  have "timeouts_loop api later f ?d2 [] = Inl Diverges" for f
    by (rule forgotten_entry_hangs [of ?d2 s1 t1 s2 ?t2 fd]) (use h2 t1 later in auto)
  with d1(1) reg show ?thesis by blast
qed

theorem reused_descriptor_hangs_witness:
  "\<exists>d1 d2. RegEvent list_kernel 0 (new_driver \<lparr>node_index = 0, node_val = \<lparr>expire_time_ms = 0, timeo_fd = 0\<rparr>\<rparr> True [])
      5 kAddEvent kIn (Some ''a'') 10 = Inr (True, d1)
    \<and> RegEvent list_kernel 3 (d1\<lparr>kernel := []\<rparr>) 5 kAddEvent kIn (Some ''b'') 10 = Inr (True, d2)
    \<and> (\<forall>f. timeouts_loop list_kernel 100 f d2 [] = Inl Diverges)"
  by (rule reused_descriptor_hangs [OF list_kernel_works]) simp_all

section \<open>\<open>kDelEvent\<close>\<close>

text \<open>
  \<open>RegEvent\<close> with \<open>kDelEvent\<close> returns the opposite of what the deletion returned: false when
  the descriptor has been deleted, true when it could not be.
\<close>

theorem del_event_inverted:
  assumes "driver_init d" and "fd < length (fd_to_event_ctx d)" and "RegEventDel api d fd = Inr (b, d1)"
  shows "\<exists>d'. RegEvent api now d fd kDelEvent dir c timeo = Inr (\<not> b, d')"
proof -
  have g: "driver_raii api d = (True, d)" "grow_ctxs d fd = d"
    using assms(1,2) by (simp_all add: driver_raii_def grow_ctxs_def Let_def)
  show ?thesis
  proof (cases b)
    case False
    then show ?thesis using g assms(3) by (simp add: RegEvent_def)
  next
    case True
    obtain d0 where e: "erase_timer d fd = Inr d0" using assms(2,3) by (auto simp: RegEventDel_def split: sum.splits)
    then have d0: "length (fd_to_event_ctx d0) = length (fd_to_event_ctx d)" "sign_timeo (ctx_at d0 fd) = None"
      using assms(2) by (auto simp: erase_timer_def set_sign_def split: option.splits sum.splits)
    obtain r d2 where l: "locked_ctl api CtlDel fd 0 d0 = (r, d2)" by fastforce
    then have d2: "fd_to_event_ctx d2 = fd_to_event_ctx d0"
      by (auto simp: locked_ctl_def split: prod.splits if_splits)
    have "d1 = set_context d2 fd None"
      using assms(2,3) e l True by (cases r; cases "the r") (auto simp: RegEventDel_def)
    then have d1: "fd < length (fd_to_event_ctx d1)" "sign_timeo (ctx_at d1 fd) = None"
      using d0 d2 assms(2) by (simp_all add: set_context_def)
    obtain r' d3 where l': "locked_ctl api CtlDel fd 0 d1 = (r', d3)" by fastforce
    have "\<exists>b' d'. RegEventDel api d1 fd = Inr (b', d')"
      using d1 l' by (cases r'; cases "the r'") (auto simp: RegEventDel_def erase_timer_def)
    then show ?thesis using g assms(3) True by (auto simp: RegEvent_def reg_failed_def)
  qed
qed

theorem del_event_inverted_witness:
  "\<exists>d d1 d'. RegEventDel list_kernel d 3 = Inr (True, d1)
    \<and> RegEvent list_kernel 0 d 3 kDelEvent kIn (Some ''a'') 0 = Inr (False, d')"
proof -
  let ?d0 = "new_driver \<lparr>node_index = 0, node_val = \<lparr>expire_time_ms = 0, timeo_fd = 0\<rparr>\<rparr> True [] :: (string, nat list) events_driver"
  have "heap_Size (heap_timeo ?d0) < max_heap"
    by (simp add: new_driver_def Let_def new_heap_def heap_Size_def max_heap_def)
  moreover have "watch_of ?d0 3 = None" by (simp add: new_driver_ok(2))
  ultimately obtain d where d: "driver_ok set d" "watch_of d = (watch_of ?d0)(3 \<mapsto> (''a'', if 0 \<le> (- 1 :: int) then Some (0 + - 1) else None))"
    "driver_init d"
    using RegEvent_add_ok [OF new_driver_ok(1) list_kernel_works, of _ _ _ 3 0 kIn "''a''" "- 1"] by metis
  then have dom: "3 \<in> dom (watch_of d)" by simp
  then have len: "3 < length (fd_to_event_ctx d)" using watch_dom by blast
  obtain d1 where d1: "RegEventDel list_kernel d 3 = Inr (True, d1)"
    using RegEventDel_ok [OF d(1) list_kernel_works dom d(3)] by metis
  from del_event_inverted [OF d(3) len d1, of 0 kIn "Some ''a''" 0] d1 show ?thesis by auto
qed

end
