(* ===== verification/Thread_Privacy.thy ===== *)
theory Thread_Privacy
  imports Prelude
begin

text \<open>
  \<^verbatim>\<open>src/thread_privacy/\<close>: objects that belong to a thread, kept in a vector per thread that the
  thread finds through \<open>pthread_getspecific\<close>, and \<open>ThreadMutex\<close> of \<^verbatim>\<open>src/lock_policy.hpp\<close>, which
  protects the list of these vectors. \<open>Privacy_Spec\<close> holds the theorems.

  Threads are numbers. A vector is an index of \<open>privacies\<close>, an object an index of \<open>objects\<close>;
  \<open>new\<close> appends. What the calls of the thread library and \<open>new\<close> return is an argument, a record
  for each call of the class.
\<close>

section \<open>ThreadMutex\<close>

record thread_mutex =
  mutex_ready :: bool

definition mutex_Init :: "bool \<Rightarrow> thread_mutex \<Rightarrow> bool \<times> thread_mutex" where
  "mutex_Init init_ok m = (if init_ok then (True, m\<lparr>mutex_ready := True\<rparr>) else (False, m))"

definition mutex_raii :: "bool \<Rightarrow> thread_mutex \<Rightarrow> bool \<times> thread_mutex" where
  "mutex_raii init_ok m = (if mutex_ready m then (True, m) else mutex_Init init_ok m)"

definition mutex_Lock :: "bool \<Rightarrow> bool \<Rightarrow> thread_mutex \<Rightarrow> bool \<times> thread_mutex" where
  "mutex_Lock init_ok lock_ok m =
     (case mutex_raii init_ok m of (False, m') \<Rightarrow> (False, m') | (True, m') \<Rightarrow> (lock_ok, m'))"

definition mutex_Unlock :: "bool \<Rightarrow> thread_mutex \<Rightarrow> thread_mutex" where
  "mutex_Unlock init_ok m = snd (mutex_raii init_ok m)"

section \<open>State\<close>

text \<open>What the system answers during a call; \<open>lock_ok i\<close> is the answer to the \<open>i\<close>-th try.\<close>

record os_answers =
  mutex_init_ok :: bool
  lock_ok :: "nat \<Rightarrow> bool"
  key_create_ok :: bool
  setspecific_ok :: bool
  new_vector_ok :: bool
  new_object_ok :: bool

record 'v thread_privacy =
  tp_init :: bool
  tp_key :: nat
  next_key :: nat
  tls :: "nat \<times> nat \<rightharpoonup> nat"
  privacies :: "nat option list list"
  privacies_set :: "nat list"
  objects :: "'v list"
  tp_lock :: thread_mutex

definition kMaxTimesTryLock :: nat where
  "kMaxTimesTryLock = 1000000"

definition new_privacy :: "'v thread_privacy" where
  "new_privacy = \<lparr>tp_init = False, tp_key = 0, next_key = 0, tls = Map.empty, privacies = [],
     privacies_set = [], objects = [], tp_lock = \<lparr>mutex_ready = False\<rparr>\<rparr>"

section \<open>Init\<close>

text \<open>\<open>pthread_key_create\<close> gives a key that was not given before; no thread has a value for it.\<close>

definition tp_Init :: "os_answers \<Rightarrow> 'v thread_privacy \<Rightarrow> bool \<times> 'v thread_privacy" where
  "tp_Init os s =
     (case mutex_Lock (mutex_init_ok os) (lock_ok os 0) (tp_lock s) of
        (False, m) \<Rightarrow> (False, s\<lparr>tp_lock := m\<rparr>)
      | (True, m) \<Rightarrow>
          if \<not> key_create_ok os then (False, s\<lparr>tp_lock := mutex_Unlock True m\<rparr>)
          else (True, s\<lparr>tp_key := next_key s, next_key := next_key s + 1, tp_init := True,
                        tp_lock := mutex_Unlock True m\<rparr>))"

definition tp_raii :: "os_answers \<Rightarrow> 'v thread_privacy \<Rightarrow> bool \<times> 'v thread_privacy" where
  "tp_raii os s = (if tp_init s then (True, s) else tp_Init os s)"

section \<open>Get\<close>

text \<open>The slot \<open>no\<close> of the vector of a thread, when it has one that is not \<open>NULL\<close>.\<close>

definition slot_of :: "'v thread_privacy \<Rightarrow> nat \<Rightarrow> nat \<Rightarrow> nat option" where
  "slot_of s pr no = (if no < length (privacies s ! pr) then privacies s ! pr ! no else None)"

text \<open>\<open>Get(no) const\<close>.\<close>

definition privacy_find :: "'v thread_privacy \<Rightarrow> nat \<Rightarrow> nat \<Rightarrow> nat option" where
  "privacy_find s t no =
     (if \<not> tp_init s then None
      else (case tls s (tp_key s, t) of None \<Rightarrow> None | Some pr \<Rightarrow> slot_of s pr no))"

text \<open>The loop that tries to take the lock.\<close>

fun try_lock :: "os_answers \<Rightarrow> nat \<Rightarrow> nat \<Rightarrow> thread_mutex \<Rightarrow> bool \<times> thread_mutex" where
  "try_lock os 0 i m = (False, m)"
| "try_lock os (Suc n) i m =
     (case mutex_Lock (mutex_init_ok os) (lock_ok os i) m of
        (True, m') \<Rightarrow> (True, m')
      | (False, m') \<Rightarrow> try_lock os n (Suc i) m')"

text \<open>What \<open>Get_\<close> returns: 0 and the object, 1 and the vector, or an error.\<close>

datatype get_code = Found nat | Missing nat | Get_Error int

definition Get_privacies :: "os_answers \<Rightarrow> nat \<Rightarrow> nat \<Rightarrow> 'v thread_privacy \<Rightarrow> get_code \<times> 'v thread_privacy" where
  "Get_privacies os t no s =
     (case tls s (tp_key s, t) of
        Some pr \<Rightarrow> (case slot_of s pr no of Some obj \<Rightarrow> (Found obj, s) | None \<Rightarrow> (Missing pr, s))
      | None \<Rightarrow>
          if \<not> new_vector_ok os then (Get_Error (- 1), s)
          else if \<not> setspecific_ok os then (Get_Error (- 2), s)
          else
            let pr = length (privacies s);
                s1 = s\<lparr>privacies := privacies s @ [[]], tls := (tls s)((tp_key s, t) \<mapsto> pr)\<rparr>
            in case try_lock os kMaxTimesTryLock 0 (tp_lock s1) of
                 (False, m) \<Rightarrow> (Get_Error (- 3), s1\<lparr>tp_lock := m\<rparr>)
               | (True, m) \<Rightarrow>
                   (Missing pr, s1\<lparr>privacies_set := privacies_set s1 @ [pr], tp_lock := mutex_Unlock True m\<rparr>))"

definition put_object :: "'v thread_privacy \<Rightarrow> nat \<Rightarrow> nat \<Rightarrow> 'v \<Rightarrow> nat \<times> 'v thread_privacy" where
  "put_object s pr no v =
     (let obj = length (objects s);
          slots = privacies s ! pr;
          slots' = (if length slots \<le> no then slots @ replicate (no + 1 - length slots) None else slots)
      in (obj, s\<lparr>objects := objects s @ [v], privacies := (privacies s)[pr := slots'[no := Some obj]]\<rparr>))"

text \<open>
  \<open>Get\<close> with an object to copy, and \<open>Get\<close> for a default object \<open>v\<close>: the pointer and
  \<open>first_create\<close>, or \<open>NULL\<close>.
\<close>

definition Get_copy ::
  "os_answers \<Rightarrow> nat \<Rightarrow> nat \<Rightarrow> 'v \<Rightarrow> 'v thread_privacy \<Rightarrow> (nat \<times> bool) option \<times> 'v thread_privacy" where
  "Get_copy os t no privacy_tpl s0 =
     (case tp_raii os s0 of
        (False, s) \<Rightarrow> (None, s)
      | (True, s) \<Rightarrow>
          (case Get_privacies os t no s of
             (Found obj, s1) \<Rightarrow> (Some (obj, False), s1)
           | (Get_Error e, s1) \<Rightarrow> (None, s1)
           | (Missing pr, s1) \<Rightarrow>
               if \<not> new_object_ok os then (None, s1)
               else let (obj, s2) = put_object s1 pr no privacy_tpl in (Some (obj, True), s2)))"

definition Get_default ::
  "os_answers \<Rightarrow> nat \<Rightarrow> nat \<Rightarrow> 'v \<Rightarrow> 'v thread_privacy \<Rightarrow> (nat \<times> bool) option \<times> 'v thread_privacy" where
  "Get_default os t no v s0 =
     (case tp_raii os s0 of
        (False, s) \<Rightarrow> (None, s)
      | (True, s) \<Rightarrow>
          (case Get_privacies os t no s of
             (Found obj, s1) \<Rightarrow> (Some (obj, False), s1)
           | (Get_Error e, s1) \<Rightarrow> (None, s1)
           | (Missing pr, s1) \<Rightarrow>
               if \<not> new_object_ok os then (None, s1)
               else let (obj, s2) = put_object s1 pr no v in (Some (obj, True), s2)))"

section \<open>The destructor\<close>

text \<open>The objects it deletes, in order.\<close>

definition live_slots :: "nat option list \<Rightarrow> nat list" where
  "live_slots slots = map the (filter (\<lambda>x. x \<noteq> None) slots)"

definition privacy_destroyed :: "'v thread_privacy \<Rightarrow> nat list" where
  "privacy_destroyed s =
     (if \<not> tp_init s then [] else concat (map (\<lambda>pr. live_slots (privacies s ! pr)) (privacies_set s)))"

end
