(* ===== verification/Privacy_Spec.thy ===== *)
theory Privacy_Spec
  imports Thread_Privacy
begin

text \<open>
  What \<open>ThreadPrivacy\<close> promises when its system calls succeed: one object for each thread and
  slot, created by the first \<open>Get\<close> and the same ever after, and each deleted once by the
  destructor. Then what is lost when the lock cannot be taken, and when two threads initialise the
  class at the same time.
\<close>

section \<open>Vectors of slots\<close>

lemma mset_live_slots: "mset (live_slots xs) = image_mset the (filter_mset (\<lambda>x. x \<noteq> None) (mset xs))"
  by (simp add: live_slots_def)

lemma set_live_slots: "obj \<in> set (live_slots xs) \<longleftrightarrow> Some obj \<in> set xs"
  by (force simp: live_slots_def)

lemma live_slots_put:
  assumes "no < length xs" and "xs ! no = None"
  shows "mset (live_slots (xs[no := Some obj])) = add_mset obj (mset (live_slots xs))"
  using assms by (simp add: mset_live_slots mset_update)

lemma live_slots_pad: "live_slots (xs @ replicate n None) = live_slots xs"
  by (simp add: live_slots_def)

lemma concat_update:
  assumes "i < length xs" and "mset (f y) = add_mset obj (mset (f (xs ! i)))"
  shows "mset (concat (map f (xs[i := y]))) = add_mset obj (mset (concat (map f xs)))"
proof -
  have "mset (concat (map f xs)) = mset (concat (map f (take i xs @ xs ! i # drop (Suc i) xs)))"
    using assms(1) by (simp flip: id_take_nth_drop)
  with assms show ?thesis by (simp add: upd_conv_take_nth_drop)
qed

section \<open>The invariant\<close>

definition all_objects :: "'v thread_privacy \<Rightarrow> nat list" where
  "all_objects s = concat (map live_slots (privacies s))"

definition privacy_inv :: "'v thread_privacy \<Rightarrow> bool" where
  "privacy_inv s \<longleftrightarrow>
     privacies_set s = [0 ..< length (privacies s)]
     \<and> (tp_init s \<longrightarrow> mutex_ready (tp_lock s))
     \<and> (\<forall>k t pr. tls s (k, t) = Some pr \<longrightarrow> tp_init s \<and> k = tp_key s \<and> pr < length (privacies s))
     \<and> (\<forall>t t' pr. tls s (tp_key s, t) = Some pr \<longrightarrow> tls s (tp_key s, t') = Some pr \<longrightarrow> t = t')
     \<and> (\<forall>pr < length (privacies s). \<exists>t. tls s (tp_key s, t) = Some pr)
     \<and> mset (all_objects s) = mset [0 ..< length (objects s)]"

text \<open>The object of a thread and a slot, and what is in it.\<close>

definition owned :: "'v thread_privacy \<Rightarrow> nat \<times> nat \<rightharpoonup> nat \<times> 'v" where
  "owned s = (\<lambda>(t, no). map_option (\<lambda>obj. (obj, objects s ! obj))
     (case tls s (tp_key s, t) of None \<Rightarrow> None | Some pr \<Rightarrow> slot_of s pr no))"

lemma privacy_invD:
  assumes "privacy_inv s"
  shows "privacies_set s = [0 ..< length (privacies s)]"
    and "tls s (k, t) = Some pr \<Longrightarrow> tp_init s \<and> k = tp_key s \<and> pr < length (privacies s)"
    and "tls s (tp_key s, t) = Some pr \<Longrightarrow> tls s (tp_key s, t') = Some pr \<Longrightarrow> t = t'"
    and "pr < length (privacies s) \<Longrightarrow> \<exists>t. tls s (tp_key s, t) = Some pr"
    and "mset (all_objects s) = mset [0 ..< length (objects s)]"
    and "obj \<in> set (all_objects s) \<longleftrightarrow> obj < length (objects s)"
    and "tp_init s \<Longrightarrow> mutex_ready (tp_lock s)"
proof -
  show m: "mset (all_objects s) = mset [0 ..< length (objects s)]" using assms by (simp add: privacy_inv_def)
  from mset_eq_setD [OF m] show "obj \<in> set (all_objects s) \<longleftrightarrow> obj < length (objects s)" by simp
qed (use assms in \<open>unfold privacy_inv_def, blast+\<close>)

lemma privacy_invI:
  assumes "privacies_set s = [0 ..< length (privacies s)]"
    and "tp_init s \<Longrightarrow> mutex_ready (tp_lock s)"
    and "\<And>k t p. tls s (k, t) = Some p \<Longrightarrow> tp_init s \<and> k = tp_key s \<and> p < length (privacies s)"
    and "\<And>t1 t2 p. tls s (tp_key s, t1) = Some p \<Longrightarrow> tls s (tp_key s, t2) = Some p \<Longrightarrow> t1 = t2"
    and "\<And>p. p < length (privacies s) \<Longrightarrow> \<exists>t. tls s (tp_key s, t) = Some p"
    and "mset (all_objects s) = mset [0 ..< length (objects s)]"
  shows "privacy_inv s"
  unfolding privacy_inv_def using assms by blast

lemma slot_in_all: "pr < length (privacies s) \<Longrightarrow> slot_of s pr no = Some obj \<Longrightarrow> obj \<in> set (all_objects s)"
proof -
  assume pr: "pr < length (privacies s)" and "slot_of s pr no = Some obj"
  then have "no < length (privacies s ! pr)" and "privacies s ! pr ! no = Some obj"
    by (simp_all add: slot_of_def split: if_splits)
  then have "Some obj \<in> set (privacies s ! pr)" by (metis nth_mem)
  then have "obj \<in> set (live_slots (privacies s ! pr))" by (simp add: set_live_slots)
  moreover have "privacies s ! pr \<in> set (privacies s)" using pr by (rule nth_mem)
  ultimately show ?thesis by (auto simp: all_objects_def)
qed

lemma owned_bound: "privacy_inv s \<Longrightarrow> owned s x = Some (obj, v) \<Longrightarrow> obj < length (objects s)"
  using slot_in_all privacy_invD(2,6) by (fastforce simp: owned_def split: prod.splits option.splits)

section \<open>Get\<close>

text \<open>Every call answers well; and the weaker condition that some try to take the lock does.\<close>

definition all_ok :: "os_answers \<Rightarrow> bool" where
  "all_ok os \<longleftrightarrow> mutex_init_ok os \<and> lock_ok os 0 \<and> key_create_ok os \<and> setspecific_ok os \<and> new_vector_ok os \<and> new_object_ok os"

definition lock_taken :: "os_answers \<Rightarrow> bool" where
  "lock_taken os \<longleftrightarrow> (\<exists>i < kMaxTimesTryLock. lock_ok os i)"

lemma all_ok_taken: "all_ok os \<Longrightarrow> lock_taken os"
  by (auto simp: all_ok_def lock_taken_def kMaxTimesTryLock_def intro!: exI [of _ 0])

lemma mutex_ready_Lock [simp]:
  "mutex_ready m \<Longrightarrow> mutex_Lock i l m = (l, m)" "mutex_ready m \<Longrightarrow> mutex_Unlock i m = m"
  by (simp_all add: mutex_Lock_def mutex_raii_def mutex_Unlock_def)

lemma mutex_Lock_True: "mutex_Lock i l m = (True, m') \<Longrightarrow> mutex_ready m'"
  by (auto simp: mutex_Lock_def mutex_raii_def mutex_Init_def split: if_splits)

lemma try_lock_ready:
  "mutex_ready m \<Longrightarrow> k \<le> i \<Longrightarrow> i < k + n \<Longrightarrow> lock_ok os i \<Longrightarrow> try_lock os n k m = (True, m)"
proof (induction n arbitrary: k)
  case (Suc n)
  show ?case
  proof (cases "lock_ok os k")
    case False
    with Suc.prems(2,4) have "Suc k \<le> i" by (metis le_neq_implies_less Suc_leI)
    with Suc False show ?thesis by simp
  qed (simp add: Suc.prems)
qed simp

lemma raii_keeps:
  assumes inv: "privacy_inv s"
  obtains b s1 where "tp_raii os s = (b, s1)" "privacy_inv s1" "owned s1 = owned s" "objects s1 = objects s"
    "b \<Longrightarrow> tp_init s1" "all_ok os \<Longrightarrow> b"
proof (cases "tp_init s")
  case True
  with inv show ?thesis by (intro that [of True s]) (simp_all add: tp_raii_def)
next
  case False
  then have e: "tls s = Map.empty" using privacy_invD(2) [OF inv] by (auto simp: fun_eq_iff) (metis option.exhaust)
  then have none: "privacies s = []" using privacy_invD(4) [OF inv] by fastforce
  have keep: "privacy_inv (s\<lparr>tp_lock := m\<rparr>)" "owned (s\<lparr>tp_lock := m\<rparr>) = owned s" for m
    using privacy_invD(1,5) [OF inv] False e none by (auto simp: all_objects_def owned_def fun_eq_iff intro!: privacy_invI)
  obtain l m where lock: "mutex_Lock (mutex_init_ok os) (lock_ok os 0) (tp_lock s) = (l, m)" by fastforce
  have l: "l" if "all_ok os"
    using lock that by (auto simp: all_ok_def mutex_Lock_def mutex_raii_def mutex_Init_def split: if_splits)
  show ?thesis
  proof (cases "l \<and> key_create_ok os")
    case True
    let ?s1 = "s\<lparr>tp_key := next_key s, next_key := next_key s + 1, tp_init := True, tp_lock := m\<rparr>"
    have ready: "mutex_ready m" using lock True mutex_Lock_True [of _ _ _ m] by simp
    have "tp_raii os s = (True, ?s1)"
      using False True lock ready by (simp add: tp_raii_def tp_Init_def)
    moreover have "privacy_inv ?s1"
      using privacy_invD(1,5) [OF inv] e none ready by (intro privacy_invI) (simp_all add: all_objects_def)
    moreover have "owned ?s1 = owned s" using e by (simp add: owned_def fun_eq_iff)
    ultimately show ?thesis by (intro that [of True ?s1]) simp_all
  next
    case bad: False
    have "\<exists>m'. tp_raii os s = (False, s\<lparr>tp_lock := m'\<rparr>)"
      using False bad lock by (cases l) (auto simp: tp_raii_def tp_Init_def)
    then obtain m' where "tp_raii os s = (False, s\<lparr>tp_lock := m'\<rparr>)" by blast
    moreover have "\<not> all_ok os" using bad l by (auto simp: all_ok_def)
    ultimately show ?thesis using keep by (intro that [of False "s\<lparr>tp_lock := m'\<rparr>"]) simp_all
  qed
qed

text \<open>The vector of the thread, made when it has none.\<close>

lemma Get_privacies_ok:
  assumes os: "lock_taken os" and inv: "privacy_inv s" and init: "tp_init s"
  shows "(\<exists>obj v. owned s (t, no) = Some (obj, v) \<and> Get_privacies os t no s = (Found obj, s))
    \<or> (\<exists>e. owned s (t, no) = None \<and> \<not> all_ok os \<and> Get_privacies os t no s = (Get_Error e, s))
    \<or> (\<exists>pr s1. owned s (t, no) = None \<and> Get_privacies os t no s = (Missing pr, s1) \<and> privacy_inv s1
        \<and> owned s1 = owned s \<and> objects s1 = objects s \<and> tp_init s1 \<and> tls s1 (tp_key s1, t) = Some pr \<and> slot_of s1 pr no = None)"
proof (cases "tls s (tp_key s, t)")
  case (Some pr)
  show ?thesis
  proof (cases "slot_of s pr no")
    case None
    with Some inv init show ?thesis by (intro disjI2) (simp add: Get_privacies_def owned_def)
  next
    case (Some obj)
    with \<open>tls s (tp_key s, t) = Some pr\<close> show ?thesis by (simp add: Get_privacies_def owned_def)
  qed
next
  case None
  show ?thesis
  proof (cases "new_vector_ok os \<and> setspecific_ok os")
    case False
    with None show ?thesis by (intro disjI2 disjI1) (auto simp: Get_privacies_def owned_def all_ok_def)
  next
    case ok: True
    let ?pr = "length (privacies s)"
    let ?s0 = "s\<lparr>privacies := privacies s @ [[]], tls := (tls s)((tp_key s, t) \<mapsto> ?pr)\<rparr>"
    let ?s1 = "?s0\<lparr>privacies_set := privacies_set s @ [?pr]\<rparr>"
    have ready: "mutex_ready (tp_lock s)" using privacy_invD(7) [OF inv init] .
    obtain i where "i < kMaxTimesTryLock" "lock_ok os i" using os by (auto simp: lock_taken_def)
    then have "try_lock os kMaxTimesTryLock 0 (tp_lock s) = (True, tp_lock s)"
      using try_lock_ready [OF ready] by simp
    then have g: "Get_privacies os t no s = (Missing ?pr, ?s1)"
      using None ok ready by (simp add: Get_privacies_def Let_def)
    have range: "tls s (tp_key s, t') \<noteq> Some ?pr" for t' using privacy_invD(2) [OF inv, of "tp_key s" t' ?pr] by auto
    have "privacy_inv ?s1"
    proof (rule privacy_invI)
      fix k t' pr assume "tls ?s1 (k, t') = Some pr"
      then show "tp_init ?s1 \<and> k = tp_key ?s1 \<and> pr < length (privacies ?s1)"
        using init privacy_invD(2) [OF inv, of k t' pr] by (auto split: if_splits)
    next
      fix t1 t2 pr assume "tls ?s1 (tp_key ?s1, t1) = Some pr" "tls ?s1 (tp_key ?s1, t2) = Some pr"
      then show "t1 = t2" using privacy_invD(3) [OF inv, of t1 pr t2] range [of t1] range [of t2]
        by (auto split: if_splits)
    next
      fix pr assume "pr < length (privacies ?s1)"
      then have "pr = ?pr \<or> pr < ?pr" by auto
      then show "\<exists>t'. tls ?s1 (tp_key ?s1, t') = Some pr"
      proof
        assume "pr < ?pr"
        then obtain t' where t': "tls s (tp_key s, t') = Some pr" using privacy_invD(4) [OF inv] by blast
        then have "t' \<noteq> t" using None by auto
        with t' show ?thesis by (intro exI [of _ t']) simp
      qed (intro exI [of _ t], simp)
    qed (use privacy_invD(1,5) [OF inv] ready in \<open>simp_all add: all_objects_def live_slots_def\<close>)
    moreover have "owned ?s1 = owned s"
    proof
      fix x show "owned ?s1 x = owned s x"
      proof (cases x)
        case (Pair t' i)
        have "slot_of ?s1 pr i = slot_of s pr i" if "tls s (tp_key s, t') = Some pr" for pr
          using privacy_invD(2) [OF inv that] by (simp add: slot_of_def nth_append)
        then show ?thesis using None Pair by (auto simp: owned_def slot_of_def nth_append split: option.split)
      qed
    qed
    moreover have "owned s (t, no) = None" using None by (simp add: owned_def)
    ultimately show ?thesis using g init by (intro disjI2) (simp add: slot_of_def)
  qed
qed

lemma put_object_ok:
  assumes inv: "privacy_inv s" and t: "tls s (tp_key s, t) = Some pr" and free: "slot_of s pr no = None"
  obtains s2 where "put_object s pr no v = (length (objects s), s2)" "privacy_inv s2"
    "owned s2 = (owned s)((t, no) \<mapsto> (length (objects s), v))" "tp_init s2 = tp_init s"
proof -
  let ?slots = "privacies s ! pr" and ?obj = "length (objects s)"
  define slots' where "slots' = (if length ?slots \<le> no then ?slots @ replicate (no + 1 - length ?slots) None else ?slots)"
  let ?s2 = "s\<lparr>objects := objects s @ [v], privacies := (privacies s)[pr := slots'[no := Some ?obj]]\<rparr>"
  have pr: "pr < length (privacies s)" using privacy_invD(2) [OF inv t] by simp
  have len: "no < length slots'" by (simp add: slots'_def)
  have none: "slots' ! no = None" using free by (auto simp: slots'_def slot_of_def nth_append split: if_splits)
  have live: "live_slots slots' = live_slots ?slots" by (simp add: slots'_def live_slots_pad)
  have put: "put_object s pr no v = (?obj, ?s2)" by (simp add: put_object_def slots'_def Let_def)
  have "mset (all_objects ?s2) = add_mset ?obj (mset (all_objects s))"
  proof -
    have "mset (live_slots (slots'[no := Some ?obj])) = add_mset ?obj (mset (live_slots ?slots))"
      by (simp only: live_slots_put [OF len none] live)
    from concat_update [where f = live_slots, OF pr this] show ?thesis by (simp add: all_objects_def)
  qed
  with privacy_invD(5) [OF inv] have m: "mset (all_objects ?s2) = mset [0 ..< length (objects ?s2)]" by simp
  have "privacy_inv ?s2"
  proof (rule privacy_invI)
    show "mset (all_objects ?s2) = mset [0 ..< length (objects ?s2)]" by (rule m)
    show "mutex_ready (tp_lock ?s2)" if "tp_init ?s2" using privacy_invD(7) [OF inv] that by simp
    show "privacies_set ?s2 = [0 ..< length (privacies ?s2)]" using privacy_invD(1) [OF inv] by simp
    show "tp_init ?s2 \<and> k = tp_key ?s2 \<and> p < length (privacies ?s2)" if "tls ?s2 (k, t') = Some p" for k t' p
      using privacy_invD(2) [OF inv, of k t' p] that by simp
    show "t1 = t2" if "tls ?s2 (tp_key ?s2, t1) = Some p" "tls ?s2 (tp_key ?s2, t2) = Some p" for t1 t2 p
      using privacy_invD(3) [OF inv, of t1 p t2] that by simp
    show "\<exists>t'. tls ?s2 (tp_key ?s2, t') = Some p" if "p < length (privacies ?s2)" for p
      using privacy_invD(4) [OF inv, of p] that by simp
  qed
  moreover have "owned ?s2 = (owned s)((t, no) \<mapsto> (?obj, v))"
  proof
    fix x :: "nat \<times> nat"
    obtain t' i where x: "x = (t', i)" by (cases x)
    have slot: "slot_of ?s2 pr' i = (if pr' = pr \<and> i = no then Some ?obj else slot_of s pr' i)"
      if "pr' < length (privacies s)" for pr'
    proof (cases "pr' = pr")
      case False
      then show ?thesis by (simp add: slot_of_def)
    next
      case True
      have l: "privacies ?s2 ! pr = slots'[no := Some ?obj]" using pr by simp
      show ?thesis
      proof (cases "i = no")
        case True
        then show ?thesis using \<open>pr' = pr\<close> l len by (simp only: slot_of_def length_list_update) simp
      next
        case False
        have "slot_of ?s2 pr i = (if i < length slots' then slots' ! i else None)"
          unfolding slot_of_def l using False by simp
        also have "\<dots> = slot_of s pr i" by (simp add: slot_of_def slots'_def nth_append)
        finally show ?thesis using True False by simp
      qed
    qed
    have val: "objects ?s2 ! obj = objects s ! obj" if "slot_of s pr' i = Some obj" "pr' < length (privacies s)" for obj pr'
      using slot_in_all [OF that(2,1)] privacy_invD(6) [OF inv] by (simp add: nth_append)
    show "owned ?s2 x = ((owned s)((t, no) \<mapsto> (?obj, v))) x"
    proof (cases "tls s (tp_key s, t')")
      case None
      then show ?thesis using x t by (auto simp: owned_def)
    next
      case (Some pr')
      have pr': "pr' < length (privacies s)" using privacy_invD(2) [OF inv Some] by simp
      have same: "pr' = pr \<longleftrightarrow> t' = t" using privacy_invD(3) [OF inv] Some t by fastforce
      show ?thesis
      proof (cases "t' = t \<and> i = no")
        case True
        then show ?thesis using x Some slot [OF pr'] same by (simp add: owned_def)
      next
        case False
        then have "slot_of ?s2 pr' i = slot_of s pr' i" using slot [OF pr'] same by auto
        then show ?thesis using x Some False val [OF _ pr']
          by (cases "slot_of s pr' i") (auto simp: owned_def)
      qed
    qed
  qed
  ultimately show ?thesis using that put by simp
qed

section \<open>Clients\<close>

text \<open>A thread calls \<open>Get\<close> with an object to copy, with a default object, or only to look.\<close>

datatype 'v privacy_op = PGet nat nat 'v | PGet_Default nat nat 'v | PFind nat nat

fun privacy_step :: "'v thread_privacy \<Rightarrow> os_answers \<times> 'v privacy_op
  \<Rightarrow> ((nat \<times> bool) option \<times> 'v thread_privacy) result" where
  "privacy_step s (os, PGet t no v) = Inr (Get_copy os t no v s)"
| "privacy_step s (os, PGet_Default t no v) = Inr (Get_default os t no v s)"
| "privacy_step s (os, PFind t no) = Inr (map_option (\<lambda>obj. (obj, False)) (privacy_find s t no), s)"

text \<open>
  The specification, on the map from thread and slot to the object and what is in it. \<open>Get\<close> gives
  the object that is there; else a new object, that nobody has; it fails only when a call of the
  system does, and changes nothing then.
\<close>

definition owned_get :: "os_answers \<Rightarrow> nat \<times> nat \<Rightarrow> 'v \<Rightarrow> (nat \<times> nat \<rightharpoonup> nat \<times> 'v)
  \<Rightarrow> (nat \<times> bool) option \<Rightarrow> (nat \<times> nat \<rightharpoonup> nat \<times> 'v) \<Rightarrow> bool" where
  "owned_get os x v h out h' =
     (case out of
        None \<Rightarrow> \<not> all_ok os \<and> h' = h
      | Some (obj, False) \<Rightarrow> (\<exists>w. h x = Some (obj, w)) \<and> h' = h
      | Some (obj, True) \<Rightarrow> h x = None \<and> obj \<notin> fst ` ran h \<and> h' = h(x \<mapsto> (obj, v)))"

fun owned_spec :: "(nat \<times> nat \<rightharpoonup> nat \<times> 'v) \<Rightarrow> os_answers \<times> 'v privacy_op
  \<Rightarrow> (nat \<times> bool) option \<Rightarrow> (nat \<times> nat \<rightharpoonup> nat \<times> 'v) \<Rightarrow> bool" where
  "owned_spec h (os, PGet t no v) out h' = owned_get os (t, no) v h out h'"
| "owned_spec h (os, PGet_Default t no v) out h' = owned_get os (t, no) v h out h'"
| "owned_spec h (os, PFind t no) out h' = (out = map_option (\<lambda>(obj, v). (obj, False)) (h (t, no)) \<and> h' = h)"

lemma Get_default_copy: "Get_default = Get_copy"
  by (simp add: fun_eq_iff Get_default_def Get_copy_def)

lemma Get_copy_ok:
  assumes os: "lock_taken os" and inv: "privacy_inv s"
  shows "\<exists>out s'. Get_copy os t no v s = (out, s') \<and> privacy_inv s' \<and> owned_get os (t, no) v (owned s) out (owned s')"
proof -
  obtain b s1 where init: "tp_raii os s = (b, s1)" and inv1: "privacy_inv s1" and own: "owned s1 = owned s"
    and b: "b \<Longrightarrow> tp_init s1" "all_ok os \<Longrightarrow> b"
    using raii_keeps [OF inv] by metis
  show ?thesis
  proof (cases b)
    case False
    with init inv1 own b(2) show ?thesis by (auto simp: Get_copy_def owned_get_def)
  next
    case True
    consider (found) obj w where "owned s1 (t, no) = Some (obj, w)" "Get_privacies os t no s1 = (Found obj, s1)"
      | (err) e where "\<not> all_ok os" "Get_privacies os t no s1 = (Get_Error e, s1)"
      | (missing) pr s2 where "owned s1 (t, no) = None" "Get_privacies os t no s1 = (Missing pr, s2)" "privacy_inv s2"
          "owned s2 = owned s1" "tls s2 (tp_key s2, t) = Some pr" "slot_of s2 pr no = None"
      using Get_privacies_ok [OF os inv1 b(1) [OF True], of t no] by blast
    then show ?thesis
    proof cases
      case found
      with True init inv1 own show ?thesis by (simp add: Get_copy_def owned_get_def)
    next
      case err
      with True init inv1 own show ?thesis by (simp add: Get_copy_def owned_get_def)
    next
      case missing
      show ?thesis
      proof (cases "new_object_ok os")
        case False
        with missing True init own show ?thesis by (simp add: Get_copy_def owned_get_def all_ok_def)
      next
        case new: True
        obtain s3 where "put_object s2 pr no v = (length (objects s2), s3)" "privacy_inv s3"
          "owned s3 = (owned s2)((t, no) \<mapsto> (length (objects s2), v))"
          using put_object_ok [OF missing(3,5,6)] by metis
        moreover have "length (objects s2) \<notin> fst ` ran (owned s2)"
          using owned_bound [OF missing(3)] by (fastforce simp: ran_def)
        ultimately show ?thesis using missing True init own new
          by (simp add: Get_copy_def owned_get_def)
      qed
    qed
  qed
qed

lemma privacy_find_owned:
  assumes "privacy_inv s"
  shows "privacy_find s t no = map_option fst (owned s (t, no))"
proof (cases "tls s (tp_key s, t)")
  case (Some pr)
  then have "tp_init s" using privacy_invD(2) [OF assms] by blast
  with Some show ?thesis by (cases "slot_of s pr no") (simp_all add: privacy_find_def owned_def)
qed (simp add: privacy_find_def owned_def)

lemma privacy_step_ok:
  assumes "privacy_inv s" and "lock_taken (fst op)"
  shows "\<exists>out s'. privacy_step s op = Inr (out, s') \<and> privacy_inv s' \<and> owned_spec (owned s) op out (owned s')"
proof -
  obtain os c where op: "op = (os, c)" by (cases op)
  with assms have os: "lock_taken os" by simp
  show ?thesis
  proof (cases c)
    case (PFind t no)
    with op assms(1) show ?thesis
      by (auto simp: privacy_find_owned option.map_comp comp_def split_def)
  qed (use Get_copy_ok [OF os assms(1)] op in \<open>auto simp: Get_default_copy\<close>)
qed

interpretation privacy_owned: simulation privacy_step owned_spec "\<lambda>s op. lock_taken (fst op)" privacy_inv owned
  by unfold_locales (use privacy_step_ok in blast)

lemma new_privacy_ok: "privacy_inv new_privacy" "owned new_privacy = Map.empty"
  by (auto simp: privacy_inv_def new_privacy_def all_objects_def owned_def fun_eq_iff)

lemma legal_taken: "(\<forall>op \<in> set ops. lock_taken (fst op)) \<Longrightarrow> legal_ops privacy_step (\<lambda>s op. lock_taken (fst op)) s ops"
  by (induction ops arbitrary: s) (auto split: sum.split)

lemma destroyed_all: "privacy_inv s \<Longrightarrow> mset (privacy_destroyed s) = mset [0 ..< length (objects s)]"
proof -
  assume inv: "privacy_inv s"
  have "map (\<lambda>pr. live_slots (privacies s ! pr)) [0 ..< length (privacies s)] = map live_slots (privacies s)"
    by (rule nth_equalityI) simp_all
  then have "concat (map (\<lambda>pr. live_slots (privacies s ! pr)) (privacies_set s)) = all_objects s"
    by (simp add: privacy_invD(1) [OF inv] all_objects_def)
  moreover have "privacies s = []" if "\<not> tp_init s"
    using that privacy_invD(2,4) [OF inv] by fastforce
  ultimately have "privacy_destroyed s = all_objects s" by (auto simp: privacy_destroyed_def all_objects_def)
  then show ?thesis using privacy_invD(5) [OF inv] by simp
qed

text \<open>
  C10: each thread has one object for a slot. In every sequence of calls of \<open>Get\<close> by any threads
  in which some try to take the lock succeeds, a call gives the object the thread has in the slot
  with \<open>first_create\<close> false; when it has none it gives a new object, that no other thread or
  slot has, with a copy of the argument; and it gives \<open>NULL\<close> only when a call of the system
  fails, with no effect on what any thread has.
\<close>

theorem privacy_is_per_thread:
  assumes "\<forall>op \<in> set ops. lock_taken (fst op)"
  shows "\<exists>outs s'. run_ops privacy_step new_privacy ops = Inr (outs, s')
    \<and> spec_run owned_spec Map.empty ops outs (owned s')"
  using privacy_owned.run_refines [OF new_privacy_ok(1) legal_taken [OF assms]] unfolding new_privacy_ok(2) by blast

text \<open>
  C36: the destructor deletes every object that was ever created exactly once, after every such
  sequence of calls.
\<close>

theorem privacy_frees_all:
  assumes "\<forall>op \<in> set ops. lock_taken (fst op)" and "run_ops privacy_step new_privacy ops = Inr (outs, s)"
  shows "mset (privacy_destroyed s) = mset [0 ..< length (objects s)]"
proof -
  from privacy_owned.run_refines [OF new_privacy_ok(1) legal_taken [OF assms(1)]] assms(2)
  have "privacy_inv s" by auto
  then show ?thesis by (rule destroyed_all)
qed

text \<open>Two threads, three calls; the vector of the second is refused once.\<close>

definition good_os :: os_answers where
  "good_os = \<lparr>mutex_init_ok = True, lock_ok = (\<lambda>i. True), key_create_ok = True, setspecific_ok = True,
     new_vector_ok = True, new_object_ok = True\<rparr>"

lemma good_os_ok: "all_ok good_os" "lock_taken good_os" "lock_taken (good_os\<lparr>new_vector_ok := False\<rparr>)"
  using all_ok_taken [of good_os] by (simp_all add: all_ok_def lock_taken_def good_os_def)

lemmas privacy_run_simps = Get_copy_def tp_raii_def tp_Init_def mutex_Lock_def mutex_raii_def mutex_Init_def
  mutex_Unlock_def Get_privacies_def slot_of_def put_object_def Let_def new_privacy_def

lemma try_lock_first: "lock_ok os 0 \<Longrightarrow> mutex_ready m \<Longrightarrow> try_lock os kMaxTimesTryLock 0 m = (True, m)"
  using try_lock_ready [of m 0 0 kMaxTimesTryLock os] by (simp add: kMaxTimesTryLock_def)

definition privacy_calls :: "(os_answers \<times> string privacy_op) list" where
  "privacy_calls = [(good_os, PGet 1 2 ''a''), (good_os\<lparr>new_vector_ok := False\<rparr>, PGet 2 0 ''b''),
     (good_os, PGet 2 0 ''b''), (good_os, PGet 1 2 ''c'')]"

lemma privacy_calls_taken: "\<forall>op \<in> set privacy_calls. lock_taken (fst op)"
  by (simp add: privacy_calls_def good_os_ok)

theorem privacy_is_per_thread_witness:
  "\<exists>outs s'. run_ops privacy_step new_privacy privacy_calls = Inr (outs, s')
    \<and> spec_run owned_spec Map.empty privacy_calls outs (owned s')"
  by (rule privacy_is_per_thread [OF privacy_calls_taken])

lemma privacy_calls_run:
  "map_option (\<lambda>(outs, s). (outs, objects s, privacy_destroyed s))
      (case run_ops privacy_step new_privacy privacy_calls of Inl e \<Rightarrow> None | Inr r \<Rightarrow> Some r)
    = Some ([Some (0, True), None, Some (1, True), Some (0, False)], [''a'', ''b''], [0, 1])"
  by (simp add: privacy_calls_def good_os_def privacy_run_simps try_lock_first privacy_destroyed_def live_slots_def
    eval_nat_numeral)

theorem privacy_frees_all_witness:
  "mset (privacy_destroyed (snd (projr (run_ops privacy_step new_privacy privacy_calls)))) = {#0, 1#}"
proof -
  obtain outs s where run: "run_ops privacy_step new_privacy privacy_calls = Inr (outs, s)" and n: "length (objects s) = 2"
    using privacy_calls_run by (auto split: sum.splits)
  have "mset (privacy_destroyed s) = mset [0 ..< 2]" using privacy_frees_all [OF privacy_calls_taken run] n by simp
  then show ?thesis using run by (simp add: upt_rec)
qed

section \<open>When the lock is never taken\<close>

text \<open>
  \<open>Get_\<close> gives up with \<open>-3\<close> after it has set the vector of the thread. The next call finds the
  vector there and does not put it into \<open>privacies_set_\<close> either.
\<close>

lemma try_lock_fails: "mutex_ready m \<Longrightarrow> (\<forall>i. k \<le> i \<and> i < k + n \<longrightarrow> \<not> lock_ok os i) \<Longrightarrow> try_lock os n k m = (False, m)"
  by (induction n arbitrary: k) simp_all

text \<open>
  when no try takes the lock, the first \<open>Get\<close> of a thread gives \<open>NULL\<close>. The next one, all
  calls answering well, gives a new object as it should, and this object is one the destructor
  does not delete.
\<close>

theorem untaken_lock_leaks:
  assumes inv: "privacy_inv s" and init: "tp_init s" and none: "tls s (tp_key s, t) = None"
    and os1: "new_vector_ok os1" "setspecific_ok os1" "\<not> lock_taken os1" and os2: "all_ok os2"
  shows "\<exists>s1 s2 obj. Get_copy os1 t no v s = (None, s1) \<and> Get_copy os2 t no v s1 = (Some (obj, True), s2)
    \<and> owned s2 (t, no) = Some (obj, v) \<and> obj \<notin> set (privacy_destroyed s2)"
proof -
  let ?pr = "length (privacies s)" and ?obj = "length (objects s)"
  let ?s1 = "s\<lparr>privacies := privacies s @ [[]], tls := (tls s)((tp_key s, t) \<mapsto> ?pr)\<rparr>"
  let ?s2 = "?s1\<lparr>objects := objects s @ [v], privacies := privacies s @ [replicate no None @ [Some ?obj]]\<rparr>"
  have ready: "mutex_ready (tp_lock s)" using privacy_invD(7) [OF inv init] .
  have "try_lock os1 kMaxTimesTryLock 0 (tp_lock s) = (False, tp_lock s)"
    using os1(3) by (intro try_lock_fails [OF ready]) (auto simp: lock_taken_def)
  then have g1: "Get_copy os1 t no v s = (None, ?s1)"
    using init none os1 by (simp add: Get_copy_def tp_raii_def Get_privacies_def Let_def)
  have pad: "(replicate (Suc no) None)[no := Some ?obj] = replicate no None @ [Some ?obj]"
    by (simp add: list_update_append flip: replicate_append_same)
  have g2: "Get_copy os2 t no v ?s1 = (Some (?obj, True), ?s2)"
    using init os2 pad by (simp add: Get_copy_def tp_raii_def Get_privacies_def slot_of_def put_object_def all_ok_def Let_def)
  have "slot_of ?s2 ?pr no = Some ?obj" by (simp add: slot_of_def nth_append)
  then have "owned ?s2 (t, no) = Some (?obj, v)" by (simp add: owned_def)
  moreover have "?obj \<notin> set (privacy_destroyed ?s2)"
  proof -
    have "map (\<lambda>pr. live_slots (privacies ?s2 ! pr)) (privacies_set s) = map (\<lambda>pr. live_slots (privacies s ! pr)) (privacies_set s)"
      by (rule map_cong) (simp_all add: privacy_invD(1) [OF inv] nth_append)
    moreover have "privacies_set ?s2 = privacies_set s" "tp_init ?s2 = tp_init s" by simp_all
    ultimately have "privacy_destroyed ?s2 = privacy_destroyed s"
      by (simp only: privacy_destroyed_def)
    then show ?thesis using mset_eq_setD [OF destroyed_all [OF inv]] by simp
  qed
  ultimately show ?thesis using g1 g2 by blast
qed

definition untaken_os :: os_answers where
  "untaken_os = good_os\<lparr>lock_ok := (\<lambda>i. False)\<rparr>"

theorem untaken_lock_leaks_witness:
  "\<exists>s1 s2 obj. Get_copy untaken_os 1 2 ''a'' (snd (tp_Init good_os new_privacy)) = (None, s1)
    \<and> Get_copy good_os 1 2 ''a'' s1 = (Some (obj, True), s2)
    \<and> owned s2 (1, 2) = Some (obj, ''a'') \<and> obj \<notin> set (privacy_destroyed s2)"
proof (rule untaken_lock_leaks)
  obtain b s where "tp_raii good_os (new_privacy :: string thread_privacy) = (b, s)" "privacy_inv s" "tp_init s"
    using raii_keeps [OF new_privacy_ok(1), of good_os] good_os_ok(1) by metis
  moreover have "tp_raii good_os new_privacy = tp_Init good_os (new_privacy :: string thread_privacy)" by (simp add: tp_raii_def new_privacy_def)
  ultimately show "privacy_inv (snd (tp_Init good_os new_privacy) :: string thread_privacy)"
    "tp_init (snd (tp_Init good_os new_privacy) :: string thread_privacy)"
    by simp_all
  show "tls (snd (tp_Init good_os new_privacy) :: string thread_privacy) (tp_key (snd (tp_Init good_os new_privacy) :: string thread_privacy), 1) = None"
    by (simp add: good_os_def privacy_run_simps)
qed (simp_all add: untaken_os_def good_os_def lock_taken_def all_ok_def)

section \<open>Two threads that initialise\<close>

text \<open>
  \<open>XFC_RAII_INIT\<close> reads \<open>init_\<close> without the lock and \<open>Init_\<close> does not read it again under the
  lock, so two threads that both find it false both run \<open>Init_\<close>, and the first may call \<open>Get\<close>
  in between.
\<close>

text \<open>
  then the first thread has an object in the slot, and after the second \<open>Init_\<close> its next
  \<open>Get\<close> gives a different one and says that it was created first.
\<close>

theorem second_Init_forgets:
  assumes "all_ok os"
  shows "\<exists>s1 s2 s3 s4 obj obj'. tp_Init os new_privacy = (True, s1) \<and> Get_copy os t no v s1 = (Some (obj, True), s2)
    \<and> tp_Init os s2 = (True, s3) \<and> Get_copy os t no w s3 = (Some (obj', True), s4) \<and> obj' \<noteq> obj"
proof -
  define m where "m = \<lparr>mutex_ready = True\<rparr>"
  have ready: "mutex_ready m" by (simp add: m_def)
  have lock: "try_lock os kMaxTimesTryLock 0 m = (True, m)"
    using all_ok_taken [OF assms] try_lock_ready [OF ready] by (fastforce simp: lock_taken_def)
  let ?s1 = "new_privacy\<lparr>next_key := 1, tp_init := True, tp_lock := m\<rparr> :: 'a thread_privacy"
  have i1: "tp_Init os new_privacy = (True, ?s1)"
    using assms by (simp add: tp_Init_def new_privacy_def all_ok_def mutex_Lock_def mutex_raii_def mutex_Init_def mutex_Unlock_def m_def)
  have g: "Get_copy os t no x s = (Some (length (objects s), True), snd (Get_copy os t no x s))
      \<and> length (objects (snd (Get_copy os t no x s))) = Suc (length (objects s))
      \<and> tls (snd (Get_copy os t no x s)) = (tls s)((tp_key s, t) \<mapsto> length (privacies s))
      \<and> next_key (snd (Get_copy os t no x s)) = next_key s
      \<and> tp_lock (snd (Get_copy os t no x s)) = m"
    if "tp_init s" "tls s (tp_key s, t) = None" "tp_lock s = m" for x and s :: "'a thread_privacy"
    using that assms lock ready
    by (simp add: Get_copy_def tp_raii_def Get_privacies_def put_object_def all_ok_def Let_def)
  define s2 where "s2 = snd (Get_copy os t no v ?s1)"
  have s1: "tp_init ?s1" "tls ?s1 (tp_key ?s1, t) = None" "tp_lock ?s1 = m" by (simp_all add: new_privacy_def)
  let ?s3 = "s2\<lparr>tp_key := 1, next_key := 2, tp_init := True\<rparr>"
  note g1 = g [OF s1, of v, folded s2_def]
  have i2: "tp_Init os s2 = (True, ?s3)"
    using assms g1 ready by (simp add: tp_Init_def all_ok_def)
  have s3: "tp_init ?s3" "tls ?s3 (tp_key ?s3, t) = None" "tp_lock ?s3 = m"
    using g1 by (simp_all add: new_privacy_def)
  have ne: "length (objects ?s3) \<noteq> length (objects ?s1)" using g1 by simp
  show ?thesis
    by (intro exI conjI) (rule i1, rule conjunct1 [OF g1], rule i2, rule conjunct1 [OF g [OF s3]], rule ne)
qed


theorem second_Init_forgets_witness:
  "\<exists>s1 s2 s3 s4 obj obj'. tp_Init good_os new_privacy = (True, s1) \<and> Get_copy good_os 1 2 ''a'' s1 = (Some (obj, True), s2)
    \<and> tp_Init good_os s2 = (True, s3) \<and> Get_copy good_os 1 2 ''b'' s3 = (Some (obj', True), s4) \<and> obj' \<noteq> obj"
  by (rule second_Init_forgets [OF good_os_ok(1)])

end
