(* ===== verification/Private_Pool.thy ===== *)
theory Private_Pool
  imports Pool_Spec Privacy_Spec
begin

text \<open>
  \<open>ThreadPrivatePool\<close> of \<^verbatim>\<open>src/thread_private_pool.hpp\<close>: a pool of objects for every thread and
  category, made of \<open>ThreadPrivacy\<close> and \<open>PoolObjs\<close>. The theorem at the end composes what
  \<open>Privacy_Spec\<close> and \<open>Pool_Spec\<close> show of the two.

  An object is its category. All pools allocate from one store, which a pool is lent for a call;
  an object may be freed by another thread than the one that got it.
\<close>

section \<open>The class\<close>

record private_pool =
  tp_pools :: "nat pool thread_privacy"
  son_store :: "nat list"
  son_deleted :: "nat list"
  num_sons :: "64 word"

definition new_private_pool :: private_pool where
  "new_private_pool = \<lparr>tp_pools = new_privacy, son_store = [], son_deleted = [], num_sons = 0\<rparr>"

text \<open>\<open>PoolObjs<Father>()\<close> for objects of category \<open>father\<close> and size \<open>sz\<close>.\<close>

definition default_pool :: "nat \<Rightarrow> nat \<Rightarrow> nat pool" where
  "default_pool father sz = new_pool keep_default father sz 0 65536 True True 262144"

definition lend :: "private_pool \<Rightarrow> nat pool \<Rightarrow> nat pool" where
  "lend s p = p\<lparr>objs := son_store s, deleted := son_deleted s\<rparr>"

definition give_back :: "nat \<Rightarrow> nat pool \<Rightarrow> private_pool \<Rightarrow> private_pool" where
  "give_back i p s =
     s\<lparr>tp_pools := (tp_pools s)\<lparr>objects := (objects (tp_pools s))[i := p]\<rparr>, son_store := objs p, son_deleted := deleted p\<rparr>"

definition Get_son :: "os_answers \<Rightarrow> nat \<Rightarrow> nat \<Rightarrow> nat \<Rightarrow> nat \<Rightarrow> private_pool \<Rightarrow> (nat \<times> private_pool) result" where
  "Get_son os father sz t cat s =
     (let s0 = s\<lparr>num_sons := num_sons s + 1\<rparr> in
      case Get_default os t cat (default_pool father sz) (tp_pools s0) of
        (None, ps) \<Rightarrow> Inl Null_Deref
      | (Some (i, first_create), ps) \<Rightarrow>
          let s1 = s0\<lparr>tp_pools := ps\<rparr> in
          rbind (pool_Get True (lend s1 (objects ps ! i))) (\<lambda>(son, p).
          case son of
            None \<Rightarrow> Inl Null_Deref
          | Some q \<Rightarrow>
              let s2 = give_back i p s1 in
              if cat = son_store s2 ! q then Inr (q, s2)
              else Inr (length (son_store s2),
                s2\<lparr>son_deleted := son_deleted s2 @ [q], son_store := son_store s2 @ [cat]\<rparr>)))"

definition Free_son :: "os_answers \<Rightarrow> nat \<Rightarrow> nat \<Rightarrow> nat \<Rightarrow> nat \<Rightarrow> private_pool \<Rightarrow> private_pool result" where
  "Free_son os father sz t q s =
     (let s0 = s\<lparr>num_sons := num_sons s - 1\<rparr> in
      case Get_default os t (son_store s0 ! q) (default_pool father sz) (tp_pools s0) of
        (None, ps) \<Rightarrow> Inl Null_Deref
      | (Some (i, first_create), ps) \<Rightarrow>
          let s1 = s0\<lparr>tp_pools := ps\<rparr> in
          rbind (pool_Free True (lend s1 (objects ps ! i)) (Some q)) (\<lambda>p. Inr (give_back i p s1)))"

section \<open>A client\<close>

datatype son_op = Son_Get nat nat | Son_Free nat nat

fun son_step :: "nat \<Rightarrow> nat \<Rightarrow> private_pool \<times> nat set \<Rightarrow> os_answers \<times> son_op \<Rightarrow> (nat option \<times> private_pool \<times> nat set) result" where
  "son_step father sz (s, out) (os, Son_Get t cat) =
     map_sum id (\<lambda>(q, s'). (Some q, s', insert q out)) (Get_son os father sz t cat s)"
| "son_step father sz (s, out) (os, Son_Free t q) =
     map_sum id (\<lambda>s'. (None, s', out - {q})) (Free_son os father sz t q s)"

text \<open>The calls of the system succeed, and what is freed was handed out.\<close>

fun son_pre :: "private_pool \<times> nat set \<Rightarrow> os_answers \<times> son_op \<Rightarrow> bool" where
  "son_pre (s, out) (os, Son_Get t cat) = all_ok os"
| "son_pre (s, out) (os, Son_Free t q) = (all_ok os \<and> q \<in> out)"

text \<open>The specification, on the objects handed out and their categories.\<close>

fun son_spec :: "(nat \<rightharpoonup> nat) \<Rightarrow> os_answers \<times> son_op \<Rightarrow> nat option \<Rightarrow> (nat \<rightharpoonup> nat) \<Rightarrow> bool" where
  "son_spec out (os, Son_Get t cat) r out' = (\<exists>q. r = Some q \<and> q \<notin> dom out \<and> out' = out(q \<mapsto> cat))"
| "son_spec out (os, Son_Free t q) r out' = (r = None \<and> out' = out(q := None))"

section \<open>One pool\<close>

text \<open>A pool as the thread keeps it, with the size of its blocks at least one.\<close>

definition unused :: "nat pool \<Rightarrow> bool" where
  "unused p \<longleftrightarrow> \<not> pool_init p \<and> current_row p = 0 \<and> current_col p = 0 \<and> num_blocks_alloc p = 0 \<and> init_num_objs p = 0
     \<and> max_num_blocks p \<noteq> 0 \<and> 0 < num_objs_per_block p"

definition pool_fit :: "nat pool \<Rightarrow> bool" where
  "pool_fit p \<longleftrightarrow> pool_to_resize p \<and> new_if_no_resize p \<and> (if pool_init p then pool_ready p else unused p)"

lemma default_fit: "0 < sz \<Longrightarrow> pool_fit (default_pool father sz) \<and> avail (default_pool father sz) = []"
  by (simp add: default_pool_def new_pool_def pool_fit_def unused_def avail_def div_greater_zero_iff)

lemma lend_fit [simp]: "pool_fit (p\<lparr>objs := os, deleted := dl\<rparr>) = pool_fit p" "avail (p\<lparr>objs := os, deleted := dl\<rparr>) = avail p"
  by (simp_all add: pool_fit_def unused_def pool_ready_def pool_shape_def blocks_ok_def avail_def)

text \<open>The first call makes the array.\<close>

lemma fit_raii:
  assumes "pool_fit p"
  obtains p1 where "raii_pool p = Inr (True, p1)" "pool_ready p1" "avail p1 = avail p" "objs p1 = objs p" "deleted p1 = deleted p"
    "pool_to_resize p1" "new_if_no_resize p1"
proof (cases "pool_init p")
  case True
  with assms show ?thesis by (intro that [of p]) (simp_all add: raii_pool_def pool_fit_def)
next
  case False
  then have u: "unused p" "pool_to_resize p" "new_if_no_resize p" using assms by (simp_all add: pool_fit_def)
  let ?p = "p\<lparr>pool_array := True, pool_objs := Map.empty, pool_init := True\<rparr>"
  have "raii_pool p = Inr (True, ?p)" using u False by (simp add: raii_pool_def pool_Init_def unused_def)
  moreover have "pool_ready ?p" "avail ?p = avail p"
    using u by (simp_all add: unused_def pool_ready_def pool_shape_def blocks_ok_def avail_def)
  ultimately show ?thesis using u by (intro that [of ?p]) simp_all
qed

lemma step_fit: "pool_step_ok p p' \<Longrightarrow> pool_to_resize p \<Longrightarrow> new_if_no_resize p \<Longrightarrow> pool_fit p'"
  by (simp add: pool_step_ok_def pool_fit_def same_pool_def pool_ready_def)

lemma fit_Get:
  assumes "pool_fit p"
  obtains q p' k where "pool_Get True p = Inr (Some q, p')" "pool_fit p'" "deleted p' = deleted p"
    "length (objs p') = length (objs p) + k" "take (length (objs p)) (objs p') = objs p"
    "mset (avail p') + {#q#} = mset (avail p) + mset [length (objs p) ..< length (objs p) + k]"
proof -
  obtain p1 where p1: "raii_pool p = Inr (True, p1)" "pool_ready p1" "avail p1 = avail p" "objs p1 = objs p" "deleted p1 = deleted p"
    "pool_to_resize p1" "new_if_no_resize p1" by (rule fit_raii [OF assms])
  have g: "pool_Get True p = pool_get p1" using p1(1) by (simp add: pool_Get_def)
  show ?thesis
  proof (cases "avail p1 = []")
    case False
    obtain p' where p': "pool_get p1 = Inr (Some (last (avail p1)), p')" "pool_step_ok p1 p'" "avail p' = butlast (avail p1)"
      "objs p' = objs p1" "deleted p' = deleted p1"
      using get_stack [OF p1(2) False] by blast
    have "mset (butlast (avail p1) @ [last (avail p1)]) = mset (avail p1)" using False by simp
    then have "mset (butlast (avail p1)) + {#last (avail p1)#} = mset (avail p1)" by simp
    with that [of _ p' 0] p' p1 g step_fit [OF p'(2)] show ?thesis by simp
  next
    case True
    let ?f = "length (objs p1)" and ?n = "num_objs_per_block p1"
    define grow where "grow = (pool_to_resize p1 \<and> num_blocks_alloc p1 < max_num_blocks p1)"
    obtain p' where p': "pool_step_ok p1 p'" "deleted p' = deleted p1"
      "pool_get p1 = Inr (if grow then Some (?f + ?n - 1) else if new_if_no_resize p1 then Some ?f else None, p')"
      "avail p' = (if grow then [?f ..< ?f + ?n - 1] else [])"
      "objs p' = objs p1 @ (if grow then replicate ?n (InitObj p1 (default_obj p1)) else if new_if_no_resize p1 then [InitObj p1 (default_obj p1)] else [])"
      using get_empty [OF p1(2) True] unfolding grow_def by blast
    obtain m where n: "?n = Suc m" using p1(2) by (cases ?n) (auto simp: pool_ready_def pool_shape_def)
    then have "mset [?f ..< ?f + ?n - 1] + {#?f + ?n - 1#} = mset [?f ..< ?f + ?n]" by simp
    note m = this
    show ?thesis
    proof (cases grow)
      case True
      then show ?thesis
        by (intro that [of "?f + ?n - 1" p' ?n]) (use p' p1 g m step_fit [OF p'(1)] \<open>avail p1 = []\<close> in simp_all)
    next
      case False
      then show ?thesis
        by (intro that [of ?f p' 1]) (use p' p1 g step_fit [OF p'(1)] \<open>avail p1 = []\<close> in simp_all)
    qed
  qed
qed

lemma fit_Free:
  assumes "pool_fit p"
  obtains p' where "pool_Free True p (Some q) = Inr p'" "pool_fit p'" "deleted p' = deleted p" "objs p' = objs p"
    "mset (avail p') = mset (avail p) \<or> mset (avail p') = mset (avail p) + {#q#}"
proof -
  obtain p1 where p1: "raii_pool p = Inr (True, p1)" "pool_ready p1" "avail p1 = avail p" "objs p1 = objs p" "deleted p1 = deleted p"
    "pool_to_resize p1" "new_if_no_resize p1" by (rule fit_raii [OF assms])
  from put_stack [OF p1(2), of q] p1(6) obtain p' where p': "pool_put p1 q = Inr p'" "pool_step_ok p1 p'" "objs p' = objs p1"
    "avail p' = avail p1 \<or> avail p' = avail p1 @ [q]" "deleted p' = deleted p1" by (auto split: if_splits)
  show ?thesis
    by (rule that [of p']) (use p' p1 step_fit [OF p'(2)] in \<open>auto simp: pool_Free_def\<close>)
qed

section \<open>All pools\<close>

definition once :: "nat multiset \<Rightarrow> nat \<Rightarrow> bool" where
  "once M n \<longleftrightarrow> (\<forall>x. count M x \<le> 1) \<and> (\<forall>x \<in># M. x < n)"

lemma once_sub: "once M n \<Longrightarrow> M' \<subseteq># M \<Longrightarrow> once M' n"
  unfolding once_def by (meson le_trans mset_subset_eqD mset_subset_eq_count)

lemma once_grow: "once M n \<Longrightarrow> once (M + mset [n ..< n + k]) (n + k)"
proof -
  assume M: "once M n"
  have "count M x + count (mset [n ..< n + k]) x \<le> 1" for x
  proof (cases "x < n")
    case True
    then have "count (mset [n ..< n + k]) x = 0" by (simp add: count_eq_zero_iff)
    with M show ?thesis by (simp add: once_def)
  next
    case False
    then have "count M x = 0" using M by (auto simp: once_def count_eq_zero_iff)
    moreover have "count (mset [n ..< n + k]) x \<le> 1" by (simp add: count_mset_set')
    ultimately show ?thesis by simp
  qed
  with M show ?thesis by (auto simp: once_def)
qed

lemma once_out: "once (P + mset_set out + D) n \<Longrightarrow> finite out \<Longrightarrow> x \<in># P \<Longrightarrow> x \<notin> out"
proof
  assume "once (P + mset_set out + D) n" "finite out" "x \<in># P" "x \<in> out"
  then have "count P x + 1 \<le> 1" "0 < count P x" by (auto simp: once_def dest!: spec [of _ x])
  then show False by simp
qed

definition all_pooled :: "nat pool list \<Rightarrow> nat multiset" where
  "all_pooled ps = (\<Sum>p\<in>#mset ps. mset (avail p))"

definition all_sons :: "private_pool \<Rightarrow> nat set \<Rightarrow> nat multiset" where
  "all_sons s out = all_pooled (objects (tp_pools s)) + mset_set out + mset (son_deleted s)"

definition son_inv :: "private_pool \<times> nat set \<Rightarrow> bool" where
  "son_inv = (\<lambda>(s, out). privacy_inv (tp_pools s) \<and> (\<forall>p \<in> set (objects (tp_pools s)). pool_fit p) \<and> finite out
     \<and> once (all_sons s out) (length (son_store s)) \<and> num_sons s = of_nat (card out))"

definition son_abs :: "private_pool \<times> nat set \<Rightarrow> nat \<rightharpoonup> nat" where
  "son_abs = (\<lambda>(s, out) q. if q \<in> out then Some (son_store s ! q) else None)"

lemma Get_default_ok:
  assumes os: "all_ok os" and inv: "privacy_inv s"
  obtains i first s' where "Get_default os t no v s = (Some (i, first), s')" "privacy_inv s'" "i < length (objects s')"
    "objects s' = objects s \<or> objects s' = objects s @ [v]"
proof -
  obtain s1 where s1: "tp_raii os s = (True, s1)" "privacy_inv s1" "Privacy_Spec.owned s1 = Privacy_Spec.owned s" "objects s1 = objects s" "tp_init s1"
    using raii_keeps [OF inv, of os] os by metis
  consider (found) obj w where "Privacy_Spec.owned s1 (t, no) = Some (obj, w)" "Get_privacies os t no s1 = (Found obj, s1)"
    | (new) pr s2 where "Get_privacies os t no s1 = (Missing pr, s2)" "privacy_inv s2" "objects s2 = objects s1" "tls s2 (tp_key s2, t) = Some pr"
      "slot_of s2 pr no = None"
    using Get_privacies_ok [OF all_ok_taken [OF os] s1(2,5), of t no] os by blast
  then show ?thesis
  proof cases
    case found
    from that [of obj False s1] found s1 owned_bound [OF s1(2) found(1)] show ?thesis by (simp add: Get_default_def)
  next
    case new
    obtain s3 where s3: "put_object s2 pr no v = (length (objects s2), s3)" "privacy_inv s3"
      by (rule put_object_ok [OF new(2,4,5)])
    have o: "objects s3 = objects s2 @ [v]" using s3(1) by (auto simp: put_object_def Let_def)
    from that [of "length (objects s2)" True s3] s3 s1 new o os show ?thesis by (simp add: Get_default_def all_ok_def)
  qed
qed

lemma privacy_put [simp]: "privacy_inv (s\<lparr>objects := (objects s)[i := p]\<rparr>) = privacy_inv s"
  by (simp add: privacy_inv_def all_objects_def)

text \<open>The pool that \<open>Get\<close> of \<open>ThreadPrivacy\<close> finds or makes for a call.\<close>

lemma son_pool:
  assumes os: "all_ok os" and sz: "0 < sz" and inv: "son_inv (s, out)"
  obtains i first ps where "Get_default os t no (default_pool father sz) (tp_pools s) = (Some (i, first), ps)"
    "privacy_inv ps" "i < length (objects ps)" "\<forall>p \<in> set (objects ps). pool_fit p" "all_pooled (objects ps) = all_pooled (objects (tp_pools s))"
proof -
  obtain i first ps where ps: "Get_default os t no (default_pool father sz) (tp_pools s) = (Some (i, first), ps)" "privacy_inv ps" "i < length (objects ps)"
    "objects ps = objects (tp_pools s) \<or> objects ps = objects (tp_pools s) @ [default_pool father sz]"
    by (rule Get_default_ok [OF os]) (use inv in \<open>auto simp: son_inv_def\<close>)
  show ?thesis
    by (rule that [OF ps(1-3)]) (use ps(4) inv default_fit [OF sz] in \<open>auto simp: son_inv_def all_pooled_def\<close>)
qed

lemma pooled_update: "i < length ps \<Longrightarrow> all_pooled (ps[i := p]) + mset (avail (ps ! i)) = all_pooled ps + mset (avail p)"
  using sum_update [of i ps "\<lambda>p. mset (avail p)" p] by (simp add: all_pooled_def)

lemma Get_son_ok:
  assumes os: "all_ok os" and sz: "0 < sz" and inv: "son_inv (s, out)"
  obtains q s' where "Get_son os father sz t cat s = Inr (q, s')" "q \<notin> out" "son_inv (s', insert q out)" "son_store s' ! q = cat"
    "\<And>x. x \<in> out \<Longrightarrow> son_store s' ! x = son_store s ! x"
proof -
  obtain i first ps where ps: "Get_default os t cat (default_pool father sz) (tp_pools s) = (Some (i, first), ps)"
    "privacy_inv ps" "i < length (objects ps)" "\<forall>p \<in> set (objects ps). pool_fit p" "all_pooled (objects ps) = all_pooled (objects (tp_pools s))"
    by (rule son_pool [OF os sz inv])
  let ?s1 = "s\<lparr>num_sons := num_sons s + 1, tp_pools := ps\<rparr>" and ?p = "objects ps ! i"
  have fin: "finite out" and M: "once (all_sons s out) (length (son_store s))" and num: "num_sons s = of_nat (card out)"
    using inv by (simp_all add: son_inv_def)
  have "pool_fit (lend ?s1 ?p)" using ps(3,4) by (simp add: lend_def)
  then obtain q p' k where p': "pool_Get True (lend ?s1 ?p) = Inr (Some q, p')" "pool_fit p'" "deleted p' = son_deleted s"
    "length (objs p') = length (son_store s) + k" "take (length (son_store s)) (objs p') = son_store s"
    "mset (avail p') + {#q#} = mset (avail ?p) + mset [length (son_store s) ..< length (son_store s) + k]"
    by (rule fit_Get) (simp add: lend_def)
  let ?s2 = "give_back i p' ?s1" and ?n = "length (son_store s)"
  let ?P = "all_pooled ((objects ps)[i := p'])"
  have "?P + {#q#} + mset (avail ?p) = all_pooled (objects ps) + (mset (avail p') + {#q#})"
    using pooled_update [OF ps(3), of p'] by simp
  also have "\<dots> = all_pooled (objects ps) + mset [?n ..< ?n + k] + mset (avail ?p)" unfolding p'(6) by simp
  finally have P: "?P + {#q#} = all_pooled (objects (tp_pools s)) + mset [?n ..< ?n + k]" using ps(5) by simp
  have "?P + {#q#} + mset_set out + mset (son_deleted s) = all_sons s out + mset [?n ..< ?n + k]"
    unfolding P all_sons_def by simp
  then have O: "once (?P + {#q#} + mset_set out + mset (son_deleted s)) (length (objs p'))"
    using once_grow [OF M, of k] p'(4) by simp
  have q: "q \<notin> out" using once_out [OF O fin, of q] by simp
  have fit: "\<forall>p \<in> set ((objects ps)[i := p']). pool_fit p" using ps(4) p'(2) set_update_subset_insert by fastforce
  have len: "x < ?n" if "x \<in> out" for x using M fin that by (auto simp: once_def all_sons_def)
  have old: "objs p' ! x = son_store s ! x" if "x < ?n" for x using p'(5) that by (metis nth_take)
  show ?thesis
  proof (cases "cat = objs p' ! q")
    case True
    show ?thesis
    proof (rule that [of q ?s2])
      show "Get_son os father sz t cat s = Inr (q, ?s2)" using ps(1) p'(1) True by (simp add: Get_son_def Let_def give_back_def)
      have "all_sons ?s2 (insert q out) = ?P + {#q#} + mset_set out + mset (son_deleted s)"
        using q fin p'(3) by (simp add: all_sons_def give_back_def)
      then show "son_inv (?s2, insert q out)" using O ps(2) fit fin q num by (simp add: son_inv_def give_back_def)
    qed (use q True old len in \<open>simp_all add: give_back_def\<close>)
  next
    case False
    let ?m = "length (objs p')"
    let ?s3 = "?s2\<lparr>son_deleted := son_deleted s @ [q], son_store := objs p' @ [cat]\<rparr>"
    have m: "?m \<notin> out" using len p'(4) by fastforce
    show ?thesis
    proof (rule that [of ?m ?s3])
      show "Get_son os father sz t cat s = Inr (?m, ?s3)" using ps(1) p'(1,3) False by (simp add: Get_son_def Let_def give_back_def)
      have "all_sons ?s3 (insert ?m out) = ?P + {#q#} + mset_set out + mset (son_deleted s) + mset [?m ..< ?m + 1]"
        using m fin by (simp add: all_sons_def give_back_def)
      then show "son_inv (?s3, insert ?m out)" using once_grow [OF O, of 1] ps(2) fit fin m num by (simp add: son_inv_def give_back_def)
    qed (use m old len p'(4) in \<open>auto simp: give_back_def nth_append dest!: len\<close>)
  qed
qed

lemma Free_son_ok:
  assumes os: "all_ok os" and sz: "0 < sz" and inv: "son_inv (s, out)" and q: "q \<in> out"
  obtains s' where "Free_son os father sz t q s = Inr s'" "son_inv (s', out - {q})" "son_store s' = son_store s"
proof -
  obtain i first ps where ps: "Get_default os t (son_store s ! q) (default_pool father sz) (tp_pools s) = (Some (i, first), ps)"
    "privacy_inv ps" "i < length (objects ps)" "\<forall>p \<in> set (objects ps). pool_fit p" "all_pooled (objects ps) = all_pooled (objects (tp_pools s))"
    by (rule son_pool [OF os sz inv])
  let ?s1 = "s\<lparr>num_sons := num_sons s - 1, tp_pools := ps\<rparr>" and ?p = "objects ps ! i"
  have fin: "finite out" and M: "once (all_sons s out) (length (son_store s))" and num: "num_sons s = of_nat (card out)"
    using inv by (simp_all add: son_inv_def)
  have "pool_fit (lend ?s1 ?p)" using ps(3,4) by (simp add: lend_def)
  then obtain p' where p': "pool_Free True (lend ?s1 ?p) (Some q) = Inr p'" "pool_fit p'" "deleted p' = son_deleted s" "objs p' = son_store s"
    "mset (avail p') = mset (avail ?p) \<or> mset (avail p') = mset (avail ?p) + {#q#}"
    by (rule fit_Free [of _ q]) (simp add: lend_def)
  let ?s2 = "give_back i p' ?s1" and ?P = "all_pooled ((objects ps)[i := p'])"
  have "?P + mset (avail ?p) = all_pooled (objects ps) + mset (avail p')" by (rule pooled_update [OF ps(3)])
  then have "?P = all_pooled (objects (tp_pools s)) \<or> ?P = all_pooled (objects (tp_pools s)) + {#q#}"
    using p'(5) ps(5) by auto
  then have P: "?P \<subseteq># all_pooled (objects (tp_pools s)) + {#q#}" by auto
  have "mset_set out = mset_set (out - {q}) + {#q#}" using q fin by (simp add: mset_set.remove)
  then have "all_sons s out = all_pooled (objects (tp_pools s)) + {#q#} + mset_set (out - {q}) + mset (son_deleted s)"
    by (simp add: all_sons_def)
  moreover have "all_sons ?s2 (out - {q}) = ?P + mset_set (out - {q}) + mset (son_deleted s)"
    using p'(3) by (simp add: all_sons_def give_back_def)
  ultimately have "all_sons ?s2 (out - {q}) \<subseteq># all_sons s out" using P by simp
  from once_sub [OF M this] have O: "once (all_sons ?s2 (out - {q})) (length (son_store s))" .
  have fit: "\<forall>p \<in> set ((objects ps)[i := p']). pool_fit p" using ps(4) p'(2) set_update_subset_insert by fastforce
  show ?thesis
  proof (rule that [of ?s2])
    show "Free_son os father sz t q s = Inr ?s2" using ps(1) p'(1) by (simp add: Free_son_def Let_def)
    have "card out = Suc (card (out - {q}))" using q fin by (rule card.remove [rotated])
    then show "son_inv (?s2, out - {q})" using O ps(2) fit fin p'(4) num by (simp add: son_inv_def give_back_def)
    show "son_store ?s2 = son_store s" using p'(4) by (simp add: give_back_def)
  qed
qed

section \<open>The composition\<close>

lemma son_step_ok:
  assumes sz: "0 < sz" and inv: "son_inv m" and pre: "son_pre m op"
  shows "\<exists>r m'. son_step father sz m op = Inr (r, m') \<and> son_inv m' \<and> son_spec (son_abs m) op r (son_abs m')"
proof -
  obtain s out os o1 where m: "m = (s, out)" "op = (os, o1)" by (cases m; cases op)
  show ?thesis
  proof (cases o1)
    case (Son_Get t cat)
    have os: "all_ok os" using pre m Son_Get by simp
    obtain q s' where q: "Get_son os father sz t cat s = Inr (q, s')" "q \<notin> out" "son_inv (s', insert q out)" "son_store s' ! q = cat"
      "\<And>x. x \<in> out \<Longrightarrow> son_store s' ! x = son_store s ! x"
      by (rule Get_son_ok [OF os sz inv [unfolded m]]) blast
    then have "son_abs (s', insert q out) = (son_abs (s, out))(q \<mapsto> cat)" by (auto simp: son_abs_def fun_eq_iff)
    moreover have "q \<notin> dom (son_abs (s, out))" using q(2) by (auto simp: son_abs_def split: if_splits)
    ultimately show ?thesis using q m Son_Get by simp
  next
    case (Son_Free t q)
    have os: "all_ok os" and q: "q \<in> out" using pre m Son_Free by simp_all
    obtain s' where s': "Free_son os father sz t q s = Inr s'" "son_inv (s', out - {q})" "son_store s' = son_store s"
      by (rule Free_son_ok [OF os sz inv [unfolded m] q])
    then have "son_abs (s', out - {q}) = (son_abs (s, out))(q := None)" by (auto simp: son_abs_def fun_eq_iff)
    then show ?thesis using s' m Son_Free by simp
  qed
qed

interpretation private_pools: simulation "son_step father sz" son_spec son_pre "\<lambda>m. 0 < sz \<and> son_inv m" son_abs for father sz
  by unfold_locales (use son_step_ok in blast)

lemma new_son_inv: "son_inv (new_private_pool, {})" "son_abs (new_private_pool, {}) = Map.empty"
  by (simp_all add: son_inv_def son_abs_def new_private_pool_def all_sons_def all_pooled_def once_def new_privacy_ok)
    (simp_all add: new_privacy_def)

text \<open>
  C8: While the system calls succeed, threads that take and give back objects of any categories,
  also across threads, always get an object of the category they ask for that nobody else has and
  that has not been deleted; nothing faults, no object is deleted twice, and \<open>NumObjs\<close> is the
  number of objects handed out.
\<close>

theorem private_pool_hands_out:
  assumes "0 < sz" and "legal_ops (son_step father sz) son_pre (new_private_pool, {}) ops"
  shows "\<exists>rs s out. run_ops (son_step father sz) (new_private_pool, {}) ops = Inr (rs, s, out)
    \<and> spec_run son_spec Map.empty ops rs (son_abs (s, out))
    \<and> set (son_deleted s) \<inter> out = {} \<and> distinct (son_deleted s) \<and> num_sons s = of_nat (card out)"
proof -
  obtain rs s out where r: "run_ops (son_step father sz) (new_private_pool, {}) ops = Inr (rs, s, out)" "son_inv (s, out)"
    "spec_run son_spec (son_abs (new_private_pool, {})) ops rs (son_abs (s, out))"
    using private_pools.run_refines [of sz "(new_private_pool, {})" father ops] new_son_inv(1) assms by auto
  have fin: "finite out" and O: "once (all_sons s out) (length (son_store s))" and n: "num_sons s = of_nat (card out)"
    using r(2) by (simp_all add: son_inv_def)
  have le: "count (mset_set out) x + count (mset (son_deleted s)) x \<le> 1" for x
  proof -
    have "count (mset_set out + mset (son_deleted s)) x \<le> count (all_sons s out) x"
      by (simp add: all_sons_def)
    also have "\<dots> \<le> 1" using O by (simp add: once_def)
    finally show ?thesis by simp
  qed
  have "x \<notin> out" if x: "x \<in> set (son_deleted s)" for x
  proof
    assume "x \<in> out"
    then have "count (mset_set out) x = 1" using fin by simp
    moreover have "0 < count (mset (son_deleted s)) x" using x by (simp add: count_greater_zero_iff)
    ultimately show False using le [of x] by linarith
  qed
  moreover have "distinct (son_deleted s)"
  proof (rule distinct_count_atmost_1 [THEN iffD2], rule allI)
    fix x
    show "count (mset (son_deleted s)) x = (if x \<in> set (son_deleted s) then 1 else 0)"
    proof (cases "x \<in> set (son_deleted s)")
      case True
      then have "0 < count (mset (son_deleted s)) x" by (simp add: count_greater_zero_iff)
      then have "count (mset (son_deleted s)) x = 1" using le [of x] by linarith
      then show ?thesis using True by simp
    next
      case False
      then show ?thesis by (simp add: count_eq_zero_iff)
    qed
  qed
  ultimately show ?thesis using r(1,3) n new_son_inv(2) by auto
qed

definition son_calls :: "(os_answers \<times> son_op) list" where
  "son_calls = [(good_os, Son_Get 1 5), (good_os, Son_Free 2 1), (good_os, Son_Get 2 5)]"

lemma raii_unused: "\<not> pool_init p \<Longrightarrow> init_num_objs p = 0 \<Longrightarrow> max_num_blocks p \<noteq> 0 \<Longrightarrow>
    raii_pool p = Inr (True, p\<lparr>pool_array := True, pool_objs := Map.empty, pool_init := True\<rparr>)"
  by (simp add: raii_pool_def pool_Init_def)

lemma raii_used: "pool_init p \<Longrightarrow> raii_pool p = Inr (True, p)"
  by (simp add: raii_pool_def)

lemma son_calls_legal: "legal_ops (son_step 0 65536) son_pre (new_private_pool, {}) son_calls"
  by (simp add: son_calls_def good_os_ok Get_son_def Free_son_def Get_default_copy privacy_run_simps try_lock_first good_os_def new_private_pool_def
    default_pool_def new_pool_def lend_def give_back_def pool_Get_def pool_get_def raii_unused raii_used AllocABlock_def new_block_def new_object_def
    block_write_def block_at_def keep_default_def pool_Free_def pool_put_def pool_store_def all_ok_def)

theorem private_pool_hands_out_witness:
  "\<exists>rs s out. run_ops (son_step 0 65536) (new_private_pool, {}) son_calls = Inr (rs, s, out)
    \<and> spec_run son_spec Map.empty son_calls rs (son_abs (s, out)) \<and> num_sons s = of_nat (card out)"
  using private_pool_hands_out [OF _ son_calls_legal] by auto

end
