(* ===== verification/Memory_Blocks.thy ===== *)
theory Memory_Blocks
  imports Prelude
begin

text \<open>
  The blocks of memory that \<^verbatim>\<open>src/multi_array_helper.hpp\<close> and \<^verbatim>\<open>src/buffer.hpp\<close> work on: what
  \<open>malloc\<close>, \<open>realloc\<close>, \<open>free\<close>, \<open>new []\<close> and \<open>delete []\<close> do with them, reading, writing and
  \<open>memcpy\<close>, and the counted loops that run over them.

  A block holds elements, not bytes; an element is a pointer to the start of a block, a value, or
  nothing yet. \<open>mem_limit\<close> is the number of bytes beyond which no block can be had.
\<close>

section \<open>Blocks\<close>

datatype 'v cell = Undef | Null | Ptr nat | Val 'v

datatype origin = By_malloc | By_new_array

record 'v block =
  made_by :: origin
  elems :: "'v cell list"

record 'v memory =
  blocks :: "nat \<rightharpoonup> 'v block"
  next_block :: nat
  mem_limit :: nat

definition put_block :: "origin \<Rightarrow> 'v cell list \<Rightarrow> 'v memory \<Rightarrow> 'v cell \<times> 'v memory" where
  "put_block k xs m = (Ptr (next_block m),
     m\<lparr>blocks := (blocks m)(next_block m \<mapsto> \<lparr>made_by = k, elems = xs\<rparr>), next_block := Suc (next_block m)\<rparr>)"

text \<open>\<open>malloc\<close> of so many bytes, used as an array of elements of \<open>sz\<close> bytes.\<close>

definition mem_malloc :: "nat \<Rightarrow> 64 word \<Rightarrow> 'v memory \<Rightarrow> 'v cell \<times> 'v memory" where
  "mem_malloc sz bytes m =
     (if mem_limit m < unat bytes then (Null, m) else put_block By_malloc (replicate (unat bytes div sz) Undef) m)"

definition mem_block :: "'v cell \<Rightarrow> 'v memory \<Rightarrow> (nat \<times> 'v block) result" where
  "mem_block c m =
     (case c of
        Undef \<Rightarrow> Inl Indeterminate
      | Null \<Rightarrow> Inl Null_Deref
      | Val v \<Rightarrow> Inl Wrong_Member
      | Ptr p \<Rightarrow> (case blocks m p of None \<Rightarrow> Inl Use_After_Free | Some b \<Rightarrow> Inr (p, b)))"

definition mem_load :: "'v cell \<Rightarrow> nat \<Rightarrow> 'v memory \<Rightarrow> 'v cell result" where
  "mem_load c i m = rbind (mem_block c m) (\<lambda>(p, b). if i < length (elems b) then Inr (elems b ! i) else Inl Out_Of_Bounds)"

definition put_elems :: "nat \<Rightarrow> 'v cell list \<Rightarrow> 'v memory \<Rightarrow> 'v memory" where
  "put_elems p xs m = m\<lparr>blocks := (blocks m)(p := map_option (\<lambda>b. b\<lparr>elems := xs\<rparr>) (blocks m p))\<rparr>"

definition mem_store :: "'v cell \<Rightarrow> nat \<Rightarrow> 'v cell \<Rightarrow> 'v memory \<Rightarrow> 'v memory result" where
  "mem_store c i x m =
     rbind (mem_block c m)
       (\<lambda>(p, b). if i < length (elems b) then Inr (put_elems p ((elems b)[i := x]) m) else Inl Out_Of_Bounds)"

text \<open>
  \<open>memcpy\<close> of so many bytes from the start of one block to element \<open>pos\<close> of another; an element
  of which only a part is copied holds no value any more.
\<close>

definition copied :: "nat \<Rightarrow> nat \<Rightarrow> 'v cell list \<Rightarrow> 'v cell list" where
  "copied sz bytes xs = take (bytes div sz) xs @ (if bytes mod sz = 0 then [] else [Undef])"

definition mem_memcpy :: "nat \<Rightarrow> 'v cell \<Rightarrow> nat \<Rightarrow> 'v cell \<Rightarrow> 64 word \<Rightarrow> 'v memory \<Rightarrow> 'v memory result" where
  "mem_memcpy sz dst pos src bytes m =
     rbind (mem_block dst m) (\<lambda>(p, b). rbind (mem_block src m) (\<lambda>(q, c).
       let ys = copied sz (unat bytes) (elems c); n = (unat bytes + sz - 1) div sz in
       if length (elems c) < n \<or> length (elems b) < pos + n then Inl Out_Of_Bounds
       else if p = q \<and> pos < n \<and> 0 < n then Inl Overlap
       else Inr (put_elems p (take pos (elems b) @ ys @ drop (pos + n) (elems b)) m)))"

definition mem_release :: "origin \<Rightarrow> 'v cell \<Rightarrow> 'v memory \<Rightarrow> 'v memory result" where
  "mem_release k c m =
     (if c = Null then Inr m
      else rbind (mem_block c m)
        (\<lambda>(p, b). if made_by b = k then Inr (m\<lparr>blocks := (blocks m)(p := None)\<rparr>) else Inl Wrong_Release))"

section \<open>Counted loops\<close>

fun for_loop :: "nat \<Rightarrow> (nat \<Rightarrow> 's \<Rightarrow> 's result) \<Rightarrow> 's \<Rightarrow> 's result" where
  "for_loop 0 body s = Inr s"
| "for_loop (Suc n) body s = rbind (for_loop n body s) (body n)"

lemma for_loop_rule:
  assumes "I 0 s" and step: "\<And>i s. i < n \<Longrightarrow> I i s \<Longrightarrow> \<exists>s'. body i s = Inr s' \<and> I (Suc i) s'"
  shows "\<exists>s'. for_loop n body s = Inr s' \<and> I n s'"
  using step
proof (induction n)
  case (Suc n)
  then obtain s1 where "for_loop n body s = Inr s1" "I n s1" by fastforce
  with Suc.prems [of n s1] show ?case by auto
qed (simp add: assms(1))

lemma for_loop_first_fails: "0 < n \<Longrightarrow> body 0 s = Inl e \<Longrightarrow> for_loop n body s = Inl e"
proof (induction n)
  case (Suc n)
  then show ?case by (cases n) simp_all
qed simp

section \<open>What a memory holds\<close>

definition mem_at :: "'v memory \<Rightarrow> nat \<Rightarrow> nat \<Rightarrow> 'v cell option" where
  "mem_at m p i = (case blocks m p of None \<Rightarrow> None | Some b \<Rightarrow> if i < length (elems b) then Some (elems b ! i) else None)"

definition mem_wf :: "'v memory \<Rightarrow> bool" where
  "mem_wf m \<longleftrightarrow> (\<forall>p \<ge> next_block m. blocks m p = None)"

text \<open>Which blocks there are, how they were made and how long they are.\<close>

definition mem_shape :: "'v memory \<Rightarrow> nat \<Rightarrow> (origin \<times> nat) option" where
  "mem_shape m p = map_option (\<lambda>b. (made_by b, length (elems b))) (blocks m p)"

lemma mem_load_at: "mem_at m p i = Some x \<Longrightarrow> mem_load (Ptr p) i m = Inr x"
  by (auto simp: mem_at_def mem_load_def mem_block_def split: option.splits if_splits)

lemma mem_store_at:
  assumes "mem_at m p i \<noteq> None"
  obtains m' where "mem_store (Ptr p) i x m = Inr m'" "mem_shape m' = mem_shape m" "next_block m' = next_block m" "mem_limit m' = mem_limit m"
    "\<And>q j. mem_at m' q j = (if q = p \<and> j = i then Some x else mem_at m q j)"
proof -
  obtain b where b: "blocks m p = Some b" "i < length (elems b)"
    using assms by (auto simp: mem_at_def split: option.splits if_splits)
  show ?thesis
    by (rule that [of "put_elems p ((elems b)[i := x]) m"])
      (use b in \<open>auto simp: mem_store_def mem_block_def put_elems_def mem_shape_def mem_at_def nth_list_update fun_eq_iff\<close>)
qed

lemma shape_at: "mem_at m p i \<noteq> None \<longleftrightarrow> (\<exists>k n. mem_shape m p = Some (k, n) \<and> i < n)"
  by (auto simp: mem_at_def mem_shape_def split: option.splits)

lemma mem_memcpy_at:
  assumes p: "mem_shape m p = Some (k, np)" "pos + n \<le> np" and q: "mem_shape m q = Some (k', nq)" "n \<le> nq"
    and pq: "p \<noteq> q" and sz: "0 < sz" and bytes: "unat bytes = n * sz"
  obtains m' where "mem_memcpy sz (Ptr p) pos (Ptr q) bytes m = Inr m'" "mem_shape m' = mem_shape m" "next_block m' = next_block m" "mem_limit m' = mem_limit m"
    "\<And>r j. mem_at m' r j = (if r = p \<and> pos \<le> j \<and> j < pos + n then mem_at m q (j - pos) else mem_at m r j)"
proof -
  obtain b c where b: "blocks m p = Some b" "np = length (elems b)" and c: "blocks m q = Some c" "nq = length (elems c)"
    using p(1) q(1) by (auto simp: mem_shape_def)
  have "n * sz + sz - 1 = (sz - 1) + n * sz" using sz by simp
  then have n: "(n * sz + sz - 1) div sz = n" using sz by (simp only: div_mult_self1) simp
  have cp: "copied sz (n * sz) (elems c) = take n (elems c)" using sz by (simp add: copied_def)
  let ?xs = "take pos (elems b) @ take n (elems c) @ drop (pos + n) (elems b)"
  have len: "length ?xs = length (elems b)" using p(2) q(2) b c by simp
  have nth: "?xs ! j = (if pos \<le> j \<and> j < pos + n then elems c ! (j - pos) else elems b ! j)" if "j < length (elems b)" for j
    using that p(2) q(2) b c by (auto simp: nth_append min_def)
  show ?thesis
  proof (rule that [of "put_elems p ?xs m"])
    show "mem_memcpy sz (Ptr p) pos (Ptr q) bytes m = Inr (put_elems p ?xs m)"
      using b c n cp pq p(2) q(2) bytes by (simp add: mem_memcpy_def mem_block_def)
    show "mem_shape (put_elems p ?xs m) = mem_shape m"
      using len b(1) by (auto simp: put_elems_def mem_shape_def fun_eq_iff)
    show "mem_at (put_elems p ?xs m) r j = (if r = p \<and> pos \<le> j \<and> j < pos + n then mem_at m q (j - pos) else mem_at m r j)" for r j
      using len nth [of j] b c p(2) q(2) by (auto simp: put_elems_def mem_at_def)
  qed (simp_all add: put_elems_def)
qed

lemma put_block_at:
  assumes "mem_wf m" "put_block k xs m = (c, m')"
  shows "c = Ptr (next_block m)" "mem_wf m'" "next_block m' = Suc (next_block m)" "mem_limit m' = mem_limit m"
    and "mem_at m' q j = (if q = next_block m then (if j < length xs then Some (xs ! j) else None) else mem_at m q j)"
    and "mem_shape m' q = (if q = next_block m then Some (k, length xs) else mem_shape m q)"
  using assms by (auto simp: put_block_def mem_wf_def mem_at_def mem_shape_def)

lemma fresh_shape: "mem_wf m \<Longrightarrow> next_block m \<le> p \<Longrightarrow> mem_shape m p = None"
  by (simp add: mem_wf_def mem_shape_def)

lemma shape_wf_iff: "mem_wf m \<longleftrightarrow> (\<forall>p \<ge> next_block m. mem_shape m p = None)"
  by (simp add: mem_wf_def mem_shape_def)

lemma shape_wf: "mem_shape m' = mem_shape m \<Longrightarrow> next_block m' = next_block m \<Longrightarrow> mem_wf m' = mem_wf m"
  by (simp add: shape_wf_iff)

lemma release_at:
  assumes "mem_shape m p = Some (k, n)"
  obtains m' where "mem_release k (Ptr p) m = Inr m'" "mem_limit m' = mem_limit m" "next_block m' = next_block m"
    "mem_shape m' = (mem_shape m)(p := None)" "\<And>q j. mem_at m' q j = (if q = p then None else mem_at m q j)"
proof -
  obtain b where "blocks m p = Some b" "made_by b = k" using assms by (auto simp: mem_shape_def)
  then show ?thesis
    by (intro that [of "m\<lparr>blocks := (blocks m)(p := None)\<rparr>"])
      (auto simp: mem_release_def mem_block_def mem_shape_def mem_at_def)
qed

lemma release_wrong: "mem_shape m p = Some (k', n) \<Longrightarrow> k' \<noteq> k \<Longrightarrow> mem_release k (Ptr p) m = Inl Wrong_Release"
  by (auto simp: mem_shape_def mem_release_def mem_block_def)

end
