(* ===== verification/Multi_Array.thy ===== *)
theory Multi_Array
  imports Memory_Blocks
begin

text \<open>
  \<open>MultiArrayHelper\<close> of \<^verbatim>\<open>src/multi_array_helper.hpp\<close>: arrays of pointers to rows, and arrays of
  pointers to those. \<open>sz\<close> is the size of an element in bytes. \<open>CreateDim3\<close> is not here: it
  converts to the wrong pointer types and does not compile where it is used.
\<close>

section \<open>The operations\<close>

definition CreateDim2 :: "nat \<Rightarrow> 64 word \<Rightarrow> 64 word \<Rightarrow> 'v memory \<Rightarrow> ('v cell \<times> 'v memory) result" where
  "CreateDim2 sz x y m =
     (let (ret, m1) = mem_malloc 8 (x * 8) m in
      rbind (for_loop (unat x) (\<lambda>i m. let (row, m') = mem_malloc sz (y * of_nat sz) m in mem_store ret i row m') m1)
        (\<lambda>m'. Inr (ret, m')))"

definition CopyDim2 :: "nat \<Rightarrow> 64 word \<Rightarrow> 64 word \<Rightarrow> 'v cell \<Rightarrow> 'v cell \<Rightarrow> 'v memory \<Rightarrow> 'v memory result" where
  "CopyDim2 sz x y from' to m =
     for_loop (unat x) (\<lambda>i m.
       rbind (mem_load to i m) (\<lambda>dst. rbind (mem_load from' i m) (\<lambda>src. mem_memcpy sz dst 0 src (of_nat sz * y) m))) m"

definition CopyDim3 :: "nat \<Rightarrow> 64 word \<Rightarrow> 64 word \<Rightarrow> 64 word \<Rightarrow> 'v cell \<Rightarrow> 'v cell \<Rightarrow> 'v memory \<Rightarrow> 'v memory result" where
  "CopyDim3 sz x y z from' to m =
     for_loop (unat x) (\<lambda>i. for_loop (unat y) (\<lambda>j m.
       rbind (mem_load to i m) (\<lambda>to_i. rbind (mem_load to_i j m) (\<lambda>dst.
       rbind (mem_load from' i m) (\<lambda>rows'. rbind (mem_load rows' j m) (\<lambda>src.
         mem_memcpy sz dst 0 src (of_nat sz * z) m)))))) m"

definition SetDim2 :: "64 word \<Rightarrow> 64 word \<Rightarrow> 'v cell \<Rightarrow> 'v \<Rightarrow> 'v memory \<Rightarrow> 'v memory result" where
  "SetDim2 x y to v m =
     for_loop (unat x) (\<lambda>i. for_loop (unat y) (\<lambda>j m. rbind (mem_load to i m) (\<lambda>row. mem_store row j (Val v) m))) m"

definition SetDim3 :: "64 word \<Rightarrow> 64 word \<Rightarrow> 64 word \<Rightarrow> 'v cell \<Rightarrow> 'v \<Rightarrow> 'v memory \<Rightarrow> 'v memory result" where
  "SetDim3 x y z to v m =
     for_loop (unat x) (\<lambda>i. for_loop (unat y) (\<lambda>j. for_loop (unat z) (\<lambda>k m.
       rbind (mem_load to i m) (\<lambda>rows. rbind (mem_load rows j m) (\<lambda>row. mem_store row k (Val v) m))))) m"

text \<open>\<open>XFC_DELETE_ARRAY\<close> of an element, which becomes null.\<close>

definition delete_array_at :: "'v cell \<Rightarrow> nat \<Rightarrow> 'v memory \<Rightarrow> 'v memory result" where
  "delete_array_at c i m =
     rbind (mem_load c i m) (\<lambda>member.
       if member = Null then Inr m else rbind (mem_release By_new_array member m) (\<lambda>m1. mem_store c i Null m1))"

definition DeleteDim2 :: "64 word \<Rightarrow> 64 word \<Rightarrow> 'v cell \<Rightarrow> 'v memory \<Rightarrow> 'v memory result" where
  "DeleteDim2 x y array m =
     rbind (for_loop (unat x) (\<lambda>i. delete_array_at array i) m) (mem_release By_new_array array)"

definition DeleteDim3 :: "64 word \<Rightarrow> 64 word \<Rightarrow> 64 word \<Rightarrow> 'v cell \<Rightarrow> 'v memory \<Rightarrow> 'v memory result" where
  "DeleteDim3 x y z array m =
     rbind (for_loop (unat x) (\<lambda>i m.
       rbind (for_loop (unat y) (\<lambda>j m. rbind (mem_load array i m) (\<lambda>rows. delete_array_at rows j m)) m)
         (delete_array_at array i)) m) (mem_release By_new_array array)"

text \<open>\<open>array[i][j]\<close>.\<close>

definition elem2 :: "'v cell \<Rightarrow> nat \<Rightarrow> nat \<Rightarrow> 'v memory \<Rightarrow> 'v cell result" where
  "elem2 array i j m = rbind (mem_load array i m) (\<lambda>row. mem_load row j m)"

section \<open>Loops that write\<close>

text \<open>The elements at \<open>A\<close> are now what \<open>f\<close> says, and nothing else has changed.\<close>

definition written :: "'v memory \<Rightarrow> 'v memory \<Rightarrow> (nat \<times> nat) set \<Rightarrow> (nat \<Rightarrow> nat \<Rightarrow> 'v cell option) \<Rightarrow> bool" where
  "written m m' A f \<longleftrightarrow> mem_shape m' = mem_shape m \<and> next_block m' = next_block m \<and> mem_limit m' = mem_limit m
     \<and> (\<forall>b k. mem_at m' b k = (if (b, k) \<in> A then f b k else mem_at m b k))"

lemma writtenD:
  "written m m' A f \<Longrightarrow> mem_shape m' = mem_shape m"
  "written m m' A f \<Longrightarrow> mem_at m' b k = (if (b, k) \<in> A then f b k else mem_at m b k)"
  by (simp_all add: written_def)

lemma written_keeps: "written m m' A f \<Longrightarrow> (b, k) \<notin> A \<Longrightarrow> mem_at m' b k = mem_at m b k"
  by (simp add: written_def)

lemma written_there: "written m m' A f \<Longrightarrow> (mem_at m' b k \<noteq> None) = (mem_at m b k \<noteq> None)"
  by (simp only: shape_at writtenD(1))

lemma written_none: "written m m {} f"
  by (simp add: written_def)

lemma written_more: "written m m1 A f \<Longrightarrow> written m1 m2 B f \<Longrightarrow> written m m2 (A \<union> B) f"
  by (auto simp: written_def)

lemma loop_writes:
  assumes "\<And>i s. i < n \<Longrightarrow> written m s (\<Union>j<i. A j) f \<Longrightarrow> \<exists>s'. body i s = Inr s' \<and> written s s' (A i) f"
  shows "\<exists>s'. for_loop n body m = Inr s' \<and> written m s' (\<Union>i<n. A i) f"
proof (rule for_loop_rule)
  fix i s
  assume "i < n" and s: "written m s (\<Union>j<i. A j) f"
  with assms obtain s' where "body i s = Inr s'" "written s s' (A i) f" by blast
  with written_more [OF s] show "\<exists>s'. body i s = Inr s' \<and> written m s' (\<Union>j<Suc i. A j) f"
    by (auto simp: lessThan_Suc Un_commute)
qed (simp add: written_none)

lemma store_writes:
  assumes "mem_at m p i \<noteq> None"
  shows "\<exists>m'. mem_store (Ptr p) i x m = Inr m' \<and> written m m' {(p, i)} (\<lambda>b k. Some x)"
  by (rule mem_store_at [OF assms, of x]) (auto simp: written_def)

lemma memcpy_writes:
  assumes "mem_shape m p = Some (k, np)" "unat n \<le> np" "mem_shape m q = Some (k', nq)" "unat n \<le> nq" "p \<noteq> q"
    and sz: "0 < sz" "unat n * sz < 2 ^ 64" and f: "\<And>j. j < unat n \<Longrightarrow> f p j = mem_at m q j"
  shows "\<exists>m'. mem_memcpy sz (Ptr p) 0 (Ptr q) (of_nat sz * n) m = Inr m' \<and> written m m' ({p} \<times> {..<unat n}) f"
proof -
  have "sz < 2 ^ 64 \<or> n = 0" using sz(2) by (cases "unat n") (auto simp: unat_eq_0)
  then have "unat (of_nat sz * n) = unat n * sz"
    using sz(2) by (auto simp: unat_word_ariths unat_of_nat take_bit_eq_mod mult.commute)
  then obtain m' where "mem_memcpy sz (Ptr p) 0 (Ptr q) (of_nat sz * n) m = Inr m'" "mem_shape m' = mem_shape m" "next_block m' = next_block m"
    "mem_limit m' = mem_limit m" "\<And>r j. mem_at m' r j = (if r = p \<and> 0 \<le> j \<and> j < 0 + unat n then mem_at m q (j - 0) else mem_at m r j)"
    using mem_memcpy_at [of m p k np 0 "unat n" q k' nq sz "of_nat sz * n"] assms by (metis add_0)
  with f show ?thesis by (auto simp: written_def)
qed

section \<open>Filling and copying\<close>

text \<open>Block \<open>p\<close> points to \<open>x\<close> rows \<open>R i\<close>, none of them \<open>p\<close> itself, with at least \<open>y\<close> elements each.\<close>

definition dim2 :: "'v memory \<Rightarrow> nat \<Rightarrow> nat \<Rightarrow> nat \<Rightarrow> (nat \<Rightarrow> nat) \<Rightarrow> bool" where
  "dim2 m p x y R \<longleftrightarrow> (\<forall>i<x. mem_at m p i = Some (Ptr (R i)) \<and> R i \<noteq> p \<and> (\<exists>k n. mem_shape m (R i) = Some (k, n) \<and> y \<le> n))"

lemma dim2_elem: "dim2 m p x y R \<Longrightarrow> i < x \<Longrightarrow> j < y \<Longrightarrow> mem_at m (R i) j \<noteq> None"
  unfolding shape_at by (fastforce simp: dim2_def)

definition dim3 :: "'v memory \<Rightarrow> nat \<Rightarrow> nat \<Rightarrow> nat \<Rightarrow> nat \<Rightarrow> (nat \<Rightarrow> nat) \<Rightarrow> (nat \<Rightarrow> nat \<Rightarrow> nat) \<Rightarrow> bool" where
  "dim3 m p x y z R S \<longleftrightarrow> (\<forall>i<x. mem_at m p i = Some (Ptr (R i)) \<and> R i \<noteq> p \<and> dim2 m (R i) y z (S i)
     \<and> (\<forall>j<y. S i j \<noteq> p \<and> (\<forall>i'<x. S i j \<noteq> R i')))"

lemma rows_keep:
  assumes "written m s (\<Union>i'<i. {R i'} \<times> B i') f" and "\<And>i'. i' < i \<Longrightarrow> R i' \<noteq> p"
  shows "mem_at s p k = mem_at m p k"
  by (rule written_keeps [OF assms(1)]) (use assms(2) in auto)

lemma row_pairs: "(\<Union>j<n. {(r, j)}) = {r} \<times> {..<n}"
  by auto

lemma SetDim2_fills:
  assumes d: "dim2 m p (unat x) (unat y) R"
  shows "\<exists>m'. SetDim2 x y (Ptr p) v m = Inr m' \<and> written m m' (\<Union>i<unat x. {R i} \<times> {..<unat y}) (\<lambda>b k. Some (Val v))"
  unfolding SetDim2_def
proof (rule loop_writes)
  fix i s
  let ?f = "\<lambda>b k. Some (Val v)"
  let ?body = "\<lambda>j m. rbind (mem_load (Ptr p) i m) (\<lambda>row. mem_store row j (Val v) m)"
  assume i: "i < unat x" and s: "written m s (\<Union>i'<i. {R i'} \<times> {..<unat y}) ?f"
  have rows: "R i' \<noteq> p" if "i' < unat x" for i' using d that by (simp add: dim2_def)
  have "\<exists>s'. for_loop (unat y) ?body s = Inr s' \<and> written s s' (\<Union>j<unat y. {(R i, j)}) ?f"
  proof (rule loop_writes)
    fix j t
    assume j: "j < unat y" and t: "written s t (\<Union>j'<j. {(R i, j')}) ?f"
    have "mem_at t p i = mem_at s p i" by (rule written_keeps [OF t]) (use rows [OF i] in auto)
    also have "\<dots> = mem_at m p i" by (rule rows_keep [OF s]) (use i rows in auto)
    finally have "mem_at t p i = Some (Ptr (R i))" using d i by (simp add: dim2_def)
    moreover have "mem_at t (R i) j \<noteq> None"
      using dim2_elem [OF d i j] written_there [OF t] written_there [OF s] by blast
    ultimately show "\<exists>t'. ?body j t = Inr t' \<and> written t t' {(R i, j)} ?f"
      using store_writes [of t "R i" j "Val v"] by (simp add: mem_load_at)
  qed
  then show "\<exists>s'. for_loop (unat y) ?body s = Inr s' \<and> written s s' ({R i} \<times> {..<unat y}) ?f"
    by (simp only: row_pairs)
qed

lemma CopyDim2_copies:
  assumes a: "dim2 m p (unat x) (unat y) F" and b: "dim2 m q (unat x) (unat y) R"
    and apart: "inj_on R {..<unat x}" "\<And>i i'. i < unat x \<Longrightarrow> i' < unat x \<Longrightarrow> R i \<noteq> F i'" "\<And>i. i < unat x \<Longrightarrow> R i \<noteq> p"
    and sz: "0 < sz" "unat y * sz < 2 ^ 64"
    and f: "\<And>i j. i < unat x \<Longrightarrow> j < unat y \<Longrightarrow> f (R i) j = mem_at m (F i) j"
  shows "\<exists>m'. CopyDim2 sz x y (Ptr p) (Ptr q) m = Inr m' \<and> written m m' (\<Union>i<unat x. {R i} \<times> {..<unat y}) f"
  unfolding CopyDim2_def
proof (rule loop_writes)
  fix i s
  assume i: "i < unat x" and s: "written m s (\<Union>i'<i. {R i'} \<times> {..<unat y}) f"
  have rows: "R i' \<noteq> q" if "i' < unat x" for i' using b that by (simp add: dim2_def)
  have "mem_at s p i = mem_at m p i" "mem_at s q i = mem_at m q i"
    by (rule rows_keep [OF s]; use i apart(3) rows in simp)+
  then have "mem_at s p i = Some (Ptr (F i))" "mem_at s q i = Some (Ptr (R i))"
    using a b i by (simp_all add: dim2_def)
  moreover have "mem_at s (F i) j = mem_at m (F i) j" for j
    by (rule rows_keep [OF s]) (use i apart(2) in simp)
  moreover obtain k n k' n' where "mem_shape s (R i) = Some (k, n)" "unat y \<le> n" "mem_shape s (F i) = Some (k', n')" "unat y \<le> n'"
    using a b i unfolding dim2_def writtenD(1) [OF s] by blast
  ultimately show "\<exists>s'. rbind (mem_load (Ptr q) i s) (\<lambda>dst. rbind (mem_load (Ptr p) i s) (\<lambda>src. mem_memcpy sz dst 0 src (of_nat sz * y) s)) = Inr s'
      \<and> written s s' ({R i} \<times> {..<unat y}) f"
    using memcpy_writes [of s "R i" k n y "F i" k' n' sz f] sz f [OF i] apart(2) [OF i i] by (simp add: mem_load_at)
qed

text \<open>The same one dimension up: the two inner loops fill the rows of block \<open>R i\<close>.\<close>

lemma SetDim3_fills:
  assumes d: "dim3 m p (unat x) (unat y) (unat z) R S"
  shows "\<exists>m'. SetDim3 x y z (Ptr p) v m = Inr m'
    \<and> written m m' (\<Union>i<unat x. \<Union>j<unat y. {S i j} \<times> {..<unat z}) (\<lambda>b k. Some (Val v))"
  unfolding SetDim3_def
proof (rule loop_writes)
  fix i s
  let ?f = "\<lambda>b k. Some (Val v)"
  let ?body = "\<lambda>j k m. rbind (mem_load (Ptr p) i m) (\<lambda>rows. rbind (mem_load rows j m) (\<lambda>row. mem_store row k (Val v) m))"
  assume i: "i < unat x" and s: "written m s (\<Union>i'<i. \<Union>j<unat y. {S i' j} \<times> {..<unat z}) ?f"
  have leaf: "S i' j' \<noteq> p" "S i' j' \<noteq> R i" if "i' < unat x" "j' < unat y" for i' j' using d i that by (auto simp: dim3_def)
  show "\<exists>s'. for_loop (unat y) (\<lambda>j. for_loop (unat z) (?body j)) s = Inr s' \<and> written s s' (\<Union>j<unat y. {S i j} \<times> {..<unat z}) ?f"
  proof (rule loop_writes)
    fix j t
    assume j: "j < unat y" and t: "written s t (\<Union>j'<j. {S i j'} \<times> {..<unat z}) ?f"
    have "\<exists>t'. for_loop (unat z) (?body j) t = Inr t' \<and> written t t' (\<Union>k<unat z. {(S i j, k)}) ?f"
    proof (rule loop_writes)
      fix k u
      assume k: "k < unat z" and u: "written t u (\<Union>k'<k. {(S i j, k')}) ?f"
      have keep: "mem_at u b l = mem_at m b l" if "\<And>i' j'. i' < unat x \<Longrightarrow> j' < unat y \<Longrightarrow> S i' j' \<noteq> b" for b l
      proof -
        have "mem_at u b l = mem_at t b l" by (rule written_keeps [OF u]) (use that [OF i j] in auto)
        also have "\<dots> = mem_at s b l" by (rule rows_keep [OF t]) (use that i j in simp)
        also have "\<dots> = mem_at m b l" by (rule written_keeps [OF s]) (use that order.strict_trans [OF _ i] in blast)
        finally show ?thesis .
      qed
      have "mem_at u p i = Some (Ptr (R i))" "mem_at u (R i) j = Some (Ptr (S i j))"
        using d i j leaf by (simp_all add: keep dim3_def dim2_def)
      moreover have "dim2 m (R i) (unat y) (unat z) (S i)" using d i by (simp add: dim3_def)
      then have "mem_at u (S i j) k \<noteq> None"
        using dim2_elem [OF _ j k] by (simp only: written_there [OF u] written_there [OF t] written_there [OF s] not_False_eq_True)
      ultimately show "\<exists>u'. ?body j k u = Inr u' \<and> written u u' {(S i j, k)} ?f"
        using store_writes [of u "S i j" k "Val v"] by (simp add: mem_load_at)
    qed
    then show "\<exists>t'. for_loop (unat z) (?body j) t = Inr t' \<and> written t t' ({S i j} \<times> {..<unat z}) ?f"
      by (simp only: row_pairs)
  qed
qed

text \<open>Copying row by row, where no row of the copy is a row or a pointer block of the original.\<close>

lemma CopyDim3_copies:
  assumes a: "dim3 m p (unat x) (unat y) (unat z) F G" and b: "dim3 m q (unat x) (unat y) (unat z) R S"
    and apart: "\<And>i j i' j'. i < unat x \<Longrightarrow> j < unat y \<Longrightarrow> i' < unat x \<Longrightarrow> j' < unat y \<Longrightarrow> S i j \<noteq> G i' j'"
      "\<And>i j i'. i < unat x \<Longrightarrow> j < unat y \<Longrightarrow> i' < unat x \<Longrightarrow> S i j \<noteq> F i'" "\<And>i j. i < unat x \<Longrightarrow> j < unat y \<Longrightarrow> S i j \<noteq> p"
    and sz: "0 < sz" "unat z * sz < 2 ^ 64"
    and f: "\<And>i j k. i < unat x \<Longrightarrow> j < unat y \<Longrightarrow> k < unat z \<Longrightarrow> f (S i j) k = mem_at m (G i j) k"
  shows "\<exists>m'. CopyDim3 sz x y z (Ptr p) (Ptr q) m = Inr m' \<and> written m m' (\<Union>i<unat x. \<Union>j<unat y. {S i j} \<times> {..<unat z}) f"
  unfolding CopyDim3_def
proof (rule loop_writes)
  fix i s
  let ?body = "\<lambda>j m. rbind (mem_load (Ptr q) i m) (\<lambda>to_i. rbind (mem_load to_i j m) (\<lambda>dst.
    rbind (mem_load (Ptr p) i m) (\<lambda>rows'. rbind (mem_load rows' j m) (\<lambda>src. mem_memcpy sz dst 0 src (of_nat sz * z) m))))"
  assume i: "i < unat x" and s: "written m s (\<Union>i'<i. \<Union>j<unat y. {S i' j} \<times> {..<unat z}) f"
  show "\<exists>s'. for_loop (unat y) ?body s = Inr s' \<and> written s s' (\<Union>j<unat y. {S i j} \<times> {..<unat z}) f"
  proof (rule loop_writes)
    fix j t
    assume j: "j < unat y" and t: "written s t (\<Union>j'<j. {S i j'} \<times> {..<unat z}) f"
    have keep: "mem_at t b l = mem_at m b l" if "\<And>i' j'. i' < unat x \<Longrightarrow> j' < unat y \<Longrightarrow> S i' j' \<noteq> b" for b l
    proof -
      have "mem_at t b l = mem_at s b l" by (rule rows_keep [OF t]) (use that i j in simp)
      also have "\<dots> = mem_at m b l" by (rule written_keeps [OF s]) (use that order.strict_trans [OF _ i] in blast)
      finally show ?thesis .
    qed
    have rows: "dim2 m (F i) (unat y) (unat z) (G i)" "dim2 m (R i) (unat y) (unat z) (S i)"
      "mem_at m p i = Some (Ptr (F i))" "mem_at m q i = Some (Ptr (R i))" using a b i by (simp_all add: dim3_def)
    have "mem_at t p i = mem_at m p i" "mem_at t (F i) j = mem_at m (F i) j" by (rule keep; use apart i in simp)+
    moreover have "mem_at t q i = mem_at m q i" "mem_at t (R i) j = mem_at m (R i) j" by (rule keep; use b i in \<open>simp add: dim3_def\<close>)+
    ultimately have "mem_at t p i = Some (Ptr (F i))" "mem_at t q i = Some (Ptr (R i))"
      "mem_at t (F i) j = Some (Ptr (G i j))" "mem_at t (R i) j = Some (Ptr (S i j))"
      using rows j by (simp_all add: dim2_def)
    moreover have "mem_at t (G i j) k = mem_at m (G i j) k" for k by (rule keep) (use apart(1) i j in blast)
    moreover obtain k n k' n' where "mem_shape t (S i j) = Some (k, n)" "unat z \<le> n" "mem_shape t (G i j) = Some (k', n')" "unat z \<le> n'"
      using rows(1,2) j unfolding dim2_def writtenD(1) [OF t] writtenD(1) [OF s] by blast
    ultimately show "\<exists>t'. ?body j t = Inr t' \<and> written t t' ({S i j} \<times> {..<unat z}) f"
      using memcpy_writes [of t "S i j" k n z "G i j" k' n' sz f] sz f [OF i j] apart(1) [OF i j i j] by (simp add: mem_load_at)
  qed
qed

section \<open>Creating\<close>

text \<open>
  \<open>CreateDim2\<close> in a memory that has the room gives an array whose rows follow it in the order in
  which they were made; all blocks come from \<open>malloc\<close>.
\<close>

definition created :: "'v memory \<Rightarrow> 'v memory \<Rightarrow> nat \<Rightarrow> nat \<Rightarrow> nat \<Rightarrow> bool" where
  "created m m' x y n \<longleftrightarrow> mem_wf m' \<and> next_block m' = Suc (next_block m + n) \<and> mem_limit m' = mem_limit m
     \<and> (\<forall>b. mem_shape m' b = (if b < next_block m then mem_shape m b else if b = next_block m then Some (By_malloc, x)
           else if b \<le> next_block m + n then Some (By_malloc, y) else None))
     \<and> (\<forall>b k. b < next_block m \<longrightarrow> mem_at m' b k = mem_at m b k)
     \<and> (\<forall>k<n. mem_at m' (next_block m) k = Some (Ptr (Suc (next_block m + k))))"

lemma created_row:
  assumes c: "created m m1 x y n" and n: "n < x"
  shows "\<exists>m3. mem_store (Ptr (next_block m)) n (fst (put_block By_malloc (replicate y Undef) m1)) (snd (put_block By_malloc (replicate y Undef) m1)) = Inr m3
    \<and> created m m3 x y (Suc n)"
proof -
  let ?p = "next_block m"
  obtain c2 m2 where e: "put_block By_malloc (replicate y Undef) m1 = (c2, m2)" by (metis surj_pair)
  have wf: "mem_wf m1" and nx: "next_block m1 = Suc (?p + n)" using c by (simp_all add: created_def)
  note pb = put_block_at [OF wf e]
  have "mem_at m2 ?p n \<noteq> None"
    unfolding shape_at using pb(6) [of ?p] c n nx by (simp add: created_def)
  then obtain m3 where m3: "mem_store (Ptr ?p) n c2 m2 = Inr m3" "mem_shape m3 = mem_shape m2" "next_block m3 = next_block m2" "mem_limit m3 = mem_limit m2"
    "\<And>q j. mem_at m3 q j = (if q = ?p \<and> j = n then Some c2 else mem_at m2 q j)"
    using mem_store_at [of m2 ?p n c2] by blast
  have "created m m3 x y (Suc n)"
    unfolding created_def
  proof (intro conjI allI impI)
    show "mem_wf m3" using pb(2) shape_wf [OF m3(2,3)] by simp
    show "mem_shape m3 b = (if b < ?p then mem_shape m b else if b = ?p then Some (By_malloc, x)
           else if b \<le> ?p + Suc n then Some (By_malloc, y) else None)" for b
      using c m3(2) pb(6) [of b] nx by (auto simp: created_def)
    show "mem_at m3 b k = mem_at m b k" if "b < ?p" for b k
      using c m3(5) [of b k] pb(5) [of b k] that nx by (simp add: created_def)
    show "mem_at m3 ?p k = Some (Ptr (Suc (?p + k)))" if "k < Suc n" for k
      using c m3(5) [of ?p k] pb(1) pb(5) [of ?p k] that nx by (auto simp: created_def less_Suc_eq)
  qed (use c m3(3,4) pb(3,4) in \<open>simp_all add: created_def\<close>)
  with m3(1) e show ?thesis by simp
qed

lemma CreateDim2_ok:
  assumes wf: "mem_wf m" and sz: "0 < sz" and x: "unat x * 8 < 2 ^ 64" "unat x * 8 \<le> mem_limit m" and y: "unat y * sz < 2 ^ 64" "unat y * sz \<le> mem_limit m"
  shows "\<exists>m'. CreateDim2 sz x y m = Inr (Ptr (next_block m), m') \<and> created m m' (unat x) (unat y) (unat x)"
proof -
  let ?rest = "\<lambda>i m'. mem_store (Ptr (next_block m)) i (fst (mem_malloc sz (y * of_nat sz) m')) (snd (mem_malloc sz (y * of_nat sz) m'))"
  have bx: "unat (x * 8) = unat x * 8" using x(1) by (simp add: unat_word_ariths)
  have "sz < 2 ^ 64 \<or> y = 0" using y(1) by (cases "unat y") (auto simp: unat_eq_0)
  then have sy: "unat (y * of_nat sz) = unat y * sz"
    using y(1) by (auto simp: unat_word_ariths unat_of_nat take_bit_eq_mod)
  have row: "mem_malloc sz (y * of_nat sz) m' = put_block By_malloc (replicate (unat y) Undef) m'" if "mem_limit m' = mem_limit m" for m'
    using y(2) sy sz that by (simp add: mem_malloc_def)
  obtain m1 where m1: "put_block By_malloc (replicate (unat x) Undef) m = (Ptr (next_block m), m1)" by (simp add: put_block_def)
  have start: "mem_malloc 8 (x * 8) m = (Ptr (next_block m), m1)" using x(2) bx m1 by (simp add: mem_malloc_def)
  note pb = put_block_at [OF wf m1]
  have "created m m1 (unat x) (unat y) 0"
    using pb fresh_shape [OF wf] by (auto simp: created_def)
  then have "\<exists>m'. for_loop (unat x) ?rest m1 = Inr m' \<and> created m m' (unat x) (unat y) (unat x)"
  proof (rule for_loop_rule [where I = "\<lambda>i m'. created m m' (unat x) (unat y) i"])
    fix i s assume i: "i < unat x" and s: "created m s (unat x) (unat y) i"
    then have "mem_limit s = mem_limit m" by (simp add: created_def)
    from row [OF this] show "\<exists>s'. ?rest i s = Inr s' \<and> created m s' (unat x) (unat y) (Suc i)"
      using created_row [OF s i] by simp
  qed
  then show ?thesis by (auto simp: CreateDim2_def start case_prod_unfold Let_def)
qed

lemma created_dim2: "created m m' x y x \<Longrightarrow> dim2 m' (next_block m) x y (\<lambda>i. Suc (next_block m + i))"
  by (auto simp: created_def dim2_def)

lemma created_apart:
  assumes "created m m1 x y x" "created m1 m2 x y x"
  shows "dim2 m2 (next_block m) x y (\<lambda>i. Suc (next_block m + i))" "dim2 m2 (next_block m1) x y (\<lambda>i. Suc (next_block m1 + i))"
    and "next_block m1 = Suc (next_block m + x)"
  using assms by (auto simp: created_def dim2_def)

lemma elem2_at: "mem_at m p i = Some (Ptr q) \<Longrightarrow> mem_at m q j = Some c \<Longrightarrow> elem2 (Ptr p) i j m = Inr c"
  by (simp add: elem2_def mem_load_at)

text \<open>
  C37: Two arrays made by \<open>CreateDim2\<close> are apart from each other and from all that was there: after
  \<open>SetDim2\<close> on the first and \<open>CopyDim2\<close> into the second, every element of both is the value set,
  and no older element has changed, as long as the memory has the room and no size overflows.
\<close>

theorem copy_of_created:
  assumes wf: "mem_wf m" and sz: "0 < sz" and x: "unat x * 8 < 2 ^ 64" "unat x * 8 \<le> mem_limit m" and y: "unat y * sz < 2 ^ 64" "unat y * sz \<le> mem_limit m"
  shows "\<exists>a m1 b m2 m3 m4. CreateDim2 sz x y m = Inr (a, m1) \<and> CreateDim2 sz x y m1 = Inr (b, m2)
    \<and> SetDim2 x y a v m2 = Inr m3 \<and> CopyDim2 sz x y a b m3 = Inr m4
    \<and> (\<forall>i<unat x. \<forall>j<unat y. elem2 a i j m4 = Inr (Val v) \<and> elem2 b i j m4 = Inr (Val v))
    \<and> (\<forall>p k. p < next_block m \<longrightarrow> mem_at m4 p k = mem_at m p k)"
proof -
  obtain m1 where m1: "CreateDim2 sz x y m = Inr (Ptr (next_block m), m1)" "created m m1 (unat x) (unat y) (unat x)"
    using CreateDim2_ok [OF wf sz x y] by blast
  then obtain m2 where m2: "CreateDim2 sz x y m1 = Inr (Ptr (next_block m1), m2)" "created m1 m2 (unat x) (unat y) (unat x)"
    using CreateDim2_ok [of m1 sz x y] sz x y by (auto simp: created_def)
  let ?a = "next_block m" and ?b = "next_block m1"
  let ?F = "\<lambda>i. Suc (?a + i)" and ?R = "\<lambda>i. Suc (?b + i)"
  note ab = created_apart [OF m1(2) m2(2)]
  obtain m3 where m3: "SetDim2 x y (Ptr ?a) v m2 = Inr m3" "written m2 m3 (\<Union>i<unat x. {?F i} \<times> {..<unat y}) (\<lambda>b k. Some (Val v))"
    using SetDim2_fills [OF ab(1)] by blast
  have keep3: "mem_at m3 p k = mem_at m2 p k" if "p \<le> ?a \<or> ?b \<le> p" for p k
    by (rule rows_keep [OF m3(2)]) (use that ab(3) in auto)
  have F3: "mem_at m3 (?F i) j = Some (Val v)" if "i < unat x" "j < unat y" for i j
    using that by (auto simp: writtenD(2) [OF m3(2)])
  have d3: "dim2 m3 ?a (unat x) (unat y) ?F" "dim2 m3 ?b (unat x) (unat y) ?R"
    using ab keep3 by (simp_all add: dim2_def writtenD(1) [OF m3(2)])
  obtain m4 where m4: "CopyDim2 sz x y (Ptr ?a) (Ptr ?b) m3 = Inr m4" "written m3 m4 (\<Union>i<unat x. {?R i} \<times> {..<unat y}) (\<lambda>b k. Some (Val v))"
    using CopyDim2_copies [OF d3, of sz "\<lambda>b k. Some (Val v)"] sz y(1) ab(3) F3 by (auto simp: inj_on_def)
  have keep4: "mem_at m4 p k = mem_at m3 p k" if "p \<le> ?b" for p k
    by (rule rows_keep [OF m4(2)]) (use that in auto)
  have R4: "mem_at m4 (?R i) j = Some (Val v)" if "i < unat x" "j < unat y" for i j
    using that by (auto simp: writtenD(2) [OF m4(2)])
  have "elem2 (Ptr ?a) i j m4 = Inr (Val v)" "elem2 (Ptr ?b) i j m4 = Inr (Val v)" if "i < unat x" "j < unat y" for i j
    using that d3 keep4 F3 R4 ab(3) by (auto intro!: elem2_at simp: dim2_def)
  moreover have "mem_at m4 p k = mem_at m p k" if "p < ?a" for p k
    using that keep4 [of p k] keep3 [of p k] m1(2) m2(2) ab(3) by (simp add: created_def)
  ultimately show ?thesis using m1(1) m2(1) m3(1) m4(1) by blast
qed

lemma copy_of_created_witness:
  "\<exists>a m1 b m2 m3 m4. CreateDim2 4 2 3 \<lparr>blocks = Map.empty, next_block = 0, mem_limit = 64\<rparr> = Inr (a, m1) \<and> CreateDim2 4 2 3 m1 = Inr (b, m2)
    \<and> SetDim2 2 3 a (7 :: nat) m2 = Inr m3 \<and> CopyDim2 4 2 3 a b m3 = Inr m4 \<and> elem2 b 1 2 m4 = Inr (Val 7)"
proof -
  have "mem_wf \<lparr>blocks = Map.empty, next_block = 0, mem_limit = 64\<rparr>" by (simp add: mem_wf_def)
  from copy_of_created [OF this, of 4 2 3 "7 :: nat"] show ?thesis by fastforce
qed

section \<open>Deleting\<close>

definition freed :: "'v memory \<Rightarrow> 'v memory \<Rightarrow> nat set \<Rightarrow> (nat \<times> nat) set \<Rightarrow> bool" where
  "freed m m' A N \<longleftrightarrow> (\<forall>b. mem_shape m' b = (if b \<in> A then None else mem_shape m b))
     \<and> (\<forall>b k. b \<notin> A \<longrightarrow> (b, k) \<notin> N \<longrightarrow> mem_at m' b k = mem_at m b k)"

lemma freed_keeps:
  "freed m m' A N \<Longrightarrow> b \<notin> A \<Longrightarrow> mem_shape m' b = mem_shape m b"
  "freed m m' A N \<Longrightarrow> b \<notin> A \<Longrightarrow> (b, k) \<notin> N \<Longrightarrow> mem_at m' b k = mem_at m b k"
  by (simp_all add: freed_def)

lemma freed_more: "freed m m1 A N \<Longrightarrow> freed m1 m2 B N' \<Longrightarrow> freed m m2 (A \<union> B) (N \<union> N')"
  by (auto simp: freed_def)

lemma loop_frees:
  assumes "\<And>i s. i < n \<Longrightarrow> freed m s (\<Union>j<i. A j) (\<Union>j<i. N j) \<Longrightarrow> \<exists>s'. body i s = Inr s' \<and> freed s s' (A i) (N i)"
  shows "\<exists>s'. for_loop n body m = Inr s' \<and> freed m s' (\<Union>i<n. A i) (\<Union>i<n. N i)"
proof (rule for_loop_rule)
  fix i s
  assume "i < n" and s: "freed m s (\<Union>j<i. A j) (\<Union>j<i. N j)"
  with assms obtain s' where "body i s = Inr s'" "freed s s' (A i) (N i)" by blast
  with freed_more [OF s this(2)] show "\<exists>s'. body i s = Inr s' \<and> freed m s' (\<Union>j<Suc i. A j) (\<Union>j<Suc i. N j)"
    by (simp add: lessThan_Suc Un_commute)
qed (simp add: freed_def)

lemma release_frees:
  assumes "mem_shape m p = Some (k, n)"
  shows "\<exists>m'. mem_release k (Ptr p) m = Inr m' \<and> freed m m' {p} {}"
  by (rule release_at [OF assms]) (auto simp: freed_def)

lemma delete_at_frees:
  assumes "mem_at m p i = Some (Ptr q)" "mem_shape m q = Some (By_new_array, n)" "q \<noteq> p"
  shows "\<exists>m'. delete_array_at (Ptr p) i m = Inr m' \<and> freed m m' {q} {(p, i)}"
proof -
  obtain m1 where m1: "mem_release By_new_array (Ptr q) m = Inr m1" "mem_shape m1 = (mem_shape m)(q := None)"
    "\<And>b j. mem_at m1 b j = (if b = q then None else mem_at m b j)"
    by (rule release_at [OF assms(2)]) (rule that)
  have there: "mem_at m1 p i \<noteq> None" using assms(1,3) m1(3) [of p i] by simp
  obtain m2 where "mem_store (Ptr p) i Null m1 = Inr m2" "mem_shape m2 = mem_shape m1"
    "\<And>b j. mem_at m2 b j = (if b = p \<and> j = i then Some Null else mem_at m1 b j)"
    by (rule mem_store_at [OF there, of Null]) (rule that)
  note m2 = this
  have "delete_array_at (Ptr p) i m = Inr m2" using assms(1) m1(1) m2(1) by (simp add: delete_array_at_def mem_load_at)
  moreover have "freed m m2 {q} {(p, i)}" unfolding freed_def by (simp add: m2(2,3) m1(2,3))
  ultimately show ?thesis by blast
qed

text \<open>An array of arrays whose blocks were made by \<open>new []\<close>, all different.\<close>

definition made_by_new :: "'v memory \<Rightarrow> nat \<Rightarrow> bool" where
  "made_by_new m b \<longleftrightarrow> (\<exists>n. mem_shape m b = Some (By_new_array, n))"

lemma rows_freed:
  assumes d: "dim2 m p n y R" and new: "\<And>i. i < n \<Longrightarrow> made_by_new m (R i)" and inj: "inj_on R {..<n}"
  shows "\<exists>s. for_loop n (delete_array_at (Ptr p)) m = Inr s \<and> freed m s (\<Union>i<n. {R i}) (\<Union>i<n. {(p, i)})"
proof (rule loop_frees)
  fix i s
  assume i: "i < n" and s: "freed m s (\<Union>j<i. {R j}) (\<Union>j<i. {(p, j)})"
  have rows: "R j \<noteq> p" if "j < n" for j using d that by (simp add: dim2_def)
  have "mem_at s p i = mem_at m p i" by (rule freed_keeps(2) [OF s]) (use rows i in \<open>auto dest: order.strict_trans\<close>)
  moreover have "mem_shape s (R i) = mem_shape m (R i)"
    by (rule freed_keeps(1) [OF s]) (use i in \<open>auto simp: inj_on_eq_iff [OF inj]\<close>)
  ultimately show "\<exists>s'. delete_array_at (Ptr p) i s = Inr s' \<and> freed s s' {R i} {(p, i)}"
    using d i new [OF i] delete_at_frees [of s p i "R i"] by (auto simp: dim2_def made_by_new_def)
qed

lemma DeleteDim2_frees:
  assumes d: "dim2 m p (unat x) n R" and new: "made_by_new m p" "\<And>i. i < unat x \<Longrightarrow> made_by_new m (R i)" and inj: "inj_on R {..<unat x}"
  shows "\<exists>m'. DeleteDim2 x y (Ptr p) m = Inr m' \<and> (\<forall>b. mem_shape m' b = (if b = p \<or> (\<exists>i<unat x. b = R i) then None else mem_shape m b))"
proof -
  obtain s where s: "for_loop (unat x) (delete_array_at (Ptr p)) m = Inr s" "freed m s (\<Union>i<unat x. {R i}) (\<Union>i<unat x. {(p, i)})"
    using rows_freed [OF d new(2) inj] by blast
  have "R j \<noteq> p" if "j < unat x" for j using d that by (simp add: dim2_def)
  then have "mem_shape s p = mem_shape m p" by (intro freed_keeps(1) [OF s(2)]) auto
  then obtain n where "mem_shape s p = Some (By_new_array, n)" using new(1) by (auto simp: made_by_new_def)
  from release_frees [OF this] obtain m' where m': "mem_release By_new_array (Ptr p) s = Inr m'" "freed s m' {p} {}" by blast
  with s(1) have "DeleteDim2 x y (Ptr p) m = Inr m'" by (simp add: DeleteDim2_def)
  moreover have "mem_shape m' b = (if b = p \<or> (\<exists>i<unat x. b = R i) then None else mem_shape m b)" for b
    using m'(2) s(2) unfolding freed_def by auto
  ultimately show ?thesis by blast
qed

text \<open>One round of the outer loop of \<open>DeleteDim3\<close> frees the blocks of a row, and the row.\<close>

lemma row_frees:
  assumes at: "mem_at s p i = Some (Ptr r)" "\<And>j. j < n \<Longrightarrow> mem_at s r j = Some (Ptr (S j))"
    and apart: "r \<noteq> p" "\<And>j. j < n \<Longrightarrow> S j \<noteq> p \<and> S j \<noteq> r" "inj_on S {..<n}"
    and new: "made_by_new s r" "\<And>j. j < n \<Longrightarrow> made_by_new s (S j)"
  shows "\<exists>t. rbind (for_loop n (\<lambda>j m. rbind (mem_load (Ptr p) i m) (\<lambda>rows. delete_array_at rows j m)) s) (delete_array_at (Ptr p) i) = Inr t
    \<and> freed s t ((\<Union>j<n. {S j}) \<union> {r}) ((\<Union>j<n. {(r, j)}) \<union> {(p, i)})"
proof -
  let ?rows = "\<lambda>j m. rbind (mem_load (Ptr p) i m) (\<lambda>rows. delete_array_at rows j m)"
  have "\<exists>t. for_loop n ?rows s = Inr t \<and> freed s t (\<Union>j<n. {S j}) (\<Union>j<n. {(r, j)})"
  proof (rule loop_frees)
    fix j t
    assume j: "j < n" and t: "freed s t (\<Union>k<j. {S k}) (\<Union>k<j. {(r, k)})"
    note lt = order.strict_trans [OF _ j]
    have "mem_at t p i = mem_at s p i" by (rule freed_keeps(2) [OF t]) (use apart lt in force)+
    moreover have "mem_at t r j = mem_at s r j" by (rule freed_keeps(2) [OF t]) (use apart(2) lt in force)+
    moreover have "mem_shape t (S j) = mem_shape s (S j)"
      by (rule freed_keeps(1) [OF t]) (use inj_onD [OF apart(3), of j] j lt in force)
    moreover obtain l where "mem_shape s (S j) = Some (By_new_array, l)" using new(2) [OF j] by (auto simp: made_by_new_def)
    ultimately show "\<exists>t'. ?rows j t = Inr t' \<and> freed t t' {S j} {(r, j)}"
      using at(1) at(2) [OF j] apart(2) [OF j] delete_at_frees [of t r j "S j" l] by (simp add: mem_load_at)
  qed
  then obtain t where t: "for_loop n ?rows s = Inr t" "freed s t (\<Union>j<n. {S j}) (\<Union>j<n. {(r, j)})" by blast
  have "mem_at t p i = mem_at s p i" by (rule freed_keeps(2) [OF t(2)]) (use apart in force)+
  moreover have "mem_shape t r = mem_shape s r" by (rule freed_keeps(1) [OF t(2)]) (use apart(2) in force)
  moreover obtain l where "mem_shape s r = Some (By_new_array, l)" using new(1) by (auto simp: made_by_new_def)
  ultimately obtain u where "delete_array_at (Ptr p) i t = Inr u" "freed t u {r} {(p, i)}"
    using delete_at_frees [of t p i r l] at(1) apart(1) by auto
  with t(1) freed_more [OF t(2) this(2)] show ?thesis by simp
qed

text \<open>
  C38: On an array of three dimensions whose blocks were all made by \<open>new []\<close> and are different,
  \<open>DeleteDim3\<close> releases every block of it once, and nothing else.
\<close>

theorem DeleteDim3_frees:
  assumes d: "dim3 m p (unat x) (unat y) n R S" and inj: "inj_on R {..<unat x}" "inj_on (\<lambda>(i, j). S i j) ({..<unat x} \<times> {..<unat y})"
    and new: "made_by_new m p" "\<And>i. i < unat x \<Longrightarrow> made_by_new m (R i)" "\<And>i j. i < unat x \<Longrightarrow> j < unat y \<Longrightarrow> made_by_new m (S i j)"
  shows "\<exists>m'. DeleteDim3 x y z (Ptr p) m = Inr m'
    \<and> (\<forall>b. mem_shape m' b = (if b = p \<or> (\<exists>i<unat x. b = R i \<or> (\<exists>j<unat y. b = S i j)) then None else mem_shape m b))"
proof -
  let ?A = "\<lambda>i. (\<Union>j<unat y. {S i j}) \<union> {R i}" and ?N = "\<lambda>i. (\<Union>j<unat y. {(R i, j)}) \<union> {(p, i)}"
  let ?rows = "\<lambda>i j m. rbind (mem_load (Ptr p) i m) (\<lambda>rows. delete_array_at rows j m)"
  let ?body = "\<lambda>i m. rbind (for_loop (unat y) (?rows i) m) (delete_array_at (Ptr p) i)"
  have at: "mem_at m p i = Some (Ptr (R i))" "R i \<noteq> p" "dim2 m (R i) (unat y) n (S i)" if "i < unat x" for i
    using d that by (simp_all add: dim3_def)
  have leaf: "S i j \<noteq> p" "i' < unat x \<Longrightarrow> S i j \<noteq> R i'" if "i < unat x" "j < unat y" for i j i'
    using d that by (simp_all add: dim3_def)
  have once: "R i = R i' \<longleftrightarrow> i = i'" if "i < unat x" "i' < unat x" for i i' using inj(1) that by (simp add: inj_on_eq_iff)
  have once2: "S i j = S i' j' \<longleftrightarrow> i = i' \<and> j = j'" if "i < unat x" "j < unat y" "i' < unat x" "j' < unat y" for i j i' j'
    using inj_on_eq_iff [OF inj(2), of "(i, j)" "(i', j')"] that by simp
  have "\<exists>s. for_loop (unat x) ?body m = Inr s \<and> freed m s (\<Union>i<unat x. ?A i) (\<Union>i<unat x. ?N i)"
  proof (rule loop_frees)
    fix i s
    assume i: "i < unat x" and s: "freed m s (\<Union>j<i. ?A j) (\<Union>j<i. ?N j)"
    note lt = order.strict_trans [OF _ i]
    have outA: "b \<notin> (\<Union>j<i. ?A j)" if "\<And>j k. j < i \<Longrightarrow> k < unat y \<Longrightarrow> b \<noteq> S j k" "\<And>j. j < i \<Longrightarrow> b \<noteq> R j" for b
      using that by auto
    have outN: "(p, i) \<notin> (\<Union>j<i. ?N j)" "(R i, j) \<notin> (\<Union>j<i. ?N j)" for j
      using at(2) [OF i] at(2) [OF lt] once [OF i lt] by auto
    have "p \<notin> (\<Union>j<i. ?A j)" by (rule outA) (use at(2) leaf(1) lt in metis)+
    then have pi: "mem_at s p i = mem_at m p i" using outN(1) by (rule freed_keeps(2) [OF s])
    have "R i \<notin> (\<Union>j<i. ?A j)" by (rule outA) (use leaf(2) [OF lt _ i] once [OF i lt] in force)+
    then have ri: "mem_at s (R i) j = mem_at m (R i) j" "mem_shape s (R i) = mem_shape m (R i)" for j
      using outN(2) by (blast intro: freed_keeps [OF s])+
    have si: "mem_shape s (S i j) = mem_shape m (S i j)" if "j < unat y" for j
      by (rule freed_keeps(1) [OF s outA]) (use leaf(2) [OF i that lt] once2 [OF i that lt] in auto)
    have row: "mem_at m (R i) j = Some (Ptr (S i j))" if "j < unat y" for j using at(3) [OF i] that by (simp add: dim2_def)
    show "\<exists>s'. ?body i s = Inr s' \<and> freed s s' (?A i) (?N i)"
      by (rule row_frees)
        (use at(1,2) [OF i] row leaf [OF i _] i once2 [OF i _ i] new(2,3) in \<open>auto simp: pi ri si made_by_new_def inj_on_def\<close>)
  qed
  then obtain s where s: "for_loop (unat x) ?body m = Inr s" "freed m s (\<Union>i<unat x. ?A i) (\<Union>i<unat x. ?N i)" by blast
  have "mem_shape s p = mem_shape m p" by (rule freed_keeps(1) [OF s(2)]) (use at(2) leaf(1) in force)
  then obtain l where "mem_shape s p = Some (By_new_array, l)" using new(1) by (auto simp: made_by_new_def)
  from release_frees [OF this] obtain m' where "mem_release By_new_array (Ptr p) s = Inr m'" "freed s m' {p} {}" by blast
  with s show ?thesis by (auto simp: DeleteDim3_def freed_def)
qed

definition one_by_one :: "nat memory" where
  "one_by_one = \<lparr>blocks = [0 \<mapsto> \<lparr>made_by = By_new_array, elems = [Ptr 1]\<rparr>, 1 \<mapsto> \<lparr>made_by = By_new_array, elems = [Ptr 2]\<rparr>,
     2 \<mapsto> \<lparr>made_by = By_new_array, elems = [Undef]\<rparr>], next_block = 3, mem_limit = 64\<rparr>"

lemma DeleteDim3_frees_witness:
  "\<exists>m'. DeleteDim3 1 1 1 (Ptr 0) one_by_one = Inr m' \<and> mem_shape m' 0 = None \<and> mem_shape m' 1 = None \<and> mem_shape m' 2 = None"
proof -
  have "\<exists>m'. DeleteDim3 1 1 1 (Ptr 0) one_by_one = Inr m' \<and> (\<forall>b. mem_shape m' b =
      (if b = 0 \<or> (\<exists>i<unat (1 :: 64 word). b = 1 \<or> (\<exists>j<unat (1 :: 64 word). b = 2)) then None else mem_shape one_by_one b))"
    by (rule DeleteDim3_frees [where n = 1 and R = "\<lambda>i. 1" and S = "\<lambda>i j. 2"])
      (simp_all add: one_by_one_def dim3_def dim2_def mem_at_def mem_shape_def made_by_new_def inj_on_def)
  then show ?thesis by auto
qed

text \<open>
  What \<open>CreateDim2\<close> makes cannot be deleted by \<open>DeleteDim2\<close>: the blocks come from \<open>malloc\<close> and
  are given to \<open>delete []\<close>.
\<close>

theorem created_never_deletable:
  assumes wf: "mem_wf m" and sz: "0 < sz" and x: "unat x * 8 < 2 ^ 64" "unat x * 8 \<le> mem_limit m" and y: "unat y * sz < 2 ^ 64" "unat y * sz \<le> mem_limit m"
  shows "\<exists>a m'. CreateDim2 sz x y m = Inr (a, m') \<and> DeleteDim2 x y a m' = Inl Wrong_Release"
proof -
  obtain m' where m': "CreateDim2 sz x y m = Inr (Ptr (next_block m), m')" "created m m' (unat x) (unat y) (unat x)"
    using CreateDim2_ok [OF assms] by blast
  have "DeleteDim2 x y (Ptr (next_block m)) m' = Inl Wrong_Release"
  proof (cases "unat x = 0")
    case True
    with m'(2) show ?thesis by (simp add: DeleteDim2_def created_def release_wrong [of _ _ By_malloc])
  next
    case False
    then have "delete_array_at (Ptr (next_block m)) 0 m' = Inl Wrong_Release"
      using m'(2) mem_load_at [of m' "next_block m" 0] release_wrong [of m' "Suc (next_block m)" By_malloc]
      by (simp add: delete_array_at_def created_def)
    with False show ?thesis by (simp add: DeleteDim2_def for_loop_first_fails)
  qed
  with m'(1) show ?thesis by blast
qed

lemma created_never_deletable_witness:
  "\<exists>a m'. CreateDim2 4 2 3 (\<lparr>blocks = Map.empty, next_block = 0, mem_limit = 64\<rparr> :: nat memory) = Inr (a, m') \<and> DeleteDim2 2 3 a m' = Inl Wrong_Release"
  by (rule created_never_deletable) (simp_all add: mem_wf_def)

text \<open>
  Sizes are multiplied without a check: with 2 to the 61 rows or more, \<open>malloc\<close> gets the remainder
  of their size. And what \<open>malloc\<close> gives is not looked at.
\<close>

lemma CreateDim2_wraps:
  assumes "unat (x * 8) < 8" "0 < unat x" "unat (x * 8) \<le> mem_limit m"
  shows "CreateDim2 sz x y m = Inl Out_Of_Bounds"
proof -
  obtain m1 where m1: "mem_malloc 8 (x * 8) m = (Ptr (next_block m), m1)" "blocks m1 (next_block m) = Some \<lparr>made_by = By_malloc, elems = []\<rparr>"
    "next_block m1 = Suc (next_block m)"
    using assms(1,3) by (auto simp: mem_malloc_def put_block_def)
  have "mem_store (Ptr (next_block m)) 0 row m2 = Inl Out_Of_Bounds" if "mem_malloc sz (y * of_nat sz) m1 = (row, m2)" for row m2
    using that m1(2,3) by (auto simp: mem_malloc_def put_block_def mem_store_def mem_block_def split: if_splits)
  then have "for_loop (unat x) (\<lambda>i m. let (row, m') = mem_malloc sz (y * of_nat sz) m in mem_store (Ptr (next_block m1 - 1)) i row m') m1 = Inl Out_Of_Bounds"
    using assms(2) m1(3) by (intro for_loop_first_fails) (simp_all split: prod.splits)
  with m1(1,3) show ?thesis by (simp add: CreateDim2_def)
qed

lemma CreateDim2_unchecked: "0 < unat x \<Longrightarrow> mem_limit m < unat (x * 8) \<Longrightarrow> CreateDim2 sz x y m = Inl Null_Deref"
  by (simp add: CreateDim2_def mem_malloc_def [of 8] mem_store_def mem_block_def case_prod_unfold Let_def for_loop_first_fails)

end
