(* ===== verification/Buffer.thy ===== *)
theory Buffer
  imports Memory_Blocks
begin

text \<open>
  \<open>Buffer\<close> of \<^verbatim>\<open>src/buffer.hpp\<close> and \<open>Slice\<close> of \<^verbatim>\<open>src/slice.hpp\<close>, over the blocks of
  \<open>Memory_Blocks\<close> with one element for each byte: what \<open>Set\<close> writes and keeps, and what a caller
  must know about \<open>Len\<close>, about copies and about slices of a buffer.
\<close>

section \<open>Buffer\<close>

record buffer =
  buf_ptr :: "8 word cell"
  buf_len :: "64 word"
  buf_size :: "64 word"

definition new_buffer :: buffer where
  "new_buffer = \<lparr>buf_ptr = Null, buf_len = 0, buf_size = 0\<rparr>"

text \<open>\<open>realloc\<close>: a new block with what the old one held, which is released; the old one stays when there is no room.\<close>

definition mem_realloc :: "'v cell \<Rightarrow> 64 word \<Rightarrow> 'v memory \<Rightarrow> ('v cell \<times> 'v memory) result" where
  "mem_realloc c bytes m =
     (if c = Null then Inr (mem_malloc 1 bytes m)
      else rbind (mem_block c m) (\<lambda>(p, b).
        if made_by b \<noteq> By_malloc then Inl Wrong_Release
        else if mem_limit m < unat bytes then Inr (Null, m)
        else Inr (put_block By_malloc (take (unat bytes) (elems b @ replicate (unat bytes) Undef)) (m\<lparr>blocks := (blocks m)(p := None)\<rparr>))))"

definition buffer_Reserve :: "64 word \<Rightarrow> buffer \<Rightarrow> 8 word memory \<Rightarrow> (buffer \<times> 8 word memory) result" where
  "buffer_Reserve sz b m =
     (if buf_size b < sz
      then rbind (mem_realloc (buf_ptr b) sz m) (\<lambda>(p, m'). Inr (b\<lparr>buf_ptr := p, buf_size := sz\<rparr>, m'))
      else Inr (b, m))"

definition buffer_Set :: "8 word cell \<Rightarrow> 64 word \<Rightarrow> 64 word \<Rightarrow> buffer \<Rightarrow> 8 word memory \<Rightarrow> (buffer \<times> 8 word memory) result" where
  "buffer_Set buf len pos b m =
     rbind (buffer_Reserve (len + pos) b m) (\<lambda>(b', m1).
       rbind (mem_memcpy 1 (buf_ptr b') (unat pos) buf len m1) (\<lambda>m2. Inr (b', m2)))"

definition buffer_SetLen :: "64 word \<Rightarrow> buffer \<Rightarrow> buffer" where
  "buffer_SetLen len b = b\<lparr>buf_len := len\<rparr>"

definition buffer_Clear :: "buffer \<Rightarrow> buffer" where
  "buffer_Clear b = b\<lparr>buf_len := 0\<rparr>"

definition buffer_Start :: "buffer \<Rightarrow> 8 word cell" where
  "buffer_Start b = buf_ptr b"

definition buffer_Stop :: "buffer \<Rightarrow> 8 word cell \<times> 64 word" where
  "buffer_Stop b = (buf_ptr b, buf_len b)"

definition buffer_Len :: "buffer \<Rightarrow> 64 word" where
  "buffer_Len b = buf_len b"

definition buffer_Size :: "buffer \<Rightarrow> 64 word" where
  "buffer_Size b = buf_size b"

definition buffer_destroy :: "buffer \<Rightarrow> 8 word memory \<Rightarrow> 8 word memory result" where
  "buffer_destroy b m = (if buf_ptr b \<noteq> Null then mem_release By_malloc (buf_ptr b) m else Inr m)"

section \<open>Slice\<close>

record slice =
  slice_data :: "8 word cell"
  slice_size :: "64 word"

definition new_slice :: slice where
  "new_slice = \<lparr>slice_data = Null, slice_size = 0\<rparr>"

definition make_slice :: "8 word cell \<Rightarrow> 64 word \<Rightarrow> slice" where
  "make_slice data sz = \<lparr>slice_data = data, slice_size = sz\<rparr>"

definition slice_Set :: "8 word cell \<Rightarrow> 64 word \<Rightarrow> slice \<Rightarrow> slice" where
  "slice_Set data sz s = s\<lparr>slice_data := data, slice_size := sz\<rparr>"

definition slice_Data :: "slice \<Rightarrow> 8 word cell" where
  "slice_Data s = slice_data s"

definition slice_Size :: "slice \<Rightarrow> 64 word" where
  "slice_Size s = slice_size s"

section \<open>What a buffer holds\<close>

text \<open>The buffer has a block of its own, with at least as many bytes as it says, or none and no bytes.\<close>

definition buffer_inv :: "buffer \<Rightarrow> 8 word memory \<Rightarrow> bool" where
  "buffer_inv b m \<longleftrightarrow> (case buf_ptr b of
       Null \<Rightarrow> buf_size b = 0
     | Ptr p \<Rightarrow> mem_shape m p = Some (By_malloc, unat (buf_size b))
     | _ \<Rightarrow> False)"

definition buffer_at :: "buffer \<Rightarrow> 8 word memory \<Rightarrow> nat \<Rightarrow> 8 word cell option" where
  "buffer_at b m k = (case buf_ptr b of Ptr p \<Rightarrow> mem_at m p k | _ \<Rightarrow> None)"

text \<open>Everything outside the buffer stays.\<close>

definition others_kept :: "buffer \<Rightarrow> 8 word memory \<Rightarrow> 8 word memory \<Rightarrow> bool" where
  "others_kept b m m' \<longleftrightarrow> (\<forall>q. mem_shape m q \<noteq> None \<longrightarrow> Ptr q \<noteq> buf_ptr b \<longrightarrow> mem_shape m' q = mem_shape m q \<and> (\<forall>k. mem_at m' q k = mem_at m q k))"

lemma Reserve_place:
  assumes "buffer_Reserve sz b m = Inr (b', m')"
  shows "buf_ptr b' = buf_ptr b \<or> buf_ptr b' = Null \<or> buf_ptr b' = Ptr (next_block m)"
  using assms
  by (auto simp: buffer_Reserve_def mem_realloc_def mem_malloc_def put_block_def rbind_def split: if_splits sum.splits prod.splits)

lemma Reserve_ok:
  assumes wf: "mem_wf m" and inv: "buffer_inv b m" and room: "unat sz \<le> mem_limit m"
  obtains b' m' where "buffer_Reserve sz b m = Inr (b', m')" "mem_wf m'" "buffer_inv b' m'" "mem_limit m' = mem_limit m"
    "buf_len b' = buf_len b" "buf_size b' = max (buf_size b) sz" "others_kept b m m'"
    "\<And>k. k < unat (buf_size b') \<Longrightarrow> buffer_at b' m' k = (if k < unat (buf_size b) then buffer_at b m k else Some Undef)"
proof (cases "buf_size b < sz")
  case False
  have "buffer_Reserve sz b m = Inr (b, m)" using False by (simp add: buffer_Reserve_def)
  moreover have "max (buf_size b) sz = buf_size b" using False by (simp add: max_def not_less)
  ultimately show ?thesis using wf inv by (intro that [of b m]) (simp_all add: others_kept_def)
next
  case True
  then have mx: "max (buf_size b) sz = sz" and lt: "unat (buf_size b) < unat sz"
    by (simp_all add: max_def less_imp_le flip: word_less_nat_alt)
  show ?thesis
  proof (cases "buf_ptr b")
    case Null
    then have z: "buf_size b = 0" using inv by (simp add: buffer_inv_def)
    obtain c m' where pb: "put_block By_malloc (replicate (unat sz) Undef) m = (c, m')" by (metis surj_pair)
    note at = put_block_at [OF wf pb]
    have run: "buffer_Reserve sz b m = Inr (b\<lparr>buf_ptr := c, buf_size := sz\<rparr>, m')"
      using True Null room pb by (simp add: buffer_Reserve_def mem_realloc_def mem_malloc_def)
    show ?thesis
      by (rule that [OF run])
        (use at mx z fresh_shape [OF wf, of "next_block m"] in \<open>auto simp: buffer_inv_def buffer_at_def others_kept_def\<close>)
  next
    case (Ptr p)
    then obtain bl where bl: "blocks m p = Some bl" "made_by bl = By_malloc" "length (elems bl) = unat (buf_size b)"
      using inv by (auto simp: buffer_inv_def mem_shape_def)
    let ?m = "m\<lparr>blocks := (blocks m)(p := None)\<rparr>" and ?xs = "take (unat sz) (elems bl @ replicate (unat sz) Undef)"
    have wf': "mem_wf ?m" using wf by (simp add: mem_wf_def)
    have p: "p < next_block m" using wf bl(1) by (cases "next_block m \<le> p") (auto simp: mem_wf_def)
    obtain c m' where pb: "put_block By_malloc ?xs ?m = (c, m')" by (metis surj_pair)
    note at = put_block_at [OF wf' pb]
    have run: "buffer_Reserve sz b m = Inr (b\<lparr>buf_ptr := c, buf_size := sz\<rparr>, m')"
      using True Ptr bl room pb by (simp add: buffer_Reserve_def mem_realloc_def mem_block_def)
    have nth: "?xs ! k = (if k < unat (buf_size b) then elems bl ! k else Undef)" if "k < unat sz" for k
      using that bl(3) by (simp add: nth_append)
    have other: "mem_shape ?m q = mem_shape m q \<and> mem_at ?m q k = mem_at m q k" if "q \<noteq> p" for q k
      using that by (simp add: mem_shape_def mem_at_def)
    show ?thesis
    proof (rule that [OF run])
      show "others_kept b m m'"
        unfolding others_kept_def
      proof (intro allI impI)
        fix q assume "mem_shape m q \<noteq> None" "Ptr q \<noteq> buf_ptr b"
        then have "q \<noteq> p" "q \<noteq> next_block m" using Ptr fresh_shape [OF wf, of q] by auto
        then show "mem_shape m' q = mem_shape m q \<and> (\<forall>k. mem_at m' q k = mem_at m q k)"
          using at(5,6) other by simp
      qed
      show "buffer_at (b\<lparr>buf_ptr := c, buf_size := sz\<rparr>) m' k = (if k < unat (buf_size b) then buffer_at b m k else Some Undef)"
        if "k < unat (buf_size (b\<lparr>buf_ptr := c, buf_size := sz\<rparr>))" for k
        using that at(1,5) nth [of k] bl Ptr lt by (simp add: buffer_at_def mem_at_def)
    qed (use at mx lt bl(3) in \<open>simp_all add: buffer_inv_def\<close>)
  qed (use inv in \<open>simp_all add: buffer_inv_def\<close>)
qed

text \<open>
  C39: \<open>Set\<close> writes the bytes it is given at the position it is given, grows the buffer when they do
  not fit, and keeps every other byte of the buffer, every other block and the length, unless the
  end of the range overflows or there is no memory.
\<close>

theorem buffer_Set_writes:
  assumes wf: "mem_wf m" and inv: "buffer_inv b m" and src: "mem_shape m q = Some (k0, nq)" "unat len \<le> nq" "Ptr q \<noteq> buf_ptr b"
    and sum: "unat len + unat pos < 2 ^ 64" "unat len + unat pos \<le> mem_limit m" and block: "buf_ptr b \<noteq> Null \<or> 0 < len + pos"
  shows "\<exists>b' m'. buffer_Set (Ptr q) len pos b m = Inr (b', m') \<and> mem_wf m' \<and> buffer_inv b' m'
    \<and> buf_len b' = buf_len b \<and> buf_size b' = max (buf_size b) (len + pos) \<and> others_kept b m m'
    \<and> (\<forall>k < unat (buf_size b'). buffer_at b' m' k = (if unat pos \<le> k \<and> k < unat pos + unat len then mem_at m q (k - unat pos)
          else if k < unat (buf_size b) then buffer_at b m k else Some Undef))"
proof -
  have lp: "unat (len + pos) = unat len + unat pos" using sum(1) by (simp add: unat_word_ariths)
  obtain b' m1 where r: "buffer_Reserve (len + pos) b m = Inr (b', m1)" "mem_wf m1" "buffer_inv b' m1" "mem_limit m1 = mem_limit m"
    "buf_len b' = buf_len b" "buf_size b' = max (buf_size b) (len + pos)" "others_kept b m m1"
    "\<And>k. k < unat (buf_size b') \<Longrightarrow> buffer_at b' m1 k = (if k < unat (buf_size b) then buffer_at b m k else Some Undef)"
    by (rule Reserve_ok [OF wf inv, of "len + pos"]) (use sum(2) lp in simp, rule that)
  have q1: "mem_shape m1 q = Some (k0, nq)" "\<And>k. mem_at m1 q k = mem_at m q k" using r(7) src(1,3) by (simp_all add: others_kept_def)
  obtain p where p: "buf_ptr b' = Ptr p" "mem_shape m1 p = Some (By_malloc, unat (buf_size b'))"
  proof (cases "buf_ptr b'")
    case Null
    then have "buf_size b' = 0" using r(3) by (simp add: buffer_inv_def)
    then have "len + pos = 0" "\<not> buf_size b < len + pos" using r(6) by (auto simp: max_def split: if_splits)
    then have "b' = b" using r(1) by (simp add: buffer_Reserve_def)
    then show ?thesis using Null block \<open>len + pos = 0\<close> by simp
  qed (use r(3) in \<open>auto simp: buffer_inv_def\<close>)
  have fits: "unat pos + unat len \<le> unat (buf_size b')"
    using r(6) lp by (simp add: max_def word_le_nat_alt not_le split: if_splits)
  have outside: "r \<noteq> p" if "mem_shape m r \<noteq> None" "Ptr r \<noteq> buf_ptr b" for r
    using Reserve_place [OF r(1)] p(1) that fresh_shape [OF wf, of r] by auto
  have pq: "p \<noteq> q" using outside [of q] src by simp
  obtain m2 where m2: "mem_memcpy 1 (Ptr p) (unat pos) (Ptr q) len m1 = Inr m2" "mem_shape m2 = mem_shape m1" "next_block m2 = next_block m1"
    "mem_limit m2 = mem_limit m1" "\<And>r j. mem_at m2 r j = (if r = p \<and> unat pos \<le> j \<and> j < unat pos + unat len then mem_at m1 q (j - unat pos) else mem_at m1 r j)"
    by (rule mem_memcpy_at [OF p(2) fits q1(1) src(2) pq, of 1 len]) (simp, simp, rule that)
  have "buffer_Set (Ptr q) len pos b m = Inr (b', m2)" using r(1) p(1) m2(1) by (simp add: buffer_Set_def)
  moreover have "mem_wf m2" using r(2) shape_wf [OF m2(2,3)] by simp
  moreover have "buffer_inv b' m2" using r(3) p(1) m2(2) by (simp add: buffer_inv_def)
  moreover have "others_kept b m m2"
    unfolding others_kept_def
    using outside r(7) m2(2,5) by (auto simp: others_kept_def)
  moreover have "buffer_at b' m2 k = (if unat pos \<le> k \<and> k < unat pos + unat len then mem_at m q (k - unat pos)
          else if k < unat (buf_size b) then buffer_at b m k else Some Undef)" if "k < unat (buf_size b')" for k
    using r(8) [OF that] p(1) m2(5) [of p k] q1(2) by (simp add: buffer_at_def)
  ultimately show ?thesis using r(5,6) by blast
qed

lemma buffer_Set_writes_witness:
  "\<exists>b' m'. buffer_Set (Ptr 0) 2 1 new_buffer
      \<lparr>blocks = [0 \<mapsto> \<lparr>made_by = By_malloc, elems = [Val 7, Val 8]\<rparr>], next_block = 1, mem_limit = 64\<rparr> = Inr (b', m')
    \<and> buffer_at b' m' 2 = Some (Val 8) \<and> buf_len b' = 0"
proof -
  let ?m = "\<lparr>blocks = [0 \<mapsto> \<lparr>made_by = By_malloc, elems = [Val 7, Val 8]\<rparr>], next_block = 1, mem_limit = 64\<rparr>"
  from buffer_Set_writes [of ?m new_buffer 0 By_malloc 2 2 1] obtain b' m' where "buffer_Set (Ptr 0) 2 1 new_buffer ?m = Inr (b', m')"
    "buf_len b' = 0" "buf_size b' = max 0 3" "\<forall>k < unat (buf_size b'). buffer_at b' m' k = (if 1 \<le> k \<and> k < 3 then mem_at ?m 0 (k - 1) else Some Undef)"
    by (auto simp: mem_wf_def new_buffer_def buffer_inv_def mem_shape_def)
  then show ?thesis by (auto simp: mem_at_def)
qed

section \<open>What a caller must know\<close>

text \<open>When the end of the range overflows, \<open>Set\<close> writes outside the buffer.\<close>

lemma buffer_Set_wraps:
  assumes src: "mem_shape m q = Some (k0, nq)" "unat len \<le> nq" and b: "buf_ptr b = Ptr p" "mem_shape m p = Some (k1, np)" and "len + pos \<le> buf_size b"
    and "np < unat len + unat pos"
  shows "buffer_Set (Ptr q) len pos b m = Inl Out_Of_Bounds"
  using assms by (auto simp: buffer_Set_def buffer_Reserve_def mem_memcpy_def mem_block_def mem_shape_def copied_def Let_def)

text \<open>When there is no memory for the new size, the buffer forgets its block, which stays taken.\<close>

lemma buffer_Reserve_forgets:
  assumes "buf_ptr b = Ptr p" "mem_shape m p = Some (By_malloc, n)" "buf_size b < sz" "mem_limit m < unat sz"
  shows "buffer_Reserve sz b m = Inr (b\<lparr>buf_ptr := Null, buf_size := sz\<rparr>, m)"
  using assms by (auto simp: buffer_Reserve_def mem_realloc_def mem_block_def mem_shape_def)

text \<open>A buffer and a copy of it release the same block.\<close>

lemma buffer_copy_released_twice:
  assumes "buf_ptr b = Ptr p" "mem_shape m p = Some (By_malloc, n)"
  shows "\<exists>m'. buffer_destroy b m = Inr m' \<and> buffer_destroy b m' = Inl Use_After_Free"
  using assms by (auto simp: buffer_destroy_def mem_release_def mem_block_def mem_shape_def)

text \<open>A slice of a buffer is of no use once the buffer has grown.\<close>

lemma slice_dangles:
  assumes b: "buf_ptr b = Ptr p" "mem_shape m p = Some (By_malloc, n)" and wf: "mem_wf m" and sz: "buf_size b < sz" "unat sz \<le> mem_limit m"
  shows "\<exists>b' m'. buffer_Reserve sz b m = Inr (b', m') \<and> mem_load (slice_Data (make_slice (buffer_Start b) (buffer_Len b))) i m' = Inl Use_After_Free"
proof -
  obtain bl where bl: "blocks m p = Some bl" "made_by bl = By_malloc" using b(2) by (auto simp: mem_shape_def)
  have "p \<noteq> next_block m" using wf bl(1) by (auto simp: mem_wf_def)
  then show ?thesis using b(1) bl sz
    by (auto simp: buffer_Reserve_def mem_realloc_def mem_block_def put_block_def mem_load_def slice_Data_def make_slice_def buffer_Start_def)
qed

end
