(* ===== verification/Static_State.thy ===== *)
theory Static_State
  imports Prelude "HOL-Library.Signed_Division"
begin

text \<open>
  The classes that keep their state in static members: \<open>Time\<close> with \<open>Timer\<close> of \<^verbatim>\<open>src/time/\<close>,
  \<open>GMonitor\<close> of \<^verbatim>\<open>src/gmonitor.h\<close> and \<open>MemProfile\<close> of \<^verbatim>\<open>src/mem_profile.h\<close>. The clock and the
  answers of \<open>nanosleep\<close> are arguments; times are taken to fit their 64 bits.
\<close>

section \<open>Time\<close>

text \<open>What \<open>gettimeofday\<close> gives, seconds and microseconds, becomes the new \<open>time_\<close>.\<close>

definition UpdateTimer :: "int \<times> int \<Rightarrow> int" where
  "UpdateTimer now = fst now * 1000000 + snd now"

definition GetCurrentUsec :: "bool \<Rightarrow> int \<times> int \<Rightarrow> int \<Rightarrow> int \<times> int" where
  "GetCurrentUsec update now t = (let t' = (if update \<or> 0 = t then UpdateTimer now else t) in (t', t'))"

definition GetCurrentMsec :: "bool \<Rightarrow> int \<times> int \<Rightarrow> int \<Rightarrow> int \<times> int" where
  "GetCurrentMsec update now t = (let t' = (if update \<or> 0 = t then UpdateTimer now else t) in (t' sdiv 1000, t'))"

definition GetCurrentSec :: "bool \<Rightarrow> int \<times> int \<Rightarrow> int \<Rightarrow> int \<times> int" where
  "GetCurrentSec update now t = (let t' = (if update \<or> 0 = t then UpdateTimer now else t) in (t' sdiv 1000000, t'))"

record timer =
  timer_start :: int
  timer_stop :: "int option"

text \<open>A timer that is not stopped yet has no \<open>stop_\<close>.\<close>

definition new_timer :: "int \<times> int \<Rightarrow> int \<Rightarrow> timer \<times> int" where
  "new_timer now t = (let (us, t') = GetCurrentUsec True now t in (\<lparr>timer_start = us, timer_stop = None\<rparr>, t'))"

definition timer_Start :: "bool \<Rightarrow> int \<times> int \<Rightarrow> timer \<Rightarrow> int \<Rightarrow> timer \<times> int" where
  "timer_Start update now x t = (let (us, t') = GetCurrentUsec update now t in (x\<lparr>timer_start := us\<rparr>, t'))"

definition timer_Stop :: "bool \<Rightarrow> int \<times> int \<Rightarrow> timer \<Rightarrow> int \<Rightarrow> timer \<times> int" where
  "timer_Stop update now x t = (let (us, t') = GetCurrentUsec update now t in (x\<lparr>timer_stop := Some us\<rparr>, t'))"

definition TimeUs :: "timer \<Rightarrow> int result" where
  "TimeUs x = (case timer_stop x of None \<Rightarrow> Inl Indeterminate | Some s \<Rightarrow> Inr (s - timer_start x))"

definition TimeMs :: "timer \<Rightarrow> int result" where
  "TimeMs x = (case timer_stop x of None \<Rightarrow> Inl Indeterminate | Some s \<Rightarrow> Inr ((s - timer_start x) sdiv 1000))"

definition TimeSec :: "timer \<Rightarrow> int result" where
  "TimeSec x = (case timer_stop x of None \<Rightarrow> Inl Indeterminate | Some s \<Rightarrow> Inr ((s - timer_start x) sdiv 1000000))"

text \<open>What an answer of \<open>nanosleep\<close> is: the time is over, a signal came with so much of it left, or an error.\<close>

datatype nanosleep_answer = Slept | Interrupted nat | Sleep_Error

text \<open>
  \<open>UninteruptbleSleep\<close> on the answers that its calls get, with the time to sleep and \<open>rem\<close>, which
  nothing has been written to before the first interruption; the result is the time slept, all in
  nanoseconds. The loop goes on as long as the answers do; a negative time gets an error at once.
\<close>

fun sleep_loop :: "nat \<Rightarrow> nat option \<Rightarrow> nanosleep_answer list \<Rightarrow> nat result" where
  "sleep_loop req left [] = Inl Diverges"
| "sleep_loop req left (Slept # as) = Inr req"
| "sleep_loop req left (Interrupted r # as) = rbind (sleep_loop r (Some r) as) (\<lambda>slept. Inr (req - r + slept))"
| "sleep_loop req left (Sleep_Error # as) =
     (case left of None \<Rightarrow> Inl Indeterminate | Some r \<Rightarrow> sleep_loop r left as)"

definition UninteruptbleSleep :: "nat \<Rightarrow> nanosleep_answer list \<Rightarrow> nat result" where
  "UninteruptbleSleep sec as = sleep_loop (sec * 1000000000) None as"

section \<open>GMonitor and MemProfile\<close>

text \<open>The monitors that are there, by address, with the address of the next.\<close>

record gmonitor =
  monitor :: "nat option"
  owner :: bool
  monitors :: "nat set"
  next_monitor :: nat

definition new_gmonitor :: gmonitor where
  "new_gmonitor = \<lparr>monitor = None, owner = False, monitors = {}, next_monitor = 0\<rparr>"

text \<open>\<open>init_ok\<close> is what \<open>Init\<close> of a new monitor answers for the configuration.\<close>

definition gmonitor_Init :: "bool \<Rightarrow> nat option \<Rightarrow> gmonitor \<Rightarrow> bool \<times> gmonitor" where
  "gmonitor_Init init_ok m g =
     (case m of
        Some a \<Rightarrow> (True, g\<lparr>owner := False, monitor := Some a\<rparr>)
      | None \<Rightarrow> (init_ok, g\<lparr>owner := True, monitor := Some (next_monitor g),
          monitors := insert (next_monitor g) (monitors g), next_monitor := Suc (next_monitor g)\<rparr>))"

definition gmonitor_Get :: "gmonitor \<Rightarrow> nat result" where
  "gmonitor_Get g =
     (case monitor g of
        None \<Rightarrow> Inl Null_Deref
      | Some a \<Rightarrow> if a \<in> monitors g then Inr a else Inl Use_After_Free)"

definition gmonitor_Tini :: "gmonitor \<Rightarrow> gmonitor result" where
  "gmonitor_Tini g =
     (case monitor g of
        Some a \<Rightarrow>
          if owner g then (if a \<in> monitors g then Inr (g\<lparr>monitors := monitors g - {a}\<rparr>) else Inl Use_After_Free) else Inr g
      | None \<Rightarrow> Inr g)"

definition MemProfile_SetFlag :: "bool \<Rightarrow> bool \<Rightarrow> bool" where
  "MemProfile_SetFlag flag old = flag"

definition MemProfile_GetFlag :: "bool \<Rightarrow> bool" where
  "MemProfile_GetFlag flag = flag"

section \<open>Measuring\<close>

text \<open>A timer started and stopped with an update measures the clock; without one it measures nothing.\<close>

lemma timer_measures:
  assumes "new_timer now t = (x, t1)" "timer_Stop True now' x t1 = (y, t2)"
  shows "TimeUs y = Inr (UpdateTimer now' - UpdateTimer now)"
  using assms by (auto simp: new_timer_def timer_Stop_def GetCurrentUsec_def TimeUs_def Let_def)

lemma timer_not_updated:
  assumes "new_timer now t = (x, t1)" "timer_Stop False now' x t1 = (y, t2)" "UpdateTimer now \<noteq> 0"
  shows "TimeUs y = Inr 0"
  using assms by (auto simp: new_timer_def timer_Stop_def GetCurrentUsec_def TimeUs_def Let_def)

lemma timer_not_stopped: "TimeUs (fst (new_timer now t)) = Inl Indeterminate"
  by (simp add: new_timer_def GetCurrentUsec_def TimeUs_def Let_def)

section \<open>Sleeping\<close>

text \<open>The answers of \<open>nanosleep\<close> to a request: interruptions that leave ever less, at last none.\<close>

fun interrupted_until_slept :: "nat \<Rightarrow> nanosleep_answer list \<Rightarrow> bool" where
  "interrupted_until_slept req [] = False"
| "interrupted_until_slept req (Slept # as) = True"
| "interrupted_until_slept req (Interrupted r # as) = (r \<le> req \<and> interrupted_until_slept r as)"
| "interrupted_until_slept req (Sleep_Error # as) = False"

lemma sleep_loop_whole: "interrupted_until_slept req as \<Longrightarrow> sleep_loop req left as = Inr req"
  by (induction req as arbitrary: left rule: interrupted_until_slept.induct) auto

text \<open>However often it is interrupted, the whole time is slept.\<close>

theorem sleeps_in_full: "interrupted_until_slept (sec * 1000000000) as \<Longrightarrow> UninteruptbleSleep sec as = Inr (sec * 1000000000)"
  by (simp add: UninteruptbleSleep_def sleep_loop_whole)

text \<open>A call that fails at once, as for a time that is not allowed, is taken for an interruption: what is left is read and was never written.\<close>

lemma failed_sleep_reads_rem: "UninteruptbleSleep sec (Sleep_Error # as) = Inl Indeterminate"
  by (simp add: UninteruptbleSleep_def)

section \<open>The monitor\<close>

lemma own_monitor:
  assumes "gmonitor_Init ok None g = (b, g1)"
  shows "gmonitor_Get g1 = Inr (next_monitor g)"
    and "\<exists>g2. gmonitor_Tini g1 = Inr g2 \<and> monitors g2 = monitors g - {next_monitor g} \<and> gmonitor_Get g2 = Inl Use_After_Free \<and> gmonitor_Tini g2 = Inl Use_After_Free"
  using assms by (auto simp: gmonitor_Init_def gmonitor_Get_def gmonitor_Tini_def)

lemma borrowed_monitor: "gmonitor_Init ok (Some a) g = (b, g1) \<Longrightarrow> gmonitor_Tini g1 = Inr g1 \<and> monitors g1 = monitors g"
  by (auto simp: gmonitor_Init_def gmonitor_Tini_def)

lemma own_monitor_lost:
  assumes "gmonitor_Init ok None g = (b, g1)" "gmonitor_Init ok' None g1 = (b', g2)" "gmonitor_Tini g2 = Inr g3"
  shows "next_monitor g \<in> monitors g3"
  using assms by (auto simp: gmonitor_Init_def gmonitor_Tini_def)

end
