(* ===== verification/Common_Macros.thy ===== *)
theory Common_Macros
  imports Static_State C_Strings
begin

text \<open>
  The macros of \<^verbatim>\<open>src/common.h\<close> that allocate and release, with \<open>MEMPROFILE\<close> and without, on the
  flag of \<open>MemProfile\<close> and the monitor of \<open>GMonitor\<close>. The theorems say that profiling changes nothing but what the monitor is told, and what the numbers it is told
  add up to.

  The class of the monitor is an argument of the build; what is modelled of it is the calls of
  \<open>Inc\<close> that it gets. What the allocator answers is an argument: nothing, or the number of bytes
  that \<open>malloc_usable_size\<close> gives for the new block, and whether the pointer that the program gets
  is past the start of the block, as that of an array with its length in front is.
\<close>

section \<open>Blocks and members\<close>

datatype made_with = With_new | With_new_array | With_malloc

record heap_block =
  blk_made :: made_with
  blk_usable :: nat
  blk_cookie :: bool

text \<open>Pointers are variables by number, \<open>None\<close> for \<open>NULL\<close>.\<close>

record prof_mem =
  heap_blocks :: "nat \<rightharpoonup> heap_block"
  next_address :: nat
  members :: "nat \<Rightarrow> nat option"
  prof_flag :: bool
  prof_monitor :: gmonitor
  inc_calls :: "(string \<times> string \<times> nat) list"

type_synonym alloc_answer = "(nat \<times> bool) option"
type_synonym code_site = "string \<times> nat"

definition set_member :: "nat \<Rightarrow> nat option \<Rightarrow> prof_mem \<Rightarrow> prof_mem" where
  "set_member x p m = m\<lparr>members := (members m)(x := p)\<rparr>"

definition allocate :: "made_with \<Rightarrow> alloc_answer \<Rightarrow> prof_mem \<Rightarrow> nat option \<times> prof_mem" where
  "allocate k ans m =
     (case ans of
        None \<Rightarrow> (None, m)
      | Some (n, cookie) \<Rightarrow> (Some (next_address m),
          m\<lparr>heap_blocks := (heap_blocks m)(next_address m \<mapsto> \<lparr>blk_made = k, blk_usable = n, blk_cookie = cookie\<rparr>),
            next_address := Suc (next_address m)\<rparr>))"

definition block_of :: "nat \<Rightarrow> prof_mem \<Rightarrow> heap_block result" where
  "block_of p m = (case heap_blocks m p of None \<Rightarrow> Inl Use_After_Free | Some b \<Rightarrow> Inr b)"

definition release :: "made_with \<Rightarrow> nat \<Rightarrow> prof_mem \<Rightarrow> prof_mem result" where
  "release k p m =
     rbind (block_of p m) (\<lambda>b.
     if blk_made b \<noteq> k then Inl Wrong_Release else Inr (m\<lparr>heap_blocks := (heap_blocks m)(p := None)\<rparr>))"

text \<open>\<open>malloc_usable_size\<close>: 0 for \<open>NULL\<close>, and only defined for what \<open>malloc\<close> returned.\<close>

definition usable_size :: "nat option \<Rightarrow> prof_mem \<Rightarrow> nat result" where
  "usable_size p m =
     (case p of
        None \<Rightarrow> Inr 0
      | Some a \<Rightarrow> rbind (block_of a m) (\<lambda>b. if blk_cookie b then Inl Indeterminate else Inr (blk_usable b)))"

section \<open>What is told to the monitor\<close>

definition kMaxSizeMemProfilekey :: nat where
  "kMaxSizeMemProfilekey = 512"

definition kMaxSizeStaticProfilekey :: nat where
  "kMaxSizeStaticProfilekey = 512"

definition profile_key :: "string \<Rightarrow> code_site \<Rightarrow> string" where
  "profile_key what site = what @ ''_'' @ fst site @ ''_'' @ int_dec (int (snd site))"

text \<open>\<open>sprintf\<close> into the buffer, which a key that is too long leaves, and \<open>Inc\<close> of the monitor.\<close>

definition monitor_inc :: "string \<Rightarrow> nat \<Rightarrow> string \<Rightarrow> nat result \<Rightarrow> prof_mem \<Rightarrow> prof_mem result" where
  "monitor_inc grp limit key amount m =
     (if limit \<le> length key then Inl Out_Of_Bounds
      else rbind (gmonitor_Get (prof_monitor m)) (\<lambda>mon.
      rbind amount (\<lambda>n. Inr (m\<lparr>inc_calls := inc_calls m @ [(grp, key, n)]\<rparr>))))"

definition mem_profile :: "string \<Rightarrow> code_site \<Rightarrow> nat option \<Rightarrow> prof_mem \<Rightarrow> prof_mem result" where
  "mem_profile what site p m =
     (if MemProfile_GetFlag (prof_flag m) then
        monitor_inc ''mem_profile'' kMaxSizeMemProfilekey (profile_key what site) (usable_size p m) m
      else Inr m)"

definition XFC_STATIC_PROFILE :: "string \<Rightarrow> code_site \<Rightarrow> nat \<Rightarrow> prof_mem \<Rightarrow> prof_mem result" where
  "XFC_STATIC_PROFILE item site num m =
     monitor_inc ''static_profile'' kMaxSizeStaticProfilekey (profile_key item site) (Inr num) m"

section \<open>The macros with profiling\<close>

definition prof_NEW :: "nat \<Rightarrow> bool \<Rightarrow> code_site \<Rightarrow> alloc_answer \<Rightarrow> prof_mem \<Rightarrow> prof_mem result" where
  "prof_NEW x array site ans m =
     (let (p, m1) = allocate (if array then With_new_array else With_new) ans m in
      mem_profile ''new'' site p (set_member x p m1))"

definition prof_NEW_DECL :: "nat \<Rightarrow> bool \<Rightarrow> code_site \<Rightarrow> alloc_answer \<Rightarrow> prof_mem \<Rightarrow> prof_mem result" where
  "prof_NEW_DECL x array site ans m =
     (let (p, m1) = allocate (if array then With_new_array else With_new) ans m in
      mem_profile ''new'' site p (set_member x p m1))"

text \<open>This one returns the pointer from the function that it stands in.\<close>

definition prof_NEW_AND_RET :: "bool \<Rightarrow> code_site \<Rightarrow> alloc_answer \<Rightarrow> prof_mem \<Rightarrow> (nat option \<times> prof_mem) result" where
  "prof_NEW_AND_RET array site ans m =
     (let (p, m1) = allocate (if array then With_new_array else With_new) ans m in
      rbind (mem_profile ''new'' site p m1) (\<lambda>m2. Inr (p, m2)))"

definition prof_MALLOC :: "nat \<Rightarrow> code_site \<Rightarrow> alloc_answer \<Rightarrow> prof_mem \<Rightarrow> prof_mem result" where
  "prof_MALLOC x site ans m =
     (let (p, m1) = allocate With_malloc ans m in mem_profile ''new'' site p (set_member x p m1))"

text \<open>
  \<open>realloc\<close> to so many bytes: of \<open>NULL\<close> it is \<open>malloc\<close>, to no bytes it is \<open>free\<close>, and when it fails
  the block stays.
\<close>

definition do_realloc :: "nat option \<Rightarrow> nat \<Rightarrow> alloc_answer \<Rightarrow> prof_mem \<Rightarrow> (nat option \<times> prof_mem) result" where
  "do_realloc p bytes ans m =
     (case p of
        None \<Rightarrow> Inr (allocate With_malloc ans m)
      | Some a \<Rightarrow>
          if bytes = 0 then rbind (release With_malloc a m) (\<lambda>m1. Inr (None, m1))
          else if ans = None then rbind (block_of a m) (\<lambda>b. Inr (None, m))
          else rbind (release With_malloc a m) (\<lambda>m1. Inr (allocate With_malloc ans m1)))"

definition prof_REALLOC :: "nat \<Rightarrow> nat \<Rightarrow> nat \<Rightarrow> alloc_answer \<Rightarrow> prof_mem \<Rightarrow> prof_mem result" where
  "prof_REALLOC y x bytes ans m =
     rbind (do_realloc (members m x) bytes ans m) (\<lambda>(p, m1). Inr (set_member y p m1))"

definition prof_DELETE :: "nat \<Rightarrow> code_site \<Rightarrow> prof_mem \<Rightarrow> prof_mem result" where
  "prof_DELETE x site m =
     (case members m x of
        None \<Rightarrow> Inr m
      | Some a \<Rightarrow>
          rbind (mem_profile ''delete'' site (Some a) m) (\<lambda>m1.
          rbind (release With_new a m1) (\<lambda>m2. Inr (set_member x None m2))))"

definition prof_DELETE_ARRAY :: "nat \<Rightarrow> code_site \<Rightarrow> prof_mem \<Rightarrow> prof_mem result" where
  "prof_DELETE_ARRAY x site m =
     (case members m x of
        None \<Rightarrow> Inr m
      | Some a \<Rightarrow>
          rbind (mem_profile ''delete'' site (Some a) m) (\<lambda>m1.
          rbind (release With_new_array a m1) (\<lambda>m2. Inr (set_member x None m2))))"

definition prof_FREE :: "nat \<Rightarrow> code_site \<Rightarrow> prof_mem \<Rightarrow> prof_mem result" where
  "prof_FREE x site m =
     (case members m x of
        None \<Rightarrow> Inr m
      | Some a \<Rightarrow>
          rbind (mem_profile ''delete'' site (Some a) m) (\<lambda>m1.
          rbind (release With_malloc a m1) (\<lambda>m2. Inr (set_member x None m2))))"

section \<open>The macros without profiling\<close>

definition XFC_NEW :: "nat \<Rightarrow> bool \<Rightarrow> alloc_answer \<Rightarrow> prof_mem \<Rightarrow> prof_mem result" where
  "XFC_NEW x array ans m =
     (let (p, m1) = allocate (if array then With_new_array else With_new) ans m in Inr (set_member x p m1))"

definition XFC_NEW_DECL :: "nat \<Rightarrow> bool \<Rightarrow> alloc_answer \<Rightarrow> prof_mem \<Rightarrow> prof_mem result" where
  "XFC_NEW_DECL x array ans m =
     (let (p, m1) = allocate (if array then With_new_array else With_new) ans m in Inr (set_member x p m1))"

definition XFC_NEW_AND_RET :: "bool \<Rightarrow> alloc_answer \<Rightarrow> prof_mem \<Rightarrow> (nat option \<times> prof_mem) result" where
  "XFC_NEW_AND_RET array ans m = Inr (allocate (if array then With_new_array else With_new) ans m)"

definition XFC_MALLOC :: "nat \<Rightarrow> alloc_answer \<Rightarrow> prof_mem \<Rightarrow> prof_mem result" where
  "XFC_MALLOC x ans m = (let (p, m1) = allocate With_malloc ans m in Inr (set_member x p m1))"

definition XFC_REALLOC :: "nat \<Rightarrow> nat \<Rightarrow> nat \<Rightarrow> alloc_answer \<Rightarrow> prof_mem \<Rightarrow> prof_mem result" where
  "XFC_REALLOC y x bytes ans m =
     rbind (do_realloc (members m x) bytes ans m) (\<lambda>(p, m1). Inr (set_member y p m1))"

definition XFC_DELETE :: "nat \<Rightarrow> prof_mem \<Rightarrow> prof_mem result" where
  "XFC_DELETE x m =
     (case members m x of
        None \<Rightarrow> Inr m
      | Some a \<Rightarrow> rbind (release With_new a m) (\<lambda>m1. Inr (set_member x None m1)))"

definition XFC_DELETE_ARRAY :: "nat \<Rightarrow> prof_mem \<Rightarrow> prof_mem result" where
  "XFC_DELETE_ARRAY x m =
     (case members m x of
        None \<Rightarrow> Inr m
      | Some a \<Rightarrow> rbind (release With_new_array a m) (\<lambda>m1. Inr (set_member x None m1)))"

definition XFC_FREE :: "nat \<Rightarrow> prof_mem \<Rightarrow> prof_mem result" where
  "XFC_FREE x m =
     (case members m x of
        None \<Rightarrow> Inr m
      | Some a \<Rightarrow> rbind (release With_malloc a m) (\<lambda>m1. Inr (set_member x None m1)))"

section \<open>A program\<close>

text \<open>
  Its steps: the macros, a pointer copied to another, the flag, and the monitor made and taken
  down; the output is whether the pointer in question is \<open>NULL\<close> afterwards.
\<close>

datatype mem_op =
    M_New nat bool code_site alloc_answer
  | M_New_Decl nat bool code_site alloc_answer
  | M_New_Ret nat bool code_site alloc_answer
  | M_Malloc nat code_site alloc_answer
  | M_Realloc nat nat nat alloc_answer
  | M_Delete nat code_site
  | M_Delete_Array nat code_site
  | M_Free nat code_site
  | M_Alias nat nat
  | M_Flag bool
  | M_Init bool "nat option"
  | M_Tini

definition null_after :: "nat \<Rightarrow> prof_mem result \<Rightarrow> (bool \<times> prof_mem) result" where
  "null_after x r = rbind r (\<lambda>m. Inr (members m x = None, m))"

text \<open>The steps that are the same in both builds.\<close>

fun common_call :: "prof_mem \<Rightarrow> mem_op \<Rightarrow> (bool \<times> prof_mem) result" where
  "common_call m (M_Alias y x) = null_after y (Inr (set_member y (members m x) m))"
| "common_call m (M_Flag b) = Inr (False, m\<lparr>prof_flag := MemProfile_SetFlag b (prof_flag m)\<rparr>)"
| "common_call m (M_Init ok a) =
     (let (out, g) = gmonitor_Init ok a (prof_monitor m) in Inr (out, m\<lparr>prof_monitor := g\<rparr>))"
| "common_call m op = rbind (gmonitor_Tini (prof_monitor m)) (\<lambda>g. Inr (False, m\<lparr>prof_monitor := g\<rparr>))"

fun prof_call :: "prof_mem \<Rightarrow> mem_op \<Rightarrow> (bool \<times> prof_mem) result" where
  "prof_call m (M_New x array site ans) = null_after x (prof_NEW x array site ans m)"
| "prof_call m (M_New_Decl x array site ans) = null_after x (prof_NEW_DECL x array site ans m)"
| "prof_call m (M_New_Ret x array site ans) =
     null_after x (rbind (prof_NEW_AND_RET array site ans m) (\<lambda>(p, m1). Inr (set_member x p m1)))"
| "prof_call m (M_Malloc x site ans) = null_after x (prof_MALLOC x site ans m)"
| "prof_call m (M_Realloc y x bytes ans) = null_after y (prof_REALLOC y x bytes ans m)"
| "prof_call m (M_Delete x site) = null_after x (prof_DELETE x site m)"
| "prof_call m (M_Delete_Array x site) = null_after x (prof_DELETE_ARRAY x site m)"
| "prof_call m (M_Free x site) = null_after x (prof_FREE x site m)"
| "prof_call m op = common_call m op"

fun plain_call :: "prof_mem \<Rightarrow> mem_op \<Rightarrow> (bool \<times> prof_mem) result" where
  "plain_call m (M_New x array site ans) = null_after x (XFC_NEW x array ans m)"
| "plain_call m (M_New_Decl x array site ans) = null_after x (XFC_NEW_DECL x array ans m)"
| "plain_call m (M_New_Ret x array site ans) =
     null_after x (rbind (XFC_NEW_AND_RET array ans m) (\<lambda>(p, m1). Inr (set_member x p m1)))"
| "plain_call m (M_Malloc x site ans) = null_after x (XFC_MALLOC x ans m)"
| "plain_call m (M_Realloc y x bytes ans) = null_after y (XFC_REALLOC y x bytes ans m)"
| "plain_call m (M_Delete x site) = null_after x (XFC_DELETE x m)"
| "plain_call m (M_Delete_Array x site) = null_after x (XFC_DELETE_ARRAY x m)"
| "plain_call m (M_Free x site) = null_after x (XFC_FREE x m)"
| "plain_call m op = common_call m op"


section \<open>Profiling is transparent\<close>

definition forget :: "prof_mem \<Rightarrow> prof_mem" where
  "forget m = m\<lparr>inc_calls := []\<rparr>"

lemma forget_simps [simp]:
  "members (forget m) = members m" "heap_blocks (forget m) = heap_blocks m" "next_address (forget m) = next_address m"
  "prof_flag (forget m) = prof_flag m" "prof_monitor (forget m) = prof_monitor m"
  "forget (m\<lparr>inc_calls := cs\<rparr>) = forget m" "forget (set_member x p (m\<lparr>inc_calls := cs\<rparr>)) = forget (set_member x p m)" "set_member x p (forget m) = forget (set_member x p m)"
  "(forget m)\<lparr>prof_flag := b\<rparr> = forget (m\<lparr>prof_flag := b\<rparr>)" "(forget m)\<lparr>prof_monitor := g\<rparr> = forget (m\<lparr>prof_monitor := g\<rparr>)"
  by (simp_all add: forget_def set_member_def)

lemma forget_allocate: "allocate k ans (forget m) = (let (p, m1) = allocate k ans m in (p, forget m1))"
  by (simp add: allocate_def forget_def split: option.split prod.split)

lemma forget_release: "release k p (forget m) = rbind (release k p m) (\<lambda>m1. Inr (forget m1))"
  by (simp add: release_def block_of_def forget_def split: option.split)

lemma forget_realloc: "do_realloc p bytes ans (forget m) = rbind (do_realloc p bytes ans m) (\<lambda>(q, m1). Inr (q, forget m1))"
  by (auto simp: do_realloc_def forget_allocate forget_release block_of_def Let_def split: option.split prod.split sum.split)
    (auto simp: rbind_def forget_allocate Let_def split: sum.splits prod.splits)

lemma mem_profile_forget: "mem_profile what site p m = Inr m1 \<Longrightarrow> \<exists>cs. m1 = m\<lparr>inc_calls := cs\<rparr>"
  by (auto simp: mem_profile_def monitor_inc_def rbind_def split: if_splits sum.splits intro: exI [of _ "inc_calls m"])

lemmas prof_defs = prof_NEW_def prof_NEW_DECL_def prof_NEW_AND_RET_def prof_MALLOC_def prof_REALLOC_def prof_DELETE_def
  prof_DELETE_ARRAY_def prof_FREE_def
lemmas plain_defs = XFC_NEW_def XFC_NEW_DECL_def XFC_NEW_AND_RET_def XFC_MALLOC_def XFC_REALLOC_def XFC_DELETE_def
  XFC_DELETE_ARRAY_def XFC_FREE_def


lemma null_after_forget:
  assumes "\<And>m1. r = Inr m1 \<Longrightarrow> r' = Inr (forget m1)"
  shows "null_after x r = Inr (out, m') \<Longrightarrow> null_after x r' = Inr (out, forget m')"
  using assms by (auto simp: null_after_def rbind_def split: sum.splits)

lemma made_forget:
  assumes "(let (p, m1) = allocate k ans m in mem_profile what site p (set_member x p m1)) = Inr m2"
  shows "(let (p, m1) = allocate k ans (forget m) in Inr (set_member x p m1)) = Inr (forget m2)"
  using assms by (auto simp: forget_allocate Let_def split: prod.splits dest!: mem_profile_forget)

lemma gone_forget:
  assumes "(case members m x of None \<Rightarrow> Inr m
      | Some a \<Rightarrow> rbind (mem_profile what site (Some a) m) (\<lambda>m1. rbind (release k a m1) (\<lambda>m2. Inr (set_member x None m2)))) = Inr m'"
  shows "(case members m x of None \<Rightarrow> Inr (forget m)
      | Some a \<Rightarrow> rbind (release k a (forget m)) (\<lambda>m1. Inr (set_member x None m1))) = Inr (forget m')"
proof (cases "members m x")
  case (Some a)
  then obtain m1 m2 where m: "mem_profile what site (Some a) m = Inr m1" "release k a m1 = Inr m2" "m' = set_member x None m2"
    using assms by (auto simp: rbind_def split: sum.splits)
  from mem_profile_forget [OF m(1)] have "forget m1 = forget m" by auto
  then have "release k a (forget m) = Inr (forget m2)" using forget_release [of k a m1] m(2) by simp
  then show ?thesis using Some m(3) by simp
qed (use assms in simp)

lemma common_forget:
  "common_call m op = Inr (out, m') \<Longrightarrow> common_call (forget m) op = Inr (out, forget m')"
  by (cases op) (auto simp: null_after_def rbind_def split: sum.splits prod.splits)

lemma call_forget: "prof_call m op = Inr (out, m') \<Longrightarrow> plain_call (forget m) op = Inr (out, forget m')"
proof (cases op)
  case (M_New x a site ans)
  assume "prof_call m op = Inr (out, m')"
  then show ?thesis unfolding M_New prof_call.simps plain_call.simps
    by (rule null_after_forget [rotated]) (unfold prof_NEW_def XFC_NEW_def, rule made_forget)
next
  case (M_New_Decl x a site ans)
  assume "prof_call m op = Inr (out, m')"
  then show ?thesis unfolding M_New_Decl prof_call.simps plain_call.simps
    by (rule null_after_forget [rotated]) (unfold prof_NEW_DECL_def XFC_NEW_DECL_def, rule made_forget)
next
  case (M_New_Ret x a site ans)
  assume "prof_call m op = Inr (out, m')"
  then show ?thesis unfolding M_New_Ret prof_call.simps plain_call.simps
    by (rule null_after_forget [rotated])
      (auto simp: prof_NEW_AND_RET_def XFC_NEW_AND_RET_def forget_allocate Let_def rbind_def
        split: prod.splits sum.splits dest!: mem_profile_forget)
next
  case (M_Malloc x site ans)
  assume "prof_call m op = Inr (out, m')"
  then show ?thesis unfolding M_Malloc prof_call.simps plain_call.simps
    by (rule null_after_forget [rotated]) (unfold prof_MALLOC_def XFC_MALLOC_def, rule made_forget)
next
  case (M_Realloc y x n ans)
  assume "prof_call m op = Inr (out, m')"
  then show ?thesis unfolding M_Realloc prof_call.simps plain_call.simps
    by (rule null_after_forget [rotated])
      (auto simp: prof_REALLOC_def XFC_REALLOC_def forget_realloc rbind_def split: prod.splits sum.splits)
next
  case (M_Delete x site)
  assume "prof_call m op = Inr (out, m')"
  then show ?thesis unfolding M_Delete prof_call.simps plain_call.simps
    by (rule null_after_forget [rotated]) (unfold prof_DELETE_def XFC_DELETE_def forget_simps, rule gone_forget)
next
  case (M_Delete_Array x site)
  assume "prof_call m op = Inr (out, m')"
  then show ?thesis unfolding M_Delete_Array prof_call.simps plain_call.simps
    by (rule null_after_forget [rotated]) (unfold prof_DELETE_ARRAY_def XFC_DELETE_ARRAY_def forget_simps, rule gone_forget)
next
  case (M_Free x site)
  assume "prof_call m op = Inr (out, m')"
  then show ?thesis unfolding M_Free prof_call.simps plain_call.simps
    by (rule null_after_forget [rotated]) (unfold prof_FREE_def XFC_FREE_def forget_simps, rule gone_forget)
qed (simp_all only: prof_call.simps plain_call.simps common_forget)

text \<open>
  C40: A program that gets through with \<open>MEMPROFILE\<close> gets through without it: the same pointers are
  \<open>NULL\<close> on the way, and blocks, pointers, flag and monitor end up the same.
\<close>

theorem profiling_is_transparent:
  assumes "run_ops prof_call m ops = Inr (outs, m')"
  shows "run_ops plain_call (forget m) ops = Inr (outs, forget m')"
  using assms
proof (induction ops arbitrary: m outs)
  case (Cons op ops)
  then obtain out m1 outs' where s: "prof_call m op = Inr (out, m1)" "run_ops prof_call m1 ops = Inr (outs', m')" "outs = out # outs'"
    by (auto split: sum.splits prod.splits)
  from Cons.IH [OF s(2)] call_forget [OF s(1)] s(3) show ?case by simp
qed simp

section \<open>What the monitor is told\<close>

text \<open>The bytes under all keys that begin with \<open>what\<close>, and the bytes of the blocks there are.\<close>

definition counted :: "string \<Rightarrow> prof_mem \<Rightarrow> nat" where
  "counted what m = sum_list (map (\<lambda>(g, key, n). if take (length what) key = what then n else 0) (inc_calls m))"

definition live_bytes :: "prof_mem \<Rightarrow> nat" where
  "live_bytes m = (\<Sum>a<next_address m. case heap_blocks m a of None \<Rightarrow> 0 | Some b \<Rightarrow> blk_usable b)"

definition fresh_addresses :: "prof_mem \<Rightarrow> bool" where
  "fresh_addresses m \<longleftrightarrow> (\<forall>a \<ge> next_address m. heap_blocks m a = None)"

definition balance :: "prof_mem \<Rightarrow> bool" where
  "balance m \<longleftrightarrow> prof_flag m \<and> fresh_addresses m \<and> counted ''new_'' m = counted ''delete_'' m + live_bytes m"

text \<open>Steps that are told to the monitor; \<open>realloc\<close> is not, and the flag has to stay.\<close>

fun tracked :: "mem_op \<Rightarrow> bool" where
  "tracked (M_Realloc y x bytes ans) = False"
| "tracked (M_Flag b) = b"
| "tracked op = True"

lemma balance_fields [simp]:
  "counted w (set_member x p m) = counted w m" "live_bytes (set_member x p m) = live_bytes m"
  "fresh_addresses (set_member x p m) = fresh_addresses m" "prof_flag (set_member x p m) = prof_flag m"
  "counted w (m\<lparr>prof_monitor := g\<rparr>) = counted w m" "live_bytes (m\<lparr>prof_monitor := g\<rparr>) = live_bytes m"
  "fresh_addresses (m\<lparr>prof_monitor := g\<rparr>) = fresh_addresses m"
  "counted w (m\<lparr>prof_flag := f\<rparr>) = counted w m" "live_bytes (m\<lparr>prof_flag := f\<rparr>) = live_bytes m"
  "fresh_addresses (m\<lparr>prof_flag := f\<rparr>) = fresh_addresses m"
  "live_bytes (m\<lparr>inc_calls := cs\<rparr>) = live_bytes m" "fresh_addresses (m\<lparr>inc_calls := cs\<rparr>) = fresh_addresses m"
  by (simp_all add: counted_def live_bytes_def fresh_addresses_def set_member_def)

lemma profile_counts:
  assumes "mem_profile what site p m = Inr m1" "prof_flag m"
  obtains n where "usable_size p m = Inr n" "m1 = m\<lparr>inc_calls := inc_calls m @ [(''mem_profile'', profile_key what site, n)]\<rparr>"
  using assms by (auto simp: mem_profile_def monitor_inc_def MemProfile_GetFlag_def rbind_def split: if_splits sum.splits)

lemma key_kinds:
  "take (length ''new_'') (profile_key ''new'' site) = ''new_''" "take (length ''delete_'') (profile_key ''new'' site) \<noteq> ''delete_''"
  "take (length ''delete_'') (profile_key ''delete'' site) = ''delete_''" "take (length ''new_'') (profile_key ''delete'' site) \<noteq> ''new_''"
  by (simp_all add: profile_key_def)

lemma allocate_balance:
  assumes "allocate k ans m = (p, m1)" "fresh_addresses m" "usable_size p (set_member x p m1) = Inr n"
  shows "live_bytes m1 = live_bytes m + n" "fresh_addresses m1" "prof_flag m1 = prof_flag m" "inc_calls m1 = inc_calls m"
  using assms by (auto simp: allocate_def live_bytes_def fresh_addresses_def usable_size_def set_member_def block_of_def
      split: option.splits prod.splits if_splits)

lemma release_balance:
  assumes "release k a m = Inr m1" "fresh_addresses m" "usable_size (Some a) m = Inr n"
  shows "live_bytes m = live_bytes m1 + n" "fresh_addresses m1" "prof_flag m1 = prof_flag m" "inc_calls m1 = inc_calls m"
proof -
  obtain b where b: "heap_blocks m a = Some b" "n = blk_usable b" "m1 = m\<lparr>heap_blocks := (heap_blocks m)(a := None)\<rparr>"
    using assms by (auto simp: release_def usable_size_def block_of_def rbind_def split: option.splits if_splits sum.splits)
  have "a < next_address m" using assms(2) b(1) by (auto simp: fresh_addresses_def not_less [symmetric])
  then show "live_bytes m = live_bytes m1 + n"
    using b by (simp add: live_bytes_def sum.remove [of "{..<next_address m}" a])
  show "fresh_addresses m1" "prof_flag m1 = prof_flag m" "inc_calls m1 = inc_calls m"
    using assms(2) b(3) by (simp_all add: fresh_addresses_def)
qed

lemma counted_append [simp]:
  "counted w (m\<lparr>inc_calls := inc_calls m @ [(g, key, n)]\<rparr>) = counted w m + (if take (length w) key = w then n else 0)"
  by (simp add: counted_def)

lemma counted_cong: "inc_calls m1 = inc_calls m \<Longrightarrow> counted w m1 = counted w m"
  by (simp add: counted_def)

lemma made_balance:
  assumes "(let (p, m1) = allocate k ans m in mem_profile ''new'' site p (set_member x p m1)) = Inr m2" "balance m"
  shows "balance m2"
proof -
  obtain p m1 where a: "allocate k ans m = (p, m1)" by (metis surj_pair)
  then have r: "mem_profile ''new'' site p (set_member x p m1) = Inr m2" using assms(1) by simp
  have bal: "prof_flag m" "fresh_addresses m" "counted ''new_'' m = counted ''delete_'' m + live_bytes m"
    using assms(2) by (simp_all add: balance_def)
  have fl: "prof_flag m1 = prof_flag m" using a by (auto simp: allocate_def split: option.splits prod.splits)
  obtain n where n: "usable_size p (set_member x p m1) = Inr n"
    "m2 = (set_member x p m1)\<lparr>inc_calls := inc_calls (set_member x p m1) @ [(''mem_profile'', profile_key ''new'' site, n)]\<rparr>"
    using profile_counts [OF r] fl bal(1) by auto
  note b = allocate_balance [OF a bal(2) n(1)]
  show ?thesis
    unfolding balance_def n(2) counted_append balance_fields using b bal key_kinds [of site] counted_cong [OF b(4)] by simp
qed

lemma gone_balance:
  assumes "(case members m x of None \<Rightarrow> Inr m
      | Some a \<Rightarrow> rbind (mem_profile ''delete'' site (Some a) m) (\<lambda>m1. rbind (release k a m1) (\<lambda>m2. Inr (set_member x None m2)))) = Inr m'"
    and "balance m"
  shows "balance m'"
proof (cases "members m x")
  case (Some a)
  then obtain m1 m2 where m: "mem_profile ''delete'' site (Some a) m = Inr m1" "release k a m1 = Inr m2" "m' = set_member x None m2"
    using assms by (auto simp: rbind_def split: sum.splits)
  have bal: "prof_flag m" "fresh_addresses m" "counted ''new_'' m = counted ''delete_'' m + live_bytes m"
    using assms(2) by (simp_all add: balance_def)
  obtain n where n: "usable_size (Some a) m = Inr n" "m1 = m\<lparr>inc_calls := inc_calls m @ [(''mem_profile'', profile_key ''delete'' site, n)]\<rparr>"
    using profile_counts [OF m(1) bal(1)] by auto
  have u1: "usable_size (Some a) m1 = Inr n" "fresh_addresses m1" using n bal(2) by (simp_all add: usable_size_def block_of_def)
  note b = release_balance [OF m(2) u1(2,1)]
  have "counted ''new_'' m1 = counted ''new_'' m" "counted ''delete_'' m1 = counted ''delete_'' m + n" "live_bytes m1 = live_bytes m"
    "prof_flag m1 = prof_flag m"
    unfolding n(2) using key_kinds [of site] by simp_all
  then show ?thesis
    unfolding balance_def m(3) balance_fields using b bal counted_cong [OF b(4)] by simp
qed (use assms in simp)

lemma null_after_Inr: "null_after x r = Inr (out, m') \<Longrightarrow> r = Inr m'"
  by (auto simp: null_after_def rbind_def split: sum.splits)

lemma common_balance: "common_call m op = Inr (out, m') \<Longrightarrow> tracked op \<Longrightarrow> balance m \<Longrightarrow> balance m'"
  by (cases op) (auto simp: null_after_def rbind_def balance_def MemProfile_SetFlag_def split: sum.splits prod.splits)

lemma call_balance:
  assumes c: "prof_call m op = Inr (out, m')" "tracked op" and bal: "balance m"
  shows "balance m'"
proof (cases op)
  case (M_New x a site ans)
  from null_after_Inr [OF c(1) [unfolded M_New prof_call.simps]] show ?thesis
    unfolding prof_NEW_def using bal by (rule made_balance)
next
  case (M_New_Decl x a site ans)
  from null_after_Inr [OF c(1) [unfolded M_New_Decl prof_call.simps]] show ?thesis
    unfolding prof_NEW_DECL_def using bal by (rule made_balance)
next
  case (M_New_Ret x a site ans)
  let ?k = "if a then With_new_array else With_new"
  obtain p m1 where p: "allocate ?k ans m = (p, m1)" by (metis surj_pair)
  from null_after_Inr [OF c(1) [unfolded M_New_Ret prof_call.simps]] obtain m2
    where m2: "mem_profile ''new'' site p m1 = Inr m2" "m' = set_member x p m2"
    using p by (auto simp: prof_NEW_AND_RET_def rbind_def split: sum.splits)
  have "prof_flag m1" using p bal by (auto simp: allocate_def balance_def split: option.splits prod.splits)
  from profile_counts [OF m2(1) this] have "mem_profile ''new'' site p (set_member x p m1) = Inr (set_member x p m2)"
    using m2(1) by (auto simp: mem_profile_def monitor_inc_def set_member_def usable_size_def block_of_def rbind_def
        split: if_splits sum.splits option.splits)
  with made_balance [of ?k ans m site x m'] bal p m2(2) show ?thesis by simp
next
  case (M_Malloc x site ans)
  from null_after_Inr [OF c(1) [unfolded M_Malloc prof_call.simps]] show ?thesis
    unfolding prof_MALLOC_def using bal by (rule made_balance)
next
  case (M_Delete x site)
  from null_after_Inr [OF c(1) [unfolded M_Delete prof_call.simps]] show ?thesis
    unfolding prof_DELETE_def using bal by (rule gone_balance)
next
  case (M_Delete_Array x site)
  from null_after_Inr [OF c(1) [unfolded M_Delete_Array prof_call.simps]] show ?thesis
    unfolding prof_DELETE_ARRAY_def using bal by (rule gone_balance)
next
  case (M_Free x site)
  from null_after_Inr [OF c(1) [unfolded M_Free prof_call.simps]] show ?thesis
    unfolding prof_FREE_def using bal by (rule gone_balance)
qed (use c bal common_balance in \<open>auto simp del: common_call.simps\<close>)

definition empty_heap :: "gmonitor \<Rightarrow> prof_mem" where
  "empty_heap g = \<lparr>heap_blocks = Map.empty, next_address = 0, members = (\<lambda>x. None), prof_flag = True, prof_monitor = g, inc_calls = []\<rparr>"

text \<open>
  C13: As long as the flag is on and nothing is reallocated, what the monitor is told under
  \<open>new_\<close> is what it is told under \<open>delete_\<close> and the bytes of the blocks that are still there,
  however pointers are copied and whatever macro releases them.
\<close>

theorem profile_balances:
  assumes "run_ops prof_call (empty_heap g) ops = Inr (outs, m)" and "\<forall>op \<in> set ops. tracked op"
  shows "counted ''new_'' m = counted ''delete_'' m + live_bytes m"
proof -
  have "run_ops prof_call m0 ops = Inr (outs, m) \<Longrightarrow> balance m0 \<Longrightarrow> \<forall>op \<in> set ops. tracked op \<Longrightarrow> balance m" for m0
  proof (induction ops arbitrary: m0 outs)
    case (Cons op ops)
    then obtain out m1 outs' where s: "prof_call m0 op = Inr (out, m1)" "run_ops prof_call m1 ops = Inr (outs', m)"
      by (auto split: sum.splits prod.splits)
    from Cons.IH [OF s(2)] call_balance [OF s(1)] Cons.prems show ?case by simp
  qed simp
  moreover have "balance (empty_heap g)" by (simp add: balance_def empty_heap_def fresh_addresses_def counted_def live_bytes_def)
  ultimately show ?thesis using assms by (simp add: balance_def)
qed

definition own_mon :: gmonitor where
  "own_mon = snd (gmonitor_Init True None new_gmonitor)"

text \<open>An object, its copy, an array; the object is deleted twice through the same pointer.\<close>

definition profile_ops :: "mem_op list" where
  "profile_ops = [M_New 0 False (''a.cpp'', 12) (Some (24, False)), M_New_Ret 1 True (''a.cpp'', 13) (Some (104, False)), M_Alias 2 1,
     M_Malloc 3 (''b.cpp'', 7) None, M_Free 3 (''b.cpp'', 8), M_Delete 0 (''a.cpp'', 15), M_Delete 0 (''a.cpp'', 16),
     M_New_Decl 4 False (''b.cpp'', 9) (Some (40, False)), M_Delete_Array 2 (''a.cpp'', 17)]"

lemma profile_ops_run: "case run_ops prof_call (empty_heap own_mon) profile_ops of
    Inl e \<Rightarrow> False | Inr (outs, m) \<Rightarrow> outs = [False, False, False, True, True, True, True, False, True] \<and> live_bytes m = 40"
  by code_simp

lemma profile_balances_witness:
  "\<exists>outs m. run_ops prof_call (empty_heap own_mon) profile_ops = Inr (outs, m) \<and> live_bytes m = 40
    \<and> counted ''new_'' m = counted ''delete_'' m + live_bytes m"
proof -
  obtain outs m where m: "run_ops prof_call (empty_heap own_mon) profile_ops = Inr (outs, m)" "live_bytes m = 40"
    using profile_ops_run by (auto split: sum.splits)
  from profile_balances [OF m(1)] have "counted ''new_'' m = counted ''delete_'' m + live_bytes m"
    by (simp add: profile_ops_def)
  with m show ?thesis by blast
qed

lemma profiling_is_transparent_witness:
  "\<exists>outs m. run_ops prof_call (empty_heap own_mon) profile_ops = Inr (outs, m)
    \<and> run_ops plain_call (forget (empty_heap own_mon)) profile_ops = Inr (outs, forget m)"
proof -
  obtain outs m where "run_ops prof_call (empty_heap own_mon) profile_ops = Inr (outs, m)"
    using profile_ops_run by (auto split: sum.splits)
  with profiling_is_transparent [OF this] show ?thesis by blast
qed

section \<open>Where profiling goes wrong\<close>

text \<open>
  The other direction does not hold. Before \<open>GMonitor::Init\<close> the first macro goes through a null
  pointer; the size of an array with its length in front is asked for at an address that
  \<open>malloc\<close> never gave out; a long name of a source file leaves the buffer.
\<close>

lemma profile_needs_monitor:
  "map_sum id fst (prof_call (empty_heap new_gmonitor) (M_New 0 False (''a.cpp'', 1) (Some (24, False)))) = Inl Null_Deref"
  by code_simp

lemma profile_array_with_length:
  "map_sum id fst (prof_call (empty_heap own_mon) (M_New 0 True (''a.cpp'', 1) (Some (24, True)))) = Inl Indeterminate"
  by code_simp

lemma int_dec_pos: "0 < length (int_dec (int n))"
  using nat_dec_Nil [of n] by (simp add: int_dec_def)

lemma profile_long_name:
  "507 \<le> length name \<Longrightarrow> prof_flag m \<Longrightarrow> mem_profile ''new'' (name, line) p m = Inl Out_Of_Bounds"
  using int_dec_pos [of line] by (simp add: mem_profile_def MemProfile_GetFlag_def monitor_inc_def kMaxSizeMemProfilekey_def profile_key_def)

text \<open>What \<open>realloc\<close> adds is released under \<open>delete_\<close> without having been told under \<open>new_\<close>.\<close>

lemma realloc_unbalances:
  "case run_ops prof_call (empty_heap own_mon)
      [M_Malloc 0 (''a.cpp'', 1) (Some (24, False)), M_Realloc 0 0 1000 (Some (1000, False)), M_Free 0 (''a.cpp'', 3)] of
    Inl e \<Rightarrow> False | Inr (outs, m) \<Rightarrow> counted ''new_'' m = 24 \<and> counted ''delete_'' m = 1000 \<and> live_bytes m = 0"
  by code_simp

end
