(* ===== verification/Failure_Macros.thy ===== *)
theory Failure_Macros
  imports Prelude
begin

text \<open>
  The macros of \<^verbatim>\<open>src/common.h\<close> that handle failures: where control goes, what is
  assigned and what is logged; the checks that stop a program, and the guards of objects that have
  to be initialised.

  A test is an expression, which may have effects on the state \<open>'s\<close> of the function that the macro
  stands in. A logger is its name; the log is what the macros hand to \<open>log4cplus\<close>, in order.
\<close>

section \<open>Logging\<close>

datatype log_level = At_Trace | At_Debug | At_Info | At_Warn | At_Error | At_Fatal

type_synonym log_line = "string \<times> log_level \<times> string"
type_synonym 's logged = "'s \<times> log_line list"
type_synonym 's test = "'s \<Rightarrow> bool \<times> 's"

definition log_to :: "log_level \<Rightarrow> string \<Rightarrow> string \<Rightarrow> 's logged \<Rightarrow> 's logged" where
  "log_to lev logger str w = (fst w, snd w @ [(logger, lev, str)])"

definition xforce_logger :: string where
  "xforce_logger = ''xforce_logger''"

definition TRACE :: "string \<Rightarrow> 's logged \<Rightarrow> 's logged" where
  "TRACE str = log_to At_Trace xforce_logger str"

definition DEBUG :: "string \<Rightarrow> 's logged \<Rightarrow> 's logged" where
  "DEBUG str = log_to At_Debug xforce_logger str"

definition NOTICE :: "string \<Rightarrow> 's logged \<Rightarrow> 's logged" where
  "NOTICE str = log_to At_Info xforce_logger str"

definition WARN :: "string \<Rightarrow> 's logged \<Rightarrow> 's logged" where
  "WARN str = log_to At_Warn xforce_logger str"

definition ERROR :: "string \<Rightarrow> 's logged \<Rightarrow> 's logged" where
  "ERROR str = log_to At_Error xforce_logger str"

definition FATAL :: "string \<Rightarrow> 's logged \<Rightarrow> 's logged" where
  "FATAL str = log_to At_Fatal xforce_logger str"

definition TRACE_LOG :: "string \<Rightarrow> string \<Rightarrow> 's logged \<Rightarrow> 's logged" where
  "TRACE_LOG logger str = log_to At_Trace logger str"

definition DEBUG_LOG :: "string \<Rightarrow> string \<Rightarrow> 's logged \<Rightarrow> 's logged" where
  "DEBUG_LOG logger str = log_to At_Debug logger str"

definition NOTICE_LOG :: "string \<Rightarrow> string \<Rightarrow> 's logged \<Rightarrow> 's logged" where
  "NOTICE_LOG logger str = log_to At_Info logger str"

definition WARN_LOG :: "string \<Rightarrow> string \<Rightarrow> 's logged \<Rightarrow> 's logged" where
  "WARN_LOG logger str = log_to At_Warn logger str"

definition ERROR_LOG :: "string \<Rightarrow> string \<Rightarrow> 's logged \<Rightarrow> 's logged" where
  "ERROR_LOG logger str = log_to At_Error logger str"

definition FATAL_LOG :: "string \<Rightarrow> string \<Rightarrow> 's logged \<Rightarrow> 's logged" where
  "FATAL_LOG logger str = log_to At_Fatal logger str"

section \<open>Handling a failure\<close>

text \<open>Control goes on behind the macro, to the label \<open>ERROR_HANDLE\<close>, or to the next round of the loop.\<close>

datatype jump = Falls | To_Error | Next_Round

definition on_failure :: "'s test \<Rightarrow> ('s logged \<Rightarrow> jump \<times> 's logged) \<Rightarrow> 's logged \<Rightarrow> jump \<times> 's logged" where
  "on_failure expr handle w =
     (let (b, s) = expr (fst w) in if b then handle (s, snd w) else (Falls, s, snd w))"

definition assign_in :: "('s \<Rightarrow> 's) \<Rightarrow> 's logged \<Rightarrow> 's logged" where
  "assign_in upd w = (upd (fst w), snd w)"

definition XFC_FAIL_HANDLE :: "'s test \<Rightarrow> 's logged \<Rightarrow> jump \<times> 's logged" where
  "XFC_FAIL_HANDLE expr = on_failure expr (\<lambda>w. (To_Error, w))"

definition XFC_FAIL_HANDLE_AND_SET :: "'s test \<Rightarrow> ('s \<Rightarrow> 's) \<Rightarrow> 's logged \<Rightarrow> jump \<times> 's logged" where
  "XFC_FAIL_HANDLE_AND_SET expr upd = on_failure expr (\<lambda>w. (To_Error, assign_in upd w))"

text \<open>What is printed to the standard output is kept with the log, under no logger.\<close>

definition XFC_FAIL_HANDLE_STDOUT :: "'s test \<Rightarrow> string \<Rightarrow> 's logged \<Rightarrow> jump \<times> 's logged" where
  "XFC_FAIL_HANDLE_STDOUT expr msg = on_failure expr (\<lambda>w. (To_Error, log_to At_Info [] msg w))"

definition XFC_FAIL_HANDLE_WARN :: "'s test \<Rightarrow> string \<Rightarrow> 's logged \<Rightarrow> jump \<times> 's logged" where
  "XFC_FAIL_HANDLE_WARN expr str = on_failure expr (\<lambda>w. (To_Error, WARN str w))"

definition XFC_FAIL_HANDLE_CONTINUE :: "'s test \<Rightarrow> 's logged \<Rightarrow> jump \<times> 's logged" where
  "XFC_FAIL_HANDLE_CONTINUE expr = on_failure expr (\<lambda>w. (Next_Round, w))"

definition XFC_FAIL_HANDLE_WARN_CONTINUE :: "'s test \<Rightarrow> string \<Rightarrow> 's logged \<Rightarrow> jump \<times> 's logged" where
  "XFC_FAIL_HANDLE_WARN_CONTINUE expr str = on_failure expr (\<lambda>w. (Next_Round, WARN str w))"

definition XFC_FAIL_HANDLE_WARN_AND_SET :: "'s test \<Rightarrow> ('s \<Rightarrow> 's) \<Rightarrow> string \<Rightarrow> 's logged \<Rightarrow> jump \<times> 's logged" where
  "XFC_FAIL_HANDLE_WARN_AND_SET expr upd str = on_failure expr (\<lambda>w. (To_Error, WARN str (assign_in upd w)))"

definition XFC_FAIL_HANDLE_WARN_LOG :: "string \<Rightarrow> 's test \<Rightarrow> string \<Rightarrow> 's logged \<Rightarrow> jump \<times> 's logged" where
  "XFC_FAIL_HANDLE_WARN_LOG logger expr str = on_failure expr (\<lambda>w. (To_Error, WARN_LOG logger str w))"

definition XFC_FAIL_HANDLE_WARN_LOG_CONTINUE :: "string \<Rightarrow> 's test \<Rightarrow> string \<Rightarrow> 's logged \<Rightarrow> jump \<times> 's logged" where
  "XFC_FAIL_HANDLE_WARN_LOG_CONTINUE logger expr str = on_failure expr (\<lambda>w. (Next_Round, WARN_LOG logger str w))"

definition XFC_FAIL_HANDLE_WARN_LOG_AND_SET ::
  "string \<Rightarrow> 's test \<Rightarrow> ('s \<Rightarrow> 's) \<Rightarrow> string \<Rightarrow> 's logged \<Rightarrow> jump \<times> 's logged" where
  "XFC_FAIL_HANDLE_WARN_LOG_AND_SET logger expr upd str =
     on_failure expr (\<lambda>w. (To_Error, WARN_LOG logger str (assign_in upd w)))"

definition XFC_FAIL_HANDLE_FATAL :: "'s test \<Rightarrow> string \<Rightarrow> 's logged \<Rightarrow> jump \<times> 's logged" where
  "XFC_FAIL_HANDLE_FATAL expr str = on_failure expr (\<lambda>w. (To_Error, FATAL str w))"

definition XFC_FAIL_HANDLE_FATAL_CONTINUE :: "'s test \<Rightarrow> string \<Rightarrow> 's logged \<Rightarrow> jump \<times> 's logged" where
  "XFC_FAIL_HANDLE_FATAL_CONTINUE expr str = on_failure expr (\<lambda>w. (Next_Round, FATAL str w))"

definition XFC_FAIL_HANDLE_FATAL_AND_SET :: "'s test \<Rightarrow> ('s \<Rightarrow> 's) \<Rightarrow> string \<Rightarrow> 's logged \<Rightarrow> jump \<times> 's logged" where
  "XFC_FAIL_HANDLE_FATAL_AND_SET expr upd str = on_failure expr (\<lambda>w. (To_Error, FATAL str (assign_in upd w)))"

definition XFC_FAIL_HANDLE_FATAL_LOG :: "string \<Rightarrow> 's test \<Rightarrow> string \<Rightarrow> 's logged \<Rightarrow> jump \<times> 's logged" where
  "XFC_FAIL_HANDLE_FATAL_LOG logger expr str = on_failure expr (\<lambda>w. (To_Error, FATAL_LOG logger str w))"

definition XFC_FAIL_HANDLE_FATAL_LOG_CONTINUE :: "string \<Rightarrow> 's test \<Rightarrow> string \<Rightarrow> 's logged \<Rightarrow> jump \<times> 's logged" where
  "XFC_FAIL_HANDLE_FATAL_LOG_CONTINUE logger expr str = on_failure expr (\<lambda>w. (Next_Round, FATAL_LOG logger str w))"

definition XFC_FAIL_HANDLE_FATAL_LOG_AND_SET ::
  "string \<Rightarrow> 's test \<Rightarrow> ('s \<Rightarrow> 's) \<Rightarrow> string \<Rightarrow> 's logged \<Rightarrow> jump \<times> 's logged" where
  "XFC_FAIL_HANDLE_FATAL_LOG_AND_SET logger expr upd str =
     on_failure expr (\<lambda>w. (To_Error, FATAL_LOG logger str (assign_in upd w)))"

section \<open>Stopping a program\<close>

text \<open>\<open>assert\<close> evaluates nothing when \<open>NDEBUG\<close> is defined.\<close>

datatype 's checked = Goes_On "'s logged" | Aborts

definition XFC_ASSERT :: "bool \<Rightarrow> 's test \<Rightarrow> 's logged \<Rightarrow> 's checked" where
  "XFC_ASSERT ndebug expr w =
     (if ndebug then Goes_On w
      else let (b, s) = expr (fst w) in if b then Goes_On (s, snd w) else Aborts)"

definition negated :: "'s test \<Rightarrow> 's test" where
  "negated expr s = (let (b, s1) = expr s in (\<not> b, s1))"

definition XFC_BUG_debug :: "bool \<Rightarrow> 's test \<Rightarrow> 's logged \<Rightarrow> 's checked" where
  "XFC_BUG_debug ndebug expr = XFC_ASSERT ndebug (negated expr)"

text \<open>Without \<open>DEBUG_MODE\<close> the place is logged and the program goes on.\<close>

definition XFC_BUG :: "string \<Rightarrow> 's test \<Rightarrow> 's logged \<Rightarrow> 's checked" where
  "XFC_BUG place expr w =
     (let (b, s) = expr (fst w) in Goes_On (if b then FATAL (''bug_on['' @ place @ '']'') (s, snd w) else (s, snd w)))"

definition XFC_STOP :: "bool \<Rightarrow> 's test \<Rightarrow> 's logged \<Rightarrow> 's checked" where
  "XFC_STOP ndebug expr = XFC_ASSERT ndebug (negated expr)"

definition XFC_STOP_FATAL :: "string \<Rightarrow> 's test \<Rightarrow> string \<Rightarrow> 's logged \<Rightarrow> 's checked" where
  "XFC_STOP_FATAL place expr str w = XFC_BUG place expr (FATAL str w)"

section \<open>Guards\<close>

text \<open>
  The first statement of a member function: it returns \<open>ret\<close> when the object is not initialised, and
  with \<open>XFC_RAII_INIT\<close> only when \<open>Init_\<close>, tried then, fails too.
\<close>

definition XFC_RAII_CHECK :: "('s \<Rightarrow> bool) \<Rightarrow> 'r \<Rightarrow> 's \<Rightarrow> 'r option" where
  "XFC_RAII_CHECK init ret s = (if \<not> init s then Some ret else None)"

definition XFC_RAII_INIT :: "('s \<Rightarrow> bool) \<Rightarrow> 's test \<Rightarrow> 'r \<Rightarrow> 's \<Rightarrow> 'r option \<times> 's" where
  "XFC_RAII_INIT init Init ret s =
     (if \<not> init s then let (ok, s1) = Init s in (if \<not> ok then Some ret else None, s1) else (None, s))"

text \<open>The same with the flag of the base class.\<close>

definition XFC_RAII_SUPER_INIT :: "('s \<Rightarrow> bool) \<Rightarrow> 's test \<Rightarrow> 'r \<Rightarrow> 's \<Rightarrow> 'r option \<times> 's" where
  "XFC_RAII_SUPER_INIT super_init Init ret s =
     (if \<not> super_init s then let (ok, s1) = Init s in (if \<not> ok then Some ret else None, s1) else (None, s))"

text \<open>A member function behind the guard.\<close>

definition guarded :: "('s \<Rightarrow> bool) \<Rightarrow> 's test \<Rightarrow> 'r \<Rightarrow> ('s \<Rightarrow> 'r \<times> 's) \<Rightarrow> 's \<Rightarrow> 'r \<times> 's" where
  "guarded init Init ret body s =
     (case XFC_RAII_INIT init Init ret s of (Some r, s1) \<Rightarrow> (r, s1) | (None, s1) \<Rightarrow> body s1)"

section \<open>Compare and swap\<close>

text \<open>What was there, or whether it was what was expected, and what is there afterwards.\<close>

definition CAS :: "'a \<Rightarrow> 'a \<Rightarrow> 'a \<Rightarrow> 'a \<times> 'a" where
  "CAS cur oldval newval = (cur, if cur = oldval then newval else cur)"

definition CAS_bool :: "'a \<Rightarrow> 'a \<Rightarrow> 'a \<Rightarrow> bool \<times> 'a" where
  "CAS_bool cur oldval newval = (cur = oldval, if cur = oldval then newval else cur)"

lemma CAS_agree: "snd (CAS cur a b) = snd (CAS_bool cur a b)" "fst (CAS_bool cur a b) \<longleftrightarrow> fst (CAS cur a b) = a"
  by (simp_all add: CAS_def CAS_bool_def)

section \<open>What they do\<close>

lemmas fail_defs = XFC_FAIL_HANDLE_def XFC_FAIL_HANDLE_AND_SET_def XFC_FAIL_HANDLE_STDOUT_def XFC_FAIL_HANDLE_WARN_def
  XFC_FAIL_HANDLE_CONTINUE_def XFC_FAIL_HANDLE_WARN_CONTINUE_def XFC_FAIL_HANDLE_WARN_AND_SET_def XFC_FAIL_HANDLE_WARN_LOG_def
  XFC_FAIL_HANDLE_WARN_LOG_CONTINUE_def XFC_FAIL_HANDLE_WARN_LOG_AND_SET_def XFC_FAIL_HANDLE_FATAL_def
  XFC_FAIL_HANDLE_FATAL_CONTINUE_def XFC_FAIL_HANDLE_FATAL_AND_SET_def XFC_FAIL_HANDLE_FATAL_LOG_def
  XFC_FAIL_HANDLE_FATAL_LOG_CONTINUE_def XFC_FAIL_HANDLE_FATAL_LOG_AND_SET_def

text \<open>Where nothing fails, the test is evaluated once and nothing is logged or assigned.\<close>

lemma no_failure: "expr s = (False, s1) \<Longrightarrow> on_failure expr handle (s, out) = (Falls, s1, out)"
  by (simp add: on_failure_def)

text \<open>
  A check that is compiled out takes the effects of its expression with it, so that \<open>XFC_STOP\<close> and
  \<open>XFC_BUG\<close> leave different states in builds that differ in \<open>NDEBUG\<close> and \<open>DEBUG_MODE\<close> only.
\<close>

lemma stop_drops_effects:
  "expr s = (False, s1) \<Longrightarrow> XFC_STOP False expr (s, out) = Goes_On (s1, out) \<and> XFC_STOP True expr (s, out) = Goes_On (s, out)"
  by (simp add: XFC_STOP_def XFC_ASSERT_def negated_def)

lemma bug_goes_on: "expr s = (True, s1) \<Longrightarrow> \<exists>out'. XFC_BUG place expr (s, out) = Goes_On (s1, out') \<and> out' \<noteq> out"
  by (simp add: XFC_BUG_def FATAL_def log_to_def)

text \<open>\<open>XFC_STOP_FATAL\<close> logs its message when nothing is wrong, too.\<close>

lemma stop_fatal_always_logs:
  "expr s = (False, s1) \<Longrightarrow> XFC_STOP_FATAL place expr str (s, out) = Goes_On (s1, out @ [(xforce_logger, At_Fatal, str)])"
  by (simp add: XFC_STOP_FATAL_def XFC_BUG_def FATAL_def log_to_def)

section \<open>Initialisation on demand\<close>

text \<open>The states in which a run of guarded calls tries \<open>Init_\<close>.\<close>

fun init_tries :: "('s \<Rightarrow> bool) \<Rightarrow> 's test \<Rightarrow> 'r \<Rightarrow> ('s \<Rightarrow> 'r \<times> 's) list \<Rightarrow> 's \<Rightarrow> bool list" where
  "init_tries init Init ret [] s = []"
| "init_tries init Init ret (body # bodies) s =
     (if \<not> init s then [fst (Init s)] else []) @ init_tries init Init ret bodies (snd (guarded init Init ret body s))"

text \<open>
  When \<open>Init_\<close> sets the flag where it succeeds and no member function clears it, a run of calls tries
  until the first success and never again, and after it no call returns early.
\<close>

lemma guarded_init:
  assumes "init s" shows "guarded init Init ret body s = body s"
  using assms by (simp add: guarded_def XFC_RAII_INIT_def)

lemma initialised_never_tries:
  assumes "\<And>body s. body \<in> set bodies \<Longrightarrow> init s \<Longrightarrow> init (snd (body s))"
  shows "init s \<Longrightarrow> init_tries init Init ret bodies s = []"
  using assms
proof (induction bodies arbitrary: s)
  case (Cons body bodies)
  then show ?case by (simp add: guarded_init)
qed simp

lemma init_until_success:
  assumes Init: "\<And>s s1. Init s = (True, s1) \<Longrightarrow> init s1"
    and keep: "\<And>body s. body \<in> set bodies \<Longrightarrow> init s \<Longrightarrow> init (snd (body s))"
  shows "\<exists>n. init_tries init Init ret bodies s = replicate n False \<or> init_tries init Init ret bodies s = replicate n False @ [True]"
  using keep
proof (induction bodies arbitrary: s)
  case (Cons body bodies)
  obtain ok s1 where i: "Init s = (ok, s1)" by fastforce
  show ?case
  proof (cases "init s")
    case True
    have "init_tries init Init ret (body # bodies) s = []" by (rule initialised_never_tries) (use Cons.prems True in auto)
    then show ?thesis by (intro exI [of _ 0]) simp
  next
    case False
    show ?thesis
    proof (cases ok)
      case True
      then have "init s1" using Init i by simp
      moreover have "snd (guarded init Init ret body s) = snd (body s1)"
        using False True i by (simp add: guarded_def XFC_RAII_INIT_def)
      ultimately have "init_tries init Init ret bodies (snd (guarded init Init ret body s)) = []"
        using Cons.prems by (intro initialised_never_tries) simp_all
      then show ?thesis using False True i by (intro exI [of _ 0]) simp
    next
      case ok: False
      obtain n where "init_tries init Init ret bodies (snd (guarded init Init ret body s)) = replicate n False
        \<or> init_tries init Init ret bodies (snd (guarded init Init ret body s)) = replicate n False @ [True]"
        using Cons.IH Cons.prems by fastforce
      then show ?thesis using False ok i by (intro exI [of _ "Suc n"]) auto
    qed
  qed
qed (simp add: exI [of _ 0])

end
