(* ===== verification/Mp_Tools.thy ===== *)
theory Mp_Tools
  imports Prelude
begin

text \<open>
  \<^verbatim>\<open>src/mp_tools.hpp\<close>: a choice and a comparison of types at compile time, where a type is a
  value of \<open>'t\<close>, and function objects that forward to the function they are made with. Pointers are
  read through a store.
\<close>

definition If_Type :: "bool \<Rightarrow> 't \<Rightarrow> 't \<Rightarrow> 't" where
  "If_Type cond A B = (if cond then A else B)"

definition SameType :: "'t \<Rightarrow> 't \<Rightarrow> bool" where
  "SameType A B \<longleftrightarrow> A = B"

definition ReflectorF :: "'a \<Rightarrow> 'a" where
  "ReflectorF t = t"

type_synonym 'a store = "nat \<Rightarrow> 'a option"

definition deref_ptr :: "'a store \<Rightarrow> nat option \<Rightarrow> 'a result" where
  "deref_ptr s p =
     (case p of None \<Rightarrow> Inl Null_Deref | Some a \<Rightarrow> (case s a of None \<Rightarrow> Inl Use_After_Free | Some v \<Rightarrow> Inr v))"

definition PtrEqF :: "('a \<Rightarrow> 'a \<Rightarrow> bool) \<Rightarrow> 'a store \<Rightarrow> nat option \<Rightarrow> nat option \<Rightarrow> bool result" where
  "PtrEqF eq s x y = rbind (deref_ptr s x) (\<lambda>a. rbind (deref_ptr s y) (\<lambda>b. Inr (eq a b)))"

definition PtrHashF :: "('a \<Rightarrow> nat) \<Rightarrow> 'a store \<Rightarrow> nat option \<Rightarrow> nat result" where
  "PtrHashF hash s val = rbind (deref_ptr s val) (\<lambda>a. Inr (hash a))"

text \<open>
  What a hash table of pointers needs of them: pointers that compare equal have the same hash value,
  when that holds for the objects, and the null pointer can be no key.
\<close>

lemma ptr_hash_respects:
  assumes "\<And>a b. eq a b \<Longrightarrow> hash a = hash b" and "PtrEqF eq s x y = Inr True"
  shows "PtrHashF hash s x = PtrHashF hash s y \<and> returns (PtrHashF hash s x)"
  using assms by (auto simp: PtrEqF_def PtrHashF_def rbind_def returns_def split: sum.splits)

lemma ptr_null_faults: "PtrEqF eq s None y = Inl Null_Deref" "PtrHashF hash s None = Inl Null_Deref"
  by (simp_all add: PtrEqF_def PtrHashF_def deref_ptr_def)

lemma ptr_equal_self:
  assumes "\<And>a. eq a a" and "deref_ptr s x = Inr v"
  shows "PtrEqF eq s x x = Inr True"
  using assms by (simp add: PtrEqF_def)

end
