(* ===== verification/Json_Cells.thy ===== *)
theory Json_Cells
  imports Json_Data
begin

text \<open>
  \<open>SharedJsonVal\<close> and \<open>JsonType\<close> of \<^verbatim>\<open>src/jsontype/\<close>: JSON values as counted cells that several
  objects share until one of them writes. \<open>Json_Graph\<close> holds the invariant, \<open>Json_Values\<close> the
  theorems.

  A cell (a \<open>SharedJsonVal\<close>) is an index of \<open>cells\<close>, a string, vector or map an index of
  \<open>boxes\<close>; what has been deleted is \<open>None\<close>. A \<open>JsonType\<close> object is the cell it points to or
  \<open>None\<close> for \<open>NULL\<close>; the objects are named variables and the elements of vectors and maps. The
  three object pools of the thread are the stacks that \<open>Pool_Spec\<close> shows them to be; a block of
  new objects is made one object at a time. An \<open>unordered_map\<close> is a list of pairs in the order of
  insertion.
\<close>

section \<open>Values and the heap\<close>

datatype json_type = kNull | kBool | kInt | kDouble | kStr | kList | kDict | kInvalid

text \<open>The union of a cell; \<open>Raw\<close> when nothing has been written.\<close>

datatype 'd union_data =
    Raw
  | Bool_Val bool
  | Int_Val "64 word"
  | Double_Val 'd
  | Str_Ptr nat
  | List_Ptr nat
  | Dict_Ptr nat

record 'd shared_val =
  val_type :: json_type
  ref_cnt :: "16 word"
  val_data :: "'d union_data"

datatype box =
    Str_Box string
  | List_Box "nat option list"
  | Dict_Box "(string \<times> nat option) list"

record 'd json_heap =
  cells :: "'d shared_val option list"
  boxes :: "box option list"
  str_pool :: "nat list"
  list_pool :: "nat list"
  dict_pool :: "nat list"
  json_vars :: "(nat \<times> nat option) list"
  null_val :: "nat option"

definition new_json_heap :: "'d json_heap" where
  "new_json_heap = \<lparr>cells = [], boxes = [], str_pool = [], list_pool = [], dict_pool = [],
     json_vars = [], null_val = None\<rparr>"

definition cell_at :: "'d json_heap \<Rightarrow> nat \<Rightarrow> 'd shared_val option" where
  "cell_at s c = (if c < length (cells s) then cells s ! c else None)"

definition box_at :: "'d json_heap \<Rightarrow> nat \<Rightarrow> box option" where
  "box_at s b = (if b < length (boxes s) then boxes s ! b else None)"

definition put_cell :: "'d json_heap \<Rightarrow> nat \<Rightarrow> 'd shared_val option \<Rightarrow> 'd json_heap" where
  "put_cell s c v = s\<lparr>cells := (cells s)[c := v]\<rparr>"

definition put_box :: "'d json_heap \<Rightarrow> nat \<Rightarrow> box option \<Rightarrow> 'd json_heap" where
  "put_box s b x = s\<lparr>boxes := (boxes s)[b := x]\<rparr>"

definition deref_cell :: "'d json_heap \<Rightarrow> nat \<Rightarrow> 'd shared_val result" where
  "deref_cell s c = (case cell_at s c of None \<Rightarrow> Inl Use_After_Free | Some v \<Rightarrow> Inr v)"

definition deref_box :: "'d json_heap \<Rightarrow> nat \<Rightarrow> box result" where
  "deref_box s b = (case box_at s b of None \<Rightarrow> Inl Use_After_Free | Some x \<Rightarrow> Inr x)"

text \<open>The pointer that the type of a cell says its union holds.\<close>

definition box_ptr :: "'d shared_val \<Rightarrow> nat option result" where
  "box_ptr v =
     (case val_type v of
        kStr \<Rightarrow> (case val_data v of Str_Ptr b \<Rightarrow> Inr (Some b) | _ \<Rightarrow> Inl Wrong_Member)
      | kList \<Rightarrow> (case val_data v of List_Ptr b \<Rightarrow> Inr (Some b) | _ \<Rightarrow> Inl Wrong_Member)
      | kDict \<Rightarrow> (case val_data v of Dict_Ptr b \<Rightarrow> Inr (Some b) | _ \<Rightarrow> Inl Wrong_Member)
      | _ \<Rightarrow> Inr None)"

definition list_of :: "'d json_heap \<Rightarrow> 'd shared_val \<Rightarrow> (nat \<times> nat option list) result" where
  "list_of s v =
     (case val_data v of
        List_Ptr b \<Rightarrow> rbind (deref_box s b) (\<lambda>x. case x of List_Box hs \<Rightarrow> Inr (b, hs) | _ \<Rightarrow> Inl Wrong_Member)
      | _ \<Rightarrow> Inl Wrong_Member)"

definition dict_of :: "'d json_heap \<Rightarrow> 'd shared_val \<Rightarrow> (nat \<times> (string \<times> nat option) list) result" where
  "dict_of s v =
     (case val_data v of
        Dict_Ptr b \<Rightarrow> rbind (deref_box s b) (\<lambda>x. case x of Dict_Box d \<Rightarrow> Inr (b, d) | _ \<Rightarrow> Inl Wrong_Member)
      | _ \<Rightarrow> Inl Wrong_Member)"

definition str_of :: "'d json_heap \<Rightarrow> 'd shared_val \<Rightarrow> (nat \<times> string) result" where
  "str_of s v =
     (case val_data v of
        Str_Ptr b \<Rightarrow> rbind (deref_box s b) (\<lambda>x. case x of Str_Box t \<Rightarrow> Inr (b, t) | _ \<Rightarrow> Inl Wrong_Member)
      | _ \<Rightarrow> Inl Wrong_Member)"

section \<open>Destruction\<close>

fun box_handles :: "box \<Rightarrow> nat option list" where
  "box_handles (Str_Box t) = []"
| "box_handles (List_Box hs) = hs"
| "box_handles (Dict_Box d) = map snd d"

text \<open>
  The objects that are still to be destroyed, in order. \<open>~JsonType\<close> gives up its reference; the
  last one deletes the string, the vector with its elements, or the map with its elements, and
  then the cell. Here the cell goes first: with a count of 0 no object that is destroyed with the
  elements points to it.
\<close>

definition live_cells :: "'d json_heap \<Rightarrow> nat" where
  "live_cells s = length (filter (\<lambda>x. x \<noteq> None) (cells s))"

function destroy :: "'d json_heap \<Rightarrow> nat option list \<Rightarrow> 'd json_heap result" where
  "destroy s [] = Inr s"
| "destroy s (None # hs) = destroy s hs"
| "destroy s (Some c # hs) =
     (case cell_at s c of
        None \<Rightarrow> Inl Use_After_Free
      | Some v \<Rightarrow>
          if ref_cnt v - 1 \<noteq> 0 then destroy (put_cell s c (Some (v\<lparr>ref_cnt := ref_cnt v - 1\<rparr>))) hs
          else
            (case box_ptr v of
               Inl e \<Rightarrow> Inl e
             | Inr None \<Rightarrow> destroy (put_cell s c None) hs
             | Inr (Some b) \<Rightarrow>
                 (case box_at s b of
                    None \<Rightarrow> Inl Use_After_Free
                  | Some x \<Rightarrow> destroy (put_cell (put_box s b None) c None) (box_handles x @ hs))))"
  by pat_completeness auto

lemma live_cells_put:
  assumes "cell_at s c \<noteq> None"
  shows "live_cells (put_cell s c None) < live_cells s" "live_cells (put_cell s c (Some w)) = live_cells s"
  using assms length_filter_update [of c "cells s" "\<lambda>x. x \<noteq> None" None]
    length_filter_update [of c "cells s" "\<lambda>x. x \<noteq> None" "Some w"]
  by (auto simp: live_cells_def cell_at_def put_cell_def split: if_splits)

lemma live_cells_box [simp]: "live_cells (put_box s b x) = live_cells s"
  by (simp add: live_cells_def put_box_def)

lemma cell_at_box [simp]: "cell_at (put_box s b x) c = cell_at s c"
  by (simp add: cell_at_def put_box_def)

lemma put_cell_box: "put_cell (put_box s b x) c v = put_box (put_cell s c v) b x"
  by (simp add: put_cell_def put_box_def)

termination destroy
  by (relation "inv_image (less_than <*lex*> less_than) (\<lambda>(s, hs). (live_cells s, length hs))")
    (auto simp: live_cells_put put_cell_box)

section \<open>Strings, vectors and maps from the pools\<close>

definition pool_of :: "json_type \<Rightarrow> 'd json_heap \<Rightarrow> nat list" where
  "pool_of T s = (case T of kStr \<Rightarrow> str_pool s | kList \<Rightarrow> list_pool s | _ \<Rightarrow> dict_pool s)"

definition set_pool :: "json_type \<Rightarrow> nat list \<Rightarrow> 'd json_heap \<Rightarrow> 'd json_heap" where
  "set_pool T bs s =
     (case T of kStr \<Rightarrow> s\<lparr>str_pool := bs\<rparr> | kList \<Rightarrow> s\<lparr>list_pool := bs\<rparr> | _ \<Rightarrow> s\<lparr>dict_pool := bs\<rparr>)"

definition empty_box :: "json_type \<Rightarrow> box" where
  "empty_box T = (case T of kStr \<Rightarrow> Str_Box [] | kList \<Rightarrow> List_Box [] | _ \<Rightarrow> Dict_Box [])"

text \<open>
  \<open>GetStr\<close>, \<open>GetList\<close> and \<open>GetDict\<close>: what was freed last, or a new one; \<open>clear\<close> destroys the
  elements that are still in it.
\<close>

definition GetBox :: "json_type \<Rightarrow> 'd json_heap \<Rightarrow> (nat \<times> 'd json_heap) result" where
  "GetBox T s =
     (case pool_of T s of
        [] \<Rightarrow> Inr (length (boxes s), s\<lparr>boxes := boxes s @ [Some (empty_box T)]\<rparr>)
      | b # bs \<Rightarrow>
          rbind (deref_box s b) (\<lambda>x.
          rbind (destroy (put_box (set_pool T bs s) b (Some (empty_box T))) (box_handles x)) (\<lambda>s1.
          Inr (b, s1))))"

text \<open>\<open>FreeStr\<close>, \<open>FreeList\<close> and \<open>FreeDict\<close> leave the contents as they are.\<close>

definition FreeBox :: "json_type \<Rightarrow> nat \<Rightarrow> 'd json_heap \<Rightarrow> 'd json_heap" where
  "FreeBox T b s = set_pool T (b # pool_of T s) s"

section \<open>SharedJsonVal\<close>

definition empty_data :: "json_type \<Rightarrow> 'd json_heap \<Rightarrow> ('d union_data \<times> 'd json_heap) result" where
  "empty_data T s =
     (case T of
        kStr \<Rightarrow> rbind (GetBox kStr s) (\<lambda>(b, s1). Inr (Str_Ptr b, s1))
      | kList \<Rightarrow> rbind (GetBox kList s) (\<lambda>(b, s1). Inr (List_Ptr b, s1))
      | kDict \<Rightarrow> rbind (GetBox kDict s) (\<lambda>(b, s1). Inr (Dict_Ptr b, s1))
      | _ \<Rightarrow> Inr (Raw, s))"

text \<open>\<open>new SharedJsonVal(T)\<close>, and \<open>Reset\<close> on a cell that is there.\<close>

definition new_val :: "json_type \<Rightarrow> 'd json_heap \<Rightarrow> (nat \<times> 'd json_heap) result" where
  "new_val T s =
     rbind (empty_data T s) (\<lambda>(d, s1).
     Inr (length (cells s1), s1\<lparr>cells := cells s1 @ [Some \<lparr>val_type = T, ref_cnt = 1, val_data = d\<rparr>]\<rparr>))"

definition reset_val :: "nat \<Rightarrow> json_type \<Rightarrow> 'd json_heap \<Rightarrow> 'd json_heap result" where
  "reset_val c T s =
     rbind (empty_data T s) (\<lambda>(d, s1).
     Inr (put_cell s1 c (Some \<lparr>val_type = T, ref_cnt = 1, val_data = d\<rparr>)))"

definition IncRefCnt :: "nat \<Rightarrow> 'd json_heap \<Rightarrow> 'd json_heap result" where
  "IncRefCnt c s =
     rbind (deref_cell s c) (\<lambda>v. Inr (put_cell s c (Some (v\<lparr>ref_cnt := ref_cnt v + 1\<rparr>))))"

text \<open>\<open>DecRefCnt\<close> with the pool.\<close>

definition DecRefCnt :: "nat \<Rightarrow> 'd json_heap \<Rightarrow> 'd json_heap result" where
  "DecRefCnt c s =
     rbind (deref_cell s c) (\<lambda>v.
     let s1 = put_cell s c (Some (v\<lparr>ref_cnt := ref_cnt v - 1\<rparr>)) in
     if ref_cnt v - 1 \<noteq> 0 then Inr s1
     else rbind (box_ptr v) (\<lambda>p. case p of None \<Rightarrow> Inr s1 | Some b \<Rightarrow> Inr (FreeBox (val_type v) b s1)))"

text \<open>The elements of a vector or map that is copied share their cells with the originals.\<close>

fun inc_all :: "nat option list \<Rightarrow> 'd json_heap \<Rightarrow> 'd json_heap result" where
  "inc_all [] s = Inr s"
| "inc_all (None # hs) s = Inl Null_Deref"
| "inc_all (Some c # hs) s = rbind (IncRefCnt c s) (inc_all hs)"

definition Copy_val :: "nat \<Rightarrow> 'd json_heap \<Rightarrow> (nat \<times> 'd json_heap) result" where
  "Copy_val c s =
     rbind (deref_cell s c) (\<lambda>v0.
     rbind (new_val (val_type v0) s) (\<lambda>(n, s1).
     rbind (deref_cell s1 c) (\<lambda>v.
     rbind (deref_cell s1 n) (\<lambda>w.
     (case val_type v of
        kNull \<Rightarrow> Inr (n, s1)
      | kBool \<Rightarrow> Inr (n, put_cell s1 n (Some (w\<lparr>val_data := val_data v\<rparr>)))
      | kInt \<Rightarrow> Inr (n, put_cell s1 n (Some (w\<lparr>val_data := val_data v\<rparr>)))
      | kDouble \<Rightarrow> Inr (n, put_cell s1 n (Some (w\<lparr>val_data := val_data v\<rparr>)))
      | kStr \<Rightarrow> rbind (str_of s1 v) (\<lambda>(b, t). rbind (str_of s1 w) (\<lambda>(b', t').
          Inr (n, put_box s1 b' (Some (Str_Box t)))))
      | kList \<Rightarrow> rbind (list_of s1 v) (\<lambda>(b, hs). rbind (list_of s1 w) (\<lambda>(b', hs').
          rbind (inc_all hs s1) (\<lambda>s2. Inr (n, put_box s2 b' (Some (List_Box hs))))))
      | _ \<Rightarrow> rbind (dict_of s1 v) (\<lambda>(b, d). rbind (dict_of s1 w) (\<lambda>(b', d').
          rbind (inc_all (map snd d) s1) (\<lambda>s2. Inr (n, put_box s2 b' (Some (Dict_Box d)))))))))))"

section \<open>JsonType\<close>

text \<open>
  A member function of \<open>JsonType\<close> takes \<open>shared_json_val_\<close> and gives its new value.
  \<open>Reset_\<close>, not at exit, with a type or \<open>kInvalid\<close>.
\<close>

definition Reset_handle :: "nat option \<Rightarrow> json_type \<Rightarrow> 'd json_heap \<Rightarrow> (nat option \<times> 'd json_heap) result" where
  "Reset_handle h T s =
     (let fresh = (\<lambda>s1. if kInvalid \<noteq> T then rbind (new_val T s1) (\<lambda>(n, s2). Inr (Some n, s2)) else Inr (None, s1)) in
      case h of
        None \<Rightarrow> fresh s
      | Some c \<Rightarrow>
          rbind (DecRefCnt c s) (\<lambda>s1.
          rbind (deref_cell s1 c) (\<lambda>v.
          if 0 \<noteq> ref_cnt v then fresh s1
          else if kInvalid = T then Inr (None, put_cell s1 c None)
          else rbind (reset_val c T s1) (\<lambda>s2. Inr (Some c, s2)))))"

text \<open>The part that the assignments of a bool, an integer, a double and a string share.\<close>

definition give_up :: "nat option \<Rightarrow> json_type \<Rightarrow> 'd json_heap \<Rightarrow> (nat option \<times> 'd json_heap) result" where
  "give_up h T s =
     (case h of
        None \<Rightarrow> Inr (None, s)
      | Some c \<Rightarrow>
          rbind (deref_cell s c) (\<lambda>v.
          rbind (if ref_cnt v > 1 \<or> T \<noteq> val_type v then DecRefCnt c s else Inr s) (\<lambda>s1.
          rbind (deref_cell s1 c) (\<lambda>w.
          if 0 = ref_cnt w then Inr (Some c, put_cell s1 c (Some (w\<lparr>ref_cnt := 1\<rparr>)))
          else Inr (None, s1)))))"

definition assign_naive :: "nat option \<Rightarrow> json_type \<Rightarrow> 'd union_data \<Rightarrow> 'd json_heap \<Rightarrow> (nat option \<times> 'd json_heap) result" where
  "assign_naive h T d s =
     rbind (give_up h T s) (\<lambda>(h1, s1).
     case h1 of
       None \<Rightarrow>
         rbind (new_val T s1) (\<lambda>(n, s2).
         rbind (deref_cell s2 n) (\<lambda>w. Inr (Some n, put_cell s2 n (Some (w\<lparr>val_data := d\<rparr>)))))
     | Some c \<Rightarrow>
         rbind (deref_cell s1 c) (\<lambda>w. Inr (Some c, put_cell s1 c (Some (w\<lparr>val_type := T, val_data := d\<rparr>)))))"

definition assign_str :: "nat option \<Rightarrow> string \<Rightarrow> 'd json_heap \<Rightarrow> (nat option \<times> 'd json_heap) result" where
  "assign_str h t s =
     rbind (give_up h kStr s) (\<lambda>(h1, s1).
     rbind (case h1 of
         None \<Rightarrow> new_val kStr s1
       | Some c \<Rightarrow>
           rbind (GetBox kStr s1) (\<lambda>(b, s2).
           rbind (deref_cell s2 c) (\<lambda>w. Inr (c, put_cell s2 c (Some (w\<lparr>val_type := kStr, val_data := Str_Ptr b\<rparr>))))))
       (\<lambda>(n, s3).
     rbind (deref_cell s3 n) (\<lambda>w.
     rbind (str_of s3 w) (\<lambda>(b, t'). Inr (Some n, put_box s3 b (Some (Str_Box (c_str t))))))))"

text \<open>
  The assignment of another object, which points to the cell \<open>other\<close>; the call of an object on
  itself returns before.
\<close>

definition assign_json :: "nat option \<Rightarrow> nat \<Rightarrow> 'd json_heap \<Rightarrow> (nat option \<times> 'd json_heap) result" where
  "assign_json h other s =
     rbind (Reset_handle h kInvalid s) (\<lambda>(h1, s1). rbind (IncRefCnt other s1) (\<lambda>s2. Inr (Some other, s2)))"

definition Normalize :: "nat \<Rightarrow> 'd json_heap \<Rightarrow> (nat \<times> 'd json_heap) result" where
  "Normalize c s =
     rbind (deref_cell s c) (\<lambda>v.
     if 1 \<noteq> ref_cnt v then rbind (DecRefCnt c s) (\<lambda>s1. Copy_val c s1) else Inr (c, s))"

text \<open>The first part of both forms of \<open>operator[]\<close> that can write.\<close>

definition own_as :: "nat \<Rightarrow> json_type \<Rightarrow> 'd json_heap \<Rightarrow> (nat \<times> 'd json_heap) result" where
  "own_as c T s =
     rbind (deref_cell s c) (\<lambda>v.
     rbind (if T \<noteq> val_type v then Reset_handle (Some c) T s else Inr (Some c, s)) (\<lambda>(h, s1).
     case h of None \<Rightarrow> Inl Null_Deref | Some c1 \<Rightarrow> Normalize c1 s1))"

text \<open>\<open>n\<close> objects \<open>JsonType()\<close>, as \<open>resize\<close> makes them.\<close>

fun new_nulls :: "nat \<Rightarrow> 'd json_heap \<Rightarrow> (nat option list \<times> 'd json_heap) result" where
  "new_nulls 0 s = Inr ([], s)"
| "new_nulls (Suc n) s =
     rbind (new_val kNull s) (\<lambda>(c, s1). rbind (new_nulls n s1) (\<lambda>(hs, s2). Inr (Some c # hs, s2)))"

text \<open>What a reference to an object stands for.\<close>

datatype json_loc = Var_Loc nat | Elem_Loc nat nat | Field_Loc nat string

definition index_val :: "nat \<Rightarrow> nat \<Rightarrow> 'd json_heap \<Rightarrow> (nat \<times> json_loc \<times> 'd json_heap) result" where
  "index_val c i s =
     rbind (own_as c kList s) (\<lambda>(c1, s1).
     rbind (deref_cell s1 c1) (\<lambda>v.
     rbind (list_of s1 v) (\<lambda>(b, hs).
     rbind (if length hs \<le> i then new_nulls (i + 1 - length hs) s1 else Inr ([], s1)) (\<lambda>(ns, s2).
     Inr (c1, Elem_Loc b i, put_box s2 b (Some (List_Box (hs @ ns))))))))"

text \<open>
  A key that is missing is inserted with an empty map. The temporary objects on the way share the
  cell of the new element and are destroyed before the call returns.
\<close>

definition field_val :: "nat \<Rightarrow> string \<Rightarrow> 'd json_heap \<Rightarrow> (nat \<times> json_loc \<times> 'd json_heap) result" where
  "field_val c k s =
     rbind (own_as c kDict s) (\<lambda>(c1, s1).
     rbind (deref_cell s1 c1) (\<lambda>v.
     rbind (dict_of s1 v) (\<lambda>(b, d).
     if map_of d k \<noteq> None then Inr (c1, Field_Loc b k, s1)
     else rbind (new_val kDict s1) (\<lambda>(n, s2). Inr (c1, Field_Loc b k, put_box s2 b (Some (Dict_Box (d @ [(k, Some n)]))))))))"

section \<open>Reading\<close>

text \<open>\<open>Null_\<close> gives a static object, made by the first call.\<close>

definition get_null :: "'d json_heap \<Rightarrow> (nat \<times> 'd json_heap) result" where
  "get_null s =
     (case null_val s of
        Some c \<Rightarrow> Inr (c, s)
      | None \<Rightarrow> rbind (new_val kNull s) (\<lambda>(c, s1). Inr (c, s1\<lparr>null_val := Some c\<rparr>)))"

datatype json_step = Index nat | Key string

text \<open>The object that a \<open>const\<close> reference finds: its cell and its place, none for the static object.\<close>

definition const_sub :: "nat \<Rightarrow> json_step \<Rightarrow> 'd json_heap \<Rightarrow> (nat \<times> json_loc option \<times> 'd json_heap) result" where
  "const_sub c st s =
     (let null_ref = rbind (get_null s) (\<lambda>(n, s1). Inr (n, None, s1)) in
      rbind (deref_cell s c) (\<lambda>v.
      case st of
        Index i \<Rightarrow>
          if kList \<noteq> val_type v then null_ref
          else rbind (list_of s v) (\<lambda>(b, hs).
            if length hs \<le> i then null_ref
            else (case hs ! i of None \<Rightarrow> Inl Null_Deref | Some d \<Rightarrow> Inr (d, Some (Elem_Loc b i), s)))
      | Key k \<Rightarrow>
          if kDict \<noteq> val_type v then null_ref
          else rbind (dict_of s v) (\<lambda>(b, d).
            (case map_of d k of
               None \<Rightarrow> null_ref
             | Some None \<Rightarrow> Inl Null_Deref
             | Some (Some e) \<Rightarrow> Inr (e, Some (Field_Loc b k), s)))))"

fun const_walk :: "nat \<Rightarrow> json_loc option \<Rightarrow> json_step list \<Rightarrow> 'd json_heap \<Rightarrow> (nat \<times> json_loc option \<times> 'd json_heap) result" where
  "const_walk c r [] s = Inr (c, r, s)"
| "const_walk c r (st # p) s = rbind (const_sub c st s) (\<lambda>(d, r1, s1). const_walk d r1 p s1)"

text \<open>\<open>Type\<close>, and \<open>IsNull\<close> to \<open>IsDict\<close>, which compare with it.\<close>

definition Type_val :: "nat option \<Rightarrow> 'd json_heap \<Rightarrow> json_type result" where
  "Type_val h s = (case h of None \<Rightarrow> Inl Null_Deref | Some c \<Rightarrow> rbind (deref_cell s c) (\<lambda>v. Inr (val_type v)))"

definition Is_type :: "json_type \<Rightarrow> nat option \<Rightarrow> 'd json_heap \<Rightarrow> bool result" where
  "Is_type T h s = rbind (Type_val h s) (\<lambda>T'. Inr (T = T'))"

datatype 'd scalar = S_Bool bool | S_Int "64 word" | S_Double 'd | S_Str string

definition Size_val :: "'d json_heap \<Rightarrow> 'd shared_val \<Rightarrow> nat result" where
  "Size_val s v =
     (case val_type v of
        kNull \<Rightarrow> Inr 0
      | kBool \<Rightarrow> Inr 1
      | kInt \<Rightarrow> Inr 1
      | kDouble \<Rightarrow> Inr 1
      | kStr \<Rightarrow> Inr 1
      | kList \<Rightarrow> rbind (list_of s v) (\<lambda>(b, hs). Inr (length hs))
      | _ \<Rightarrow> rbind (dict_of s v) (\<lambda>(b, d). Inr (length d)))"

text \<open>What \<open>AsBool\<close>, \<open>AsInt\<close>, \<open>AsDouble\<close> or \<open>AsStr\<close> gives for the type of the value.\<close>

definition As_scalar :: "'d json_heap \<Rightarrow> 'd shared_val \<Rightarrow> 'd scalar option result" where
  "As_scalar s v =
     (case val_type v of
        kBool \<Rightarrow> (case val_data v of Bool_Val x \<Rightarrow> Inr (Some (S_Bool x)) | _ \<Rightarrow> Inl Wrong_Member)
      | kInt \<Rightarrow> (case val_data v of Int_Val x \<Rightarrow> Inr (Some (S_Int x)) | _ \<Rightarrow> Inl Wrong_Member)
      | kDouble \<Rightarrow> (case val_data v of Double_Val x \<Rightarrow> Inr (Some (S_Double x)) | _ \<Rightarrow> Inl Wrong_Member)
      | kStr \<Rightarrow> rbind (str_of s v) (\<lambda>(b, t). Inr (Some (S_Str t)))
      | _ \<Rightarrow> Inr None)"

text \<open>
  \<open>operator==\<close>. Two floating point numbers are compared up to \<open>epsilon\<close>, which \<open>close\<close> stands
  for.
\<close>

definition json_equal :: "('d \<Rightarrow> 'd \<Rightarrow> bool) \<Rightarrow> 'd scalar \<Rightarrow> 'd json_heap \<Rightarrow> 'd shared_val \<Rightarrow> bool result" where
  "json_equal close x s v =
     (case x of
        S_Bool a \<Rightarrow> if kBool \<noteq> val_type v then Inr False
          else (case val_data v of Bool_Val b \<Rightarrow> Inr (a = b) | _ \<Rightarrow> Inl Wrong_Member)
      | S_Int a \<Rightarrow> if kInt \<noteq> val_type v then Inr False
          else (case val_data v of Int_Val b \<Rightarrow> Inr (a = b) | _ \<Rightarrow> Inl Wrong_Member)
      | S_Double a \<Rightarrow> if kDouble \<noteq> val_type v then Inr False
          else (case val_data v of Double_Val b \<Rightarrow> Inr (close b a) | _ \<Rightarrow> Inl Wrong_Member)
      | S_Str t \<Rightarrow> if kStr \<noteq> val_type v then Inr False
          else rbind (str_of s v) (\<lambda>(b, t'). Inr (c_str t = c_str t')))"

text \<open>
  \<open>DumpJson\<close> on a cell, with the orders in which the maps below it are iterated; the number bounds the
  depth of calls, \<open>Diverges\<close> when it is not enough.
\<close>

fun dump_all :: "('a \<Rightarrow> string result) \<Rightarrow> 'a list \<Rightarrow> string list result" where
  "dump_all f [] = Inr []"
| "dump_all f (h # hs) = rbind (f h) (\<lambda>t. rbind (dump_all f hs) (\<lambda>ts. Inr (t # ts)))"

fun dump_val :: "('d \<Rightarrow> string) \<Rightarrow> map_order \<Rightarrow> 'd json_heap \<Rightarrow> nat \<Rightarrow> nat option \<Rightarrow> string result" where
  "dump_val show_double ord s 0 h = Inl Diverges"
| "dump_val show_double ord s (Suc n) h =
     (case h of
        None \<Rightarrow> Inl Null_Deref
      | Some c \<Rightarrow>
          rbind (deref_cell s c) (\<lambda>v.
          case val_type v of
            kNull \<Rightarrow> Inr ''null''
          | kBool \<Rightarrow> (case val_data v of Bool_Val b \<Rightarrow> Inr (if b then ''1'' else ''0'') | _ \<Rightarrow> Inl Wrong_Member)
          | kInt \<Rightarrow> (case val_data v of Int_Val i \<Rightarrow> Inr (int_dec (sint i)) | _ \<Rightarrow> Inl Wrong_Member)
          | kDouble \<Rightarrow> (case val_data v of Double_Val d \<Rightarrow> Inr (show_double d) | _ \<Rightarrow> Inl Wrong_Member)
          | kStr \<Rightarrow> rbind (str_of s v) (\<lambda>(b, t). Inr (quoted t))
          | kList \<Rightarrow> rbind (list_of s v) (\<lambda>(b, hs). rbind (dump_all
              (\<lambda>x. dump_val show_double (below ord (fst x)) s n (snd x)) (List.enumerate 0 hs)) (\<lambda>ts.
              Inr (''['' @ sep_by '','' ts @ '']'')))
          | _ \<Rightarrow> rbind (dict_of s v) (\<lambda>(b, d). rbind (dump_all
              (\<lambda>x. rbind (dump_val show_double (below ord (fst x)) s n (snd (snd x))) (\<lambda>t.
                Inr (quoted (fst (snd x)) @ '':'' @ t)))
              (List.enumerate 0 (iteration (ord [] (length d)) d))) (\<lambda>ts.
              Inr (''{'' @ sep_by '', '' ts @ ''}'')))))"

section \<open>A client\<close>

definition set_key :: "'k \<Rightarrow> 'v \<Rightarrow> ('k \<times> 'v) list \<Rightarrow> ('k \<times> 'v) list" where
  "set_key k v = map (\<lambda>(k', v'). if k' = k then (k', v) else (k', v'))"

text \<open>\<open>None\<close> when there is no object at the place.\<close>

definition load_loc :: "json_loc \<Rightarrow> 'd json_heap \<Rightarrow> nat option option" where
  "load_loc l s =
     (case l of
        Var_Loc x \<Rightarrow> map_of (json_vars s) x
      | Elem_Loc b i \<Rightarrow> (case box_at s b of Some (List_Box hs) \<Rightarrow> if i < length hs then Some (hs ! i) else None | _ \<Rightarrow> None)
      | Field_Loc b k \<Rightarrow> (case box_at s b of Some (Dict_Box d) \<Rightarrow> map_of d k | _ \<Rightarrow> None))"

definition store_loc :: "json_loc \<Rightarrow> nat option \<Rightarrow> 'd json_heap \<Rightarrow> 'd json_heap" where
  "store_loc l h s =
     (case l of
        Var_Loc x \<Rightarrow> s\<lparr>json_vars := set_key x h (json_vars s)\<rparr>
      | Elem_Loc b i \<Rightarrow> (case box_at s b of Some (List_Box hs) \<Rightarrow> put_box s b (Some (List_Box (hs[i := h]))) | _ \<Rightarrow> s)
      | Field_Loc b k \<Rightarrow> (case box_at s b of Some (Dict_Box d) \<Rightarrow> put_box s b (Some (Dict_Box (set_key k h d))) | _ \<Rightarrow> s))"

text \<open>
  A member function called on an object: its pointer is taken out and the new one put back, and
  nothing in between looks at the object.
\<close>

definition call_at :: "json_loc \<Rightarrow> (nat option \<Rightarrow> 'd json_heap \<Rightarrow> (nat option \<times> 'a \<times> 'd json_heap) result)
  \<Rightarrow> 'd json_heap \<Rightarrow> ('a \<times> 'd json_heap) result" where
  "call_at l f s =
     (case load_loc l s of
        None \<Rightarrow> Inl Use_After_Free
      | Some h \<Rightarrow> rbind (f h (store_loc l None s)) (\<lambda>(h', out, s1). Inr (out, store_loc l h' s1)))"

text \<open>
  The calls of a client: constructors, the destructor, a reference to a variable, the writing
  \<open>operator[]\<close> on the current reference, assignments to it, and reading through \<open>const\<close>
  references.
\<close>

datatype 'd json_op =
    J_New nat json_type
  | J_Copy nat nat
  | J_Delete nat
  | J_Var nat
  | J_Sub json_step
  | J_Set "'d scalar"
  | J_Assign nat "json_step list"
  | J_Look nat "json_step list"
  | J_Equal nat "json_step list" "'d scalar"

datatype 'd json_out = J_Done | J_Seen json_type nat "'d scalar option" | J_Is bool

text \<open>The heap, and the current reference with the variable and the keys it was taken by.\<close>

type_synonym 'd json_state = "'d json_heap \<times> (nat \<times> json_step list \<times> json_loc) option"

definition var_cell :: "nat \<Rightarrow> 'd json_heap \<Rightarrow> nat result" where
  "var_cell x s = (case map_of (json_vars s) x of Some (Some c) \<Rightarrow> Inr c | _ \<Rightarrow> Inl Null_Deref)"

definition sub_val :: "json_step \<Rightarrow> nat option \<Rightarrow> 'd json_heap \<Rightarrow> (nat option \<times> json_loc \<times> 'd json_heap) result" where
  "sub_val st h s =
     (case h of
        None \<Rightarrow> Inl Null_Deref
      | Some c \<Rightarrow> map_sum id (\<lambda>(c1, l, s1). (Some c1, l, s1)) (case st of Index i \<Rightarrow> index_val c i s | Key k \<Rightarrow> field_val c k s))"

definition set_val_to :: "'d scalar \<Rightarrow> nat option \<Rightarrow> 'd json_heap \<Rightarrow> (nat option \<times> 'd json_heap) result" where
  "set_val_to x h s =
     (case x of
        S_Bool b \<Rightarrow> assign_naive h kBool (Bool_Val b) s
      | S_Int i \<Rightarrow> assign_naive h kInt (Int_Val i) s
      | S_Double d \<Rightarrow> assign_naive h kDouble (Double_Val d) s
      | S_Str t \<Rightarrow> assign_str h t s)"

definition no_out :: "(nat option \<times> 'd json_heap) result \<Rightarrow> (nat option \<times> unit \<times> 'd json_heap) result" where
  "no_out = map_sum id (\<lambda>(h, s). (h, (), s))"

fun json_call :: "('d \<Rightarrow> 'd \<Rightarrow> bool) \<Rightarrow> 'd json_state \<Rightarrow> 'd json_op \<Rightarrow> ('d json_out \<times> 'd json_state) result" where
  "json_call close (s, cur) (J_New x T) =
     rbind (new_val T s) (\<lambda>(c, s1). Inr (J_Done, s1\<lparr>json_vars := (x, Some c) # json_vars s1\<rparr>, cur))"
| "json_call close (s, cur) (J_Copy x y) =
     rbind (var_cell y s) (\<lambda>c. rbind (assign_json None c s) (\<lambda>(h, s1).
     Inr (J_Done, s1\<lparr>json_vars := (x, h) # json_vars s1\<rparr>, None)))"
| "json_call close (s, cur) (J_Delete x) =
     (case map_of (json_vars s) x of
        None \<Rightarrow> Inl Use_After_Free
      | Some h \<Rightarrow> rbind (destroy (s\<lparr>json_vars := filter (\<lambda>(y, h). y \<noteq> x) (json_vars s)\<rparr>) [h]) (\<lambda>s1. Inr (J_Done, s1, None)))"
| "json_call close (s, cur) (J_Var x) = Inr (J_Done, s, Some (x, [], Var_Loc x))"
| "json_call close (s, cur) (J_Sub st) =
     (case cur of
        None \<Rightarrow> Inl Null_Deref
      | Some (x, p, l) \<Rightarrow> rbind (call_at l (sub_val st) s) (\<lambda>(l', s1). Inr (J_Done, s1, Some (x, p @ [st], l'))))"
| "json_call close (s, cur) (J_Set a) =
     (case cur of
        None \<Rightarrow> Inl Null_Deref
      | Some (x, p, l) \<Rightarrow> rbind (call_at l (\<lambda>h s. no_out (set_val_to a h s)) s) (\<lambda>(u, s1). Inr (J_Done, s1, cur)))"
| "json_call close (s, cur) (J_Assign y q) =
     (case cur of
        None \<Rightarrow> Inl Null_Deref
      | Some (x, p, l) \<Rightarrow>
          rbind (var_cell y s) (\<lambda>c. rbind (const_walk c (Some (Var_Loc y)) q s) (\<lambda>(d, r, s1).
          if r = Some l then Inr (J_Done, s1, cur)
          else rbind (call_at l (\<lambda>h s. no_out (assign_json h d s)) s1) (\<lambda>(u, s2). Inr (J_Done, s2, cur)))))"
| "json_call close (s, cur) (J_Look y p) =
     rbind (var_cell y s) (\<lambda>c. rbind (const_walk c (Some (Var_Loc y)) p s) (\<lambda>(d, r, s1).
     rbind (deref_cell s1 d) (\<lambda>v. rbind (Size_val s1 v) (\<lambda>n. rbind (As_scalar s1 v) (\<lambda>a.
     Inr (J_Seen (val_type v) n a, s1, cur))))))"
| "json_call close (s, cur) (J_Equal y p x) =
     rbind (var_cell y s) (\<lambda>c. rbind (const_walk c (Some (Var_Loc y)) p s) (\<lambda>(d, r, s1).
     rbind (deref_cell s1 d) (\<lambda>v. rbind (json_equal close x s1 v) (\<lambda>e. Inr (J_Is e, s1, cur)))))"

section \<open>Constructors\<close>

definition JsonType_new :: "json_type \<Rightarrow> 'd json_heap \<Rightarrow> (nat option \<times> 'd json_heap) result" where
  "JsonType_new T s = rbind (new_val T s) (\<lambda>(n, s1). Inr (Some n, s1))"

definition JsonType_copy :: "nat \<Rightarrow> 'd json_heap \<Rightarrow> (nat option \<times> 'd json_heap) result" where
  "JsonType_copy other s = assign_json None other s"

text \<open>A copy makes no cell and deletes none.\<close>

lemma JsonType_copy_shares: "JsonType_copy other s = rbind (IncRefCnt other s) (\<lambda>s1. Inr (Some other, s1))"
  by (simp add: JsonType_copy_def assign_json_def Reset_handle_def)

end
