(* ===== verification/Json_Build.thy ===== *)
theory Json_Build
  imports Json_Cells Json_Parse
begin

text \<open>
  The parser of \<^verbatim>\<open>src/jsontype/details/jsontype.cpp\<close> on the shared cells of
  \<open>Json_Cells\<close>: which cells, strings, vectors and maps \<open>JsonParseUtil\<close> makes, copies and deletes
  on the way, and what it leaves behind when it returns \<open>NULL\<close>. What it makes of the text is the
  subject of \<open>Json_Parse\<close>; \<open>Json_Load\<close> shows that the two agree.

  A \<open>JsonType\<close> that the parser makes with \<open>new\<close> is an object that the running function holds; a
  function returns the cell it points to. An exception ends the run.
\<close>

section \<open>Results\<close>

text \<open>The cell of the new object and the rest of the text, or \<open>NULL\<close> and where the pointer stands.\<close>

datatype built = Built nat string | Lost "string option"

definition lost_error :: "string option \<Rightarrow> 'd json_heap \<Rightarrow> (built \<times> 'd json_heap) result" where
  "lost_error p s =
     (case p of
        None \<Rightarrow> Inl Out_Of_Bounds
      | Some t \<Rightarrow> if length t < 20 then Inl Out_Of_Range else Inr (Lost (Some t), s))"

definition check_lost :: "(built \<times> 'd json_heap) result \<Rightarrow> (built \<times> 'd json_heap) result" where
  "check_lost r =
     rbind r (\<lambda>(x, s). case x of Built c t \<Rightarrow> Inr (Built c t, s) | Lost p \<Rightarrow> lost_error p s)"

section \<open>Scalars and strings\<close>

text \<open>A new object of a type whose union is written in place.\<close>

definition new_scalar :: "json_type \<Rightarrow> 'd union_data \<Rightarrow> 'd json_heap \<Rightarrow> (nat \<times> 'd json_heap) result" where
  "new_scalar T d s =
     rbind (new_val T s) (\<lambda>(n, s1).
     rbind (deref_cell s1 n) (\<lambda>w. Inr (n, put_cell s1 n (Some (w\<lparr>val_data := d\<rparr>)))))"

definition build_word :: "string \<Rightarrow> ('d json_heap \<Rightarrow> (nat \<times> 'd json_heap) result) \<Rightarrow> string \<Rightarrow> 'd json_heap
  \<Rightarrow> (built \<times> 'd json_heap) result" where
  "build_word w mk t s =
     (if length t < length w \<or> take (length w) t \<noteq> w then Inr (Lost (Some t), s)
      else rbind (mk s) (\<lambda>(c, s1). Inr (Built c (drop (length w) t), s1)))"

definition build_null :: "string \<Rightarrow> 'd json_heap \<Rightarrow> (built \<times> 'd json_heap) result" where
  "build_null = build_word ''null'' (new_val kNull)"

definition build_true :: "string \<Rightarrow> 'd json_heap \<Rightarrow> (built \<times> 'd json_heap) result" where
  "build_true = build_word ''true'' (new_scalar kBool (Bool_Val True))"

definition build_false :: "string \<Rightarrow> 'd json_heap \<Rightarrow> (built \<times> 'd json_heap) result" where
  "build_false = build_word ''false'' (new_scalar kBool (Bool_Val False))"

text \<open>
  \<open>ReadinStr_\<close> makes the object before it looks for the closing quote, and does not delete it when
  there is none.
\<close>

definition build_str :: "string \<Rightarrow> 'd json_heap \<Rightarrow> (built \<times> 'd json_heap) result" where
  "build_str t s =
     rbind (new_val kStr s) (\<lambda>(n, s1).
     case ReadinStrRaw t of
       (None, rest) \<Rightarrow> Inr (Lost (Some rest), s1)
     | (Some content, rest) \<Rightarrow>
         rbind (deref_cell s1 n) (\<lambda>w.
         rbind (str_of s1 w) (\<lambda>(b, old). Inr (Built n rest, put_box s1 b (Some (Str_Box content))))))"

definition build_digits :: "(string \<Rightarrow> 'd \<times> string) \<Rightarrow> string \<Rightarrow> 'd json_heap \<Rightarrow> (built \<times> 'd json_heap) result" where
  "build_digits strtod t s =
     (let (l, endptr) = strtoll t in
      if endptr \<noteq> [] \<and> hd endptr = CHR ''.'' then
        let (d, endptr') = strtod t in
        rbind (new_scalar kDouble (Double_Val d) s) (\<lambda>(n, s1). Inr (Built n endptr', s1))
      else rbind (new_scalar kInt (Int_Val (word_of_int l)) s) (\<lambda>(n, s1). Inr (Built n endptr, s1)))"

section \<open>Elements of vectors and maps\<close>

text \<open>
  An element is copied into its vector, which counts its cell once more, and the object it was
  read into is deleted.
\<close>

definition push_element :: "nat \<Rightarrow> nat \<Rightarrow> 'd json_heap \<Rightarrow> 'd json_heap result" where
  "push_element c d s =
     rbind (deref_cell s c) (\<lambda>v.
     rbind (list_of s v) (\<lambda>(b, hs).
     rbind (IncRefCnt d s) (\<lambda>s1.
     destroy (put_box s1 b (Some (List_Box (hs @ [Some d])))) [Some d])))"

text \<open>A map keeps the value it has for a key; a pair for the same key is deleted.\<close>

definition insert_pair :: "nat \<Rightarrow> string \<Rightarrow> nat \<Rightarrow> 'd json_heap \<Rightarrow> 'd json_heap result" where
  "insert_pair c key d s =
     rbind (deref_cell s c) (\<lambda>v.
     rbind (dict_of s v) (\<lambda>(b, e).
     if key \<in> fst ` set e then destroy s [Some d]
     else
       rbind (IncRefCnt d s) (\<lambda>s1.
       destroy (put_box s1 b (Some (Dict_Box (e @ [(key, Some d)])))) [Some d])))"

text \<open>\<open>ReadDictPair_\<close> copies the value into the pair and deletes the object it was read into.\<close>

definition make_pair :: "nat \<Rightarrow> 'd json_heap \<Rightarrow> 'd json_heap result" where
  "make_pair d s = rbind (IncRefCnt d s) (\<lambda>s1. destroy s1 [Some d])"

section \<open>The parser\<close>

text \<open>
  As in \<open>Json_Parse\<close>, the first number bounds the depth of calls. \<open>BuildList\<close> and \<open>BuildDict\<close> are
  the loops of \<open>ReadinList_\<close> and \<open>ReadinDict_\<close> with the object \<open>c\<close> they fill: a failed element
  deletes it, the end of the text does not.
\<close>

fun BuildValue :: "(string \<Rightarrow> 'd \<times> string) \<Rightarrow> nat \<Rightarrow> string \<Rightarrow> 'd json_heap \<Rightarrow> (built \<times> 'd json_heap) result"
  and BuildList :: "(string \<Rightarrow> 'd \<times> string) \<Rightarrow> nat \<Rightarrow> string \<Rightarrow> nat \<Rightarrow> 'd json_heap \<Rightarrow> (built \<times> 'd json_heap) result"
  and BuildDict :: "(string \<Rightarrow> 'd \<times> string) \<Rightarrow> nat \<Rightarrow> string \<Rightarrow> nat \<Rightarrow> 'd json_heap \<Rightarrow> (built \<times> 'd json_heap) result"
where
  "BuildValue sd 0 str s = Inl Diverges"
| "BuildValue sd (Suc f) str s =
     (let t = IgnoreBlanks str in
      if t = [] then lost_error (Some t) s
      else let c = hd t in
      if c = CHR ''n'' then check_lost (build_null t s)
      else if c = CHR ''t'' then check_lost (build_true t s)
      else if c = CHR ''f'' then check_lost (build_false t s)
      else if c = CHR 0x22 then check_lost (build_str t s)
      else if c = CHR ''['' then
        let t' = IgnoreBlanks (tl t) in
        check_lost (if t' = [] then Inr (Lost (Some t'), s)
          else rbind (new_val kList s) (\<lambda>(n, s1). BuildList sd f t' n s1))
      else if c = CHR ''{'' then
        let t' = IgnoreBlanks (tl t) in
        check_lost (if t' = [] then Inr (Lost (Some t'), s)
          else rbind (new_val kDict s) (\<lambda>(n, s1). BuildDict sd f t' n s1))
      else if is_digit c \<or> c = CHR ''-'' then check_lost (build_digits sd t s)
      else lost_error (Some t) s)"
| "BuildList sd 0 str c s = Inl Diverges"
| "BuildList sd (Suc f) str c s =
     (if str = [] then Inr (Lost None, s)
      else if hd str = CHR '']'' then Inr (Built c (tl str), s)
      else
        rbind (BuildValue sd f (IgnoreBlanks str) s) (\<lambda>(x, s1).
        case x of
          Lost p \<Rightarrow> rbind (destroy s1 [Some c]) (\<lambda>s2. Inr (Lost p, s2))
        | Built d t \<Rightarrow> rbind (push_element c d s1) (\<lambda>s2. BuildList sd f (skip_comma (IgnoreBlanks t)) c s2)))"
| "BuildDict sd 0 str c s = Inl Diverges"
| "BuildDict sd (Suc f) str c s =
     (if str = [] then Inr (Lost None, s)
      else if hd str = CHR ''}'' then Inr (Built c (tl str), s)
      else
        let give_up = (\<lambda>p s1. rbind (destroy s1 [Some c]) (\<lambda>s2. Inr (Lost p, s2))) in
        (case ReadinStrRaw (IgnoreBlanks str) of
           (None, t) \<Rightarrow> give_up (Some t) s
         | (Some key, t) \<Rightarrow>
             if key = [] then give_up (Some t) s
             else let t1 = IgnoreBlanks t in
             if t1 = [] then give_up None s
             else if hd t1 \<noteq> CHR '':'' then give_up (Some (tl t1)) s
             else
               rbind (BuildValue sd f (IgnoreBlanks (tl t1)) s) (\<lambda>(x, s1).
               case x of
                 Lost p \<Rightarrow> give_up p s1
               | Built d t2 \<Rightarrow>
                   rbind (make_pair d s1) (\<lambda>s2.
                   rbind (insert_pair c key d s2) (\<lambda>s3.
                   BuildDict sd f (skip_comma (IgnoreBlanks t2)) c s3)))))"

definition BuildJson :: "(string \<Rightarrow> 'd \<times> string) \<Rightarrow> string \<Rightarrow> 'd json_heap \<Rightarrow> (built \<times> 'd json_heap) result" where
  "BuildJson sd str s = BuildValue sd (parse_rounds (c_str str)) (c_str str) s"

section \<open>Configuration files\<close>

text \<open>
  \<open>CreateConf\<close> with what \<open>fread\<close> gives, call after call, or \<open>None\<close> when the file cannot be opened.
  It stops at the first empty block, an error as well as the end of the file.
\<close>

fun read_blocks :: "string list \<Rightarrow> string" where
  "read_blocks [] = []"
| "read_blocks (b # bs) = (if 0 < length b then b @ read_blocks bs else [])"

definition CreateConf :: "(string \<Rightarrow> 'd \<times> string) \<Rightarrow> string list option \<Rightarrow> 'd json_heap \<Rightarrow> (built \<times> 'd json_heap) result" where
  "CreateConf sd blocks s =
     (case blocks of
        None \<Rightarrow> Inr (Lost None, s)
      | Some bs \<Rightarrow> BuildJson sd (read_blocks bs) s)"

end
