(* ===== verification/Json_Graph.thy ===== *)
theory Json_Graph
  imports Json_Cells
begin

text \<open>
  The invariant of the heap of \<open>Json_Cells\<close>: every object points to a live cell, the count of a
  cell is the number of objects that point to it (a cell that has been leaked keeps a count of 1),
  and every string, vector and map belongs to one cell or to a pool. Each operation of the code is
  shown to keep it, first the single writes and then the functions.
\<close>

section \<open>Objects, cells and boxes\<close>

definition opt_handles :: "box option \<Rightarrow> nat option list" where
  "opt_handles x = (case x of None \<Rightarrow> [] | Some b \<Rightarrow> box_handles b)"

text \<open>All objects there are.\<close>

definition all_handles :: "'d json_heap \<Rightarrow> nat option multiset" where
  "all_handles s = mset (case null_val s of None \<Rightarrow> [] | Some c \<Rightarrow> [Some c])
     + mset (map snd (json_vars s)) + (\<Sum>x\<in>#mset (boxes s). mset (opt_handles x))"

definition live :: "'d json_heap \<Rightarrow> nat \<Rightarrow> bool" where
  "live s c \<longleftrightarrow> (\<exists>v. cell_at s c = Some v \<and> ref_cnt v \<noteq> 0)"

text \<open>The box of a cell, and the boxes of all cells and pools.\<close>

definition owned :: "'d shared_val option \<Rightarrow> nat multiset" where
  "owned x = (case x of
     None \<Rightarrow> {#}
   | Some v \<Rightarrow> if ref_cnt v = 0 then {#} else (case box_ptr v of Inr (Some b) \<Rightarrow> {#b#} | _ \<Rightarrow> {#}))"

definition all_boxes :: "'d json_heap \<Rightarrow> nat multiset" where
  "all_boxes s = (\<Sum>x\<in>#mset (cells s). owned x) + mset (str_pool s) + mset (list_pool s) + mset (dict_pool s)"

definition typed :: "'d json_heap \<Rightarrow> 'd shared_val \<Rightarrow> bool" where
  "typed s v \<longleftrightarrow>
     (case val_type v of
        kStr \<Rightarrow> (\<exists>b t. val_data v = Str_Ptr b \<and> box_at s b = Some (Str_Box t))
      | kList \<Rightarrow> (\<exists>b hs. val_data v = List_Ptr b \<and> box_at s b = Some (List_Box hs))
      | kDict \<Rightarrow> (\<exists>b d. val_data v = Dict_Ptr b \<and> box_at s b = Some (Dict_Box d) \<and> distinct (map fst d))
      | kInvalid \<Rightarrow> False
      | _ \<Rightarrow> True)"

text \<open>
  The invariant, with the objects \<open>H\<close> and boxes \<open>B\<close> that the running function holds.
\<close>

definition balanced :: "'d shared_val \<Rightarrow> nat \<Rightarrow> bool" where
  "balanced v n \<longleftrightarrow> unat (ref_cnt v) = n \<or> ref_cnt v = 1 \<and> n = 0"

definition heap_inv :: "'d json_heap \<Rightarrow> nat option multiset \<Rightarrow> nat multiset \<Rightarrow> bool" where
  "heap_inv s H B \<longleftrightarrow>
     (\<forall>c. Some c \<in># all_handles s + H \<longrightarrow> live s c)
     \<and> (\<forall>c v. cell_at s c = Some v \<longrightarrow> ref_cnt v \<noteq> 0 \<longrightarrow> typed s v)
     \<and> (\<forall>c v. cell_at s c = Some v \<longrightarrow> balanced v (count (all_handles s + H) (Some c)))
     \<and> (\<forall>b. count (all_boxes s + B) b \<le> 1)
     \<and> (\<forall>b \<in># B. box_at s b \<noteq> None)
     \<and> (\<forall>b \<in> set (str_pool s). \<exists>t. box_at s b = Some (Str_Box t))
     \<and> (\<forall>b \<in> set (list_pool s). \<exists>hs. box_at s b = Some (List_Box hs))
     \<and> (\<forall>b \<in> set (dict_pool s). \<exists>d. box_at s b = Some (Dict_Box d))"

lemma heap_invI:
  assumes "\<And>c. Some c \<in># all_handles s + H \<Longrightarrow> live s c"
    and "\<And>c v. cell_at s c = Some v \<Longrightarrow> ref_cnt v \<noteq> 0 \<Longrightarrow> typed s v"
    and "\<And>c v. cell_at s c = Some v \<Longrightarrow> balanced v (count (all_handles s + H) (Some c))"
    and "\<And>b. count (all_boxes s + B) b \<le> 1"
    and "\<And>b. b \<in># B \<Longrightarrow> box_at s b \<noteq> None"
    and "\<And>b. b \<in> set (str_pool s) \<Longrightarrow> \<exists>t. box_at s b = Some (Str_Box t)"
    and "\<And>b. b \<in> set (list_pool s) \<Longrightarrow> \<exists>hs. box_at s b = Some (List_Box hs)"
    and "\<And>b. b \<in> set (dict_pool s) \<Longrightarrow> \<exists>d. box_at s b = Some (Dict_Box d)"
  shows "heap_inv s H B"
  using assms unfolding heap_inv_def by blast

lemma heap_invD:
  assumes "heap_inv s H B"
  shows "Some c \<in># all_handles s + H \<Longrightarrow> live s c"
    and "cell_at s c = Some v \<Longrightarrow> ref_cnt v \<noteq> 0 \<Longrightarrow> typed s v"
    and "cell_at s c = Some v \<Longrightarrow> balanced v (count (all_handles s + H) (Some c))"
    and "count (all_boxes s + B) b \<le> 1"
    and "b \<in># B \<Longrightarrow> box_at s b \<noteq> None"
    and "b \<in> set (str_pool s) \<Longrightarrow> \<exists>t. box_at s b = Some (Str_Box t)"
    and "b \<in> set (list_pool s) \<Longrightarrow> \<exists>hs. box_at s b = Some (List_Box hs)"
    and "b \<in> set (dict_pool s) \<Longrightarrow> \<exists>d. box_at s b = Some (Dict_Box d)"
  using assms unfolding heap_inv_def by blast+

section \<open>Single writes\<close>

lemma cell_at_put: "cell_at s c \<noteq> None \<Longrightarrow> cell_at (put_cell s c x) d = (if d = c then x else cell_at s d)"
  by (auto simp: cell_at_def put_cell_def split: if_splits)

lemma box_at_put: "box_at s b \<noteq> None \<Longrightarrow> box_at (put_box s b x) b' = (if b' = b then x else box_at s b')"
  by (auto simp: box_at_def put_box_def split: if_splits)

lemma box_at_cell [simp]: "box_at (put_cell s c x) b = box_at s b"
  by (simp add: box_at_def put_cell_def)

lemma put_fields [simp]:
  "json_vars (put_cell s c x) = json_vars s" "null_val (put_cell s c x) = null_val s"
  "boxes (put_cell s c x) = boxes s" "str_pool (put_cell s c x) = str_pool s"
  "list_pool (put_cell s c x) = list_pool s" "dict_pool (put_cell s c x) = dict_pool s"
  "json_vars (put_box s b y) = json_vars s" "null_val (put_box s b y) = null_val s"
  "cells (put_box s b y) = cells s" "str_pool (put_box s b y) = str_pool s"
  "list_pool (put_box s b y) = list_pool s" "dict_pool (put_box s b y) = dict_pool s"
  by (simp_all add: put_cell_def put_box_def)

lemma all_handles_cell [simp]: "all_handles (put_cell s c x) = all_handles s"
  by (simp add: all_handles_def)

lemma all_handles_box:
  assumes "box_at s b = Some x"
  shows "all_handles (put_box s b y) + mset (box_handles x) = all_handles s + mset (opt_handles y)"
proof -
  have "b < length (boxes s)" "opt_handles (boxes s ! b) = box_handles x"
    using assms by (auto simp: box_at_def opt_handles_def split: if_splits)
  with sum_update [of b "boxes s" "\<lambda>x. mset (opt_handles x)" y] show ?thesis
    by (simp add: all_handles_def put_box_def add.assoc)
qed

lemma all_boxes_box [simp]: "all_boxes (put_box s b y) = all_boxes s"
  by (simp add: all_boxes_def)

lemma all_boxes_cell:
  assumes "cell_at s c = Some v"
  shows "all_boxes (put_cell s c x) + owned (Some v) = all_boxes s + owned x"
proof -
  have "c < length (cells s)" "cells s ! c = Some v"
    using assms by (auto simp: cell_at_def split: if_splits)
  with sum_update [of c "cells s" owned x] show ?thesis
    by (simp add: all_boxes_def put_cell_def add.assoc add.left_commute)
qed

lemma typed_cell [simp]: "typed (put_cell s c x) v = typed s v"
  by (simp add: typed_def cong: json_type.case_cong)

fun well_kind :: "json_type \<Rightarrow> box \<Rightarrow> bool" where
  "well_kind T (Str_Box t) = (T = kStr)"
| "well_kind T (List_Box hs) = (T = kList)"
| "well_kind T (Dict_Box d) = (T = kDict \<and> distinct (map fst d))"

lemma typed_iff:
  "typed s v \<longleftrightarrow> (case box_ptr v of Inl e \<Rightarrow> False | Inr None \<Rightarrow> val_type v \<noteq> kInvalid
     | Inr (Some b) \<Rightarrow> (case box_at s b of None \<Rightarrow> False | Some x \<Rightarrow> well_kind (val_type v) x))"
proof -
  have "well_kind kStr x = (\<exists>t. x = Str_Box t)" "well_kind kList x = (\<exists>hs. x = List_Box hs)"
    "well_kind kDict x = (\<exists>d. x = Dict_Box d \<and> distinct (map fst d))" for x
    by (cases x; auto)+
  then show ?thesis
    by (auto simp: typed_def box_ptr_def split: json_type.split union_data.split option.split)
qed

lemma typed_owned: "typed s v \<Longrightarrow> b \<in># owned (Some v) \<Longrightarrow> \<exists>x. box_at s b = Some x"
  by (auto simp: typed_def owned_def box_ptr_def split: json_type.splits union_data.splits if_splits)

lemma typed_ptr: "typed s v \<Longrightarrow> \<exists>p. box_ptr v = Inr p"
  by (auto simp: typed_def box_ptr_def split: json_type.splits)

subsection \<open>Counts\<close>

lemma heap_inv_None [simp]: "heap_inv s (add_mset None H) B = heap_inv s H B"
  by (simp add: heap_inv_def)

text \<open>An object that is held can be given up.\<close>

lemma heap_inv_dec:
  assumes inv: "heap_inv s (add_mset (Some c) H) B" and v: "cell_at s c = Some v"
  shows "ref_cnt v \<noteq> 0"
    and "unat (ref_cnt v) = Suc (count (all_handles s + H) (Some c))"
    and "heap_inv (put_cell s c (Some (v\<lparr>ref_cnt := ref_cnt v - 1\<rparr>))) H
      (if ref_cnt v - 1 = 0 then B + owned (Some v) else B)"
proof -
  let ?w = "v\<lparr>ref_cnt := ref_cnt v - 1\<rparr>"
  let ?s' = "put_cell s c (Some ?w)"
  let ?n = "count (all_handles s + H) (Some c)"
  show cnt: "unat (ref_cnt v) = Suc ?n"
    using heap_invD(3) [OF inv v] by (simp add: balanced_def)
  then show nz: "ref_cnt v \<noteq> 0" by auto
  have dec: "unat (ref_cnt v - 1) = ?n"
    using cnt by (simp add: unat_minus_one [OF nz])
  have at: "cell_at ?s' d = (if d = c then Some ?w else cell_at s d)" for d using v by (simp add: cell_at_put)
  have boxes: "all_boxes ?s' + (if ref_cnt v - 1 = 0 then B + owned (Some v) else B) = all_boxes s + B"
  proof (cases "ref_cnt v - 1 = 0")
    case True
    then have "owned (Some ?w) = {#}" by (simp add: owned_def)
    with all_boxes_cell [OF v, of "Some ?w"] True show ?thesis by (simp add: add.left_commute add.commute)
  next
    case False
    then have "owned (Some ?w) = owned (Some v)" using nz by (simp add: owned_def box_ptr_def cong: json_type.case_cong)
    with all_boxes_cell [OF v, of "Some ?w"] False show ?thesis by simp
  qed
  show "heap_inv ?s' H (if ref_cnt v - 1 = 0 then B + owned (Some v) else B)"
  proof (rule heap_invI)
    fix d assume d: "Some d \<in># all_handles ?s' + H"
    then have "live s d" using heap_invD(1) [OF inv, of d] by simp
    moreover have "ref_cnt v - 1 \<noteq> 0" if "d = c"
    proof -
      have "?n \<noteq> 0" using d that by (metis all_handles_cell count_eq_zero_iff)
      then show ?thesis using dec by (metis unat_eq_zero)
    qed
    ultimately show "live ?s' d" by (auto simp: live_def at)
  next
    fix d u assume "cell_at ?s' d = Some u" "ref_cnt u \<noteq> 0"
    then show "typed ?s' u" using heap_invD(2) [OF inv, of d] heap_invD(2) [OF inv v nz]
      by (auto simp: at typed_def split: if_splits json_type.splits)
  next
    fix d u assume u: "cell_at ?s' d = Some u"
    show "balanced u (count (all_handles ?s' + H) (Some d))"
    proof (cases "d = c")
      case True
      then have "u = ?w" using u at by simp
      then show ?thesis using True dec by (simp add: balanced_def)
    next
      case False
      then show ?thesis using u heap_invD(3) [OF inv, of d u] at by simp
    qed
  next
    fix b show "count (all_boxes ?s' + (if ref_cnt v - 1 = 0 then B + owned (Some v) else B)) b \<le> 1"
      unfolding boxes by (rule heap_invD(4) [OF inv])
  next
    fix b assume "b \<in># (if ref_cnt v - 1 = 0 then B + owned (Some v) else B)"
    then show "box_at ?s' b \<noteq> None"
      using heap_invD(5) [OF inv, of b] typed_owned [OF heap_invD(2) [OF inv v nz], of b] by (auto split: if_splits)
  qed (use heap_invD(6-8) [OF inv] in auto)
qed

lemma heap_inv_inc:
  assumes inv: "heap_inv s H B" and v: "cell_at s c = Some v" and c: "Some c \<in># all_handles s + H"
    and room: "count (all_handles s + H) (Some c) + 1 < 2 ^ 16"
  shows "heap_inv (put_cell s c (Some (v\<lparr>ref_cnt := ref_cnt v + 1\<rparr>))) (add_mset (Some c) H) B"
    and "ref_cnt v \<noteq> 0" and "ref_cnt v + 1 \<noteq> 0"
proof -
  let ?w = "v\<lparr>ref_cnt := ref_cnt v + 1\<rparr>"
  let ?s' = "put_cell s c (Some ?w)"
  let ?n = "count (all_handles s + H) (Some c)"
  have pos: "?n \<noteq> 0" using c by (metis count_eq_zero_iff)
  have cnt: "unat (ref_cnt v) = ?n" using heap_invD(3) [OF inv v] pos unfolding balanced_def by blast
  show nz: "ref_cnt v \<noteq> 0" using cnt pos by (metis unat_0)
  have inc: "unat (ref_cnt v + 1) = Suc ?n"
    using room cnt by (simp add: unat_word_ariths)
  then show nz': "ref_cnt v + 1 \<noteq> 0" by auto
  have at: "cell_at ?s' d = (if d = c then Some ?w else cell_at s d)" for d using v by (simp add: cell_at_put)
  have "owned (Some ?w) = owned (Some v)" using nz nz' by (simp add: owned_def box_ptr_def cong: json_type.case_cong)
  with all_boxes_cell [OF v, of "Some ?w"] have boxes: "all_boxes ?s' = all_boxes s" by simp
  show "heap_inv ?s' (add_mset (Some c) H) B"
  proof (rule heap_invI)
    fix d assume d: "Some d \<in># all_handles ?s' + add_mset (Some c) H"
    then have "Some d \<in># all_handles s + H" using c by auto
    then show "live ?s' d" using heap_invD(1) [OF inv, of d] nz' by (auto simp: live_def at)
  next
    fix d u assume "cell_at ?s' d = Some u" "ref_cnt u \<noteq> 0"
    then show "typed ?s' u" using heap_invD(2) [OF inv, of d] heap_invD(2) [OF inv v nz]
      by (auto simp: at typed_def split: if_splits json_type.splits)
  next
    fix d u assume "cell_at ?s' d = Some u"
    then show "balanced u (count (all_handles ?s' + add_mset (Some c) H) (Some d))"
      using heap_invD(3) [OF inv, of d u] inc by (auto simp: at balanced_def split: if_splits)
  qed (use heap_invD(4-8) [OF inv] boxes in auto)
qed

subsection \<open>Cells\<close>

text \<open>A cell with a count of 0 is deleted, or used again with a count of 1.\<close>

lemma heap_inv_dead:
  assumes inv: "heap_inv s H B" and v: "cell_at s c = Some v" "ref_cnt v = 0"
  shows "Some c \<notin># all_handles s + H"
  using heap_invD(1) [OF inv, of c] v by (auto simp: live_def)

lemma heap_inv_delete:
  assumes inv: "heap_inv s H B" and v: "cell_at s c = Some v" "ref_cnt v = 0"
  shows "heap_inv (put_cell s c None) H B"
proof -
  have at: "cell_at (put_cell s c None) d = (if d = c then None else cell_at s d)" for d using v by (simp add: cell_at_put)
  have boxes: "all_boxes (put_cell s c None) = all_boxes s"
    using all_boxes_cell [OF v(1), of None] v(2) by (simp add: owned_def)
  show ?thesis
  proof (rule heap_invI)
    fix d assume "Some d \<in># all_handles (put_cell s c None) + H"
    then show "live (put_cell s c None) d"
      using heap_invD(1) [OF inv, of d] heap_inv_dead [OF inv v] by (auto simp: live_def at)
  qed (use heap_invD(2-8) [OF inv] boxes at in \<open>auto split: if_splits\<close>)
qed

lemma heap_inv_revive:
  assumes inv: "heap_inv s H (B + owned (Some w))" and v: "cell_at s c = Some v" "ref_cnt v = 0"
    and w: "typed s w" "ref_cnt w = 1"
  shows "heap_inv (put_cell s c (Some w)) (add_mset (Some c) H) B"
proof -
  have at: "cell_at (put_cell s c (Some w)) d = (if d = c then Some w else cell_at s d)" for d using v by (simp add: cell_at_put)
  have boxes: "all_boxes (put_cell s c (Some w)) = all_boxes s + owned (Some w)"
    using all_boxes_cell [OF v(1), of "Some w"] v(2) by (simp add: owned_def)
  have zero: "count (all_handles s) (Some c) = 0" "count H (Some c) = 0"
    using heap_inv_dead [OF inv v] by (simp_all add: count_eq_zero_iff)
  show ?thesis
  proof (rule heap_invI)
    fix d assume "Some d \<in># all_handles (put_cell s c (Some w)) + add_mset (Some c) H"
    then show "live (put_cell s c (Some w)) d"
      using heap_invD(1) [OF inv, of d] w(2) by (auto simp: live_def at)
  next
    fix d u assume "cell_at (put_cell s c (Some w)) d = Some u"
    then show "balanced u (count (all_handles (put_cell s c (Some w)) + add_mset (Some c) H) (Some d))"
      using heap_invD(3) [OF inv, of d u] zero w(2) by (auto simp: at balanced_def split: if_splits)
  next
    fix b show "count (all_boxes (put_cell s c (Some w)) + B) b \<le> 1"
      using heap_invD(4) [OF inv, of b] by (simp add: boxes ac_simps)
  qed (use heap_invD(2,5-8) [OF inv] w at in \<open>auto split: if_splits\<close>)
qed

lemma cell_at_new: "cell_at (s\<lparr>cells := cells s @ [x]\<rparr>) d = (if d = length (cells s) then x else cell_at s d)"
  by (auto simp: cell_at_def nth_append)

lemma heap_inv_new_cell:
  assumes inv: "heap_inv s H (B + owned (Some w))" and w: "typed s w" "ref_cnt w = 1"
  shows "heap_inv (s\<lparr>cells := cells s @ [Some w]\<rparr>) (add_mset (Some (length (cells s))) H) B"
proof -
  let ?s' = "s\<lparr>cells := cells s @ [Some w]\<rparr>" and ?c = "length (cells s)"
  have handles: "all_handles ?s' = all_handles s" by (simp add: all_handles_def)
  have boxes: "all_boxes ?s' = all_boxes s + owned (Some w)" by (simp add: all_boxes_def)
  have ty: "typed ?s' u = typed s u" for u by (simp add: typed_def box_at_def cong: json_type.case_cong)
  have none: "cell_at s ?c = None" by (simp add: cell_at_def)
  then have zero: "count (all_handles s) (Some ?c) = 0" "count H (Some ?c) = 0"
    using heap_invD(1) [OF inv, of ?c] by (auto simp: live_def count_eq_zero_iff)
  have box: "box_at ?s' = box_at s" by (simp add: fun_eq_iff box_at_def)
  show ?thesis
  proof (rule heap_invI)
    fix d assume "Some d \<in># all_handles ?s' + add_mset (Some ?c) H"
    then show "live ?s' d"
      using heap_invD(1) [OF inv, of d] w(2) none by (auto simp: live_def handles cell_at_new)
  next
    fix d u assume "cell_at ?s' d = Some u"
    then show "balanced u (count (all_handles ?s' + add_mset (Some ?c) H) (Some d))"
      using heap_invD(3) [OF inv, of d u] zero w(2) by (auto simp: handles cell_at_new balanced_def split: if_splits)
  next
    fix b show "count (all_boxes ?s' + B) b \<le> 1"
      using heap_invD(4) [OF inv, of b] by (simp add: boxes ac_simps)
  next
    fix d u assume "cell_at ?s' d = Some u" "ref_cnt u \<noteq> 0"
    then show "typed ?s' u" using heap_invD(2) [OF inv, of d u] w(1) by (simp add: cell_at_new ty split: if_splits)
  qed (use heap_invD(5-8) [OF inv] box in auto)
qed

subsection \<open>Boxes\<close>

fun same_kind :: "box \<Rightarrow> box \<Rightarrow> bool" where
  "same_kind (Str_Box t) y = (\<exists>t'. y = Str_Box t')"
| "same_kind (List_Box hs) y = (\<exists>hs'. y = List_Box hs')"
| "same_kind (Dict_Box d) y = (\<exists>d'. y = Dict_Box d' \<and> distinct (map fst d'))"

fun kind_ok :: "json_type \<Rightarrow> box \<Rightarrow> bool" where
  "kind_ok T (Str_Box t) = (T = kStr)"
| "kind_ok T (List_Box hs) = (T = kList)"
| "kind_ok T (Dict_Box d) = (T = kDict)"

lemma cell_at_simps [simp]: "cell_at (s\<lparr>boxes := bs\<rparr>) = cell_at s" "cell_at (s\<lparr>json_vars := vs\<rparr>) = cell_at s"
  "cell_at (s\<lparr>null_val := n\<rparr>) = cell_at s" "box_at (s\<lparr>json_vars := vs\<rparr>) = box_at s"
  "box_at (s\<lparr>null_val := n\<rparr>) = box_at s" "box_at (s\<lparr>cells := cs\<rparr>) = box_at s"
  "cell_at (set_pool T ps s) = cell_at s" "box_at (set_pool T ps s) = box_at s"
  "cell_at (FreeBox T b s) = cell_at s" "box_at (FreeBox T b s) = box_at s"
  by (auto simp: cell_at_def box_at_def fun_eq_iff set_pool_def FreeBox_def split: json_type.split)

lemma live_simps [simp]: "live (put_box s b x) = live s" "live (s\<lparr>boxes := bs\<rparr>) = live s" "live (s\<lparr>json_vars := vs\<rparr>) = live s"
  "live (s\<lparr>null_val := n\<rparr>) = live s" "live (set_pool T ps s) = live s" "live (FreeBox T b s) = live s"
  by (simp_all add: live_def fun_eq_iff)

lemma typed_simps [simp]: "typed (s\<lparr>json_vars := vs\<rparr>) = typed s" "typed (s\<lparr>null_val := n\<rparr>) = typed s"
  "typed (s\<lparr>cells := cs\<rparr>) = typed s" "typed (set_pool T bs s) = typed s" "typed (FreeBox T b s) = typed s"
  by (simp_all add: fun_eq_iff typed_def cong: json_type.case_cong)

lemma typed_kind:
  "typed s v \<Longrightarrow> ref_cnt v \<noteq> 0 \<Longrightarrow> b \<in># owned (Some v) \<Longrightarrow> \<exists>x. box_at s b = Some x \<and> kind_ok (val_type v) x"
  by (auto simp: typed_def owned_def box_ptr_def split: json_type.splits union_data.splits if_splits)

lemma owned_in_boxes:
  assumes "cell_at s c = Some v" and "b \<in># owned (Some v)"
  shows "b \<in># all_boxes s"
proof -
  have "Some v \<in> set (cells s)" using assms(1) by (auto simp: cell_at_def split: if_splits) (metis nth_mem)
  with assms(2) show ?thesis by (auto simp: all_boxes_def)
qed

lemma all_boxes_at:
  assumes inv: "heap_inv s H B" and "b \<in># all_boxes s + B"
  shows "box_at s b \<noteq> None"
proof -
  from assms(2) consider x where "x \<in> set (cells s)" "b \<in># owned x" | "b \<in> set (str_pool s)" | "b \<in> set (list_pool s)"
    | "b \<in> set (dict_pool s)" | "b \<in># B"
    by (auto simp: all_boxes_def)
  then show ?thesis
  proof cases
    case 1
    then obtain v where v: "x = Some v" "ref_cnt v \<noteq> 0" by (auto simp: owned_def split: option.splits if_splits)
    with 1 obtain c where "cell_at s c = Some v" by (metis cell_at_def in_set_conv_nth)
    from typed_kind [OF heap_invD(2) [OF inv this v(2)] v(2)] 1 v show ?thesis by auto
  next
    case 2 then show ?thesis using heap_invD(6) [OF inv, of b] by auto
  next
    case 3 then show ?thesis using heap_invD(7) [OF inv, of b] by auto
  next
    case 4 then show ?thesis using heap_invD(8) [OF inv, of b] by auto
  next
    case 5 then show ?thesis by (rule heap_invD(5) [OF inv])
  qed
qed

lemma typed_other:
  assumes "typed s v" "ref_cnt v \<noteq> 0" "box_at s b \<noteq> None" "b \<notin># owned (Some v)"
  shows "typed (put_box s b x) v"
  using assms by (auto simp: typed_def owned_def box_ptr_def box_at_put split: json_type.splits union_data.splits)

lemma same_kind_well: "well_kind T x \<Longrightarrow> same_kind x y \<Longrightarrow> well_kind T y"
  by (cases x) auto

lemma heap_inv_set_box:
  assumes inv: "heap_inv s H B" and x: "box_at s b = Some x" and y: "same_kind x y"
    and H: "H + mset (box_handles x) = H' + mset (box_handles y)"
  shows "heap_inv (put_box s b (Some y)) H' B"
proof -
  let ?s' = "put_box s b (Some y)"
  have "(all_handles s + H) + mset (box_handles x) = (all_handles s + mset (box_handles y)) + H'"
    using H by (simp only: add.assoc) (simp only: ac_simps)
  also have "\<dots> = (all_handles ?s' + mset (box_handles x)) + H'"
    using all_handles_box [OF x, of "Some y"] by (simp add: opt_handles_def)
  finally have "(all_handles ?s' + H') + mset (box_handles x) = (all_handles s + H) + mset (box_handles x)"
    by (simp only: ac_simps)
  then have same: "all_handles ?s' + H' = all_handles s + H" by simp
  have at: "box_at ?s' b' = (if b' = b then Some y else box_at s b')" for b' using x by (simp add: box_at_put)
  have ty: "typed ?s' v" if "typed s v" for v
    using that x y by (auto simp: typed_iff at split: sum.splits option.splits intro: same_kind_well)
  show ?thesis
  proof (rule heap_invI)
    fix b' assume "b' \<in> set (str_pool ?s')"
    with heap_invD(6) [OF inv, of b'] x y show "\<exists>t. box_at ?s' b' = Some (Str_Box t)" by (auto simp: at)
  next
    fix b' assume "b' \<in> set (list_pool ?s')"
    with heap_invD(7) [OF inv, of b'] x y show "\<exists>hs. box_at ?s' b' = Some (List_Box hs)" by (auto simp: at)
  next
    fix b' assume "b' \<in> set (dict_pool ?s')"
    with heap_invD(8) [OF inv, of b'] x y show "\<exists>d. box_at ?s' b' = Some (Dict_Box d)" by (auto simp: at)
  next
    fix b' assume "b' \<in># B" then show "box_at ?s' b' \<noteq> None" using heap_invD(5) [OF inv] by (auto simp: at)
  next
    fix c v assume "cell_at ?s' c = Some v" "ref_cnt v \<noteq> 0"
    then show "typed ?s' v" using heap_invD(2) [OF inv, of c v] ty by simp
  qed (use heap_invD(1,3,4) [OF inv] same in auto)
qed

lemma heap_inv_delete_box:
  assumes inv: "heap_inv s H (add_mset b B)" and x: "box_at s b = Some x"
  shows "heap_inv (put_box s b None) (H + mset (box_handles x)) B"
proof -
  let ?s' = "put_box s b None"
  have same: "all_handles ?s' + (H + mset (box_handles x)) = all_handles s + H"
    using all_handles_box [OF x, of None] by (simp add: opt_handles_def ac_simps)
  have at: "box_at ?s' b' = (if b' = b then None else box_at s b')" for b' using x by (simp add: box_at_put)
  have no: "b \<notin># all_boxes s" "b \<notin># B"
    using heap_invD(4) [OF inv, of b] by (auto simp: count_eq_zero_iff [symmetric])
  then have pool: "b \<notin> set (str_pool s)" "b \<notin> set (list_pool s)" "b \<notin> set (dict_pool s)" by (auto simp: all_boxes_def)
  show ?thesis
  proof (rule heap_invI)
    fix c v assume v: "cell_at ?s' c = Some v" "ref_cnt v \<noteq> 0"
    then have "b \<notin># owned (Some v)" using owned_in_boxes no(1) by auto
    with v show "typed ?s' v" using heap_invD(2) [OF inv, of c v] x by (intro typed_other) auto
  next
    fix b' show "count (all_boxes ?s' + B) b' \<le> 1" using heap_invD(4) [OF inv, of b'] by (auto split: if_splits)
  next
    fix b' assume "b' \<in># B" then show "box_at ?s' b' \<noteq> None" using heap_invD(5) [OF inv, of b'] no by (auto simp: at)
  next
    fix c assume "Some c \<in># all_handles ?s' + (H + mset (box_handles x))"
    then show "live ?s' c" using heap_invD(1) [OF inv, of c] by (simp only: same live_simps)
  next
    fix c v assume "cell_at ?s' c = Some v"
    then show "balanced v (count (all_handles ?s' + (H + mset (box_handles x))) (Some c))"
      unfolding same using heap_invD(3) [OF inv, of c v] by simp
  next
    fix b' assume "b' \<in> set (str_pool ?s')"
    then show "\<exists>t. box_at ?s' b' = Some (Str_Box t)" using heap_invD(6) [OF inv, of b'] pool by (auto simp: at)
  next
    fix b' assume "b' \<in> set (list_pool ?s')"
    then show "\<exists>t. box_at ?s' b' = Some (List_Box t)" using heap_invD(7) [OF inv, of b'] pool by (auto simp: at)
  next
    fix b' assume "b' \<in> set (dict_pool ?s')"
    then show "\<exists>t. box_at ?s' b' = Some (Dict_Box t)" using heap_invD(8) [OF inv, of b'] pool by (auto simp: at)
  qed
qed

lemma box_at_new: "box_at (s\<lparr>boxes := boxes s @ [x]\<rparr>) b = (if b = length (boxes s) then x else box_at s b)"
  by (auto simp: box_at_def nth_append)

lemma heap_inv_new_box:
  assumes inv: "heap_inv s H B" and x: "box_handles x = []"
  shows "heap_inv (s\<lparr>boxes := boxes s @ [Some x]\<rparr>) H (add_mset (length (boxes s)) B)"
proof -
  let ?s' = "s\<lparr>boxes := boxes s @ [Some x]\<rparr>" and ?b = "length (boxes s)"
  have none: "box_at s ?b = None" by (simp add: box_at_def)
  with all_boxes_at [OF inv, of ?b] have no: "?b \<notin># all_boxes s + B" by blast
  have handles: "all_handles ?s' = all_handles s" using x by (simp add: all_handles_def opt_handles_def)
  have at: "box_at ?s' b = Some y" if "box_at s b = Some y" for b y using that none by (auto simp: box_at_new)
  have boxes: "all_boxes ?s' = all_boxes s" by (simp add: all_boxes_def)
  show ?thesis
  proof (rule heap_invI)
    fix c v assume "cell_at ?s' c = Some v" "ref_cnt v \<noteq> 0"
    then have "typed s v" using heap_invD(2) [OF inv, of c v] by simp
    then show "typed ?s' v" using at by (auto simp: typed_def split: json_type.splits)
  next
    fix b show "count (all_boxes ?s' + add_mset ?b B) b \<le> 1"
    proof (cases "b = ?b")
      case True
      then show ?thesis using no boxes by (simp add: not_in_iff)
    qed (use heap_invD(4) [OF inv, of b] boxes in simp)
  next
    fix b assume "b \<in># add_mset ?b B"
    then show "box_at ?s' b \<noteq> None" using heap_invD(5) [OF inv, of b] by (auto simp: box_at_new)
  next
    fix b assume "b \<in> set (str_pool ?s')" then show "\<exists>t. box_at ?s' b = Some (Str_Box t)" using heap_invD(6) [OF inv, of b] at by auto
  next
    fix b assume "b \<in> set (list_pool ?s')" then show "\<exists>t. box_at ?s' b = Some (List_Box t)" using heap_invD(7) [OF inv, of b] at by auto
  next
    fix b assume "b \<in> set (dict_pool ?s')" then show "\<exists>t. box_at ?s' b = Some (Dict_Box t)" using heap_invD(8) [OF inv, of b] at by auto
  qed (use heap_invD(1,3) [OF inv] handles in auto)
qed

lemma pool_simps [simp]:
  "all_handles (set_pool T bs s) = all_handles s" "all_handles (FreeBox T b s) = all_handles s"
  "json_vars (set_pool T bs s) = json_vars s" "null_val (set_pool T bs s) = null_val s"
  "json_vars (FreeBox T b s) = json_vars s" "null_val (FreeBox T b s) = null_val s"
  by (simp_all add: set_pool_def FreeBox_def all_handles_def split: json_type.split)

lemma pools_set [simp]:
  "str_pool (set_pool T ps s) = (if T = kStr then ps else str_pool s)"
  "list_pool (set_pool T ps s) = (if T = kList then ps else list_pool s)"
  "dict_pool (set_pool T ps s) = (if T \<noteq> kStr \<and> T \<noteq> kList then ps else dict_pool s)"
  "str_pool (FreeBox T b s) = (if T = kStr then b # str_pool s else str_pool s)"
  "list_pool (FreeBox T b s) = (if T = kList then b # list_pool s else list_pool s)"
  "dict_pool (FreeBox T b s) = (if T \<noteq> kStr \<and> T \<noteq> kList then b # dict_pool s else dict_pool s)"
  by (cases T; simp add: set_pool_def FreeBox_def pool_of_def)+

lemma kind_box: "kind_ok T x \<Longrightarrow> (T = kStr \<and> (\<exists>t. x = Str_Box t)) \<or> (T = kList \<and> (\<exists>hs. x = List_Box hs)) \<or> (T = kDict \<and> (\<exists>d. x = Dict_Box d))"
  by (cases x) auto

lemma heap_inv_free:
  assumes inv: "heap_inv s H (add_mset b B)" and x: "box_at s b = Some x" "kind_ok T x"
  shows "heap_inv (FreeBox T b s) H B"
proof -
  have boxes: "all_boxes (FreeBox T b s) = add_mset b (all_boxes s)"
    using kind_box [OF x(2)] by (auto simp: all_boxes_def FreeBox_def set_pool_def pool_of_def)
  show ?thesis
  proof (rule heap_invI)
    fix b' show "count (all_boxes (FreeBox T b s) + B) b' \<le> 1"
      using heap_invD(4) [OF inv, of b'] by (simp add: boxes)
  next
    fix b' assume "b' \<in> set (str_pool (FreeBox T b s))"
    then show "\<exists>t. box_at (FreeBox T b s) b' = Some (Str_Box t)"
      using heap_invD(6) [OF inv, of b'] kind_box [OF x(2)] x(1) by (auto split: if_splits)
  next
    fix b' assume "b' \<in> set (list_pool (FreeBox T b s))"
    then show "\<exists>t. box_at (FreeBox T b s) b' = Some (List_Box t)"
      using heap_invD(7) [OF inv, of b'] kind_box [OF x(2)] x(1) by (auto split: if_splits)
  next
    fix b' assume "b' \<in> set (dict_pool (FreeBox T b s))"
    then show "\<exists>t. box_at (FreeBox T b s) b' = Some (Dict_Box t)"
      using heap_invD(8) [OF inv, of b'] kind_box [OF x(2)] x(1) by (auto split: if_splits)
  qed (use heap_invD(1,2,3,5) [OF inv] in auto)
qed

lemma heap_inv_take:
  assumes inv: "heap_inv s H B" and pool: "pool_of T s = b # bs" and T: "T = kStr \<or> T = kList \<or> T = kDict"
  shows "heap_inv (set_pool T bs s) H (add_mset b B)" and "\<exists>x. box_at s b = Some x \<and> kind_ok T x"
proof -
  show x: "\<exists>x. box_at s b = Some x \<and> kind_ok T x"
    using T pool heap_invD(6-8) [OF inv, of b] by (auto simp: pool_of_def)
  have boxes: "all_boxes s = add_mset b (all_boxes (set_pool T bs s))"
    using T pool by (auto simp: all_boxes_def set_pool_def pool_of_def)
  show "heap_inv (set_pool T bs s) H (add_mset b B)"
  proof (rule heap_invI)
    fix b' show "count (all_boxes (set_pool T bs s) + add_mset b B) b' \<le> 1"
      using heap_invD(4) [OF inv, of b'] by (simp add: boxes)
  next
    fix b' assume "b' \<in># add_mset b B" then show "box_at (set_pool T bs s) b' \<noteq> None"
      using heap_invD(5) [OF inv, of b'] x by auto
  next
    fix b' assume "b' \<in> set (str_pool (set_pool T bs s))"
    then show "\<exists>t. box_at (set_pool T bs s) b' = Some (Str_Box t)"
      using heap_invD(6) [OF inv, of b'] pool by (auto simp: pool_of_def split: if_splits)
  next
    fix b' assume "b' \<in> set (list_pool (set_pool T bs s))"
    then show "\<exists>t. box_at (set_pool T bs s) b' = Some (List_Box t)"
      using heap_invD(7) [OF inv, of b'] pool by (auto simp: pool_of_def split: if_splits)
  next
    fix b' assume "b' \<in> set (dict_pool (set_pool T bs s))"
    then show "\<exists>t. box_at (set_pool T bs s) b' = Some (Dict_Box t)"
      using heap_invD(8) [OF inv, of b'] pool T by (auto simp: pool_of_def split: if_splits)
  qed (use heap_invD(1-3) [OF inv] in auto)
qed

subsection \<open>Variables\<close>

lemma heap_inv_vars:
  assumes inv: "heap_inv s H B" and H: "mset (map snd vs) + H' = mset (map snd (json_vars s)) + H"
  shows "heap_inv (s\<lparr>json_vars := vs\<rparr>) H' B"
proof -
  have "all_handles (s\<lparr>json_vars := vs\<rparr>) + H' = all_handles s + H"
    using H by (simp add: all_handles_def ac_simps)
  moreover have "all_boxes (s\<lparr>json_vars := vs\<rparr>) = all_boxes s" by (simp add: all_boxes_def)
  ultimately show ?thesis using inv by (simp add: heap_inv_def)
qed

lemma heap_inv_null:
  assumes inv: "heap_inv s (add_mset (Some c) H) B" and n: "null_val s = None"
  shows "heap_inv (s\<lparr>null_val := Some c\<rparr>) H B"
proof -
  have "all_handles (s\<lparr>null_val := Some c\<rparr>) + H = all_handles s + add_mset (Some c) H"
    using n by (simp add: all_handles_def)
  moreover have "all_boxes (s\<lparr>null_val := Some c\<rparr>) = all_boxes s" by (simp add: all_boxes_def)
  ultimately show ?thesis using inv by (simp add: heap_inv_def)
qed

end
