(* ===== verification/Json_Ops.thy ===== *)
theory Json_Ops
  imports Json_Graph
begin

text \<open>
  Every function of \<open>Json_Cells\<close> keeps the invariant of \<open>Json_Graph\<close>, and what it leaves alone:
  cells that are live afterwards were live before with the same contents, but for the ones named.
\<close>

section \<open>Frames\<close>

lemma put_cell_len [simp]: "length (cells (put_cell s c x)) = length (cells s)"
  by (simp add: put_cell_def)

lemma set_pool_cells [simp]: "cells (set_pool T ps s) = cells s" "cells (FreeBox T b s) = cells s"
  by (simp_all add: set_pool_def FreeBox_def split: json_type.split)

definition kept :: "'d json_heap \<Rightarrow> 'd json_heap \<Rightarrow> nat \<Rightarrow> bool" where
  "kept s s' c \<longleftrightarrow> (\<exists>v v'. cell_at s c = Some v \<and> cell_at s' c = Some v' \<and> ref_cnt v \<noteq> 0 \<and> ref_cnt v' \<noteq> 0
     \<and> val_type v' = val_type v \<and> val_data v' = val_data v
     \<and> (\<forall>b. box_ptr v = Inr (Some b) \<longrightarrow> box_at s' b = box_at s b))"

text \<open>
  The cells \<open>N\<close> may be new or change, the objects \<open>X\<close> may be added, the boxes \<open>B\<close> stay as they are.
\<close>

definition frame :: "'d json_heap \<Rightarrow> 'd json_heap \<Rightarrow> nat set \<Rightarrow> nat option multiset \<Rightarrow> nat multiset \<Rightarrow> bool" where
  "frame s s' N X B \<longleftrightarrow>
     json_vars s' = json_vars s \<and> null_val s' = null_val s \<and> length (cells s) \<le> length (cells s')
     \<and> (\<forall>c. live s' c \<longrightarrow> c \<notin> N \<longrightarrow> kept s s' c)
     \<and> (\<forall>c v. c \<notin> N \<longrightarrow> cell_at s c = Some v \<longrightarrow> ref_cnt v = 0 \<longrightarrow> cell_at s' c = Some v)
     \<and> (\<forall>b \<in># B. box_at s' b = box_at s b)
     \<and> all_handles s' \<subseteq># all_handles s + X"

lemma frameI:
  assumes "json_vars s' = json_vars s" and "null_val s' = null_val s"
    and "\<And>c. live s' c \<Longrightarrow> c \<notin> N \<Longrightarrow> kept s s' c"
    and "\<And>c v. c \<notin> N \<Longrightarrow> cell_at s c = Some v \<Longrightarrow> ref_cnt v = 0 \<Longrightarrow> cell_at s' c = Some v"
    and "\<And>b. b \<in># B \<Longrightarrow> box_at s' b = box_at s b"
    and "all_handles s' \<subseteq># all_handles s + X"
    and "length (cells s) \<le> length (cells s')"
  shows "frame s s' N X B"
  using assms unfolding frame_def by blast

lemma frameD:
  assumes "frame s s' N X B"
  shows "json_vars s' = json_vars s" and "null_val s' = null_val s"
    and "live s' c \<Longrightarrow> c \<notin> N \<Longrightarrow> kept s s' c"
    and "c \<notin> N \<Longrightarrow> cell_at s c = Some v \<Longrightarrow> ref_cnt v = 0 \<Longrightarrow> cell_at s' c = Some v"
    and "b \<in># B \<Longrightarrow> box_at s' b = box_at s b"
    and "all_handles s' \<subseteq># all_handles s + X"
    and "length (cells s) \<le> length (cells s')"
  using assms unfolding frame_def by blast+

lemma box_ptr_cong: "val_type v' = val_type v \<Longrightarrow> val_data v' = val_data v \<Longrightarrow> box_ptr v' = box_ptr v"
  by (simp add: box_ptr_def cong: json_type.case_cong union_data.case_cong)

lemma kept_live: "kept s s' c \<Longrightarrow> live s c \<and> live s' c"
  by (auto simp: kept_def live_def)

lemma kept_refl: "live s c \<Longrightarrow> kept s s c"
  by (auto simp: kept_def live_def)

lemma kept_trans:
  assumes "kept s s1 c" and "kept s1 s2 c"
  shows "kept s s2 c"
proof -
  obtain v v1 where v: "cell_at s c = Some v" "cell_at s1 c = Some v1" "ref_cnt v \<noteq> 0" "val_type v1 = val_type v"
    "val_data v1 = val_data v" "\<And>b. box_ptr v = Inr (Some b) \<Longrightarrow> box_at s1 b = box_at s b"
    using assms(1) unfolding kept_def by blast
  obtain v2 where v2: "cell_at s2 c = Some v2" "ref_cnt v2 \<noteq> 0" "val_type v2 = val_type v1"
    "val_data v2 = val_data v1" "\<And>b. box_ptr v1 = Inr (Some b) \<Longrightarrow> box_at s2 b = box_at s1 b"
    using assms(2) v(2) unfolding kept_def by auto
  show ?thesis unfolding kept_def
    by (intro exI [of _ v] exI [of _ v2]) (use v v2 box_ptr_cong [OF v(4,5)] in auto)
qed

lemma frame_refl: "frame s s N X B"
  by (rule frameI) (simp_all add: kept_refl)

lemma frame_trans:
  assumes a: "frame s s1 N X B" and b: "frame s1 s2 N' X' B'" and B: "B \<subseteq># B'"
  shows "frame s s2 (N \<union> N') (X + X') B"
proof (rule frameI)
  fix c assume c: "live s2 c" "c \<notin> N \<union> N'"
  then have "kept s1 s2 c" using frameD(3) [OF b] by simp
  moreover from this have "kept s s1 c" using frameD(3) [OF a] kept_live c(2) by blast
  ultimately show "kept s s2 c" by (rule kept_trans [rotated])
next
  fix c v assume "c \<notin> N \<union> N'" "cell_at s c = Some v" "ref_cnt v = 0"
  then show "cell_at s2 c = Some v" using frameD(4) [OF a] frameD(4) [OF b] by auto
next
  fix d assume "d \<in># B"
  then show "box_at s2 d = box_at s d" using frameD(5) [OF a] frameD(5) [OF b] B mset_subset_eqD by metis
next
  have "all_handles s2 \<subseteq># all_handles s1 + X'" by (rule frameD(6) [OF b])
  also have "\<dots> \<subseteq># (all_handles s + X) + X'" using frameD(6) [OF a] by simp
  finally show "all_handles s2 \<subseteq># all_handles s + (X + X')" by (simp only: add.assoc)
qed (use frameD(1,2,7) [OF a] frameD(1,2,7) [OF b] in simp_all)

lemma frame_mono: "frame s s' N X B \<Longrightarrow> N \<subseteq> N' \<Longrightarrow> X \<subseteq># X' \<Longrightarrow> B' \<subseteq># B \<Longrightarrow> frame s s' N' X' B'"
proof (rule frameI)
  assume f: "frame s s' N X B" and le: "N \<subseteq> N'" "X \<subseteq># X'" "B' \<subseteq># B"
  show "json_vars s' = json_vars s" "null_val s' = null_val s" "length (cells s) \<le> length (cells s')" by (rule frameD [OF f])+
  show "kept s s' c" if "live s' c" "c \<notin> N'" for c using frameD(3) [OF f] that le(1) by blast
  show "cell_at s' c = Some v" if "c \<notin> N'" "cell_at s c = Some v" "ref_cnt v = 0" for c v
    using frameD(4) [OF f] that le(1) by blast
  show "box_at s' b = box_at s b" if "b \<in># B'" for b
    using frameD(5) [OF f, of b] mset_subset_eqD [OF le(3) that] by simp
  have "all_handles s + X \<subseteq># all_handles s + X'" using le(2) by simp
  with frameD(6) [OF f] show "all_handles s' \<subseteq># all_handles s + X'" by (rule subset_mset.order_trans)
qed

section \<open>Frames of single writes\<close>

lemma frame_cell:
  assumes "cell_at s c \<noteq> None"
  shows "frame s (put_cell s c x) {c} {#} B"
  by (rule frameI) (use assms in \<open>auto simp: cell_at_put live_def kept_def\<close>)

lemma frame_count:
  assumes "cell_at s c = Some v" "ref_cnt v \<noteq> 0" "r \<noteq> 0"
  shows "frame s (put_cell s c (Some (v\<lparr>ref_cnt := r\<rparr>))) {} {#} B"
  by (rule frameI) (use assms in \<open>auto simp: cell_at_put live_def kept_def\<close>)

lemma frame_gone:
  assumes "cell_at s c = Some v" "ref_cnt v \<noteq> 0"
  shows "frame s (put_cell s c None) {} {#} B"
  by (rule frameI) (use assms in \<open>auto simp: cell_at_put live_def kept_def\<close>)

lemma frame_box:
  assumes inv: "heap_inv s H (add_mset b B)"
  shows "frame s (put_box s b y) {} (mset (opt_handles y)) B"
proof (rule frameI)
  obtain x where x: "box_at s b = Some x" using heap_invD(5) [OF inv, of b] by auto
  have no: "b \<notin># all_boxes s" "b \<notin># B"
    using heap_invD(4) [OF inv, of b] by (auto simp: count_eq_zero_iff [symmetric])
  show "kept s (put_box s b y) c" if l: "live (put_box s b y) c" for c
  proof -
    obtain v where v: "cell_at s c = Some v" "ref_cnt v \<noteq> 0" using l by (auto simp: live_def)
    have "b' \<noteq> b" if "box_ptr v = Inr (Some b')" for b'
      using owned_in_boxes [OF v(1), of b'] that v(2) no(1) by (auto simp: owned_def)
    then show ?thesis unfolding kept_def using v x by (intro exI [of _ v]) (auto simp: box_at_put)
  qed
  show "box_at (put_box s b y) b' = box_at s b'" if "b' \<in># B" for b'
    using that no x by (auto simp: box_at_put)
  show "all_handles (put_box s b y) \<subseteq># all_handles s + mset (opt_handles y)"
    using all_handles_box [OF x, of y] by (metis mset_subset_eq_add_left)
qed simp_all

lemma frame_pool: "frame s (set_pool T ps s) {} {#} B" "frame s (FreeBox T b s) {} {#} B"
  by (rule frameI; auto simp: kept_def live_def)+

text \<open>A cell that is not live any more need not be named.\<close>

lemma frame_less:
  assumes f: "frame s s' (insert c N) X B" and c: "live s c" "\<not> live s' c"
  shows "frame s s' N X B"
proof (rule frameI)
  show "kept s s' d" if "live s' d" "d \<notin> N" for d using frameD(3) [OF f] that c(2) by blast
  show "cell_at s' d = Some v" if "d \<notin> N" "cell_at s d = Some v" "ref_cnt v = 0" for d v
  proof -
    have "d \<noteq> c" using c(1) that(2,3) by (auto simp: live_def)
    then show ?thesis using frameD(4) [OF f, of d v] that by simp
  qed
qed (rule frameD [OF f]; assumption)+

section \<open>Destruction\<close>

lemma put_cell_twice [simp]: "put_cell (put_cell s c x) c y = put_cell s c y"
  by (simp add: put_cell_def)

lemma destroy_step:
  assumes inv: "heap_inv s (add_mset (Some c) H) B" and v: "cell_at s c = Some v"
  shows "ref_cnt v - 1 \<noteq> 0 \<Longrightarrow> heap_inv (put_cell s c (Some (v\<lparr>ref_cnt := ref_cnt v - 1\<rparr>))) H B"
    and "ref_cnt v - 1 = 0 \<Longrightarrow> box_ptr v = Inr None \<Longrightarrow> heap_inv (put_cell s c None) H B"
    and "ref_cnt v - 1 = 0 \<Longrightarrow> box_ptr v = Inr (Some b) \<Longrightarrow> box_at s b = Some x \<Longrightarrow>
      heap_inv (put_cell (put_box s b None) c None) (H + mset (box_handles x)) B
      \<and> frame s (put_cell (put_box s b None) c None) {} {#} B"
proof -
  note d = heap_inv_dec [OF inv v]
  from d(3) show "heap_inv (put_cell s c (Some (v\<lparr>ref_cnt := ref_cnt v - 1\<rparr>))) H B" if "ref_cnt v - 1 \<noteq> 0"
    using that by simp
  let ?s0 = "put_cell s c (Some (v\<lparr>ref_cnt := ref_cnt v - 1\<rparr>))"
  have gone: "heap_inv (put_cell s c None) H (B + owned (Some v))" if z: "ref_cnt v - 1 = 0"
  proof -
    have "heap_inv ?s0 H (B + owned (Some v))" using d(3) z by simp
    from heap_inv_delete [OF this, of c "v\<lparr>ref_cnt := ref_cnt v - 1\<rparr>"] z v show ?thesis by (simp add: cell_at_put)
  qed
  show "heap_inv (put_cell s c None) H B" if "ref_cnt v - 1 = 0" "box_ptr v = Inr None"
    using gone [OF that(1)] that(2) by (simp add: owned_def split: if_splits)
  assume z: "ref_cnt v - 1 = 0" and p: "box_ptr v = Inr (Some b)" and x: "box_at s b = Some x"
  have g: "heap_inv (put_cell s c None) H (add_mset b B)"
    using gone [OF z] p d(1) by (simp add: owned_def)
  have "frame s (put_box (put_cell s c None) b None) ({} \<union> {}) ({#} + mset (opt_handles None)) B"
    by (rule frame_trans [OF frame_gone [OF v d(1)] frame_box [OF g]]) simp
  moreover have "heap_inv (put_box (put_cell s c None) b None) (H + mset (box_handles x)) B"
    using heap_inv_delete_box [OF g] x by simp
  ultimately show "heap_inv (put_cell (put_box s b None) c None) (H + mset (box_handles x)) B
      \<and> frame s (put_cell (put_box s b None) c None) {} {#} B"
    by (simp add: put_cell_box opt_handles_def)
qed

lemma destroy_ok:
  "heap_inv s (H + mset hs) B \<Longrightarrow> \<exists>s'. destroy s hs = Inr s' \<and> heap_inv s' H B \<and> frame s s' {} {#} B"
proof (induction s hs arbitrary: H rule: destroy.induct)
  case (1 s)
  then show ?case by (simp add: frame_refl)
next
  case (2 s hs)
  then show ?case by simp
next
  case (3 s c hs)
  have inv: "heap_inv s (add_mset (Some c) (H + mset hs)) B" using "3.prems" by simp
  then have "live s c" by (rule heap_invD) simp
  then obtain v where v: "cell_at s c = Some v" by (auto simp: live_def)
  note d = heap_inv_dec [OF inv v]
  note st = destroy_step [OF inv v]
  show ?case
  proof (cases "ref_cnt v - 1 = 0")
    case False
    let ?s1 = "put_cell s c (Some (v\<lparr>ref_cnt := ref_cnt v - 1\<rparr>))"
    obtain s' where s': "destroy ?s1 hs = Inr s'" "heap_inv s' H B" "frame ?s1 s' {} {#} B"
      using "3.IH"(1) [OF v False st(1) [OF False]] by blast
    have "frame s s' ({} \<union> {}) ({#} + {#}) B"
      by (rule frame_trans [OF frame_count [OF v d(1) False] s'(3)]) simp
    with s' False v show ?thesis by simp
  next
    case z: True
    obtain p where p: "box_ptr v = Inr p" using typed_ptr [OF heap_invD(2) [OF inv v d(1)]] by blast
    show ?thesis
    proof (cases p)
      case None
      with p have p: "box_ptr v = Inr None" by simp
      obtain s' where s': "destroy (put_cell s c None) hs = Inr s'" "heap_inv s' H B" "frame (put_cell s c None) s' {} {#} B"
        using "3.IH"(2) [OF v _ p refl st(2) [OF z p]] z by auto
      have "frame s s' ({} \<union> {}) ({#} + {#}) B"
        by (rule frame_trans [OF frame_gone [OF v d(1)] s'(3)]) simp
      with s' z v p show ?thesis by simp
    next
      case (Some b)
      with p have p: "box_ptr v = Inr (Some b)" by simp
      obtain x where x: "box_at s b = Some x"
        using typed_owned [OF heap_invD(2) [OF inv v d(1)], of b] p d(1) by (auto simp: owned_def)
      let ?s1 = "put_cell (put_box s b None) c None"
      have "heap_inv ?s1 (H + mset (box_handles x @ hs)) B" using st(3) [OF z p x] by (simp add: ac_simps)
      then obtain s' where s': "destroy ?s1 (box_handles x @ hs) = Inr s'" "heap_inv s' H B" "frame ?s1 s' {} {#} B"
        using "3.IH"(3) [OF v _ p refl x] z by auto
      have "frame s s' ({} \<union> {}) ({#} + {#}) B"
        by (rule frame_trans [OF conjunct2 [OF st(3) [OF z p x]] s'(3)]) simp
      with s' z v p x show ?thesis by simp
    qed
  qed
qed

section \<open>The pools\<close>

definition boxed :: "json_type \<Rightarrow> bool" where
  "boxed T \<longleftrightarrow> T = kStr \<or> T = kList \<or> T = kDict"

text \<open>What the pool gives next holds no objects.\<close>

definition clean_pool :: "json_type \<Rightarrow> 'd json_heap \<Rightarrow> bool" where
  "clean_pool T s \<longleftrightarrow> (case pool_of T s of [] \<Rightarrow> True | b # bs \<Rightarrow> opt_handles (box_at s b) = [])"

lemma empty_box_simps [simp]: "box_handles (empty_box T) = []" "boxed T \<Longrightarrow> well_kind T (empty_box T)"
  by (auto simp: empty_box_def boxed_def split: json_type.split)

lemma kind_same: "kind_ok T x \<Longrightarrow> same_kind x (empty_box T)"
  by (cases x) (auto simp: empty_box_def)

lemma GetBox_ok:
  assumes inv: "heap_inv s H B" and T: "boxed T"
  obtains b s' where "GetBox T s = Inr (b, s')" "heap_inv s' H (add_mset b B)" "box_at s' b = Some (empty_box T)"
    "frame s s' {} {#} B"
    "clean_pool T s \<Longrightarrow> cells s' = cells s \<and> all_handles s' = all_handles s \<and> (\<forall>b'. b' \<noteq> b \<longrightarrow> box_at s b' \<noteq> None \<longrightarrow> box_at s' b' = box_at s b')"
proof (cases "pool_of T s")
  case Nil
  let ?s' = "s\<lparr>boxes := boxes s @ [Some (empty_box T)]\<rparr>" and ?b = "length (boxes s)"
  have at: "box_at ?s' b' = box_at s b'" if "box_at s b' \<noteq> None" for b'
    using that by (auto simp: box_at_def nth_append split: if_splits)
  have ah: "all_handles ?s' = all_handles s" by (simp add: all_handles_def opt_handles_def)
  have "frame s ?s' {} {#} B"
  proof (rule frameI)
    fix c assume "live ?s' c"
    then obtain v where v: "cell_at s c = Some v" "ref_cnt v \<noteq> 0" by (auto simp: live_def)
    have "box_at s b \<noteq> None" if "box_ptr v = Inr (Some b)" for b
      using typed_owned [OF heap_invD(2) [OF inv v], of b] that v(2) by (auto simp: owned_def)
    then show "kept s ?s' c" unfolding kept_def using v at by (intro exI [of _ v]) auto
  next
    show "box_at ?s' b = box_at s b" if "b \<in># B" for b using heap_invD(5) [OF inv that] at by blast
  qed (simp_all add: ah)
  then show ?thesis
    using Nil at ah heap_inv_new_box [OF inv, of "empty_box T"]
    by (intro that [of ?b ?s']) (simp_all add: GetBox_def box_at_def)
next
  case (Cons b bs)
  let ?s0 = "set_pool T bs s"
  note take = heap_inv_take [OF inv Cons T [unfolded boxed_def]]
  obtain x where x: "box_at s b = Some x" "kind_ok T x" using take(2) by blast
  let ?s1 = "put_box ?s0 b (Some (empty_box T))"
  have "heap_inv ?s1 (H + mset (box_handles x)) (add_mset b B)"
    using heap_inv_set_box [OF take(1), of b x "empty_box T" "H + mset (box_handles x)"] x kind_same by simp
  then obtain s' where s': "destroy ?s1 (box_handles x) = Inr s'" "heap_inv s' H (add_mset b B)" "frame ?s1 s' {} {#} (add_mset b B)"
    using destroy_ok by blast
  have "frame s ?s1 ({} \<union> {}) ({#} + mset (opt_handles (Some (empty_box T)))) B"
    by (rule frame_trans [OF frame_pool(1) frame_box [OF take(1)]]) simp
  then have f1: "frame s ?s1 {} {#} B" by (simp add: opt_handles_def)
  have "frame s s' ({} \<union> {}) ({#} + {#}) B"
    by (rule frame_trans [OF f1 s'(3)]) simp
  moreover have "box_at s' b = Some (empty_box T)" using frameD(5) [OF s'(3), of b] x by (simp add: box_at_put)
  moreover have "cells s' = cells s \<and> all_handles s' = all_handles s \<and> (\<forall>b'. b' \<noteq> b \<longrightarrow> box_at s b' \<noteq> None \<longrightarrow> box_at s' b' = box_at s b')"
    if "clean_pool T s"
  proof -
    have e: "box_handles x = []" using that Cons x by (simp add: clean_pool_def opt_handles_def)
    then have "s' = ?s1" using s'(1) by simp
    moreover have "all_handles ?s1 = all_handles s"
      using all_handles_box [of ?s0 b x "Some (empty_box T)"] x e by (simp add: opt_handles_def)
    ultimately show ?thesis using x by (simp add: box_at_put)
  qed
  ultimately show ?thesis using s' Cons x by (intro that [of b s']) (simp_all add: GetBox_def deref_box_def)
qed

section \<open>Cells made and used again\<close>

text \<open>What a cell holds.\<close>

datatype 'd node =
    N_Null
  | N_Bool bool
  | N_Int "64 word"
  | N_Double 'd
  | N_Str string
  | N_List "nat option list"
  | N_Dict "(string \<times> nat option) list"

definition box_node :: "box option \<Rightarrow> 'd node option" where
  "box_node x = (case x of None \<Rightarrow> None | Some (Str_Box t) \<Rightarrow> Some (N_Str t) | Some (List_Box hs) \<Rightarrow> Some (N_List hs)
     | Some (Dict_Box d) \<Rightarrow> Some (N_Dict d))"

definition node_of :: "'d json_heap \<Rightarrow> 'd shared_val \<Rightarrow> 'd node option" where
  "node_of s v =
     (case val_type v of
        kNull \<Rightarrow> Some N_Null
      | kBool \<Rightarrow> (case val_data v of Bool_Val x \<Rightarrow> Some (N_Bool x) | _ \<Rightarrow> None)
      | kInt \<Rightarrow> (case val_data v of Int_Val x \<Rightarrow> Some (N_Int x) | _ \<Rightarrow> None)
      | kDouble \<Rightarrow> (case val_data v of Double_Val x \<Rightarrow> Some (N_Double x) | _ \<Rightarrow> None)
      | _ \<Rightarrow> (case box_ptr v of Inr (Some b) \<Rightarrow> box_node (box_at s b) | _ \<Rightarrow> None))"

definition view :: "'d json_heap \<Rightarrow> nat \<Rightarrow> 'd node option" where
  "view s c = (case cell_at s c of None \<Rightarrow> None | Some v \<Rightarrow> if ref_cnt v = 0 then None else node_of s v)"

lemma node_of_cong: "box_at s' = box_at s \<Longrightarrow> node_of s' v = node_of s v"
proof -
  assume b: "box_at s' = box_at s"
  show "node_of s' v = node_of s v" unfolding node_of_def b by (rule refl)
qed

lemma node_of_simps [simp]: "node_of (put_cell s c x) = node_of s" "node_of (s\<lparr>cells := cs\<rparr>) = node_of s"
  "node_of (FreeBox T b s) = node_of s" "node_of (s\<lparr>json_vars := vs\<rparr>) = node_of s" "node_of (s\<lparr>null_val := h\<rparr>) = node_of s"
  by (rule ext, rule node_of_cong, simp add: fun_eq_iff)+

definition empty_node :: "json_type \<Rightarrow> 'd node option" where
  "empty_node T = (case T of kNull \<Rightarrow> Some N_Null | kStr \<Rightarrow> Some (N_Str []) | kList \<Rightarrow> Some (N_List []) | kDict \<Rightarrow> Some (N_Dict [])
     | _ \<Rightarrow> None)"

lemma view_kept: "kept s s' c \<Longrightarrow> view s' c = view s c"
proof -
  assume "kept s s' c"
  then obtain v v' where v: "cell_at s c = Some v" "cell_at s' c = Some v'" "ref_cnt v \<noteq> 0" "ref_cnt v' \<noteq> 0"
    and eq: "val_type v' = val_type v" "val_data v' = val_data v"
    and box: "\<And>b. box_ptr v = Inr (Some b) \<Longrightarrow> box_at s' b = box_at s b"
    unfolding kept_def by blast
  have "(case box_ptr v of Inr (Some b) \<Rightarrow> box_node (box_at s' b) | _ \<Rightarrow> (None :: 'a node option))
      = (case box_ptr v of Inr (Some b) \<Rightarrow> box_node (box_at s b) | _ \<Rightarrow> None)"
    using box by (auto split: sum.split option.split)
  then have "node_of s' v' = node_of s v" unfolding node_of_def box_ptr_cong [OF eq] eq by (cases "val_type v") simp_all
  then show ?thesis using v by (simp add: view_def)
qed

lemma view_frame: "frame s s' N X B \<Longrightarrow> live s' c \<Longrightarrow> c \<notin> N \<Longrightarrow> view s' c = view s c"
  using frameD(3) view_kept by metis

abbreviation new_cell :: "json_type \<Rightarrow> 'd union_data \<Rightarrow> 'd shared_val" where
  "new_cell T d \<equiv> \<lparr>val_type = T, ref_cnt = 1, val_data = d\<rparr>"

lemma empty_data_ok:
  assumes inv: "heap_inv s H B" and T: "T \<noteq> kInvalid"
  obtains d s' where "empty_data T s = Inr (d, s')" "heap_inv s' H (B + owned (Some (new_cell T d)))"
    "typed s' (new_cell T d)" "node_of s' (new_cell T d) = empty_node T" "frame s s' {} {#} B"
    "clean_pool T s \<or> \<not> boxed T \<Longrightarrow> cells s' = cells s \<and> all_handles s' = all_handles s
      \<and> (\<forall>b. b \<notin># owned (Some (new_cell T d)) \<longrightarrow> box_at s b \<noteq> None \<longrightarrow> box_at s' b = box_at s b)"
proof (cases "boxed T")
  case True
  define D :: "nat \<Rightarrow> 'a union_data" where "D = (case T of kStr \<Rightarrow> Str_Ptr | kList \<Rightarrow> List_Ptr | _ \<Rightarrow> Dict_Ptr)"
  obtain b s' where g: "GetBox T s = Inr (b, s')" "heap_inv s' H (add_mset b B)" "box_at s' b = Some (empty_box T)"
    "frame s s' {} {#} B"
    "clean_pool T s \<Longrightarrow> cells s' = cells s \<and> all_handles s' = all_handles s \<and> (\<forall>b'. b' \<noteq> b \<longrightarrow> box_at s b' \<noteq> None \<longrightarrow> box_at s' b' = box_at s b')"
    using GetBox_ok [OF inv True] by metis
  have e: "empty_data T s = Inr (D b, s')" using True g(1) by (auto simp: empty_data_def D_def boxed_def)
  have o: "owned (Some (new_cell T (D b))) = {#b#}" using True by (auto simp: owned_def box_ptr_def D_def boxed_def)
  have t: "typed s' (new_cell T (D b))" using True g(3) by (auto simp: typed_def D_def boxed_def empty_box_def)
  have n: "node_of s' (new_cell T (D b)) = empty_node T"
    using True g(3) by (auto simp: node_of_def box_ptr_def D_def boxed_def empty_box_def empty_node_def box_node_def)
  show ?thesis using that [OF e _ t n g(4)] o g(2,5) True by simp
next
  case False
  with T have "empty_data T s = Inr (Raw, s)" "owned (Some (new_cell T (Raw :: 'a union_data))) = {#}" "typed s (new_cell T Raw)"
    "node_of s (new_cell T Raw) = empty_node T"
    by (cases T; simp add: empty_data_def owned_def box_ptr_def typed_def node_of_def empty_node_def boxed_def)+
  with inv show ?thesis by (intro that [of Raw s]) (simp_all add: frame_refl)
qed

text \<open>A function gives a cell that only its caller points to.\<close>

definition gives :: "'d json_heap \<Rightarrow> nat option multiset \<Rightarrow> nat multiset \<Rightarrow> nat option multiset \<Rightarrow> nat \<Rightarrow> 'd json_heap \<Rightarrow> bool" where
  "gives s H B X c s' \<longleftrightarrow> heap_inv s' (add_mset (Some c) H) B \<and> frame s s' {c} X B
     \<and> Some c \<notin># all_handles s + H \<and> Some c \<notin># all_handles s' + H"

lemma not_in_frame:
  assumes "frame s s' N X B" "h \<notin># all_handles s" "h \<notin># X"
  shows "h \<notin># all_handles s'"
  using mset_subset_eqD [OF frameD(6) [OF assms(1)], of h] assms(2,3) by auto

lemma not_live_handle: "heap_inv s H B \<Longrightarrow> \<not> live s c \<Longrightarrow> Some c \<notin># all_handles s + H"
  using heap_invD(1) by blast

lemma cell_at_len [simp]: "cell_at s (length (cells s)) = None"
  by (simp add: cell_at_def)

lemma frame_new_cell: "frame s (s\<lparr>cells := cells s @ [x]\<rparr>) {length (cells s)} {#} B"
proof -
  have "all_handles (s\<lparr>cells := cells s @ [x]\<rparr>) = all_handles s" by (simp add: all_handles_def)
  then show ?thesis by (intro frameI) (auto simp: kept_def live_def cell_at_new split: if_splits)
qed

lemma cell_at_cong: "cells s1 = cells s \<Longrightarrow> cell_at s1 = cell_at s"
  by (simp add: cell_at_def fun_eq_iff)

lemma new_val_ok:
  assumes inv: "heap_inv s H B" and T: "T \<noteq> kInvalid"
  obtains n s' where "new_val T s = Inr (n, s')" "gives s H B {#} n s'" "view s' n = empty_node T"
    "length (cells s) \<le> n \<and> cell_at s n = None"
    "\<exists>d. cell_at s' n = Some (new_cell T d)"
    "clean_pool T s \<or> \<not> boxed T \<Longrightarrow> (\<forall>c. cell_at s c \<noteq> None \<longrightarrow> cell_at s' c = cell_at s c) \<and> all_handles s' = all_handles s"
proof -
  obtain d s1 where e: "empty_data T s = Inr (d, s1)" "heap_inv s1 H (B + owned (Some (new_cell T d)))"
    "typed s1 (new_cell T d)" "node_of s1 (new_cell T d) = empty_node T" "frame s s1 {} {#} B"
    "clean_pool T s \<or> \<not> boxed T \<Longrightarrow> cells s1 = cells s \<and> all_handles s1 = all_handles s"
    using empty_data_ok [OF inv T] by metis
  let ?n = "length (cells s1)" and ?s' = "s1\<lparr>cells := cells s1 @ [Some (new_cell T d)]\<rparr>"
  have r: "new_val T s = Inr (?n, ?s')" using e(1) by (simp add: new_val_def)
  have inv': "heap_inv ?s' (add_mset (Some ?n) H) B" using heap_inv_new_cell [OF e(2,3)] by simp
  have f: "frame s ?s' {?n} {#} B" using frame_trans [OF e(5) frame_new_cell [of s1 _ B]] by simp
  have ah: "all_handles ?s' = all_handles s1" by (simp add: all_handles_def)
  have none: "length (cells s) \<le> ?n \<and> cell_at s ?n = None" using frameD(7) [OF e(5)] by (simp add: cell_at_def)
  then have "Some ?n \<notin># all_handles s + H" by (intro not_live_handle [OF inv]) (simp add: live_def)
  moreover from this have "Some ?n \<notin># all_handles ?s' + H" using not_in_frame [OF f, of "Some ?n"] by simp
  ultimately have g: "gives s H B {#} ?n ?s'" using inv' f by (simp add: gives_def)
  have "view ?s' ?n = empty_node T"
    using e(4) by (simp add: view_def cell_at_new)
  moreover have "\<exists>d'. cell_at ?s' ?n = Some (new_cell T d')" by (simp add: cell_at_new)
  moreover have "(\<forall>c. cell_at s c \<noteq> None \<longrightarrow> cell_at ?s' c = cell_at s c) \<and> all_handles ?s' = all_handles s"
    if "clean_pool T s \<or> \<not> boxed T"
  proof -
    note e6 = e(6) [OF that]
    have "cell_at s1 = cell_at s" by (rule cell_at_cong) (rule conjunct1 [OF e6])
    moreover have "cell_at s1 ?n = None" by simp
    ultimately show ?thesis using conjunct2 [OF e6] ah by (simp add: cell_at_new)
  qed
  ultimately show ?thesis by (rule that [OF r g _ none])
qed

lemma reset_val_ok:
  assumes inv: "heap_inv s H B" and v: "cell_at s c = Some v" "ref_cnt v = 0" and T: "T \<noteq> kInvalid"
  obtains s' where "reset_val c T s = Inr s'" "gives s H B {#} c s'" "view s' c = empty_node T"
    "\<exists>d. cell_at s' c = Some (new_cell T d)"
proof -
  obtain d s1 where e: "empty_data T s = Inr (d, s1)" "heap_inv s1 H (B + owned (Some (new_cell T d)))"
    "typed s1 (new_cell T d)" "node_of s1 (new_cell T d) = empty_node T" "frame s s1 {} {#} B"
    using empty_data_ok [OF inv T] by metis
  let ?s' = "put_cell s1 c (Some (new_cell T d))"
  have at: "cell_at s1 c = Some v" using frameD(4) [OF e(5)] v by simp
  have r: "reset_val c T s = Inr ?s'" using e(1) by (simp add: reset_val_def)
  have inv': "heap_inv ?s' (add_mset (Some c) H) B" using heap_inv_revive [OF e(2) at v(2) e(3)] by simp
  have f: "frame s ?s' {c} {#} B" using frame_trans [OF e(5) frame_cell [of s1 c _ B]] at by simp
  have "Some c \<notin># all_handles s + H" by (rule heap_inv_dead [OF inv v])
  moreover from this have "Some c \<notin># all_handles ?s' + H" using not_in_frame [OF f, of "Some c"] by simp
  ultimately have g: "gives s H B {#} c ?s'" using inv' f by (simp add: gives_def)
  have "view ?s' c = empty_node T"
    using e(4) at by (simp add: view_def cell_at_put)
  then show ?thesis using r g at by (intro that [of ?s']) (simp_all add: cell_at_put)
qed

end
