(* ===== verification/Json_Calls.thy ===== *)
theory Json_Calls
  imports Json_Ops
begin

text \<open>
  The member functions of \<open>SharedJsonVal\<close> and \<open>JsonType\<close> on the invariant: what cell they give
  and what it holds.
\<close>

section \<open>Counting\<close>

lemma IncRefCnt_few:
  assumes inv: "heap_inv s H B" and c: "Some c \<in># all_handles s + H"
    and room: "count (all_handles s + H) (Some c) + 1 < 2 ^ 16"
  obtains s' where "IncRefCnt c s = Inr s'" "heap_inv s' (add_mset (Some c) H) B" "frame s s' {} {#} B'"
    "all_handles s' = all_handles s" "box_at s' = box_at s"
proof -
  obtain v where v: "cell_at s c = Some v" using heap_invD(1) [OF inv c] by (auto simp: live_def)
  note inc = heap_inv_inc [OF inv v c room]
  show ?thesis
    using v inc(1) frame_count [OF v inc(2,3), of B'] 
    by (intro that [of "put_cell s c (Some (v\<lparr>ref_cnt := ref_cnt v + 1\<rparr>))"]) (simp_all add: IncRefCnt_def deref_cell_def fun_eq_iff)
qed

text \<open>A cell has no more references than there are objects.\<close>

lemma IncRefCnt_ok:
  assumes inv: "heap_inv s H B" and c: "Some c \<in># all_handles s + H" and room: "size (all_handles s + H) + 1 < 2 ^ 16"
  obtains s' where "IncRefCnt c s = Inr s'" "heap_inv s' (add_mset (Some c) H) B" "frame s s' {} {#} B'"
    "all_handles s' = all_handles s" "box_at s' = box_at s"
proof -
  have few: "count (all_handles s + H) (Some c) + 1 < 2 ^ 16"
    using count_le_size [of "all_handles s + H" "Some c"] room by linarith
  show thesis by (rule IncRefCnt_few [OF inv c few, of B']) (rule that)
qed

lemma inc_all_ok:
  assumes "heap_inv s H B" and "\<forall>h \<in> set hs. \<exists>c. h = Some c \<and> h \<in># all_handles s + H"
    and "size (all_handles s + H) + length hs < 2 ^ 16"
  shows "\<exists>s'. inc_all hs s = Inr s' \<and> heap_inv s' (H + mset hs) B \<and> frame s s' {} {#} B'
    \<and> all_handles s' = all_handles s \<and> box_at s' = box_at s"
  using assms
proof (induction hs arbitrary: s H)
  case Nil
  then show ?case by (simp add: frame_refl)
next
  case (Cons h hs)
  obtain c where h: "h = Some c" "Some c \<in># all_handles s + H" using Cons.prems(2) by auto
  obtain s1 where s1: "IncRefCnt c s = Inr s1" "heap_inv s1 (add_mset (Some c) H) B" "frame s s1 {} {#} B'"
    "all_handles s1 = all_handles s" "box_at s1 = box_at s"
    using IncRefCnt_ok [OF Cons.prems(1) h(2), of B'] Cons.prems(3) by auto
  have "\<exists>s'. inc_all hs s1 = Inr s' \<and> heap_inv s' (add_mset (Some c) H + mset hs) B \<and> frame s1 s' {} {#} B'
    \<and> all_handles s' = all_handles s1 \<and> box_at s' = box_at s1"
    using Cons.prems(2,3) s1(4) by (intro Cons.IH [OF s1(2)]) auto
  then obtain s' where s': "inc_all hs s1 = Inr s'" "heap_inv s' (add_mset (Some c) H + mset hs) B"
    "frame s1 s' {} {#} B'" "all_handles s' = all_handles s" "box_at s' = box_at s"
    using s1(4,5) by auto
  have "frame s s' ({} \<union> {}) ({#} + {#}) B'" by (rule frame_trans [OF s1(3) s'(3)]) simp
  with s' s1(1) h(1) show ?case by simp
qed

lemma DecRefCnt_ok:
  assumes inv: "heap_inv s (add_mset (Some c) H) B" and v: "cell_at s c = Some v"
  obtains s' where "DecRefCnt c s = Inr s'" "heap_inv s' H B"
    "\<And>d. cell_at s' d = (if d = c then Some (v\<lparr>ref_cnt := ref_cnt v - 1\<rparr>) else cell_at s d)"
    "frame s s' (if ref_cnt v - 1 = 0 then {c} else {}) {#} B" "all_handles s' = all_handles s" "box_at s' = box_at s"
    "ref_cnt v - 1 \<noteq> 0 \<Longrightarrow> pool_of T s' = pool_of T s"
proof -
  note d = heap_inv_dec [OF inv v]
  let ?s1 = "put_cell s c (Some (v\<lparr>ref_cnt := ref_cnt v - 1\<rparr>))"
  have at: "cell_at ?s1 d = (if d = c then Some (v\<lparr>ref_cnt := ref_cnt v - 1\<rparr>) else cell_at s d)" for d
    using v by (simp add: cell_at_put)
  show ?thesis
  proof (cases "ref_cnt v - 1 = 0")
    case False
    have pool: "pool_of T ?s1 = pool_of T s" by (simp add: pool_of_def cong: json_type.case_cong)
    show ?thesis
      using False v d(3) at frame_count [OF v d(1) False, of B] pool
      by (intro that [of ?s1]) (simp_all add: DecRefCnt_def deref_cell_def fun_eq_iff)
  next
    case z: True
    have ty: "typed s v" by (rule heap_invD(2) [OF inv v d(1)])
    obtain p where p: "box_ptr v = Inr p" using typed_ptr [OF ty] by blast
    have f: "frame s ?s1 {c} {#} B" using frame_cell [of s c _ B] v by simp
    show ?thesis
    proof (cases p)
      case None
      then have "owned (Some v) = {#}" using p by (simp add: owned_def)
      then show ?thesis
        using z None p v d(3) at f
        by (intro that [of ?s1]) (simp_all add: DecRefCnt_def deref_cell_def fun_eq_iff)
    next
      case (Some b)
      then have o: "owned (Some v) = {#b#}" using p d(1) by (simp add: owned_def)
      then obtain x where x: "box_at s b = Some x" "kind_ok (val_type v) x" using typed_kind [OF ty d(1), of b] by auto
      have "heap_inv ?s1 H (add_mset b B)" using d(3) z o by simp
      from heap_inv_free [OF this, of x "val_type v"] x have i: "heap_inv (FreeBox (val_type v) b ?s1) H B" by simp
      have "frame s (FreeBox (val_type v) b ?s1) ({c} \<union> {}) ({#} + {#}) B"
        by (rule frame_trans [OF f frame_pool(2) subset_mset.order_refl])
      then show ?thesis
        using z Some p v i at
        by (intro that [of "FreeBox (val_type v) b ?s1"]) (simp_all add: DecRefCnt_def deref_cell_def fun_eq_iff)
    qed
  qed
qed

section \<open>Reset\<close>

lemma gives_trans:
  assumes f: "frame s s1 N {#} B" and N: "N = {} \<or> N = {c}" and a: "all_handles s1 = all_handles s"
    and g: "gives s1 H B X c s'"
  shows "gives s H B X c s'"
proof -
  have f': "frame s s' (N \<union> {c}) ({#} + X) B" using g f by (intro frame_trans [of s s1]) (auto simp: gives_def)
  have "N \<union> {c} = {c}" using N by auto
  from f' [unfolded this] have "frame s s' {c} X B" by simp
  then show ?thesis using g a by (simp add: gives_def)
qed

lemma Reset_handle_ok:
  assumes inv: "heap_inv s (add_mset (Some c) H) B" and T: "T \<noteq> kInvalid"
  obtains c' s' where "Reset_handle (Some c) T s = Inr (Some c', s')" "gives s H B {#} c' s'" "view s' c' = empty_node T"
    "\<exists>d. cell_at s' c' = Some (new_cell T d)"
proof -
  obtain v where v: "cell_at s c = Some v" using heap_invD(1) [OF inv, of c] by (auto simp: live_def)
  obtain s1 where s1: "DecRefCnt c s = Inr s1" "heap_inv s1 H B"
    "\<And>d. cell_at s1 d = (if d = c then Some (v\<lparr>ref_cnt := ref_cnt v - 1\<rparr>) else cell_at s d)"
    "frame s s1 (if ref_cnt v - 1 = 0 then {c} else {}) {#} B" "all_handles s1 = all_handles s"
    using DecRefCnt_ok [OF inv v] by metis
  show ?thesis
  proof (cases "ref_cnt v - 1 = 0")
    case False
    obtain n s' where n: "new_val T s1 = Inr (n, s')" "gives s1 H B {#} n s'" "view s' n = empty_node T"
      "\<exists>d. cell_at s' n = Some (new_cell T d)"
      using new_val_ok [OF s1(2) T] by metis
    have "gives s H B {#} n s'" using gives_trans [OF s1(4) _ s1(5) n(2)] False by simp
    then show ?thesis using n(1,3,4) s1 False T by (intro that [of n s']) (simp_all add: Reset_handle_def deref_cell_def)
  next
    case True
    have dead: "cell_at s1 c = Some (v\<lparr>ref_cnt := ref_cnt v - 1\<rparr>)" using s1(3) by simp
    obtain s' where r: "reset_val c T s1 = Inr s'" "gives s1 H B {#} c s'" "view s' c = empty_node T"
      "\<exists>d. cell_at s' c = Some (new_cell T d)"
      using reset_val_ok [OF s1(2) dead _ T] True by auto
    have "gives s H B {#} c s'" using gives_trans [OF s1(4) _ s1(5) r(2)] True by simp
    then show ?thesis using r(1,3,4) s1 True T by (intro that [of c s']) (simp_all add: Reset_handle_def deref_cell_def)
  qed
qed

lemma Reset_handle_none:
  assumes inv: "heap_inv s (add_mset h H) B"
  obtains s' where "Reset_handle h kInvalid s = Inr (None, s')" "heap_inv s' H B" "frame s s' {} {#} B"
    "all_handles s' = all_handles s"
proof (cases h)
  case None
  then show ?thesis using inv by (intro that [of s]) (simp_all add: Reset_handle_def frame_refl)
next
  case (Some c)
  with inv have inv: "heap_inv s (add_mset (Some c) H) B" by simp
  obtain v where v: "cell_at s c = Some v" using heap_invD(1) [OF inv, of c] by (auto simp: live_def)
  obtain s1 where s1: "DecRefCnt c s = Inr s1" "heap_inv s1 H B"
    "\<And>d. cell_at s1 d = (if d = c then Some (v\<lparr>ref_cnt := ref_cnt v - 1\<rparr>) else cell_at s d)"
    "frame s s1 (if ref_cnt v - 1 = 0 then {c} else {}) {#} B" "all_handles s1 = all_handles s"
    using DecRefCnt_ok [OF inv v] by metis
  show ?thesis
  proof (cases "ref_cnt v - 1 = 0")
    case False
    then show ?thesis using Some s1 by (intro that [of s1]) (simp_all add: Reset_handle_def deref_cell_def)
  next
    case True
    have dead: "cell_at s1 c = Some (v\<lparr>ref_cnt := ref_cnt v - 1\<rparr>)" using s1(3) by simp
    have "frame s (put_cell s1 c None) ({c} \<union> {c}) ({#} + {#}) B"
      using s1(4) True dead by (intro frame_trans [of s s1, OF _ frame_cell]) auto
    then have "frame s (put_cell s1 c None) (insert c {}) {#} B" by simp
    moreover have "live s c" using v heap_inv_dec(1) [OF inv v] by (auto simp: live_def)
    moreover have "\<not> live (put_cell s1 c None) c" using dead by (simp add: live_def cell_at_put)
    ultimately have "frame s (put_cell s1 c None) {} {#} B" by (rule frame_less)
    moreover have "heap_inv (put_cell s1 c None) H B" using heap_inv_delete [OF s1(2) dead] True by simp
    ultimately show ?thesis
      using Some s1 True by (intro that [of "put_cell s1 c None"]) (simp_all add: Reset_handle_def deref_cell_def)
  qed
qed

lemma assign_json_ok:
  assumes inv: "heap_inv s (add_mset h H) B" and other: "Some c \<in># all_handles s + H"
    and room: "size (all_handles s + H) + 1 < 2 ^ 16"
  obtains s' where "assign_json h c s = Inr (Some c, s')" "heap_inv s' (add_mset (Some c) H) B" "frame s s' {} {#} B"
    "all_handles s' = all_handles s"
proof -
  obtain s1 where s1: "Reset_handle h kInvalid s = Inr (None, s1)" "heap_inv s1 H B" "frame s s1 {} {#} B"
    "all_handles s1 = all_handles s"
    using Reset_handle_none [OF inv] by metis
  obtain s' where s': "IncRefCnt c s1 = Inr s'" "heap_inv s' (add_mset (Some c) H) B" "frame s1 s' {} {#} B"
    "all_handles s' = all_handles s1"
    using IncRefCnt_ok [OF s1(2), of c B] other room s1(4) by auto
  have "frame s s' ({} \<union> {}) ({#} + {#}) B" by (rule frame_trans [OF s1(3) s'(3)]) simp
  then show ?thesis using s1 s' by (intro that [of s']) (simp_all add: assign_json_def)
qed

section \<open>Assignment\<close>

text \<open>A value of the same type whose only owner is assigned to is leaked.\<close>

lemma heap_inv_leak:
  assumes inv: "heap_inv s (add_mset (Some c) H) B" and v: "cell_at s c = Some v" "ref_cnt v = 1"
  shows "heap_inv s H B"
proof (rule heap_invI)
  have zero: "count (all_handles s + H) (Some c) = 0" using heap_inv_dec(2) [OF inv v(1)] v(2) by simp
  fix d w assume w: "cell_at s d = Some w"
  show "balanced w (count (all_handles s + H) (Some d))"
  proof (cases "d = c")
    case True
    then show ?thesis using w v zero by (simp add: balanced_def)
  next
    case False
    then show ?thesis using heap_invD(3) [OF inv w] by simp
  qed
next
  fix d assume "Some d \<in># all_handles s + H"
  then show "live s d" using heap_invD(1) [OF inv, of d] by auto
qed (use heap_invD(2,4-8) [OF inv] in auto)

lemma give_up_ok:
  assumes inv: "heap_inv s (add_mset (Some c) H) B"
  obtains (dropped) s1 where "give_up (Some c) T s = Inr (None, s1)" "heap_inv s1 H B" "frame s s1 {} {#} B"
      "all_handles s1 = all_handles s"
    | (kept) s0 v where "give_up (Some c) T s = Inr (Some c, put_cell s0 c (Some (v\<lparr>ref_cnt := 1\<rparr>)))" "heap_inv s0 H B"
      "cell_at s0 c = Some v" "ref_cnt v = 0" "frame s s0 {c} {#} B" "all_handles s0 = all_handles s"
proof -
  obtain v where v: "cell_at s c = Some v" using heap_invD(1) [OF inv, of c] by (auto simp: live_def)
  note d = heap_inv_dec [OF inv v]
  show ?thesis
  proof (cases "ref_cnt v > 1 \<or> T \<noteq> val_type v")
    case False
    then have "\<not> 1 < unat (ref_cnt v)" by (simp add: word_less_nat_alt)
    moreover have "unat (ref_cnt v) \<noteq> 0" using d(1) by (simp add: unat_eq_zero)
    ultimately have "unat (ref_cnt v) = unat (1 :: 16 word)" by simp
    then have one: "ref_cnt v = 1" by (simp only: word_unat_eq_iff)
    show ?thesis
      using False v one heap_inv_leak [OF inv v one]
      by (intro dropped [of s]) (simp_all add: give_up_def deref_cell_def frame_refl)
  next
    case True
    obtain s1 where s1: "DecRefCnt c s = Inr s1" "heap_inv s1 H B"
      "\<And>d. cell_at s1 d = (if d = c then Some (v\<lparr>ref_cnt := ref_cnt v - 1\<rparr>) else cell_at s d)"
      "frame s s1 (if ref_cnt v - 1 = 0 then {c} else {}) {#} B" "all_handles s1 = all_handles s"
      using DecRefCnt_ok [OF inv v] by metis
    show ?thesis
    proof (cases "ref_cnt v - 1 = 0")
      case False
      then show ?thesis using True v s1 by (intro dropped [of s1]) (auto simp: give_up_def deref_cell_def)
    next
      case z: True
      then show ?thesis using True v s1
        by (intro kept [of s1 "v\<lparr>ref_cnt := ref_cnt v - 1\<rparr>"]) (auto simp: give_up_def deref_cell_def)
    qed
  qed
qed

definition naive_node :: "json_type \<Rightarrow> 'd union_data \<Rightarrow> 'd node option" where
  "naive_node T d = (case (T, d) of (kBool, Bool_Val x) \<Rightarrow> Some (N_Bool x) | (kInt, Int_Val x) \<Rightarrow> Some (N_Int x)
     | (kDouble, Double_Val x) \<Rightarrow> Some (N_Double x) | _ \<Rightarrow> None)"

lemma naive_facts:
  assumes "naive_node T d = Some n"
  shows "T \<noteq> kInvalid" "\<not> boxed T" "owned (Some (new_cell T d')) = {#}" "typed s (new_cell T d')" "node_of s (new_cell T d) = Some n"
  using assms by (auto simp: naive_node_def boxed_def owned_def box_ptr_def typed_def node_of_def
    split: json_type.splits union_data.splits)

lemma heap_inv_data:
  assumes inv: "heap_inv s H B" and v: "cell_at s c = Some v" and o: "owned (Some w) = owned (Some v)" "ref_cnt w = ref_cnt v" "typed s w"
  shows "heap_inv (put_cell s c (Some w)) H B"
proof -
  have at: "cell_at (put_cell s c (Some w)) d = (if d = c then Some w else cell_at s d)" for d using v by (simp add: cell_at_put)
  have "all_boxes (put_cell s c (Some w)) = all_boxes s" using all_boxes_cell [OF v, of "Some w"] o(1) by simp
  moreover have "live (put_cell s c (Some w)) = live s" using v o(2) by (auto simp: live_def at fun_eq_iff)
  moreover have "balanced w = balanced v" using o(2) by (simp add: balanced_def fun_eq_iff)
  ultimately show ?thesis using heap_invD [OF inv] v o(3)
    by (intro heap_invI) (simp_all add: at split: if_splits)
qed

lemma revive_naive:
  assumes "cell_at s c = Some v"
  shows "put_cell (put_cell s c (Some (v\<lparr>ref_cnt := 1\<rparr>))) c (Some (v\<lparr>ref_cnt := 1, val_type := T, val_data := d\<rparr>))
    = put_cell s c (Some (new_cell T d))"
  by (cases v) simp

lemma gives_revive:
  assumes i0: "heap_inv s0 H (B + owned (Some (new_cell T d)))" and v: "cell_at s0 c = Some v" "ref_cnt v = 0"
    and ty: "typed s0 (new_cell T d)" and f: "frame s s0 {c} {#} B" and a: "Some c \<notin># all_handles s + H"
  shows "gives s H B {#} c (put_cell s0 c (Some (new_cell T d)))" "view (put_cell s0 c (Some (new_cell T d))) c = node_of s0 (new_cell T d)"
proof -
  have fr: "frame s (put_cell s0 c (Some (new_cell T d))) {c} {#} B"
    using frame_trans [OF f frame_cell [of s0 c _ B]] v(1) by simp
  moreover have "Some c \<notin># all_handles (put_cell s0 c (Some (new_cell T d))) + H" using not_in_frame [OF fr, of "Some c"] a by simp
  moreover have "heap_inv (put_cell s0 c (Some (new_cell T d))) (add_mset (Some c) H) B"
    using heap_inv_revive [OF i0 v ty] by simp
  ultimately show "gives s H B {#} c (put_cell s0 c (Some (new_cell T d)))" using a by (simp add: gives_def)
  show "view (put_cell s0 c (Some (new_cell T d))) c = node_of s0 (new_cell T d)" using v by (simp add: view_def cell_at_put)
qed

lemma assign_naive_ok:
  assumes inv: "heap_inv s (add_mset (Some c) H) B" and d: "naive_node T d = Some n"
  obtains c' s' where "assign_naive (Some c) T d s = Inr (Some c', s')" "gives s H B {#} c' s'" "view s' c' = Some n"
proof (cases rule: give_up_ok [OF inv, of T, case_names dropped kept])
  case (dropped s1)
  note nf = naive_facts [OF d]
  obtain n0 s2 d0 where s2: "new_val T s1 = Inr (n0, s2)" "gives s1 H B {#} n0 s2" "cell_at s2 n0 = Some (new_cell T d0)"
    using new_val_ok [OF dropped(2) nf(1)] by metis
  let ?s' = "put_cell s2 n0 (Some (new_cell T d))"
  have g2: "gives s H B {#} n0 s2" using gives_trans [OF dropped(3) _ dropped(4) s2(2)] by simp
  have "heap_inv ?s' (add_mset (Some n0) H) B"
    using g2 by (intro heap_inv_data [OF _ s2(3)]) (simp_all add: nf(3,4) gives_def)
  moreover have "frame s ?s' {n0} {#} B"
    using frame_trans [of s s2 "{n0}" "{#}" B ?s' "{n0}" "{#}" B] frame_cell [of s2 n0 "Some (new_cell T d)" B] g2 s2(3)
    by (simp add: gives_def)
  ultimately have "gives s H B {#} n0 ?s'" using g2 by (simp add: gives_def)
  moreover have "view ?s' n0 = Some n" using s2(3) nf(5) by (simp add: view_def cell_at_put)
  ultimately show ?thesis using dropped(1) s2
    by (intro that [of n0 ?s']) (simp_all add: assign_naive_def deref_cell_def)
next
  case (kept s0 v)
  note nf = naive_facts [OF d]
  have a: "Some c \<notin># all_handles s + H" using heap_inv_dead [OF kept(2-4)] kept(6) by simp
  have i0: "heap_inv s0 H (B + owned (Some (new_cell T d)))" using kept(2) by (simp add: nf(3))
  note g = gives_revive [OF i0 kept(3,4) nf(4) kept(5) a]
  have "cell_at (put_cell s0 c (Some (v\<lparr>ref_cnt := 1\<rparr>))) c = Some (v\<lparr>ref_cnt := 1\<rparr>)" using kept(3) by (simp add: cell_at_put)
  then have "assign_naive (Some c) T d s = Inr (Some c, put_cell s0 c (Some (new_cell T d)))"
    using kept(1) revive_naive [OF kept(3)] by (simp add: assign_naive_def deref_cell_def)
  then show ?thesis using g nf(5) by (intro that) simp_all
qed

end
