(* ===== verification/Json_Write.thy ===== *)
theory Json_Write
  imports Json_Calls
begin

text \<open>
  The functions that write: string assignment, the copy of a shared value, and the writing
  \<open>operator[]\<close>.
\<close>

section \<open>The contents of a cell\<close>

fun node_handles :: "'d node \<Rightarrow> nat option list" where
  "node_handles (N_List hs) = hs"
| "node_handles (N_Dict d) = map snd d"
| "node_handles n = []"

lemma list_cell:
  assumes "typed s v" "val_type v = kList"
  obtains b hs where "box_ptr v = Inr (Some b)" "box_at s b = Some (List_Box hs)" "list_of s v = Inr (b, hs)" "node_of s v = Some (N_List hs)"
  using assms by (auto simp: typed_def box_ptr_def list_of_def deref_box_def node_of_def box_node_def)

lemma dict_cell:
  assumes "typed s v" "val_type v = kDict"
  obtains b d where "box_ptr v = Inr (Some b)" "box_at s b = Some (Dict_Box d)" "dict_of s v = Inr (b, d)" "node_of s v = Some (N_Dict d)"
    "distinct (map fst d)"
  using assms by (auto simp: typed_def box_ptr_def dict_of_def deref_box_def node_of_def box_node_def)

lemma str_cell:
  assumes "typed s v" "val_type v = kStr"
  obtains b t where "box_ptr v = Inr (Some b)" "box_at s b = Some (Str_Box t)" "str_of s v = Inr (b, t)" "node_of s v = Some (N_Str t)"
  using assms by (auto simp: typed_def box_ptr_def str_of_def deref_box_def node_of_def box_node_def)

lemma box_handles_in: "box_at s b = Some x \<Longrightarrow> h \<in> set (box_handles x) \<Longrightarrow> h \<in># all_handles s"
proof -
  assume b: "box_at s b = Some x" and h: "h \<in> set (box_handles x)"
  then have "Some x \<in> set (boxes s)" by (auto simp: box_at_def split: if_splits) (metis nth_mem)
  with h have "h \<in># (\<Sum>y\<in>#mset (boxes s). mset (opt_handles y))" by (auto simp: opt_handles_def intro!: bexI [of _ "Some x"])
  then show "h \<in># all_handles s" by (simp add: all_handles_def)
qed

lemma owner_unique:
  assumes inv: "heap_inv s H B" and v: "cell_at s c = Some v" "ref_cnt v \<noteq> 0" "box_ptr v = Inr (Some b)"
  shows "cell_at s c' = Some v' \<Longrightarrow> ref_cnt v' \<noteq> 0 \<Longrightarrow> box_ptr v' = Inr (Some b) \<Longrightarrow> c' = c" and "b \<notin># B"
proof -
  have o: "owned (Some v) = {#b#}" using v by (simp add: owned_def)
  have split: "all_boxes s = add_mset b (all_boxes (put_cell s c None))"
    using all_boxes_cell [OF v(1), of None] o by (simp add: owned_def)
  have no: "b \<notin># all_boxes (put_cell s c None)" and "b \<notin># B"
    using heap_invD(4) [OF inv, of b] by (auto simp: split count_eq_zero_iff [symmetric])
  then show "b \<notin># B" by blast
  assume v': "cell_at s c' = Some v'" "ref_cnt v' \<noteq> 0" "box_ptr v' = Inr (Some b)"
  show "c' = c"
  proof (rule ccontr)
    assume "c' \<noteq> c"
    then have "cell_at (put_cell s c None) c' = Some v'" using v v' by (simp add: cell_at_put)
    from owned_in_boxes [OF this, of b] no v' show False by (simp add: owned_def)
  qed
qed

lemma frame_own_box:
  assumes inv: "heap_inv s H B" and v: "cell_at s c = Some v" "ref_cnt v \<noteq> 0" "box_ptr v = Inr (Some b)"
    and x: "box_at s b = Some x" and Y: "mset (box_handles y) = mset (box_handles x) + Y"
  shows "frame s (put_box s b (Some y)) {c} Y B" and "all_handles (put_box s b (Some y)) = all_handles s + Y"
proof -
  have "all_handles (put_box s b (Some y)) + mset (box_handles x) = (all_handles s + Y) + mset (box_handles x)"
    using all_handles_box [OF x, of "Some y"] Y by (simp add: opt_handles_def ac_simps)
  then show ah: "all_handles (put_box s b (Some y)) = all_handles s + Y" by simp
  show "frame s (put_box s b (Some y)) {c} Y B"
  proof (rule frameI)
    fix d assume d: "live (put_box s b (Some y)) d" "d \<notin> {c}"
    then obtain w where w: "cell_at s d = Some w" "ref_cnt w \<noteq> 0" by (auto simp: live_def)
    have "b' \<noteq> b" if "box_ptr w = Inr (Some b')" for b' using owner_unique(1) [OF inv v w] that d(2) by auto
    then show "kept s (put_box s b (Some y)) d" unfolding kept_def using w x by (intro exI [of _ w]) (auto simp: box_at_put)
  next
    fix b' assume "b' \<in># B"
    then show "box_at (put_box s b (Some y)) b' = box_at s b'" using owner_unique(2) [OF inv v] x by (auto simp: box_at_put)
  qed (simp_all add: ah)
qed

text \<open>What is written into the box of a cell that the caller has for itself.\<close>

lemma gives_write:
  assumes f: "frame s s1 N X B" and inv: "heap_inv s1 (add_mset (Some c) H + Y) B"
    and v: "cell_at s1 c = Some v" "box_ptr v = Inr (Some b)" and x: "box_at s1 b = Some x" "same_kind x y"
    and Y: "mset (box_handles y) = mset (box_handles x) + Y"
  shows "heap_inv (put_box s1 b (Some y)) (add_mset (Some c) H) B"
    and "frame s (put_box s1 b (Some y)) (N \<union> {c}) (X + Y) B"
    and "all_handles (put_box s1 b (Some y)) = all_handles s1 + Y"
    and "val_type v = kStr \<or> val_type v = kList \<or> val_type v = kDict \<Longrightarrow> view (put_box s1 b (Some y)) c = box_node (Some y)"
proof -
  have nz: "ref_cnt v \<noteq> 0" using heap_invD(1) [OF inv, of c] v(1) by (auto simp: live_def)
  show "heap_inv (put_box s1 b (Some y)) (add_mset (Some c) H) B"
    using Y by (intro heap_inv_set_box [OF inv x]) (simp add: ac_simps)
  note o = frame_own_box [OF inv v(1) nz v(2) x(1) Y]
  show "frame s (put_box s1 b (Some y)) (N \<union> {c}) (X + Y) B" by (rule frame_trans [OF f o(1) subset_mset.order_refl])
  show "all_handles (put_box s1 b (Some y)) = all_handles s1 + Y" by (rule o(2))
  show "view (put_box s1 b (Some y)) c = box_node (Some y)" if "val_type v = kStr \<or> val_type v = kList \<or> val_type v = kDict"
    using that v nz x(1) by (auto simp: view_def node_of_def box_at_put)
qed

section \<open>Assignment of a string\<close>

lemma GetBox_str_cell:
  assumes "heap_inv s H B" and "GetBox kStr s = Inr (b, s1)"
  shows "GetBox kStr (put_cell s c x) = Inr (b, put_cell s1 c x)"
proof (cases "str_pool s")
  case Nil
  then show ?thesis using assms(2) by (auto simp: GetBox_def pool_of_def put_cell_def)
next
  case (Cons b' bs)
  then obtain t where "box_at s b' = Some (Str_Box t)" using heap_invD(6) [OF assms(1), of b'] by auto
  then show ?thesis using assms(2) Cons
    by (auto simp: GetBox_def pool_of_def deref_box_def set_pool_def put_cell_def put_box_def box_at_def split: if_splits)
qed

lemma assign_str_ok:
  assumes inv: "heap_inv s (add_mset (Some c) H) B"
  obtains c' s' where "assign_str (Some c) t s = Inr (Some c', s')" "gives s H B {#} c' s'" "view s' c' = Some (N_Str (c_str t))"
proof -
  have wr: "\<exists>s'. rbind (deref_cell s3 n) (\<lambda>w. rbind (str_of s3 w) (\<lambda>(b, t'). Inr (Some n, put_box s3 b (Some (Str_Box (c_str t))))))
      = Inr (Some n, s') \<and> gives s H B {#} n s' \<and> view s' n = Some (N_Str (c_str t))"
    if g: "gives s H B {#} n s3" and w: "cell_at s3 n = Some (new_cell kStr d)" for n s3 d
  proof -
    have i: "heap_inv s3 (add_mset (Some n) H + {#}) B" using g by (simp add: gives_def)
    have ty: "typed s3 (new_cell kStr d)" using heap_invD(2) [OF i w] by simp
    obtain b t' where b: "box_ptr (new_cell kStr d) = Inr (Some b)" "box_at s3 b = Some (Str_Box t')" "str_of s3 (new_cell kStr d) = Inr (b, t')"
      by (rule str_cell [OF ty]) (use that in auto)
    have f: "frame s s3 {n} {#} B" using g by (simp add: gives_def)
    note gw = gives_write [OF f i w b(1,2), of "Str_Box (c_str t)"]
    have "gives s H B {#} n (put_box s3 b (Some (Str_Box (c_str t))))" using gw(1-3) g by (simp add: gives_def)
    moreover have "view (put_box s3 b (Some (Str_Box (c_str t)))) n = Some (N_Str (c_str t))" using gw(4) by (simp add: box_node_def)
    ultimately show ?thesis using w b(3) by (simp add: deref_cell_def)
  qed
  show ?thesis
  proof (cases rule: give_up_ok [OF inv, of kStr, case_names dropped kept])
    case (dropped s1)
    obtain n s2 d where s2: "new_val kStr s1 = Inr (n, s2)" "gives s1 H B {#} n s2" "cell_at s2 n = Some (new_cell kStr d)"
      by (rule new_val_ok [OF dropped(2), of kStr]) (use that in auto)
    have "gives s H B {#} n s2" using gives_trans [OF dropped(3) _ dropped(4) s2(2)] by simp
    from wr [OF this s2(3)] obtain s' where
      "rbind (deref_cell s2 n) (\<lambda>w. rbind (str_of s2 w) (\<lambda>(b, t'). Inr (Some n, put_box s2 b (Some (Str_Box (c_str t)))))) = Inr (Some n, s')"
      "gives s H B {#} n s'" "view s' n = Some (N_Str (c_str t))" by blast
    then show ?thesis using dropped(1) s2(1) by (intro that [of n s']) (simp_all add: assign_str_def)
  next
    case (kept s0 v)
    obtain b s1 where b: "GetBox kStr s0 = Inr (b, s1)" "heap_inv s1 H (add_mset b B)" "box_at s1 b = Some (empty_box kStr)" "frame s0 s1 {} {#} B"
      by (rule GetBox_ok [OF kept(2), of kStr]) (use that in \<open>auto simp: boxed_def\<close>)
    have at: "cell_at s1 c = Some v" using frameD(4) [OF b(4)] kept(3,4) by simp
    have i0: "heap_inv s1 H (B + owned (Some (new_cell kStr (Str_Ptr b))))" using b(2) by (simp add: owned_def box_ptr_def)
    have ty: "typed s1 (new_cell kStr (Str_Ptr b))" using b(3) by (simp add: typed_def empty_box_def)
    have f: "frame s s1 {c} {#} B" using frame_trans [OF kept(5) b(4)] by simp
    have a: "Some c \<notin># all_handles s + H" using heap_inv_dead [OF kept(2-4)] kept(6) by simp
    let ?s2 = "put_cell s1 c (Some (new_cell kStr (Str_Ptr b)))"
    have g: "gives s H B {#} c ?s2" by (rule gives_revive(1) [OF i0 at kept(4) ty f a])
    have get: "GetBox kStr (put_cell s0 c (Some (v\<lparr>ref_cnt := 1\<rparr>))) = Inr (b, put_cell s1 c (Some (v\<lparr>ref_cnt := 1\<rparr>)))"
      by (rule GetBox_str_cell [OF kept(2) b(1)])
    have eq: "v\<lparr>ref_cnt := 1, val_type := kStr, val_data := Str_Ptr b\<rparr> = new_cell kStr (Str_Ptr b)" by (cases v) simp
    have "cell_at (put_cell s1 c (Some (v\<lparr>ref_cnt := 1\<rparr>))) c = Some (v\<lparr>ref_cnt := 1\<rparr>)" using at by (simp add: cell_at_put)
    then have as: "assign_str (Some c) t s = rbind (deref_cell ?s2 c) (\<lambda>w. rbind (str_of ?s2 w) (\<lambda>(b, t'). Inr (Some c, put_box ?s2 b (Some (Str_Box (c_str t))))))"
      using kept(1) get by (simp add: assign_str_def deref_cell_def eq)
    have "cell_at ?s2 c = Some (new_cell kStr (Str_Ptr b))" using at by (simp add: cell_at_put)
    from wr [OF g this] as show ?thesis using that by auto
  qed
qed

section \<open>The copy of a shared value\<close>

lemma data_only:
  assumes g: "gives s H B {#} n s1" and w: "cell_at s1 n = Some (new_cell T d0)" and T: "\<not> boxed T" "T \<noteq> kInvalid"
  shows "gives s H B {#} n (put_cell s1 n (Some (new_cell T d)))"
    and "view (put_cell s1 n (Some (new_cell T d))) n = node_of s1 (new_cell T d)"
proof -
  have i: "heap_inv s1 (add_mset (Some n) H) B" and f: "frame s s1 {n} {#} B" using g by (simp_all add: gives_def)
  have "heap_inv (put_cell s1 n (Some (new_cell T d))) (add_mset (Some n) H) B"
    using T by (intro heap_inv_data [OF i w]) (cases T; simp add: owned_def box_ptr_def typed_def boxed_def)+
  moreover have "frame s (put_cell s1 n (Some (new_cell T d))) {n} {#} B"
    using frame_trans [OF f frame_cell [of s1 n _ B]] w by simp
  ultimately show "gives s H B {#} n (put_cell s1 n (Some (new_cell T d)))" using g by (simp add: gives_def)
  show "view (put_cell s1 n (Some (new_cell T d))) n = node_of s1 (new_cell T d)" using w by (simp add: view_def cell_at_put)
qed

text \<open>The elements are counted once more and written into the new box.\<close>

lemma copy_elements:
  assumes g: "gives s H B {#} n s1" and w: "cell_at s1 n = Some w" "box_ptr w = Inr (Some b)" "val_type w = kList \<or> val_type w = kDict"
    and x: "box_at s1 b = Some x" "same_kind x y" "box_handles x = []"
    and hs: "None \<notin> set (box_handles y)" "\<And>h. h \<in> set (box_handles y) \<Longrightarrow> h \<in># all_handles s1"
    and room: "size (all_handles s1 + H) + 1 + length (box_handles y) < 2 ^ 16"
  shows "\<exists>s2. inc_all (box_handles y) s1 = Inr s2 \<and> gives s H B (mset (box_handles y)) n (put_box s2 b (Some y))
    \<and> view (put_box s2 b (Some y)) n = box_node (Some y)"
proof -
  let ?Y = "mset (box_handles y)"
  have i1: "heap_inv s1 (add_mset (Some n) H) B" and f1: "frame s s1 {n} {#} B"
    and no: "Some n \<notin># all_handles s + H" "Some n \<notin># all_handles s1 + H" using g by (auto simp: gives_def)
  have "\<exists>s2. inc_all (box_handles y) s1 = Inr s2 \<and> heap_inv s2 (add_mset (Some n) H + ?Y) B \<and> frame s1 s2 {} {#} B
    \<and> all_handles s2 = all_handles s1 \<and> box_at s2 = box_at s1"
  proof (intro inc_all_ok [OF i1] ballI)
    fix h assume h: "h \<in> set (box_handles y)"
    with hs(1) obtain c where "h = Some c" by (cases h) auto
    with hs(2) [OF h] show "\<exists>c. h = Some c \<and> h \<in># all_handles s1 + add_mset (Some n) H" by simp
  qed (use room in simp)
  then obtain s2 where s2: "inc_all (box_handles y) s1 = Inr s2" "heap_inv s2 (add_mset (Some n) H + ?Y) B"
    "frame s1 s2 {} {#} B" "all_handles s2 = all_handles s1" "box_at s2 = box_at s1" by blast
  have "live s2 n" by (rule heap_invD(1) [OF s2(2)]) simp
  then have "kept s1 s2 n" using frameD(3) [OF s2(3)] by simp
  then obtain w2 where w2: "cell_at s2 n = Some w2" "val_type w2 = val_type w" "val_data w2 = val_data w"
    using w(1) by (auto simp: kept_def)
  have p: "box_ptr w2 = Inr (Some b)" using box_ptr_cong [OF w2(2,3)] w(2) by simp
  have f: "frame s s2 ({n} \<union> {}) ({#} + {#}) B" by (rule frame_trans [OF f1 s2(3) subset_mset.order_refl])
  have Y: "mset (box_handles y) = mset (box_handles x) + ?Y" using x(3) by simp
  have x2: "box_at s2 b = Some x" using x(1) s2(5) by simp
  note gw = gives_write [OF f s2(2) w2(1) p x2 x(2) Y]
  have "Some n \<notin># ?Y" using hs no(2) by auto
  then have "gives s H B ?Y n (put_box s2 b (Some y))" using gw(1-3) no s2(4) by (simp add: gives_def)
  moreover have "view (put_box s2 b (Some y)) n = box_node (Some y)" using gw(4) w2(2) w(3) by auto
  ultimately show ?thesis using s2(1) by blast
qed

lemma Copy_val_ok:
  assumes inv: "heap_inv s H B" and c: "Some c \<in># all_handles s + H" and v: "cell_at s c = Some v"
    and clean: "clean_pool (val_type v) s \<or> \<not> boxed (val_type v)" and nd: "view s c = Some nd" "None \<notin> set (node_handles nd)"
    and room: "size (all_handles s + H) + 1 + length (node_handles nd) < 2 ^ 16"
  obtains n s' where "Copy_val c s = Inr (n, s')" "gives s H B (mset (node_handles nd)) n s'" "view s' n = Some nd"
    "length (cells s) \<le> n"
proof -
  have nz: "ref_cnt v \<noteq> 0" using heap_invD(1) [OF inv c] v by (auto simp: live_def)
  have ty: "typed s v" by (rule heap_invD(2) [OF inv v nz])
  have T: "val_type v \<noteq> kInvalid" using ty by (auto simp: typed_def)
  obtain n s1 d0 where s1: "new_val (val_type v) s = Inr (n, s1)" "gives s H B {#} n s1" "view s1 n = empty_node (val_type v)"
    "length (cells s) \<le> n \<and> cell_at s n = None" "cell_at s1 n = Some (new_cell (val_type v) d0)"
    "\<forall>d. cell_at s d \<noteq> None \<longrightarrow> cell_at s1 d = cell_at s d" "all_handles s1 = all_handles s"
    using new_val_ok [OF inv T] clean by metis
  have i1: "heap_inv s1 (add_mset (Some n) H) B" and f1: "frame s s1 {n} {#} B" using s1(2) by (auto simp: gives_def)
  have v1: "cell_at s1 c = Some v" using s1(6) v by simp
  have ty1: "typed s1 v" by (rule heap_invD(2) [OF i1 v1 nz])
  have tw: "typed s1 (new_cell (val_type v) d0)" using heap_invD(2) [OF i1 s1(5)] by simp
  have "c \<noteq> n" using v s1(4) by auto
  then have nd1: "node_of s1 v = Some nd" using view_frame [OF f1, of c] v1 nz nd(1) by (simp add: live_def view_def)
  have vw: "node_of s1 (new_cell (val_type v) d0) = empty_node (val_type v)" using s1(3,5) by (simp add: view_def)
  have deref: "deref_cell s c = Inr v" "deref_cell s1 c = Inr v" "deref_cell s1 n = Inr (new_cell (val_type v) d0)"
    using v v1 s1(5) by (simp_all add: deref_cell_def)
  have "\<exists>s'. Copy_val c s = Inr (n, s') \<and> gives s H B (mset (node_handles nd)) n s' \<and> view s' n = Some nd"
  proof -
    consider (null) "val_type v = kNull" | (naive) "val_type v = kBool \<or> val_type v = kInt \<or> val_type v = kDouble"
      | (str) "val_type v = kStr" | (lst) "val_type v = kList" | (dict) "val_type v = kDict"
      using T by (cases "val_type v") auto
    then show ?thesis
    proof cases
      case null
      then have "nd = N_Null" using nd1 by (simp add: node_of_def)
      then show ?thesis using null s1(1-3) deref by (simp add: Copy_val_def empty_node_def)
    next
      case naive
      let ?s2 = "put_cell s1 n (Some (new_cell (val_type v) (val_data v)))"
      have nb: "\<not> boxed (val_type v)" using naive by (auto simp: boxed_def)
      have "node_of s1 (new_cell (val_type v) (val_data v)) = node_of s1 v"
        using naive by (auto simp: node_of_def)
      then have "view ?s2 n = Some nd" "gives s H B {#} n ?s2" using data_only [OF s1(2,5) nb T, of "val_data v"] nd1 by simp_all
      moreover have "node_handles nd = []" using nd1 naive by (auto simp: node_of_def split: union_data.splits)
      moreover have "Copy_val c s = Inr (n, ?s2)" using naive s1(1) deref by (auto simp: Copy_val_def)
      ultimately show ?thesis by simp
    next
      case str
      obtain b t where b: "str_of s1 v = Inr (b, t)" "node_of s1 v = Some (N_Str t)"
        by (rule str_cell [OF ty1 str]) (use that in auto)
      obtain b' t' where b': "box_ptr (new_cell kStr d0) = Inr (Some b')" "box_at s1 b' = Some (Str_Box t')" "str_of s1 (new_cell kStr d0) = Inr (b', t')"
        by (rule str_cell [OF tw]) (use that str in auto)
      have i1': "heap_inv s1 (add_mset (Some n) H + {#}) B" using i1 by simp
      have w: "cell_at s1 n = Some (new_cell kStr d0)" using s1(5) str by simp
      note gw = gives_write [OF f1 i1' w b'(1,2), of "Str_Box t"]
      have "gives s H B {#} n (put_box s1 b' (Some (Str_Box t)))" using gw(1-3) s1(2) by (simp add: gives_def)
      moreover have "view (put_box s1 b' (Some (Str_Box t))) n = Some nd" using gw(4) b(2) nd1 by (simp add: box_node_def)
      moreover have "Copy_val c s = Inr (n, put_box s1 b' (Some (Str_Box t)))"
        using str s1(1) deref b(1) b'(3) by (simp add: Copy_val_def)
      moreover have "node_handles nd = []" using b(2) nd1 by simp
      ultimately show ?thesis by simp
    next
      case lst
      obtain b hs where b: "list_of s1 v = Inr (b, hs)" "node_of s1 v = Some (N_List hs)" "box_at s1 b = Some (List_Box hs)"
        by (rule list_cell [OF ty1 lst]) (use that in auto)
      obtain b' hs' where b': "box_ptr (new_cell kList d0) = Inr (Some b')" "box_at s1 b' = Some (List_Box hs')"
        "list_of s1 (new_cell kList d0) = Inr (b', hs')" "node_of s1 (new_cell kList d0) = Some (N_List hs')"
        by (rule list_cell [OF tw]) (use that lst in auto)
      have nd': "nd = N_List hs" using b(2) nd1 by simp
      have e: "hs' = []" using b'(4) vw lst by (simp add: empty_node_def)
      have w: "cell_at s1 n = Some (new_cell kList d0)" using s1(5) lst by simp
      have "\<exists>s2. inc_all (box_handles (List_Box hs)) s1 = Inr s2
        \<and> gives s H B (mset (box_handles (List_Box hs))) n (put_box s2 b' (Some (List_Box hs)))
        \<and> view (put_box s2 b' (Some (List_Box hs))) n = box_node (Some (List_Box hs))"
        using nd(2) room box_handles_in [OF b(3)] b'(2) s1(7) nd' e
        by (intro copy_elements [OF s1(2) w b'(1), of "List_Box hs'"]) auto
      then show ?thesis using lst s1(1) deref b(1) b'(3) nd' by (auto simp: Copy_val_def box_node_def)
    next
      case dict
      obtain b d where b: "dict_of s1 v = Inr (b, d)" "node_of s1 v = Some (N_Dict d)" "box_at s1 b = Some (Dict_Box d)" "distinct (map fst d)"
        by (rule dict_cell [OF ty1 dict]) (use that in auto)
      obtain b' d' where b': "box_ptr (new_cell kDict d0) = Inr (Some b')" "box_at s1 b' = Some (Dict_Box d')"
        "dict_of s1 (new_cell kDict d0) = Inr (b', d')" "node_of s1 (new_cell kDict d0) = Some (N_Dict d')"
        by (rule dict_cell [OF tw]) (use that dict in auto)
      have nd': "nd = N_Dict d" using b(2) nd1 by simp
      have e: "d' = []" using b'(4) vw dict by (simp add: empty_node_def)
      have w: "cell_at s1 n = Some (new_cell kDict d0)" using s1(5) dict by simp
      have "\<exists>s2. inc_all (box_handles (Dict_Box d)) s1 = Inr s2
        \<and> gives s H B (mset (box_handles (Dict_Box d))) n (put_box s2 b' (Some (Dict_Box d)))
        \<and> view (put_box s2 b' (Some (Dict_Box d))) n = box_node (Some (Dict_Box d))"
        using nd(2) room box_handles_in [OF b(3)] b'(2) s1(7) nd' e b(4)
        by (intro copy_elements [OF s1(2) w b'(1), of "Dict_Box d'"]) auto
      then show ?thesis using dict s1(1) deref b(1) b'(3) nd' by (auto simp: Copy_val_def box_node_def)
    qed
  qed
  with s1(4) show ?thesis using that by blast
qed

section \<open>A cell of its own\<close>

text \<open>When a copy is made, the pool it takes the new box from must hold no objects.\<close>

definition copy_ok :: "nat \<Rightarrow> 'd json_heap \<Rightarrow> bool" where
  "copy_ok c s \<longleftrightarrow> (case cell_at s c of None \<Rightarrow> False | Some v \<Rightarrow> ref_cnt v = 1 \<or> \<not> boxed (val_type v) \<or> clean_pool (val_type v) s)"

lemma gives_self:
  assumes inv: "heap_inv s (add_mset (Some c) H) B" and v: "cell_at s c = Some v" "ref_cnt v = 1"
  shows "gives s H B {#} c s"
proof -
  have "count (all_handles s + H) (Some c) = 0" using heap_inv_dec(2) [OF inv v(1)] v(2) by simp
  then have "Some c \<notin># all_handles s + H" by (simp only: not_in_iff)
  then show ?thesis using inv by (simp add: gives_def frame_refl)
qed

lemma gives_more: "gives s H B X c s' \<Longrightarrow> X \<subseteq># X' \<Longrightarrow> gives s H B X' c s'"
  using frame_mono [of s s' "{c}" X B "{c}" X' B] by (simp add: gives_def)

lemma Normalize_ok:
  assumes inv: "heap_inv s (add_mset (Some c) H) B" and ok: "copy_ok c s" and nd: "view s c = Some nd" "None \<notin> set (node_handles nd)"
    and room: "size (all_handles s + H) + 1 + length (node_handles nd) < 2 ^ 16"
  obtains c' s' where "Normalize c s = Inr (c', s')" "gives s H B (mset (node_handles nd)) c' s'" "view s' c' = Some nd"
proof -
  obtain v where v: "cell_at s c = Some v" using heap_invD(1) [OF inv, of c] by (auto simp: live_def)
  note d = heap_inv_dec [OF inv v]
  show ?thesis
  proof (cases "ref_cnt v = 1")
    case True
    then show ?thesis using v nd gives_more [OF gives_self [OF inv v True], of "mset (node_handles nd)"]
      by (intro that [of c s]) (simp_all add: Normalize_def deref_cell_def)
  next
    case False
    then have nz: "ref_cnt v - 1 \<noteq> 0" by (metis eq_iff_diff_eq_0)
    obtain s1 where s1: "DecRefCnt c s = Inr s1" "heap_inv s1 H B"
      "\<And>d. cell_at s1 d = (if d = c then Some (v\<lparr>ref_cnt := ref_cnt v - 1\<rparr>) else cell_at s d)"
      "frame s s1 (if ref_cnt v - 1 = 0 then {c} else {}) {#} B" "all_handles s1 = all_handles s" "box_at s1 = box_at s"
      "ref_cnt v - 1 \<noteq> 0 \<Longrightarrow> pool_of (val_type v) s1 = pool_of (val_type v) s"
      using DecRefCnt_ok [OF inv v] by metis
    have cl: "clean_pool (val_type (v\<lparr>ref_cnt := ref_cnt v - 1\<rparr>)) s1 \<or> \<not> boxed (val_type (v\<lparr>ref_cnt := ref_cnt v - 1\<rparr>))"
    proof -
      have "clean_pool (val_type v) s1 = clean_pool (val_type v) s" unfolding clean_pool_def s1(7) [OF nz] s1(6) by (rule refl)
      then show ?thesis using ok v False by (auto simp: copy_ok_def)
    qed
    have v1: "cell_at s1 c = Some (v\<lparr>ref_cnt := ref_cnt v - 1\<rparr>)" using s1(3) by simp
    have "unat (ref_cnt v - 1) = count (all_handles s + H) (Some c)"
      using d(2) by (simp add: unat_minus_one [OF d(1)])
    then have "Some c \<in># all_handles s1 + H" using nz s1(5) by (metis not_in_iff unat_eq_zero)
    moreover have f1: "frame s s1 {} {#} B" using s1(4) nz by simp
    moreover have "view s1 c = Some nd" using view_frame [OF f1, of c] v1 nz nd(1) by (simp add: live_def)
    ultimately obtain n s' where n: "Copy_val c s1 = Inr (n, s')" "gives s1 H B (mset (node_handles nd)) n s'" "view s' n = Some nd"
      using Copy_val_ok [OF s1(2) _ v1 cl _ nd(2)] room s1(5) by metis
    have "gives s H B (mset (node_handles nd)) n s'" using gives_trans [OF f1 _ s1(5) n(2)] by simp
    then show ?thesis using n v False s1(1) by (intro that [of n s']) (simp_all add: Normalize_def deref_cell_def)
  qed
qed

text \<open>What \<open>operator[]\<close> finds: the contents when the type fits, else nothing.\<close>

fun as_node :: "json_type \<Rightarrow> 'd node \<Rightarrow> 'd node" where
  "as_node T (N_List hs) = (if T = kList then N_List hs else N_Dict [])"
| "as_node T (N_Dict d) = (if T = kDict then N_Dict d else N_List [])"
| "as_node T n = (if T = kList then N_List [] else N_Dict [])"

lemma node_type:
  assumes "typed s v" "node_of s v = Some nd" "T = kList \<or> T = kDict"
  shows "val_type v = T \<Longrightarrow> as_node T nd = nd" and "val_type v \<noteq> T \<Longrightarrow> empty_node T = Some (as_node T nd) \<and> node_handles (as_node T nd) = []"
  using assms by (auto simp: typed_def node_of_def box_ptr_def box_node_def empty_node_def
    split: json_type.splits union_data.splits)

lemma own_as_ok:
  assumes inv: "heap_inv s (add_mset (Some c) H) B" and T: "T = kList \<or> T = kDict"
    and ok: "copy_ok c s" and nd: "view s c = Some nd" "None \<notin> set (node_handles nd)"
    and room: "size (all_handles s + H) + 1 + length (node_handles nd) < 2 ^ 16"
  obtains c' s' where "own_as c T s = Inr (c', s')" "gives s H B (mset (node_handles (as_node T nd))) c' s'"
    "view s' c' = Some (as_node T nd)"
proof -
  obtain v where v: "cell_at s c = Some v" using heap_invD(1) [OF inv, of c] by (auto simp: live_def)
  have nz: "ref_cnt v \<noteq> 0" using heap_inv_dec(1) [OF inv v] .
  have ty: "typed s v" by (rule heap_invD(2) [OF inv v nz])
  have no: "node_of s v = Some nd" using nd(1) v nz by (simp add: view_def)
  note nt = node_type [OF ty no T]
  show ?thesis
  proof (cases "val_type v = T")
    case True
    obtain c' s' where "Normalize c s = Inr (c', s')" "gives s H B (mset (node_handles nd)) c' s'" "view s' c' = Some nd"
      by (rule Normalize_ok [OF inv ok nd room])
    then show ?thesis using True v nt(1) by (intro that [of c' s']) (simp_all add: own_as_def deref_cell_def)
  next
    case False
    obtain c1 s1 d where r: "Reset_handle (Some c) T s = Inr (Some c1, s1)" "gives s H B {#} c1 s1" "view s1 c1 = empty_node T"
      "cell_at s1 c1 = Some (new_cell T d)"
      using Reset_handle_ok [OF inv, of T] T by (metis json_type.distinct(41,43,45) json_type.simps)
    have "Normalize c1 s1 = Inr (c1, s1)" using r(4) by (simp add: Normalize_def deref_cell_def)
    then show ?thesis using False v r nt(2) [OF False] by (intro that [of c1 s1]) (auto simp: own_as_def deref_cell_def)
  qed
qed

section \<open>The writing operator[]\<close>

lemma new_nulls_ok:
  "heap_inv s H B \<Longrightarrow> \<exists>hs s'. new_nulls n s = Inr (hs, s') \<and> length hs = n \<and> None \<notin> set hs \<and> heap_inv s' (H + mset hs) B
    \<and> frame s s' {c. Some c \<in> set hs} {#} B \<and> all_handles s' = all_handles s
    \<and> (\<forall>c. Some c \<in> set hs \<longrightarrow> view s' c = Some N_Null \<and> length (cells s) \<le> c)"
proof (induction n arbitrary: s H)
  case 0
  then show ?case by (simp add: frame_refl)
next
  case (Suc n)
  obtain c s1 where s1: "new_val kNull s = Inr (c, s1)" "gives s H B {#} c s1" "view s1 c = empty_node kNull"
    "length (cells s) \<le> c \<and> cell_at s c = None"
    "(\<forall>d. cell_at s d \<noteq> None \<longrightarrow> cell_at s1 d = cell_at s d) \<and> all_handles s1 = all_handles s"
    by (rule new_val_ok [OF Suc.prems, of kNull]) (use that in \<open>auto simp: boxed_def\<close>)
  have i1: "heap_inv s1 (add_mset (Some c) H) B" and f1: "frame s s1 {c} {#} B" using s1(2) by (auto simp: gives_def)
  obtain hs s' where s': "new_nulls n s1 = Inr (hs, s')" "length hs = n" "None \<notin> set hs" "heap_inv s' (add_mset (Some c) H + mset hs) B"
    "frame s1 s' {c. Some c \<in> set hs} {#} B" "all_handles s' = all_handles s1"
    "\<forall>c. Some c \<in> set hs \<longrightarrow> view s' c = Some N_Null \<and> length (cells s1) \<le> c"
    using Suc.IH [OF i1] by blast
  have lc: "cell_at s1 c \<noteq> None" using heap_invD(1) [OF i1, of c] by (auto simp: live_def)
  have cn: "c \<notin> {d. Some d \<in> set hs}" using s'(7) lc by (auto simp: cell_at_def split: if_splits)
  have "live s' c" by (rule heap_invD(1) [OF s'(4)]) simp
  then have vc: "view s' c = Some N_Null" using view_frame [OF s'(5) _ cn] s1(3) by (simp add: empty_node_def)
  have "length (cells s) \<le> d" if "Some d \<in> set hs" for d
    using s'(7) that frameD(7) [OF f1] by fastforce
  moreover have "frame s s' ({c} \<union> {d. Some d \<in> set hs}) ({#} + {#}) B" by (rule frame_trans [OF f1 s'(5) subset_mset.order_refl])
  moreover have "{d. Some d \<in> set (Some c # hs)} = {c} \<union> {d. Some d \<in> set hs}" by auto
  ultimately show ?case using s1 s' vc by (intro exI [of _ "Some c # hs"] exI [of _ s']) auto
qed

text \<open>
  The cell \<open>c'\<close> that the object points to afterwards is its own, with the contents \<open>nd\<close> in the box
  \<open>b\<close>; the objects \<open>ns\<close> in it are new.
\<close>

definition sub_gives :: "'d json_heap \<Rightarrow> nat option multiset \<Rightarrow> nat multiset \<Rightarrow> nat option multiset \<Rightarrow> nat option list
  \<Rightarrow> nat \<Rightarrow> nat \<Rightarrow> 'd node \<Rightarrow> 'd json_heap \<Rightarrow> bool" where
  "sub_gives s H B X ns c' b nd s' \<longleftrightarrow>
     heap_inv s' (add_mset (Some c') H) B \<and> frame s s' (insert c' {d. Some d \<in> set ns}) X B
     \<and> Some c' \<notin># all_handles s + H \<and> Some c' \<notin># all_handles s' + H
     \<and> view s' c' = Some nd \<and> (\<exists>v. cell_at s' c' = Some v \<and> box_ptr v = Inr (Some b))
     \<and> (\<forall>d. Some d \<in> set ns \<longrightarrow> length (cells s) \<le> d)"

lemma view_typed:
  assumes inv: "heap_inv s H B" and n: "view s c = Some nd"
  obtains v where "cell_at s c = Some v" "ref_cnt v \<noteq> 0" "typed s v" "node_of s v = Some nd"
  using n heap_invD(2) [OF inv, of c] by (auto simp: view_def split: option.splits if_splits)

lemma view_list:
  assumes inv: "heap_inv s H B" and n: "view s c = Some (N_List hs)"
  obtains v b where "cell_at s c = Some v" "val_type v = kList" "box_ptr v = Inr (Some b)" "box_at s b = Some (List_Box hs)"
    "list_of s v = Inr (b, hs)"
proof (rule view_typed [OF inv n])
  fix v assume v: "cell_at s c = Some v" "typed s v" "node_of s v = Some (N_List hs)"
  then have "val_type v = kList"
    by (auto simp: typed_def node_of_def box_ptr_def box_node_def split: json_type.splits union_data.splits)
  with v that show thesis by (auto elim!: list_cell)
qed

lemma view_dict:
  assumes inv: "heap_inv s H B" and n: "view s c = Some (N_Dict d)"
  obtains v b where "cell_at s c = Some v" "val_type v = kDict" "box_ptr v = Inr (Some b)" "box_at s b = Some (Dict_Box d)"
    "dict_of s v = Inr (b, d)" "distinct (map fst d)"
proof (rule view_typed [OF inv n])
  fix v assume v: "cell_at s c = Some v" "typed s v" "node_of s v = Some (N_Dict d)"
  then have "val_type v = kDict"
    by (auto simp: typed_def node_of_def box_ptr_def box_node_def split: json_type.splits union_data.splits)
  with v that show thesis by (auto elim!: dict_cell)
qed

lemma not_in_new: "heap_inv s H B \<Longrightarrow> length (cells s) \<le> d \<Longrightarrow> Some d \<notin># all_handles s + H"
  by (rule not_live_handle) (auto simp: live_def cell_at_def)

lemma index_val_ok:
  assumes inv: "heap_inv s (add_mset (Some c) H) B" and ok: "copy_ok c s" and nd: "view s c = Some nd" "None \<notin> set (node_handles nd)"
    and room: "size (all_handles s + H) + 1 + length (node_handles nd) < 2 ^ 16"
    and hs: "as_node kList nd = N_List hs"
  obtains c' b ns s' where "index_val c i s = Inr (c', Elem_Loc b i, s')"
    "sub_gives s H B (mset hs + mset ns) ns c' b (N_List (hs @ ns)) s'"
    "length ns = i + 1 - length hs" "None \<notin> set ns" "\<forall>d. Some d \<in> set ns \<longrightarrow> view s' d = Some N_Null"
proof -
  obtain c1 s1 where c1: "own_as c kList s = Inr (c1, s1)" "gives s H B (mset hs) c1 s1" "view s1 c1 = Some (N_List hs)"
    by (rule own_as_ok [OF inv _ ok nd room, of kList]) (use hs that in auto)
  have i1: "heap_inv s1 (add_mset (Some c1) H) B" and f1: "frame s s1 {c1} (mset hs) B" and no: "Some c1 \<notin># all_handles s + H" "Some c1 \<notin># all_handles s1 + H"
    using c1(2) by (auto simp: gives_def)
  obtain v b where v: "cell_at s1 c1 = Some v" "val_type v = kList" "box_ptr v = Inr (Some b)" "box_at s1 b = Some (List_Box hs)" "list_of s1 v = Inr (b, hs)"
    by (rule view_list [OF i1 c1(3)])
  have nz: "ref_cnt v \<noteq> 0" using heap_invD(1) [OF i1, of c1] v(1) by (auto simp: live_def)
  obtain ns s2 where s2: "new_nulls (i + 1 - length hs) s1 = Inr (ns, s2)" "length ns = i + 1 - length hs" "None \<notin> set ns"
    "heap_inv s2 (add_mset (Some c1) H + mset ns) B" "frame s1 s2 {d. Some d \<in> set ns} {#} B" "all_handles s2 = all_handles s1"
    "\<forall>d. Some d \<in> set ns \<longrightarrow> view s2 d = Some N_Null \<and> length (cells s1) \<le> d"
    using new_nulls_ok [OF i1] by blast
  have if_eq: "(if length hs \<le> i then new_nulls (i + 1 - length hs) s1 else Inr ([], s1)) = Inr (ns, s2)"
  proof (cases "length hs \<le> i")
    case False
    then show ?thesis using s2(1) by simp
  qed (use s2(1) in simp)
  have c1n: "Some c1 \<notin> set ns" using s2(7) v(1) by (auto simp: cell_at_def split: if_splits)
  have "live s2 c1" by (rule heap_invD(1) [OF s2(4)]) simp
  then have "kept s1 s2 c1" using frameD(3) [OF s2(5)] c1n by simp
  then obtain v2 where v2: "cell_at s2 c1 = Some v2" "val_type v2 = kList" "val_data v2 = val_data v" "box_at s2 b = Some (List_Box hs)"
    using v by (auto simp: kept_def)
  have p2: "box_ptr v2 = Inr (Some b)" using box_ptr_cong [of v2 v] v2 v by simp
  have f2: "frame s s2 ({c1} \<union> {d. Some d \<in> set ns}) (mset hs + {#}) B" by (rule frame_trans [OF f1 s2(5) subset_mset.order_refl])
  let ?s' = "put_box s2 b (Some (List_Box (hs @ ns)))"
  note gw = gives_write [OF f2 s2(4) v2(1) p2 v2(4), of "List_Box (hs @ ns)"]
  have f': "frame s ?s' (insert c1 {d. Some d \<in> set ns}) (mset hs + mset ns) B" using gw(2) by simp
  have "Some c1 \<notin># all_handles ?s' + H" using gw(3) no c1n s2(6) by simp
  moreover have "length (cells s) \<le> d" if "Some d \<in> set ns" for d using s2(7) that frameD(7) [OF f1] by fastforce
  moreover have "view ?s' c1 = Some (N_List (hs @ ns))" using gw(4) v2(2) by (simp add: box_node_def)
  ultimately have "sub_gives s H B (mset hs + mset ns) ns c1 b (N_List (hs @ ns)) ?s'"
    using gw(1) f' no(1) v2(1) p2 by (simp add: sub_gives_def)
  moreover have "view ?s' d = Some N_Null" if d: "Some d \<in> set ns" for d
  proof -
    have f: "frame s2 ?s' {c1} (mset ns) B"
      using frame_own_box(1) [OF s2(4) v2(1) _ p2 v2(4), of "List_Box (hs @ ns)" "mset ns"] heap_invD(1) [OF s2(4), of c1] v2(1)
      by (auto simp: live_def)
    have "live s2 d" using heap_invD(1) [OF s2(4), of d] d by simp
    then have "live ?s' d" by simp
    then show ?thesis using view_frame [OF f, of d] d c1n s2(7) by auto
  qed
  moreover have "index_val c i s = Inr (c1, Elem_Loc b i, ?s')"
    using c1(1) v(1,5) if_eq by (simp add: index_val_def deref_cell_def)
  ultimately show ?thesis using s2(2,3) by (intro that [of c1 b ?s' ns]) auto
qed

lemma field_val_ok:
  assumes inv: "heap_inv s (add_mset (Some c) H) B" and ok: "copy_ok c s" and nd: "view s c = Some nd" "None \<notin> set (node_handles nd)"
    and room: "size (all_handles s + H) + 1 + length (node_handles nd) < 2 ^ 16"
    and d: "as_node kDict nd = N_Dict d"
  obtains c' b ns s' where "field_val c k s = Inr (c', Field_Loc b k, s')"
    "sub_gives s H B (mset (map snd d) + mset (map snd ns)) (map snd ns) c' b (N_Dict (d @ ns)) s'"
    "map_of d k \<noteq> None \<Longrightarrow> ns = []" "map_of d k = None \<Longrightarrow> \<exists>n. ns = [(k, Some n)] \<and> view s' n = Some (N_Dict [])"
proof -
  obtain c1 s1 where c1: "own_as c kDict s = Inr (c1, s1)" "gives s H B (mset (map snd d)) c1 s1" "view s1 c1 = Some (N_Dict d)"
    by (rule own_as_ok [OF inv _ ok nd room, of kDict]) (use d that in auto)
  have i1: "heap_inv s1 (add_mset (Some c1) H) B" and f1: "frame s s1 {c1} (mset (map snd d)) B"
    and no: "Some c1 \<notin># all_handles s + H" "Some c1 \<notin># all_handles s1 + H"
    using c1(2) by (auto simp: gives_def)
  obtain v b where v: "cell_at s1 c1 = Some v" "val_type v = kDict" "box_ptr v = Inr (Some b)" "box_at s1 b = Some (Dict_Box d)"
    "dict_of s1 v = Inr (b, d)" "distinct (map fst d)"
    by (rule view_dict [OF i1 c1(3)])
  show ?thesis
  proof (cases "map_of d k")
    case (Some h)
    have "sub_gives s H B (mset (map snd d) + mset (map snd [])) (map snd []) c1 b (N_Dict (d @ [])) s1"
      using i1 f1 no c1(3) v by (simp add: sub_gives_def)
    then show ?thesis using Some c1(1) v(1,5) by (intro that [of c1 b s1 "[]"]) (auto simp: field_val_def deref_cell_def)
  next
    case None
    obtain n s2 where s2: "new_val kDict s1 = Inr (n, s2)" "gives s1 (add_mset (Some c1) H) B {#} n s2" "view s2 n = Some (N_Dict [])"
      "length (cells s1) \<le> n"
      by (rule new_val_ok [OF i1, of kDict]) (use that in \<open>auto simp: empty_node_def\<close>)
    have i2: "heap_inv s2 (add_mset (Some c1) H + mset [Some n]) B" and f2: "frame s1 s2 {n} {#} B"
      and n2: "Some n \<notin># all_handles s2 + add_mset (Some c1) H"
      using s2(2) by (auto simp: gives_def)
    have c1n: "n \<noteq> c1" using n2 by auto
    have "live s2 c1" by (rule heap_invD(1) [OF i2]) simp
    then have "kept s1 s2 c1" using frameD(3) [OF f2] c1n by simp
    then obtain v2 where v2: "cell_at s2 c1 = Some v2" "val_type v2 = kDict" "val_data v2 = val_data v" "box_at s2 b = Some (Dict_Box d)" "ref_cnt v2 \<noteq> 0"
      using v by (auto simp: kept_def)
    have p2: "box_ptr v2 = Inr (Some b)" using box_ptr_cong [of v2 v] v2 v by simp
    have f12: "frame s s2 ({c1} \<union> {n}) (mset (map snd d) + {#}) B" by (rule frame_trans [OF f1 f2 subset_mset.order_refl])
    let ?y = "Dict_Box (d @ [(k, Some n)])"
    let ?s' = "put_box s2 b (Some ?y)"
    have kind: "same_kind (Dict_Box d) ?y" using v(6) None by (simp add: map_of_eq_None_iff)
    have Y: "mset (box_handles ?y) = mset (box_handles (Dict_Box d)) + mset [Some n]" by simp
    note gw = gives_write [OF f12 i2 v2(1) p2 v2(4) kind Y]
    have "Some c1 \<notin># all_handles s2" using not_in_frame [OF f2, of "Some c1"] no(2) by simp
    then have "Some c1 \<notin># all_handles ?s' + H" using gw(3) no c1n by simp
    moreover have "view ?s' c1 = Some (N_Dict (d @ [(k, Some n)]))" using gw(4) v2(2) by (simp add: box_node_def)
    moreover have "length (cells s) \<le> n" using s2(4) frameD(7) [OF f1] by simp
    moreover have "frame s ?s' (insert c1 {n}) (mset (map snd d) + {#Some n#}) B" using gw(2) by (simp add: insert_commute)
    ultimately have "sub_gives s H B (mset (map snd d) + mset (map snd [(k, Some n)])) (map snd [(k, Some n)]) c1 b (N_Dict (d @ [(k, Some n)])) ?s'"
      using gw(1) no(1) v2(1) p2 by (simp add: sub_gives_def)
    moreover have "view ?s' n = Some (N_Dict [])"
    proof -
      have f: "frame s2 ?s' {c1} (mset [Some n]) B" by (rule frame_own_box(1) [OF i2 v2(1) v2(5) p2 v2(4) Y])
      have "live s2 n" by (rule heap_invD(1) [OF i2]) simp
      then have "live ?s' n" by simp
      then show ?thesis using view_frame [OF f, of n] c1n s2(3) by simp
    qed
    moreover have "field_val c k s = Inr (c1, Field_Loc b k, ?s')"
      using None c1(1) v(1,5) s2(1) by (simp add: field_val_def deref_cell_def)
    ultimately show ?thesis using None by (intro that [of c1 b ?s' "[(k, Some n)]"]) auto
  qed
qed

end
