(* ===== verification/Json_Paths.thy ===== *)
theory Json_Paths
  imports Json_Write
begin

text \<open>
  Places of objects, and the way from a variable to an object inside its value. The cells on the
  way that a reference was taken along belong to it alone; writing at the end of the way changes
  no cell that is not on it.
\<close>

section \<open>Places\<close>

definition placed :: "'d json_heap \<Rightarrow> json_loc \<Rightarrow> bool" where
  "placed s l \<longleftrightarrow>
     (case l of
        Var_Loc x \<Rightarrow> distinct (map fst (json_vars s)) \<and> map_of (json_vars s) x \<noteq> None
      | Elem_Loc b i \<Rightarrow> (\<exists>hs. box_at s b = Some (List_Box hs) \<and> i < length hs)
      | Field_Loc b k \<Rightarrow> (\<exists>d. box_at s b = Some (Dict_Box d) \<and> distinct (map fst d) \<and> map_of d k \<noteq> None))"

lemma map_of_set_key: "map_of (set_key k v xs) k' = (if k' = k \<and> map_of xs k \<noteq> None then Some v else map_of xs k')"
  by (induction xs) (auto simp: set_key_def)

lemma fst_set_key [simp]: "map fst (set_key k v xs) = map fst xs"
  by (auto simp: set_key_def)

lemma set_key_other: "k \<notin> fst ` set xs \<Longrightarrow> set_key k v xs = xs"
  by (induction xs) (auto simp: set_key_def)

lemma mset_set_key:
  "distinct (map fst xs) \<Longrightarrow> map_of xs k = Some h \<Longrightarrow> mset (map snd (set_key k v xs)) + {#h#} = mset (map snd xs) + {#v#}"
proof (induction xs)
  case (Cons x xs)
  obtain k' h' where x: "x = (k', h')" by (cases x)
  show ?case
  proof (cases "k' = k")
    case True
    then have "set_key k v xs = xs" using Cons.prems(1) x by (intro set_key_other) auto
    then have "set_key k v (x # xs) = (k, v) # xs" using True x by (simp add: set_key_def)
    then show ?thesis using True x Cons.prems(2) by simp
  next
    case False
    then have "set_key k v (x # xs) = x # set_key k v xs" using x by (simp add: set_key_def)
    then show ?thesis using Cons False x by simp
  qed
qed simp

lemma placed_load: "placed s l \<Longrightarrow> \<exists>h. load_loc l s = Some h"
  by (auto simp: placed_def load_loc_def split: json_loc.splits)

lemma mset_list_set: "i < length hs \<Longrightarrow> mset (hs[i := h]) + {#hs ! i#} = mset hs + {#h#}"
  by (simp add: mset_update)

text \<open>Storing at a place: the handles, the other places, the invariant.\<close>

lemma store_vars [simp]: "null_val (store_loc l h s) = null_val s" "cells (store_loc l h s) = cells s"
  "cell_at (store_loc l h s) = cell_at s"
  by (auto simp: store_loc_def put_box_def cell_at_def fun_eq_iff split: json_loc.split option.split box.split)

lemma live_store [simp]: "live (store_loc l h s) = live s"
  by (simp add: live_def fun_eq_iff)

lemma load_store:
  assumes "placed s l"
  shows "load_loc l2 (store_loc l h s) = (if l2 = l then Some h else load_loc l2 s)"
proof (cases l)
  case (Var_Loc x)
  with assms show ?thesis
    by (auto simp: placed_def load_loc_def store_loc_def map_of_set_key split: json_loc.split)
next
  case (Elem_Loc b i)
  then obtain hs where "box_at s b = Some (List_Box hs)" "i < length hs" using assms by (auto simp: placed_def)
  with Elem_Loc show ?thesis
    by (auto simp: load_loc_def store_loc_def box_at_put split: json_loc.split)
next
  case (Field_Loc b k)
  then obtain d where "box_at s b = Some (Dict_Box d)" "map_of d k \<noteq> None" using assms by (auto simp: placed_def)
  with Field_Loc show ?thesis
    by (auto simp: load_loc_def store_loc_def box_at_put map_of_set_key split: json_loc.split)
qed

lemma box_store:
  assumes "placed s l"
  shows "box_at (store_loc l h s) b = (case l of
      Var_Loc x \<Rightarrow> box_at s b
    | Elem_Loc b' i \<Rightarrow> if b' = b then (case box_at s b of Some (List_Box hs) \<Rightarrow> Some (List_Box (hs[i := h])) | y \<Rightarrow> y) else box_at s b
    | Field_Loc b' k \<Rightarrow> if b' = b then (case box_at s b of Some (Dict_Box d) \<Rightarrow> Some (Dict_Box (set_key k h d)) | y \<Rightarrow> y) else box_at s b)"
  using assms by (auto simp: placed_def store_loc_def box_at_put split: json_loc.split)

lemma placed_store:
  assumes "placed s l"
  shows "placed (store_loc l h s) l2 = placed s l2"
proof (cases l)
  case (Var_Loc x)
  with assms show ?thesis
    by (auto simp: placed_def store_loc_def map_of_set_key split: json_loc.split)
next
  case (Elem_Loc b i)
  then obtain hs where "box_at s b = Some (List_Box hs)" "i < length hs" using assms by (auto simp: placed_def)
  with Elem_Loc show ?thesis
    by (auto simp: placed_def store_loc_def box_at_put split: json_loc.split)
next
  case (Field_Loc b k)
  then obtain d h0 where "box_at s b = Some (Dict_Box d)" "map_of d k = Some h0" "distinct (map fst d)"
    using assms unfolding placed_def by auto
  with Field_Loc show ?thesis
    by (auto simp: placed_def store_loc_def box_at_put map_of_set_key split: json_loc.split)
qed

lemma handles_store:
  assumes "placed s l" and "load_loc l s = Some h"
  shows "all_handles (store_loc l h' s) + {#h#} = all_handles s + {#h'#}"
proof (cases l)
  case (Var_Loc x)
  then have "distinct (map fst (json_vars s))" "map_of (json_vars s) x = Some h"
    using assms by (auto simp: placed_def load_loc_def)
  from mset_set_key [OF this, of h'] Var_Loc show ?thesis
    by (simp add: all_handles_def store_loc_def)
next
  case (Elem_Loc b i)
  then obtain hs where hs: "box_at s b = Some (List_Box hs)" "i < length hs" "h = hs ! i" using assms by (auto simp: placed_def load_loc_def)
  then have "all_handles (store_loc l h' s) + mset hs + {#h#} = all_handles s + (mset (hs[i := h']) + {#h#})"
    using all_handles_box [OF hs(1), of "Some (List_Box (hs[i := h']))"] Elem_Loc
    by (simp add: store_loc_def opt_handles_def)
  also have "\<dots> = all_handles s + {#h'#} + mset hs" using mset_list_set [OF hs(2), of h'] hs(3) by simp
  finally show ?thesis by simp
next
  case (Field_Loc b k)
  then obtain d where d: "box_at s b = Some (Dict_Box d)" "distinct (map fst d)" "map_of d k = Some h" using assms by (auto simp: placed_def load_loc_def)
  then have "all_handles (store_loc l h' s) + mset (map snd d) + {#h#} = all_handles s + (mset (map snd (set_key k h' d)) + {#h#})"
    using all_handles_box [OF d(1), of "Some (Dict_Box (set_key k h' d))"] Field_Loc
    by (simp add: store_loc_def opt_handles_def)
  also have "\<dots> = all_handles s + {#h'#} + mset (map snd d)" using mset_set_key [OF d(2,3), of h'] by simp
  finally show ?thesis by simp
qed

lemma heap_inv_store:
  assumes inv: "heap_inv s (add_mset h' H) B" and l: "placed s l" "load_loc l s = Some h"
  shows "heap_inv (store_loc l h' s) (add_mset h H) B"
proof (cases l)
  case (Var_Loc x)
  then have "distinct (map fst (json_vars s))" "map_of (json_vars s) x = Some h"
    using l by (auto simp: placed_def load_loc_def)
  from mset_set_key [OF this, of h'] Var_Loc show ?thesis
    by (auto simp: store_loc_def intro!: heap_inv_vars [OF inv])
next
  case (Elem_Loc b i)
  then obtain hs where hs: "box_at s b = Some (List_Box hs)" "i < length hs" "h = hs ! i" using l by (auto simp: placed_def load_loc_def)
  have "heap_inv (put_box s b (Some (List_Box (hs[i := h'])))) (add_mset h H) B"
  proof (rule heap_inv_set_box [OF inv hs(1)])
    have "add_mset h' H + mset hs = H + (mset hs + {#h'#})" by simp
    also have "\<dots> = H + (mset (hs[i := h']) + {#h#})" using mset_list_set [OF hs(2), of h'] hs(3) by (simp only:)
    finally show "add_mset h' H + mset (box_handles (List_Box hs)) = add_mset h H + mset (box_handles (List_Box (hs[i := h'])))"
      by simp
  qed simp
  with Elem_Loc hs(1) show ?thesis by (simp add: store_loc_def)
next
  case (Field_Loc b k)
  then obtain d where d: "box_at s b = Some (Dict_Box d)" "distinct (map fst d)" "map_of d k = Some h" using l by (auto simp: placed_def load_loc_def)
  have "heap_inv (put_box s b (Some (Dict_Box (set_key k h' d)))) (add_mset h H) B"
  proof (rule heap_inv_set_box [OF inv d(1)])
    have "add_mset h' H + mset (map snd d) = H + (mset (map snd d) + {#h'#})" by simp
    also have "\<dots> = H + (mset (map snd (set_key k h' d)) + {#h#})" using mset_set_key [OF d(2,3), of h'] by (simp only:)
    finally show "add_mset h' H + mset (box_handles (Dict_Box d)) = add_mset h H + mset (box_handles (Dict_Box (set_key k h' d)))"
      by simp
  qed (simp add: d(2))
  with Field_Loc d(1) show ?thesis by (simp add: store_loc_def)
qed

text \<open>A cell that is pointed to from two places is counted twice.\<close>

lemma two_places:
  assumes "placed s l" "load_loc l s = Some (Some c)" "placed s l2" "load_loc l2 s = Some (Some c)" "l2 \<noteq> l"
  shows "2 \<le> count (all_handles s) (Some c)"
proof -
  let ?s1 = "store_loc l None s"
  have "load_loc l2 ?s1 = Some (Some c)" "placed ?s1 l2" using assms by (simp_all add: load_store placed_store)
  then have "all_handles (store_loc l2 None ?s1) + {#Some c#} = all_handles ?s1 + {#None#}" by (intro handles_store)
  then have "count (all_handles (store_loc l2 None ?s1) + {#Some c#}) (Some c) = count (all_handles ?s1 + {#None#}) (Some c)" by simp
  moreover have "all_handles ?s1 + {#Some c#} = all_handles s + {#None#}" by (rule handles_store [OF assms(1,2)])
  then have "count (all_handles ?s1 + {#Some c#}) (Some c) = count (all_handles s + {#None#}) (Some c)" by simp
  ultimately show ?thesis by simp
qed

lemma place_handle:
  assumes "placed s l" "load_loc l s = Some (Some c)"
  shows "Some c \<in># all_handles s"
proof -
  have "all_handles (store_loc l None s) + {#Some c#} = all_handles s + {#None#}" by (rule handles_store [OF assms])
  then have "Some c \<in># all_handles s + {#None#}" by (metis union_iff multi_member_last add_mset_add_single)
  then show ?thesis by simp
qed

section \<open>The way to an object\<close>

fun step_loc :: "nat \<Rightarrow> json_step \<Rightarrow> json_loc" where
  "step_loc b (Index i) = Elem_Loc b i"
| "step_loc b (Key k) = Field_Loc b k"

lemma step_loc_inj [simp]: "step_loc b st = step_loc b' st' \<longleftrightarrow> b = b' \<and> st = st'"
  by (cases st; cases st') auto

lemma step_loc_not_var [simp]: "step_loc b st \<noteq> Var_Loc x" "Var_Loc x \<noteq> step_loc b st"
  by (cases st; simp)+

text \<open>The place of a child of a cell.\<close>

definition child_loc :: "'d json_heap \<Rightarrow> nat \<Rightarrow> json_step \<Rightarrow> json_loc \<Rightarrow> bool" where
  "child_loc s c st l \<longleftrightarrow> (\<exists>v b. cell_at s c = Some v \<and> ref_cnt v \<noteq> 0 \<and> box_ptr v = Inr (Some b)
     \<and> l = step_loc b st \<and> load_loc l s \<noteq> None)"

lemma child_not_var: "child_loc s c st l \<Longrightarrow> l \<noteq> Var_Loc x"
  by (auto simp: child_loc_def)

lemma child_unique:
  assumes "heap_inv s H B" "child_loc s c st l" "child_loc s c' st' l"
  shows "c' = c" "st' = st"
proof -
  obtain v b where v: "cell_at s c = Some v" "ref_cnt v \<noteq> 0" "box_ptr v = Inr (Some b)" "l = step_loc b st"
    using assms(2) by (auto simp: child_loc_def)
  obtain v' b' where v': "cell_at s c' = Some v'" "ref_cnt v' \<noteq> 0" "box_ptr v' = Inr (Some b')" "l = step_loc b' st'"
    using assms(3) by (auto simp: child_loc_def)
  have b: "b' = b" "st' = st" using v(4) v'(4) by simp_all
  then show "c' = c" using owner_unique(1) [OF assms(1) v(1-3) v'(1,2)] v'(3) by simp
  show "st' = st" by (rule b)
qed

lemma child_placed: "heap_inv s H B \<Longrightarrow> child_loc s c st l \<Longrightarrow> placed s l"
proof -
  assume inv: "heap_inv s H B" and ch: "child_loc s c st l"
  then obtain v b where v: "cell_at s c = Some v" "ref_cnt v \<noteq> 0" "box_ptr v = Inr (Some b)" "l = step_loc b st" "load_loc l s \<noteq> None"
    by (auto simp: child_loc_def)
  have ty: "typed s v" by (rule heap_invD(2) [OF inv v(1,2)])
  show "placed s l"
  proof (cases st)
    case (Index i)
    with v(4,5) show ?thesis by (auto simp: load_loc_def placed_def split: option.splits box.splits if_splits)
  next
    case (Key k)
    then obtain d where d: "box_at s b = Some (Dict_Box d)" "map_of d k \<noteq> None"
      using v(4,5) by (auto simp: load_loc_def split: option.splits box.splits)
    moreover have "distinct (map fst d)" using ty v(3) d(1) by (simp add: typed_iff)
    ultimately show ?thesis using Key v(4) by (simp add: placed_def)
  qed
qed

lemma child_store: "placed s l \<Longrightarrow> child_loc (store_loc l h s) c st l2 = child_loc s c st l2"
  by (simp add: child_loc_def load_store) (metis placed_load)

lemma kept_child:
  assumes "kept s s' c" "child_loc s c st l"
  shows "child_loc s' c st l" "load_loc l s' = load_loc l s"
proof -
  obtain v b where v: "cell_at s c = Some v" "box_ptr v = Inr (Some b)" "l = step_loc b st" "load_loc l s \<noteq> None"
    using assms(2) by (auto simp: child_loc_def)
  obtain v' where v': "cell_at s' c = Some v'" "ref_cnt v' \<noteq> 0" "val_type v' = val_type v" "val_data v' = val_data v" "box_at s' b = box_at s b"
    using assms(1) v(1,2) by (auto simp: kept_def)
  have p': "box_ptr v' = Inr (Some b)" using box_ptr_cong [OF v'(3,4)] v(2) by simp
  show l: "load_loc l s' = load_loc l s" using v(3) v'(5) by (cases st) (simp_all add: load_loc_def)
  show "child_loc s' c st l" unfolding child_loc_def using v v' l p' by auto
qed

fun walk :: "'d json_heap \<Rightarrow> json_loc \<Rightarrow> json_step list \<Rightarrow> json_loc list \<Rightarrow> nat list \<Rightarrow> json_loc \<Rightarrow> bool" where
  "walk s l [] ls cs l' = (ls = [] \<and> cs = [] \<and> l' = l)"
| "walk s l (st # p) ls cs l' = (\<exists>c cs' ls' l1. ls = l # ls' \<and> cs = c # cs' \<and> load_loc l s = Some (Some c)
     \<and> child_loc s c st l1 \<and> walk s l1 p ls' cs' l')"

lemma walk_snoc:
  "walk s l p ls cs l' \<Longrightarrow> load_loc l' s = Some (Some c) \<Longrightarrow> child_loc s c st l'' \<Longrightarrow> walk s l (p @ [st]) (ls @ [l']) (cs @ [c]) l''"
  by (induction p arbitrary: l ls cs) (simp, fastforce)

lemma walk_cells:
  "walk s l p ls cs l' \<Longrightarrow> heap_inv s H B \<Longrightarrow> placed s l \<Longrightarrow> c \<in> set cs \<Longrightarrow> \<exists>li \<in> set ls. load_loc li s = Some (Some c) \<and> placed s li"
proof (induction p arbitrary: l ls cs)
  case (Cons st p)
  then obtain c0 cs' ls' l1 where w: "ls = l # ls'" "cs = c0 # cs'" "load_loc l s = Some (Some c0)" "child_loc s c0 st l1" "walk s l1 p ls' cs' l'"
    by auto
  show ?case
  proof (cases "c = c0")
    case False
    then show ?thesis using Cons.IH [OF w(5) Cons.prems(2) child_placed [OF Cons.prems(2) w(4)]] Cons.prems(4) w by auto
  qed (use w Cons.prems in auto)
qed simp

lemma walk_locs: "walk s l p ls cs l' \<Longrightarrow> li \<in> set ls \<or> li = l' \<Longrightarrow> li = l \<or> (\<exists>c \<in> set cs. \<exists>st. child_loc s c st li)"
proof (induction p arbitrary: l ls cs)
  case (Cons st p)
  then obtain c0 cs' ls' l1 where w: "ls = l # ls'" "cs = c0 # cs'" "child_loc s c0 st l1" "walk s l1 p ls' cs' l'"
    by auto
  show ?case using Cons.IH [OF w(4)] Cons.prems(2) w by auto
qed auto

lemma walk_store: "walk s l p ls cs l' \<Longrightarrow> l' \<notin> set ls \<Longrightarrow> placed s l' \<Longrightarrow> walk (store_loc l' h s) l p ls cs l'"
proof (induction p arbitrary: l ls cs)
  case (Cons st p)
  then show ?case by (fastforce simp: load_store child_store)
qed simp

text \<open>A way is kept by a frame that names no cell that is pointed to.\<close>

lemma walk_frame:
  assumes "walk s l p ls cs l'" and "heap_inv s H B" and "heap_inv s1 H1 B1" and "frame s s1 N X B2"
    and "\<And>d. d \<in> N \<Longrightarrow> Some d \<notin># all_handles s" and "placed s l" and "placed s1 l" and "load_loc l s1 = load_loc l s"
  shows "walk s1 l p ls cs l' \<and> (\<forall>c \<in> set cs. kept s s1 c) \<and> load_loc l' s1 = load_loc l' s \<and> placed s1 l'"
  using assms
proof (induction p arbitrary: l ls cs)
  case (Cons st p)
  then obtain c cs' ls' l1 where w: "ls = l # ls'" "cs = c # cs'" "load_loc l s = Some (Some c)" "child_loc s c st l1" "walk s l1 p ls' cs' l'"
    by auto
  have "c \<notin> N" using place_handle [OF Cons.prems(6) w(3)] Cons.prems(5) by blast
  moreover have "live s1 c"
    using place_handle [OF Cons.prems(7)] w(3) Cons.prems(8) heap_invD(1) [OF Cons.prems(3), of c] by simp
  ultimately have k: "kept s s1 c" using frameD(3) [OF Cons.prems(4)] by blast
  note ch = kept_child [OF k w(4)]
  show ?case
    using Cons.IH [OF w(5) Cons.prems(2-5) child_placed [OF Cons.prems(2) w(4)] child_placed [OF Cons.prems(3) ch(1)] ch(2)]
      w k ch Cons.prems(8) by auto
qed simp

section \<open>Cursors\<close>

text \<open>
  A reference at the end of a path from a variable: the places on the way are different, and the
  cells on the way are different and pointed to from the way only.
\<close>

definition cursor :: "'d json_heap \<Rightarrow> nat \<Rightarrow> json_step list \<Rightarrow> json_loc list \<Rightarrow> nat list \<Rightarrow> json_loc \<Rightarrow> bool" where
  "cursor s x p ls cs l \<longleftrightarrow> walk s (Var_Loc x) p ls cs l \<and> placed s (Var_Loc x) \<and> l \<notin> set ls \<and> distinct cs
     \<and> (\<forall>c \<in> set cs. count (all_handles s) (Some c) = 1)"

lemma cursor_placed:
  assumes "heap_inv s H B" "cursor s x p ls cs l"
  shows "placed s l"
  using walk_locs [of s "Var_Loc x" p ls cs l l] child_placed [OF assms(1)] assms(2) by (auto simp: cursor_def)

text \<open>A place that points to a cell on the way is on the way.\<close>

lemma cursor_place:
  assumes inv: "heap_inv s H B" and cur: "cursor s x p ls cs l" and c: "c \<in> set cs" and l2: "placed s l2" "load_loc l2 s = Some (Some c)"
  shows "l2 \<in> set ls"
proof -
  obtain li where li: "li \<in> set ls" "load_loc li s = Some (Some c)" "placed s li"
    using walk_cells [of s "Var_Loc x" p ls cs l H B c] inv cur c by (auto simp: cursor_def)
  have "count (all_handles s) (Some c) = 1" using cur c by (simp add: cursor_def)
  then have "l2 = li" using two_places [OF li(3,2) l2] by auto
  with li show ?thesis by simp
qed

lemma cursor_leaf: "heap_inv s H B \<Longrightarrow> cursor s x p ls cs l \<Longrightarrow> load_loc l s = Some (Some c) \<Longrightarrow> c \<notin> set cs"
  using cursor_place [of s H B x p ls cs l c l] cursor_placed [of s H B x p ls cs l] by (auto simp: cursor_def)

lemma cursor_other_var:
  assumes inv: "heap_inv s H B" and cur: "cursor s x p ls cs l" and y: "y \<noteq> x" "placed s (Var_Loc y)" "load_loc (Var_Loc y) s = Some (Some c)"
  shows "c \<notin> set cs"
proof
  assume "c \<in> set cs"
  from cursor_place [OF inv cur this y(2,3)] have "Var_Loc y \<in> set ls" .
  then show False using walk_locs [of s "Var_Loc x" p ls cs l "Var_Loc y"] cur y(1) child_not_var by (fastforce simp: cursor_def)
qed

lemma cursor_closed:
  assumes inv: "heap_inv s H B" and cur: "cursor s x p ls cs l" and d: "d \<notin> set cs" and e: "child_loc s d st l2" "load_loc l2 s = Some (Some e)"
  shows "e \<notin> set cs"
proof
  assume "e \<in> set cs"
  from cursor_place [OF inv cur this child_placed [OF inv e(1)] e(2)] have "l2 \<in> set ls" .
  then obtain c st' where "c \<in> set cs" "child_loc s c st' l2"
    using walk_locs [of s "Var_Loc x" p ls cs l l2] cur child_not_var [OF e(1)] by (auto simp: cursor_def)
  with child_unique(1) [OF inv e(1)] d show False by blast
qed

lemma cursor_owner: "heap_inv s H B \<Longrightarrow> cursor s x p ls cs l \<Longrightarrow> child_loc s d st l \<Longrightarrow> d \<in> set cs"
  using walk_locs [of s "Var_Loc x" p ls cs l l] child_unique(1) [of s H B] child_not_var by (fastforce simp: cursor_def)

end
