(* ===== verification/Json_Values.thy ===== *)
theory Json_Values
  imports Json_Paths
begin

text \<open>
  What a heap of shared cells stands for: JSON values that belong to their variables. Every call
  of a client is shown to have the effect it would have on values that share nothing.
\<close>

section \<open>Values and paths\<close>

definition children_list :: "'d json \<Rightarrow> 'd json list" where
  "children_list v = (case v of JList vs \<Rightarrow> vs | _ \<Rightarrow> [])"

definition children_dict :: "'d json \<Rightarrow> (string \<times> 'd json) list" where
  "children_dict v = (case v of JDict d \<Rightarrow> d | _ \<Rightarrow> [])"

text \<open>What the writing \<open>operator[]\<close> makes of a value: the place is there afterwards.\<close>

fun enter :: "json_step \<Rightarrow> 'd json \<Rightarrow> 'd json" where
  "enter (Index i) v = JList (children_list v @ replicate (i + 1 - length (children_list v)) JNull)"
| "enter (Key k) v = JDict (if map_of (children_dict v) k \<noteq> None then children_dict v else children_dict v @ [(k, JDict [])])"

text \<open>What a \<open>const\<close> reference finds.\<close>

fun read_step :: "json_step \<Rightarrow> 'd json \<Rightarrow> 'd json" where
  "read_step (Index i) v = (if i < length (children_list v) then children_list v ! i else JNull)"
| "read_step (Key k) v = (case map_of (children_dict v) k of Some w \<Rightarrow> w | None \<Rightarrow> JNull)"

definition read_path :: "json_step list \<Rightarrow> 'd json \<Rightarrow> 'd json" where
  "read_path p v = fold read_step p v"

fun put_step :: "json_step \<Rightarrow> 'd json \<Rightarrow> 'd json \<Rightarrow> 'd json" where
  "put_step (Index i) w v = JList ((children_list v)[i := w])"
| "put_step (Key k) w v = JDict (set_key k w (children_dict v))"

fun update_path :: "json_step list \<Rightarrow> ('d json \<Rightarrow> 'd json) \<Rightarrow> 'd json \<Rightarrow> 'd json" where
  "update_path [] f v = f v"
| "update_path (st # p) f v = put_step st (update_path p f (read_step st v)) v"

section \<open>The value a cell holds\<close>

fun holds :: "(nat \<Rightarrow> 'd node option) \<Rightarrow> nat option \<Rightarrow> 'd json \<Rightarrow> bool" where
  "holds g h JNull = (case h of None \<Rightarrow> False | Some c \<Rightarrow> g c = Some N_Null)"
| "holds g h (JBool b) = (case h of None \<Rightarrow> False | Some c \<Rightarrow> g c = Some (N_Bool b))"
| "holds g h (JInt i) = (case h of None \<Rightarrow> False | Some c \<Rightarrow> (case g c of Some (N_Int w) \<Rightarrow> i = sint w | _ \<Rightarrow> False))"
| "holds g h (JDouble d) = (case h of None \<Rightarrow> False | Some c \<Rightarrow> g c = Some (N_Double d))"
| "holds g h (JStr t) = (case h of None \<Rightarrow> False | Some c \<Rightarrow> g c = Some (N_Str t))"
| "holds g h (JList vs) = (case h of None \<Rightarrow> False | Some c \<Rightarrow>
     (case g c of Some (N_List hs) \<Rightarrow> list_all2 (holds g) hs vs | _ \<Rightarrow> False))"
| "holds g h (JDict d) = (case h of None \<Rightarrow> False | Some c \<Rightarrow>
     (case g c of Some (N_Dict e) \<Rightarrow> map fst e = map fst d \<and> list_all2 (holds g) (map snd e) (map snd d) | _ \<Rightarrow> False))"

lemma holds_Some: "holds g h v \<Longrightarrow> \<exists>c n. h = Some c \<and> g c = Some n"
  by (cases v) (auto split: option.splits)

lemma holds_None [simp]: "\<not> holds g None v"
  using holds_Some by fastforce

lemma holds_list [simp]: "holds g (Some c) (JList vs) \<longleftrightarrow> (\<exists>hs. g c = Some (N_List hs) \<and> list_all2 (holds g) hs vs)"
  by (auto split: option.split node.split)

lemma holds_dict [simp]:
  "holds g (Some c) (JDict d) \<longleftrightarrow> (\<exists>e. g c = Some (N_Dict e) \<and> map fst e = map fst d \<and> list_all2 (holds g) (map snd e) (map snd d))"
  by (auto split: option.split node.split)

declare holds.simps(6,7) [simp del]

lemma holds_children: "g c = Some n \<Longrightarrow> holds g (Some c) v \<Longrightarrow> None \<notin> set (node_handles n)"
proof (cases v)
  case (JList vs)
  assume "g c = Some n" "holds g (Some c) v"
  with JList obtain hs where "n = N_List hs" "list_all2 (holds g) hs vs" by (auto simp: holds_list)
  then show ?thesis using holds_Some by (fastforce simp: list_all2_conv_all_nth in_set_conv_nth)
next
  case (JDict d)
  assume "g c = Some n" "holds g (Some c) v"
  with JDict obtain e where "n = N_Dict e" "list_all2 (holds g) (map snd e) (map snd d)" by (auto simp: holds_dict)
  then have "None \<notin> set (map snd e)" using holds_Some by (fastforce simp: list_all2_conv_all_nth in_set_conv_nth)
  then show ?thesis using \<open>n = N_Dict e\<close> by simp
qed (auto split: node.splits option.splits)

text \<open>A set of cells that two graphs agree on and that is closed under children.\<close>

lemma holds_transfer:
  assumes same: "\<And>d. d \<in> D \<Longrightarrow> g' d = g d"
    and closed: "\<And>d n e. d \<in> D \<Longrightarrow> g d = Some n \<Longrightarrow> Some e \<in> set (node_handles n) \<Longrightarrow> e \<in> D"
  shows "c \<in> D \<Longrightarrow> holds g (Some c) v \<Longrightarrow> holds g' (Some c) v"
proof (induction v arbitrary: c)
  case (JList vs)
  then obtain hs where hs: "g c = Some (N_List hs)" "list_all2 (holds g) hs vs" by (auto simp: holds_list)
  have "list_all2 (holds g') hs vs"
    using hs(2)
  proof (rule list.rel_mono_strong)
    fix h v assume h: "h \<in> set hs" "v \<in> set vs" "holds g h v"
    then obtain d where d: "h = Some d" using holds_Some by blast
    have "d \<in> D" using closed [OF JList.prems(1) hs(1), of d] h(1) d by simp
    with JList.IH [OF h(2)] h(3) d show "holds g' h v" by simp
  qed
  with hs(1) same [OF JList.prems(1)] show ?case by (simp add: holds_list)
next
  case (JDict d)
  then obtain e where e: "g c = Some (N_Dict e)" "map fst e = map fst d" "list_all2 (holds g) (map snd e) (map snd d)" by (auto simp: holds_dict)
  have "list_all2 (holds g') (map snd e) (map snd d)"
    using e(3)
  proof (rule list.rel_mono_strong)
    fix h v assume h: "h \<in> set (map snd e)" "v \<in> set (map snd d)" "holds g h v"
    then obtain a where a: "h = Some a" using holds_Some by blast
    have "a \<in> D" using closed [OF JDict.prems(1) e(1), of a] h(1) a by simp
    moreover obtain x where "x \<in> set d" "v = snd x" using h(2) by auto
    ultimately show "holds g' h v" using JDict.IH [of x v a] h(3) a by (cases x) auto
  qed
  with e same [OF JDict.prems(1)] show ?case by (simp add: holds_dict)
qed (use same in \<open>simp_all split: option.splits node.splits\<close>)

section \<open>One step down\<close>

fun node_child :: "json_step \<Rightarrow> 'd node \<Rightarrow> nat option option" where
  "node_child (Index i) (N_List hs) = (if i < length hs then Some (hs ! i) else None)"
| "node_child (Key k) (N_Dict e) = map_of e k"
| "node_child st n = None"

fun node_set :: "json_step \<Rightarrow> nat option \<Rightarrow> 'd node \<Rightarrow> 'd node" where
  "node_set (Index i) h (N_List hs) = N_List (hs[i := h])"
| "node_set (Key k) h (N_Dict e) = N_Dict (set_key k h e)"
| "node_set st h n = n"

lemma set_key_twice [simp]: "set_key k h (set_key k h' e) = set_key k h e"
  by (auto simp: set_key_def)

lemma node_set_twice [simp]: "node_set st h (node_set st h' n) = node_set st h n"
  by (cases st; cases n) auto

text \<open>Two lists with the same keys and related values.\<close>

lemma related_map_of:
  "map fst e = map fst d \<Longrightarrow> list_all2 P (map snd e) (map snd d) \<Longrightarrow>
    (map_of e k = None \<and> map_of d k = None) \<or> (\<exists>h v. map_of e k = Some h \<and> map_of d k = Some v \<and> P h v)"
proof (induction e arbitrary: d)
  case (Cons x e)
  then obtain y d' where "d = y # d'" by (cases d) auto
  with Cons show ?case by (cases x; cases y) auto
qed simp

lemma holds_child:
  assumes "g c = Some n" "holds g (Some c) v" "node_child st n = Some h"
  shows "holds g h (read_step st v)"
proof (cases st)
  case (Index i)
  then obtain hs where n: "n = N_List hs" "i < length hs" "h = hs ! i" using assms(3) by (cases n) (auto split: if_splits)
  then obtain vs where "v = JList vs" "list_all2 (holds g) hs vs" using assms(1,2) by (cases v) auto
  with Index n show ?thesis by (simp add: children_list_def list_all2_conv_all_nth)
next
  case (Key k)
  then obtain e where n: "n = N_Dict e" "map_of e k = Some h" using assms(3) by (cases n) auto
  then obtain d where "v = JDict d" "map fst e = map fst d" "list_all2 (holds g) (map snd e) (map snd d)" using assms(1,2) by (cases v) auto
  with Key n related_map_of [of e d "holds g" k] show ?thesis by (auto simp: children_dict_def)
qed

lemma related_set_key:
  "map fst e = map fst d \<Longrightarrow> distinct (map fst e) \<Longrightarrow> P h w \<Longrightarrow>
    (\<And>k' h' v'. (k', h') \<in> set e \<Longrightarrow> k' \<noteq> k \<Longrightarrow> Q h' v' \<Longrightarrow> P h' v') \<Longrightarrow> list_all2 Q (map snd e) (map snd d) \<Longrightarrow>
    map fst (set_key k h e) = map fst (set_key k w d) \<and> list_all2 P (map snd (set_key k h e)) (map snd (set_key k w d))"
proof (induction e arbitrary: d)
  case Nil
  then show ?case by (simp add: set_key_def)
next
  case (Cons x e)
  then obtain y d' where d: "d = y # d'" by (cases d) auto
  have "map fst (set_key k h e) = map fst (set_key k w d') \<and> list_all2 P (map snd (set_key k h e)) (map snd (set_key k w d'))"
    using Cons.prems d by (intro Cons.IH) auto
  with Cons.prems d show ?case by (cases x; cases y) (auto simp: set_key_def)
qed

text \<open>A child is replaced and the others hold what they held.\<close>

lemma holds_put:
  assumes n: "g c = Some n" "holds g (Some c) v" "node_child st n \<noteq> None" and n': "g' c = Some (node_set st h n)"
    and w: "holds g' h w" and keys: "\<And>e. n = N_Dict e \<Longrightarrow> distinct (map fst e)"
    and others: "\<And>st2 h2 u. st2 \<noteq> st \<Longrightarrow> node_child st2 n = Some h2 \<Longrightarrow> holds g h2 u \<Longrightarrow> holds g' h2 u"
  shows "holds g' (Some c) (put_step st w v)"
proof (cases st)
  case (Index i)
  then obtain hs where hs: "n = N_List hs" "i < length hs" using n(3) by (cases n) (auto split: if_splits)
  then obtain vs where vs: "v = JList vs" "list_all2 (holds g) hs vs" using n(1,2) by (cases v) auto
  have "holds g' (hs ! j) (vs ! j)" if "j < length hs" "j \<noteq> i" for j
    using others [of "Index j" "hs ! j" "vs ! j"] that Index hs vs(2) by (simp add: list_all2_conv_all_nth)
  then have "list_all2 (holds g') (hs[i := h]) (vs[i := w])"
    using vs(2) w hs(2) by (auto simp: list_all2_conv_all_nth nth_list_update)
  then show ?thesis using Index hs(1) vs(1) n' by (simp add: holds_list children_list_def)
next
  case (Key k)
  then obtain e where e: "n = N_Dict e" using n(3) by (cases n) auto
  then obtain d where d: "v = JDict d" "map fst e = map fst d" "list_all2 (holds g) (map snd e) (map snd d)" using n(1,2) by (cases v) auto
  have dist: "distinct (map fst e)" by (rule keys [OF e])
  have "map fst (set_key k h e) = map fst (set_key k w d) \<and> list_all2 (holds g') (map snd (set_key k h e)) (map snd (set_key k w d))"
  proof (rule related_set_key [where P = "holds g'" and Q = "holds g", OF d(2) dist w _ d(3)])
    fix k' h' v' assume "(k', h') \<in> set e" "k' \<noteq> k" "holds g h' v'"
    then show "holds g' h' v'" using others [of "Key k'" h' v'] Key e dist by simp
  qed
  then show ?thesis using Key e d(1) n' by (simp add: holds_dict children_dict_def)
qed

section \<open>Contents and places\<close>

lemma node_of_boxes:
  assumes "\<And>b. box_ptr v = Inr (Some b) \<Longrightarrow> box_at s' b = box_at s b"
  shows "node_of s' v = (node_of s v :: 'a node option)"
proof -
  have "(case box_ptr v of Inr (Some b) \<Rightarrow> box_node (box_at s' b) | _ \<Rightarrow> (None :: 'a node option))
      = (case box_ptr v of Inr (Some b) \<Rightarrow> box_node (box_at s b) | _ \<Rightarrow> None)"
    using assms by (auto split: sum.split option.split)
  then show ?thesis unfolding node_of_def by (cases "val_type v") simp_all
qed

lemma view_store_other:
  assumes l: "placed s l" and no: "\<And>st. \<not> child_loc s d st l"
  shows "view (store_loc l h s) d = view s d"
proof (cases "cell_at s d")
  case (Some v)
  have "node_of (store_loc l h s) v = node_of s v" if nz: "ref_cnt v \<noteq> 0"
  proof (rule node_of_boxes)
    fix b assume b: "box_ptr v = Inr (Some b)"
    have "l \<noteq> step_loc b st" for st
      using no [of st] Some nz b placed_load [OF l] by (auto simp: child_loc_def)
    from this [of "Index i" for i] this [of "Key k" for k] show "box_at (store_loc l h s) b = box_at s b"
      by (auto simp: box_store [OF l] split: json_loc.split)
  qed
  with Some show ?thesis by (simp add: view_def)
qed (simp add: view_def)

lemma node_box:
  assumes "typed s v" "ref_cnt v \<noteq> 0" "box_ptr v = Inr (Some b)"
  shows "node_of s v = box_node (box_at s b)"
proof -
  obtain x where x: "box_at s b = Some x" "kind_ok (val_type v) x"
    using typed_kind [OF assms(1,2), of b] assms(2,3) by (auto simp: owned_def)
  from kind_box [OF x(2)] show ?thesis using assms(3) by (auto simp: node_of_def)
qed

lemma child_owner:
  assumes inv: "heap_inv s H B" and c: "child_loc s c st l"
  obtains n where "view s c = Some n" "node_child st n = load_loc l s" "view (store_loc l h s) c = Some (node_set st h n)"
    "\<And>e. n = N_Dict e \<Longrightarrow> distinct (map fst e)"
proof -
  obtain v b where v: "cell_at s c = Some v" "ref_cnt v \<noteq> 0" "box_ptr v = Inr (Some b)" "l = step_loc b st" "load_loc l s \<noteq> None"
    using c by (auto simp: child_loc_def)
  have l: "placed s l" by (rule child_placed [OF inv c])
  have ty: "typed s v" by (rule heap_invD(2) [OF inv v(1,2)])
  have kd: "val_type v = kList \<or> val_type v = kDict \<or> val_type v = kStr"
    using ty v(3) by (auto simp: typed_def box_ptr_def split: json_type.splits)
  have n: "view s c = box_node (box_at s b)" using v(1,2) node_box [OF ty v(2,3)] by (simp add: view_def)
  have n': "view (store_loc l h s) c = box_node (box_at (store_loc l h s) b)" using v(1-3) kd by (auto simp: view_def node_of_def)
  show ?thesis
  proof (cases st)
    case (Index i)
    then obtain hs where hs: "box_at s b = Some (List_Box hs)" "i < length hs" "load_loc l s = Some (hs ! i)"
      using l v(4) by (auto simp: placed_def load_loc_def)
    have "box_at (store_loc l h s) b = Some (List_Box (hs[i := h]))" using box_store [OF l, of h b] Index v(4) hs(1) by simp
    with n n' hs Index show ?thesis by (intro that [of "N_List hs"]) (simp_all add: box_node_def)
  next
    case (Key k)
    then obtain d where d: "box_at s b = Some (Dict_Box d)" "distinct (map fst d)" "load_loc l s = map_of d k"
      using l v(4) by (auto simp: placed_def load_loc_def)
    have "box_at (store_loc l h s) b = Some (Dict_Box (set_key k h d))" using box_store [OF l, of h b] Key v(4) d(1) by simp
    with n n' d Key show ?thesis by (intro that [of "N_Dict d"]) (simp_all add: box_node_def)
  qed
qed

lemma node_place:
  assumes inv: "heap_inv s H B" and n: "view s c = Some n" and h: "node_child st n = Some h"
  shows "\<exists>l. child_loc s c st l \<and> load_loc l s = Some h"
proof (cases st)
  case (Index i)
  then obtain hs where hs: "n = N_List hs" "i < length hs" "h = hs ! i" using h by (cases n) (auto split: if_splits)
  obtain v b where v: "cell_at s c = Some v" "box_ptr v = Inr (Some b)" "box_at s b = Some (List_Box hs)"
    by (rule view_list [OF inv n [unfolded hs(1)]])
  have "ref_cnt v \<noteq> 0" using n v(1) by (auto simp: view_def split: if_splits)
  with v hs Index show ?thesis by (intro exI [of _ "Elem_Loc b i"]) (simp add: child_loc_def load_loc_def)
next
  case (Key k)
  then obtain e where e: "n = N_Dict e" "map_of e k = Some h" using h by (cases n) auto
  obtain v b where v: "cell_at s c = Some v" "box_ptr v = Inr (Some b)" "box_at s b = Some (Dict_Box e)"
    by (rule view_dict [OF inv n [unfolded e(1)]])
  have "ref_cnt v \<noteq> 0" using n v(1) by (auto simp: view_def split: if_splits)
  with v e Key show ?thesis by (intro exI [of _ "Field_Loc b k"]) (simp add: child_loc_def load_loc_def)
qed

lemma node_handle_place:
  assumes inv: "heap_inv s H B" and n: "view s c = Some n" and h: "h \<in> set (node_handles n)"
  shows "\<exists>st l. child_loc s c st l \<and> load_loc l s = Some h"
proof -
  have "\<exists>st. node_child st n = Some h"
  proof (cases n)
    case (N_List hs)
    with h obtain i where "i < length hs" "h = hs ! i" by (auto simp: in_set_conv_nth)
    with N_List show ?thesis by (intro exI [of _ "Index i"]) simp
  next
    case (N_Dict e)
    have "distinct (map fst e)" by (rule view_dict [OF inv n [unfolded N_Dict]])
    moreover obtain k where "(k, h) \<in> set e" using h N_Dict by auto
    ultimately show ?thesis using N_Dict by (intro exI [of _ "Key k"]) simp
  qed (use h in simp_all)
  then show ?thesis using node_place [OF inv n] by blast
qed

lemma node_set_same:
  assumes "node_child st n = Some h" "\<And>e. n = N_Dict e \<Longrightarrow> distinct (map fst e)"
  shows "node_set st h n = n"
proof (cases st)
  case (Index i)
  with assms(1) show ?thesis by (cases n) (auto split: if_splits)
next
  case (Key k)
  with assms(1) obtain e where e: "n = N_Dict e" "map_of e k = Some h" by (cases n) auto
  have "set_key k h e = e" using e(2) assms(2) [OF e(1)] by (induction e) (auto simp: set_key_def set_key_other [unfolded set_key_def] split: if_splits)
  with Key e show ?thesis by simp
qed

end
