(* ===== verification/Json_Hole.thy ===== *)
theory Json_Hole
  imports Json_Values
begin

text \<open>
  What the calls of a client leave alone, and what a call on the object at the end of a path does
  to the values of all variables: only the variable of the path changes, at the end of the path.
\<close>

section \<open>Values that stay\<close>

text \<open>A function that changes no cell an object points to.\<close>

definition quiet :: "'d json_heap \<Rightarrow> nat option multiset \<Rightarrow> nat option multiset \<Rightarrow> 'd json_heap \<Rightarrow> nat option multiset \<Rightarrow> bool" where
  "quiet s H X s1 H1 \<longleftrightarrow> heap_inv s H {#} \<and> heap_inv s1 H1 {#} \<and> (\<exists>N. frame s s1 N X {#} \<and> (\<forall>d \<in> N. Some d \<notin># all_handles s))"

lemma quiet_kept:
  assumes "quiet s H X s1 H1" "Some d \<in># all_handles s" "live s1 d"
  shows "kept s s1 d"
  using assms frameD(3) unfolding quiet_def by blast

lemma quiet_vars: "quiet s H X s1 H1 \<Longrightarrow> json_vars s1 = json_vars s \<and> null_val s1 = null_val s"
  using frameD(1,2) unfolding quiet_def by blast

lemma placed_live: "heap_inv s H B \<Longrightarrow> placed s l \<Longrightarrow> load_loc l s = Some (Some d) \<Longrightarrow> live s d"
  using heap_invD(1) [of s H B d] place_handle [of s l d] by simp

lemma quiet_holds:
  assumes q: "quiet s H X s1 H1" and d: "Some d \<in># all_handles s" "live s1 d" and v: "holds (view s) (Some d) v"
  shows "holds (view s1) (Some d) v"
proof (rule holds_transfer [of "{d. Some d \<in># all_handles s \<and> live s1 d}" "view s1" "view s"])
  have inv: "heap_inv s H {#}" "heap_inv s1 H1 {#}" using q by (simp_all add: quiet_def)
  fix d assume d: "d \<in> {d. Some d \<in># all_handles s \<and> live s1 d}"
  then have k: "kept s s1 d" using quiet_kept [OF q] by simp
  then show "view s1 d = view s d" by (rule view_kept)
  fix n e assume "view s d = Some n" "Some e \<in> set (node_handles n)"
  from node_handle_place [OF inv(1) this] obtain st l where l: "child_loc s d st l" "load_loc l s = Some (Some e)" by blast
  note k' = kept_child [OF k l(1)]
  show "e \<in> {d. Some d \<in># all_handles s \<and> live s1 d}"
    using place_handle [OF child_placed [OF inv(1) l(1)] l(2)] placed_live [OF inv(2) child_placed [OF inv(2) k'(1)]] k'(2) l(2)
    by simp
qed (use d v in simp_all)

text \<open>A store at the end of a path changes no value but those of the cells on the path.\<close>

lemma store_holds:
  assumes inv: "heap_inv s H B" and cur: "cursor s x p ls cs l" and d: "d \<notin> set cs" and v: "holds (view s) (Some d) v"
  shows "holds (view (store_loc l h s)) (Some d) v"
proof (rule holds_transfer [of "- set cs" "view (store_loc l h s)" "view s"])
  fix d assume d: "d \<in> - set cs"
  show "view (store_loc l h s) d = view s d"
    by (rule view_store_other [OF cursor_placed [OF inv cur]]) (use d cursor_owner [OF inv cur] in auto)
  fix n e assume "view s d = Some n" "Some e \<in> set (node_handles n)"
  from node_handle_place [OF inv this] obtain st l2 where "child_loc s d st l2" "load_loc l2 s = Some (Some e)" by blast
  from cursor_closed [OF inv cur _ this] d show "e \<in> - set cs" by simp
qed (use d v in simp_all)

section \<open>Paths that stay\<close>

lemma walk_next: "walk s l p ls cs l' \<Longrightarrow> l = hd (ls @ [l'])"
  by (cases p) auto

lemma walk_steps:
  "walk s l p ls cs l' \<Longrightarrow> li \<in> set ls \<or> li = l' \<Longrightarrow> li = l \<or> (\<exists>(c, st) \<in> set (zip cs p). child_loc s c st li)"
proof (induction p arbitrary: l ls cs)
  case (Cons st p)
  then obtain c0 cs' ls' l1 where w: "ls = l # ls'" "cs = c0 # cs'" "child_loc s c0 st l1" "walk s l1 p ls' cs' l'"
    by auto
  show ?case using Cons.IH [OF w(4)] Cons.prems(2) w by auto
qed auto

lemma walk_len: "walk s l p ls cs l' \<Longrightarrow> length cs = length p \<and> length ls = length p"
  by (induction p arbitrary: l ls cs) auto

text \<open>The other children of a cell on the path are not on it.\<close>

lemma cursor_sibling:
  assumes inv: "heap_inv s H B" and cur: "cursor s x p ls cs l" and c: "(c, st) \<in> set (zip cs p)"
    and l2: "child_loc s c st2 l2" "st2 \<noteq> st"
  shows "l2 \<notin> set ls \<and> l2 \<noteq> l"
proof (rule ccontr)
  have w: "walk s (Var_Loc x) p ls cs l" and d: "distinct cs" using cur by (simp_all add: cursor_def)
  assume "\<not> ?thesis"
  then have "l2 = Var_Loc x \<or> (\<exists>(c, st) \<in> set (zip cs p). child_loc s c st l2)" using walk_steps [OF w, of l2] by auto
  then obtain c' st' where c': "(c', st') \<in> set (zip cs p)" "child_loc s c' st' l2" using child_not_var [OF l2(1)] by auto
  note u = child_unique [OF inv l2(1) c'(2)]
  have "map fst (zip cs p) = cs" using walk_len [OF w] by simp
  then have "distinct (map fst (zip cs p))" using d by simp
  then have "st' = st" using eq_key_imp_eq_value [OF _ c, of st'] c'(1) u(1) by simp
  with u(2) l2(2) show False by simp
qed

lemma cursor_sibling_cell:
  assumes inv: "heap_inv s H B" and cur: "cursor s x p ls cs l" and c: "(c, st) \<in> set (zip cs p)"
    and l2: "child_loc s c st2 l2" "st2 \<noteq> st" "load_loc l2 s = Some (Some e)"
  shows "e \<notin> set cs"
  using cursor_place [OF inv cur _ child_placed [OF inv l2(1)] l2(3)] cursor_sibling [OF inv cur c l2(1,2)] by blast

lemma var_place:
  assumes "json_vars s1 = json_vars s"
  shows "placed s1 (Var_Loc x) = placed s (Var_Loc x)" "load_loc (Var_Loc x) s1 = load_loc (Var_Loc x) s"
  using assms unfolding placed_def load_loc_def json_loc.case by (simp_all only:)

lemma quiet_cursor:
  assumes q: "quiet s H X s1 H1" and cur: "cursor s x p ls cs l" and X: "\<forall>c \<in> set cs. Some c \<notin># X"
  shows "cursor s1 x p ls cs l \<and> (\<forall>c \<in> set cs. kept s s1 c) \<and> load_loc l s1 = load_loc l s \<and> placed s1 l"
proof -
  obtain N where N: "frame s s1 N X {#}" "\<forall>d \<in> N. Some d \<notin># all_handles s" and inv: "heap_inv s H {#}" "heap_inv s1 H1 {#}"
    using q by (auto simp: quiet_def)
  have w: "walk s (Var_Loc x) p ls cs l" "placed s (Var_Loc x)" using cur by (simp_all add: cursor_def)
  have p1: "placed s1 (Var_Loc x)" "load_loc (Var_Loc x) s1 = load_loc (Var_Loc x) s"
    using w(2) var_place [OF frameD(1) [OF N(1)]] by simp_all
  have w1: "walk s1 (Var_Loc x) p ls cs l \<and> (\<forall>c \<in> set cs. kept s s1 c) \<and> load_loc l s1 = load_loc l s \<and> placed s1 l"
    using walk_frame [OF w(1) inv N(1) _ w(2) p1] N(2) by blast
  have "count (all_handles s1) (Some c) = 1" if c: "c \<in> set cs" for c
  proof -
    obtain li where "load_loc li s1 = Some (Some c)" "placed s1 li"
      using walk_cells [OF conjunct1 [OF w1] inv(2) p1(1) c] by blast
    from place_handle [OF this(2,1)] have "0 < count (all_handles s1) (Some c)" by (rule count_greater_zero_iff [THEN iffD2])
    moreover have "count (all_handles s1) (Some c) \<le> count (all_handles s + X) (Some c)"
      by (rule mset_subset_eq_count [OF frameD(6) [OF N(1)]])
    moreover have "count (all_handles s + X) (Some c) = 1"
      using cur X c by (simp add: cursor_def not_in_iff)
    ultimately show ?thesis by linarith
  qed
  with w1 p1(1) cur show ?thesis by (simp add: cursor_def)
qed

lemma store_cursor:
  assumes inv: "heap_inv s H B" and cur: "cursor s x p ls cs l" and h: "\<forall>c \<in> set cs. h \<noteq> Some c"
  shows "cursor (store_loc l h s) x p ls cs l"
proof -
  note l = cursor_placed [OF inv cur]
  obtain h0 where h0: "load_loc l s = Some h0" using placed_load [OF l] by blast
  have "count (all_handles (store_loc l h s)) (Some c) = 1" if c: "c \<in> set cs" for c
  proof -
    have "h0 \<noteq> Some c" using cursor_leaf [OF inv cur, of c] h0 c by auto
    moreover have "count (all_handles (store_loc l h s) + {#h0#}) (Some c) = count (all_handles s + {#h#}) (Some c)"
      using handles_store [OF l h0, of h] by simp
    ultimately show ?thesis using h c cur by (auto simp: cursor_def)
  qed
  then show ?thesis using cur walk_store [of s "Var_Loc x" p ls cs l h] l by (auto simp: cursor_def placed_store)
qed

section \<open>A call on the object at the end of a path\<close>

text \<open>The object is taken out, the function runs, and the cell it gives is put back.\<close>

definition fills :: "'d json_heap \<Rightarrow> nat \<Rightarrow> json_step list \<Rightarrow> json_loc list \<Rightarrow> nat list \<Rightarrow> json_loc \<Rightarrow> nat option multiset
  \<Rightarrow> nat \<Rightarrow> 'd json_heap \<Rightarrow> bool" where
  "fills s x p ls cs l X c' s1 \<longleftrightarrow> heap_inv s {#} {#} \<and> cursor s x p ls cs l
     \<and> quiet (store_loc l None s) {#the (load_loc l s)#} X s1 {#Some c'#} \<and> (\<forall>c \<in> set cs. c' \<noteq> c \<and> Some c \<notin># X)"

lemma taken_out:
  assumes inv: "heap_inv s {#} {#}" and cur: "cursor s x p ls cs l"
  shows "heap_inv (store_loc l None s) {#the (load_loc l s)#} {#}" "cursor (store_loc l None s) x p ls cs l"
    "load_loc l (store_loc l None s) = Some None"
proof -
  note l = cursor_placed [OF inv cur]
  obtain h where h: "load_loc l s = Some h" using placed_load [OF l] by blast
  have "heap_inv s (add_mset None {#}) {#}" using inv by simp
  from heap_inv_store [OF this l h] h show "heap_inv (store_loc l None s) {#the (load_loc l s)#} {#}" by simp
  show "cursor (store_loc l None s) x p ls cs l" by (rule store_cursor [OF inv cur]) simp
  show "load_loc l (store_loc l None s) = Some None" by (simp add: load_store [OF l])
qed

lemma fills_facts:
  assumes f: "fills s x p ls cs l X c' s1"
  shows "cursor s1 x p ls cs l" "\<forall>c \<in> set cs. kept (store_loc l None s) s1 c" "load_loc l s1 = Some None" "placed s1 l"
    "heap_inv (store_loc l (Some c') s1) {#} {#}" "cursor (store_loc l (Some c') s1) x p ls cs l"
    "load_loc l (store_loc l (Some c') s1) = Some (Some c')"
proof -
  have inv: "heap_inv s {#} {#}" and cur: "cursor s x p ls cs l"
    and q: "quiet (store_loc l None s) {#the (load_loc l s)#} X s1 {#Some c'#}" and cs: "\<forall>c \<in> set cs. c' \<noteq> c \<and> Some c \<notin># X"
    using f by (simp_all add: fills_def)
  note t = taken_out [OF inv cur]
  note qc = quiet_cursor [OF q t(2)]
  show s1: "cursor s1 x p ls cs l" "\<forall>c \<in> set cs. kept (store_loc l None s) s1 c" "load_loc l s1 = Some None" "placed s1 l"
    using qc cs t(3) by simp_all
  have inv1: "heap_inv s1 {#Some c'#} {#}" using q by (simp add: quiet_def)
  from heap_inv_store [OF this s1(4,3)] show "heap_inv (store_loc l (Some c') s1) {#} {#}" by simp
  show "cursor (store_loc l (Some c') s1) x p ls cs l" by (rule store_cursor [OF inv1 s1(1)]) (use cs in auto)
  show "load_loc l (store_loc l (Some c') s1) = Some (Some c')" by (simp add: load_store [OF s1(4)])
qed

text \<open>Values that are pointed to from another place stay.\<close>

lemma fills_other:
  assumes f: "fills s x p ls cs l X c' s1" and d: "d \<notin> set cs" "holds (view s) (Some d) v"
    and h: "Some d \<in># all_handles (store_loc l None s)" "live s1 d"
  shows "holds (view (store_loc l (Some c') s1)) (Some d) v"
proof -
  have inv: "heap_inv s {#} {#}" and cur: "cursor s x p ls cs l"
    and q: "quiet (store_loc l None s) {#the (load_loc l s)#} X s1 {#Some c'#}" and inv1: "heap_inv s1 {#Some c'#} {#}"
    using f by (simp_all add: fills_def quiet_def)
  have "holds (view (store_loc l None s)) (Some d) v" by (rule store_holds [OF inv cur d])
  from quiet_holds [OF q h this] have "holds (view s1) (Some d) v" .
  from store_holds [OF inv1 fills_facts(1) [OF f] d(1) this] show ?thesis .
qed

lemma fills_place:
  assumes f: "fills s x p ls cs l X c' s1" and l2: "placed s l2" "load_loc l2 s = Some (Some d)" "l2 \<noteq> l" "l2 \<notin> set ls"
    and k: "placed s1 l2" "load_loc l2 s1 = load_loc l2 s" and v: "holds (view s) (Some d) v"
  shows "holds (view (store_loc l (Some c') s1)) (Some d) v"
proof (rule fills_other [OF f _ v])
  have inv: "heap_inv s {#} {#}" and cur: "cursor s x p ls cs l" and inv1: "heap_inv s1 {#Some c'#} {#}"
    using f by (simp_all add: fills_def quiet_def)
  note l = cursor_placed [OF inv cur]
  show "d \<notin> set cs" using cursor_place [OF inv cur _ l2(1,2)] l2(4) by blast
  show "Some d \<in># all_handles (store_loc l None s)"
    by (rule place_handle [of _ l2]) (use l2 in \<open>simp_all add: placed_store [OF l] load_store [OF l]\<close>)
  show "live s1 d" using placed_live [OF inv1 k(1), of d] k(2) l2(2) by simp
qed

lemma fills_var:
  assumes f: "fills s x p ls cs l X c' s1" and y: "y \<noteq> x" "load_loc (Var_Loc y) s = Some h" and v: "holds (view s) h v"
  shows "load_loc (Var_Loc y) (store_loc l (Some c') s1) = Some h" "holds (view (store_loc l (Some c') s1)) h v"
proof -
  have inv: "heap_inv s {#} {#}" and cur: "cursor s x p ls cs l"
    and q: "quiet (store_loc l None s) {#the (load_loc l s)#} X s1 {#Some c'#}"
    using f by (simp_all add: fills_def)
  note l = cursor_placed [OF inv cur]
  have no: "Var_Loc y \<noteq> l" "Var_Loc y \<notin> set ls"
    using walk_locs [of s "Var_Loc x" p ls cs l "Var_Loc y"] cur y(1) child_not_var by (fastforce simp: cursor_def)+
  have py: "placed s (Var_Loc y)" using cur y(2) by (simp add: cursor_def placed_def load_loc_def)
  note vp = var_place [OF conjunct1 [OF quiet_vars [OF q]]]
  have p1: "placed s1 (Var_Loc y)" "load_loc (Var_Loc y) s1 = load_loc (Var_Loc y) s"
    using vp [of y] py no(1) by (simp_all add: placed_store [OF l] load_store [OF l])
  obtain d where d: "h = Some d" using v holds_Some by blast
  show "load_loc (Var_Loc y) (store_loc l (Some c') s1) = Some h"
    using p1(2) y(2) no(1) load_store [OF fills_facts(4) [OF f]] by simp
  show "holds (view (store_loc l (Some c') s1)) h v"
    using fills_place [OF f py _ no p1] y(2) d v by simp
qed

section \<open>The value at the start of the path\<close>

lemma kept_sym: "kept s s' c \<Longrightarrow> kept s' s c"
  unfolding kept_def using box_ptr_cong by metis

lemma child_fun: "child_loc s c st l \<Longrightarrow> child_loc s c st l' \<Longrightarrow> l' = l"
  by (auto simp: child_loc_def)

text \<open>The contents of the cells on the path, before and after.\<close>

lemma fills_node:
  assumes f: "fills s x p ls cs l X c' s1" and c: "(c, st) \<in> set (zip cs p)" and ch: "child_loc s c st l1"
  obtains n where "view s c = Some n" "node_child st n = load_loc l1 s" "\<And>e. n = N_Dict e \<Longrightarrow> distinct (map fst e)"
    "view (store_loc l (Some c') s1) c = Some (if l1 = l then node_set st (Some c') n else n)"
proof -
  have inv: "heap_inv s {#} {#}" and cur: "cursor s x p ls cs l" and inv1: "heap_inv s1 {#Some c'#} {#}"
    using f by (simp_all add: fills_def quiet_def)
  note l = cursor_placed [OF inv cur] and ff = fills_facts [OF f]
  have k: "kept (store_loc l None s) s1 c" using ff(2) c by (auto dest: set_zip_leftD)
  obtain n where n: "view s c = Some n" "node_child st n = load_loc l1 s" "\<And>e. n = N_Dict e \<Longrightarrow> distinct (map fst e)"
    by (rule child_owner [OF inv ch]) blast
  have "view (store_loc l (Some c') s1) c = Some (if l1 = l then node_set st (Some c') n else n)"
  proof (cases "l1 = l")
    case True
    have "view (store_loc l None s) c = Some (node_set st None n)"
      by (rule child_owner [OF inv ch [unfolded True], of None]) (use n(1) in simp)
    then have v1: "view s1 c = Some (node_set st None n)" using view_kept [OF k] by simp
    have ch1: "child_loc s1 c st l" using kept_child(1) [OF k, of st l] ch True by (simp add: child_store [OF l])
    have "view (store_loc l (Some c') s1) c = Some (node_set st (Some c') (node_set st None n))"
      by (rule child_owner [OF inv1 ch1, of "Some c'"]) (use v1 in simp)
    with True show ?thesis by simp
  next
    case False
    have no: "\<not> child_loc s c st2 l" for st2
      using cursor_sibling [OF inv cur c, of st2 l] child_fun [OF ch, of l] False by (cases "st2 = st") auto
    have "\<not> child_loc s1 c st2 l" for st2
      using kept_child(1) [OF kept_sym [OF k], of st2 l] no [of st2] by (auto simp: child_store [OF l])
    then have "view (store_loc l (Some c') s1) c = view s1 c" by (rule view_store_other [OF ff(4)])
    also have "\<dots> = view (store_loc l None s) c" by (rule view_kept [OF k])
    also have "\<dots> = view s c" by (rule view_store_other [OF l no])
    finally show ?thesis using n(1) False by simp
  qed
  with n show ?thesis by (rule that)
qed

lemma fills_sibling:
  assumes f: "fills s x p ls cs l X c' s1" and c: "(c, st) \<in> set (zip cs p)"
    and n: "view s c = Some n" "node_child st2 n = Some h2" "st2 \<noteq> st" and v: "holds (view s) h2 u"
  shows "holds (view (store_loc l (Some c') s1)) h2 u"
proof -
  have inv: "heap_inv s {#} {#}" and cur: "cursor s x p ls cs l" and inv1: "heap_inv s1 {#Some c'#} {#}"
    using f by (simp_all add: fills_def quiet_def)
  note l = cursor_placed [OF inv cur]
  obtain l2 where l2: "child_loc s c st2 l2" "load_loc l2 s = Some h2" using node_place [OF inv n(1,2)] by blast
  obtain e where e: "h2 = Some e" using v holds_Some by blast
  note sb = cursor_sibling [OF inv cur c l2(1) n(3)]
  have k: "kept (store_loc l None s) s1 c" using fills_facts(2) [OF f] c by (auto dest: set_zip_leftD)
  have k1: "child_loc s1 c st2 l2" "load_loc l2 s1 = load_loc l2 s"
    using kept_child [OF k, of st2 l2] l2(1) sb by (simp_all add: child_store [OF l] load_store [OF l])
  show ?thesis
    using fills_place [OF f child_placed [OF inv l2(1)] _ conjunct2 [OF sb] conjunct1 [OF sb] child_placed [OF inv1 k1(1)] k1(2)]
      l2(2) v e by simp
qed

lemma fills_path:
  assumes f: "fills s x p ls cs l X c' s1" and w: "holds (view (store_loc l (Some c') s1)) (Some c') w"
  shows "walk s li p2 ls2 cs2 l \<Longrightarrow> walk (store_loc l (Some c') s1) li p2 ls2 cs2 l \<Longrightarrow> set (zip cs2 p2) \<subseteq> set (zip cs p) \<Longrightarrow>
    load_loc li s = Some h0 \<Longrightarrow> holds (view s) h0 v \<Longrightarrow> load_loc li (store_loc l (Some c') s1) = Some h1 \<Longrightarrow>
    holds (view (store_loc l (Some c') s1)) h1 (update_path p2 (\<lambda>_. w) v)"
proof (induction p2 arbitrary: li ls2 cs2 h0 h1 v)
  case Nil
  then show ?case using fills_facts(7) [OF f] w by simp
next
  case (Cons st p2)
  let ?s' = "store_loc l (Some c') s1"
  have inv: "heap_inv s {#} {#}" and cur: "cursor s x p ls cs l" using f by (simp_all add: fills_def)
  obtain c ls3 cs3 l1 where a: "cs2 = c # cs3" "load_loc li s = Some (Some c)" "child_loc s c st l1" "walk s l1 p2 ls3 cs3 l" "ls2 = li # ls3"
    using Cons.prems(1) by auto
  obtain l1' where b: "load_loc li ?s' = Some (Some c)" "child_loc ?s' c st l1'" "walk ?s' l1' p2 ls3 cs3 l"
    using Cons.prems(2) a(1,5) by auto
  have l1: "l1' = l1" using walk_next [OF a(4)] walk_next [OF b(3)] by simp
  have c: "(c, st) \<in> set (zip cs p)" using Cons.prems(3) a(1) by auto
  have h: "h0 = Some c" "h1 = Some c" using Cons.prems(4,6) a(2) b(1) by simp_all
  obtain n where n: "view s c = Some n" "node_child st n = load_loc l1 s" "\<And>e. n = N_Dict e \<Longrightarrow> distinct (map fst e)"
    "view ?s' c = Some (if l1 = l then node_set st (Some c') n else n)"
    by (rule fills_node [OF f c a(3)]) blast
  obtain g0 g1 where g: "load_loc l1 s = Some g0" "load_loc l1 ?s' = Some g1"
    using a(3) b(2) l1 by (auto simp: child_loc_def)
  have v0: "holds (view s) (Some c) v" using Cons.prems(5) h by simp
  have "holds (view s) g0 (read_step st v)" by (rule holds_child [of "view s", OF n(1) v0]) (use n(2) g in simp)
  from Cons.IH [OF a(4) b(3) [unfolded l1] _ g(1) this g(2)] Cons.prems(3) a(1)
  have u: "holds (view ?s') g1 (update_path p2 (\<lambda>_. w) (read_step st v))" by auto
  have n': "view ?s' c = Some (node_set st g1 n)"
  proof (cases "l1 = l")
    case True
    with n(4) g(2) fills_facts(7) [OF f] show ?thesis by simp
  next
    case False
    then have "p2 \<noteq> []" using a(4) by auto
    then have "g1 = g0" using a(4) b(3) l1 g by (cases p2) auto
    with n(2,4) g False node_set_same [of st n g0] n(3) show ?thesis by simp
  qed
  have "holds (view ?s') (Some c) (put_step st (update_path p2 (\<lambda>_. w) (read_step st v)) v)"
    by (rule holds_put [where g = "view s", OF n(1) v0 _ n' u n(3)]) (use n(2) g fills_sibling [OF f c n(1)] in auto)
  with h show ?case by simp
qed

lemma walk_value:
  "walk s li p ls cs l \<Longrightarrow> heap_inv s H B \<Longrightarrow> load_loc li s = Some h0 \<Longrightarrow> holds (view s) h0 v \<Longrightarrow>
    load_loc l s = Some h \<Longrightarrow> holds (view s) h (read_path p v)"
proof (induction p arbitrary: li ls cs h0 v)
  case (Cons st p)
  then obtain c ls3 cs3 l1 where a: "load_loc li s = Some (Some c)" "child_loc s c st l1" "walk s l1 p ls3 cs3 l" by auto
  obtain n where n: "view s c = Some n" "node_child st n = load_loc l1 s" by (rule child_owner [OF Cons.prems(2) a(2)]) blast
  obtain g0 where g: "load_loc l1 s = Some g0" using a(2) by (auto simp: child_loc_def)
  have "holds (view s) g0 (read_step st v)" by (rule holds_child [of "view s", OF n(1)]) (use Cons.prems(3,4) a(1) n(2) g in auto)
  from Cons.IH [OF a(3) Cons.prems(2) g this Cons.prems(5)] show ?case by (simp add: read_path_def)
qed (simp add: read_path_def)

end
