(* ===== verification/Json_Client.thy ===== *)
theory Json_Client
  imports Json_Hole
begin

text \<open>
  A client of JSON values: the calls of \<open>Json_Cells\<close> on shared cells have the effect that the same
  calls have on values that share nothing.
\<close>

section \<open>The specification\<close>

fun scalar_json :: "'d scalar \<Rightarrow> 'd json" where
  "scalar_json (S_Bool b) = JBool b"
| "scalar_json (S_Int i) = JInt (sint i)"
| "scalar_json (S_Double d) = JDouble d"
| "scalar_json (S_Str t) = JStr (c_str t)"

definition empty_json :: "json_type \<Rightarrow> 'd json" where
  "empty_json T = (case T of kStr \<Rightarrow> JStr [] | kList \<Rightarrow> JList [] | kDict \<Rightarrow> JDict [] | _ \<Rightarrow> JNull)"

fun type_of_json :: "'d json \<Rightarrow> json_type" where
  "type_of_json JNull = kNull"
| "type_of_json (JBool b) = kBool"
| "type_of_json (JInt i) = kInt"
| "type_of_json (JDouble d) = kDouble"
| "type_of_json (JStr t) = kStr"
| "type_of_json (JList vs) = kList"
| "type_of_json (JDict d) = kDict"

fun size_of_json :: "'d json \<Rightarrow> nat" where
  "size_of_json JNull = 0"
| "size_of_json (JList vs) = length vs"
| "size_of_json (JDict d) = length d"
| "size_of_json v = 1"

fun scalar_of_json :: "'d json \<Rightarrow> 'd scalar option" where
  "scalar_of_json (JBool b) = Some (S_Bool b)"
| "scalar_of_json (JInt i) = Some (S_Int (word_of_int i))"
| "scalar_of_json (JDouble d) = Some (S_Double d)"
| "scalar_of_json (JStr t) = Some (S_Str t)"
| "scalar_of_json v = None"

fun equal_scalar :: "('d \<Rightarrow> 'd \<Rightarrow> bool) \<Rightarrow> 'd scalar \<Rightarrow> 'd json \<Rightarrow> bool" where
  "equal_scalar close (S_Bool a) (JBool b) = (a = b)"
| "equal_scalar close (S_Int a) (JInt b) = (sint a = b)"
| "equal_scalar close (S_Double a) (JDouble b) = close b a"
| "equal_scalar close (S_Str a) (JStr b) = (c_str a = c_str b)"
| "equal_scalar close x v = False"

text \<open>Variables with values of their own, and the path of the current reference.\<close>

type_synonym 'd json_env = "(nat \<Rightarrow> 'd json option) \<times> (nat \<times> json_step list) option"

fun value_call :: "('d \<Rightarrow> 'd \<Rightarrow> bool) \<Rightarrow> 'd json_env \<Rightarrow> 'd json_op \<Rightarrow> 'd json_out \<times> 'd json_env" where
  "value_call close (env, cur) (J_New x T) = (J_Done, env(x \<mapsto> empty_json T), cur)"
| "value_call close (env, cur) (J_Copy x y) = (J_Done, env(x := env y), None)"
| "value_call close (env, cur) (J_Delete x) = (J_Done, env(x := None), None)"
| "value_call close (env, cur) (J_Var x) = (J_Done, env, Some (x, []))"
| "value_call close (env, cur) (J_Sub st) =
     (case cur of
        None \<Rightarrow> (J_Done, env, None)
      | Some (x, p) \<Rightarrow> (J_Done, env(x := map_option (update_path p (enter st)) (env x)), Some (x, p @ [st])))"
| "value_call close (env, cur) (J_Set a) =
     (case cur of
        None \<Rightarrow> (J_Done, env, None)
      | Some (x, p) \<Rightarrow> (J_Done, env(x := map_option (update_path p (\<lambda>v. scalar_json a)) (env x)), cur))"
| "value_call close (env, cur) (J_Assign y q) =
     (case cur of
        None \<Rightarrow> (J_Done, env, None)
      | Some (x, p) \<Rightarrow>
          (J_Done, env(x := map_option (update_path p (\<lambda>v. read_path q (the (env y)))) (env x)), cur))"
| "value_call close (env, cur) (J_Look y q) =
     (let v = read_path q (the (env y)) in (J_Seen (type_of_json v) (size_of_json v) (scalar_of_json v), env, cur))"
| "value_call close (env, cur) (J_Equal y q x) = (J_Is (equal_scalar close x (read_path q (the (env y)))), env, cur)"

text \<open>
  Where the calls are allowed. Variables are made once and used while they are there; counts have
  room; a copy that needs a vector or map takes a clean one (\<open>copy_ok\<close>); and a value is not
  assigned into one of its own parts.
\<close>

definition has_var :: "nat \<Rightarrow> 'd json_heap \<Rightarrow> bool" where
  "has_var x s \<longleftrightarrow> map_of (json_vars s) x \<noteq> None"

definition room :: "'d json_heap \<Rightarrow> nat" where
  "room s = size (all_handles s) + (if null_val s = None then 1 else 0)"

fun json_pre :: "'d json_state \<Rightarrow> 'd json_op \<Rightarrow> bool" where
  "json_pre (s, cur) (J_New x T) = (\<not> has_var x s \<and> (T = kNull \<or> T = kStr \<or> T = kList \<or> T = kDict))"
| "json_pre (s, cur) (J_Copy x y) = (\<not> has_var x s \<and> has_var y s \<and> room s + 1 < 2 ^ 16)"
| "json_pre (s, cur) (J_Delete x) = has_var x s"
| "json_pre (s, cur) (J_Var x) = has_var x s"
| "json_pre (s, cur) (J_Sub st) =
     (case cur of
        None \<Rightarrow> False
      | Some (x, p, l) \<Rightarrow> (case load_loc l s of Some (Some c) \<Rightarrow> copy_ok c s | _ \<Rightarrow> True) \<and> 2 * room s + 1 < 2 ^ 16)"
| "json_pre (s, cur) (J_Set a) = (cur \<noteq> None)"
| "json_pre (s, cur) (J_Assign y q) =
     (case cur of
        None \<Rightarrow> False
      | Some (x, p, l) \<Rightarrow> has_var y s \<and> room s + 1 < 2 ^ 16 \<and> \<not> (y = x \<and> length q < length p \<and> take (length q) p = q))"
| "json_pre (s, cur) (J_Look y q) = has_var y s"
| "json_pre (s, cur) (J_Equal y q x) = has_var y s"

section \<open>The relation\<close>

definition json_core :: "'d json_heap \<Rightarrow> (nat \<Rightarrow> 'd json option) \<Rightarrow> bool" where
  "json_core s env \<longleftrightarrow> heap_inv s {#} {#} \<and> distinct (map fst (json_vars s))
     \<and> (\<forall>c. null_val s = Some c \<longrightarrow> view s c = Some N_Null)
     \<and> (\<forall>x. (load_loc (Var_Loc x) s = None \<longrightarrow> env x = None)
          \<and> (\<forall>h. load_loc (Var_Loc x) s = Some h \<longrightarrow> (\<exists>v. env x = Some v \<and> holds (view s) h v)))"

lemma coreI:
  assumes "heap_inv s {#} {#}" "distinct (map fst (json_vars s))" "\<And>c. null_val s = Some c \<Longrightarrow> view s c = Some N_Null"
    and "\<And>x. load_loc (Var_Loc x) s = None \<Longrightarrow> env x = None"
    and "\<And>x h. load_loc (Var_Loc x) s = Some h \<Longrightarrow> \<exists>v. env x = Some v \<and> holds (view s) h v"
  shows "json_core s env"
  using assms by (simp add: json_core_def)

lemma coreD:
  assumes "json_core s env"
  shows "heap_inv s {#} {#}" "distinct (map fst (json_vars s))" "null_val s = Some c \<Longrightarrow> view s c = Some N_Null"
    "load_loc (Var_Loc x) s = None \<Longrightarrow> env x = None"
    "load_loc (Var_Loc x) s = Some h \<Longrightarrow> \<exists>v. env x = Some v \<and> holds (view s) h v"
  using assms by (simp_all add: json_core_def)

lemma core_var:
  assumes "json_core s env" "has_var x s"
  obtains c v where "load_loc (Var_Loc x) s = Some (Some c)" "env x = Some v" "holds (view s) (Some c) v" "placed s (Var_Loc x)"
    "var_cell x s = Inr c"
proof -
  obtain h where h: "load_loc (Var_Loc x) s = Some h" using assms(2) by (auto simp: has_var_def load_loc_def)
  obtain v where v: "env x = Some v" "holds (view s) h v" using coreD(5) [OF assms(1) h] by blast
  obtain c where c: "h = Some c" using v(2) holds_Some by blast
  show ?thesis
    by (rule that [of c v]) (use h v c coreD(2) [OF assms(1)] in \<open>simp_all add: placed_def load_loc_def var_cell_def\<close>)
qed

lemma null_handle: "null_val s = Some c \<Longrightarrow> Some c \<in># all_handles s"
  by (simp add: all_handles_def)

lemma null_no_child: "heap_inv s H B \<Longrightarrow> view s c = Some N_Null \<Longrightarrow> \<not> child_loc s c st l"
proof
  assume inv: "heap_inv s H B" and v: "view s c = Some N_Null" and ch: "child_loc s c st l"
  obtain n where "view s c = Some n" "node_child st n = load_loc l s" by (rule child_owner [OF inv ch]) blast
  with v ch show False by (auto simp: child_loc_def)
qed

lemma walk_child: "walk s l p ls cs l' \<Longrightarrow> c \<in> set cs \<Longrightarrow> \<exists>st l2. child_loc s c st l2"
  by (induction p arbitrary: l ls cs) (auto, blast)

lemma null_not_on_path: "json_core s env \<Longrightarrow> cursor s x p ls cs l \<Longrightarrow> null_val s = Some c \<Longrightarrow> c \<notin> set cs"
  using walk_child null_no_child coreD(1,3) unfolding cursor_def by metis

section \<open>A call at the end of a path\<close>

lemma update_path_const: "update_path p f v = update_path p (\<lambda>u. f (read_path p v)) v"
  by (induction p arbitrary: v) (simp_all add: read_path_def)

lemma cursor_value:
  assumes core: "json_core s env" and cur: "cursor s x p ls cs l"
  obtains c v where "env x = Some v" "load_loc l s = Some (Some c)" "holds (view s) (Some c) (read_path p v)"
proof -
  obtain h0 where h0: "load_loc (Var_Loc x) s = Some h0" using placed_load cur unfolding cursor_def by blast
  obtain v where v: "env x = Some v" "holds (view s) h0 v" using coreD(5) [OF core h0] by blast
  obtain h where h: "load_loc l s = Some h" using placed_load [OF cursor_placed [OF coreD(1) [OF core] cur]] by blast
  have "holds (view s) h (read_path p v)"
    using walk_value [OF _ coreD(1) [OF core] h0 v(2) h] cur unfolding cursor_def by blast
  moreover from this obtain c where "h = Some c" using holds_Some by blast
  ultimately show ?thesis using v(1) h by (intro that [of v c]) simp_all
qed

lemma fills_core:
  assumes core: "json_core s env" and f: "fills s x p ls cs l X c' s1" and w: "holds (view (store_loc l (Some c') s1)) (Some c') w"
  shows "json_core (store_loc l (Some c') s1) (env(x := map_option (update_path p (\<lambda>u. w)) (env x)))"
proof (rule coreI)
  let ?s' = "store_loc l (Some c') s1"
  have inv: "heap_inv s {#} {#}" and cur: "cursor s x p ls cs l"
    and q: "quiet (store_loc l None s) {#the (load_loc l s)#} X s1 {#Some c'#}" and inv1: "heap_inv s1 {#Some c'#} {#}"
    using f by (simp_all add: fills_def quiet_def)
  note ff = fills_facts [OF f]
  have l: "placed s l" by (rule cursor_placed [OF inv cur])
  show "heap_inv ?s' {#} {#}" by (rule ff(5))
  have vars: "map fst (json_vars ?s') = map fst (json_vars s)" for u
    using quiet_vars [OF q] by (auto simp: store_loc_def split: json_loc.split option.split box.split)
  then show "distinct (map fst (json_vars ?s'))" using coreD(2) [OF core] by simp
  have nl: "load_loc (Var_Loc y) ?s' = None \<longleftrightarrow> load_loc (Var_Loc y) s = None" for y
    using vars by (simp add: load_loc_def map_of_eq_None_iff flip: set_map)
  show "view ?s' c = Some N_Null" if c: "null_val ?s' = Some c" for c
  proof -
    have c0: "null_val s = Some c" using c quiet_vars [OF q] by simp
    have "holds (view ?s') (Some c) JNull"
    proof (rule fills_other [OF f null_not_on_path [OF core cur c0]])
      show "holds (view s) (Some c) JNull" using coreD(3) [OF core c0] by simp
      show "Some c \<in># all_handles (store_loc l None s)" by (rule null_handle) (simp add: c0)
      show "live s1 c" using heap_invD(1) [OF inv1, of c] null_handle [of s1] c by simp
    qed
    then show ?thesis by simp
  qed
  fix y
  show "(env(x := map_option (update_path p (\<lambda>u. w)) (env x))) y = None" if "load_loc (Var_Loc y) ?s' = None"
    using that nl coreD(4) [OF core, of y] by auto
  fix h assume h: "load_loc (Var_Loc y) ?s' = Some h"
  then obtain h0 where h0: "load_loc (Var_Loc y) s = Some h0" using nl [of y] by (cases "load_loc (Var_Loc y) s") simp_all
  obtain v where v: "env y = Some v" "holds (view s) h0 v" using coreD(5) [OF core h0] by blast
  show "\<exists>v. (env(x := map_option (update_path p (\<lambda>u. w)) (env x))) y = Some v \<and> holds (view ?s') h v"
  proof (cases "y = x")
    case True
    have "holds (view ?s') h (update_path p (\<lambda>u. w) v)"
      by (rule fills_path [OF f w, of "Var_Loc x" p ls cs h0]) (use cur ff(6) h0 v h True in \<open>auto simp: cursor_def\<close>)
    with True v show ?thesis by simp
  next
    case False
    from fills_var [OF f False h0 v(2)] False h v show ?thesis by simp
  qed
qed

section \<open>Assignments\<close>

text \<open>The cell a function gives is on no path yet.\<close>

lemma fills_view:
  assumes f: "fills s x p ls cs l X c' s1" and d: "d \<notin> set cs"
  shows "view (store_loc l (Some c') s1) d = view s1 d"
proof -
  have inv1: "heap_inv s1 {#Some c'#} {#}" using f by (simp add: fills_def quiet_def)
  note ff = fills_facts [OF f]
  show ?thesis by (rule view_store_other [OF ff(4)]) (use cursor_owner [OF inv1 ff(1)] d in blast)
qed

lemma path_handles:
  assumes inv: "heap_inv s {#} {#}" and cur: "cursor s x p ls cs l" and c: "c \<in> set cs"
  shows "Some c \<in># all_handles (store_loc l None s)"
proof -
  have "count (all_handles (store_loc l None s)) (Some c) = 1" using taken_out(2) [OF inv cur] c by (simp add: cursor_def)
  then show ?thesis by (metis count_eq_zero_iff zero_neq_one)
qed

lemma gives_fills:
  assumes inv: "heap_inv s {#} {#}" and cur: "cursor s x p ls cs l" and g: "gives (store_loc l None s) {#} {#} X c' s1"
    and X: "\<forall>c \<in> set cs. Some c \<notin># X"
  shows "fills s x p ls cs l X c' s1"
proof -
  have "quiet (store_loc l None s) {#the (load_loc l s)#} X s1 {#Some c'#}"
    unfolding quiet_def using g taken_out(1) [OF inv cur] unfolding gives_def by (intro conjI exI [of _ "{c'}"]) auto
  moreover have "c \<noteq> c'" if "c \<in> set cs" for c
    using path_handles [OF inv cur that] g unfolding gives_def by auto
  ultimately show ?thesis using inv cur X by (auto simp: fills_def)
qed

lemma set_val_ok:
  assumes "heap_inv s (add_mset (Some c) H) B"
  obtains c' s' where "set_val_to a (Some c) s = Inr (Some c', s')" "gives s H B {#} c' s'" "holds (view s') (Some c') (scalar_json a)"
proof (cases a)
  case (S_Bool b)
  obtain c' s' where "assign_naive (Some c) kBool (Bool_Val b) s = Inr (Some c', s')" "gives s H B {#} c' s'" "view s' c' = Some (N_Bool b)"
    by (rule assign_naive_ok [OF assms, of kBool "Bool_Val b"]) (simp add: naive_node_def)
  with S_Bool show ?thesis by (intro that [of c' s']) (simp_all add: set_val_to_def)
next
  case (S_Int i)
  obtain c' s' where "assign_naive (Some c) kInt (Int_Val i) s = Inr (Some c', s')" "gives s H B {#} c' s'" "view s' c' = Some (N_Int i)"
    by (rule assign_naive_ok [OF assms, of kInt "Int_Val i"]) (simp add: naive_node_def)
  with S_Int show ?thesis by (intro that [of c' s']) (simp_all add: set_val_to_def)
next
  case (S_Double d)
  obtain c' s' where "assign_naive (Some c) kDouble (Double_Val d) s = Inr (Some c', s')" "gives s H B {#} c' s'" "view s' c' = Some (N_Double d)"
    by (rule assign_naive_ok [OF assms, of kDouble "Double_Val d"]) (simp add: naive_node_def)
  with S_Double show ?thesis by (intro that [of c' s']) (simp_all add: set_val_to_def)
next
  case (S_Str t)
  obtain c' s' where "assign_str (Some c) t s = Inr (Some c', s')" "gives s H B {#} c' s'" "view s' c' = Some (N_Str (c_str t))"
    by (rule assign_str_ok [OF assms])
  with S_Str show ?thesis by (intro that [of c' s']) (simp_all add: set_val_to_def)
qed

text \<open>What a call at the place of a cursor runs on.\<close>

lemma at_cursor:
  assumes core: "json_core s env" and cur: "cursor s x p ls cs l"
  obtains c v where "env x = Some v" "load_loc l s = Some (Some c)" "holds (view s) (Some c) (read_path p v)"
    "heap_inv (store_loc l None s) {#Some c#} {#}" "c \<notin> set cs"
    "call_at l f s = rbind (f (Some c) (store_loc l None s)) (\<lambda>(h', out, s1). Inr (out, store_loc l h' s1))"
proof (rule cursor_value [OF core cur])
  fix c v assume a: "env x = Some v" "load_loc l s = Some (Some c)" "holds (view s) (Some c) (read_path p v)"
  show ?thesis
    using that [OF a] taken_out(1) [OF coreD(1) [OF core] cur] cursor_leaf [OF coreD(1) [OF core] cur, of c] a(2)
    by (simp add: call_at_def)
qed

definition has_cursor :: "'d json_heap \<Rightarrow> (nat \<times> json_step list \<times> json_loc) option \<Rightarrow> (nat \<times> json_step list) option \<Rightarrow> bool" where
  "has_cursor s cur scur \<longleftrightarrow>
     (case cur of
        None \<Rightarrow> scur = None
      | Some (x, p, l) \<Rightarrow> scur = Some (x, p) \<and> (\<exists>ls cs. cursor s x p ls cs l))"

fun json_rel :: "'d json_state \<Rightarrow> 'd json_env \<Rightarrow> bool" where
  "json_rel (s, cur) (env, scur) \<longleftrightarrow> json_core s env \<and> has_cursor s cur scur"

text \<open>A call with the same effect on the state and on the values.\<close>

definition sim_ok :: "('d \<Rightarrow> 'd \<Rightarrow> bool) \<Rightarrow> 'd json_state \<Rightarrow> 'd json_env \<Rightarrow> 'd json_op \<Rightarrow> bool" where
  "sim_ok close m e op \<longleftrightarrow> (\<exists>out m' e'. json_call close m op = Inr (out, m') \<and> json_rel m' e' \<and> value_call close e op = (out, e'))"

lemma set_sim:
  assumes rel: "json_rel (s, cur) (env, scur)" and pre: "json_pre (s, cur) (J_Set a)"
  shows "sim_ok close (s, cur) (env, scur) (J_Set a)"
proof -
  have core: "json_core s env" using rel by simp
  obtain x p l ls cs where cur: "cur = Some (x, p, l)" "scur = Some (x, p)" "cursor s x p ls cs l"
    using rel pre by (auto simp: has_cursor_def)
  note inv = coreD(1) [OF core]
  show ?thesis
  proof (rule at_cursor [OF core cur(3), of "\<lambda>h s. no_out (set_val_to a h s)"])
    fix c v
    assume c: "env x = Some v" "heap_inv (store_loc l None s) {#Some c#} {#}"
      "call_at l (\<lambda>h s. no_out (set_val_to a h s)) s = rbind (no_out (set_val_to a (Some c) (store_loc l None s))) (\<lambda>(h', out, s1). Inr (out, store_loc l h' s1))"
    obtain c' s1 where s1: "set_val_to a (Some c) (store_loc l None s) = Inr (Some c', s1)" "gives (store_loc l None s) {#} {#} {#} c' s1"
      "holds (view s1) (Some c') (scalar_json a)"
      by (rule set_val_ok [OF c(2)])
    have f: "fills s x p ls cs l {#} c' s1" by (rule gives_fills [OF inv cur(3) s1(2)]) simp
    have "c' \<notin> set cs" using f by (auto simp: fills_def)
    from fills_view [OF f this] have "holds (view (store_loc l (Some c') s1)) (Some c') (scalar_json a)"
      using s1(3) by (cases a) simp_all
    from fills_core [OF core f this] fills_facts(6) [OF f] c cur(1,2) s1(1)
    show ?thesis unfolding sim_ok_def by (auto simp: has_cursor_def no_out_def)
  qed
qed

section \<open>The writing operator\<close>

lemma size_taken: "placed s l \<Longrightarrow> size (all_handles (store_loc l None s)) = size (all_handles s)"
proof -
  assume l: "placed s l"
  obtain h where h: "load_loc l s = Some h" using placed_load [OF l] by blast
  from arg_cong [OF handles_store [OF l h, of None], of size] show ?thesis by simp
qed

lemma clean_taken:
  assumes l: "placed s l"
  shows "clean_pool T (store_loc l None s) = clean_pool T s"
proof -
  have "pool_of T (store_loc l None s) = pool_of T s"
    by (auto simp: store_loc_def pool_of_def put_box_def split: json_loc.split json_type.split option.split box.split)
  moreover have "opt_handles (box_at (store_loc l None s) b) = [] \<longleftrightarrow> opt_handles (box_at s b) = []" for b
    by (auto simp: box_store [OF l] opt_handles_def set_key_def split: json_loc.split option.split box.split)
  ultimately show ?thesis by (simp add: clean_pool_def split: list.split)
qed

lemma size_children:
  assumes inv: "heap_inv s H B" and n: "view s c = Some n"
  shows "length (node_handles n) \<le> size (all_handles s)"
proof -
  have *: "length (box_handles x) \<le> size (all_handles s)" if "box_at s b = Some x" for b x
    using arg_cong [OF all_handles_box [OF that, of None], of size] by (simp add: opt_handles_def)
  show ?thesis
  proof (cases n)
    case (N_List hs)
    obtain b where "box_at s b = Some (List_Box hs)" by (rule view_list [OF inv n [unfolded N_List]])
    from * [OF this] N_List show ?thesis by simp
  next
    case (N_Dict d)
    obtain b where "box_at s b = Some (Dict_Box d)" by (rule view_dict [OF inv n [unfolded N_Dict]])
    from * [OF this] N_Dict show ?thesis by simp
  qed simp_all
qed

lemma as_list:
  assumes "g c = Some n" "holds g (Some c) u"
  obtains hs where "as_node kList n = N_List hs" "list_all2 (holds g) hs (children_list u)" "set hs \<subseteq> set (node_handles n)"
  using assms by (cases u; cases n) (auto simp: children_list_def)

lemma as_dict:
  assumes "g c = Some n" "holds g (Some c) u"
  obtains d where "as_node kDict n = N_Dict d" "map fst d = map fst (children_dict u)"
    "list_all2 (holds g) (map snd d) (map snd (children_dict u))" "set (map snd d) \<subseteq> set (node_handles n)"
  using assms by (cases u; cases n) (auto simp: children_dict_def)

lemma sub_fills:
  assumes inv: "heap_inv s {#} {#}" and cur: "cursor s x p ls cs l" and c: "load_loc l s = Some (Some c)" "view s c = Some n"
    and g: "sub_gives (store_loc l None s) {#} {#} (mset hs + mset ns) ns c' b nd s1"
    and hs: "set hs \<subseteq> set (node_handles n)" "set (node_handles nd) = set hs \<union> set ns" and st: "node_child st nd \<noteq> None"
  shows "fills s x p ls cs l (mset hs + mset ns) c' s1"
    and "cursor (store_loc l (Some c') s1) x (p @ [st]) (ls @ [l]) (cs @ [c']) (step_loc b st)"
    and "\<And>h u. h \<in> set hs \<Longrightarrow> holds (view s) h u \<Longrightarrow> holds (view (store_loc l (Some c') s1)) h u"
    and "view (store_loc l (Some c') s1) c' = Some nd"
    and "\<And>d. Some d \<in> set ns \<Longrightarrow> view (store_loc l (Some c') s1) d = view s1 d"
proof -
  let ?s0 = "store_loc l None s" and ?s' = "store_loc l (Some c') s1"
  have l: "placed s l" by (rule cursor_placed [OF inv cur])
  have inv0: "heap_inv ?s0 {#Some c#} {#}" using taken_out(1) [OF inv cur] c(1) by simp
  have g1: "heap_inv s1 {#Some c'#} {#}" "frame ?s0 s1 (insert c' {d. Some d \<in> set ns}) (mset hs + mset ns) {#}"
    "Some c' \<notin># all_handles ?s0" "Some c' \<notin># all_handles s1" "view s1 c' = Some nd"
    "\<And>d. Some d \<in> set ns \<Longrightarrow> Some d \<notin># all_handles ?s0"
    using g not_in_new [OF inv0] by (auto simp: sub_gives_def)
  obtain v where v: "cell_at s1 c' = Some v" "box_ptr v = Inr (Some b)" using g by (auto simp: sub_gives_def)
  have cs: "c \<notin> set cs" by (rule cursor_leaf [OF inv cur c(1)])
  have off: "e \<notin> set cs \<and> Some e \<in># all_handles ?s0" if e: "Some e \<in> set hs" for e
  proof -
    obtain st l2 where l2: "child_loc s c st l2" "load_loc l2 s = Some (Some e)"
      using node_handle_place [OF inv c(2), of "Some e"] e hs(1) by blast
    have "l2 \<noteq> l" using cursor_owner [OF inv cur] l2(1) cs by blast
    then show ?thesis
      using cursor_closed [OF inv cur cs l2] place_handle [of ?s0 l2 e] child_placed [OF inv l2(1)] l2(2)
      by (simp add: placed_store [OF l] load_store [OF l])
  qed
  have "quiet ?s0 {#the (load_loc l s)#} (mset hs + mset ns) s1 {#Some c'#}"
    unfolding quiet_def using inv0 c(1) g1 by (intro conjI exI [of _ "insert c' {d. Some d \<in> set ns}"]) auto
  moreover have "c' \<noteq> a \<and> Some a \<notin># mset hs + mset ns" if "a \<in> set cs" for a
    using path_handles [OF inv cur that] g1(3,6) off that by auto
  ultimately show f: "fills s x p ls cs l (mset hs + mset ns) c' s1" using inv cur by (simp add: fills_def)
  note ff = fills_facts [OF f]
  have c': "c' \<notin> set cs" using f by (auto simp: fills_def)
  show vc: "view ?s' c' = Some nd" using fills_view [OF f c'] g1(5) by simp
  show "view ?s' d = view s1 d" if "Some d \<in> set ns" for d
    by (rule fills_view [OF f]) (use g1(6) [OF that] path_handles [OF inv cur] in blast)
  show "holds (view ?s') h u" if h: "h \<in> set hs" "holds (view s) h u" for h u
  proof -
    obtain e where e: "h = Some e" using h(2) holds_Some by blast
    obtain st l2 where l2: "child_loc s1 c' st l2" "load_loc l2 s1 = Some (Some e)"
      using node_handle_place [OF g1(1,5), of "Some e"] h(1) hs(2) e by blast
    show ?thesis
      unfolding e
      by (rule fills_other [OF f]) (use off h e placed_live [OF g1(1) child_placed [OF g1(1) l2(1)] l2(2)] in auto)
  qed
  obtain h where h: "node_child st nd = Some h" using st by blast
  obtain l2 where l2: "child_loc ?s' c' st l2" "load_loc l2 ?s' = Some h" using node_place [OF ff(5) vc h] by blast
  have "l2 = step_loc b st" using l2(1) v by (auto simp: child_loc_def)
  then have ch: "child_loc ?s' c' st (step_loc b st)" using l2(1) by simp
  have w': "walk ?s' (Var_Loc x) p ls cs l" "placed ?s' (Var_Loc x)" "l \<notin> set ls" "distinct cs"
    "\<And>a. a \<in> set cs \<Longrightarrow> count (all_handles ?s') (Some a) = 1"
    using ff(6) by (simp_all add: cursor_def)
  have "step_loc b st \<notin> set (ls @ [l])"
  proof
    assume "step_loc b st \<in> set (ls @ [l])"
    then obtain a st' where "a \<in> set cs" "child_loc ?s' a st' (step_loc b st)"
      using walk_locs [OF w'(1), of "step_loc b st"] by auto
    with child_unique(1) [OF ff(5) ch] c' show False by blast
  qed
  moreover have "count (all_handles ?s') (Some c') = 1"
  proof -
    have "count (all_handles ?s' + {#None#}) (Some c') = count (all_handles s1 + {#Some c'#}) (Some c')"
      using handles_store [OF ff(4,3), of "Some c'"] by simp
    then show ?thesis using g1(4) by (simp add: not_in_iff)
  qed
  ultimately show "cursor ?s' x (p @ [st]) (ls @ [l]) (cs @ [c']) (step_loc b st)"
    using walk_snoc [OF w'(1) ff(7) ch] w' c' by (auto simp: cursor_def)
qed

lemma sub_call:
  assumes core: "json_core s env" and cur: "cursor s x p ls cs l" and c: "load_loc l s = Some (Some c)" "holds (view s) (Some c) u"
    and ok: "copy_ok c s" and rm: "2 * room s + 1 < 2 ^ 16"
  obtains c' s1 b X where "sub_val st (Some c) (store_loc l None s) = Inr (Some c', step_loc b st, s1)"
    "fills s x p ls cs l X c' s1" "cursor (store_loc l (Some c') s1) x (p @ [st]) (ls @ [l]) (cs @ [c']) (step_loc b st)"
    "holds (view (store_loc l (Some c') s1)) (Some c') (enter st u)"
proof -
  let ?s0 = "store_loc l None s"
  have inv: "heap_inv s {#} {#}" by (rule coreD(1) [OF core])
  have l: "placed s l" by (rule cursor_placed [OF inv cur])
  have inv0: "heap_inv ?s0 (add_mset (Some c) {#}) {#}" using taken_out(1) [OF inv cur] c(1) by simp
  obtain n where n: "view s c = Some n" using holds_Some [OF c(2)] by auto
  have n0: "view ?s0 c = Some n"
    using view_store_other [OF l, of c None] cursor_owner [OF inv cur] cursor_leaf [OF inv cur c(1)] n by auto
  have nn: "None \<notin> set (node_handles n)" by (rule holds_children [of "view s", OF n c(2)])
  have ok0: "copy_ok c ?s0" using ok clean_taken [OF l] by (simp add: copy_ok_def split: option.splits)
  have rm0: "size (all_handles ?s0 + {#}) + 1 + length (node_handles n) < 2 ^ 16"
    using size_taken [OF l] size_children [OF inv n] rm by (simp add: room_def)
  show ?thesis
  proof (cases st)
    case (Index i)
    obtain hs where hs: "as_node kList n = N_List hs" "list_all2 (holds (view s)) hs (children_list u)" "set hs \<subseteq> set (node_handles n)"
      by (rule as_list [of "view s", OF n c(2)])
    obtain c' b ns s1 where s1: "index_val c i ?s0 = Inr (c', Elem_Loc b i, s1)"
      "sub_gives ?s0 {#} {#} (mset hs + mset ns) ns c' b (N_List (hs @ ns)) s1"
      "length ns = i + 1 - length hs" "\<forall>d. Some d \<in> set ns \<longrightarrow> view s1 d = Some N_Null" "None \<notin> set ns"
      by (rule index_val_ok [OF inv0 ok0 n0 nn rm0 hs(1), of i])
    note sf = sub_fills [OF inv cur c(1) n s1(2) hs(3), where st = "Index i"]
    have a: "set (node_handles (N_List (hs @ ns))) = set hs \<union> set ns" "node_child (Index i) (N_List (hs @ ns)) \<noteq> None"
      using s1(3) by auto
    let ?s' = "store_loc l (Some c') s1"
    have "list_all2 (holds (view ?s')) hs (children_list u)"
      using hs(2) sf(3) [OF a] by (auto simp: list_all2_conv_all_nth)
    moreover have "list_all2 (holds (view ?s')) ns (replicate (length ns) JNull)"
    proof (rule list_all2_all_nthI)
      fix j assume j: "j < length ns"
      obtain d where d: "ns ! j = Some d" using s1(5) nth_mem [OF j] by (cases "ns ! j") auto
      then have "Some d \<in> set ns" using nth_mem [OF j] by simp
      from sf(5) [OF a this] s1(4) this have "view ?s' d = Some N_Null" by simp
      with d j show "holds (view ?s') (ns ! j) (replicate (length ns) JNull ! j)" by simp
    qed simp
    ultimately have "list_all2 (holds (view ?s')) (hs @ ns) (children_list u @ replicate (length ns) JNull)"
      by (rule list_all2_appendI)
    moreover have "length hs = length (children_list u)" using hs(2) by (rule list_all2_lengthD)
    ultimately have "holds (view ?s') (Some c') (enter st u)" using sf(4) [OF a] s1(3) Index by simp
    then show ?thesis
      by (intro that [of c' b s1 "mset hs + mset ns"]) (use sf(1,2) [OF a] s1(1) Index in \<open>simp_all add: sub_val_def\<close>)
  next
    case (Key k)
    obtain d where d: "as_node kDict n = N_Dict d" "map fst d = map fst (children_dict u)"
      "list_all2 (holds (view s)) (map snd d) (map snd (children_dict u))" "set (map snd d) \<subseteq> set (node_handles n)"
      by (rule as_dict [of "view s", OF n c(2)])
    obtain c' b ns s1 where s1: "field_val c k ?s0 = Inr (c', Field_Loc b k, s1)"
      "sub_gives ?s0 {#} {#} (mset (map snd d) + mset (map snd ns)) (map snd ns) c' b (N_Dict (d @ ns)) s1"
      "map_of d k \<noteq> None \<longrightarrow> ns = []" "map_of d k = None \<longrightarrow> (\<exists>m. ns = [(k, Some m)] \<and> view s1 m = Some (N_Dict []))"
      by (rule field_val_ok [OF inv0 ok0 n0 nn rm0 d(1), of k]) (rule that, assumption, assumption, simp_all)
    note sf = sub_fills [OF inv cur c(1) n s1(2) d(4), where st = "Key k"]
    have a: "set (node_handles (N_Dict (d @ ns))) = set (map snd d) \<union> set (map snd ns)" "node_child (Key k) (N_Dict (d @ ns)) \<noteq> None"
      using s1(3,4) by (auto simp: map_add_def split: option.splits)
    let ?s' = "store_loc l (Some c') s1"
    have vs: "list_all2 (holds (view ?s')) (map snd d) (map snd (children_dict u))"
      using d(3) sf(3) [OF a] by (auto simp: list_all2_conv_all_nth)
    have mk: "map_of d k = None \<longleftrightarrow> map_of (children_dict u) k = None" using related_map_of [OF d(2,3), of k] by auto
    have "holds (view ?s') (Some c') (enter st u)"
    proof (cases "map_of d k")
      case None
      then obtain m where m: "ns = [(k, Some m)]" "view s1 m = Some (N_Dict [])" using s1(4) by blast
      then have "holds (view ?s') (Some m) (JDict [])" using sf(5) [OF a, of m] by simp
      then have "list_all2 (holds (view ?s')) (map snd d @ [Some m]) (map snd (children_dict u) @ [JDict []])"
        using vs by (intro list_all2_appendI) simp_all
      then show ?thesis using sf(4) [OF a] m(1) None mk Key d(2) by simp
    next
      case (Some h)
      then show ?thesis using sf(4) [OF a] s1(3) mk vs Key d(2) by simp
    qed
    then show ?thesis
      by (intro that [of c' b s1 "mset (map snd d) + mset (map snd ns)"]) (use sf(1,2) [OF a] s1(1) Key in \<open>simp_all add: sub_val_def\<close>)
  qed
qed

lemma sub_sim:
  assumes rel: "json_rel (s, cur) (env, scur)" and pre: "json_pre (s, cur) (J_Sub st)"
  shows "sim_ok close (s, cur) (env, scur) (J_Sub st)"
proof -
  have core: "json_core s env" using rel by simp
  obtain x p l ls cs where cur: "cur = Some (x, p, l)" "scur = Some (x, p)" "cursor s x p ls cs l"
    using rel pre by (auto simp: has_cursor_def split: option.splits)
  note inv = coreD(1) [OF core]
  show ?thesis
  proof (rule at_cursor [OF core cur(3), of "sub_val st"])
    fix c v
    assume c: "env x = Some v" "load_loc l s = Some (Some c)" "holds (view s) (Some c) (read_path p v)"
      "call_at l (sub_val st) s = rbind (sub_val st (Some c) (store_loc l None s)) (\<lambda>(h', out, s1). Inr (out, store_loc l h' s1))"
    have "copy_ok c s" "2 * room s + 1 < 2 ^ 16" using pre cur(1) c(2) by simp_all
    then obtain c' s1 b X where s1: "sub_val st (Some c) (store_loc l None s) = Inr (Some c', step_loc b st, s1)"
      "fills s x p ls cs l X c' s1" "cursor (store_loc l (Some c') s1) x (p @ [st]) (ls @ [l]) (cs @ [c']) (step_loc b st)"
      "holds (view (store_loc l (Some c') s1)) (Some c') (enter st (read_path p v))"
      by (rule sub_call [OF core cur(3) c(2,3)])
    from fills_core [OF core s1(2,4)] update_path_const [of p "enter st" v] c cur(1,2) s1(1,3)
    show ?thesis unfolding sim_ok_def by (auto simp: has_cursor_def)
  qed
qed

end
