(* ===== verification/Json_Refine.thy ===== *)
theory Json_Refine
  imports Json_Client
begin

text \<open>
  The remaining calls of a client, and the refinement: shared cells behave as values of their own.
\<close>

section \<open>Variables\<close>

text \<open>The part of the relation that does not need the counts.\<close>

definition vals :: "'d json_heap \<Rightarrow> (nat \<Rightarrow> 'd json option) \<Rightarrow> bool" where
  "vals s env \<longleftrightarrow> distinct (map fst (json_vars s)) \<and> (\<forall>c. null_val s = Some c \<longrightarrow> view s c = Some N_Null)
     \<and> (\<forall>x. (load_loc (Var_Loc x) s = None \<longrightarrow> env x = None)
          \<and> (\<forall>h. load_loc (Var_Loc x) s = Some h \<longrightarrow> (\<exists>v. env x = Some v \<and> holds (view s) h v)))"

lemma core_vals: "json_core s env \<longleftrightarrow> heap_inv s {#} {#} \<and> vals s env"
  by (simp add: json_core_def vals_def)

lemma quiet_vals:
  assumes q: "quiet s H X s1 H1" and v: "vals s env"
  shows "vals s1 env"
proof -
  have inv: "heap_inv s H {#}" "heap_inv s1 H1 {#}" using q by (simp_all add: quiet_def)
  note qv = quiet_vars [OF q]
  have d: "distinct (map fst (json_vars s))" using v by (simp add: vals_def)
  have "view s1 c = Some N_Null" if c: "null_val s1 = Some c" for c
  proof -
    have c0: "null_val s = Some c" using qv c by simp
    have "holds (view s) (Some c) JNull" using v c0 by (simp add: vals_def)
    from quiet_holds [OF q null_handle [OF c0] _ this] heap_invD(1) [OF inv(2), of c] null_handle [OF c]
    show ?thesis by simp
  qed
  moreover have "holds (view s1) h u" if h: "load_loc (Var_Loc x) s = Some h" "holds (view s) h u" for x h u
  proof -
    obtain c where c: "h = Some c" using h(2) holds_Some by blast
    have p: "placed s (Var_Loc x)" using d h(1) by (simp add: placed_def load_loc_def)
    note vp = var_place [OF conjunct1 [OF qv], of x]
    show ?thesis
      using quiet_holds [OF q place_handle [OF p h(1) [unfolded c]] placed_live [OF inv(2)]] h p vp c by simp
  qed
  ultimately show ?thesis
    using v qv var_place(2) [OF conjunct1 [OF qv]] unfolding vals_def by metis
qed

lemma view_fields [simp]: "view (s\<lparr>json_vars := vs\<rparr>) = view s" "view (s\<lparr>null_val := n\<rparr>) = view s"
proof -
  have "node_of (s\<lparr>json_vars := vs\<rparr>) v = (node_of s v :: 'a node option)" "node_of (s\<lparr>null_val := n\<rparr>) v = (node_of s v :: 'a node option)" for v
    by (rule node_of_boxes; simp add: box_at_def)+
  then show "view (s\<lparr>json_vars := vs\<rparr>) = view s" "view (s\<lparr>null_val := n\<rparr>) = view s"
    by (simp_all add: view_def fun_eq_iff split: option.split)
qed

lemma load_fields [simp]:
  "load_loc (Var_Loc y) (s\<lparr>json_vars := vs\<rparr>) = map_of vs y" "load_loc l (s\<lparr>null_val := n\<rparr>) = load_loc l s"
  by (simp_all add: load_loc_def box_at_def split: json_loc.split)

text \<open>A new variable.\<close>

lemma core_new:
  assumes core: "json_core s env" and x: "\<not> has_var x s" and q: "quiet s {#} X s1 {#h#}" and v: "holds (view s1) h v"
  shows "json_core (s1\<lparr>json_vars := (x, h) # json_vars s1\<rparr>) (env(x \<mapsto> v))"
proof -
  have v1: "vals s1 env" using quiet_vals [OF q] core by (simp add: core_vals)
  have x1: "map_of (json_vars s1) x = None" using x quiet_vars [OF q] by (simp add: has_var_def)
  have "heap_inv s1 {#h#} {#}" using q by (simp add: quiet_def)
  then have "heap_inv (s1\<lparr>json_vars := (x, h) # json_vars s1\<rparr>) {#} {#}" by (rule heap_inv_vars) simp
  moreover have "vals (s1\<lparr>json_vars := (x, h) # json_vars s1\<rparr>) (env(x \<mapsto> v))"
    using v1 v x1 by (auto simp: vals_def load_loc_def map_of_eq_None_iff)
  ultimately show ?thesis by (simp add: core_vals)
qed

lemma walk_same:
  assumes "cells s2 = cells s1" "boxes s2 = boxes s1"
  shows "load_loc li s2 = load_loc li s1 \<Longrightarrow> walk s1 li p ls cs l \<Longrightarrow> walk s2 li p ls cs l"
proof (induction p arbitrary: li ls cs)
  case (Cons st p)
  have "load_loc (step_loc b st) s2 = load_loc (step_loc b st) s1" for b st
    using assms(2) by (cases st) (simp_all add: load_loc_def box_at_def)
  then have ch: "child_loc s1 c st l1 \<Longrightarrow> child_loc s2 c st l1 \<and> load_loc l1 s2 = load_loc l1 s1" for c l1
    using assms(1) by (auto simp: child_loc_def cell_at_def split: if_splits)
  from Cons.prems obtain c cs' ls' l1 where "ls = li # ls'" "cs = c # cs'" "load_loc li s1 = Some (Some c)" "child_loc s1 c st l1" "walk s1 l1 p ls' cs' l"
    by auto
  with Cons.IH [of l1 ls' cs'] ch [of c l1] Cons.prems(1) show ?case by auto
qed simp

lemma cursor_grow:
  assumes cur: "cursor s1 x p ls cs l" and same: "cells s2 = cells s1" "boxes s2 = boxes s1"
    and x: "placed s2 (Var_Loc x)" "load_loc (Var_Loc x) s2 = load_loc (Var_Loc x) s1"
    and a: "all_handles s2 = add_mset h (all_handles s1)" "\<forall>c \<in> set cs. h \<noteq> Some c"
  shows "cursor s2 x p ls cs l"
  using cur walk_same [OF same x(2)] x(1) a by (auto simp: cursor_def)

lemma new_cursor:
  assumes q: "quiet s {#} {#} s1 {#h#}" and x: "\<not> has_var x s" and cur: "cursor s z p ls cs l" and h: "\<forall>c \<in> set cs. h \<noteq> Some c"
    and d: "distinct (map fst (json_vars s))"
  shows "cursor (s1\<lparr>json_vars := (x, h) # json_vars s1\<rparr>) z p ls cs l"
proof -
  have c1: "cursor s1 z p ls cs l" using quiet_cursor [OF q cur] by simp
  have vs: "json_vars s1 = json_vars s" using quiet_vars [OF q] by simp
  have "map_of (json_vars s) z \<noteq> None" using cur by (auto simp: cursor_def placed_def)
  then have "x \<noteq> z" using x by (auto simp: has_var_def)
  with c1 show ?thesis
    using x d vs h by (intro cursor_grow [OF c1, of _ h]) (auto simp: all_handles_def placed_def load_loc_def has_var_def cursor_def map_of_eq_None_iff)
qed

lemma empty_holds: "T = kNull \<or> T = kStr \<or> T = kList \<or> T = kDict \<Longrightarrow> g c = empty_node T \<Longrightarrow> holds g (Some c) (empty_json T)"
  by (auto simp: empty_node_def empty_json_def box_node_def empty_box_def)

lemma gives_quiet: "gives s H {#} X c s1 \<Longrightarrow> heap_inv s H' {#} \<Longrightarrow> quiet s H' X s1 (add_mset (Some c) H)"
  unfolding quiet_def gives_def by (intro conjI exI [of _ "{c}"]) auto

lemma cursor_in: "cursor s x p ls cs l \<Longrightarrow> c \<in> set cs \<Longrightarrow> Some c \<in># all_handles s"
  unfolding cursor_def by (metis count_eq_zero_iff zero_neq_one)

lemma new_sim:
  assumes rel: "json_rel (s, cur) (env, scur)" and pre: "json_pre (s, cur) (J_New x T)"
  shows "sim_ok close (s, cur) (env, scur) (J_New x T)"
proof -
  have core: "json_core s env" and hc: "has_cursor s cur scur" using rel by simp_all
  have T: "T = kNull \<or> T = kStr \<or> T = kList \<or> T = kDict" and x: "\<not> has_var x s" using pre by simp_all
  have inv: "heap_inv s {#} {#}" by (rule coreD(1) [OF core])
  obtain c s1 where s1: "new_val T s = Inr (c, s1)" "gives s {#} {#} {#} c s1" "view s1 c = empty_node T"
    by (rule new_val_ok [OF inv, of T]) (use T in auto)
  have q: "quiet s {#} {#} s1 {#Some c#}" by (rule gives_quiet [OF s1(2) inv])
  note n = core_new [OF core x q empty_holds [of T "view s1", OF T s1(3)]]
  have "has_cursor (s1\<lparr>json_vars := (x, Some c) # json_vars s1\<rparr>) cur scur"
  proof (cases cur)
    case (Some a)
    obtain z p l where a: "a = (z, p, l)" by (cases a)
    then obtain ls cs where c: "cursor s z p ls cs l" "scur = Some (z, p)" using hc Some by (auto simp: has_cursor_def)
    have "\<forall>b \<in> set cs. Some c \<noteq> Some b" using cursor_in [OF c(1)] s1(2) by (auto simp: gives_def)
    from new_cursor [OF q x c(1) this coreD(2) [OF core]] c(2) Some a show ?thesis by (auto simp: has_cursor_def)
  qed (use hc in \<open>simp add: has_cursor_def\<close>)
  with n s1(1) show ?thesis unfolding sim_ok_def by simp
qed

lemma copy_sim:
  assumes rel: "json_rel (s, cur) (env, scur)" and pre: "json_pre (s, cur) (J_Copy x y)"
  shows "sim_ok close (s, cur) (env, scur) (J_Copy x y)"
proof -
  have core: "json_core s env" using rel by simp
  have x: "\<not> has_var x s" "has_var y s" "room s + 1 < 2 ^ 16" using pre by simp_all
  obtain c v where c: "load_loc (Var_Loc y) s = Some (Some c)" "env y = Some v" "holds (view s) (Some c) v" "placed s (Var_Loc y)"
    "var_cell y s = Inr c"
    by (rule core_var [OF core x(2)])
  have inv: "heap_inv s (add_mset None {#}) {#}" "heap_inv s {#} {#}" using coreD(1) [OF core] by simp_all
  have h: "Some c \<in># all_handles s" by (rule place_handle [OF c(4,1)])
  obtain s1 where s1: "assign_json None c s = Inr (Some c, s1)" "heap_inv s1 {#Some c#} {#}" "frame s s1 {} {#} {#}"
    by (rule assign_json_ok [OF inv(1), of c]) (use h x(3) in \<open>simp_all add: room_def split: if_splits\<close>)
  have q: "quiet s {#} {#} s1 {#Some c#}" using inv(2) s1 by (auto simp: quiet_def)
  have "holds (view s1) (Some c) v"
    by (rule quiet_holds [OF q h _ c(3)]) (use heap_invD(1) [OF s1(2), of c] in simp)
  from core_new [OF core x(1) q this] c s1(1)
  have "json_core (s1\<lparr>json_vars := (x, Some c) # json_vars s1\<rparr>) (env(x := env y))" by simp
  then show ?thesis unfolding sim_ok_def using c(5) s1(1) by (simp add: has_cursor_def)
qed

lemma map_of_filter_key: "map_of (filter (\<lambda>(y, h). y \<noteq> x) vs) z = (if z = x then None else map_of vs z)"
  by (induction vs) auto

lemma filter_key_mset: "distinct (map fst vs) \<Longrightarrow> map_of vs x = Some h \<Longrightarrow> mset (map snd vs) = add_mset h (mset (map snd (filter (\<lambda>(y, h). y \<noteq> x) vs)))"
proof (induction vs)
  case (Cons a vs)
  have "{#(y, h) \<in># mset vs. y \<noteq> x#} = mset vs" if "x \<notin> fst ` set vs"
    using that by (intro filter_mset_eq_conv [THEN iffD2]) force
  with Cons show ?case by (cases a) auto
qed simp

lemma delete_sim:
  assumes rel: "json_rel (s, cur) (env, scur)" and pre: "json_pre (s, cur) (J_Delete x)"
  shows "sim_ok close (s, cur) (env, scur) (J_Delete x)"
proof -
  have core: "json_core s env" using rel by simp
  have d: "distinct (map fst (json_vars s))" by (rule coreD(2) [OF core])
  obtain h where h: "map_of (json_vars s) x = Some h" using pre by (auto simp: has_var_def)
  let ?vs = "filter (\<lambda>(y, h). y \<noteq> x) (json_vars s)" and ?s0 = "s\<lparr>json_vars := filter (\<lambda>(y, h). y \<noteq> x) (json_vars s)\<rparr>"
  have "heap_inv ?s0 {#h#} {#}"
    by (rule heap_inv_vars [OF coreD(1) [OF core]]) (use filter_key_mset [OF d h] in simp)
  then have inv0: "heap_inv ?s0 ({#} + mset [h]) {#}" by simp
  from destroy_ok [OF this] obtain s1 where s1: "destroy ?s0 [h] = Inr s1" "heap_inv s1 {#} {#}" "frame ?s0 s1 {} {#} {#}"
    by blast
  have "quiet ?s0 {#h#} {#} s1 {#}" using inv0 s1 by (auto simp: quiet_def)
  moreover have "vals ?s0 (env(x := None))"
  proof -
    have "distinct (map fst ?vs)" using d by (rule distinct_map_filter)
    then show ?thesis using core by (auto simp: core_vals vals_def map_of_filter_key load_loc_def)
  qed
  ultimately have "vals s1 (env(x := None))" by (rule quiet_vals)
  then show ?thesis unfolding sim_ok_def using h s1(1,2) by (simp add: core_vals has_cursor_def)
qed

lemma var_sim:
  assumes rel: "json_rel (s, cur) (env, scur)" and pre: "json_pre (s, cur) (J_Var x)"
  shows "sim_ok close (s, cur) (env, scur) (J_Var x)"
proof -
  have core: "json_core s env" using rel by simp
  have "placed s (Var_Loc x)" by (rule core_var [OF core]) (use pre in simp_all)
  then have "cursor s x [] [] [] (Var_Loc x)" by (simp add: cursor_def)
  with core show ?thesis unfolding sim_ok_def by (auto simp: has_cursor_def)
qed

section \<open>Reading\<close>

text \<open>What reading may change: the static object is made.\<close>

definition reads :: "'d json_heap \<Rightarrow> 'd json_heap \<Rightarrow> (nat \<Rightarrow> 'd json option) \<Rightarrow> bool" where
  "reads s s1 env \<longleftrightarrow> json_core s1 env \<and> room s1 = room s
     \<and> (\<forall>x p ls cs l. cursor s x p ls cs l \<longrightarrow> cursor s1 x p ls cs l)"

lemma reads_refl: "json_core s env \<Longrightarrow> reads s s env"
  by (simp add: reads_def)

lemma reads_trans: "reads s s1 env \<Longrightarrow> reads s1 s2 env \<Longrightarrow> reads s s2 env"
  by (simp add: reads_def)

lemma vals_null: "vals s env \<Longrightarrow> view s c = Some N_Null \<Longrightarrow> vals (s\<lparr>null_val := Some c\<rparr>) env"
  unfolding vals_def view_fields load_fields by simp

lemma get_null_ok:
  assumes core: "json_core s env"
  obtains c s1 where "get_null s = Inr (c, s1)" "reads s s1 env" "null_val s1 = Some c" "view s1 c = Some N_Null"
proof (cases "null_val s")
  case (Some c)
  with that [of c s] reads_refl [OF core] coreD(3) [OF core] show ?thesis by (simp add: get_null_def)
next
  case None
  have inv: "heap_inv s {#} {#}" by (rule coreD(1) [OF core])
  obtain c s1 where s1: "new_val kNull s = Inr (c, s1)" "gives s {#} {#} {#} c s1" "view s1 c = empty_node kNull" "all_handles s1 = all_handles s"
    by (rule new_val_ok [OF inv, of kNull]) (simp_all add: boxed_def)
  let ?s2 = "s1\<lparr>null_val := Some c\<rparr>"
  have q: "quiet s {#} {#} s1 {#Some c#}" by (rule gives_quiet [OF s1(2) inv])
  have n1: "null_val s1 = None" using quiet_vars [OF q] None by simp
  have "heap_inv ?s2 {#} {#}"
    by (rule heap_inv_null) (use s1(2) n1 in \<open>simp_all add: gives_def\<close>)
  moreover have vn: "view ?s2 c = Some N_Null" using s1(3) by (simp add: empty_node_def)
  then have "vals ?s2 env"
    using vals_null [OF quiet_vals [OF q, of env]] core s1(3) by (simp add: core_vals empty_node_def)
  moreover have a: "all_handles ?s2 = add_mset (Some c) (all_handles s1)" using n1 by (simp add: all_handles_def)
  have "cursor ?s2 x p ls cs l" if cur: "cursor s x p ls cs l" for x p ls cs l
  proof (rule cursor_grow [of s1 x p ls cs l _ "Some c"])
    show c1: "cursor s1 x p ls cs l" using quiet_cursor [OF q cur] by simp
    show "placed ?s2 (Var_Loc x)" "load_loc (Var_Loc x) ?s2 = load_loc (Var_Loc x) s1"
      using c1 var_place [of ?s2 s1 x] by (simp_all add: cursor_def)
    show "\<forall>b \<in> set cs. Some c \<noteq> Some b" using cursor_in [OF cur] s1(2) by (auto simp: gives_def)
  qed (simp_all add: a)
  ultimately have "reads s ?s2 env"
    using s1(4) None a by (simp add: reads_def core_vals room_def)
  then show ?thesis using that [of c ?s2] s1(1) None vn by (simp add: get_null_def)
qed


fun type_of_node :: "'d node \<Rightarrow> json_type" where
  "type_of_node N_Null = kNull"
| "type_of_node (N_Bool b) = kBool"
| "type_of_node (N_Int i) = kInt"
| "type_of_node (N_Double d) = kDouble"
| "type_of_node (N_Str t) = kStr"
| "type_of_node (N_List hs) = kList"
| "type_of_node (N_Dict d) = kDict"

lemma node_val_type: "typed s a \<Longrightarrow> node_of s a = Some n \<Longrightarrow> val_type a = type_of_node n"
  by (auto simp: typed_def node_of_def box_ptr_def box_node_def split: json_type.splits union_data.splits)

lemma holds_type: "g c = Some n \<Longrightarrow> holds g (Some c) v \<Longrightarrow> type_of_json v = type_of_node n"
  by (cases v) (auto split: node.splits)

text \<open>One step finds a child of the cell, or the static object.\<close>

lemma const_sub_ok:
  assumes core: "json_core s env" and v: "holds (view s) (Some c) v"
  shows "\<exists>d r s1. const_sub c st s = Inr (d, r, s1) \<and> reads s s1 env \<and> holds (view s1) (Some d) (read_step st v)
    \<and> ((s1 = s \<and> (\<exists>l2. r = Some l2 \<and> child_loc s c st l2 \<and> load_loc l2 s = Some (Some d))) \<or> (r = None \<and> null_val s1 = Some d))"
proof -
  have inv: "heap_inv s {#} {#}" by (rule coreD(1) [OF core])
  obtain n where n: "view s c = Some n" using holds_Some [OF v] by auto
  obtain a where a: "cell_at s c = Some a" "ref_cnt a \<noteq> 0" "typed s a" "node_of s a = Some n" by (rule view_typed [OF inv n])
  have da: "deref_cell s c = Inr a" using a(1) by (simp add: deref_cell_def)
  have vt: "val_type a = type_of_node n" by (rule node_val_type [OF a(3,4)])
  have jt: "type_of_json v = type_of_node n" by (rule holds_type [of "view s", OF n v])
  obtain c0 s0 where nu: "get_null s = Inr (c0, s0)" "reads s s0 env" "null_val s0 = Some c0" "view s0 c0 = Some N_Null"
    by (rule get_null_ok [OF core])
  have null: ?thesis if "const_sub c st s = Inr (c0, None, s0)" "read_step st v = JNull"
    using nu that by (intro exI [of _ c0] exI [of _ None] exI [of _ s0]) simp
  have child: ?thesis if e: "node_child st n = Some (Some d)" "const_sub c st s = Inr (d, Some (step_loc b st), s)" "box_ptr a = Inr (Some b)" for d b
  proof -
    obtain l2 where l2: "child_loc s c st l2" "load_loc l2 s = Some (Some d)" using node_place [OF inv n e(1)] by blast
    have "l2 = step_loc b st" using l2(1) a(1) e(3) by (auto simp: child_loc_def)
    then show ?thesis
      using l2 e(2) reads_refl [OF core] holds_child [of "view s", OF n v e(1)]
      by (intro exI [of _ d] exI [of _ "Some (step_loc b st)"] exI [of _ s]) auto
  qed
  show ?thesis
  proof (cases st)
    case (Index i)
    show ?thesis
    proof (cases "\<exists>hs. n = N_List hs")
      case True
      then obtain hs where hs: "n = N_List hs" by blast
      obtain b where b: "box_ptr a = Inr (Some b)" "list_of s a = Inr (b, hs)"
        by (rule list_cell [OF a(3)]) (use vt hs a(4) in auto)
      obtain vs where vs: "v = JList vs" "length hs = length vs" "None \<notin> set hs"
        using v n hs holds_children [of "view s", OF n v] by (cases v) (auto dest: list_all2_lengthD)
      show ?thesis
      proof (cases "length hs \<le> i")
        case True
        show ?thesis by (rule null) (use True Index da vt hs b vs nu(1) in \<open>simp_all add: const_sub_def children_list_def\<close>)
      next
        case False
        then obtain d where d: "hs ! i = Some d" using vs(3) nth_mem [of i hs] by (cases "hs ! i") auto
        show ?thesis by (rule child [of d b]) (use False d Index da vt hs b in \<open>simp_all add: const_sub_def\<close>)
      qed
    next
      case False
      then have "type_of_node n \<noteq> kList" by (cases n) auto
      then show ?thesis
        by (intro null) (use Index da vt nu(1) jt in \<open>cases v; simp add: const_sub_def children_list_def\<close>)+
    qed
  next
    case (Key k)
    show ?thesis
    proof (cases "\<exists>e. n = N_Dict e")
      case True
      then obtain e where e: "n = N_Dict e" by blast
      obtain b where b: "box_ptr a = Inr (Some b)" "dict_of s a = Inr (b, e)"
        by (rule dict_cell [OF a(3)]) (use vt e a(4) in auto)
      obtain d where d: "v = JDict d" "map fst e = map fst d" "list_all2 (holds (view s)) (map snd e) (map snd d)"
        using v n e by (cases v) auto
      show ?thesis
      proof (cases "map_of e k")
        case None
        then have "map_of d k = None" using related_map_of [OF d(2,3), of k] by auto
        then show ?thesis
          by (intro null) (use None Key da vt e b d(1) nu(1) in \<open>simp_all add: const_sub_def children_dict_def\<close>)
      next
        case (Some h)
        then obtain f where f: "h = Some f" using related_map_of [OF d(2,3), of k] holds_Some by fastforce
        show ?thesis by (rule child [of f b]) (use Some f Key da vt e b in \<open>simp_all add: const_sub_def\<close>)
      qed
    next
      case False
      then have "type_of_node n \<noteq> kDict" by (cases n) auto
      then show ?thesis
        by (intro null) (use Key da vt nu(1) jt in \<open>cases v; simp add: const_sub_def children_dict_def\<close>)+
    qed
  qed
qed

lemma read_path_Cons: "read_path (st # q) v = read_path q (read_step st v)"
  by (simp add: read_path_def)

lemma const_walk_ok:
  "json_core s env \<Longrightarrow> holds (view s) (Some c) v \<Longrightarrow>
    \<exists>d r' s1. const_walk c r q s = Inr (d, r', s1) \<and> reads s s1 env \<and> holds (view s1) (Some d) (read_path q v)"
proof (induction q arbitrary: s c r v)
  case Nil
  then show ?case by (simp add: reads_refl read_path_def)
next
  case (Cons st q)
  obtain d r1 s1 where s1: "const_sub c st s = Inr (d, r1, s1)" "reads s s1 env" "holds (view s1) (Some d) (read_step st v)"
    using const_sub_ok [OF Cons.prems] by blast
  have "json_core s1 env" using s1(2) by (simp add: reads_def)
  from Cons.IH [OF this s1(3), of r1] obtain e r2 s2 where "const_walk d r1 q s1 = Inr (e, r2, s2)" "reads s1 s2 env"
    "holds (view s2) (Some e) (read_path q (read_step st v))" by blast
  with s1 reads_trans show ?case by (fastforce simp: read_path_Cons)
qed

lemma sint_inj: "sint a = sint b \<longleftrightarrow> (a :: 64 word) = b"
  by (auto intro: signed_word_eqI)

lemma node_data:
  assumes "node_of s a = Some n"
  shows "n = N_Bool b \<Longrightarrow> val_data a = Bool_Val b" "n = N_Int i \<Longrightarrow> val_data a = Int_Val i" "n = N_Double d \<Longrightarrow> val_data a = Double_Val d"
  using assms by (auto simp: node_of_def box_node_def split: json_type.splits union_data.splits sum.splits option.splits box.splits)

lemma look_val:
  assumes inv: "heap_inv s {#} {#}" and v: "holds (view s) (Some c) v"
  obtains a where "deref_cell s c = Inr a" "val_type a = type_of_json v" "Size_val s a = Inr (size_of_json v)"
    "As_scalar s a = Inr (scalar_of_json v)" "json_equal close x s a = Inr (equal_scalar close x v)"
proof -
  obtain n where n: "view s c = Some n" using holds_Some [OF v] by auto
  obtain a where a: "cell_at s c = Some a" "ref_cnt a \<noteq> 0" "typed s a" "node_of s a = Some n" by (rule view_typed [OF inv n])
  have vt: "val_type a = type_of_json v"
    using node_val_type [OF a(3,4)] holds_type [of "view s", OF n v] by simp
  have "Size_val s a = Inr (size_of_json v) \<and> As_scalar s a = Inr (scalar_of_json v) \<and> json_equal close x s a = Inr (equal_scalar close x v)"
  proof (cases v)
    case (JStr t)
    obtain b where b: "str_of s a = Inr (b, t)" by (rule str_cell [OF a(3)]) (use vt JStr a(4) v n in auto)
    with JStr vt show ?thesis by (cases x) (simp_all add: Size_val_def As_scalar_def json_equal_def)
  next
    case (JList vs)
    obtain hs where hs: "n = N_List hs" "length hs = length vs" using v n JList by (auto dest: list_all2_lengthD)
    obtain b where b: "list_of s a = Inr (b, hs)" by (rule list_cell [OF a(3)]) (use vt JList a(4) hs in auto)
    with JList vt hs show ?thesis by (cases x) (simp_all add: Size_val_def As_scalar_def json_equal_def)
  next
    case (JDict d)
    obtain e where e: "n = N_Dict e" "length e = length d" using v n JDict by (auto dest: list_all2_lengthD)
    obtain b where b: "dict_of s a = Inr (b, e)" by (rule dict_cell [OF a(3)]) (use vt JDict a(4) e in auto)
    with JDict vt e show ?thesis by (cases x) (simp_all add: Size_val_def As_scalar_def json_equal_def)
  next
    case JNull
    with vt show ?thesis by (cases x) (simp_all add: Size_val_def As_scalar_def json_equal_def)
  next
    case (JBool b)
    then have "val_data a = Bool_Val b" using v n node_data(1) [OF a(4)] by simp
    with vt JBool show ?thesis by (cases x) (simp_all add: Size_val_def As_scalar_def json_equal_def)
  next
    case (JInt i)
    then obtain w where "i = sint w" "n = N_Int w" using v n by (auto split: node.splits)
    then have "i = sint w" "val_data a = Int_Val w" using node_data(2) [OF a(4)] by simp_all
    with vt JInt show ?thesis by (cases x) (auto simp: Size_val_def As_scalar_def json_equal_def sint_inj)
  next
    case (JDouble d)
    then have "val_data a = Double_Val d" using v n node_data(3) [OF a(4)] by simp
    with vt JDouble show ?thesis by (cases x) (simp_all add: Size_val_def As_scalar_def json_equal_def)
  qed
  then show ?thesis using that [of a] a(1) vt by (simp add: deref_cell_def)
qed

lemma read_walk:
  assumes rel: "json_rel (s, cur) (env, scur)" and y: "has_var y s"
  obtains c d r s1 v where "var_cell y s = Inr c" "const_walk c (Some (Var_Loc y)) q s = Inr (d, r, s1)" "json_rel (s1, cur) (env, scur)"
    "env y = Some v" "holds (view s1) (Some d) (read_path q v)"
proof -
  have core: "json_core s env" and hc: "has_cursor s cur scur" using rel by simp_all
  obtain c v where c: "env y = Some v" "holds (view s) (Some c) v" "var_cell y s = Inr c" by (rule core_var [OF core y])
  from const_walk_ok [OF core c(2)] obtain d r s1 where w: "const_walk c (Some (Var_Loc y)) q s = Inr (d, r, s1)" "reads s s1 env"
    "holds (view s1) (Some d) (read_path q v)" by blast
  have "has_cursor s1 cur scur"
    using hc w(2) unfolding has_cursor_def reads_def by (auto split: option.splits) blast
  then have "json_rel (s1, cur) (env, scur)" using w(2) by (simp add: reads_def)
  from that [OF c(3) w(1) this c(1) w(3)] show ?thesis .
qed

lemma look_sim:
  assumes rel: "json_rel (s, cur) (env, scur)" and pre: "json_pre (s, cur) (J_Look y q)"
  shows "sim_ok close (s, cur) (env, scur) (J_Look y q)"
proof -
  obtain c d r s1 v where w: "var_cell y s = Inr c" "const_walk c (Some (Var_Loc y)) q s = Inr (d, r, s1)" "json_rel (s1, cur) (env, scur)"
    "env y = Some v" "holds (view s1) (Some d) (read_path q v)"
    by (rule read_walk [OF rel, of y]) (use pre in simp)
  have "heap_inv s1 {#} {#}" using w(3) coreD(1) by auto
  from look_val [OF this w(5)] obtain a where "deref_cell s1 d = Inr a" "val_type a = type_of_json (read_path q v)"
    "Size_val s1 a = Inr (size_of_json (read_path q v))" "As_scalar s1 a = Inr (scalar_of_json (read_path q v))" by metis
  with w show ?thesis unfolding sim_ok_def by (simp add: Let_def)
qed

lemma equal_sim:
  assumes rel: "json_rel (s, cur) (env, scur)" and pre: "json_pre (s, cur) (J_Equal y q x)"
  shows "sim_ok close (s, cur) (env, scur) (J_Equal y q x)"
proof -
  obtain c d r s1 v where w: "var_cell y s = Inr c" "const_walk c (Some (Var_Loc y)) q s = Inr (d, r, s1)" "json_rel (s1, cur) (env, scur)"
    "env y = Some v" "holds (view s1) (Some d) (read_path q v)"
    by (rule read_walk [OF rel, of y]) (use pre in simp)
  have "heap_inv s1 {#} {#}" using w(3) coreD(1) by auto
  from look_val [OF this w(5)] obtain a where "deref_cell s1 d = Inr a" "json_equal close x s1 a = Inr (equal_scalar close x (read_path q v))"
    by metis
  with w show ?thesis unfolding sim_ok_def by simp
qed

end
