(* ===== verification/Json_Assign.thy ===== *)
theory Json_Assign
  imports Json_Refine
begin

text \<open>
  Assigning one object to another: the object read is not on the path of the object written,
  unless it is the same one.
\<close>

section \<open>Off the path\<close>

definition away :: "'d json_heap \<Rightarrow> nat list \<Rightarrow> json_loc \<Rightarrow> nat \<Rightarrow> json_loc option \<Rightarrow> bool" where
  "away s cs l d r \<longleftrightarrow> d \<notin> set cs \<and> Some d \<in># all_handles (store_loc l None s) \<and> r \<noteq> Some l"

lemma away_place:
  assumes inv: "heap_inv s {#} {#}" and cur: "cursor s x p ls cs l" and l2: "placed s l2" "load_loc l2 s = Some (Some d)" "l2 \<notin> set ls" "l2 \<noteq> l"
  shows "away s cs l d (Some l2)"
proof -
  have l: "placed s l" by (rule cursor_placed [OF inv cur])
  have "Some d \<in># all_handles (store_loc l None s)"
    by (rule place_handle [of _ l2]) (use l2 in \<open>simp_all add: placed_store [OF l] load_store [OF l]\<close>)
  with cursor_place [OF inv cur _ l2(1,2)] l2(3,4) show ?thesis by (auto simp: away_def)
qed

lemma away_null: "json_core s env \<Longrightarrow> cursor s x p ls cs l \<Longrightarrow> null_val s = Some d \<Longrightarrow> away s cs l d None"
  using null_not_on_path [of s env x p ls cs l d] null_handle [of "store_loc l None s" d] by (auto simp: away_def)

lemma away_child:
  assumes inv: "heap_inv s {#} {#}" and cur: "cursor s x p ls cs l" and c: "c \<notin> set cs" and ch: "child_loc s c st l2" "load_loc l2 s = Some (Some d)"
  shows "away s cs l d (Some l2)"
proof (rule away_place [OF inv cur child_placed [OF inv ch(1)] ch(2)])
  show "l2 \<noteq> l" using cursor_owner [OF inv cur] ch(1) c by blast
  show "l2 \<notin> set ls"
  proof
    assume "l2 \<in> set ls"
    then obtain a st' where "a \<in> set cs" "child_loc s a st' l2"
      using walk_locs [of s "Var_Loc x" p ls cs l l2] cur child_not_var [OF ch(1)] by (auto simp: cursor_def)
    with child_unique(1) [OF inv ch(1)] c show False by blast
  qed
qed

lemma walk_away:
  "json_core s env \<Longrightarrow> cursor s x p ls cs l \<Longrightarrow> away s cs l c r \<Longrightarrow> holds (view s) (Some c) v \<Longrightarrow>
    \<exists>d r' s1. const_walk c r q s = Inr (d, r', s1) \<and> reads s s1 env \<and> holds (view s1) (Some d) (read_path q v) \<and> away s1 cs l d r'"
proof (induction q arbitrary: s c r v)
  case Nil
  then show ?case by (simp add: reads_refl read_path_def)
next
  case (Cons st q)
  obtain d r1 s1 where s1: "const_sub c st s = Inr (d, r1, s1)" "reads s s1 env" "holds (view s1) (Some d) (read_step st v)"
    "(s1 = s \<and> (\<exists>l2. r1 = Some l2 \<and> child_loc s c st l2 \<and> load_loc l2 s = Some (Some d))) \<or> (r1 = None \<and> null_val s1 = Some d)"
    using const_sub_ok [OF Cons.prems(1,4), of st] by (elim exE conjE) (rule that)
  have core1: "json_core s1 env" and cur1: "cursor s1 x p ls cs l" using s1(2) Cons.prems(2) by (simp_all add: reads_def)
  have "away s1 cs l d r1"
    using s1(4) away_null [OF core1 cur1] away_child [OF coreD(1) [OF Cons.prems(1)] Cons.prems(2), of c st] Cons.prems(3)
    by (auto simp: away_def)
  from Cons.IH [OF core1 cur1 this s1(3)] obtain e r2 s2 where e: "const_walk d r1 q s1 = Inr (e, r2, s2)" "reads s1 s2 env"
    "holds (view s2) (Some e) (read_path q (read_step st v))" "away s2 cs l e r2" by blast
  show ?case
    by (intro exI [of _ e] exI [of _ r2] exI [of _ s2]) (use s1(1) e reads_trans [OF s1(2) e(2)] in \<open>simp add: read_path_Cons\<close>)
qed

text \<open>A walk from the variable of the path leaves it, or ends in the same object.\<close>

lemma walk_on_path:
  "json_core s env \<Longrightarrow> cursor s x p ls cs l \<Longrightarrow> walk s li p2 ls2 cs2 l \<Longrightarrow> set (zip cs2 p2) \<subseteq> set (zip cs p) \<Longrightarrow>
    load_loc li s = Some (Some c) \<Longrightarrow> holds (view s) (Some c) v \<Longrightarrow> \<not> (length q < length p2 \<and> take (length q) p2 = q) \<Longrightarrow>
    \<exists>d r' s1. const_walk c (Some li) q s = Inr (d, r', s1) \<and> reads s s1 env \<and> holds (view s1) (Some d) (read_path q v)
      \<and> (away s1 cs l d r' \<or> (r' = Some l \<and> s1 = s \<and> q = p2))"
proof (induction q arbitrary: li p2 ls2 cs2 c v)
  case Nil
  then show ?case by (auto simp: reads_refl read_path_def)
next
  case (Cons st q)
  have inv: "heap_inv s {#} {#}" by (rule coreD(1) [OF Cons.prems(1)])
  obtain d r1 s1 where s1: "const_sub c st s = Inr (d, r1, s1)" "reads s s1 env" "holds (view s1) (Some d) (read_step st v)"
    "(s1 = s \<and> (\<exists>l2. r1 = Some l2 \<and> child_loc s c st l2 \<and> load_loc l2 s = Some (Some d))) \<or> (r1 = None \<and> null_val s1 = Some d)"
    using const_sub_ok [OF Cons.prems(1,6), of st] by (elim exE conjE) (rule that)
  have core1: "json_core s1 env" and cur1: "cursor s1 x p ls cs l" using s1(2) Cons.prems(2) by (simp_all add: reads_def)
  have off: ?case if "away s1 cs l d r1"
  proof -
    from walk_away [OF core1 cur1 that s1(3), of q] obtain e r2 s2 where e: "const_walk d r1 q s1 = Inr (e, r2, s2)" "reads s1 s2 env"
      "holds (view s2) (Some e) (read_path q (read_step st v))" "away s2 cs l e r2" by blast
    show ?thesis
      by (intro exI [of _ e] exI [of _ r2] exI [of _ s2]) (use s1(1) e reads_trans [OF s1(2) e(2)] in \<open>simp add: read_path_Cons\<close>)
  qed
  show ?case
  proof (cases "r1 = None")
    case True
    with s1(4) show ?thesis by (intro off) (use away_null [OF core1 cur1] in auto)
  next
    case False
    then obtain l2 where l2: "s1 = s" "r1 = Some l2" "child_loc s c st l2" "load_loc l2 s = Some (Some d)" using s1(4) by blast
    show ?thesis
    proof (cases p2)
      case Nil
      then have "c \<notin> set cs" using Cons.prems(3,5) cursor_leaf [OF inv Cons.prems(2)] by simp
      from away_child [OF inv Cons.prems(2) this l2(3,4)] show ?thesis using l2(1,2) by (intro off) simp
    next
      case (Cons st' p3)
      obtain ls3 cs3 l1 where w: "cs2 = c # cs3" "child_loc s c st' l1" "walk s l1 p3 ls3 cs3 l"
        using Cons.prems(3,5) Cons by auto
      have c: "(c, st') \<in> set (zip cs p)" using Cons.prems(4) w(1) Cons by auto
      show ?thesis
      proof (cases "st = st'")
        case True
        have "l2 = l1" using child_fun [OF w(2), of l2] l2(3) True by simp
        have "\<exists>e r' s2. const_walk d (Some l1) q s = Inr (e, r', s2) \<and> reads s s2 env \<and> holds (view s2) (Some e) (read_path q (read_step st v))
            \<and> (away s2 cs l e r' \<or> (r' = Some l \<and> s2 = s \<and> q = p3))"
        proof (rule Cons.IH [OF Cons.prems(1,2) w(3)])
          show "set (zip cs3 p3) \<subseteq> set (zip cs p)" using Cons.prems(4) w(1) Cons by auto
          show "\<not> (length q < length p3 \<and> take (length q) p3 = q)" using Cons.prems(7) Cons True by simp
        qed (use l2 \<open>l2 = l1\<close> s1(3) in simp_all)
        then show ?thesis using s1(1) l2(1,2) \<open>l2 = l1\<close> Cons True by (simp add: read_path_Cons)
      next
        case False
        note sb = cursor_sibling [OF inv Cons.prems(2) c l2(3) False]
        from away_place [OF inv Cons.prems(2) child_placed [OF inv l2(3)] l2(4)] sb l2(1,2)
        show ?thesis by (intro off) simp
      qed
    qed
  qed
qed

section \<open>The assignment\<close>

lemma set_key_same: "distinct (map fst e) \<Longrightarrow> map_of e k = Some h \<Longrightarrow> set_key k h e = e"
  by (induction e) (auto simp: set_key_def set_key_other [unfolded set_key_def] split: if_splits)

lemma put_same:
  assumes "holds g (Some c) v" "g c = Some n" "node_child st n \<noteq> None" "\<And>e. n = N_Dict e \<Longrightarrow> distinct (map fst e)"
  shows "put_step st (read_step st v) v = v"
proof (cases st)
  case (Index i)
  then obtain hs where n: "n = N_List hs" "i < length hs" using assms(3) by (cases n) (auto split: if_splits)
  then obtain vs where "v = JList vs" "length hs = length vs" using assms(1,2) by (cases v) (auto dest: list_all2_lengthD)
  with n Index show ?thesis by (simp add: children_list_def)
next
  case (Key k)
  then obtain e where e: "n = N_Dict e" "map_of e k \<noteq> None" using assms(3) by (cases n) auto
  then obtain d where d: "v = JDict d" "map fst e = map fst d" "list_all2 (holds g) (map snd e) (map snd d)" using assms(1,2) by (cases v) auto
  obtain w where "map_of d k = Some w" using related_map_of [OF d(2,3), of k] e(2) by auto
  with set_key_same [of d k w] assms(4) [OF e(1)] d Key show ?thesis by (simp add: children_dict_def)
qed

lemma update_same:
  "walk s li p ls cs l \<Longrightarrow> heap_inv s H B \<Longrightarrow> load_loc li s = Some h0 \<Longrightarrow> holds (view s) h0 v \<Longrightarrow> update_path p (\<lambda>u. read_path p v) v = v"
proof (induction p arbitrary: li ls cs h0 v)
  case (Cons st p)
  then obtain c ls3 cs3 l1 where a: "load_loc li s = Some (Some c)" "child_loc s c st l1" "walk s l1 p ls3 cs3 l" by auto
  obtain n where n: "view s c = Some n" "node_child st n = load_loc l1 s" "\<And>e. n = N_Dict e \<Longrightarrow> distinct (map fst e)"
    by (rule child_owner [OF Cons.prems(2) a(2)]) blast
  obtain g0 where g: "load_loc l1 s = Some g0" using a(2) by (auto simp: child_loc_def)
  have v: "holds (view s) (Some c) v" using Cons.prems(3,4) a(1) by simp
  have "holds (view s) g0 (read_step st v)" by (rule holds_child [of "view s", OF n(1) v]) (use n(2) g in auto)
  from Cons.IH [OF a(3) Cons.prems(2) g this] put_same [of "view s", OF v n(1) _ n(3)] n(2) g show ?case by (simp add: read_path_Cons)
qed (simp add: read_path_def)

lemma fill_same:
  assumes core: "json_core s env" and cur: "cursor s x p ls cs l" and d: "away s cs l d r" "holds (view s) (Some d) w" and rm: "room s + 1 < 2 ^ 16"
  obtains s2 where "call_at l (\<lambda>h s. no_out (assign_json h d s)) s = Inr ((), s2)" "cursor s2 x p ls cs l"
    "json_core s2 (env(x := map_option (update_path p (\<lambda>u. w)) (env x)))"
proof (rule at_cursor [OF core cur, of "\<lambda>h s. no_out (assign_json h d s)"])
  let ?s0 = "store_loc l None s"
  fix c v
  assume c: "heap_inv ?s0 {#Some c#} {#}" "load_loc l s = Some (Some c)"
    "call_at l (\<lambda>h s. no_out (assign_json h d s)) s = rbind (no_out (assign_json (Some c) d ?s0)) (\<lambda>(h', out, s1). Inr (out, store_loc l h' s1))"
  have inv: "heap_inv s {#} {#}" by (rule coreD(1) [OF core])
  have inv0: "heap_inv ?s0 (add_mset (Some c) {#}) {#}" using c(1) by simp
  have d0: "Some d \<in># all_handles ?s0" "d \<notin> set cs" using d(1) by (simp_all add: away_def)
  obtain s1 where s1: "assign_json (Some c) d ?s0 = Inr (Some d, s1)" "heap_inv s1 {#Some d#} {#}" "frame ?s0 s1 {} {#} {#}"
    by (rule assign_json_ok [OF inv0, of d])
      (use d0 rm size_taken [OF cursor_placed [OF inv cur]] in \<open>simp_all add: room_def split: if_splits\<close>)
  have "quiet ?s0 {#the (load_loc l s)#} {#} s1 {#Some d#}"
    using c(1,2) s1 by (auto simp: quiet_def)
  then have f: "fills s x p ls cs l {#} d s1" using inv cur d0(2) by (auto simp: fills_def)
  have "live s1 d" using heap_invD(1) [OF s1(2), of d] by simp
  from fills_other [OF f d0(2) d(2) d0(1) this] have w: "holds (view (store_loc l (Some d) s1)) (Some d) w" .
  show ?thesis
    by (rule that [OF _ fills_facts(6) [OF f] fills_core [OF core f w]]) (unfold c(3), simp add: s1(1) no_out_def)
qed

lemma assign_sim:
  assumes rel: "json_rel (s, cur) (env, scur)" and pre: "json_pre (s, cur) (J_Assign y q)"
  shows "sim_ok close (s, cur) (env, scur) (J_Assign y q)"
proof -
  have core: "json_core s env" using rel by simp
  obtain x p l ls cs where cur: "cur = Some (x, p, l)" "scur = Some (x, p)" "cursor s x p ls cs l"
    using rel pre by (auto simp: has_cursor_def split: option.splits)
  have pre': "has_var y s" "room s + 1 < 2 ^ 16" "\<not> (y = x \<and> length q < length p \<and> take (length q) p = q)" using pre cur(1) by simp_all
  note inv = coreD(1) [OF core]
  obtain c v where c: "load_loc (Var_Loc y) s = Some (Some c)" "env y = Some v" "holds (view s) (Some c) v" "placed s (Var_Loc y)" "var_cell y s = Inr c"
    by (rule core_var [OF core pre'(1)])
  have wk: "walk s (Var_Loc x) p ls cs l" using cur(3) by (simp add: cursor_def)
  have "\<exists>d r s1. const_walk c (Some (Var_Loc y)) q s = Inr (d, r, s1) \<and> reads s s1 env \<and> holds (view s1) (Some d) (read_path q v)
      \<and> (away s1 cs l d r \<or> (r = Some l \<and> s1 = s \<and> q = p \<and> y = x))"
  proof (cases "y = x")
    case True
    then show ?thesis using walk_on_path [OF core cur(3) wk _ _ c(3), of q] c(1) pre'(3) by auto
  next
    case False
    have no: "Var_Loc y \<notin> set ls" "Var_Loc y \<noteq> l"
      using walk_locs [OF wk, of "Var_Loc y"] False child_not_var by fastforce+
    from walk_away [OF core cur(3) away_place [OF inv cur(3) c(4,1) no] c(3), of q] show ?thesis by blast
  qed
  then obtain d r s1 where w: "const_walk c (Some (Var_Loc y)) q s = Inr (d, r, s1)" "reads s s1 env" "holds (view s1) (Some d) (read_path q v)"
    "away s1 cs l d r \<or> (r = Some l \<and> s1 = s \<and> q = p \<and> y = x)" by blast
  have core1: "json_core s1 env" and cur1: "cursor s1 x p ls cs l" and rm1: "room s1 + 1 < 2 ^ 16"
    using w(2) cur(3) pre'(2) by (simp_all add: reads_def)
  show ?thesis
  proof (cases "r = Some l")
    case True
    then have same: "s1 = s" "q = p" "y = x" using w(4) by (auto simp: away_def)
    have "update_path p (\<lambda>u. read_path p v) v = v" using update_same [OF wk inv _ c(3)] c(1) same(3) by simp
    then have "env(x := map_option (update_path p (\<lambda>u. read_path p v)) (env x)) = env" using c(2) same(3) by auto
    with rel w(1) same c cur(1,2) True show ?thesis unfolding sim_ok_def by simp
  next
    case False
    then have aw: "away s1 cs l d r" using w(4) by blast
    obtain s2 where "call_at l (\<lambda>h s. no_out (assign_json h d s)) s1 = Inr ((), s2)" "cursor s2 x p ls cs l"
      "json_core s2 (env(x := map_option (update_path p (\<lambda>u. read_path q v)) (env x)))"
      by (rule fill_same [OF core1 cur1 aw w(3) rm1])
    with w(1) c cur(1,2) False show ?thesis unfolding sim_ok_def by (auto simp: has_cursor_def)
  qed
qed

end
