(* ===== verification/Json_Share.thy ===== *)
theory Json_Share
  imports Json_Assign
begin

text \<open>
  The theorems on JSON values: within its preconditions a client cannot tell shared cells from
  values that share nothing, and what happens outside of them.
\<close>

section \<open>Refinement\<close>

lemma call_sim:
  assumes rel: "json_rel m e" and pre: "json_pre m op"
  shows "sim_ok close m e op"
proof -
  obtain s cur where m: "m = (s, cur)" by (cases m)
  obtain env scur where e: "e = (env, scur)" by (cases e)
  note r = rel [unfolded m e] and p = pre [unfolded m]
  show ?thesis
  proof (cases op)
    case (J_New x T)
    show ?thesis using p unfolding m e J_New by (rule new_sim [OF r])
  next
    case (J_Copy x y)
    show ?thesis using p unfolding m e J_Copy by (rule copy_sim [OF r])
  next
    case (J_Delete x)
    show ?thesis using p unfolding m e J_Delete by (rule delete_sim [OF r])
  next
    case (J_Var x)
    show ?thesis using p unfolding m e J_Var by (rule var_sim [OF r])
  next
    case (J_Sub st)
    show ?thesis using p unfolding m e J_Sub by (rule sub_sim [OF r])
  next
    case (J_Set a)
    show ?thesis using p unfolding m e J_Set by (rule set_sim [OF r])
  next
    case (J_Assign y q)
    show ?thesis using p unfolding m e J_Assign by (rule assign_sim [OF r])
  next
    case (J_Look y q)
    show ?thesis using p unfolding m e J_Look by (rule look_sim [OF r])
  next
    case (J_Equal y q x)
    show ?thesis using p unfolding m e J_Equal by (rule equal_sim [OF r])
  qed
qed

interpretation js: forward_simulation "json_call close" "\<lambda>e op out e'. value_call close e op = (out, e')" json_pre json_rel
  for close :: "'d \<Rightarrow> 'd \<Rightarrow> bool"
proof
  fix m :: "'d json_state" and e op
  assume "json_rel m e" "json_pre m op"
  from call_sim [OF this, of close] show "\<exists>out m' e'. json_call close m op = Inr (out, m') \<and> json_rel m' e' \<and> value_call close e op = (out, e')"
    by (simp add: sim_ok_def)
qed

abbreviation no_json :: "'d json_state" where
  "no_json \<equiv> (new_json_heap, None)"

abbreviation no_values :: "'d json_env" where
  "no_values \<equiv> (\<lambda>x. None, None)"

lemma new_heap_rel: "json_rel no_json no_values"
  by (simp add: json_core_def heap_inv_def new_json_heap_def all_handles_def all_boxes_def cell_at_def load_loc_def has_cursor_def)

lemma client_run:
  assumes "legal_ops (json_call close) json_pre no_json ops"
  obtains m where "run_ops (json_call close) no_json ops = Inr (fst (fun_run (value_call close) no_values ops), m)"
    "json_rel m (snd (fun_run (value_call close) no_values ops))"
  using js.run_related [OF new_heap_rel assms] by (auto simp: spec_run_fun)

text \<open>
  C1: A client of JSON values that keeps to the preconditions never faults and sees exactly what it
  would see if every variable had a value of its own.
\<close>

theorem json_values_independent:
  assumes "legal_ops (json_call close) json_pre no_json ops"
  shows "\<exists>m. run_ops (json_call close) no_json ops = Inr (fst (fun_run (value_call close) no_values ops), m)"
  by (rule client_run [OF assms]) blast

definition share_ops :: "nat json_op list" where
  "share_ops = [J_New 0 kDict, J_Var 0, J_Sub (Key ''a''), J_Set (S_Int 5), J_Copy 1 0, J_Var 1, J_Sub (Key ''a''), J_Set (S_Int 6),
     J_Look 0 [Key ''a'']]"

lemma share_ops_run: "fst (fun_run (value_call (=)) no_values share_ops) =
    [J_Done, J_Done, J_Done, J_Done, J_Done, J_Done, J_Done, J_Done, J_Seen kInt 1 (Some (S_Int 5))]"
  by (simp add: share_ops_def empty_json_def children_dict_def set_key_def read_path_def)

lemmas json_run_defs = new_val_def empty_data_def GetBox_def pool_of_def set_pool_def empty_box_def FreeBox_def cell_at_def box_at_def
  put_cell_def put_box_def deref_cell_def deref_box_def box_ptr_def list_of_def dict_of_def str_of_def reset_val_def IncRefCnt_def
  DecRefCnt_def Copy_val_def Reset_handle_def give_up_def assign_naive_def assign_str_def assign_json_def Normalize_def own_as_def
  index_val_def field_val_def get_null_def const_sub_def Size_val_def As_scalar_def set_key_def load_loc_def store_loc_def call_at_def
  var_cell_def sub_val_def set_val_to_def no_out_def new_json_heap_def

lemma share_ops_legal: "legal_ops (json_call (=)) json_pre no_json share_ops"
  by (simp add: share_ops_def json_run_defs has_var_def room_def all_handles_def opt_handles_def copy_ok_def boxed_def clean_pool_def)

lemma json_values_independent_witness:
  "\<exists>m. run_ops (json_call (=)) no_json share_ops =
    Inr ([J_Done, J_Done, J_Done, J_Done, J_Done, J_Done, J_Done, J_Done, J_Seen kInt 1 (Some (S_Int 5))], m)"
  using json_values_independent [OF share_ops_legal] by (simp only: share_ops_run)

text \<open>
  C30: After any such run, an object points to a cell that is there and whose union holds the member
  that its type says, and the count of the cell is the number of objects that point to it.
\<close>

theorem json_cells_typed:
  assumes "legal_ops (json_call close) json_pre no_json ops"
  shows "\<exists>outs s cur. run_ops (json_call close) no_json ops = Inr (outs, s, cur)
    \<and> (\<forall>c. Some c \<in># all_handles s \<longrightarrow>
          (\<exists>v. cell_at s c = Some v \<and> typed s v \<and> unat (ref_cnt v) = count (all_handles s) (Some c)))"
proof -
  obtain s cur where m: "run_ops (json_call close) no_json ops = Inr (fst (fun_run (value_call close) no_values ops), s, cur)"
    "json_rel (s, cur) (snd (fun_run (value_call close) no_values ops))"
    using client_run [OF assms] by (metis surj_pair)
  then have inv: "heap_inv s {#} {#}" using coreD(1) by (cases "snd (fun_run (value_call close) no_values ops)") auto
  have "\<exists>v. cell_at s c = Some v \<and> typed s v \<and> unat (ref_cnt v) = count (all_handles s) (Some c)" if c: "Some c \<in># all_handles s" for c
  proof -
    obtain v where v: "cell_at s c = Some v" "ref_cnt v \<noteq> 0" using heap_invD(1) [OF inv, of c] c by (auto simp: live_def)
    have "balanced v (count (all_handles s) (Some c))" using heap_invD(3) [OF inv v(1)] by simp
    moreover have "count (all_handles s) (Some c) \<noteq> 0" using c by simp
    ultimately show ?thesis using v heap_invD(2) [OF inv v] by (auto simp: balanced_def)
  qed
  with m(1) show ?thesis by blast
qed

lemma json_cells_typed_witness:
  "\<exists>outs s cur. run_ops (json_call (=)) no_json share_ops = Inr (outs, s, cur)
    \<and> (\<forall>c. Some c \<in># all_handles s \<longrightarrow>
          (\<exists>v. cell_at s c = Some v \<and> typed s v \<and> unat (ref_cnt v) = count (all_handles s) (Some c)))"
  by (rule json_cells_typed [OF share_ops_legal])

section \<open>Printing\<close>

lemma dump_all_ok: "list_all2 (\<lambda>h v. f h = Inr (g v)) hs vs \<Longrightarrow> dump_all f hs = Inr (map g vs)"
  by (induction rule: list_all2_induct) simp_all

lemma holds_cell:
  assumes inv: "heap_inv s H B" and v: "holds (view s) h v"
  obtains c n a where "h = Some c" "view s c = Some n" "deref_cell s c = Inr a" "typed s a" "node_of s a = Some n"
    "val_type a = type_of_json v"
proof -
  obtain c n where c: "h = Some c" "view s c = Some n" using holds_Some [OF v] by auto
  obtain a where a: "cell_at s c = Some a" "typed s a" "node_of s a = Some n" by (rule view_typed [OF inv c(2)])
  have "val_type a = type_of_json v" using node_val_type [OF a(2,3)] holds_type [of "view s", OF c(2)] v c(1) by simp
  with c a show ?thesis by (intro that [of c n a]) (simp_all add: deref_cell_def)
qed

text \<open>The depth of the calls that print a value.\<close>

fun depth :: "'d json \<Rightarrow> nat" where
  "depth (JList vs) = Suc (foldr (\<lambda>v. max (depth v)) vs 0)"
| "depth (JDict d) = Suc (foldr (\<lambda>(k, v). max (depth v)) d 0)"
| "depth v = 1"

lemma foldr_max_le: "x \<in> set xs \<Longrightarrow> f x \<le> foldr (\<lambda>x. max (f x)) xs (0::nat)"
  by (induction xs) (auto simp: le_max_iff_disj)

lemma depth_child:
  "v \<in> set vs \<Longrightarrow> depth v < depth (JList vs)" "(key, v) \<in> set d \<Longrightarrow> depth v < depth (JDict d)"
  using foldr_max_le [of v vs depth] foldr_max_le [of "(key, v)" d "\<lambda>(k, v). depth v"]
  by (simp_all add: less_Suc_eq_le case_prod_unfold)

lemma related_enumerate:
  "list_all2 P xs ys \<Longrightarrow> list_all2 (\<lambda>x y. fst x = fst y \<and> P (snd x) (snd y)) (List.enumerate n xs) (List.enumerate n ys)"
  by (induction xs ys arbitrary: n rule: list_all2_induct) simp_all

lemma related_iteration: "list_all2 P xs ys \<Longrightarrow> list_all2 P (iteration ps xs) (iteration ps ys)"
  by (auto simp: iteration_def list.rel_map list_all2_lengthD intro!: list.rel_refl_strong dest: list_all2_nthD2)

lemma related_pairs:
  "map fst e = map fst d \<Longrightarrow> list_all2 P (map snd e) (map snd d) \<Longrightarrow> list_all2 (\<lambda>x y. fst x = fst y \<and> P (snd x) (snd y)) e d"
  by (induction e arbitrary: d) (auto simp: Cons_eq_map_conv)

lemma dump_holds:
  assumes inv: "heap_inv s {#} {#}"
  shows "holds (view s) h v \<Longrightarrow> depth v \<le> k \<Longrightarrow> dump_val show_double ord s k h = Inr (DumpJson show_double ord v)"
proof (induction v arbitrary: h k ord)
  case (JList vs)
  obtain c n a where h: "h = Some c" "view s c = Some n" and a: "deref_cell s c = Inr a" "typed s a" "node_of s a = Some n"
    and vt: "val_type a = type_of_json (JList vs)"
    by (rule holds_cell [OF inv JList.prems(1)])
  obtain hs where hs: "n = N_List hs" "list_all2 (holds (view s)) hs vs" using JList.prems(1) h by auto
  obtain b where b: "list_of s a = Inr (b, hs)" by (rule list_cell [OF a(2)]) (use vt a(3) hs(1) in auto)
  obtain k' where k: "k = Suc k'" using JList.prems(2) by (cases k) auto
  have "list_all2 (\<lambda>x y. dump_val show_double (below ord (fst x)) s k' (snd x) = Inr (DumpJson show_double (below ord (fst y)) (snd y)))
      (List.enumerate 0 hs) (List.enumerate 0 vs)"
    using related_enumerate [OF hs(2)]
  proof (rule list.rel_mono_strong)
    fix x y assume xy: "y \<in> set (List.enumerate 0 vs)" "fst x = fst y \<and> holds (view s) (snd x) (snd y)"
    have y: "snd y \<in> set vs" by (rule enumerate_snd [OF xy(1)])
    then show "dump_val show_double (below ord (fst x)) s k' (snd x) = Inr (DumpJson show_double (below ord (fst y)) (snd y))"
      using JList.IH [OF y, of "snd x" k'] xy(2) JList.prems(2) k depth_child(1) [OF y] by simp
  qed
  from dump_all_ok [OF this] show ?case using k h(1) a(1) vt b by (simp add: DumpJson_def comp_def)
next
  case (JDict d)
  obtain c n a where h: "h = Some c" "view s c = Some n" and a: "deref_cell s c = Inr a" "typed s a" "node_of s a = Some n"
    and vt: "val_type a = type_of_json (JDict d)"
    by (rule holds_cell [OF inv JDict.prems(1)])
  obtain e where e: "n = N_Dict e" "map fst e = map fst d" "list_all2 (holds (view s)) (map snd e) (map snd d)" using JDict.prems(1) h by auto
  obtain b where b: "dict_of s a = Inr (b, e)" by (rule dict_cell [OF a(2)]) (use vt a(3) e(1) in auto)
  obtain k' where k: "k = Suc k'" using JDict.prems(2) by (cases k) auto
  let ?it = "\<lambda>xs. List.enumerate 0 (iteration (ord [] (length d)) xs)"
  let ?p = "\<lambda>x. rbind (dump_val show_double (below ord (fst x)) s k' (snd (snd x))) (\<lambda>t. Inr (quoted (fst (snd x)) @ '':'' @ t))"
  have "list_all2 (\<lambda>x y. ?p x = Inr (quoted (fst (snd y)) @ '':'' @ DumpJson show_double (below ord (fst y)) (snd (snd y)))) (?it e) (?it d)"
    using related_enumerate [OF related_iteration [OF related_pairs [OF e(2,3)]]]
  proof (rule list.rel_mono_strong)
    fix x y
    assume y: "y \<in> set (?it d)"
      and xy: "fst x = fst y \<and> fst (snd x) = fst (snd y) \<and> holds (view s) (snd (snd x)) (snd (snd y))"
    obtain i key u where yu: "y = (i, key, u)" by (cases y)
    have "snd y \<in> set d" using enumerate_snd [OF y] set_iteration by (rule rev_subsetD)
    then have m: "(key, u) \<in> set d" using yu by simp
    have "depth u \<le> k'" using depth_child(2) [OF m] JDict.prems(2) k by simp
    with JDict.IH [OF m, of u "snd (snd x)" k'] xy yu show "?p x = Inr (quoted (fst (snd y)) @ '':'' @ DumpJson show_double (below ord (fst y)) (snd (snd y)))"
      by simp
  qed
  from dump_all_ok [OF this] have t: "dump_all ?p (?it e) =
      Inr (map (\<lambda>y. quoted (fst (snd y)) @ '':'' @ DumpJson show_double (below ord (fst y)) (snd (snd y))) (?it d))" .
  have "length e = length d" using e(2) map_eq_imp_length_eq by blast
  with t show ?case using k h(1) a(1) vt b by (simp add: DumpJson_def comp_def)
next
  case (JStr t)
  obtain c n a where h: "h = Some c" "view s c = Some n" and a: "deref_cell s c = Inr a" "typed s a" "node_of s a = Some n"
    and vt: "val_type a = type_of_json (JStr t :: 'a json)"
    by (rule holds_cell [OF inv JStr.prems(1)])
  have n: "n = N_Str t" using JStr.prems(1) h by simp
  obtain b where b: "str_of s a = Inr (b, t)" by (rule str_cell [OF a(2)]) (use vt a(3) n in auto)
  show ?case using JStr.prems(2) h(1) a(1) vt b by (cases k) (simp_all add: DumpJson_def)
next
  case JNull
  obtain c n a where h: "h = Some c" "view s c = Some n" and a: "deref_cell s c = Inr a" "typed s a" "node_of s a = Some n"
    and vt: "val_type a = type_of_json (JNull :: 'a json)"
    by (rule holds_cell [OF inv JNull.prems(1)])
  show ?case using JNull.prems(2) h(1) a(1) vt by (cases k) (simp_all add: DumpJson_def)
next
  case (JBool b)
  obtain c n a where h: "h = Some c" "view s c = Some n" and a: "deref_cell s c = Inr a" "typed s a" "node_of s a = Some n"
    and vt: "val_type a = type_of_json (JBool b :: 'a json)"
    by (rule holds_cell [OF inv JBool.prems(1)])
  have n: "n = N_Bool b" using JBool.prems(1) h by simp
  have "val_data a = Bool_Val b" using n node_data(1) [OF a(3)] by simp
  then show ?case using JBool.prems(2) h(1) a(1) vt by (cases k) (simp_all add: DumpJson_def)
next
  case (JInt i)
  obtain c n a where h: "h = Some c" "view s c = Some n" and a: "deref_cell s c = Inr a" "typed s a" "node_of s a = Some n"
    and vt: "val_type a = type_of_json (JInt i :: 'a json)"
    by (rule holds_cell [OF inv JInt.prems(1)])
  obtain w where w: "n = N_Int w" "i = sint w" using JInt.prems(1) h by (auto split: node.splits)
  have "val_data a = Int_Val w" using w(1) node_data(2) [OF a(3)] by simp
  then show ?case using JInt.prems(2) h(1) a(1) vt w(2) by (cases k) (simp_all add: DumpJson_def)
next
  case (JDouble x)
  obtain c n a where h: "h = Some c" "view s c = Some n" and a: "deref_cell s c = Inr a" "typed s a" "node_of s a = Some n"
    and vt: "val_type a = type_of_json (JDouble x)"
    by (rule holds_cell [OF inv JDouble.prems(1)])
  have n: "n = N_Double x" using JDouble.prems(1) h by simp
  have "val_data a = Double_Val x" using n node_data(3) [OF a(3)] by simp
  then show ?case using JDouble.prems(2) h(1) a(1) vt by (cases k) (simp_all add: DumpJson_def)
qed

text \<open>
  What \<open>DumpJson\<close> writes of a variable on the shared cells is the text of the value the variable
  would have of its own.
\<close>

theorem json_dump_value:
  assumes "legal_ops (json_call close) json_pre no_json ops"
    and "fst (snd (fun_run (value_call close) no_values ops)) x = Some v"
  shows "\<exists>outs s cur h n. run_ops (json_call close) no_json ops = Inr (outs, s, cur) \<and> load_loc (Var_Loc x) s = Some h
    \<and> (\<forall>k > n. dump_val show_double ord s k h = Inr (DumpJson show_double ord v))"
proof -
  obtain env scur where e: "snd (fun_run (value_call close) no_values ops) = (env, scur)" by (metis surj_pair)
  obtain s cur where m: "run_ops (json_call close) no_json ops = Inr (fst (fun_run (value_call close) no_values ops), s, cur)"
    "json_rel (s, cur) (snd (fun_run (value_call close) no_values ops))"
    using client_run [OF assms(1)] by (metis surj_pair)
  then have core: "json_core s env" using e by simp
  obtain h where h: "load_loc (Var_Loc x) s = Some h" using coreD(4) [OF core, of x] assms(2) e by (cases "load_loc (Var_Loc x) s") auto
  have "holds (view s) h v" using coreD(5) [OF core h] assms(2) e by simp
  from dump_holds [OF coreD(1) [OF core] this] m(1) h show ?thesis using less_imp_le by blast
qed

lemma share_ops_value: "fst (snd (fun_run (value_call (=)) no_values share_ops)) 1 = Some (JDict [(''a'', JInt 6)])"
  by (simp add: share_ops_def empty_json_def children_dict_def set_key_def read_path_def)

lemma json_dump_value_witness:
  "\<exists>outs s cur h n. run_ops (json_call (=)) no_json share_ops = Inr (outs, s, cur) \<and> load_loc (Var_Loc 1) s = Some h
    \<and> (\<forall>k > n. dump_val (\<lambda>d. []) backwards s k h = Inr (DumpJson (\<lambda>d. []) backwards (JDict [(''a'', JInt 6)] :: nat json)))"
  by (rule json_dump_value [OF share_ops_legal share_ops_value])

section \<open>Outside of the preconditions\<close>

text \<open>
  A bool, integer or double that is assigned to an object which is the only owner of a value of
  the same type goes into a new cell. The old one stays live, no object points to it, and nothing
  deletes it any more.
\<close>

theorem assign_same_type_leaks:
  assumes inv: "heap_inv s (add_mset (Some c) {#}) {#}" and v: "cell_at s c = Some v" "ref_cnt v = 1" "val_type v = T"
    and T: "T = kBool \<or> T = kInt \<or> T = kDouble"
  shows "\<exists>n s'. assign_naive (Some c) T d s = Inr (Some n, s') \<and> n \<noteq> c \<and> heap_inv s' {#Some n#} {#}
    \<and> live s' c \<and> Some c \<notin># all_handles s' + {#Some n#}"
proof -
  have cl: "c < length (cells s)" using v(1) by (simp add: cell_at_def split: if_splits)
  have g: "give_up (Some c) T s = Inr (None, s)" using v by (simp add: give_up_def deref_cell_def)
  have inv0: "heap_inv s {#} {#}" by (rule heap_inv_leak [OF inv v(1,2)])
  have e: "empty_data T s = Inr (Raw, s)" using T by (auto simp: empty_data_def)
  let ?n = "length (cells s)" and ?s' = "s\<lparr>cells := cells s @ [Some (new_cell T d)]\<rparr>"
  have r: "assign_naive (Some c) T d s = Inr (Some ?n, ?s')"
    using g e by (simp add: assign_naive_def new_val_def deref_cell_def put_cell_def cell_at_def list_update_append)
  have o: "owned (Some (new_cell T d)) = {#}" "typed s (new_cell T d)" "ref_cnt (new_cell T d) = 1"
    using T by (auto simp: owned_def typed_def box_ptr_def)
  have inv': "heap_inv ?s' {#Some ?n#} {#}" by (rule heap_inv_new_cell) (use inv0 o in simp_all)
  have "unat (ref_cnt v) = count (all_handles s + {#Some c#}) (Some c) \<or> count (all_handles s + {#Some c#}) (Some c) = 0"
    using heap_invD(3) [OF inv v(1)] by (auto simp: balanced_def)
  then have "Some c \<notin># all_handles s" using v(2) by (auto simp: not_in_iff)
  moreover have "all_handles ?s' = all_handles s" by (simp add: all_handles_def)
  ultimately have "Some c \<notin># all_handles ?s' + {#Some ?n#}" using cl by simp
  moreover have "live ?s' c" using v cl by (simp add: live_def cell_at_new)
  ultimately show ?thesis using r inv' cl by (intro exI [of _ ?n] exI [of _ ?s']) simp
qed

text \<open>The heap of one variable with the integer 1, the variable in hand.\<close>

definition one_int :: "nat json_heap" where
  "one_int = new_json_heap\<lparr>cells := [Some \<lparr>val_type = kInt, ref_cnt = 1, val_data = Int_Val 1\<rparr>]\<rparr>"

lemma one_int_inv: "heap_inv one_int (add_mset (Some 0) {#}) {#}"
  by (rule heap_invI)
    (auto simp: one_int_def new_json_heap_def all_handles_def all_boxes_def cell_at_def live_def typed_def balanced_def owned_def box_ptr_def
      split: if_splits)

lemma assign_same_type_leaks_witness:
  "\<exists>n s'. assign_naive (Some 0) kInt (Int_Val 2) one_int = Inr (Some n, s') \<and> n \<noteq> 0 \<and> heap_inv s' {#Some n#} {#}
    \<and> live s' 0 \<and> Some 0 \<notin># all_handles s' + {#Some n#}"
  by (rule assign_same_type_leaks [OF one_int_inv, of "\<lparr>val_type = kInt, ref_cnt = 1, val_data = Int_Val 1\<rparr>"])
    (simp_all add: one_int_def cell_at_def)

lemma destroy_gone:
  "destroy s hs = Inr s' \<Longrightarrow> cell_at s c = None \<Longrightarrow> c < length (cells s) \<Longrightarrow> cell_at s' c = None \<and> c < length (cells s')"
proof (induction s hs arbitrary: s' rule: destroy.induct)
  case (3 s d hs)
  have put: "cell_at (put_cell s d x) c = None \<and> c < length (cells (put_cell s d x))" if "cell_at s d \<noteq> None" "d \<noteq> c" for x
    using that 3(5,6) cell_at_put [OF that(1), of x c] by simp
  obtain v where v: "cell_at s d = Some v" using 3(4) by (cases "cell_at s d") auto
  then have dc: "d \<noteq> c" using 3(5) by auto
  show ?case
  proof (cases "ref_cnt v - 1 \<noteq> 0")
    case True
    from 3(1) [OF v True, of s'] put [of "Some (v\<lparr>ref_cnt := ref_cnt v - 1\<rparr>)"] show ?thesis using 3(4) v True dc by simp
  next
    case False
    then obtain p where p: "box_ptr v = Inr p" using 3(4) v by (cases "box_ptr v") auto
    show ?thesis
    proof (cases p)
      case None
      from 3(2) [OF v False p None, of s'] put [of None] show ?thesis using 3(4) v False p None dc by simp
    next
      case (Some b)
      then obtain x where x: "box_at s b = Some x" using 3(4) v False p by (cases "box_at s b") auto
      from 3(3) [OF v False p Some x, of s'] put [of None] show ?thesis using 3(4) v False p Some x dc by (simp add: put_cell_box)
    qed
  qed
qed simp_all

text \<open>
  C31: A vector that an object shares only with an element of the vector next in the pool is freed by
  the copy that a write makes: cleaning the pooled vector destroys the last object that points to
  the cell, and the copy then reads the cell.
\<close>

theorem copy_reads_freed_cell:
  assumes v: "cell_at s c = Some v" "val_type v = kList" "ref_cnt v = 2" "val_data v = List_Ptr b0"
    and pool: "list_pool s = b # bs" "box_at s b = Some (List_Box [Some c])"
    and own: "b0 \<noteq> b"
  shows "\<exists>e. Normalize c s = Inl e"
proof -
  let ?s1 = "put_cell s c (Some (v\<lparr>ref_cnt := 1\<rparr>))"
  let ?s2 = "put_box (set_pool kList bs ?s1) b (Some (List_Box []))"
  have dec: "DecRefCnt c s = Inr ?s1" using v by (simp add: DecRefCnt_def deref_cell_def)
  have c1: "cell_at ?s1 c = Some (v\<lparr>ref_cnt := 1\<rparr>)" "cell_at ?s2 c = Some (v\<lparr>ref_cnt := 1\<rparr>)" using v(1) by (simp_all add: cell_at_put)
  have p: "box_ptr (v\<lparr>ref_cnt := 1\<rparr>) = Inr (Some b0)" using v by (simp add: box_ptr_def)
  have get: "GetBox kList ?s1 = rbind (destroy ?s2 [Some c]) (\<lambda>s3. Inr (b, s3))"
    using pool by (simp add: GetBox_def pool_of_def deref_box_def empty_box_def del: destroy.simps)
  show ?thesis
  proof (cases "destroy ?s2 [Some c]")
    case (Inl e)
    then show ?thesis using v dec c1 get by (simp add: Normalize_def Copy_val_def deref_cell_def new_val_def empty_data_def)
  next
    case (Inr s3)
    obtain x where x: "box_at ?s2 b0 = Some x" using Inr c1(2) p by (cases "box_at ?s2 b0") simp_all
    let ?s4 = "put_cell (put_box ?s2 b0 None) c None"
    have "c < length (cells s)" using v(1) by (simp add: cell_at_def split: if_splits)
    then have "cell_at ?s4 c = None \<and> c < length (cells ?s4)" using c1(2) by (simp add: cell_at_put)
    moreover have "destroy ?s4 (box_handles x @ []) = Inr s3" using Inr c1(2) p x by simp
    ultimately have "cell_at s3 c = None" "c < length (cells s3)" using destroy_gone by blast+
    then show ?thesis
      using Inr v dec c1(1) get by (simp add: Normalize_def Copy_val_def deref_cell_def new_val_def empty_data_def cell_at_new)
  qed
qed

text \<open>Such a heap is the work of five calls.\<close>

definition freed_ops :: "nat json_op list" where
  "freed_ops = [J_New 0 kList, J_New 1 kList, J_Var 1, J_Sub (Index 0), J_Assign 0 [], J_Var 1, J_Set (S_Int 1)]"

definition freed_heap :: "nat json_heap" where
  "freed_heap = new_json_heap
     \<lparr>cells := [Some \<lparr>val_type = kList, ref_cnt = 2, val_data = List_Ptr 0\<rparr>,
        Some \<lparr>val_type = kInt, ref_cnt = 1, val_data = Int_Val 1\<rparr>, None],
      boxes := [Some (List_Box []), Some (List_Box [Some 0])], list_pool := [1],
      json_vars := [(1, Some 1), (0, Some 0)]\<rparr>"

lemma freed_run: "map_sum id (fst \<circ> snd) (run_ops (json_call (=)) no_json freed_ops) = Inr freed_heap"
  by (simp add: freed_ops_def freed_heap_def json_run_defs)

lemma copy_reads_freed_cell_witness:
  "map_sum id (fst \<circ> snd) (run_ops (json_call (=)) no_json freed_ops) = Inr freed_heap \<and> (\<exists>e. Normalize 0 freed_heap = Inl e)"
proof (rule conjI [OF freed_run], rule copy_reads_freed_cell [where b = 1 and bs = "[]"])
  show "cell_at freed_heap 0 = Some \<lparr>val_type = kList, ref_cnt = 2, val_data = List_Ptr 0\<rparr>"
    by (simp add: freed_heap_def cell_at_def)
  show "list_pool freed_heap = [1]" "box_at freed_heap 1 = Some (List_Box [Some 0])"
    by (simp_all add: freed_heap_def box_at_def)
  show "(0 :: nat) \<noteq> 1" by (rule zero_neq_one)
qed simp_all

text \<open>
  C32: A count of 65535 wraps to 0 with the next copy. After one more it is 1, and a write takes the
  cell for its own although 65537 objects share it.
\<close>

theorem count_wraps_to_own:
  assumes v: "cell_at s c = Some v" "ref_cnt v = 65535"
  shows "\<exists>s1 s2. IncRefCnt c s = Inr s1 \<and> IncRefCnt c s1 = Inr s2 \<and> Normalize c s2 = Inr (c, s2)"
proof -
  let ?s1 = "put_cell s c (Some (v\<lparr>ref_cnt := 0\<rparr>))" and ?s2 = "put_cell s c (Some (v\<lparr>ref_cnt := 1\<rparr>))"
  have "ref_cnt v + 1 = 0" unfolding v(2) by simp
  then have "IncRefCnt c s = Inr ?s1" using v(1) by (simp only: IncRefCnt_def deref_cell_def option.case rbind_simps)
  moreover have "cell_at ?s1 c = Some (v\<lparr>ref_cnt := 0\<rparr>)" "cell_at ?s2 c = Some (v\<lparr>ref_cnt := 1\<rparr>)" using v(1) by (simp_all add: cell_at_put)
  moreover from this have "IncRefCnt c ?s1 = Inr ?s2" by (simp add: IncRefCnt_def deref_cell_def)
  ultimately show ?thesis by (simp add: Normalize_def deref_cell_def)
qed

definition full_heap :: "nat json_heap" where
  "full_heap = new_json_heap\<lparr>cells := [Some \<lparr>val_type = kNull, ref_cnt = 65535, val_data = Raw\<rparr>],
     json_vars := map (\<lambda>x. (x, Some 0)) [0..<65535]\<rparr>"

lemma count_wraps_to_own_witness:
  "\<exists>s1 s2. IncRefCnt 0 full_heap = Inr s1 \<and> IncRefCnt 0 s1 = Inr s2 \<and> Normalize 0 s2 = Inr (0, s2)"
  by (rule count_wraps_to_own [of full_heap 0 "\<lparr>val_type = kNull, ref_cnt = 65535, val_data = Raw\<rparr>"])
    (simp_all add: full_heap_def cell_at_def)

definition cycle_ops :: "nat json_op list" where
  "cycle_ops = [J_New 0 kList, J_Var 0, J_Sub (Index 0), J_Assign 0 []]"

definition cycle_heap :: "nat json_heap" where
  "cycle_heap = new_json_heap\<lparr>cells := [Some \<lparr>val_type = kList, ref_cnt = 2, val_data = List_Ptr 0\<rparr>, None],
     boxes := [Some (List_Box [Some 0])], json_vars := [(0, Some 0)]\<rparr>"

lemma cycle_dump: "dump_val show_double ord cycle_heap k (Some 0) = Inl Diverges"
  by (induction k arbitrary: ord) (simp_all add: cycle_heap_def deref_cell_def cell_at_def list_of_def deref_box_def box_at_def)

lemma cycle_run: "map_sum id (fst \<circ> snd) (run_ops (json_call (=)) no_json cycle_ops) = Inr cycle_heap"
  by (simp add: cycle_ops_def cycle_heap_def json_run_defs)

lemma cycle_delete: "map_sum id (fst \<circ> snd) (json_call (=) (cycle_heap, cur) (J_Delete 0)) =
    Inr (cycle_heap\<lparr>cells := [Some \<lparr>val_type = kList, ref_cnt = 1, val_data = List_Ptr 0\<rparr>, None], json_vars := []\<rparr>)"
  by (simp add: cycle_heap_def json_run_defs)

text \<open>
  C33: A vector that gets itself as an element is no value any more: printing it never ends, and the
  cell outlives its last variable.
\<close>

theorem json_cycle_never_dumped:
  "\<exists>s s1. map_sum id (fst \<circ> snd) (run_ops (json_call (=)) no_json cycle_ops) = Inr s \<and> var_cell 0 s = Inr 0
    \<and> (\<forall>k ord. dump_val show_double ord s k (Some 0) = Inl Diverges)
    \<and> map_sum id (fst \<circ> snd) (json_call (=) (s, None) (J_Delete 0)) = Inr s1 \<and> json_vars s1 = [] \<and> live s1 0"
  using cycle_run cycle_dump cycle_delete [of None]
  by (intro exI [of _ cycle_heap] exI [of _ "cycle_heap\<lparr>cells := [Some \<lparr>val_type = kList, ref_cnt = 1, val_data = List_Ptr 0\<rparr>, None], json_vars := []\<rparr>"])
    (simp add: var_cell_def live_def cell_at_def cycle_heap_def)

end
