(* ===== verification/Json_Load.thy ===== *)
theory Json_Load
  imports Json_Build Json_Share Json_Total
begin

text \<open>
  The parser on shared cells does what the parser on values does: it makes a value that nothing
  else shares, leaves every other value alone, and when it returns \<open>NULL\<close> it keeps the invariant,
  though not every cell it made is deleted.
\<close>

section \<open>What a run may do\<close>

text \<open>
  Objects are added to new cells only, and they point to new cells only.
\<close>

definition grows :: "'d json_heap \<Rightarrow> 'd json_heap \<Rightarrow> bool" where
  "grows s s' \<longleftrightarrow> (\<exists>X. frame s s' {d. length (cells s) \<le> d} X {#} \<and> (\<forall>d. Some d \<in># X \<longrightarrow> length (cells s) \<le> d))"

lemma growsI:
  assumes "frame s s' N X B" and "\<And>d. d \<in> N \<Longrightarrow> length (cells s) \<le> d" and "\<And>d. Some d \<in># X \<Longrightarrow> length (cells s) \<le> d"
  shows "grows s s'"
  unfolding grows_def
  by (rule exI [of _ X], intro conjI, rule frame_mono [OF assms(1)]) (use assms(2,3) in auto)

lemma grows_refl: "grows s s"
  by (rule growsI [OF frame_refl [of s "{}" "{#}" "{#}"]]) simp_all

lemma grows_len: "grows s s' \<Longrightarrow> length (cells s) \<le> length (cells s')"
  unfolding grows_def using frameD(7) by blast

lemma grows_trans:
  assumes a: "grows s s1" and b: "grows s1 s2"
  shows "grows s s2"
proof -
  obtain X where X: "frame s s1 {d. length (cells s) \<le> d} X {#}" "\<And>d. Some d \<in># X \<Longrightarrow> length (cells s) \<le> d"
    using a by (auto simp: grows_def)
  obtain Y where Y: "frame s1 s2 {d. length (cells s1) \<le> d} Y {#}" "\<And>d. Some d \<in># Y \<Longrightarrow> length (cells s1) \<le> d"
    using b by (auto simp: grows_def)
  note len = grows_len [OF a]
  show ?thesis
  proof (rule growsI [OF frame_trans [OF X(1) Y(1)]])
    fix d assume "d \<in> {d. length (cells s) \<le> d} \<union> {d. length (cells s1) \<le> d}"
    then show "length (cells s) \<le> d" using len by auto
  next
    fix d assume "Some d \<in># X + Y"
    then consider "Some d \<in># X" | "Some d \<in># Y" by auto
    then show "length (cells s) \<le> d" using X(2) [of d] Y(2) [of d] len by cases linarith+
  qed simp
qed

text \<open>What a run that began earlier may change is anything that was made since.\<close>

lemma grows_step:
  assumes g: "grows s0 s" and f: "frame s s' N X B"
    and N: "\<And>d. d \<in> N \<Longrightarrow> length (cells s0) \<le> d" and X: "\<And>d. Some d \<in># X \<Longrightarrow> length (cells s0) \<le> d"
  shows "grows s0 s'"
proof -
  obtain Y where Y: "frame s0 s {d. length (cells s0) \<le> d} Y {#}" "\<And>d. Some d \<in># Y \<Longrightarrow> length (cells s0) \<le> d"
    using g by (auto simp: grows_def)
  show ?thesis
    by (rule growsI [OF frame_trans [OF Y(1) f]]) (use N X Y(2) in \<open>auto\<close>)
qed

text \<open>No object that was there before points to a new cell.\<close>

lemma grows_handle:
  assumes inv: "heap_inv s H B" and g: "grows s s'" and c: "c < length (cells s)" "Some c \<notin># all_handles s"
  shows "Some c \<notin># all_handles s'"
proof -
  obtain X where X: "frame s s' {d. length (cells s) \<le> d} X {#}" "\<And>d. Some d \<in># X \<Longrightarrow> length (cells s) \<le> d"
    using g by (auto simp: grows_def)
  have "Some c \<notin># X" using X(2) [of c] c(1) by auto
  from not_in_frame [OF X(1) c(2) this] show ?thesis .
qed

lemma live_len: "live s c \<Longrightarrow> c < length (cells s)"
  by (auto simp: live_def cell_at_def split: if_splits)

text \<open>A value stays when its cells do.\<close>

lemma frame_holds:
  assumes f: "frame s s1 N X B" and inv: "heap_inv s H B0" "heap_inv s1 H1 B1"
    and N: "\<And>e. e \<in> N \<Longrightarrow> Some e \<notin># all_handles s" and d: "live s1 d" "d \<notin> N" and v: "holds (view s) (Some d) v"
  shows "holds (view s1) (Some d) v"
proof (rule holds_transfer [of "{e. live s1 e \<and> e \<notin> N}" "view s1" "view s"])
  fix d assume d: "d \<in> {e. live s1 e \<and> e \<notin> N}"
  then have k: "kept s s1 d" using frameD(3) [OF f] by simp
  then show "view s1 d = view s d" by (rule view_kept)
  fix n e assume "view s d = Some n" "Some e \<in> set (node_handles n)"
  from node_handle_place [OF inv(1) this] obtain st l where l: "child_loc s d st l" "load_loc l s = Some (Some e)" by blast
  note k' = kept_child [OF k l(1)]
  have "e \<notin> N" using N [of e] place_handle [OF child_placed [OF inv(1) l(1)] l(2)] by blast
  then show "e \<in> {e. live s1 e \<and> e \<notin> N}"
    using placed_live [OF inv(2) child_placed [OF inv(2) k'(1)]] k'(2) l(2) by simp
qed (use d v in simp_all)

lemma grows_holds:
  assumes g: "grows s s1" and inv: "heap_inv s H B0" "heap_inv s1 H1 B1" and d: "live s1 d" "d < length (cells s)"
    and v: "holds (view s) (Some d) v"
  shows "holds (view s1) (Some d) v"
proof -
  obtain X where X: "frame s s1 {d. length (cells s) \<le> d} X {#}" using g by (auto simp: grows_def)
  have "Some e \<notin># all_handles s" if "e \<in> {d. length (cells s) \<le> d}" for e
    using not_in_new [OF inv(1), of e] that by simp
  from frame_holds [OF X inv this d(1) _ v] d(2) show ?thesis by simp
qed

lemma grows_view:
  assumes g: "grows s s1" and d: "live s1 d" "d < length (cells s)"
  shows "view s1 d = view s d"
proof -
  obtain X where X: "frame s s1 {d. length (cells s) \<le> d} X {#}" using g by (auto simp: grows_def)
  from view_frame [OF X d(1)] d(2) show ?thesis by simp
qed

section \<open>An object in the making\<close>

text \<open>
  The running function holds the only object that points to the cell \<open>c\<close>, which is new since \<open>s0\<close>.
\<close>

definition holding :: "'d json_heap \<Rightarrow> nat option multiset \<Rightarrow> nat \<Rightarrow> 'd json_heap \<Rightarrow> bool" where
  "holding s0 H c s \<longleftrightarrow> heap_inv s (add_mset (Some c) H) {#} \<and> grows s0 s \<and> length (cells s0) \<le> c
     \<and> Some c \<notin># all_handles s + H"

lemma holdingD:
  assumes "holding s0 H c s"
  shows "heap_inv s (add_mset (Some c) H) {#}" "grows s0 s" "length (cells s0) \<le> c"
    "Some c \<notin># all_handles s" "Some c \<notin># H" "live s c" "c < length (cells s)"
proof -
  show "heap_inv s (add_mset (Some c) H) {#}" "grows s0 s" "length (cells s0) \<le> c"
    "Some c \<notin># all_handles s" "Some c \<notin># H"
    using assms by (simp_all add: holding_def)
  from heap_invD(1) [OF this(1), of c] show "live s c" by simp
  then show "c < length (cells s)" by (rule live_len)
qed

text \<open>Its count is 1.\<close>

lemma holding_one:
  assumes h: "holding s0 H c s"
  obtains v where "cell_at s c = Some v" "ref_cnt v = 1"
proof -
  obtain v where v: "cell_at s c = Some v" using holdingD(6) [OF h] by (auto simp: live_def)
  have "count (all_handles s + add_mset (Some c) H) (Some c) = 1"
    using holdingD(4,5) [OF h] by (simp add: not_in_iff)
  with heap_invD(3) [OF holdingD(1) [OF h] v] have "unat (ref_cnt v) = 1" by (simp add: balanced_def)
  then have "ref_cnt v = 1" by (metis unat_1 word_unat_eq_iff)
  with v show thesis by (rule that)
qed

text \<open>A function may forget its object, which leaks the cell, or delete it.\<close>

lemma holding_leak:
  assumes h: "holding s0 H c s"
  shows "heap_inv s H {#}"
proof -
  obtain v where "cell_at s c = Some v" "ref_cnt v = 1" by (rule holding_one [OF h])
  from heap_inv_leak [OF holdingD(1) [OF h] this] show ?thesis .
qed

lemma grows_destroy:
  assumes g: "grows s0 s" and inv: "heap_inv s (add_mset (Some c) H) {#}"
  obtains s' where "destroy s [Some c] = Inr s'" "heap_inv s' H {#}" "grows s0 s'" "frame s s' {} {#} {#}"
proof -
  obtain s' where s': "destroy s [Some c] = Inr s'" "heap_inv s' H {#}" "frame s s' {} {#} {#}"
    using destroy_ok [of s H "[Some c]" "{#}"] inv by auto
  from grows_step [OF g s'(3)] have "grows s0 s'" by simp
  with s' show thesis by (intro that) 
qed

text \<open>New objects.\<close>

lemma gives_holding:
  assumes "gives s H {#} {#} n s1" and "length (cells s) \<le> n"
  shows "holding s H n s1"
proof -
  have "grows s s1" using assms by (intro growsI [of s s1 "{n}" "{#}" "{#}"]) (auto simp: gives_def)
  with assms show ?thesis by (simp add: holding_def gives_def)
qed

lemma new_val_holding:
  assumes inv: "heap_inv s H {#}" and T: "T \<noteq> kInvalid"
  obtains n s1 where "new_val T s = Inr (n, s1)" "holding s H n s1" "view s1 n = empty_node T"
    "gives s H {#} {#} n s1" "\<exists>d. cell_at s1 n = Some (new_cell T d)"
proof -
  obtain n s1 where n: "new_val T s = Inr (n, s1)" "gives s H {#} {#} n s1" "view s1 n = empty_node T"
    "length (cells s) \<le> n \<and> cell_at s n = None" "\<exists>d. cell_at s1 n = Some (new_cell T d)"
    by (rule new_val_ok [OF inv T])
  have "holding s H n s1" by (rule gives_holding [OF n(2)]) (use n(4) in simp)
  with n show thesis by (intro that)
qed

lemma new_scalar_ok:
  assumes inv: "heap_inv s H {#}" and d: "naive_node T d = Some nd"
  obtains n s1 where "new_scalar T d s = Inr (n, s1)" "holding s H n s1" "view s1 n = Some nd"
proof -
  note T = naive_facts [OF d]
  obtain n s1 where n: "new_val T s = Inr (n, s1)" "holding s H n s1" "gives s H {#} {#} n s1"
    and c: "\<exists>d. cell_at s1 n = Some (new_cell T d)"
    by (rule new_val_holding [OF inv T(1)])
  obtain d0 where d0: "cell_at s1 n = Some (new_cell T d0)" using c by blast
  let ?s2 = "put_cell s1 n (Some (new_cell T d))"
  note w = data_only [OF n(3) d0 T(2,1), of d]
  have "holding s H n ?s2" by (rule gives_holding [OF w(1) holdingD(3) [OF n(2)]])
  moreover have "new_scalar T d s = Inr (n, ?s2)" using n(1) d0 by (simp add: new_scalar_def deref_cell_def)
  moreover have "view ?s2 n = Some nd" using w(2) T(5) by simp
  ultimately show thesis by (intro that)
qed

section \<open>The same result\<close>

text \<open>What the parser on values gives, and what the parser on cells gives from \<open>s\<close>.\<close>

definition same_parse :: "'d json_heap \<Rightarrow> nat option multiset \<Rightarrow> 'd parsed result \<Rightarrow> (built \<times> 'd json_heap) result \<Rightarrow> bool" where
  "same_parse s H r q \<longleftrightarrow>
     (case r of
        Inl e \<Rightarrow> q = Inl e
      | Inr (Failed p) \<Rightarrow> \<exists>s'. q = Inr (Lost p, s') \<and> heap_inv s' H {#} \<and> grows s s'
      | Inr (Got v t) \<Rightarrow> \<exists>c s'. q = Inr (Built c t, s') \<and> holding s H c s' \<and> holds (view s') (Some c) v)"

lemma same_parse_simps [simp]:
  "same_parse s H (Inl e) q \<longleftrightarrow> q = Inl e"
  "same_parse s H (Inr (Failed p)) q \<longleftrightarrow> (\<exists>s'. q = Inr (Lost p, s') \<and> heap_inv s' H {#} \<and> grows s s')"
  "same_parse s H (Inr (Got v t)) q \<longleftrightarrow> (\<exists>c s'. q = Inr (Built c t, s') \<and> holding s H c s' \<and> holds (view s') (Some c) v)"
  by (simp_all add: same_parse_def)

lemma same_error: "heap_inv s' H {#} \<Longrightarrow> grows s s' \<Longrightarrow> same_parse s H (parse_error p) (lost_error p s')"
  by (cases p) (simp_all add: parse_error_def lost_error_def)

lemma same_check: "same_parse s H r q \<Longrightarrow> same_parse s H (check_null r) (check_lost q)"
  by (auto simp: check_null_def check_lost_def same_error split: sum.splits parsed.splits)

lemma same_word:
  assumes inv: "heap_inv s H {#}"
    and mk: "\<exists>n s1. mk s = Inr (n, s1) \<and> holding s H n s1 \<and> holds (view s1) (Some n) v"
  shows "same_parse s H (Inr (read_word w v t)) (build_word w mk t s)"
  using mk inv grows_refl by (auto simp: read_word_def build_word_def)

lemma scalar_made:
  assumes "heap_inv s H {#}" and "naive_node T d = Some nd" and "\<And>g n. g n = Some nd \<Longrightarrow> holds g (Some n) v"
  shows "\<exists>n s1. new_scalar T d s = Inr (n, s1) \<and> holding s H n s1 \<and> holds (view s1) (Some n) v"
  by (rule new_scalar_ok [OF assms(1,2)]) (use assms(3) in blast)

lemma same_null: "heap_inv s H {#} \<Longrightarrow> same_parse s H (Inr (ReadinNull t)) (build_null t s)"
  unfolding ReadinNull_def build_null_def
proof (rule same_word)
  assume inv: "heap_inv s H {#}"
  show "\<exists>n s1. new_val kNull s = Inr (n, s1) \<and> holding s H n s1 \<and> holds (view s1) (Some n) JNull"
    by (rule new_val_holding [OF inv, of kNull]) (auto simp: empty_node_def)
qed

lemma same_true: "heap_inv s H {#} \<Longrightarrow> same_parse s H (Inr (ReadinTrue t)) (build_true t s)"
  unfolding ReadinTrue_def build_true_def
  by (rule same_word, assumption, rule scalar_made) (simp_all add: naive_node_def)

lemma same_false: "heap_inv s H {#} \<Longrightarrow> same_parse s H (Inr (ReadinFalse t)) (build_false t s)"
  unfolding ReadinFalse_def build_false_def
  by (rule same_word, assumption, rule scalar_made) (simp_all add: naive_node_def)

lemma strtoll_range: "- (2 ^ 63) \<le> fst (strtoll t) \<and> fst (strtoll t) < 2 ^ 63"
  by (auto simp: strtoll_def saturate64_def Let_def split: prod.splits)

lemma same_digits:
  assumes inv: "heap_inv s H {#}"
  shows "same_parse s H (Inr (ReadInDigits sd t)) (build_digits sd t s)"
proof -
  obtain l e where l: "strtoll t = (l, e)" by fastforce
  obtain d e' where d: "sd t = (d, e')" by fastforce
  have l64: "sint (word_of_int l :: 64 word) = l" using strtoll_range [of t] l by (simp add: sint_sbintrunc' signed_take_bit_int_eq_self)
  have holds_int: "holds g (Some n) (JInt l)" if "g n = Some (N_Int (word_of_int l))" for g :: "nat \<Rightarrow> 'a node option" and n
    unfolding holds.simps option.case that node.case by (rule l64 [symmetric])
  have "\<exists>n s1. new_scalar kInt (Int_Val (word_of_int l)) s = Inr (n, s1) \<and> holding s H n s1 \<and> holds (view s1) (Some n) (JInt l)"
    by (rule scalar_made [OF inv, of _ _ "N_Int (word_of_int l)"]) (simp add: naive_node_def, rule holds_int)
  moreover have "\<exists>n s1. new_scalar kDouble (Double_Val d) s = Inr (n, s1) \<and> holding s H n s1 \<and> holds (view s1) (Some n) (JDouble d)"
    by (rule scalar_made [OF inv]) (simp_all add: naive_node_def)
  ultimately show ?thesis using l d by (auto simp: ReadInDigits_def build_digits_def)
qed

lemma same_str:
  assumes inv: "heap_inv s H {#}"
  shows "same_parse s H (Inr (ReadinStr t)) (build_str t s)"
proof -
  obtain n s1 where n: "new_val kStr s = Inr (n, s1)" "holding s H n s1" "view s1 n = empty_node kStr"
    by (rule new_val_holding [OF inv, of kStr]) (simp, rule that)
  obtain k rest where k: "ReadinStrRaw t = (k, rest)" by fastforce
  show ?thesis
  proof (cases k)
    case None
    then show ?thesis
      using n(1) k holding_leak [OF n(2)] holdingD(2) [OF n(2)] by (simp add: ReadinStr_def build_str_def)
  next
    case (Some content)
    have "view s1 n = Some (N_Str [])" using n(3) by (simp add: empty_node_def)
    from view_typed [OF holdingD(1) [OF n(2)] this] obtain w
      where w: "cell_at s1 n = Some w" "ref_cnt w \<noteq> 0" "typed s1 w" "node_of s1 w = Some (N_Str [])" by blast
    have ty: "val_type w = kStr" using w(3,4) by (auto simp: typed_def node_of_def box_ptr_def box_node_def split: json_type.splits union_data.splits)
    obtain b u where b: "box_ptr w = Inr (Some b)" "box_at s1 b = Some (Str_Box u)" "str_of s1 w = Inr (b, u)"
      by (rule str_cell [OF w(3) ty])
    let ?s2 = "put_box s1 b (Some (Str_Box content))"
    have i1: "heap_inv s1 (add_mset (Some n) H + {#}) {#}" using holdingD(1) [OF n(2)] by simp
    note gw = gives_write [OF frame_refl [of s1 "{}" "{#}"] i1 w(1) b(1,2), of "Str_Box content"]
    have "grows s ?s2" by (rule grows_step [OF holdingD(2) [OF n(2)] gw(2)]) (use holdingD(3) [OF n(2)] in auto)
    then have "holding s H n ?s2"
      using gw(1,3) holdingD(3,4,5) [OF n(2)] by (simp add: holding_def)
    moreover have "view ?s2 n = Some (N_Str content)" using gw(4) ty by (simp add: box_node_def)
    ultimately show ?thesis
      using n(1) k Some w(1) b(3) by (simp add: ReadinStr_def build_str_def deref_cell_def)
  qed
qed

section \<open>Elements\<close>

lemma view_handle:
  assumes inv: "heap_inv s H B" and n: "view s c = Some n" and h: "Some e \<in> set (node_handles n)"
  shows "Some e \<in># all_handles s"
proof -
  from node_handle_place [OF inv n h] obtain st l where l: "child_loc s c st l" "load_loc l s = Some (Some e)" by blast
  from place_handle [OF child_placed [OF inv l(1)] l(2)] show ?thesis .
qed

lemma handle_live: "heap_inv s H B \<Longrightarrow> Some e \<in># all_handles s \<Longrightarrow> live s e"
  using heap_invD(1) [of s H B e] by simp

text \<open>The copy of a new object and the end of the object it was made from.\<close>

lemma copy_new:
  assumes d: "holding s H d s1"
  obtains s2 where "IncRefCnt d s1 = Inr s2" "heap_inv s2 (add_mset (Some d) (add_mset (Some d) H)) {#}"
    "frame s1 s2 {} {#} {#}" "all_handles s2 = all_handles s1" "box_at s2 = box_at s1"
proof -
  note inv = holdingD(1) [OF d]
  have few: "count (all_handles s1 + add_mset (Some d) H) (Some d) + 1 < 2 ^ 16"
    using holdingD(4,5) [OF d] by (simp add: not_in_iff)
  show thesis by (rule IncRefCnt_few [OF inv _ few, of "{#}"]) (simp, rule that)
qed

lemma make_pair_ok:
  assumes d: "holding s H d s1" and v: "holds (view s1) (Some d) v"
  obtains s2 where "make_pair d s1 = Inr s2" "holding s H d s2" "holds (view s2) (Some d) v"
proof -
  obtain s2 where s2: "IncRefCnt d s1 = Inr s2" "heap_inv s2 (add_mset (Some d) (add_mset (Some d) H)) {#}"
    "frame s1 s2 {} {#} {#}" "all_handles s2 = all_handles s1"
    by (rule copy_new [OF d])
  have g2: "grows s s2" by (rule grows_step [OF holdingD(2) [OF d] s2(3)]) simp_all
  obtain s3 where s3: "destroy s2 [Some d] = Inr s3" "heap_inv s3 (add_mset (Some d) H) {#}" "grows s s3" "frame s2 s3 {} {#} {#}"
    by (rule grows_destroy [OF g2 s2(2)])
  have "Some d \<notin># all_handles s3"
    using not_in_frame [OF s3(4)] s2(4) holdingD(4) [OF d] by simp
  then have h3: "holding s H d s3" using s3(2,3) holdingD(3,5) [OF d] by (simp add: holding_def)
  have f: "frame s1 s3 {} {#} {#}" using frame_trans [OF s2(3) s3(4)] by simp
  have "holds (view s3) (Some d) v"
    by (rule frame_holds [OF f holdingD(1) [OF d] holdingD(1) [OF h3] _ holdingD(6) [OF h3] _ v]) simp_all
  with h3 show thesis using s2(1) s3(1) by (intro that [of s3]) (simp_all add: make_pair_def)
qed

text \<open>
  A new object \<open>d\<close> is copied into the box of \<open>c\<close>: afterwards \<open>c\<close> has its old contents with the
  new element, and the values of all other cells are what they were.
\<close>

lemma keep_child:
  assumes c: "holding s0 H c s" and d: "holding s (add_mset (Some c) H) d s1"
    and v: "cell_at s1 c = Some v" "box_ptr v = Inr (Some b)" "val_type v = kList \<or> val_type v = kDict"
    and x: "box_at s1 b = Some x" "same_kind x y" and y: "mset (box_handles y) = add_mset (Some d) (mset (box_handles x))"
  obtains s2 s4 where "IncRefCnt d s1 = Inr s2" "destroy (put_box s2 b (Some y)) [Some d] = Inr s4" "holding s0 H c s4"
    "view s4 c = box_node (Some y)"
    "\<And>e u. e \<noteq> c \<Longrightarrow> live s4 e \<Longrightarrow> holds (view s1) (Some e) u \<Longrightarrow> holds (view s4) (Some e) u"
proof -
  have cd: "d \<noteq> c" "length (cells s0) \<le> d"
    using holdingD(7) [OF c] holdingD(3) [OF d] holdingD(2) [OF c] grows_len by fastforce+
  have c1: "Some c \<notin># all_handles s1"
    by (rule grows_handle [OF holdingD(1) [OF c] holdingD(2) [OF d] holdingD(7) [OF c] holdingD(4) [OF c]])
  have g1: "grows s0 s1" by (rule grows_trans [OF holdingD(2) [OF c] holdingD(2) [OF d]])
  obtain s2 where s2: "IncRefCnt d s1 = Inr s2" "heap_inv s2 (add_mset (Some d) (add_mset (Some d) (add_mset (Some c) H))) {#}"
    "frame s1 s2 {} {#} {#}" "all_handles s2 = all_handles s1" "box_at s2 = box_at s1"
    by (rule copy_new [OF d])
  have inv2: "heap_inv s2 (add_mset (Some c) (add_mset (Some d) H) + {#Some d#}) {#}"
    using s2(2) by (simp add: add_mset_commute)
  have "live s2 c" using heap_invD(1) [OF s2(2), of c] by simp
  with frameD(3) [OF s2(3)] have "kept s1 s2 c" by simp
  then obtain w where w: "cell_at s2 c = Some w" "val_type w = val_type v" "val_data w = val_data v"
    using v(1) by (auto simp: kept_def)
  have wb: "box_ptr w = Inr (Some b)" using box_ptr_cong [OF w(2,3)] v(2) by simp
  let ?s3 = "put_box s2 b (Some y)"
  have x2: "box_at s2 b = Some x" using x(1) s2(5) by simp
  have y2: "mset (box_handles y) = mset (box_handles x) + {#Some d#}" using y by simp
  note gw = gives_write [OF s2(3) inv2 w(1) wb x2 x(2) y2]
  have g3: "grows s0 ?s3"
    by (rule grows_step [OF g1 gw(2)]) (use holdingD(3) [OF c] cd in auto)
  have inv3: "heap_inv ?s3 (add_mset (Some d) (add_mset (Some c) H)) {#}" using gw(1) by (simp add: add_mset_commute)
  obtain s4 where s4: "destroy ?s3 [Some d] = Inr s4" "heap_inv s4 (add_mset (Some c) H) {#}" "grows s0 s4" "frame ?s3 s4 {} {#} {#}"
    by (rule grows_destroy [OF g3 inv3])
  have "Some c \<notin># all_handles ?s3" using gw(3) s2(4) c1 cd(1) by simp
  from not_in_frame [OF s4(4) this] have "Some c \<notin># all_handles s4" by simp
  then have h4: "holding s0 H c s4" using s4(2,3) holdingD(3,5) [OF c] by (simp add: holding_def)
  have "view s4 c = view ?s3 c" by (rule view_frame [OF s4(4) holdingD(6) [OF h4]]) simp
  also have "\<dots> = box_node (Some y)" using gw(4) w(2) v(3) by auto
  finally have view4: "view s4 c = box_node (Some y)" .
  have f: "frame s1 s4 {c} {#Some d#} {#}" using frame_trans [OF gw(2) s4(4)] by simp
  have "holds (view s4) (Some e) u" if "e \<noteq> c" "live s4 e" "holds (view s1) (Some e) u" for e u
    by (rule frame_holds [OF f holdingD(1) [OF d] s4(2) _ that(2) _ that(3)]) (use that(1) c1 in auto)
  with s2(1) s4(1) h4 view4 show thesis by (intro that)
qed

text \<open>The elements that are in the box of \<open>c\<close> before and after.\<close>

lemma old_child:
  assumes c: "holding s0 H c s" and d: "holding s (add_mset (Some c) H) d s1" and h4: "holding s0 H c s4"
    and n: "view s c = Some n" "Some e \<in> set (node_handles n)" and n4: "view s4 c = Some n4" "Some e \<in> set (node_handles n4)"
    and stay: "\<And>e u. e \<noteq> c \<Longrightarrow> live s4 e \<Longrightarrow> holds (view s1) (Some e) u \<Longrightarrow> holds (view s4) (Some e) u"
    and u: "holds (view s) (Some e) u"
  shows "holds (view s4) (Some e) u"
proof -
  have e: "Some e \<in># all_handles s" by (rule view_handle [OF holdingD(1) [OF c] n])
  have "live s1 c" using heap_invD(1) [OF holdingD(1) [OF d], of c] by simp
  then have "view s1 c = Some n" using grows_view [OF holdingD(2) [OF d] _ holdingD(7) [OF c]] n(1) by simp
  from view_handle [OF holdingD(1) [OF d] this n(2)] have "live s1 e" by (rule handle_live [OF holdingD(1) [OF d]])
  from grows_holds [OF holdingD(2) [OF d] holdingD(1) [OF c] holdingD(1) [OF d] this _ u]
  have "holds (view s1) (Some e) u" using live_len [OF handle_live [OF holdingD(1) [OF c] e]] by simp
  moreover have "live s4 e" using view_handle [OF holdingD(1) [OF h4] n4] by (rule handle_live [OF holdingD(1) [OF h4]])
  moreover have "e \<noteq> c" using e holdingD(4) [OF c] by blast
  ultimately show ?thesis by (intro stay)
qed

lemma held_view:
  assumes c: "holding s0 H c s" and d: "holding s (add_mset (Some c) H) d s1"
  shows "view s1 c = view s c" "live s1 c"
proof -
  show "live s1 c" using heap_invD(1) [OF holdingD(1) [OF d], of c] by simp
  from grows_view [OF holdingD(2) [OF d] this holdingD(7) [OF c]] show "view s1 c = view s c" .
qed

lemma holds_some: "list_all2 (holds g) hs us \<Longrightarrow> h \<in> set hs \<Longrightarrow> \<exists>e. h = Some e"
  by (auto simp: list_all2_conv_all_nth in_set_conv_nth dest!: holds_Some)

lemma push_ok:
  assumes c: "holding s0 H c s" and a: "holds (view s) (Some c) (JList acc)"
    and d: "holding s (add_mset (Some c) H) d s1" and v: "holds (view s1) (Some d) v"
  obtains s2 where "push_element c d s1 = Inr s2" "holding s0 H c s2" "holds (view s2) (Some c) (JList (acc @ [v]))"
proof -
  obtain hs where hs: "view s c = Some (N_List hs)" "list_all2 (holds (view s)) hs acc" using a by auto
  have "view s1 c = Some (N_List hs)" using held_view(1) [OF c d] hs(1) by simp
  from view_list [OF holdingD(1) [OF d] this] obtain w b
    where w: "cell_at s1 c = Some w" "val_type w = kList" "box_ptr w = Inr (Some b)" "box_at s1 b = Some (List_Box hs)"
      "list_of s1 w = Inr (b, hs)" by blast
  obtain s2 s4 where s4: "IncRefCnt d s1 = Inr s2" "destroy (put_box s2 b (Some (List_Box (hs @ [Some d])))) [Some d] = Inr s4"
    "holding s0 H c s4" and n4: "view s4 c = box_node (Some (List_Box (hs @ [Some d])))"
    and stay: "\<And>e u. e \<noteq> c \<Longrightarrow> live s4 e \<Longrightarrow> holds (view s1) (Some e) u \<Longrightarrow> holds (view s4) (Some e) u"
    by (rule keep_child [OF c d w(1,3) _ w(4), of "List_Box (hs @ [Some d])"]) (use w(2) in \<open>simp_all\<close>)
  have n: "view s4 c = Some (N_List (hs @ [Some d]))" using n4 by (simp add: box_node_def)
  have old: "list_all2 (holds (view s4)) hs acc"
  proof (rule list.rel_mono_strong [OF hs(2)])
    fix h u assume h: "h \<in> set hs" "holds (view s) h u"
    obtain e where e: "h = Some e" using holds_some [OF hs(2) h(1)] by blast
    show "holds (view s4) h u"
      unfolding e by (rule old_child [OF c d s4(3) hs(1) _ n _ stay]) (use h e in simp_all)
  qed
  have "live s4 d" using handle_live [OF holdingD(1) [OF s4(3)] view_handle [OF holdingD(1) [OF s4(3)] n]] by simp
  moreover have "d \<noteq> c" using holdingD(7) [OF c] holdingD(3) [OF d] by linarith
  ultimately have "holds (view s4) (Some d) v" using stay v by blast
  with old n have "holds (view s4) (Some c) (JList (acc @ [v]))" by (simp add: list_all2_appendI)
  moreover have "push_element c d s1 = Inr s4"
    using w(1,5) s4(1,2) by (simp add: push_element_def deref_cell_def)
  ultimately show thesis using s4(3) by (intro that)
qed

lemma insert_pair_ok:
  assumes c: "holding s0 H c s" and a: "holds (view s) (Some c) (JDict acc)"
    and d: "holding s (add_mset (Some c) H) d s1" and v: "holds (view s1) (Some d) v"
  obtains s2 where "insert_pair c key d s1 = Inr s2" "holding s0 H c s2" "holds (view s2) (Some c) (JDict (dict_insert key v acc))"
proof -
  obtain e where e: "view s c = Some (N_Dict e)" "map fst e = map fst acc" "list_all2 (holds (view s)) (map snd e) (map snd acc)"
    using a by auto
  have keys: "fst ` set e = fst ` set acc" using arg_cong [OF e(2), of set] by simp
  have "view s1 c = Some (N_Dict e)" using held_view(1) [OF c d] e(1) by simp
  from view_dict [OF holdingD(1) [OF d] this] obtain w b
    where w: "cell_at s1 c = Some w" "val_type w = kDict" "box_ptr w = Inr (Some b)" "box_at s1 b = Some (Dict_Box e)"
      "dict_of s1 w = Inr (b, e)" "distinct (map fst e)" by blast
  have start: "insert_pair c key d s1 =
      (if key \<in> fst ` set e then destroy s1 [Some d]
       else rbind (IncRefCnt d s1) (\<lambda>s2. destroy (put_box s2 b (Some (Dict_Box (e @ [(key, Some d)])))) [Some d]))"
    using w(1,5) by (simp add: insert_pair_def deref_cell_def)
  show thesis
  proof (cases "key \<in> fst ` set e")
    case True
    have g1: "grows s0 s1" by (rule grows_trans [OF holdingD(2) [OF c] holdingD(2) [OF d]])
    obtain s4 where s4: "destroy s1 [Some d] = Inr s4" "heap_inv s4 (add_mset (Some c) H) {#}" "grows s0 s4" "frame s1 s4 {} {#} {#}"
      by (rule grows_destroy [OF g1 holdingD(1) [OF d]])
    have c1: "Some c \<notin># all_handles s1"
      by (rule grows_handle [OF holdingD(1) [OF c] holdingD(2) [OF d] holdingD(7) [OF c] holdingD(4) [OF c]])
    have h4: "holding s0 H c s4"
      using s4(2,3) holdingD(3,5) [OF c] not_in_frame [OF s4(4) c1] by (simp add: holding_def)
    have "holds (view s1) (Some c) (JDict acc)"
      by (rule grows_holds [OF holdingD(2) [OF d] holdingD(1) [OF c] holdingD(1) [OF d] held_view(2) [OF c d] holdingD(7) [OF c] a])
    from frame_holds [OF s4(4) holdingD(1) [OF d] s4(2) _ holdingD(6) [OF h4] _ this]
    have "holds (view s4) (Some c) (JDict (dict_insert key v acc))" using True keys by (simp add: dict_insert_def)
    with s4(1) h4 start True show thesis by (intro that [of s4]) simp_all
  next
    case False
    let ?y = "Dict_Box (e @ [(key, Some d)])"
    obtain s2 s4 where s4: "IncRefCnt d s1 = Inr s2" "destroy (put_box s2 b (Some ?y)) [Some d] = Inr s4"
      "holding s0 H c s4" and n4: "view s4 c = box_node (Some ?y)"
      and stay: "\<And>e u. e \<noteq> c \<Longrightarrow> live s4 e \<Longrightarrow> holds (view s1) (Some e) u \<Longrightarrow> holds (view s4) (Some e) u"
      by (rule keep_child [OF c d w(1,3) _ w(4), of ?y]) (use w(2,6) False in \<open>simp_all\<close>)
    have n: "view s4 c = Some (N_Dict (e @ [(key, Some d)]))" using n4 by (simp add: box_node_def)
    have old: "list_all2 (holds (view s4)) (map snd e) (map snd acc)"
    proof (rule list.rel_mono_strong [OF e(3)])
      fix h u assume h: "h \<in> set (map snd e)" "holds (view s) h u"
      obtain k where k: "h = Some k" using holds_some [OF e(3) h(1)] by blast
      show "holds (view s4) h u"
        unfolding k by (rule old_child [OF c d s4(3) e(1) _ n _ stay]) (use h k in auto)
    qed
    have "live s4 d" using handle_live [OF holdingD(1) [OF s4(3)] view_handle [OF holdingD(1) [OF s4(3)] n]] by simp
    moreover have "d \<noteq> c" using holdingD(7) [OF c] holdingD(3) [OF d] by linarith
    ultimately have "holds (view s4) (Some d) v" using stay v by blast
    with old n e(2) False keys have "holds (view s4) (Some c) (JDict (dict_insert key v acc))"
      by (simp add: dict_insert_def list_all2_appendI)
    with s4 start False show thesis by (intro that [of s4]) simp_all
  qed
qed

section \<open>The parser\<close>

declare BuildValue.simps [simp del] BuildList.simps [simp del] BuildDict.simps [simp del] destroy.simps [simp del]

text \<open>The loops give up the object they fill, or forget it at the end of the text.\<close>

lemma same_give_up:
  assumes c: "holding s0 H c s" and i: "heap_inv s1 (add_mset (Some c) H) {#}" and g: "grows s s1"
  shows "same_parse s0 H (Inr (Failed p)) (rbind (destroy s1 [Some c]) (\<lambda>s2. Inr (Lost p, s2)))"
proof -
  obtain s2 where "destroy s1 [Some c] = Inr s2" "heap_inv s2 H {#}" "grows s0 s2"
    by (rule grows_destroy [OF grows_trans [OF holdingD(2) [OF c] g] i])
  then show ?thesis by simp
qed

lemma same_forget: "holding s0 H c s \<Longrightarrow> same_parse s0 H (Inr (Failed p)) (Inr (Lost p, s))"
  using holding_leak holdingD(2) by auto

lemma same_new:
  assumes inv: "heap_inv s H {#}" and T: "T \<noteq> kInvalid"
    and loop: "\<And>n s1. holding s H n s1 \<Longrightarrow> view s1 n = empty_node T \<Longrightarrow> same_parse s H r (g n s1)"
  shows "same_parse s H r (rbind (new_val T s) (\<lambda>(n, s1). g n s1))"
proof -
  obtain n s1 where "new_val T s = Inr (n, s1)" "holding s H n s1" "view s1 n = empty_node T"
    by (rule new_val_holding [OF inv T])
  then show ?thesis using loop by simp
qed

lemma same_list_round:
  assumes c: "holding s0 H c s" and a: "holds (view s) (Some c) (JList acc)"
    and one: "same_parse s (add_mset (Some c) H) r q"
    and next_round: "\<And>v t s2. holding s0 H c s2 \<Longrightarrow> holds (view s2) (Some c) (JList (acc @ [v])) \<Longrightarrow> same_parse s0 H (k v t) (k' t s2)"
  shows "same_parse s0 H
     (case r of Inl e \<Rightarrow> Inl e | Inr (Failed p) \<Rightarrow> Inr (Failed p) | Inr (Got v t) \<Rightarrow> k v t)
     (rbind q (\<lambda>(x, s1). case x of
          Lost p \<Rightarrow> rbind (destroy s1 [Some c]) (\<lambda>s2. Inr (Lost p, s2))
        | Built d t \<Rightarrow> rbind (push_element c d s1) (\<lambda>s2. k' t s2)))"
proof (cases r)
  case (Inl e)
  then show ?thesis using one by simp
next
  case (Inr y)
  show ?thesis
  proof (cases y)
    case (Got v t)
    then obtain d s1 where d: "q = Inr (Built d t, s1)" "holding s (add_mset (Some c) H) d s1" "holds (view s1) (Some d) v"
      using one Inr by auto
    obtain s2 where "push_element c d s1 = Inr s2" "holding s0 H c s2" "holds (view s2) (Some c) (JList (acc @ [v]))"
      by (rule push_ok [OF c a d(2,3)])
    then show ?thesis using next_round Inr Got d(1) by (simp del: holds_list same_parse_simps)
  next
    case (Failed p)
    then obtain s1 where s1: "q = Inr (Lost p, s1)" "heap_inv s1 (add_mset (Some c) H) {#}" "grows s s1"
      using one Inr by auto
    with same_give_up [OF c s1(2,3), of p] Inr Failed show ?thesis by (simp del: same_parse_simps)
  qed
qed

lemma same_dict_round:
  assumes c: "holding s0 H c s" and a: "holds (view s) (Some c) (JDict acc)"
    and one: "same_parse s (add_mset (Some c) H) r q"
    and next_round: "\<And>v t s2. holding s0 H c s2 \<Longrightarrow> holds (view s2) (Some c) (JDict (dict_insert key v acc)) \<Longrightarrow> same_parse s0 H (k v t) (k' t s2)"
  shows "same_parse s0 H
     (case r of Inl e \<Rightarrow> Inl e | Inr (Failed p) \<Rightarrow> Inr (Failed p) | Inr (Got v t) \<Rightarrow> k v t)
     (rbind q (\<lambda>(x, s1). case x of
          Lost p \<Rightarrow> rbind (destroy s1 [Some c]) (\<lambda>s2. Inr (Lost p, s2))
        | Built d t \<Rightarrow> rbind (make_pair d s1) (\<lambda>s2. rbind (insert_pair c key d s2) (\<lambda>s3. k' t s3))))"
proof (cases r)
  case (Inl e)
  then show ?thesis using one by simp
next
  case (Inr y)
  show ?thesis
  proof (cases y)
    case (Got v t)
    then obtain d s1 where d: "q = Inr (Built d t, s1)" "holding s (add_mset (Some c) H) d s1" "holds (view s1) (Some d) v"
      using one Inr by auto
    obtain s2 where s2: "make_pair d s1 = Inr s2" "holding s (add_mset (Some c) H) d s2" "holds (view s2) (Some d) v"
      by (rule make_pair_ok [OF d(2,3)])
    obtain s3 where "insert_pair c key d s2 = Inr s3" "holding s0 H c s3" "holds (view s3) (Some c) (JDict (dict_insert key v acc))"
      by (rule insert_pair_ok [OF c a s2(2,3)])
    then show ?thesis using next_round Inr Got d(1) s2(1) by (simp del: holds_dict same_parse_simps)
  next
    case (Failed p)
    then obtain s1 where s1: "q = Inr (Lost p, s1)" "heap_inv s1 (add_mset (Some c) H) {#}" "grows s s1"
      using one Inr by auto
    with same_give_up [OF c s1(2,3), of p] Inr Failed show ?thesis by (simp del: same_parse_simps)
  qed
qed

lemma same_list:
  assumes val: "\<And>s H str. heap_inv s H {#} \<Longrightarrow> same_parse s H (ParseValue sd f str) (BuildValue sd f str s)"
    and more: "\<And>s H str acc. holding s0 H c s \<Longrightarrow> holds (view s) (Some c) (JList acc) \<Longrightarrow>
      same_parse s0 H (ListLoop sd f str acc) (BuildList sd f str c s)"
    and c: "holding s0 H c s" and a: "holds (view s) (Some c) (JList acc)"
  shows "same_parse s0 H (ListLoop sd (Suc f) str acc) (BuildList sd (Suc f) str c s)"
proof -
  consider "str = []" | "str \<noteq> []" "hd str = CHR '']''" | "str \<noteq> []" "hd str \<noteq> CHR '']''" by blast
  then show ?thesis
  proof cases
    case 1
    then show ?thesis using same_forget [OF c, of None] by (simp add: ListLoop.simps BuildList.simps del: same_parse_simps)
  next
    case 2
    then show ?thesis using c a by (simp add: ListLoop.simps BuildList.simps del: holds_list)
  next
    case 3
    note r = same_list_round [where k = "\<lambda>v t. ListLoop sd f (skip_comma (IgnoreBlanks t)) (acc @ [v])"
        and k' = "\<lambda>t. BuildList sd f (skip_comma (IgnoreBlanks t)) c",
        OF c a val [OF holdingD(1) [OF c], of "IgnoreBlanks str"] more]
    show ?thesis using r 3 unfolding ListLoop.simps(2) BuildList.simps(2) by (simp del: same_parse_simps)
  qed
qed

lemma same_dict:
  assumes val: "\<And>s H str. heap_inv s H {#} \<Longrightarrow> same_parse s H (ParseValue sd f str) (BuildValue sd f str s)"
    and more: "\<And>s H str acc. holding s0 H c s \<Longrightarrow> holds (view s) (Some c) (JDict acc) \<Longrightarrow>
      same_parse s0 H (DictLoop sd f str acc) (BuildDict sd f str c s)"
    and c: "holding s0 H c s" and a: "holds (view s) (Some c) (JDict acc)"
  shows "same_parse s0 H (DictLoop sd (Suc f) str acc) (BuildDict sd (Suc f) str c s)"
proof -
  note give_up = same_give_up [OF c holdingD(1) [OF c] grows_refl]
  consider "str = []" | "str \<noteq> []" "hd str = CHR ''}''" | "str \<noteq> []" "hd str \<noteq> CHR ''}''" by blast
  then show ?thesis
  proof cases
    case 1
    then show ?thesis using same_forget [OF c, of None] by (simp add: DictLoop.simps BuildDict.simps del: same_parse_simps)
  next
    case 2
    then show ?thesis using c a by (simp add: DictLoop.simps BuildDict.simps del: holds_dict)
  next
    case 3
    obtain k t where k: "ReadinStrRaw (IgnoreBlanks str) = (k, t)" by fastforce
    let ?t1 = "IgnoreBlanks t"
    note open_dict = DictLoop.simps(2) BuildDict.simps(2) k Let_def
    consider "k = None" | "k = Some []" | key where "k = Some key" "key \<noteq> []" by (cases k) blast+
    then show ?thesis
    proof cases
      case 1
      then show ?thesis using give_up [of "Some t"] 3 unfolding open_dict by (simp del: same_parse_simps)
    next
      case 2
      then show ?thesis using give_up [of "Some t"] 3 unfolding open_dict by (simp del: same_parse_simps)
    next
      case (3 key)
      note str = \<open>str \<noteq> []\<close> \<open>hd str \<noteq> CHR ''}''\<close>
      consider "?t1 = []" | "?t1 \<noteq> []" "hd ?t1 \<noteq> CHR '':''" | "?t1 \<noteq> []" "hd ?t1 = CHR '':''" by blast
      then show ?thesis
      proof cases
        case 1
        then show ?thesis using give_up [of None] 3 str unfolding open_dict by (simp del: same_parse_simps)
      next
        case 2
        then show ?thesis using give_up [of "Some (tl ?t1)"] 3 str unfolding open_dict by (simp del: same_parse_simps)
      next
        case colon: 3
        note r = same_dict_round [where k = "\<lambda>v t. DictLoop sd f (skip_comma (IgnoreBlanks t)) (dict_insert key v acc)"
            and k' = "\<lambda>t. BuildDict sd f (skip_comma (IgnoreBlanks t)) c",
            OF c a val [OF holdingD(1) [OF c], of "IgnoreBlanks (tl ?t1)"] more]
        show ?thesis using r 3 colon str unfolding open_dict by (simp del: same_parse_simps)
      qed
    qed
  qed
qed

lemma same_value:
  assumes lst: "\<And>s H c str acc. holding s0 H c s \<Longrightarrow> holds (view s) (Some c) (JList acc) \<Longrightarrow>
      same_parse s0 H (ListLoop sd f str acc) (BuildList sd f str c s)"
    and dict: "\<And>s H c str acc. holding s0 H c s \<Longrightarrow> holds (view s) (Some c) (JDict acc) \<Longrightarrow>
      same_parse s0 H (DictLoop sd f str acc) (BuildDict sd f str c s)"
    and inv: "heap_inv s0 H {#}"
  shows "same_parse s0 H (ParseValue sd (Suc f) str) (BuildValue sd (Suc f) str s0)"
proof -
  define t where "t = IgnoreBlanks str"
  define t' where "t' = IgnoreBlanks (tl t)"
  have lst0: "same_parse s0 H (ListLoop sd f t' []) (rbind (new_val kList s0) (\<lambda>(n, s1). BuildList sd f t' n s1))"
    by (rule same_new [OF inv]) (auto intro!: lst simp: empty_node_def)
  have dict0: "same_parse s0 H (DictLoop sd f t' []) (rbind (new_val kDict s0) (\<lambda>(n, s1). BuildDict sd f t' n s1))"
    by (rule same_new [OF inv]) (auto intro!: dict simp: empty_node_def)
  have lost: "same_parse s0 H (Inr (Failed p)) (Inr (Lost p, s0))" for p using inv grows_refl by simp
  note err = same_error [OF inv grows_refl]
  note atoms = same_null [OF inv] same_true [OF inv] same_false [OF inv] same_str [OF inv] same_digits [OF inv]
  show ?thesis
    unfolding ParseValue.simps(2) BuildValue.simps(2) Let_def t_def [symmetric] t'_def [symmetric]
    using err same_check [OF atoms(1)] same_check [OF atoms(2)] same_check [OF atoms(3)] same_check [OF atoms(4)]
      same_check [OF atoms(5)] same_check [OF lst0] same_check [OF dict0] same_check [OF lost]
    by (simp del: same_parse_simps)
qed

text \<open>From any heap that keeps the invariant, whatever the running functions hold.\<close>

lemma build_same:
  "(\<forall>s H. heap_inv s H {#} \<longrightarrow> same_parse s H (ParseValue sd f str) (BuildValue sd f str s))
   \<and> (\<forall>s0 s H c acc. holding s0 H c s \<longrightarrow> holds (view s) (Some c) (JList acc) \<longrightarrow>
        same_parse s0 H (ListLoop sd f str acc) (BuildList sd f str c s))
   \<and> (\<forall>s0 s H c acc. holding s0 H c s \<longrightarrow> holds (view s) (Some c) (JDict acc) \<longrightarrow>
        same_parse s0 H (DictLoop sd f str acc) (BuildDict sd f str c s))"
proof (induction f arbitrary: str)
  case 0
  then show ?case by (simp add: ParseValue.simps ListLoop.simps DictLoop.simps BuildValue.simps BuildList.simps BuildDict.simps)
next
  case (Suc f)
  then have val: "\<And>s H str. heap_inv s H {#} \<Longrightarrow> same_parse s H (ParseValue sd f str) (BuildValue sd f str s)"
    and lst: "\<And>s0 s H c str acc. holding s0 H c s \<Longrightarrow> holds (view s) (Some c) (JList acc) \<Longrightarrow>
      same_parse s0 H (ListLoop sd f str acc) (BuildList sd f str c s)"
    and dict: "\<And>s0 s H c str acc. holding s0 H c s \<Longrightarrow> holds (view s) (Some c) (JDict acc) \<Longrightarrow>
      same_parse s0 H (DictLoop sd f str acc) (BuildDict sd f str c s)"
    by blast+
  show ?case
    by (intro conjI allI impI same_list [OF val lst] same_dict [OF val dict] same_value [OF lst dict])
qed

lemma BuildJson_same: "heap_inv s H {#} \<Longrightarrow> same_parse s H (ParseJson sd str) (BuildJson sd str s)"
  unfolding ParseJson_def BuildJson_def using build_same [of sd "parse_rounds (c_str str)" "c_str str"] by blast

end
