(* ===== verification/Json_Texts.thy ===== *)
theory Json_Texts
  imports Json_Load
begin

text \<open>
  Clients that also read texts into variables and print variables, on shared cells and on values
  of their own: what they see is the same, and every print ends.
\<close>

section \<open>How deep a value is\<close>

text \<open>A cell holds one value.\<close>

lemma related_det:
  "list_all2 P hs us \<Longrightarrow> list_all2 P hs vs \<Longrightarrow> (\<And>h u v. u \<in> set us \<Longrightarrow> P h u \<Longrightarrow> P h v \<Longrightarrow> u = v) \<Longrightarrow> us = vs"
proof (induction hs arbitrary: us vs)
  case (Cons h hs)
  then obtain u us' v vs' where u: "us = u # us'" "vs = v # vs'" "P h u" "P h v" "list_all2 P hs us'" "list_all2 P hs vs'"
    by (auto simp: list_all2_Cons1)
  moreover have "us' = vs'" by (rule Cons.IH [OF u(5,6)]) (use Cons.prems(3) u(1) in auto)
  ultimately show ?case using Cons.prems(3) by simp
qed simp

lemma holds_det: "holds g h u \<Longrightarrow> holds g h v \<Longrightarrow> u = v"
proof (induction u arbitrary: h v)
  case (JList us)
  then obtain c hs vs where "h = Some c" "g c = Some (N_List hs)" "v = JList vs" "list_all2 (holds g) hs us" "list_all2 (holds g) hs vs"
    by (cases h; cases v) auto
  with related_det [OF this(4,5)] JList.IH show ?case by blast
next
  case (JDict d)
  then obtain c e d2 where e: "h = Some c" "g c = Some (N_Dict e)" "v = JDict d2" "map fst e = map fst d" "map fst e = map fst d2"
    "list_all2 (holds g) (map snd e) (map snd d)" "list_all2 (holds g) (map snd e) (map snd d2)"
    by (cases h; cases v) auto
  have "map snd d = map snd d2" by (rule related_det [OF e(6,7)]) (use JDict.IH in auto)
  then show ?case using e(3,4,5) by (metis zip_map_fst_snd)
next
  case JNull
  then show ?case by (cases h; cases v) (auto split: node.splits)
next
  case (JBool b)
  then show ?case by (cases h; cases v) (auto split: node.splits)
next
  case (JInt i)
  then show ?case by (cases h; cases v) (auto split: option.splits node.splits)
next
  case (JDouble x)
  then show ?case by (cases h; cases v) (auto split: node.splits)
next
  case (JStr t)
  then show ?case by (cases h; cases v) (auto split: node.splits)
qed

text \<open>Under a cell with a value of some depth there are cells with values of all smaller depths.\<close>

lemma foldr_max_in: "0 < foldr (\<lambda>x. max (f x)) xs (0::nat) \<Longrightarrow> \<exists>x \<in> set xs. f x = foldr (\<lambda>x. max (f x)) xs 0"
proof (induction xs)
  case (Cons x xs)
  show ?case
  proof (cases "f x < foldr (\<lambda>x. max (f x)) xs 0")
    case True
    with Cons.IH show ?thesis by auto
  next
    case False
    then have "max (f x) (foldr (\<lambda>x. max (f x)) xs 0) = f x" by (intro max_absorb1) simp
    then show ?thesis by simp
  qed
qed simp

lemma depth_levels: "holds g h v \<Longrightarrow> 1 \<le> m \<Longrightarrow> m \<le> depth v \<Longrightarrow> \<exists>h' u. holds g h' u \<and> depth u = m"
proof (induction v arbitrary: h)
  case (JList vs)
  show ?case
  proof (cases "m = depth (JList vs)")
    case False
    then have m: "m \<le> foldr (\<lambda>v. max (depth v)) vs 0" using JList.prems(3) by simp
    then obtain v where v: "v \<in> set vs" "depth v = foldr (\<lambda>v. max (depth v)) vs 0"
      using foldr_max_in [of depth vs] JList.prems(2) by force
    obtain c hs where "h = Some c" "g c = Some (N_List hs)" "list_all2 (holds g) hs vs" using JList.prems(1) by (cases h) auto
    then obtain h' where "holds g h' v" using v(1) by (metis in_set_conv_nth list_all2_conv_all_nth)
    from JList.IH [OF v(1) this JList.prems(2)] m v(2) show ?thesis by simp
  qed (use JList.prems(1) in blast)
next
  case (JDict d)
  show ?case
  proof (cases "m = depth (JDict d)")
    case False
    then have m: "m \<le> foldr (\<lambda>(k, v). max (depth v)) d 0" using JDict.prems(3) by simp
    then have "\<exists>x \<in> set d. depth (snd x) = foldr (\<lambda>(k, v). max (depth v)) d 0"
      using foldr_max_in [of "\<lambda>(k, v). depth v" d] JDict.prems(2) by (simp add: case_prod_unfold)
    then obtain k v where v: "(k, v) \<in> set d" "depth v = foldr (\<lambda>(k, v). max (depth v)) d 0" by fastforce
    obtain c e where "g c = Some (N_Dict e)" "list_all2 (holds g) (map snd e) (map snd d)" using JDict.prems(1) by (cases h) auto
    moreover have "v \<in> set (map snd d)" using v(1) by force
    ultimately obtain h' where "holds g h' v" by (metis in_set_conv_nth list_all2_conv_all_nth)
    from JDict.IH [OF v(1) _ this JDict.prems(2)] m v(2) show ?thesis by simp
  qed (use JDict.prems(1) in blast)
qed (intro exI conjI, assumption, simp)+

text \<open>No value is deeper than there are cells: printing needs at most that many nested calls.\<close>

lemma depth_cells:
  assumes v: "holds (view s) h v"
  shows "depth v \<le> length (cells s)"
proof -
  have "card {1..depth v} \<le> card {..<length (cells s)}"
  proof (rule card_le_if_inj_on_rel [where r = "\<lambda>m c. \<exists>u. holds (view s) (Some c) u \<and> depth u = m"])
    fix m assume "m \<in> {1..depth v}"
    then obtain h' u where u: "holds (view s) h' u" "depth u = m" using depth_levels [OF v] by fastforce
    then obtain c n where c: "h' = Some c" "view s c = Some n" using holds_Some by blast
    then have "c < length (cells s)" by (auto simp: view_def cell_at_def split: if_splits)
    with u c show "\<exists>c. c \<in> {..<length (cells s)} \<and> (\<exists>u. holds (view s) (Some c) u \<and> depth u = m)" by blast
  qed (use holds_det in blast)+
  then show ?thesis by simp
qed

section \<open>A client that reads and prints texts\<close>

text \<open>
  Beside the calls of \<open>Json_Cells\<close>: \<open>ParseJson\<close> and \<open>CreateConf\<close> into a new variable, and
  \<open>DumpJson\<close>, with the order in which the maps are iterated. The result of a parse is whether it is
  \<open>NULL\<close>.
\<close>

datatype 'd text_op =
    Use "'d json_op"
  | Parse_Text nat string
  | Load_Conf nat "string list option"
  | Dump_Var nat map_order

datatype 'd text_out = Seen "'d json_out" | Found bool | Text string

definition keep_built :: "nat \<Rightarrow> 'd json_state \<Rightarrow> (built \<times> 'd json_heap) result \<Rightarrow> ('d text_out \<times> 'd json_state) result" where
  "keep_built x m r =
     rbind r (\<lambda>(y, s1). case y of
         Built c t \<Rightarrow> Inr (Found True, s1\<lparr>json_vars := (x, Some c) # json_vars s1\<rparr>, snd m)
       | Lost p \<Rightarrow> Inr (Found False, s1, snd m))"

text \<open>The depth of calls of \<open>DumpJson\<close> is bounded by the number of cells.\<close>

fun text_call :: "(string \<Rightarrow> 'd \<times> string) \<Rightarrow> ('d \<Rightarrow> string) \<Rightarrow> ('d \<Rightarrow> 'd \<Rightarrow> bool) \<Rightarrow> 'd json_state \<Rightarrow> 'd text_op
  \<Rightarrow> ('d text_out \<times> 'd json_state) result" where
  "text_call sd shd close m (Use op) = map_sum id (\<lambda>(out, m1). (Seen out, m1)) (json_call close m op)"
| "text_call sd shd close m (Parse_Text x str) = keep_built x m (BuildJson sd str (fst m))"
| "text_call sd shd close m (Load_Conf x blocks) = keep_built x m (CreateConf sd blocks (fst m))"
| "text_call sd shd close m (Dump_Var x ord) =
     rbind (var_cell x (fst m)) (\<lambda>c.
     rbind (dump_val shd ord (fst m) (length (cells (fst m))) (Some c)) (\<lambda>t. Inr (Text t, m)))"

definition keep_parsed :: "nat \<Rightarrow> 'd json_env \<Rightarrow> 'd parsed result \<Rightarrow> 'd text_out \<times> 'd json_env" where
  "keep_parsed x e r =
     (case r of
        Inr (Got v t) \<Rightarrow> (Found True, (fst e)(x \<mapsto> v), snd e)
      | _ \<Rightarrow> (Found False, e))"

definition conf_text :: "string list option \<Rightarrow> string option" where
  "conf_text = map_option read_blocks"

fun text_value :: "(string \<Rightarrow> 'd \<times> string) \<Rightarrow> ('d \<Rightarrow> string) \<Rightarrow> ('d \<Rightarrow> 'd \<Rightarrow> bool) \<Rightarrow> 'd json_env \<Rightarrow> 'd text_op
  \<Rightarrow> 'd text_out \<times> 'd json_env" where
  "text_value sd shd close e (Use op) = (let (out, e1) = value_call close e op in (Seen out, e1))"
| "text_value sd shd close e (Parse_Text x str) = keep_parsed x e (ParseJson sd str)"
| "text_value sd shd close e (Load_Conf x blocks) =
     (case conf_text blocks of None \<Rightarrow> (Found False, e) | Some str \<Rightarrow> keep_parsed x e (ParseJson sd str))"
| "text_value sd shd close e (Dump_Var x ord) = (Text (DumpJson shd ord (the (fst e x))), e)"

text \<open>A text is read into a new variable, and the parser gets through it without an exception.\<close>

definition readable :: "(string \<Rightarrow> 'd \<times> string) \<Rightarrow> string \<Rightarrow> bool" where
  "readable sd str \<longleftrightarrow> (case ParseJson sd str of Inl e \<Rightarrow> False | Inr y \<Rightarrow> True)"

fun text_pre :: "(string \<Rightarrow> 'd \<times> string) \<Rightarrow> 'd json_state \<Rightarrow> 'd text_op \<Rightarrow> bool" where
  "text_pre sd m (Use op) = json_pre m op"
| "text_pre sd m (Parse_Text x str) = (\<not> has_var x (fst m) \<and> readable sd str)"
| "text_pre sd m (Load_Conf x blocks) =
     (\<not> has_var x (fst m) \<and> (case conf_text blocks of None \<Rightarrow> True | Some str \<Rightarrow> readable sd str))"
| "text_pre sd m (Dump_Var x ord) = has_var x (fst m)"

section \<open>The refinement\<close>

lemma grows_quiet:
  assumes "grows s s1" "heap_inv s {#} {#}" "heap_inv s1 H1 {#}"
  obtains X where "quiet s {#} X s1 H1" "\<And>d. Some d \<in># X \<Longrightarrow> length (cells s) \<le> d"
proof -
  obtain X where X: "frame s s1 {d. length (cells s) \<le> d} X {#}" "\<And>d. Some d \<in># X \<Longrightarrow> length (cells s) \<le> d"
    using assms(1) by (auto simp: grows_def)
  have "\<forall>d \<in> {d. length (cells s) \<le> d}. Some d \<notin># all_handles s" using not_in_new [OF assms(2)] by simp
  with X(1) assms(2,3) have "quiet s {#} X s1 H1" unfolding quiet_def by blast
  then show thesis using X(2) by (rule that)
qed

lemma cursor_len: "heap_inv s H B \<Longrightarrow> cursor s x p ls cs l \<Longrightarrow> c \<in> set cs \<Longrightarrow> c < length (cells s)"
  using live_len [OF handle_live [OF _ cursor_in]] by blast

text \<open>References stay what they are.\<close>

lemma grows_has_cursor:
  assumes g: "grows s s1" and core: "json_core s env" and inv1: "heap_inv s1 H1 {#}" and hc: "has_cursor s cur scur"
  shows "has_cursor s1 cur scur"
    and "H1 = {#Some c#} \<Longrightarrow> length (cells s) \<le> c \<Longrightarrow> \<not> has_var x s \<Longrightarrow>
      has_cursor (s1\<lparr>json_vars := (x, Some c) # json_vars s1\<rparr>) cur scur"
proof -
  note inv = coreD(1) [OF core]
  obtain X where X: "quiet s {#} X s1 H1" "\<And>d. Some d \<in># X \<Longrightarrow> length (cells s) \<le> d" by (rule grows_quiet [OF g inv inv1], rule that)
  have stays: "cursor s1 z p ls cs l" if "cursor s z p ls cs l" for z p ls cs l
  proof -
    have "\<forall>c \<in> set cs. Some c \<notin># X" using X(2) cursor_len [OF inv that] by fastforce
    from quiet_cursor [OF X(1) that this] show ?thesis by blast
  qed
  show "has_cursor s1 cur scur"
    using hc stays by (cases cur) (auto simp: has_cursor_def, blast)
  assume c: "H1 = {#Some c#}" "length (cells s) \<le> c" and x: "\<not> has_var x s"
  let ?s2 = "s1\<lparr>json_vars := (x, Some c) # json_vars s1\<rparr>"
  have vs: "json_vars s1 = json_vars s" using quiet_vars [OF X(1)] by simp
  have "cursor ?s2 z p ls cs l" if cur: "cursor s z p ls cs l" for z p ls cs l
  proof -
    have "map_of (json_vars s) z \<noteq> None" using cur by (auto simp: cursor_def placed_def)
    then have "x \<noteq> z" using x by (auto simp: has_var_def)
    moreover have "\<forall>d \<in> set cs. Some c \<noteq> Some d" using cursor_len [OF inv cur] c(2) by fastforce
    ultimately show ?thesis
      using x coreD(2) [OF core] vs stays [OF cur]
      by (intro cursor_grow [OF stays [OF cur], of _ "Some c"]) (auto simp: all_handles_def placed_def load_loc_def has_var_def cursor_def map_of_eq_None_iff)
  qed
  then show "has_cursor ?s2 cur scur" using hc by (cases cur) (auto simp: has_cursor_def, blast)
qed

text \<open>What is read goes into a new variable.\<close>

lemma keep_sim:
  assumes core: "json_core s env" and hc: "has_cursor s cur scur" and x: "\<not> has_var x s"
    and same: "same_parse s {#} r q" and r: "\<forall>e. r \<noteq> Inl e"
  shows "\<exists>out m' e'. keep_built x (s, cur) q = Inr (out, m') \<and> json_rel m' e' \<and> keep_parsed x (env, scur) r = (out, e')"
proof -
  note inv = coreD(1) [OF core]
  obtain y where y: "r = Inr y" using r by (cases r) auto
  show ?thesis
  proof (cases y)
    case (Got v t)
    then obtain c s1 where c: "q = Inr (Built c t, s1)" "holding s {#} c s1" "holds (view s1) (Some c) v"
      using same y by auto
    have i1: "heap_inv s1 {#Some c#} {#}" using holdingD(1) [OF c(2)] by simp
    obtain X where X: "quiet s {#} X s1 {#Some c#}" by (rule grows_quiet [OF holdingD(2) [OF c(2)] inv i1])
    have "has_cursor (s1\<lparr>json_vars := (x, Some c) # json_vars s1\<rparr>) cur scur"
      by (rule grows_has_cursor(2) [OF holdingD(2) [OF c(2)] core i1 hc refl holdingD(3) [OF c(2)] x])
    with core_new [OF core x X c(3)] c(1) y Got show ?thesis by (simp add: keep_built_def keep_parsed_def)
  next
    case (Failed p)
    then obtain s1 where s1: "q = Inr (Lost p, s1)" "heap_inv s1 {#} {#}" "grows s s1" using same y by auto
    obtain X where X: "quiet s {#} X s1 {#}" by (rule grows_quiet [OF s1(3) inv s1(2)])
    have "json_core s1 env" using quiet_vals [OF X] s1(2) core by (simp add: core_vals)
    with grows_has_cursor(1) [OF s1(3) core s1(2) hc] s1(1) y Failed show ?thesis
      by (simp add: keep_built_def keep_parsed_def)
  qed
qed

lemma dump_sim:
  assumes core: "json_core s env" and x: "has_var x s"
  shows "\<exists>c. var_cell x s = Inr c \<and> dump_val shd ord s (length (cells s)) (Some c) = Inr (DumpJson shd ord (the (env x)))"
proof -
  obtain c v where c: "load_loc (Var_Loc x) s = Some (Some c)" "env x = Some v" "holds (view s) (Some c) v" "var_cell x s = Inr c"
    by (rule core_var [OF core x])
  from dump_holds [OF coreD(1) [OF core] c(3) depth_cells [OF c(3)]] c(2,4) show ?thesis by simp
qed

lemma text_sim:
  assumes rel: "json_rel m e" and pre: "text_pre sd m op"
  shows "\<exists>out m' e'. text_call sd shd close m op = Inr (out, m') \<and> json_rel m' e' \<and> text_value sd shd close e op = (out, e')"
proof -
  obtain s cur where m: "m = (s, cur)" by (cases m)
  obtain env scur where e: "e = (env, scur)" by (cases e)
  have core: "json_core s env" and hc: "has_cursor s cur scur" using rel m e by simp_all
  note same = BuildJson_same [OF coreD(1) [OF core], where sd = sd]
  show ?thesis
  proof (cases op)
    case (Use j)
    then have "json_pre m j" using pre by simp
    from call_sim [OF rel this, of close] show ?thesis using Use by (auto simp: sim_ok_def)
  next
    case (Parse_Text x str)
    then have "\<not> has_var x s" "\<forall>e. ParseJson sd str \<noteq> Inl e" using pre m by (auto simp: readable_def)
    from keep_sim [OF core hc this(1) same this(2)] show ?thesis using Parse_Text m e by simp
  next
    case (Load_Conf x blocks)
    then have x: "\<not> has_var x s" using pre m by simp
    show ?thesis
    proof (cases blocks)
      case None
      then show ?thesis using Load_Conf core hc m e by (simp add: CreateConf_def keep_built_def conf_text_def)
    next
      case (Some bs)
      then have "\<forall>e. ParseJson sd (read_blocks bs) \<noteq> Inl e" using Load_Conf pre m by (auto simp: readable_def conf_text_def)
      from keep_sim [OF core hc x same this] show ?thesis using Load_Conf Some m e by (simp add: CreateConf_def conf_text_def)
    qed
  next
    case (Dump_Var x ord)
    then have "has_var x s" using pre m by simp
    from dump_sim [OF core this, of shd ord] show ?thesis using Dump_Var rel m e by auto
  qed
qed

interpretation jt: forward_simulation "text_call sd shd close" "\<lambda>e op out e'. text_value sd shd close e op = (out, e')" "text_pre sd" json_rel
  for sd :: "string \<Rightarrow> 'd \<times> string" and shd :: "'d \<Rightarrow> string" and close :: "'d \<Rightarrow> 'd \<Rightarrow> bool"
  by unfold_locales (rule text_sim)

lemma text_run:
  assumes "legal_ops (text_call sd shd close) (text_pre sd) no_json ops"
  obtains m where "run_ops (text_call sd shd close) no_json ops = Inr (fst (fun_run (text_value sd shd close) no_values ops), m)"
    "json_rel m (snd (fun_run (text_value sd shd close) no_values ops))"
  using jt.run_related [OF new_heap_rel assms] by (auto simp: spec_run_fun)

text \<open>
  C2: A client that reads texts and configuration files into variables, works on them and prints
  them never faults and sees exactly what it would see with values of their own: the parser on
  shared cells makes the value of the text, shared with nothing, and leaves every other value and
  every reference as it is, also when it gives up.
\<close>

theorem text_clients_see_values:
  assumes "legal_ops (text_call sd shd close) (text_pre sd) no_json ops"
  shows "\<exists>m. run_ops (text_call sd shd close) no_json ops = Inr (fst (fun_run (text_value sd shd close) no_values ops), m)"
  by (rule text_run [OF assms]) blast

definition text_ops :: "nat text_op list" where
  "text_ops = [Parse_Text 0 ''[1, [true]]'', Use (J_Copy 1 0), Use (J_Var 0), Use (J_Sub (Index 1)), Load_Conf 2 (Some [''{}'', []]),
     Parse_Text 3 ''[1, xxxxxxxxxxxxxxxxxxxx'', Use (J_Set (S_Int 5)), Dump_Var 0 backwards, Dump_Var 1 backwards, Dump_Var 2 backwards]"

lemma text_ops_values: "fst (fun_run (text_value skip_one (\<lambda>d. []) (=)) no_values text_ops) =
    [Found True, Seen J_Done, Seen J_Done, Seen J_Done, Found True, Found False, Seen J_Done,
     Text ''[1,5]'', Text ''[1,[1]]'', Text ''{}'']"
  by code_simp

text \<open>The heap after the first call, the second and the fourth.\<close>

definition read_heap :: "nat json_heap" where
  "read_heap = new_json_heap
     \<lparr>cells := [Some (new_cell kList (List_Ptr 0)), Some (new_cell kInt (Int_Val 1)), Some (new_cell kList (List_Ptr 1)),
        Some (new_cell kBool (Bool_Val True))],
      boxes := [Some (List_Box [Some 1, Some 2]), Some (List_Box [Some 3])], json_vars := [(0, Some 0)]\<rparr>"

definition copied_heap :: "nat json_heap" where
  "copied_heap = read_heap
     \<lparr>cells := (cells read_heap)[0 := Some \<lparr>val_type = kList, ref_cnt = 2, val_data = List_Ptr 0\<rparr>],
      json_vars := [(1, Some 0), (0, Some 0)]\<rparr>"

definition entered_heap :: "nat json_heap" where
  "entered_heap = new_json_heap
     \<lparr>cells := [Some (new_cell kList (List_Ptr 0)), Some \<lparr>val_type = kInt, ref_cnt = 2, val_data = Int_Val 1\<rparr>,
        Some \<lparr>val_type = kList, ref_cnt = 2, val_data = List_Ptr 1\<rparr>, Some (new_cell kBool (Bool_Val True)),
        Some (new_cell kList (List_Ptr 2))],
      boxes := [Some (List_Box [Some 1, Some 2]), Some (List_Box [Some 3]), Some (List_Box [Some 1, Some 2])],
      json_vars := [(1, Some 0), (0, Some 4)]\<rparr>"

lemma text_steps:
  "text_call skip_one (\<lambda>d. []) (=) no_json (Parse_Text 0 ''[1, [true]]'') = Inr (Found True, read_heap, None)"
  "text_call skip_one (\<lambda>d. []) (=) (read_heap, None) (Use (J_Copy 1 0)) = Inr (Seen J_Done, copied_heap, None)"
  "text_call skip_one (\<lambda>d. []) (=) (copied_heap, None) (Use (J_Var 0)) = Inr (Seen J_Done, copied_heap, Some (0, [], Var_Loc 0))"
  "text_call skip_one (\<lambda>d. []) (=) (copied_heap, Some (0, [], Var_Loc 0)) (Use (J_Sub (Index 1)))
    = Inr (Seen J_Done, entered_heap, Some (0, [Index 1], Elem_Loc 2 1))"
  by code_simp+

lemma text_steps_legal:
  "text_pre skip_one no_json (Parse_Text 0 ''[1, [true]]'' :: nat text_op)"
  "legal_ops (text_call skip_one (\<lambda>d. []) (=)) (text_pre skip_one) (entered_heap, Some (0, [Index 1], Elem_Loc 2 1))
     [Load_Conf 2 (Some [''{}'', []]), Parse_Text 3 ''[1, xxxxxxxxxxxxxxxxxxxx'', Use (J_Set (S_Int 5)), Dump_Var 0 backwards, Dump_Var 1 backwards, Dump_Var 2 backwards]"
  by code_simp+

lemma text_ops_legal: "legal_ops (text_call skip_one (\<lambda>d. []) (=)) (text_pre skip_one) no_json text_ops"
proof -
  have "text_pre skip_one (read_heap, None) (Use (J_Copy 1 0))" "text_pre skip_one (copied_heap, None) (Use (J_Var 0))"
    "text_pre skip_one (copied_heap, Some (0, [], Var_Loc 0)) (Use (J_Sub (Index 1)))"
    by (simp_all add: read_heap_def copied_heap_def new_json_heap_def has_var_def room_def all_handles_def opt_handles_def
        copy_ok_def clean_pool_def pool_of_def load_loc_def cell_at_def boxed_def)
  with text_steps text_steps_legal show ?thesis
    unfolding text_ops_def by (simp only: legal_ops.simps sum.case prod.case simp_thms)
qed

lemma text_clients_see_values_witness:
  "\<exists>m. run_ops (text_call skip_one (\<lambda>d. []) (=)) no_json text_ops =
    Inr ([Found True, Seen J_Done, Seen J_Done, Seen J_Done, Found True, Found False, Seen J_Done,
      Text ''[1,5]'', Text ''[1,[1]]'', Text ''{}''], m)"
  using text_clients_see_values [OF text_ops_legal] by (simp only: text_ops_values)

section \<open>A printed variable is read back\<close>

lemma int_dec_bool: "int_dec 1 = ''1''" "int_dec 0 = ''0''"
  by code_simp+

lemma text_as_read: "json_text shd (as_read v) = json_text shd v"
proof (induction v)
  case (JBool b)
  show ?case by (cases b) (simp_all add: int_dec_bool)
next
  case (JList vs)
  then have "map (json_text shd) (map as_read vs) = map (json_text shd) vs" by simp
  then show ?case by (simp only: as_read.simps json_text.simps)
next
  case (JDict d)
  then have "map (\<lambda>(k, v). quoted k @ '':'' @ json_text shd v) (map (\<lambda>(k, v). (k, as_read v)) d)
    = map (\<lambda>(k, v). quoted k @ '':'' @ json_text shd v) d"
    by auto
  then show ?case by (simp only: as_read.simps json_text.simps)
qed simp_all

lemma iterated_as_read: "iterates ord \<Longrightarrow> iterated ord (as_read v) = as_read (iterated ord v)"
proof (induction v arbitrary: ord)
  case (JList vs)
  then show ?case using iteratesD(1) by (simp add: iterated_list del: iterated.simps)
next
  case (JDict d)
  let ?n = "length d"
  note at = order_lt [OF JDict.prems]
  have "iterated (below ord j) (as_read (snd (d ! (ord [] ?n ! j)))) = as_read (iterated (below ord j) (snd (d ! (ord [] ?n ! j))))"
    if "j < ?n" for j
  proof -
    obtain key u where u: "d ! (ord [] ?n ! j) = (key, u)" by (rule prod.exhaust)
    have "(key, u) \<in> set d" using nth_mem [OF at [OF that]] u by metis
    from JDict.IH [OF this, of u] iteratesD(1) [OF JDict.prems] show ?thesis unfolding u by simp
  qed
  then show ?case using at by (simp add: iterated_dict JDict.prems case_prod_unfold del: iterated.simps)
qed simp_all

lemma dump_as_read: "iterates ord \<Longrightarrow> DumpJson shd ord (as_read v) = DumpJson shd ord v"
  by (simp add: DumpJson_def iterated_as_read text_as_read)

text \<open>
  C12: After any such run, the text that is printed for a variable makes a
  new variable with the value, the booleans as integers, when it is read from a file in whatever
  blocks \<open>fread\<close> gives, in whatever order the maps were iterated. The new maps get their pairs in the
  order in which these were printed, and what is printed for the new variable, in whatever order its maps
  are iterated, is a text of the old value in some order of its maps. As for C11, the value has no
  floating point numbers, no string that needs quoting and only distinct keys that are not empty.
\<close>

theorem printed_variable_is_read_back:
  assumes ops: "legal_ops (text_call sd shd close) (text_pre sd) no_json ops"
    and x: "fst (snd (fun_run (text_value sd shd close) no_values ops)) x = Some v" and v: "plain v"
    and y: "fst (snd (fun_run (text_value sd shd close) no_values ops)) y = None"
    and o1: "iterates o1" and bs: "read_blocks blocks = DumpJson shd o1 v" and o2: "iterates o2"
  shows "\<exists>outs m env. run_ops (text_call sd shd close) no_json
      (ops @ [Dump_Var x o1, Load_Conf y (Some blocks), Dump_Var y o2])
      = Inr (outs @ [Text (DumpJson shd o1 v), Found True, Text (DumpJson shd o2 (iterated o1 v))], m)
    \<and> json_rel m env \<and> fst env y = Some (as_read (iterated o1 v))
    \<and> (\<exists>o3. iterates o3 \<and> DumpJson shd o2 (iterated o1 v) = DumpJson shd o3 v)"
proof -
  let ?fv = "text_value sd shd close" and ?v = "as_read (iterated o1 v)" and ?t = "DumpJson shd o2 (iterated o1 v)"
  obtain outs env scur where e: "fun_run ?fv no_values ops = (outs, env, scur)" by (metis surj_pair)
  obtain m where m: "run_ops (text_call sd shd close) no_json ops = Inr (outs, m)" "json_rel m (env, scur)"
    using text_run [OF ops] e by auto
  obtain s cur where s: "m = (s, cur)" by (cases m)
  have core: "json_core s env" using m(2) s by simp
  have vals: "env x = Some v" "env y = None" using x y e by simp_all
  have has: "has_var z s \<longleftrightarrow> env z \<noteq> None" for z
    using coreD(4,5) [OF core, of z] by (cases "map_of (json_vars s) z") (auto simp: has_var_def load_loc_def)
  note parse = json_round_trip [OF v o1, of sd shd]
  have d1: "text_call sd shd close m (Dump_Var x o1) = Inr (Text (DumpJson shd o1 v), m)"
    using dump_sim [OF core, of x shd o1] has [of x] vals(1) s by fastforce
  have pre2: "text_pre sd m (Load_Conf y (Some blocks))"
    using has [of y] vals(2) s bs parse by (simp add: conf_text_def readable_def)
  obtain m2 where d2: "text_call sd shd close m (Load_Conf y (Some blocks)) = Inr (Found True, m2)"
    "json_rel m2 (env(y \<mapsto> ?v), scur)"
    using text_sim [OF m(2) pre2, of shd close] bs parse by (auto simp: conf_text_def keep_parsed_def)
  obtain s2 cur2 where s2: "m2 = (s2, cur2)" by (cases m2)
  have core2: "json_core s2 (env(y \<mapsto> ?v))" using d2(2) s2 by simp
  have "load_loc (Var_Loc y) s2 \<noteq> None" using coreD(4) [OF core2, of y] by auto
  then have "has_var y s2" by (simp add: has_var_def load_loc_def)
  then have d3: "text_call sd shd close m2 (Dump_Var y o2) = Inr (Text ?t, m2)"
    using dump_sim [OF core2, of y shd o2] s2 by (auto simp: dump_as_read o2)
  have "run_ops (text_call sd shd close) no_json (ops @ [Dump_Var x o1, Load_Conf y (Some blocks), Dump_Var y o2])
      = Inr (outs @ [Text (DumpJson shd o1 v), Found True, Text ?t], m2)"
    using m(1) d1 d2(1) d3 by (simp add: run_ops_append)
  moreover have "\<exists>o3. iterates o3 \<and> ?t = DumpJson shd o3 v"
    using iterated_twice [OF o1 o2, of v] by (auto simp: DumpJson_def)
  ultimately show ?thesis using d2(2) by (metis fst_conv fun_upd_same)
qed

text \<open>A map that is printed with the last pair first, read back, and printed so again:\<close>

definition map_ops :: "nat text_op list" where
  "map_ops = [Parse_Text 0 (''{'' @ quoted ''a'' @ '':true,'' @ quoted ''b'' @ '':[7]}'')]"

lemma map_ops_legal: "legal_ops (text_call skip_one (\<lambda>d. []) (=)) (text_pre skip_one) no_json map_ops"
  by code_simp

lemma map_ops_left:
  "fst (snd (fun_run (text_value skip_one (\<lambda>d. []) (=)) no_values map_ops)) 0 = Some (JDict [(''a'', JBool True), (''b'', JList [JInt 7])])"
  "fst (snd (fun_run (text_value skip_one (\<lambda>d. []) (=)) no_values map_ops)) 9 = None"
  by code_simp+

lemma printed_variable_is_read_back_witness:
  "\<exists>outs m env. run_ops (text_call skip_one (\<lambda>d. []) (=)) no_json
      (map_ops @ [Dump_Var 0 backwards,
        Load_Conf 9 (Some [''{'' @ quoted ''b'' @ '':[7], '', quoted ''a'' @ '':1}'', []]), Dump_Var 9 backwards])
      = Inr (outs @ [Text (''{'' @ quoted ''b'' @ '':[7], '' @ quoted ''a'' @ '':1}''), Found True,
        Text (''{'' @ quoted ''a'' @ '':1, '' @ quoted ''b'' @ '':[7]}'')], m)
    \<and> json_rel m env \<and> fst env 9 = Some (JDict [(''b'', JList [JInt 7]), (''a'', JInt 1)])
    \<and> (\<exists>o3. iterates o3 \<and> ''{'' @ quoted ''a'' @ '':1, '' @ quoted ''b'' @ '':[7]}''
          = DumpJson (\<lambda>d::nat. []) o3 (JDict [(''a'', JBool True), (''b'', JList [JInt 7])]))"
proof -
  let ?v = "JDict [(''a'', JBool True), (''b'', JList [JInt 7])] :: nat json"
  let ?blocks = "[''{'' @ quoted ''b'' @ '':[7], '', quoted ''a'' @ '':1}'', []]"
  have it: "iterated backwards ?v = JDict [(''b'', JList [JInt 7]), (''a'', JBool True)]"
    by (simp add: backwards_def iteration_def upt_rec)
  have d1: "DumpJson (\<lambda>d. []) backwards ?v = ''{'' @ quoted ''b'' @ '':[7], '' @ quoted ''a'' @ '':1}''"
    unfolding DumpJson_def it by code_simp
  have d2: "DumpJson (\<lambda>d. []) backwards (iterated backwards ?v) = ''{'' @ quoted ''a'' @ '':1, '' @ quoted ''b'' @ '':[7]}''"
    unfolding it by code_simp
  have read: "as_read (iterated backwards ?v) = JDict [(''b'', JList [JInt 7]), (''a'', JInt 1)]" unfolding it by simp
  have bs: "read_blocks ?blocks = DumpJson (\<lambda>d. []) backwards ?v" unfolding d1 by code_simp
  have "plain ?v" by (simp add: raw_string_def)
  from printed_variable_is_read_back [OF map_ops_legal map_ops_left(1) this map_ops_left(2) backwards_ok bs backwards_ok]
  show ?thesis unfolding d2 read d1 .
qed

end
