(* ===== verification/Spec2Isabelle.thy ===== *)
theory Spec2Isabelle
  imports Close_Hashmap_Spec Heap_Spec Pool_Spec Delay_Race Str_Helper Io_Spec Json_Total
    Mpsc_Race Mpsc_Wakeup Events_Spec Privacy_Spec Private_Pool Default_Notifier Multi_Array Buffer Common_Macros Failure_Macros Mp_Tools Json_Texts
begin

text \<open>
  A model of the C++ library under \<^verbatim>\<open>src/\<close> and what makes it correct. The library is a set of
  building blocks for servers: containers, an object pool, thread-private objects, a message pipe,
  an event loop, JSON values, loops around system calls and small helpers. Most of it is class
  templates; a template parameter is a type variable or a field that holds the function.

  \<^bold>\<open>Parts and how they interact.\<close> \<open>EventsDriver\<close> keeps its deadlines in \<open>SimpleKVHeap\<close>, and takes the
  time from \<open>Time\<close>. \<open>MPSCFixedPipe\<close> wakes its receiver through \<open>DefaultNotifier\<close>, which uses
  \<open>SpinLock\<close>. \<open>ThreadPrivacy\<close> uses \<open>ThreadMutex\<close>; \<open>ThreadPrivatePool\<close> is made of \<open>ThreadPrivacy\<close> and
  \<open>PoolObjs\<close>; \<open>SharedJsonVal\<close> and \<open>JsonType\<close> take cells, vectors and maps from such pools. Where one
  part calls another, its model calls the other's model and its theorems use the other's theorems; but
  the JSON cells use their pools as the stacks that \<open>Pool_Spec\<close> shows them to be, and the time is an
  argument everywhere.

  \<^bold>\<open>Theories and sources.\<close> Paths are relative to \<^verbatim>\<open>src/src/\<close>; a class is a record of its fields, a
  member function a definition of its name (with a prefix where the name is taken).

  \<^item> \<open>Prelude\<close>: faults and results, the generic refinement locales, lemmas on lists and remainders.
  \<^item> \<open>Close_Hashmap\<close> (the class), \<open>Prime_Table\<close> (its probe steps are primes), \<open>Close_Hashmap_Correct\<close>
    (invariant and effect of every operation), \<open>Close_Hashmap_Spec\<close> (bounded finite map, growing,
    iteration, and where growing and \<open>Copy\<close> go wrong): \<^verbatim>\<open>close_hashmap.hpp\<close>.
  \<^item> \<open>Heap_Base\<close>, \<open>Heap_Correct\<close>, \<open>Heap_Spec\<close> (priority queue with handles, sorting, bounds):
    \<^verbatim>\<open>heap.hpp\<close>.
  \<^item> \<open>Pool_Objs\<close>, \<open>Pool_Spec\<close> (stack of objects, each given once): \<^verbatim>\<open>pool_objs/\<close>.
  \<^item> \<open>Thread_Privacy\<close>, \<open>Privacy_Spec\<close> (one object for each thread and slot): \<^verbatim>\<open>thread_privacy/\<close>, with
    \<open>ThreadMutex\<close> of \<^verbatim>\<open>lock_policy.hpp\<close>; \<open>Private_Pool\<close> (the composition with the pool):
    \<^verbatim>\<open>thread_private_pool.hpp\<close>.
  \<^item> \<open>Delay_Del_Ptr\<close> (its calls), \<open>Delay_Race\<close> (calls that overlap, as a step relation with its invariant):
    \<^verbatim>\<open>delay_del_ptr.hpp\<close>.
  \<^item> \<open>C_Strings\<close> (the string functions of the C library that are used), \<open>Str_Helper\<close>:
    \<^verbatim>\<open>str_helper.hpp\<close>; \<open>Io_Helper\<close>, \<open>Io_Spec\<close>: \<^verbatim>\<open>io_helper.h\<close> and \<^verbatim>\<open>details/io_helper.cpp\<close>.
  \<^item> \<open>Json_Data\<close> (values, their texts, and the orders in which maps are iterated), \<open>Json_Parse\<close>, \<open>Json_Spec\<close> (printing and parsing back), \<open>Json_Total\<close> (which texts the
    parser gets through); \<open>Json_Cells\<close> (shared counted cells), \<open>Json_Graph\<close> (their invariant),
    \<open>Json_Ops\<close>, \<open>Json_Calls\<close>, \<open>Json_Write\<close> (what each function does to it), \<open>Json_Paths\<close>,
    \<open>Json_Values\<close>, \<open>Json_Hole\<close>, \<open>Json_Client\<close>, \<open>Json_Assign\<close>, \<open>Json_Refine\<close> (what each call does to the
    values that the cells stand for), \<open>Json_Share\<close> (a client cannot tell them from unshared values,
    and what is outside of that); \<open>Json_Build\<close> (the parser making cells), \<open>Json_Load\<close> (it makes what
    \<open>Json_Parse\<close> makes, shared with nothing), \<open>Json_Texts\<close> (clients that also read texts into
    variables and print variables): \<^verbatim>\<open>jsontype/\<close>.
  \<^item> \<open>Mpsc_Pipe\<close>, \<open>Mpsc_Spec\<close> (bounded queue of messages), \<open>Mpsc_Race\<close> (overlapping calls): 
    \<^verbatim>\<open>mpsc_fixed_pipe/mpsc_fixed_pipe.hpp\<close>; \<open>Default_Notifier\<close> with \<open>SpinLock\<close>: \<^verbatim>\<open>default_notifier.h\<close>
    and \<^verbatim>\<open>details/default_notifier.cpp\<close> beside it, and \<^verbatim>\<open>lock_policy.hpp\<close>; \<open>Mpsc_Wakeup\<close>: the two
    together, where no message is left behind by a waiting receiver.
  \<^item> \<open>Events_Driver\<close>, \<open>Events_Spec\<close> (map from descriptors to contexts with deadlines):
    \<^verbatim>\<open>events_driver.hpp\<close>.
  \<^item> \<open>Memory_Blocks\<close> (blocks of \<open>malloc\<close> and \<open>new []\<close>, counted loops), \<open>Multi_Array\<close>:
    \<^verbatim>\<open>multi_array_helper.hpp\<close>; \<open>Buffer\<close>: \<^verbatim>\<open>buffer.hpp\<close> and \<^verbatim>\<open>slice.hpp\<close>.
  \<^item> \<open>Static_State\<close>: \<^verbatim>\<open>time/\<close>, \<^verbatim>\<open>gmonitor.h\<close>, \<^verbatim>\<open>mem_profile.h\<close> and their sources under \<^verbatim>\<open>details/\<close>;
    \<open>Common_Macros\<close>: the macros of \<^verbatim>\<open>common.h\<close> that allocate and release, on the flag and the monitor;
    \<open>Failure_Macros\<close>: its macros that handle failures, log, stop the program and guard objects;
    \<open>Mp_Tools\<close>: \<^verbatim>\<open>mp_tools.hpp\<close>.

  \<^bold>\<open>How the code is read.\<close> An operation that could dereference a null pointer, leave an array, use what
  is deleted, throw or run for ever gives a \<open>result\<close>, \<open>Inl\<close> of the fault. Objects on the heap live in
  an explicit store, a pointer being its index. Machine words are words where a carry or a cut
  matters (sizes in \<open>Memory_Blocks\<close>, the paces of the pipe, counts and numbers of JSON, numbers read
  from strings; the time that is left to wait is an integer cut to 32 bits where it is passed on) and natural numbers where the size of the address space keeps them small. What the
  system and the thread library answer is an argument: for single calls a value or a record of
  values, for the kernel of \<open>EventsDriver\<close> and the calls of \<open>IOHelper\<close> functions with a contract that
  is stated where it is used.

  \<^bold>\<open>What the lemmas show.\<close> For the hash map, the heap, the pools, the thread-private objects, the
  pipe, the notifier, the event loop and the JSON values there is an invariant, kept by each
  operation, and a simulation: the operations, run in any order that respects the stated
  preconditions, never fault and agree with an abstract object, which is a finite map, a priority
  queue, a stack, objects by thread, a queue, a set of signals, a map of watched descriptors, or
  variables with JSON values of their own. The locales \<open>forward_simulation\<close> and \<open>simulation\<close> of
  \<open>Prelude\<close> carry the argument from one call to all sequences of calls; each of these components
  interprets one of them on its own definitions. Beside these stand round trips
  (strings, numbers but for the types of 8 bits, JSON texts, also through variables and for every order of their maps), termination of the loops that end, bounds,
  the macros with and without profiling (a program sees the same, and what the monitor is told adds up
  to the blocks there are, as long as none is resized), and theorems on what happens outside the preconditions: the inputs and schedules on which the code faults, hangs or
  loses something.

  \<^bold>\<open>Bounds and fuel.\<close> A loop that always ends is structural or has a measure. The others count rounds:
  the probe loops of \<open>CloseHashmap\<close> make as many as there are slots, as the code does; sifting down
  gets the number of entries, which the depth never reaches; the I/O loops get \<open>count + 1\<close> rounds,
  since each round but the last moves a byte; the JSON parser gets twice the length of the text and
  two, and \<open>Json_Total\<close> shows that this is enough for every text whose minus signs are each followed by
  a digit, and that more gives the same; the parser on cells gets the same; printing a variable gets as many
  levels as there are cells, which no value without a cycle exceeds (\<open>Json_Texts\<close>); the expiry loop of \<open>EventsDriver\<close> gets one round for each
  entry of its heap and one more, enough as long as its entries belong to watched descriptors
  (\<open>Events_Spec\<close>), while an entry that does not makes the loop exceed every bound; waiting on the pipe
  takes one round for each reading of the clock, which has to pass the timeout. Running out of rounds
  is the value \<open>Diverges\<close>, and the theorems on success exclude it. The heap is bounded by
  $2^{27} - 1$ entries, where its array stops growing.

  \<^bold>\<open>What is not modelled.\<close> Threads run one operation after another, except in \<open>Delay_Race\<close>, \<open>Mpsc_Race\<close>,
  \<open>Privacy_Spec\<close> and \<open>Default_Notifier\<close>, which take steps of overlapping calls apart; memory reordering is left out.
  \<open>malloc\<close> and \<open>new\<close> do not fail, except in \<open>Memory_Blocks\<close> and \<open>Common_Macros\<close>. An exception ends the
  run. The order in which an \<open>unordered_map\<close> is iterated depends on hash values and on how the map came
  about, which are not modelled: \<open>DumpJson\<close> has it as an argument, any function that gives each pair of
  each map once, and its theorems hold for all of them; the model lists the pairs of a map in the order
  of insertion, which also is the order in which they are deleted, where nothing depends on it. Floating
  point numbers are a type variable with functions to read, print and compare them. \<open>CreateDim3\<close> does not compile where it is used and has no meaning to model. The casts, the checks
  at compile time, the barriers and the declarations of loggers in \<^verbatim>\<open>common.h\<close> and the list of includes
  \<^verbatim>\<open>public.h\<close> hold no operations of their own. Tests and build files are outside the model.
\<close>

end
